(* ===== verification/Kaspar_Prelude.thy ===== *)
theory Kaspar_Prelude
  imports Complex_Main "HOL-Library.Word"
begin

text \<open>
  Shared vocabulary of the development.

  The program reports a broken invariant with the macros \<open>ASSERT\<close>, \<open>ERR\<close> and
  \<open>SNGH\<close> of \<open>src/chutil/include/chutil/Assert.hpp\<close> and \<open>Macros.hpp\<close>: they print
  and call \<open>abort()\<close>, and \<open>NOASSERT\<close>, which would turn them off, is defined in no
  build file. A function that can reach one of them therefore returns a value of
  \<open>'a res\<close>: \<open>Inl (Assert m)\<close> is the abort with the message \<open>m\<close>, \<open>Inr x\<close> the
  normal return. \<open>Undefined\<close> marks the few places where the C++ standard gives the
  code no meaning (a read outside a vector, a conversion of a non-finite double).
\<close>

section \<open>Aborting computations\<close>

datatype abort = Assert string | Undefined string

type_synonym 'a res = "abort + 'a"

definition chk :: "bool \<Rightarrow> string \<Rightarrow> 'a res \<Rightarrow> 'a res" where
  "chk c m k = (if c then k else Inl (Assert m))"

definition sngh :: "'a res" where
  "sngh = Inl (Assert ''should not get here'')"

definition bnd :: "'a res \<Rightarrow> ('a \<Rightarrow> 'b res) \<Rightarrow> 'b res" where
  "bnd r f = (case r of Inl e \<Rightarrow> Inl e | Inr x \<Rightarrow> f x)"

definition returns :: "'a res \<Rightarrow> bool" where
  "returns r = (case r of Inl _ \<Rightarrow> False | Inr _ \<Rightarrow> True)"

named_theorems res_simps "rewrite rules for computations that may abort"

lemma chk_True [simp]: "chk True m k = k"
  by (simp add: chk_def)

lemma chk_False [simp]: "chk False m k = Inl (Assert m)"
  by (simp add: chk_def)

lemma chk_eq_Inr [simp]: "chk c m k = Inr y \<longleftrightarrow> c \<and> k = Inr y"
  by (simp add: chk_def)

lemma bnd_Inr [simp]: "bnd (Inr x) f = f x"
  by (simp add: bnd_def)

lemma bnd_Inl [simp]: "bnd (Inl e) f = Inl e"
  by (simp add: bnd_def)

lemma bnd_eq_Inr [simp]: "bnd r f = Inr y \<longleftrightarrow> (\<exists>x. r = Inr x \<and> f x = Inr y)"
  by (cases r) (auto simp: bnd_def)

lemma sngh_not_Inr [simp]: "sngh \<noteq> Inr y" "Inr y \<noteq> sngh"
  by (simp_all add: sngh_def)

lemma returns_simps [simp]: "returns (Inr x)" "\<not> returns (Inl e)" "\<not> returns sngh"
  by (simp_all add: returns_def sngh_def)

lemma returns_chk [simp]: "returns (chk c m k) \<longleftrightarrow> c \<and> returns k"
  by (simp add: chk_def)

lemma returns_iff: "returns r \<longleftrightarrow> (\<exists>x. r = Inr x)"
  by (cases r) auto

lemma returns_bnd: "returns (bnd r f) \<longleftrightarrow> (\<exists>x. r = Inr x \<and> returns (f x))"
  by (cases r) auto

text \<open>\<open>defined r\<close>: the computation runs into no undefined behaviour.\<close>

definition defined :: "'a res \<Rightarrow> bool" where
  "defined r = (case r of Inl (Undefined _) \<Rightarrow> False | _ \<Rightarrow> True)"

lemma defined_simps [simp]: "defined (Inr x)" "defined (Inl (Assert m))" "\<not> defined (Inl (Undefined m))"
  by (simp_all add: defined_def)

lemma defined_bnd: "defined (bnd r f) \<Longrightarrow> \<forall>m. r \<noteq> Inl (Assert m) \<Longrightarrow> \<exists>x. r = Inr x \<and> defined (f x)"
  by (cases r) (auto simp: defined_def split: abort.splits)

text \<open>\<open>ensures P r\<close>: if the computation returns, what it returns satisfies \<open>P\<close>.\<close>

definition ensures :: "('a \<Rightarrow> bool) \<Rightarrow> 'a res \<Rightarrow> bool" where
  "ensures P r = (case r of Inl _ \<Rightarrow> True | Inr x \<Rightarrow> P x)"

lemma ensures_simps [simp]: "ensures P (Inr x) \<longleftrightarrow> P x" "ensures P (Inl e)" "ensures P sngh"
  by (simp_all add: ensures_def sngh_def)

lemma ensuresD: "ensures P r \<Longrightarrow> r = Inr x \<Longrightarrow> P x"
  by simp

lemma ensuresI: "(\<And>x. r = Inr x \<Longrightarrow> P x) \<Longrightarrow> ensures P r"
  by (cases r) simp_all

lemma ensures_chk: "(c \<Longrightarrow> ensures P k) \<Longrightarrow> ensures P (chk c m k)"
  by (simp add: chk_def)

lemma ensures_bnd: "(\<And>x. r = Inr x \<Longrightarrow> ensures P (f x)) \<Longrightarrow> ensures P (bnd r f)"
  by (cases r) simp_all

lemma ensures_seq: "ensures Q r \<Longrightarrow> (\<And>x. Q x \<Longrightarrow> ensures P (f x)) \<Longrightarrow> ensures P (bnd r f)"
  by (cases r) simp_all

lemma chk_cong [cong]: "c = d \<Longrightarrow> (d \<Longrightarrow> k = k') \<Longrightarrow> chk c m k = chk d m k'"
  by (simp add: chk_def)

section \<open>Checked machine arithmetic\<close>

text \<open>
  Overflow of a signed 32-bit \<open>int\<close> is undefined in C++: the result of an operation on
  \<open>int\<close> values is passed through \<open>ck32\<close> where it can leave the type. A conversion from
  \<open>double\<close> drops the fraction and is undefined outside the type.
\<close>

definition in32 :: "int \<Rightarrow> bool" where
  "in32 x \<longleftrightarrow> - (2 ^ 31) \<le> x \<and> x < 2 ^ 31"

definition ck32 :: "int \<Rightarrow> int res" where
  "ck32 x = (if in32 x then Inr x else Inl (Undefined ''signed overflow''))"

definition trunc32 :: "real \<Rightarrow> int res" where
  "trunc32 x =
     (let t = (if x \<ge> 0 then \<lfloor>x\<rfloor> else \<lceil>x\<rceil>)
      in if in32 t then Inr t else Inl (Undefined ''conversion out of range''))"

lemma ck32_eq_Inr [simp]: "ck32 x = Inr y \<longleftrightarrow> in32 x \<and> y = x"
  by (auto simp: ck32_def)

lemma ck32_ok: "in32 x \<Longrightarrow> ck32 x = Inr x"
  by simp

lemma ck32_not_Assert [simp]: "ck32 x \<noteq> Inl (Assert m)"
  by (simp add: ck32_def)

section \<open>Enumerations of the trading vocabulary\<close>

text \<open>
  \<open>en::bs\<close>, \<open>en::mt\<close>, \<open>en::md\<close> and \<open>en::ot\<close> of \<open>src/chutil/include/enum\<close>. The
  default constructor of each C++ enum struct stores the largest 32-bit value, which is
  no member: \<open>BS_NONE\<close> stands for it.
\<close>

datatype bs = BUY | SEL | BS_UNK | BS_UNI | BS_NONE

datatype mt = EXEC | CANC | MT_NONE | MT_UNI | CANCD | EXECD

datatype md = ADD | MOD | DEL | MD_UNI | MD_EXEC | EOE | CLEAR | TEST | EOP | GAP | EOBURST

datatype ot = LIMIT | OT_UNI

definition bs_valid :: "bs \<Rightarrow> bool" where
  "bs_valid s \<longleftrightarrow> s = BUY \<or> s = SEL \<or> s = BS_UNK"

fun other_side :: "bs \<Rightarrow> bs" where
  "other_side BUY = SEL"
| "other_side s = BUY"

type_synonym u32 = "32 word"
type_synonym u64 = "64 word"

section \<open>Generic lemmas on lists\<close>

lemma sum_list_filter_split:
  fixes f :: "'a \<Rightarrow> 'b::comm_monoid_add"
  shows "sum_list (map f xs) = sum_list (map f (filter P xs)) + sum_list (map f (filter (\<lambda>x. \<not> P x) xs))"
  by (induction xs) (auto simp: ac_simps)

lemma foldl_append_single [simp]: "foldl (\<lambda>a x. a @ [g x]) acc xs = acc @ map g xs"
  by (induction xs arbitrary: acc) auto

lemma nth_list_update_if: "i < length xs \<Longrightarrow> xs[j := x] ! i = (if i = j then x else xs ! i)"
  by (cases "j < length xs") (auto simp: nth_list_update)

end
