(* ===== verification/Flat_Map.thy ===== *)
theory Flat_Map
  imports Kaspar_Prelude
begin

text \<open>
  \<open>std::map\<close> and \<open>std::flat_map\<close> as the program uses them: \<open>find\<close>, assignment through
  \<open>operator[]\<close>, \<open>erase\<close> by key, and \<open>begin\<close>, the entry with the least key. A
  \<open>flat_map\<close> is a vector of key-value pairs kept sorted by key, and so is the model.
  The interface the components rely on is the locale \<open>ordered_store\<close>.
\<close>

section \<open>The interface\<close>

locale ordered_store =
  fixes empty :: "'m"
    and find :: "'m \<Rightarrow> 'k::linorder \<Rightarrow> 'v option"
    and put :: "'k \<Rightarrow> 'v \<Rightarrow> 'm \<Rightarrow> 'm"
    and erase :: "'k \<Rightarrow> 'm \<Rightarrow> 'm"
    and front :: "'m \<Rightarrow> ('k \<times> 'v) option"
    and inv :: "'m \<Rightarrow> bool"
  assumes find_empty: "find empty k = None"
    and find_put: "inv m \<Longrightarrow> find (put k v m) k' = (if k' = k then Some v else find m k')"
    and find_erase: "inv m \<Longrightarrow> find (erase k m) k' = (if k' = k then None else find m k')"
    and front_None: "inv m \<Longrightarrow> front m = None \<longleftrightarrow> (\<forall>k. find m k = None)"
    and front_Some: "inv m \<Longrightarrow> front m = Some (k, v) \<Longrightarrow>
           find m k = Some v \<and> (\<forall>k' v'. find m k' = Some v' \<longrightarrow> k \<le> k')"
    and inv_empty: "inv empty"
    and inv_put: "inv m \<Longrightarrow> inv (put k v m)"
    and inv_erase: "inv m \<Longrightarrow> inv (erase k m)"
begin

lemma put_same: "inv m \<Longrightarrow> find (put k v m) k = Some v"
  by (simp add: find_put)

lemma put_other: "inv m \<Longrightarrow> k' \<noteq> k \<Longrightarrow> find (put k v m) k' = find m k'"
  by (simp add: find_put)

lemma erase_put: "inv m \<Longrightarrow> find m k = None \<Longrightarrow> find (erase k (put k v m)) k' = find m k'"
  by (simp add: find_put find_erase inv_put)

lemma dom_put: "inv m \<Longrightarrow> dom (find (put k v m)) = insert k (dom (find m))"
  by (auto simp: find_put dom_def)

lemma dom_erase: "inv m \<Longrightarrow> dom (find (erase k m)) = dom (find m) - {k}"
  by (auto simp: find_erase dom_def split: if_splits)

text \<open>A loop that erases the front entry visits the keys in ascending order.\<close>

lemma erase_front_ascending:
  assumes "inv m" and "front m = Some (k, v)" and "front (erase k m) = Some (k', v')"
  shows "k < k'"
proof -
  have "find (erase k m) k' = Some v'"
    using front_Some [OF inv_erase [OF assms(1)] assms(3)] by simp
  then have "find m k' = Some v'" and "k' \<noteq> k"
    using find_erase [OF assms(1)] by (auto split: if_splits)
  moreover have "k \<le> k'"
    using front_Some [OF assms(1,2)] \<open>find m k' = Some v'\<close> by blast
  ultimately show ?thesis by simp
qed

end

section \<open>The sorted vector\<close>

type_synonym ('k, 'v) flat_map = "('k \<times> 'v) list"

definition fm_find :: "('k, 'v) flat_map \<Rightarrow> 'k \<Rightarrow> 'v option" where
  "fm_find m k = map_of m k"

fun fm_put :: "'k::linorder \<Rightarrow> 'v \<Rightarrow> ('k, 'v) flat_map \<Rightarrow> ('k, 'v) flat_map" where
  "fm_put k v [] = [(k, v)]"
| "fm_put k v (e # es) =
     (if fst e < k then e # fm_put k v es
      else if fst e = k then (k, v) # es
      else (k, v) # e # es)"

definition fm_erase :: "'k \<Rightarrow> ('k, 'v) flat_map \<Rightarrow> ('k, 'v) flat_map" where
  "fm_erase k m = filter (\<lambda>e. fst e \<noteq> k) m"

definition fm_front :: "('k, 'v) flat_map \<Rightarrow> ('k \<times> 'v) option" where
  "fm_front m = (case m of [] \<Rightarrow> None | e # _ \<Rightarrow> Some e)"

definition fm_inv :: "('k::linorder, 'v) flat_map \<Rightarrow> bool" where
  "fm_inv m \<longleftrightarrow> sorted_wrt (<) (map fst m)"

lemma fm_find_Nil [simp]: "fm_find [] k = None"
  by (simp add: fm_find_def)

lemma fm_find_Cons: "fm_find (e # es) k = (if fst e = k then Some (snd e) else fm_find es k)"
  by (cases e) (auto simp: fm_find_def)

lemma fm_put_set: "e \<in> set (fm_put k v m) \<Longrightarrow> e = (k, v) \<or> e \<in> set m"
  by (induction m) (auto split: if_splits)

lemma fm_find_put: "fm_inv m \<Longrightarrow> fm_find (fm_put k v m) k' = (if k' = k then Some v else fm_find m k')"
  by (induction m) (auto simp: fm_inv_def fm_find_Cons)

lemma fm_find_erase: "fm_find (fm_erase k m) k' = (if k' = k then None else fm_find m k')"
  by (induction m) (auto simp: fm_erase_def fm_find_Cons)

lemma fm_inv_put: "fm_inv m \<Longrightarrow> fm_inv (fm_put k v m)"
  unfolding fm_inv_def
  by (induction m) (auto dest!: fm_put_set)

lemma fm_inv_erase: "fm_inv m \<Longrightarrow> fm_inv (fm_erase k m)"
  by (auto simp: fm_inv_def fm_erase_def sorted_wrt_map intro: sorted_wrt_filter)

lemma fm_find_iff: "fm_inv m \<Longrightarrow> fm_find m k = Some v \<longleftrightarrow> (k, v) \<in> set m"
proof -
  assume "fm_inv m"
  then have "distinct (map fst m)"
    by (auto simp: fm_inv_def strict_sorted_iff)
  then show ?thesis
    by (simp add: fm_find_def)
qed

lemma set_fm_put_new:
  "fm_find m k = None \<Longrightarrow> set (fm_put k v m) = insert (k, v) (set m)"
  by (induction m) (auto simp: fm_find_Cons split: if_splits)

interpretation fm: ordered_store "[]" fm_find fm_put fm_erase fm_front fm_inv
proof
  show "fm_find [] k = None" for k :: 'a
    by simp
  show "fm_inv m \<Longrightarrow> fm_find (fm_put k v m) k' = (if k' = k then Some v else fm_find m k')"
    for m :: "('a, 'b) flat_map" and k k' v
    by (rule fm_find_put)
  show "fm_inv m \<Longrightarrow> fm_find (fm_erase k m) k' = (if k' = k then None else fm_find m k')"
    for m :: "('a, 'b) flat_map" and k k'
    by (rule fm_find_erase)
  show "fm_inv m \<Longrightarrow> fm_front m = None \<longleftrightarrow> (\<forall>k. fm_find m k = None)"
    for m :: "('a, 'b) flat_map"
    by (cases m) (auto simp: fm_front_def fm_find_Cons)
  show "fm_inv m \<Longrightarrow> fm_front m = Some (k, v) \<Longrightarrow>
          fm_find m k = Some v \<and> (\<forall>k' v'. fm_find m k' = Some v' \<longrightarrow> k \<le> k')"
    for m :: "('a, 'b) flat_map" and k v
    by (cases m) (auto simp: fm_front_def fm_find_Cons fm_inv_def fm_find_def dest!: map_of_SomeD
          intro: less_imp_le)
  show "fm_inv ([] :: ('a, 'b) flat_map)"
    by (simp add: fm_inv_def)
  show "fm_inv m \<Longrightarrow> fm_inv (fm_put k v m)" for m :: "('a, 'b) flat_map" and k v
    by (rule fm_inv_put)
  show "fm_inv m \<Longrightarrow> fm_inv (fm_erase k m)" for m :: "('a, 'b) flat_map" and k
    by (rule fm_inv_erase)
qed

text \<open>Sums over the entries.\<close>

lemma sum_fm_put:
  fixes f :: "'k::linorder \<times> 'v \<Rightarrow> int"
  shows "fm_inv m \<Longrightarrow> (\<Sum>e\<leftarrow>fm_put k v m. f e)
     = (\<Sum>e\<leftarrow>m. f e) - (case fm_find m k of None \<Rightarrow> 0 | Some w \<Rightarrow> f (k, w)) + f (k, v)"
proof (induction m)
  case (Cons e es)
  have "fm_find es k = None" if "k < fst e"
  proof (cases "fm_find es k")
    case (Some w)
    then have "(k, w) \<in> set es"
      by (simp add: fm_find_def map_of_SomeD)
    then show ?thesis
      using Cons.prems that by (force simp: fm_inv_def)
  qed
  then show ?case
    using Cons by (cases e) (auto simp: fm_inv_def fm_find_Cons split: option.splits)
qed simp

lemma sum_fm_erase:
  fixes f :: "'k::linorder \<times> 'v \<Rightarrow> int"
  shows "fm_inv m \<Longrightarrow> (\<Sum>e\<leftarrow>fm_erase k m. f e)
     = (\<Sum>e\<leftarrow>m. f e) - (case fm_find m k of None \<Rightarrow> 0 | Some w \<Rightarrow> f (k, w))"
proof (induction m)
  case (Cons e es)
  have "fm_erase k es = es \<and> fm_find es k = None" if "k = fst e"
    using Cons.prems that by (force simp: fm_inv_def fm_erase_def fm_find_def filter_id_conv map_of_eq_None_iff)
  then show ?case
    using Cons by (cases e) (auto simp: fm_inv_def fm_find_Cons fm_erase_def split: option.splits)
qed (simp add: fm_erase_def)

lemmas fm_simps = fm.find_put fm.find_erase fm.inv_put fm.inv_erase fm.inv_empty

end
