(* ===== verification/QCoord.thy ===== *)
theory QCoord
  imports Flat_Map
begin

text \<open>
  The coordinators of a bank of lights, \<open>PCoord\<close> and \<open>QCoord\<close> of
  \<open>src/light/include/light/qcoord.hpp\<close>: the shared position and the book-keeping of the
  resting orders per price and light, with the caches of
  \<open>src/chutil/include/chutil/cache_array.hpp\<close>. Each method holds its mutex for its whole
  body, so a method is one step. A \<open>boost::unordered_flat_map\<close> keyed by \<open>uint64_t\<close> is a
  partial map; an \<open>int\<close> price used as a key is converted to 64 bits as C++ does.
  \<open>QCOORDMULTIREMOVE\<close> is defined in the source, so a remove for a light without an
  order returns 0.
\<close>

section \<open>PCoord\<close>

record PCoord =
  position :: int
  last_trade_px_buy :: int
  last_trade_px_sel :: int

definition PCoord_init :: PCoord where
  "PCoord_init = \<lparr>position = 0, last_trade_px_buy = 0, last_trade_px_sel = 0\<rparr>"

definition add_position :: "PCoord \<Rightarrow> bs \<Rightarrow> int \<Rightarrow> PCoord res" where
  "add_position p side sz =
     (if sz < 1 then Inr p
      else chk (sz > 0) ''bad sz''
        (if side = BUY then Inr (p\<lparr>position := position p + sz\<rparr>)
         else if side = SEL then Inr (p\<lparr>position := position p - sz\<rparr>)
         else sngh))"

definition set_last_trade_px :: "PCoord \<Rightarrow> int \<Rightarrow> bs \<Rightarrow> PCoord res" where
  "set_last_trade_px p px side =
     (if side = BUY then Inr (p\<lparr>last_trade_px_buy := px\<rparr>)
      else if side = SEL then Inr (p\<lparr>last_trade_px_sel := px\<rparr>)
      else sngh)"

definition get_last_trade_px :: "PCoord \<Rightarrow> bs \<Rightarrow> int res" where
  "get_last_trade_px p side =
     (if side = BUY then Inr (last_trade_px_buy p)
      else if side = SEL then Inr (last_trade_px_sel p)
      else sngh)"

section \<open>The caches\<close>

type_synonym cache = "u64 \<rightharpoonup> int"

definition cache_insert :: "cache \<Rightarrow> u64 \<Rightarrow> int \<Rightarrow> bool \<Rightarrow> cache res" where
  "cache_insert c k v overwrite =
     chk (overwrite \<or> c k = None) ''already has val'' (Inr (c(k \<mapsto> v)))"

definition cache_get :: "cache \<Rightarrow> u64 \<Rightarrow> int option" where
  "cache_get c k = c k"

definition cache_clear :: cache where
  "cache_clear = Map.empty"

definition px_key :: "int \<Rightarrow> u64" where
  "px_key px = word_of_int px"

text \<open>The code of \<open>en::bs\<close>, and the union of side and price read as one 64-bit index.\<close>

fun bs_code :: "bs \<Rightarrow> u32" where
  "bs_code BUY = 0"
| "bs_code SEL = 1"
| "bs_code BS_UNK = 2"
| "bs_code BS_UNI = 3"
| "bs_code BS_NONE = 4294967295"

definition side_px_key :: "bs \<Rightarrow> int \<Rightarrow> u64" where
  "side_px_key side px = ucast (bs_code side) + 4294967296 * ucast (word_of_int px :: u32)"

section \<open>QCoord\<close>

record qord =
  q_id :: int
  q_sz :: int

record QCoord =
  cache_sz_at_px :: cache
  chache_cum_sz :: cache
  last_in_at_px :: cache
  num_canc :: int
  px_mmid_ord :: "(int, (int, qord) flat_map) flat_map"
  mmid_orders :: "256 word"
  tot_sz_cache :: int
  attached_order_id :: u64

definition kMaxMmid :: int where "kMaxMmid = 256"

definition QCoord_init :: QCoord where
  "QCoord_init = \<lparr>cache_sz_at_px = Map.empty, chache_cum_sz = Map.empty, last_in_at_px = Map.empty, num_canc = 0,
     px_mmid_ord = [], mmid_orders = 0, tot_sz_cache = 0, attached_order_id = 0\<rparr>"

fun sum_sz :: "(int, qord) flat_map \<Rightarrow> int" where
  "sum_sz [] = 0"
| "sum_sz (e # es) = q_sz (snd e) + sum_sz es"

definition sz_at_px :: "QCoord \<Rightarrow> int \<Rightarrow> (int \<times> QCoord) res" where
  "sz_at_px c px =
     (case cache_get (cache_sz_at_px c) (px_key px) of
        Some v \<Rightarrow> Inr (v, c)
      | None \<Rightarrow>
          (case fm_find (px_mmid_ord c) px of
             None \<Rightarrow> Inr (0, c)
           | Some inner \<Rightarrow>
               (let sz = sum_sz inner in
                bnd (cache_insert (cache_sz_at_px c) (px_key px) sz False)
                  (\<lambda>ch. Inr (sz, c\<lparr>cache_sz_at_px := ch\<rparr>)))))"

definition qc_add_order :: "QCoord \<Rightarrow> int \<Rightarrow> int \<Rightarrow> int \<Rightarrow> int \<Rightarrow> int \<Rightarrow> QCoord res" where
  "qc_add_order c px sz mmid oid mxsz =
     chk (sz > 0 \<and> mxsz > 0) ''bad sz''
      (bnd (case fm_find (px_mmid_ord c) px of
              Some inner \<Rightarrow>
                chk (fm_find inner mmid = None) ''already have this mm id''
                  (Inr (fm_put px (fm_put mmid \<lparr>q_id = oid, q_sz = sz\<rparr> inner) (px_mmid_ord c)))
            | None \<Rightarrow> Inr (fm_put px (fm_put mmid \<lparr>q_id = oid, q_sz = sz\<rparr> []) (px_mmid_ord c)))
        (\<lambda>m. chk (mmid \<ge> 0 \<and> mmid < kMaxMmid) ''mmid out of range''
           (bnd (cache_insert (last_in_at_px c) (px_key px) mmid True)
             (\<lambda>li. bnd (sz_at_px (c\<lparr>px_mmid_ord := m, mmid_orders := set_bit (nat mmid) (mmid_orders c),
                                    last_in_at_px := li\<rparr>) px)
                (\<lambda>(v, c1). chk (v \<le> mxsz) ''max size exceeded''
                   (Inr (c1\<lparr>tot_sz_cache := tot_sz_cache c1 + sz, cache_sz_at_px := cache_clear,
                            chache_cum_sz := cache_clear\<rparr>)))))))"

definition qc_remove_order :: "QCoord \<Rightarrow> int \<Rightarrow> int \<Rightarrow> int \<Rightarrow> int \<Rightarrow> bool \<Rightarrow> (int \<times> QCoord) res" where
  "qc_remove_order c px sz mmid oid all =
     chk (\<not> all \<longrightarrow> sz > 0) ''bad sz''
      (if mmid < 0 \<or> mmid \<ge> kMaxMmid \<or> \<not> bit (mmid_orders c) (nat mmid) then Inr (0, c)
       else
        (case fm_find (px_mmid_ord c) px of
           None \<Rightarrow> Inl (Assert ''no such price'')
         | Some inner \<Rightarrow>
             (case fm_find inner mmid of
                None \<Rightarrow> Inl (Assert ''no such mmid to fill'')
              | Some o2 \<Rightarrow>
                  chk (q_id o2 = oid) ''order ids do not match''
                   (chk (sz \<le> q_sz o2) ''cannot remove that much size''
                    (let left = q_sz o2 - sz in
                     if left = 0 \<or> all then
                       Inr (0, c\<lparr>tot_sz_cache := tot_sz_cache c - left - sz,
                                px_mmid_ord := fm_put px (fm_erase mmid inner) (px_mmid_ord c),
                                mmid_orders := unset_bit (nat mmid) (mmid_orders c),
                                cache_sz_at_px := cache_clear, chache_cum_sz := cache_clear\<rparr>)
                     else
                       Inr (left, c\<lparr>tot_sz_cache := tot_sz_cache c - sz,
                                px_mmid_ord := fm_put px (fm_put mmid (o2\<lparr>q_sz := left\<rparr>) inner) (px_mmid_ord c),
                                cache_sz_at_px := cache_clear, chache_cum_sz := cache_clear\<rparr>))))))"

definition last_in :: "QCoord \<Rightarrow> int \<Rightarrow> int" where
  "last_in c px = (case cache_get (last_in_at_px c) (px_key px) of None \<Rightarrow> -1 | Some v \<Rightarrow> v)"

fun cum_loop :: "(int \<Rightarrow> bool) \<Rightarrow> (int, (int, qord) flat_map) flat_map \<Rightarrow> int \<Rightarrow> int" where
  "cum_loop keep [] sz = sz"
| "cum_loop keep (e # es) sz = cum_loop keep es (if keep (fst e) then sz + sum_sz (snd e) else sz)"

definition cum_sz_upto_px :: "QCoord \<Rightarrow> bs \<Rightarrow> int \<Rightarrow> bool \<Rightarrow> (int \<times> QCoord) res" where
  "cum_sz_upto_px c side px use_cache =
     (case (if use_cache then cache_get (chache_cum_sz c) (side_px_key side px) else None) of
        Some v \<Rightarrow> Inr (v, c)
      | None \<Rightarrow>
          (let sz = (if side = BUY then cum_loop (\<lambda>p. p \<ge> px) (rev (px_mmid_ord c)) 0
                     else if side = SEL then cum_loop (\<lambda>p. p \<le> px) (px_mmid_ord c) 0
                     else 0)
           in if use_cache then
                bnd (cache_insert (chache_cum_sz c) (side_px_key side px) sz False)
                  (\<lambda>ch. Inr (sz, c\<lparr>chache_cum_sz := ch\<rparr>))
              else Inr (sz, c)))"

definition total_sz :: "QCoord \<Rightarrow> int" where
  "total_sz c = tot_sz_cache c"

text \<open>
  The loops test \<open>p->second.empty()\<close> before \<open>p != end()\<close>, so they read through the end
  iterator when every price is empty.
\<close>

fun first_nonempty :: "(int, (int, qord) flat_map) flat_map \<Rightarrow> int res" where
  "first_nonempty [] = Inl (Undefined ''end iterator dereferenced'')"
| "first_nonempty (e # es) = (if snd e = [] then first_nonempty es else Inr (fst e))"

definition INT_MIN :: int where "INT_MIN = -2147483648"
definition INT_MAX :: int where "INT_MAX = 2147483647"

definition lowest_price :: "QCoord \<Rightarrow> int res" where
  "lowest_price c = (if px_mmid_ord c = [] then Inr INT_MIN else first_nonempty (px_mmid_ord c))"

definition highest_price :: "QCoord \<Rightarrow> int res" where
  "highest_price c = (if px_mmid_ord c = [] then Inr INT_MAX else first_nonempty (rev (px_mmid_ord c)))"

definition incr_num_canc :: "QCoord \<Rightarrow> int \<times> QCoord" where
  "incr_num_canc c = (num_canc c + 1, c\<lparr>num_canc := num_canc c + 1\<rparr>)"

definition clear_num_canc :: "QCoord \<Rightarrow> QCoord" where
  "clear_num_canc c = c\<lparr>num_canc := 0\<rparr>"

definition set_attached_order_id :: "QCoord \<Rightarrow> u64 \<Rightarrow> QCoord" where
  "set_attached_order_id c i = c\<lparr>attached_order_id := i\<rparr>"

section \<open>Keys\<close>

definition int32 :: "int \<Rightarrow> bool" where
  "int32 x \<longleftrightarrow> INT_MIN \<le> x \<and> x \<le> INT_MAX"

lemma mod_diff_small: "(x :: int) mod m = y mod m \<Longrightarrow> \<bar>x - y\<bar> < m \<Longrightarrow> x = y"
  by (metis abs_minus_commute dvd_imp_le_int eq_iff_diff_eq_0 abs_le_iff abs_ge_self linorder_not_less
      mod_eq_dvd_iff order.strict_trans1 abs_of_nonneg dvd_abs_iff zdvd_not_zless zero_less_abs_iff)

lemma px_key_inj: "int32 x \<Longrightarrow> int32 y \<Longrightarrow> px_key x = px_key y \<longleftrightarrow> x = y"
  using mod_diff_small [of x "2 ^ 64" y]
  by (auto simp: px_key_def int32_def INT_MIN_def INT_MAX_def word_of_int_eq_iff take_bit_eq_mod)

lemma u32_inj: "int32 x \<Longrightarrow> int32 y \<Longrightarrow> (word_of_int x :: u32) = word_of_int y \<longleftrightarrow> x = y"
  using mod_diff_small [of x "2 ^ 32" y]
  by (auto simp: int32_def INT_MIN_def INT_MAX_def word_of_int_eq_iff take_bit_eq_mod)

lemma bs_code_inj: "bs_code s = bs_code s' \<longleftrightarrow> s = s'"
  by (cases s; cases s'; simp)

lemma pack_inj:
  fixes a b c d :: u32
  shows "(ucast a + 4294967296 * ucast b :: u64) = ucast c + 4294967296 * ucast d \<longleftrightarrow> a = c \<and> b = d"
proof -
  have l: "unat x < 4294967296" for x :: u32
    using unsigned_less [of x, where ?'a = nat] by simp
  have u: "unat (ucast x + 4294967296 * ucast y :: u64) = unat x + 4294967296 * unat y" for x y :: u32
    using l [of x] l [of y] by (simp add: unat_word_ariths unsigned_ucast_eq take_bit_nat_eq_self_iff take_bit_eq_mod)
  show ?thesis (is "?l \<longleftrightarrow> ?r")
  proof
    assume ?l
    then have e: "unat a + 4294967296 * unat b = unat c + 4294967296 * unat d"
      using u [of a b] u [of c d] by simp
    then have "unat a = unat c"
      using l [of a] l [of c] by (metis mod_less mod_mult_self2)
    then show ?r
      using e by (simp add: word_unat_eq_iff)
  qed simp
qed

lemma side_px_key_inj: "int32 x \<Longrightarrow> int32 y \<Longrightarrow> side_px_key s x = side_px_key s' y \<longleftrightarrow> s = s' \<and> x = y"
  by (simp add: side_px_key_def pack_inj u32_inj bs_code_inj)

section \<open>The invariant\<close>

definition size_at :: "QCoord \<Rightarrow> int \<Rightarrow> int" where
  "size_at c px = (case fm_find (px_mmid_ord c) px of None \<Rightarrow> 0 | Some inner \<Rightarrow> sum_sz inner)"

definition cum_at :: "QCoord \<Rightarrow> bs \<Rightarrow> int \<Rightarrow> int" where
  "cum_at c side px = (\<Sum>e\<leftarrow>px_mmid_ord c.
     if side = BUY \<and> fst e \<ge> px \<or> side = SEL \<and> fst e \<le> px then sum_sz (snd e) else 0)"

definition total_of :: "QCoord \<Rightarrow> int" where
  "total_of c = (\<Sum>e\<leftarrow>px_mmid_ord c. sum_sz (snd e))"

definition inner_ok :: "(int, qord) flat_map \<Rightarrow> bool" where
  "inner_ok m \<longleftrightarrow> fm_inv m \<and> (\<forall>e\<in>set m. q_sz (snd e) > 0)"

definition qc_inv :: "QCoord \<Rightarrow> bool" where
  "qc_inv c \<longleftrightarrow> fm_inv (px_mmid_ord c) \<and> (\<forall>e\<in>set (px_mmid_ord c). inner_ok (snd e))
     \<and> tot_sz_cache c = total_of c
     \<and> (\<forall>px v. int32 px \<longrightarrow> cache_sz_at_px c (px_key px) = Some v \<longrightarrow> v = size_at c px)
     \<and> (\<forall>s px v. int32 px \<longrightarrow> chache_cum_sz c (side_px_key s px) = Some v \<longrightarrow> v = cum_at c s px)"

lemma sum_sz_eq: "sum_sz m = (\<Sum>e\<leftarrow>m. q_sz (snd e))"
  by (induction m) auto

lemma cum_loop_eq: "cum_loop keep m sz = sz + (\<Sum>e\<leftarrow>m. if keep (fst e) then sum_sz (snd e) else 0)"
  by (induction m arbitrary: sz) auto

lemma qc_init_inv: "qc_inv QCoord_init"
  by (simp add: qc_inv_def QCoord_init_def fm_inv_def total_of_def)

lemma sz_at_px_ok:
  assumes "qc_inv c" "int32 px"
  shows "\<exists>ch. sz_at_px c px = Inr (size_at c px, c\<lparr>cache_sz_at_px := ch\<rparr>) \<and> qc_inv (c\<lparr>cache_sz_at_px := ch\<rparr>)"
proof (cases "cache_sz_at_px c (px_key px)")
  case (Some v)
  then show ?thesis
    using assms by (intro exI [of _ "cache_sz_at_px c"]) (auto simp: sz_at_px_def cache_get_def qc_inv_def)
next
  case None
  show ?thesis
  proof (cases "fm_find (px_mmid_ord c) px")
    case f: None
    show ?thesis
      using assms None f by (intro exI [of _ "cache_sz_at_px c"]) (simp add: sz_at_px_def cache_get_def size_at_def)
  next
    case f: (Some inner)
    have "size_at c px = sum_sz inner"
      using f by (simp add: size_at_def)
    then show ?thesis
      using assms None f px_key_inj [OF _ assms(2)]
      by (intro exI [of _ "(cache_sz_at_px c)(px_key px \<mapsto> sum_sz inner)"])
        (auto simp: sz_at_px_def cache_get_def cache_insert_def qc_inv_def size_at_def cum_at_def total_of_def Let_def)
  qed
qed

lemma cum_sz_ok:
  assumes "qc_inv c" "int32 px"
  shows "\<exists>ch. cum_sz_upto_px c side px use_cache = Inr (cum_at c side px, c\<lparr>chache_cum_sz := ch\<rparr>)
     \<and> qc_inv (c\<lparr>chache_cum_sz := ch\<rparr>)"
proof -
  let ?m = "px_mmid_ord c"
  have sz: "(if side = BUY then cum_loop (\<lambda>p. p \<ge> px) (rev ?m) 0
             else if side = SEL then cum_loop (\<lambda>p. p \<le> px) ?m 0 else 0) = cum_at c side px"
    by (simp add: cum_loop_eq cum_at_def rev_map [symmetric])
  consider (hit) v where "use_cache" "chache_cum_sz c (side_px_key side px) = Some v"
    | (miss) "use_cache" "chache_cum_sz c (side_px_key side px) = None" | (off) "\<not> use_cache"
    by (cases "chache_cum_sz c (side_px_key side px)") auto
  then show ?thesis
  proof cases
    case hit
    then have "v = cum_at c side px"
      using assms by (auto simp: qc_inv_def)
    then show ?thesis
      using hit assms by (intro exI [of _ "chache_cum_sz c"]) (simp add: cum_sz_upto_px_def cache_get_def)
  next
    case miss
    then show ?thesis
      using assms side_px_key_inj [OF _ assms(2)]
      by (intro exI [of _ "(chache_cum_sz c)(side_px_key side px \<mapsto> cum_at c side px)"])
        (auto simp: cum_sz_upto_px_def cache_get_def cache_insert_def sz [unfolded cum_at_def] Let_def qc_inv_def size_at_def cum_at_def total_of_def)
  next
    case off
    then show ?thesis
      using assms by (intro exI [of _ "chache_cum_sz c"]) (simp add: cum_sz_upto_px_def cache_get_def sz)
  qed
qed

lemma size_at_put:
  assumes "fm_inv (px_mmid_ord c)" "px_mmid_ord c' = fm_put px inner (px_mmid_ord c)"
  shows "size_at c' px' = (if px' = px then sum_sz inner else size_at c px')"
    "total_of c' = total_of c + sum_sz inner - size_at c px"
  using assms sum_fm_put [OF assms(1), of "\<lambda>e. sum_sz (snd e)" px inner]
  by (auto simp: size_at_def total_of_def fm_find_put split: option.splits)

lemma qc_inv_update:
  assumes "qc_inv c" "inner_ok inner" "px_mmid_ord c' = fm_put px inner (px_mmid_ord c)"
    "cache_sz_at_px c' = Map.empty" "chache_cum_sz c' = Map.empty"
    "tot_sz_cache c' = tot_sz_cache c + sum_sz inner - size_at c px"
  shows "qc_inv c'"
proof -
  have "\<forall>e\<in>set (fm_put px inner (px_mmid_ord c)). inner_ok (snd e)"
    using assms(1,2) by (auto simp: qc_inv_def dest!: fm_put_set)
  then show ?thesis
    using assms size_at_put(2) [OF _ assms(3)] by (simp add: qc_inv_def fm_inv_put)
qed

lemma fm_find_mem: "fm_find m k = Some v \<Longrightarrow> (k, v) \<in> set m"
  by (simp add: fm_find_def map_of_SomeD)

lemma inner_put:
  assumes "inner_ok m" "sz > 0"
  shows "inner_ok (fm_put k \<lparr>q_id = i, q_sz = sz\<rparr> m)"
    "sum_sz (fm_put k \<lparr>q_id = i, q_sz = sz\<rparr> m) = sum_sz m - (case fm_find m k of None \<Rightarrow> 0 | Some w \<Rightarrow> q_sz w) + sz"
  using assms sum_fm_put [of m "\<lambda>e. q_sz (snd e)" k "\<lparr>q_id = i, q_sz = sz\<rparr>"]
  by (auto simp: inner_ok_def sum_sz_eq fm_inv_put dest!: fm_put_set split: option.splits)

lemma fm_erase_set: "e \<in> set (fm_erase k m) \<longleftrightarrow> e \<in> set m \<and> fst e \<noteq> k"
  by (simp add: fm_erase_def)

lemma qord_resize: "o2\<lparr>q_sz := n\<rparr> = \<lparr>q_id = q_id o2, q_sz = n\<rparr>"
  by (cases o2) simp

lemma inner_erase:
  assumes "inner_ok m"
  shows "inner_ok (fm_erase k m)"
    "sum_sz (fm_erase k m) = sum_sz m - (case fm_find m k of None \<Rightarrow> 0 | Some w \<Rightarrow> q_sz w)"
  using assms sum_fm_erase [of m "\<lambda>e. q_sz (snd e)" k]
  by (auto simp: inner_ok_def sum_sz_eq fm_inv_erase fm_erase_set split: option.splits)

lemma inner_ok_found: "qc_inv c \<Longrightarrow> fm_find (px_mmid_ord c) px = Some inner \<Longrightarrow> inner_ok inner"
  by (auto simp: qc_inv_def dest!: fm_find_mem)

text \<open>The order map after an add: the level with the new order in it.\<close>

definition level_of :: "QCoord \<Rightarrow> int \<Rightarrow> (int, qord) flat_map" where
  "level_of c px = (case fm_find (px_mmid_ord c) px of None \<Rightarrow> [] | Some inner \<Rightarrow> inner)"

lemma size_at_level: "size_at c px = sum_sz (level_of c px)"
  by (simp add: level_of_def size_at_def split: option.splits)

lemma level_of_ok: "qc_inv c \<Longrightarrow> inner_ok (level_of c px)"
  using inner_ok_found [of c px] by (cases "fm_find (px_mmid_ord c) px") (simp_all add: level_of_def inner_ok_def fm_inv_def)

lemma qc_add_order_cases:
  assumes "qc_add_order c px sz mmid oid mxsz = Inr c'"
  shows "sz > 0" "0 \<le> mmid" "mmid < kMaxMmid" "fm_find (level_of c px) mmid = None"
    "px_mmid_ord c' = fm_put px (fm_put mmid \<lparr>q_id = oid, q_sz = sz\<rparr> (level_of c px)) (px_mmid_ord c)"
    "cache_sz_at_px c' = Map.empty" "chache_cum_sz c' = Map.empty" "tot_sz_cache c' = tot_sz_cache c + sz"
    "mmid_orders c' = set_bit (nat mmid) (mmid_orders c)"
  using assms
  by (auto simp: qc_add_order_def level_of_def cache_clear_def cache_insert_def sz_at_px_def cache_get_def Let_def
      split: option.splits if_splits)

lemma qc_add_order_inv:
  assumes "qc_inv c" "qc_add_order c px sz mmid oid mxsz = Inr c'"
  shows "qc_inv c'"
proof -
  note a = qc_add_order_cases [OF assms(2)]
  note l = level_of_ok [OF assms(1), of px] size_at_level [of c px]
  show ?thesis
    using qc_inv_update [OF assms(1) inner_put(1) [OF l(1) a(1)] a(5-7)] inner_put(2) [OF l(1) a(1), of mmid oid] a(4,8) l(2)
    by simp
qed

lemma qc_remove_order_cases:
  assumes "qc_remove_order c px sz mmid oid all = Inr (r, c')"
  obtains (noop) "c' = c" "r = 0" "mmid < 0 \<or> mmid \<ge> kMaxMmid \<or> \<not> bit (mmid_orders c) (nat mmid)"
  | (gone) o2 where "fm_find (level_of c px) mmid = Some o2" "q_id o2 = oid" "all \<or> sz = q_sz o2" "r = 0"
      "px_mmid_ord c' = fm_put px (fm_erase mmid (level_of c px)) (px_mmid_ord c)"
      "cache_sz_at_px c' = Map.empty" "chache_cum_sz c' = Map.empty" "tot_sz_cache c' = tot_sz_cache c - q_sz o2"
      "mmid_orders c' = unset_bit (nat mmid) (mmid_orders c)"
  | (part) o2 where "fm_find (level_of c px) mmid = Some o2" "q_id o2 = oid" "0 < sz" "sz < q_sz o2" "r = q_sz o2 - sz"
      "px_mmid_ord c' = fm_put px (fm_put mmid \<lparr>q_id = oid, q_sz = q_sz o2 - sz\<rparr> (level_of c px)) (px_mmid_ord c)"
      "cache_sz_at_px c' = Map.empty" "chache_cum_sz c' = Map.empty" "tot_sz_cache c' = tot_sz_cache c - sz"
      "mmid_orders c' = mmid_orders c"
proof (cases "mmid < 0 \<or> mmid \<ge> kMaxMmid \<or> \<not> bit (mmid_orders c) (nat mmid)")
  case True
  then show thesis
    using assms noop by (auto simp: qc_remove_order_def)
next
  case False
  obtain inner o2 where f: "fm_find (px_mmid_ord c) px = Some inner" "fm_find inner mmid = Some o2" "q_id o2 = oid" "sz \<le> q_sz o2"
    "\<not> all \<longrightarrow> sz > 0"
    using assms False by (auto simp: qc_remove_order_def Let_def split: option.splits)
  have lv: "level_of c px = inner"
    using f(1) by (simp add: level_of_def)
  show thesis
  proof (cases "q_sz o2 - sz = 0 \<or> all")
    case True
    then show thesis
      using assms False f lv by (intro gone [of o2]) (auto simp: qc_remove_order_def Let_def cache_clear_def)
  next
    case part': False
    then show thesis
      using assms False f lv by (intro part [of o2]) (auto simp: qc_remove_order_def Let_def cache_clear_def qord_resize)
  qed
qed

lemma qc_remove_order_inv:
  assumes "qc_inv c" "qc_remove_order c px sz mmid oid all = Inr (r, c')"
  shows "qc_inv c'"
  using assms(2)
proof (cases rule: qc_remove_order_cases)
  case noop
  then show ?thesis
    using assms(1) by simp
next
  case (gone o2)
  note l = level_of_ok [OF assms(1), of px] size_at_level [of c px]
  show ?thesis
    using qc_inv_update [OF assms(1) inner_erase(1) [OF l(1)] gone(5-7)] inner_erase(2) [OF l(1), of mmid] gone(1,8) l(2)
    by simp
next
  case (part o2)
  note l = level_of_ok [OF assms(1), of px] size_at_level [of c px]
  have p: "q_sz o2 - sz > 0"
    using part(4) by simp
  show ?thesis
    using qc_inv_update [OF assms(1) inner_put(1) [OF l(1) p] part(6-8)] inner_put(2) [OF l(1) p, of mmid oid] part(1,9) l(2)
    by simp
qed

section \<open>Runs of a bank of lights\<close>

text \<open>
  The states a bank can bring its coordinator to. With \<open>disc\<close> a light adds an order only
  while its bit is clear: each light works one order at a time, which the assertion
  commented out at the head of \<open>add_order\<close> would enforce.
\<close>

inductive qc_reachable :: "bool \<Rightarrow> QCoord \<Rightarrow> bool" for disc where
  qc_start: "qc_reachable disc QCoord_init"
| qc_add: "qc_reachable disc c \<Longrightarrow> disc \<longrightarrow> \<not> bit (mmid_orders c) (nat mmid) \<Longrightarrow>
     qc_add_order c px sz mmid oid mxsz = Inr c' \<Longrightarrow> qc_reachable disc c'"
| qc_remove: "qc_reachable disc c \<Longrightarrow> qc_remove_order c px sz mmid oid all = Inr (r, c') \<Longrightarrow> qc_reachable disc c'"
| qc_query: "qc_reachable disc c \<Longrightarrow> int32 px \<Longrightarrow> sz_at_px c px = Inr (v, c') \<Longrightarrow> qc_reachable disc c'"
| qc_query_cum: "qc_reachable disc c \<Longrightarrow> int32 px \<Longrightarrow> cum_sz_upto_px c side px uc = Inr (v, c') \<Longrightarrow> qc_reachable disc c'"
| qc_attach: "qc_reachable disc c \<Longrightarrow> qc_reachable disc (set_attached_order_id c i)"
| qc_canc: "qc_reachable disc c \<Longrightarrow> qc_reachable disc (snd (incr_num_canc c))"
| qc_clear: "qc_reachable disc c \<Longrightarrow> qc_reachable disc (clear_num_canc c)"

lemma qc_reachable_inv: "qc_reachable disc c \<Longrightarrow> qc_inv c"
proof (induction rule: qc_reachable.induct)
  case (qc_query c px v c')
  then show ?case
    using sz_at_px_ok [of c px] by auto
next
  case (qc_query_cum c px side uc v c')
  then show ?case
    using cum_sz_ok [of c px side uc] by auto
next
  case (qc_attach c i)
  then show ?case
    by (simp add: set_attached_order_id_def qc_inv_def size_at_def cum_at_def total_of_def)
next
  case (qc_canc c)
  then show ?case
    by (simp add: incr_num_canc_def qc_inv_def size_at_def cum_at_def total_of_def)
next
  case (qc_clear c)
  then show ?case
    by (simp add: clear_num_canc_def qc_inv_def size_at_def cum_at_def total_of_def)
qed (auto intro: qc_init_inv qc_add_order_inv qc_remove_order_inv)

text \<open>
  The caches of the coordinator are invisible. In every state a bank can reach, the
  cached total is the sum of all resting sizes, \<open>sz_at_px\<close> returns the sum of the orders at
  that price and \<open>cum_sz_upto_px\<close> the sum over the prices at least as good, whether the
  value comes from a cache or not, and neither query aborts.
\<close>

theorem qcoord_caches_exact:
  assumes "qc_reachable disc c" "int32 px"
  shows "total_sz c = (\<Sum>e\<leftarrow>px_mmid_ord c. sum_sz (snd e))
     \<and> (\<exists>c'. sz_at_px c px = Inr (sum_sz (level_of c px), c'))
     \<and> (\<exists>c'. cum_sz_upto_px c side px uc = Inr (cum_at c side px, c'))"
proof -
  have inv: "qc_inv c"
    using qc_reachable_inv [OF assms(1)] .
  show ?thesis
    using sz_at_px_ok [OF inv assms(2)] cum_sz_ok [OF inv assms(2), of side uc] inv
    by (auto simp: total_sz_def total_of_def qc_inv_def size_at_level)
qed

definition one_order :: QCoord where
  "one_order = QCoord_init\<lparr>px_mmid_ord := [(100, [(3, \<lparr>q_id = 41, q_sz = 5\<rparr>)])], mmid_orders := set_bit 3 0,
     last_in_at_px := [px_key 100 \<mapsto> 3], tot_sz_cache := 5\<rparr>"

lemma one_order_added: "qc_add_order QCoord_init 100 5 3 41 8 = Inr one_order"
  by (simp add: qc_add_order_def QCoord_init_def one_order_def kMaxMmid_def cache_insert_def sz_at_px_def cache_get_def
      cache_clear_def fm_find_Cons)

lemma one_order_reachable: "qc_reachable disc one_order"
  by (rule qc_add [OF qc_start _ one_order_added]) (simp add: QCoord_init_def)

theorem qcoord_caches_exact_witness:
  "total_sz one_order = 5 \<and> (\<exists>c'. sz_at_px one_order 100 = Inr (5, c'))
   \<and> (\<exists>c'. cum_sz_upto_px one_order BUY 90 True = Inr (5, c'))"
  using qcoord_caches_exact [OF one_order_reachable, of 100 BUY True]
    qcoord_caches_exact [OF one_order_reachable, of 90 BUY True]
  by (simp add: int32_def INT_MIN_def INT_MAX_def)
    (simp add: one_order_def level_of_def fm_find_Cons cum_at_def)

section \<open>One order per light\<close>

definition works :: "QCoord \<Rightarrow> int \<Rightarrow> int \<Rightarrow> bool" where
  "works c k px \<longleftrightarrow> fm_find (level_of c px) k \<noteq> None"

definition qc_single :: "QCoord \<Rightarrow> bool" where
  "qc_single c \<longleftrightarrow> (\<forall>k px. works c k px \<longrightarrow> 0 \<le> k \<and> k < kMaxMmid \<and> bit (mmid_orders c) (nat k))
     \<and> (\<forall>k px px'. works c k px \<longrightarrow> works c k px' \<longrightarrow> px = px')"

lemma level_of_put:
  assumes "qc_inv c" "px_mmid_ord c' = fm_put px inner (px_mmid_ord c)"
  shows "level_of c' px' = (if px' = px then inner else level_of c px')"
  using assms by (simp add: level_of_def qc_inv_def fm_find_put)

lemma level_of_cong: "px_mmid_ord c' = px_mmid_ord c \<Longrightarrow> level_of c' = level_of c"
  by (rule ext) (simp add: level_of_def)

lemma qc_single_cong:
  "px_mmid_ord c' = px_mmid_ord c \<Longrightarrow> mmid_orders c' = mmid_orders c \<Longrightarrow> qc_single c \<Longrightarrow> qc_single c'"
  using level_of_cong [of c' c] unfolding qc_single_def works_def by presburger

lemma bit_256_set [simp]:
  "0 \<le> k \<Longrightarrow> k < kMaxMmid \<Longrightarrow> bit (set_bit (nat j) (w :: 256 word)) (nat k) \<longleftrightarrow> nat k = nat j \<or> bit w (nat k)"
  "bit (unset_bit (nat j) (w :: 256 word)) (nat k) \<longleftrightarrow> bit w (nat k) \<and> nat k \<noteq> nat j"
  by (auto simp: kMaxMmid_def bit_set_bit_iff bit_unset_bit_iff)

lemma qc_single_add:
  assumes "qc_inv c" "qc_single c" "\<not> bit (mmid_orders c) (nat mmid)" "qc_add_order c px sz mmid oid mxsz = Inr c'"
  shows "qc_single c'"
proof -
  note a = qc_add_order_cases [OF assms(4)]
  have w: "works c' k px' \<longleftrightarrow> k = mmid \<and> px' = px \<or> works c k px'" for k px'
    using level_of_put [OF assms(1) a(5), of px'] level_of_ok [OF assms(1), of px]
    by (auto simp: works_def inner_ok_def fm_find_put)
  have idle: "\<not> works c mmid px'" for px'
    using assms(2,3) unfolding qc_single_def by blast
  have s: "works c k px' \<Longrightarrow> 0 \<le> k \<and> k < kMaxMmid \<and> bit (mmid_orders c) (nat k)"
    "works c k px' \<Longrightarrow> works c k px'' \<Longrightarrow> px' = px''" for k px' px''
    using assms(2) unfolding qc_single_def by blast+
  have "0 \<le> k \<and> k < kMaxMmid \<and> bit (mmid_orders c') (nat k)" if "works c' k px'" for k px'
    using that s(1) [of k px'] a(2,3) unfolding w a(9) by auto
  moreover have "px' = px''" if "works c' k px'" "works c' k px''" for k px' px''
    using that s(2) [of k px' px''] idle unfolding w by blast
  ultimately show ?thesis
    unfolding qc_single_def by blast
qed

lemma qc_single_remove:
  assumes "qc_inv c" "qc_single c" "qc_remove_order c px sz mmid oid all = Inr (r, c')"
  shows "qc_single c'"
  using assms(3)
proof (cases rule: qc_remove_order_cases)
  case noop
  then show ?thesis
    using assms(2) by simp
next
  case (gone o2)
  have w: "works c' k px' \<longleftrightarrow> works c k px' \<and> (k \<noteq> mmid \<or> px' \<noteq> px)" for k px'
    using level_of_put [OF assms(1) gone(5), of px'] by (auto simp: works_def fm_find_erase)
  have "works c mmid px"
    using gone(1) by (simp add: works_def)
  then have x: "0 \<le> mmid" "works c' k px' \<Longrightarrow> k \<noteq> mmid" for k px'
    using assms(2) w unfolding qc_single_def by blast+
  have s: "works c k px' \<Longrightarrow> 0 \<le> k \<and> k < kMaxMmid \<and> bit (mmid_orders c) (nat k)"
    "works c k px' \<Longrightarrow> works c k px'' \<Longrightarrow> px' = px''" for k px' px''
    using assms(2) unfolding qc_single_def by blast+
  have "0 \<le> k \<and> k < kMaxMmid \<and> bit (mmid_orders c') (nat k)" if "works c' k px'" for k px'
    using that s(1) [of k px'] x(2) [OF that] x(1) unfolding w gone(9) by (simp add: eq_nat_nat_iff)
  moreover have "px' = px''" if "works c' k px'" "works c' k px''" for k px' px''
    using that s(2) [of k px' px''] unfolding w by blast
  ultimately show ?thesis
    unfolding qc_single_def by blast
next
  case (part o2)
  have "works c' k px' \<longleftrightarrow> works c k px'" for k px'
    using level_of_put [OF assms(1) part(6), of px'] level_of_ok [OF assms(1), of px] part(1)
    by (auto simp: works_def inner_ok_def fm_find_put)
  then show ?thesis
    using assms(2) part(10) by (simp add: qc_single_def)
qed

lemma qc_reachable_single: "qc_reachable True c \<Longrightarrow> qc_inv c \<and> qc_single c"
proof (induction rule: qc_reachable.induct)
  case qc_start
  then show ?case
    using qc_init_inv by (simp add: qc_single_def works_def level_of_def QCoord_init_def)
next
  case (qc_query c px v c')
  then show ?case
    using sz_at_px_ok [of c px] qc_single_cong [of c' c] by auto
next
  case (qc_query_cum c px side uc v c')
  then show ?case
    using cum_sz_ok [of c px side uc] qc_single_cong [of c' c] by auto
next
  case (qc_attach c i)
  then show ?case
    using qc_reachable_inv [OF qc_reachable.qc_attach [OF qc_attach(1), of i]] qc_single_cong [of "set_attached_order_id c i" c]
    by (simp add: set_attached_order_id_def)
next
  case (qc_canc c)
  then show ?case
    using qc_reachable_inv [OF qc_reachable.qc_canc [OF qc_canc(1)]] qc_single_cong [of "snd (incr_num_canc c)" c]
    by (simp add: incr_num_canc_def)
next
  case (qc_clear c)
  then show ?case
    using qc_reachable_inv [OF qc_reachable.qc_clear [OF qc_clear(1)]] qc_single_cong [of "clear_num_canc c" c]
    by (simp add: clear_num_canc_def)
qed (auto intro: qc_add_order_inv qc_remove_order_inv qc_single_add qc_single_remove)

text \<open>
  When each light works one order at a time, every fill and every cancel of a resting
  order is booked. Removing \<open>sz\<close> lots, or all of them, of the order a light has at a price
  returns what is left of it, takes exactly that much from the size at this price and from
  the total, leaves every other price alone, and frees the light when nothing is left.
\<close>

theorem qcoord_remove_booked:
  assumes "qc_reachable True c" "fm_find (level_of c px) mmid = Some ord" "sz \<le> q_sz ord" "all \<or> 0 < sz"
  shows "let left = (if all then 0 else q_sz ord - sz) in
     \<exists>c'. qc_remove_order c px sz mmid (q_id ord) all = Inr (left, c')
       \<and> total_sz c' = total_sz c - (q_sz ord - left) \<and> size_at c' px = size_at c px - (q_sz ord - left)
       \<and> (\<forall>px'. px' \<noteq> px \<longrightarrow> size_at c' px' = size_at c px')
       \<and> (left = 0 \<longrightarrow> \<not> bit (mmid_orders c') (nat mmid))"
proof -
  have inv: "qc_inv c" "qc_single c"
    using qc_reachable_single [OF assms(1)] by auto
  have b: "0 \<le> mmid" "mmid < kMaxMmid" "bit (mmid_orders c) (nat mmid)"
    using inv(2) assms(2) by (auto simp: qc_single_def works_def)
  have lv: "fm_find (px_mmid_ord c) px = Some (level_of c px)"
    using assms(2) by (auto simp: level_of_def split: option.splits)
  obtain r c' where rm: "qc_remove_order c px sz mmid (q_id ord) all = Inr (r, c')"
    using b lv assms(2-4) by (cases "q_sz ord = sz \<or> all") (auto simp: qc_remove_order_def Let_def)
  note l = level_of_ok [OF inv(1), of px]
  show ?thesis
    using rm
  proof (cases rule: qc_remove_order_cases)
    case noop
    then show ?thesis
      using b by auto
  next
    case (gone o2)
    have "size_at c' px' = (if px' = px then size_at c px - q_sz ord else size_at c px')" for px'
      using size_at_put(1) [OF _ gone(5), of px'] inv(1) inner_erase(2) [OF l, of mmid] assms(2) size_at_level [of c px]
      by (simp add: qc_inv_def)
    then show ?thesis
      using gone rm assms(2) by (auto simp: Let_def total_sz_def)
  next
    case (part o2)
    have "q_sz ord - sz > 0" "\<not> all"
      using part(1,3,4,5) assms(2) rm b lv by (auto simp: qc_remove_order_def Let_def)
    moreover have "size_at c' px' = (if px' = px then size_at c px - sz else size_at c px')" for px'
      using size_at_put(1) [OF _ part(6), of px'] inv(1) inner_put(2) [OF l, of "q_sz ord - sz" mmid "q_id ord"] part(1,4) assms(2)
        size_at_level [of c px] by (simp add: qc_inv_def)
    ultimately show ?thesis
      using part rm assms(2) by (auto simp: Let_def total_sz_def)
  qed
qed

theorem qcoord_remove_booked_witness:
  "\<exists>c'. qc_remove_order one_order 100 2 3 41 False = Inr (3, c') \<and> total_sz c' = 3 \<and> size_at c' 100 = 3"
proof -
  have "fm_find (level_of one_order 100) 3 = Some \<lparr>q_id = 41, q_sz = 5\<rparr>"
    by (simp add: one_order_def level_of_def fm_find_Cons)
  moreover have "total_sz one_order = 5" "size_at one_order 100 = 5"
    by (simp_all add: one_order_def total_sz_def size_at_def fm_find_Cons)
  ultimately show ?thesis
    using qcoord_remove_booked [OF one_order_reachable, of 100 3 "\<lparr>q_id = 41, q_sz = 5\<rparr>" 2 False] by auto
qed

section \<open>Where the code does not do what it means to\<close>

text \<open>
  The size limit of a price is checked against the size before the order. A light that
  first asks for the size at the price, as every light does before it places an order,
  leaves that size in the cache; \<open>add_order\<close> then reads the cached value and accepts ten
  lots at a price with a limit of eight. The same two adds without the query abort.
\<close>

theorem qcoord_limit_missed_after_query:
  "\<exists>c1 c2. sz_at_px one_order 100 = Inr (5, c1)
     \<and> qc_add_order c1 100 5 4 42 8 = Inr c2 \<and> size_at c2 100 = 10
     \<and> qc_add_order one_order 100 5 4 42 8 = Inl (Assert ''max size exceeded'')"
  by (simp add: one_order_def QCoord_init_def sz_at_px_def cache_get_def cache_insert_def fm_find_Cons qc_add_order_def
      kMaxMmid_def size_at_def)

text \<open>
  After the last order has left, the extreme prices have no meaning. A price whose
  orders are gone keeps its empty entry, and the loops of \<open>lowest_price\<close> and
  \<open>highest_price\<close> read through the end iterator before they compare with it, instead of
  returning the value for an empty coordinator.
\<close>

theorem qcoord_extreme_price_undefined:
  "\<exists>c. qc_remove_order one_order 100 0 3 41 True = Inr (0, c) \<and> total_sz c = 0
     \<and> lowest_price c = Inl (Undefined ''end iterator dereferenced'')
     \<and> highest_price c = Inl (Undefined ''end iterator dereferenced'')"
  by (simp add: one_order_def QCoord_init_def qc_remove_order_def fm_find_Cons kMaxMmid_def bit_set_bit_iff total_sz_def
      lowest_price_def highest_price_def fm_erase_def)

text \<open>
  The shared position is the signed sum of the fills. Over any sequence of fills on
  either side with positive sizes no call aborts and the position moves by the bought less
  the sold lots; a size below one is ignored.
\<close>

theorem pcoord_position_sums:
  assumes "\<forall>(side, sz)\<in>set fills. side = BUY \<or> side = SEL"
  shows "\<exists>p'. foldl (\<lambda>r (side, sz). bnd r (\<lambda>p. add_position p side sz)) (Inr p) fills = Inr p'
     \<and> position p' = position p + (\<Sum>(side, sz)\<leftarrow>fills. if sz < 1 then 0 else if side = BUY then sz else - sz)"
  using assms
proof (induction fills arbitrary: p)
  case (Cons f fills)
  obtain side sz where f: "f = (side, sz)" "side = BUY \<or> side = SEL"
    using Cons.prems by (cases f) auto
  obtain p1 where p1: "add_position p side sz = Inr p1"
    "position p1 = position p + (if sz < 1 then 0 else if side = BUY then sz else - sz)"
    using f(2) that by (cases "sz < 1") (auto simp: add_position_def)
  show ?case
    using Cons.IH [of p1] Cons.prems p1 f by auto
qed simp

theorem pcoord_position_sums_witness:
  "\<exists>p'. foldl (\<lambda>r (side, sz). bnd r (\<lambda>p. add_position p side sz)) (Inr PCoord_init) [(BUY, 5), (SEL, 2), (SEL, 0)] = Inr p'
     \<and> position p' = 3"
  using pcoord_position_sums [of "[(BUY, 5), (SEL, 2), (SEL, 0)]" PCoord_init] by (simp add: PCoord_init_def)

end
