(* ===== verification/Position.thy ===== *)
theory Position
  imports Kaspar_Prelude
begin

text \<open>
  \<open>frame::pos::Position\<close> of \<open>src/frame_kaspr/include/frame/pos/Position.hpp\<close>: the open
  lots of one instrument, newest first, and the profit realised by closing them. Prices
  and profits are C++ doubles; they are modelled as exact reals, so the accounting
  theorems are about the arithmetic the code intends and not about rounding. Sizes are
  C++ ints far from the 32-bit limits and are modelled as \<open>int\<close>.
\<close>

section \<open>State and operations\<close>

record PosEntry =
  trade_type :: bs
  trade_price :: real
  pe_sz :: int

record Swap =
  old_price :: real
  old_size :: int
  new_price :: real
  new_size :: int

record Position =
  open_positions :: "PosEntry list"
  realized_pnl :: real
  nb_sell_shares :: int
  nb_buy_shares :: int
  last_trade_price_val :: real
  nb_trades :: int

definition Position_init :: Position where
  "Position_init = \<lparr>open_positions = [], realized_pnl = 0, nb_sell_shares = 0,
     nb_buy_shares = 0, last_trade_price_val = -1, nb_trades = 0\<rparr>"

text \<open>The sign-consistency loop of \<open>get_side\<close>, with its running \<open>side\<close> and \<open>sign\<close>.\<close>

fun get_side_loop :: "PosEntry list \<Rightarrow> bs \<Rightarrow> int \<Rightarrow> bs res" where
  "get_side_loop [] side sign = Inr side"
| "get_side_loop (pe # pes) side sign =
     (if trade_type pe = SEL then
        chk (sign \<le> 0) ''sign flipped'' (get_side_loop pes (trade_type pe) (- 1))
      else if trade_type pe = BUY then
        chk (sign \<ge> 0) ''sign flipped'' (get_side_loop pes (trade_type pe) 1)
      else get_side_loop pes (trade_type pe) sign)"

definition get_side :: "Position \<Rightarrow> bs res" where
  "get_side p = get_side_loop (open_positions p) BS_NONE 0"

fun totalSize_loop :: "PosEntry list \<Rightarrow> int \<Rightarrow> int \<Rightarrow> int res" where
  "totalSize_loop [] sz sign = Inr sz"
| "totalSize_loop (pe # pes) sz sign =
     chk (pe_sz pe \<ge> 0) ''bad trade size''
       (if trade_type pe = SEL then
          chk (sign \<le> 0) ''sign flipped'' (totalSize_loop pes (sz + - pe_sz pe) (- 1))
        else if trade_type pe = BUY then
          chk (sign \<ge> 0) ''sign flipped'' (totalSize_loop pes (sz + pe_sz pe) 1)
        else sngh)"

definition totalSize :: "Position \<Rightarrow> int res" where
  "totalSize p = totalSize_loop (open_positions p) 0 0"

fun unrealPnl_loop :: "real \<Rightarrow> real \<Rightarrow> PosEntry list \<Rightarrow> real \<Rightarrow> real res" where
  "unrealPnl_loop bid off [] pnl = Inr pnl"
| "unrealPnl_loop bid off (pe # pes) pnl =
     chk (pe_sz pe \<ge> 0) ''bad trade size''
       (if trade_type pe = SEL then
          unrealPnl_loop bid off pes (pnl + (trade_price pe - off) * of_int (pe_sz pe))
        else if trade_type pe = BUY then
          unrealPnl_loop bid off pes (pnl + (bid - trade_price pe) * of_int (pe_sz pe))
        else sngh)"

definition unrealPnl :: "Position \<Rightarrow> real \<Rightarrow> real \<Rightarrow> real res" where
  "unrealPnl p bid off = unrealPnl_loop bid off (open_positions p) 0"

definition calcRealizedPnl :: "PosEntry \<Rightarrow> PosEntry \<Rightarrow> real res" where
  "calcRealizedPnl first_trade second_trade =
     chk (trade_type first_trade \<noteq> trade_type second_trade) ''trade types mixed up''
       (let sz = (if pe_sz second_trade > pe_sz first_trade then pe_sz first_trade
                  else pe_sz second_trade);
            pdiff = trade_price second_trade - trade_price first_trade
        in if trade_type first_trade = BUY then Inr (of_int sz * pdiff)
           else if trade_type first_trade = SEL then Inr (of_int sz * (- pdiff))
           else sngh)"

text \<open>
  \<open>closeOutPositions\<close> closes the newest lot first and recurses into the older ones; it
  returns the realised profit and the remaining lots.
\<close>

fun closeOutPositions :: "PosEntry list \<Rightarrow> PosEntry \<Rightarrow> (real \<times> PosEntry list) res" where
  "closeOutPositions [] e = Inl (Assert ''cant close out position'')"
| "closeOutPositions (i # rest) e =
     chk (pe_sz i \<ge> 0) ''unit pos''
      (chk (pe_sz e \<ge> 0) ''unit pos''
        (bnd (calcRealizedPnl i e) (\<lambda>pnl.
          if pe_sz i > pe_sz e then Inr (pnl, i\<lparr>pe_sz := pe_sz i - pe_sz e\<rparr> # rest)
          else if pe_sz i = pe_sz e then Inr (pnl, rest)
          else
            (let e' = e\<lparr>pe_sz := pe_sz e - pe_sz i\<rparr>
             in if rest = [] then Inr (pnl, [e'])
                else bnd (closeOutPositions rest e')
                       (\<lambda>(pnl', rest'). Inr (pnl + pnl', rest'))))))"

definition addToPosition :: "Position \<Rightarrow> PosEntry \<Rightarrow> (real \<times> Position) res" where
  "addToPosition p e =
     (let p1 = (if trade_type e = BUY then p\<lparr>nb_buy_shares := nb_buy_shares p + pe_sz e\<rparr>
                else p\<lparr>nb_sell_shares := nb_sell_shares p + pe_sz e\<rparr>);
          p2 = p1\<lparr>nb_trades := nb_trades p1 + 1, last_trade_price_val := trade_price e\<rparr>
      in bnd (if open_positions p2 = [] then Inr (0, [e])
              else if trade_type e = trade_type (hd (open_positions p2))
                then Inr (0, e # open_positions p2)
              else closeOutPositions (open_positions p2) e)
           (\<lambda>(pnl, lots). Inr (pnl, p2\<lparr>open_positions := lots,
                                        realized_pnl := realized_pnl p2 + pnl\<rparr>)))"

text \<open>The C++ conversion of a double to an int truncates towards zero.\<close>

definition trunc_int :: "real \<Rightarrow> int" where
  "trunc_int x = (if x < 0 then \<lceil>x\<rceil> else \<lfloor>x\<rfloor>)"

definition do_swap :: "Position \<Rightarrow> Swap \<Rightarrow> Position res" where
  "do_swap p s =
     bnd (totalSize p) (\<lambda>curr_pos.
       if curr_pos = 0 then Inr p
       else
         (let side = trade_type (hd (open_positions p));
              otherside = (if side = BUY then SEL else BUY)
          in bnd (addToPosition p \<lparr>trade_type = otherside, trade_price = old_price s, pe_sz = curr_pos\<rparr>)
               (\<lambda>(_, p1).
                 if old_size s = 0 then Inl (Undefined ''conversion of a non-finite double'')
                 else
                   (let new_pos = trunc_int (of_int (curr_pos * new_size s) / of_int (old_size s) + 5 / 10)
                    in bnd (addToPosition p1
                              \<lparr>trade_type = side, trade_price = new_price s, pe_sz = new_pos\<rparr>)
                         (\<lambda>(_, p2). Inr p2)))))"

fun run_trades :: "Position \<Rightarrow> PosEntry list \<Rightarrow> Position res" where
  "run_trades p [] = Inr p"
| "run_trades p (e # es) = bnd (addToPosition p e) (\<lambda>(_, p'). run_trades p' es)"

section \<open>Invariant and abstract accounting\<close>

text \<open>
  A position is well formed when its lots are all on one side and have a positive size.
  \<open>net\<close> is the signed size, \<open>mark m\<close> the profit of closing every lot at price \<open>m\<close>.
\<close>

definition lots_on :: "bs \<Rightarrow> PosEntry list \<Rightarrow> bool" where
  "lots_on s lots \<longleftrightarrow> (\<forall>l \<in> set lots. trade_type l = s \<and> pe_sz l > 0)"

definition pos_wf :: "Position \<Rightarrow> bool" where
  "pos_wf p \<longleftrightarrow> lots_on BUY (open_positions p) \<or> lots_on SEL (open_positions p)"

definition trade_ok :: "PosEntry \<Rightarrow> bool" where
  "trade_ok e \<longleftrightarrow> (trade_type e = BUY \<or> trade_type e = SEL) \<and> pe_sz e > 0"

definition signed_sz :: "PosEntry \<Rightarrow> int" where
  "signed_sz e = (if trade_type e = BUY then pe_sz e else - pe_sz e)"

definition net :: "PosEntry list \<Rightarrow> int" where
  "net lots = sum_list (map signed_sz lots)"

definition mark :: "real \<Rightarrow> PosEntry list \<Rightarrow> real" where
  "mark m lots = sum_list (map (\<lambda>l. of_int (signed_sz l) * (m - trade_price l)) lots)"

lemma lots_on_simps [simp]:
  "lots_on s []"
  "lots_on s (l # ls) \<longleftrightarrow> trade_type l = s \<and> pe_sz l > 0 \<and> lots_on s ls"
  by (auto simp: lots_on_def)

lemma net_simps [simp]: "net [] = 0" "net (l # ls) = signed_sz l + net ls"
  by (simp_all add: net_def)

lemma mark_simps [simp]:
  "mark m [] = 0"
  "mark m (l # ls) = of_int (signed_sz l) * (m - trade_price l) + mark m ls"
  by (simp_all add: mark_def)

lemma signed_sz_upd [simp]:
  "signed_sz (l\<lparr>pe_sz := n\<rparr>) = (if trade_type l = BUY then n else - n)"
  by (simp add: signed_sz_def)

lemma totalSize_loop_net:
  assumes "lots_on s lots" and "s = BUY \<or> s = SEL"
    and "sign = 0 \<or> sign = (if s = BUY then 1 else - 1)"
  shows "totalSize_loop lots a sign = Inr (a + net lots)"
  using assms
  by (induction lots arbitrary: a sign) (auto simp: signed_sz_def)

lemma totalSize_net: "pos_wf p \<Longrightarrow> totalSize p = Inr (net (open_positions p))"
  by (auto simp: totalSize_def pos_wf_def totalSize_loop_net)

lemma unrealPnl_loop_mark:
  assumes "lots_on s lots" and "s = BUY \<or> s = SEL"
  shows "unrealPnl_loop m m lots a = Inr (a + mark m lots)"
  using assms
  by (induction lots arbitrary: a) (auto simp: signed_sz_def algebra_simps)

lemma unrealPnl_mark: "pos_wf p \<Longrightarrow> unrealPnl p m m = Inr (mark m (open_positions p))"
  by (auto simp: unrealPnl_def pos_wf_def unrealPnl_loop_mark)

lemma net_short: "lots_on SEL lots \<Longrightarrow> net lots \<le> 0"
  by (induction lots) (auto simp: signed_sz_def)

text \<open>
  Closing out against lots of one side: it returns, keeps the lots well formed (on the old
  side, or on the other one when the position flips), changes the net size by the trade,
  and the realised profit makes up exactly the change of the mark-to-market value.
\<close>

lemma closeOutPositions_spec:
  assumes "lots_on s lots" and "lots \<noteq> []" and "s = BUY \<or> s = SEL"
    and "trade_type e = other_side s" and "pe_sz e > 0"
  shows "\<exists>pnl rest. closeOutPositions lots e = Inr (pnl, rest)
     \<and> (lots_on s rest \<or> lots_on (other_side s) rest)
     \<and> net rest = net lots + signed_sz e
     \<and> (\<forall>m. pnl + mark m rest = mark m lots + of_int (signed_sz e) * (m - trade_price e))"
  using assms
proof (induction lots arbitrary: e)
  case Nil
  then show ?case by simp
next
  case (Cons i rest)
  show ?case
  proof (cases "pe_sz i < pe_sz e \<and> rest \<noteq> []")
    case True
    let ?e' = "e\<lparr>pe_sz := pe_sz e - pe_sz i\<rparr>"
    obtain pnl lots' where IH: "closeOutPositions rest ?e' = Inr (pnl, lots')"
      "lots_on s lots' \<or> lots_on (other_side s) lots'"
      "net lots' = net rest + signed_sz ?e'"
      "\<forall>m. pnl + mark m lots' = mark m rest + of_int (signed_sz ?e') * (m - trade_price ?e')"
      using Cons.IH [of ?e'] Cons.prems True by auto
    have M: "mark m lots' = mark m rest + of_int (signed_sz ?e') * (m - trade_price e) - pnl" for m
      using IH(4)[rule_format, of m] by simp
    let ?q = "of_int (- signed_sz i) * (trade_price i - trade_price e)"
    have "calcRealizedPnl i e = Inr ?q"
      using Cons.prems True by (auto simp: calcRealizedPnl_def signed_sz_def Let_def algebra_simps)
    then have "closeOutPositions (i # rest) e = Inr (?q + pnl, lots')"
      using IH(1) Cons.prems True by (simp add: Let_def)
    moreover have "net lots' = net (i # rest) + signed_sz e"
      using IH(3) Cons.prems by (auto simp: signed_sz_def)
    moreover have "(?q + pnl) + mark m lots'
        = mark m (i # rest) + of_int (signed_sz e) * (m - trade_price e)" for m
      using M [of m] Cons.prems by (auto simp: signed_sz_def algebra_simps)
    ultimately show ?thesis
      using IH(2) by blast
  next
    case False
    let ?n = "min (pe_sz i) (pe_sz e)"
    let ?q = "of_int ?n * (if s = BUY then trade_price e - trade_price i else trade_price i - trade_price e)"
    let ?rest = "if pe_sz i > pe_sz e then i\<lparr>pe_sz := pe_sz i - pe_sz e\<rparr> # rest
                 else if pe_sz i = pe_sz e then rest else [e\<lparr>pe_sz := pe_sz e - pe_sz i\<rparr>]"
    have "calcRealizedPnl i e = Inr ?q"
      using Cons.prems by (auto simp: calcRealizedPnl_def Let_def min_def)
    then have "closeOutPositions (i # rest) e = Inr (?q, ?rest)"
      using Cons.prems False by (simp add: Let_def)
    moreover have "lots_on s ?rest \<or> lots_on (other_side s) ?rest"
      using Cons.prems by auto
    moreover have "net ?rest = net (i # rest) + signed_sz e"
      using Cons.prems False by (auto simp: signed_sz_def)
    moreover have "?q + mark m ?rest = mark m (i # rest) + of_int (signed_sz e) * (m - trade_price e)" for m
      using Cons.prems False by (auto simp: signed_sz_def algebra_simps)
    ultimately show ?thesis
      by blast
  qed
qed

text \<open>One trade, and then a whole trading history.\<close>

lemma addToPosition_spec:
  assumes "pos_wf p" and "trade_ok e"
  shows "\<exists>pnl p'. addToPosition p e = Inr (pnl, p') \<and> pos_wf p'
     \<and> net (open_positions p') = net (open_positions p) + signed_sz e
     \<and> realized_pnl p' = realized_pnl p + pnl
     \<and> nb_buy_shares p' - nb_sell_shares p' = nb_buy_shares p - nb_sell_shares p + signed_sz e
     \<and> nb_trades p' = nb_trades p + 1
     \<and> (\<forall>m. pnl + mark m (open_positions p')
            = mark m (open_positions p) + of_int (signed_sz e) * (m - trade_price e))"
proof (cases "open_positions p = [] \<or> trade_type e = trade_type (hd (open_positions p))")
  case True
  then show ?thesis
    using assms
    by (cases "open_positions p")
       (auto simp: addToPosition_def pos_wf_def trade_ok_def signed_sz_def Let_def)
next
  case False
  then obtain s where s: "lots_on s (open_positions p)" "s = BUY \<or> s = SEL"
    using assms(1) by (auto simp: pos_wf_def)
  then have side: "trade_type e = other_side s"
    using False assms(2) by (cases "open_positions p") (auto simp: trade_ok_def)
  obtain pnl rest where r: "closeOutPositions (open_positions p) e = Inr (pnl, rest)"
    "lots_on s rest \<or> lots_on (other_side s) rest"
    "net rest = net (open_positions p) + signed_sz e"
    "\<forall>m. pnl + mark m rest = mark m (open_positions p) + of_int (signed_sz e) * (m - trade_price e)"
    using closeOutPositions_spec [OF s(1) _ s(2) side] False assms(2)
    by (auto simp: trade_ok_def)
  then show ?thesis
    using False s(2) side
    by (auto simp: addToPosition_def pos_wf_def signed_sz_def Let_def)
qed

lemma run_trades_spec:
  assumes "pos_wf p" and "\<forall>e \<in> set es. trade_ok e"
  shows "\<exists>p'. run_trades p es = Inr p' \<and> pos_wf p'
     \<and> net (open_positions p') = net (open_positions p) + net es
     \<and> nb_buy_shares p' - nb_sell_shares p' = nb_buy_shares p - nb_sell_shares p + net es
     \<and> (\<forall>m. realized_pnl p' + mark m (open_positions p')
            = realized_pnl p + mark m (open_positions p) + mark m es)"
  using assms
proof (induction es arbitrary: p)
  case Nil
  then show ?case by simp
next
  case (Cons e es)
  obtain pnl p1 where a: "addToPosition p e = Inr (pnl, p1)" "pos_wf p1"
    "net (open_positions p1) = net (open_positions p) + signed_sz e"
    "realized_pnl p1 = realized_pnl p + pnl"
    "nb_buy_shares p1 - nb_sell_shares p1 = nb_buy_shares p - nb_sell_shares p + signed_sz e"
    "\<forall>m. pnl + mark m (open_positions p1)
         = mark m (open_positions p) + of_int (signed_sz e) * (m - trade_price e)"
    using addToPosition_spec [of p e] Cons.prems by auto
  obtain p' where b: "run_trades p1 es = Inr p'" "pos_wf p'"
    "net (open_positions p') = net (open_positions p1) + net es"
    "nb_buy_shares p' - nb_sell_shares p' = nb_buy_shares p1 - nb_sell_shares p1 + net es"
    "\<forall>m. realized_pnl p' + mark m (open_positions p')
         = realized_pnl p1 + mark m (open_positions p1) + mark m es"
    using Cons.IH [of p1] Cons.prems a(2) by auto
  have "realized_pnl p' + mark m (open_positions p')
        = realized_pnl p + mark m (open_positions p) + mark m (e # es)" for m
    using b(5)[rule_format, of m] a(6)[rule_format, of m] a(4) by simp
  then show ?case
    using a b by auto
qed

section \<open>Properties\<close>



text \<open>
  The open size and the share counters agree: after any history of valid trades
  \<open>totalSize\<close> returns, and its value is bought shares minus sold shares, which is the
  signed sum of the trades.
\<close>

theorem position_total_size:
  assumes "\<forall>e \<in> set es. trade_ok e"
  shows "\<exists>p. run_trades Position_init es = Inr p
           \<and> totalSize p = Inr (nb_buy_shares p - nb_sell_shares p)
           \<and> totalSize p = Inr (\<Sum>e\<leftarrow>es. signed_sz e)"
proof -
  have "pos_wf Position_init"
    by (simp add: pos_wf_def Position_init_def)
  from run_trades_spec [OF this assms] obtain p where "run_trades Position_init es = Inr p"
    "pos_wf p" "net (open_positions p) = net es" "nb_buy_shares p - nb_sell_shares p = net es"
    by (auto simp: Position_init_def)
  then show ?thesis
    using totalSize_net [of p] by (auto simp: net_def)
qed

theorem position_total_size_witness:
  "\<exists>p. run_trades Position_init
          [\<lparr>trade_type = SEL, trade_price = 7, pe_sz = 2\<rparr>,
           \<lparr>trade_type = BUY, trade_price = 6, pe_sz = 9\<rparr>] = Inr p \<and> totalSize p = Inr 7"
  using position_total_size [of "[\<lparr>trade_type = SEL, trade_price = 7, pe_sz = 2\<rparr>,
           \<lparr>trade_type = BUY, trade_price = 6, pe_sz = 9\<rparr>]"]
  by (auto simp: trade_ok_def signed_sz_def)

text \<open>
  A contract swap cannot be done while short: \<open>do_swap\<close> passes the signed size to the
  closing trade, so on every well-formed short position it aborts in
  \<open>closeOutPositions\<close>, whatever the swap.
\<close>

theorem do_swap_aborts_when_short:
  assumes "lots_on SEL (open_positions p)" and "open_positions p \<noteq> []"
  shows "do_swap p s = Inl (Assert ''unit pos'')"
proof -
  obtain l ls where ls: "open_positions p = l # ls"
    using assms(2) by (cases "open_positions p") auto
  have neg: "net (l # ls) < 0"
    using assms(1) ls net_short [of ls] by (auto simp: signed_sz_def)
  have "totalSize p = Inr (net (l # ls))"
    using totalSize_net [of p] assms(1) ls by (simp add: pos_wf_def)
  then show ?thesis
    using neg assms(1) ls
    by (simp add: do_swap_def addToPosition_def Let_def)
qed

theorem do_swap_aborts_when_short_witness:
  "do_swap (Position_init\<lparr>open_positions := [\<lparr>trade_type = SEL, trade_price = 50, pe_sz = 1\<rparr>]\<rparr>)
     \<lparr>old_price = 50, old_size = 1, new_price = 51, new_size = 1\<rparr> = Inl (Assert ''unit pos'')"
  by (rule do_swap_aborts_when_short) simp_all

end
