(* ===== verification/Order_ID.thy ===== *)
theory Order_ID
  imports Kaspar_Prelude
begin

unbundle bit_operations_syntax

text \<open>
  \<open>frame::mda::OrderID\<close> of \<open>src/frame_ref/include/frame/mda/OrderID.hpp\<close>: an order
  reference is 64 bits, the exchange code in the high half and the order number in the
  low half. The code packs and unpacks them through a union of one 64-bit and two 32-bit
  members; the layout modelled is the little-endian one of the program's platform, where
  \<open>int0\<close>, the order number, is the low half. The exchange codes are the positions in the
  enum \<open>en::x\<close> of \<open>src/chutil/include/enum/exch_code.hpp\<close>.
\<close>

definition x_SIM :: u32 where "x_SIM = 18"

definition x_CMEMDFUT :: u32 where "x_CMEMDFUT = 11"

definition longid :: "u32 \<Rightarrow> u32 \<Rightarrow> u64" where
  "longid exchid oid = push_bit 32 (ucast exchid) OR ucast oid"

definition exchid :: "u64 \<Rightarrow> u32" where
  "exchid l = ucast (drop_bit 32 l)"

definition id_of :: "u64 \<Rightarrow> u32" where
  "id_of l = ucast l"

definition is_sim :: "u64 \<Rightarrow> bool" where
  "is_sim l \<longleftrightarrow> exchid l = x_SIM"

lemma exchid_longid [simp]: "exchid (longid x n) = x"
  unfolding exchid_def longid_def
  by (rule bit_word_eqI) (auto simp: bit_simps dest: bit_imp_le_length)

lemma id_of_longid [simp]: "id_of (longid x n) = n"
  unfolding id_of_def longid_def
  by (rule bit_word_eqI) (auto simp: bit_simps)

lemma longid_parts: "longid (exchid l) (id_of l) = l"
  unfolding exchid_def longid_def id_of_def
  by (rule bit_word_eqI) (auto simp: bit_simps)

lemma is_sim_longid [simp]: "is_sim (longid x n) \<longleftrightarrow> x = x_SIM"
  by (simp add: is_sim_def)

text \<open>
  Packing an exchange code and an order number loses nothing: both halves are
  recovered, every 64-bit reference is the packing of its halves, and two packings are
  equal only when exchange and number both are.
\<close>

theorem order_id_roundtrip:
  "exchid (longid x n) = x \<and> id_of (longid x n) = n
   \<and> longid (exchid l) (id_of l) = l
   \<and> (longid x n = longid y k \<longleftrightarrow> x = y \<and> n = k)"
proof -
  have "longid x n = longid y k \<Longrightarrow> x = y \<and> n = k"
    by (metis exchid_longid id_of_longid)
  then show ?thesis
    by (auto simp: longid_parts)
qed

end
