(* ===== verification/Order_Queue.thy ===== *)
theory Order_Queue
  imports Order_ID Flat_Map
begin

text \<open>
  One price level of the simulated book: \<open>frame::ob::Order\<close> of
  \<open>src/frame_kaspr/include/frame/ob/Order.hpp\<close> and \<open>frame::ob::OrderQ\<close> of
  \<open>src/frame_kaspr/include/frame/ob/OrderQ.hpp\<close>.

  A queue holds heap-allocated orders on a doubly linked list and finds them again by id
  in \<open>qordermap\<close>. Here the list is a HOL list of orders, head first, and an order carries
  the address it was allocated at, so that the pointers of the code (the \<open>Order*\<close>
  arguments and the values of \<open>qordermap\<close>) are addresses; the linked list itself, with
  its \<open>prev\<close> and \<open>next\<close> fields, is in the theory \<open>Linked_Queue\<close>, which shows that it
  implements these list operations. Messages to the originator of an order (\<open>send_back\<close>)
  are returned as a list of pairs of receiver and message, in sending order. Sizes and
  counters are C++ ints; an order size is below ten million
  (\<open>CHOPIN_MAX_ORD_SZ\<close>) and a level's total stays far from the 32-bit limits.
\<close>

section \<open>Orders\<close>

type_synonym addr = nat
type_synonym actor = nat

datatype ret_msg =
    Fill (fill_id: u32) (fill_venue: u32) (fill_sym: u32) (fill_px: int) (fill_side: bs)
         (fill_sz: int) (still_to_be_filled: int) (fill_owner: int) (fill_tim: u64)
  | CancAck (cack_id: u32) (cack_fillsz: int) (cack_sz: int)

type_synonym sends = "(actor \<times> ret_msg) list"

definition CHOPIN_MAX_ORD_SZ :: int where "CHOPIN_MAX_ORD_SZ = 10000000"

record Order =
  o_addr :: addr
  o_sz :: int
  originator :: "actor option"
  o_id :: u64
  exordid :: u64
  o_sym :: u32
  o_side :: bs
  o_deleted :: bool
  o_cancelled :: bool
  o_filled :: bool
  o_owner :: int
  o_tim :: u64
  aggr_fills :: int

definition new_Order ::
  "addr \<Rightarrow> u64 \<Rightarrow> u64 \<Rightarrow> u64 \<Rightarrow> u32 \<Rightarrow> bs \<Rightarrow> int \<Rightarrow> actor option \<Rightarrow> int \<Rightarrow> Order res" where
  "new_Order a tim i exord sy side sz orig own =
     chk (sz > 0) ''negative order size''
      (chk (sz < CHOPIN_MAX_ORD_SZ) ''size too large''
        (Inr \<lparr>o_addr = a, o_sz = sz, originator = orig, o_id = i, exordid = exord, o_sym = sy,
              o_side = side, o_deleted = False, o_cancelled = False, o_filled = False,
              o_owner = own, o_tim = tim, aggr_fills = 0\<rparr>))"

definition issim :: "Order \<Rightarrow> bool" where
  "issim ord \<longleftrightarrow> exchid (o_id ord) = x_SIM"

definition Order_fill_notify ::
  "Order \<Rightarrow> int \<Rightarrow> int \<Rightarrow> int \<Rightarrow> mt \<Rightarrow> u64 \<Rightarrow> (int \<times> Order \<times> sends) res" where
  "Order_fill_notify ord n disp px modtyp tim =
     chk (modtyp = EXEC \<or> modtyp = EXECD) ''invalid mod typ''
      (chk (\<not> o_cancelled ord) ''filling a cancelled order''
       (chk (issim ord) ''fill for real order''
        (let fillsz = min n (o_sz ord);
             sz' = (if o_sz ord \<ge> n then o_sz ord - n else 0)
         in chk (disp \<le> 0) ''check this''
            (case originator ord of
               None \<Rightarrow> Inl (Assert ''sim orders must hve orig'')
             | Some to \<Rightarrow>
                 chk (n > 0) ''filling for 0''
                  (chk (fillsz = n) ''should not change for cme''
                    (Inr (n,
                          ord\<lparr>o_sz := sz', o_filled := (o_filled ord \<or> sz' \<le> 0)\<rparr>,
                          [(to, Fill (id_of (o_id ord)) (exchid (o_id ord)) (o_sym ord) px
                                  (o_side ord) fillsz sz' (o_owner ord) tim)])))))))"

definition Order_canc_notify :: "Order \<Rightarrow> mt \<Rightarrow> int \<Rightarrow> int \<Rightarrow> (int \<times> Order \<times> sends) res" where
  "Order_canc_notify ord modtyp dispsz n =
     chk (modtyp = CANC \<or> modtyp = CANCD) ''invalid mod type for canc''
      (chk (o_sz ord > 0) ''cancelling 0 size''
       (chk (\<not> o_filled ord) ''cancelling a filled order''
        (bnd (if modtyp = CANCD then Inr (o_sz ord, 0)
              else if dispsz > 0 then Inr (o_sz ord - dispsz, dispsz)
              else Inl (Assert ''no disp size in cancel message''))
          (\<lambda>(cancsz, sz').
            bnd (case originator ord of
                   Some to \<Rightarrow> chk (issim ord) ''only sims can have originator''
                                (Inr [(to, CancAck (id_of (o_id ord)) cancsz sz')])
                 | None \<Rightarrow> Inr [])
              (\<lambda>out.
                let ord' = ord\<lparr>o_sz := sz',
                     o_cancelled := (o_cancelled ord \<or> (sz' \<le> 0 \<and> dispsz \<le> 0) \<or> modtyp = CANCD)\<rparr>
                in chk (sz' \<ge> 0) ''size went negative''
                    (chk (dispsz \<ge> 0) ''bad dispsz'' (Inr (cancsz, ord', out))))))))"

section \<open>The queue of a price level\<close>

record OrderQ =
  orders :: "Order list"
  qordermap :: "(u64, addr) flat_map"
  size_of_book_cnt :: int
  orders_in_book :: int

definition OrderQ_empty :: OrderQ where
  "OrderQ_empty = \<lparr>orders = [], qordermap = [], size_of_book_cnt = 0, orders_in_book = 0\<rparr>"

definition get_head :: "OrderQ \<Rightarrow> Order option" where
  "get_head q = (case orders q of [] \<Rightarrow> None | ord # _ \<Rightarrow> Some ord)"

definition get_head_no_sim :: "OrderQ \<Rightarrow> Order option" where
  "get_head_no_sim q = (case dropWhile issim (orders q) of [] \<Rightarrow> None | ord # _ \<Rightarrow> Some ord)"

text \<open>
  \<open>get_orders_in_book\<close> has two bodies. The optimised build defines \<open>FAST_SZ_BOOK\<close> and
  returns the counter; otherwise the list is walked and the counters are asserted against
  the walk before the counter is returned.
\<close>

definition real_orders :: "OrderQ \<Rightarrow> Order list" where
  "real_orders q = filter (\<lambda>ord. \<not> issim ord) (orders q)"

definition get_orders_in_book_fast :: "OrderQ \<Rightarrow> int res" where
  "get_orders_in_book_fast q = Inr (orders_in_book q)"

definition get_orders_in_book :: "OrderQ \<Rightarrow> int res" where
  "get_orders_in_book q =
     chk ((\<Sum>ord\<leftarrow>real_orders q. o_sz ord) = orders_in_book q) ''sz''
      (chk (int (length (real_orders q)) = size_of_book_cnt q) ''cnt'' (Inr (orders_in_book q)))"

definition get_sim_in_book :: "OrderQ \<Rightarrow> int" where
  "get_sim_in_book q = (\<Sum>ord\<leftarrow>filter issim (orders q). o_sz ord)"

definition size_of_book :: "OrderQ \<Rightarrow> (int \<times> int) res" where
  "size_of_book q =
     (let sz = (\<Sum>ord\<leftarrow>orders q. o_sz ord); cnt = int (length (orders q))
      in chk (cnt = size_of_book_cnt q) ''sz of book cnt''
          (bnd (get_orders_in_book q)
            (\<lambda>n. chk (sz = n) ''orders in book'' (Inr (cnt, sz)))))"

definition isempty :: "OrderQ \<Rightarrow> bool" where
  "isempty q \<longleftrightarrow> orders q = []"

definition has_all_sim :: "OrderQ \<Rightarrow> bool" where
  "has_all_sim q \<longleftrightarrow> orders q \<noteq> [] \<and> list_all issim (orders q)"

definition isempty_or_allsim :: "OrderQ \<Rightarrow> bool" where
  "isempty_or_allsim q \<longleftrightarrow> isempty q \<or> has_all_sim q"

definition q_append :: "OrderQ \<Rightarrow> Order \<Rightarrow> OrderQ res" where
  "q_append q n =
     chk (o_sz n > 0) ''order with no sz''
      (let q1 = q\<lparr>orders := orders q @ [n], qordermap := fm_put (o_id n) (o_addr n) (qordermap q)\<rparr>
       in Inr (if issim n then q1
               else q1\<lparr>orders_in_book := orders_in_book q1 + o_sz n,
                       size_of_book_cnt := size_of_book_cnt q1 + 1\<rparr>))"

text \<open>Dereferencing a pointer to an order of this queue, and writing the order back.\<close>

definition order_at :: "OrderQ \<Rightarrow> addr \<Rightarrow> Order option" where
  "order_at q a = List.find (\<lambda>ord. o_addr ord = a) (orders q)"

definition store_order :: "OrderQ \<Rightarrow> Order \<Rightarrow> OrderQ" where
  "store_order q ord =
     q\<lparr>orders := map (\<lambda>x. if o_addr x = o_addr ord then ord else x) (orders q)\<rparr>"

definition remove_order :: "OrderQ \<Rightarrow> Order \<Rightarrow> OrderQ res" where
  "remove_order q n =
     chk (\<not> o_deleted n) ''alrady deleted''
      (chk (orders q \<noteq> []) ''no head''
        (chk (length (orders q) = 1 \<longrightarrow> o_addr (hd (orders q)) = o_addr n) ''head''
          (let q1 = q\<lparr>orders := filter (\<lambda>x. o_addr x \<noteq> o_addr n) (orders q)\<rparr>
           in Inr (if issim n then q1 else q1\<lparr>size_of_book_cnt := size_of_book_cnt q1 - 1\<rparr>))))"

definition canc_notify :: "OrderQ \<Rightarrow> addr \<Rightarrow> int \<Rightarrow> int \<Rightarrow> mt \<Rightarrow> (OrderQ \<times> sends) res" where
  "canc_notify q a n disp modtyp =
     (case order_at q a of
        None \<Rightarrow> Inl (Undefined ''dangling order pointer'')
      | Some ord \<Rightarrow>
          chk (\<not> o_cancelled ord) ''cancelling twice''
           (chk (\<not> o_deleted ord) ''cancelling a deleted order''
            (chk (\<not> o_filled ord) ''cancelling a filled order''
             (chk (modtyp = CANC \<or> modtyp = CANCD) ''invalid mod typ''
              (chk (disp \<ge> 0) ''bad disp_sz''
               (let sz_to_canc = (if issim ord then o_sz ord
                                  else if modtyp = CANCD then max n (o_sz ord) else n)
                in bnd (Order_canc_notify ord modtyp disp sz_to_canc)
                    (\<lambda>(sz_canced, ord', out).
                      let q1 = store_order q ord';
                          q2 = (if issim ord' then q1
                                else q1\<lparr>orders_in_book := orders_in_book q1 - sz_canced\<rparr>)
                      in chk (o_sz ord' \<ge> 0) ''size went negative''
                          (chk (orders_in_book q2 \<ge> 0) ''size went negative''
                            (if o_sz ord' = 0 \<or> modtyp = CANCD then
                               (let q3 = (if issim ord' then q2
                                          else q2\<lparr>orders_in_book := orders_in_book q2 - max (o_sz ord') 0\<rparr>)
                                in bnd (remove_order (q3\<lparr>qordermap := fm_erase (o_id ord') (qordermap q3)\<rparr>) ord')
                                     (\<lambda>q4. Inr (q4, out)))
                             else Inr (q2, out))))))))))"

definition fill_notify ::
  "OrderQ \<Rightarrow> addr \<Rightarrow> int \<Rightarrow> int \<Rightarrow> int \<Rightarrow> mt \<Rightarrow> u64 \<Rightarrow> (int \<times> OrderQ \<times> sends) res" where
  "fill_notify q a n disp px modtyp tim =
     chk (tim > 0) ''no tim''
      (case order_at q a of
         None \<Rightarrow> Inl (Undefined ''dangling order pointer'')
       | Some ord \<Rightarrow>
           chk (\<not> o_cancelled ord) ''filling a cancelled order''
            (chk (\<not> o_deleted ord) ''filling a deleted order''
             (chk (\<not> o_filled ord) ''filling a filled order''
              (chk (issim ord) ''filling a non sim order''
               (chk (o_sz ord > 0) ''cant have negative size''
                (chk (modtyp = EXEC \<or> modtyp = EXECD) ''invalid mod typ''
                 (chk (modtyp = EXECD \<longrightarrow> disp \<noteq> 0) ''bad disp sz''
                  (bnd (Order_fill_notify ord n disp px modtyp tim)
                    (\<lambda>(_, ord', out).
                      let sz_filled = o_sz ord - o_sz ord'; q1 = store_order q ord'
                      in chk (sz_filled > 0) ''bad fill notify''
                          (if o_sz ord' = 0 \<or> modtyp = EXECD then
                             bnd (remove_order (q1\<lparr>qordermap := fm_erase (o_id ord') (qordermap q1)\<rparr>) ord')
                               (\<lambda>q2. Inr (sz_filled, q2, out))
                           else Inr (sz_filled, q1, out)))))))))))"

text \<open>\<open>fill_notify_s\<close> fills an order that is in no queue, on its arrival.\<close>

definition fill_notify_s :: "Order \<Rightarrow> int \<Rightarrow> int \<Rightarrow> int \<Rightarrow> mt \<Rightarrow> u64 \<Rightarrow> (int \<times> Order \<times> sends) res" where
  "fill_notify_s ord n disp px modtyp tim =
     chk (modtyp = EXEC \<or> modtyp = EXECD) ''invalid mod type''
       (Order_fill_notify ord n disp px modtyp tim)"

text \<open>
  \<open>canc_notify_all\<close> loops until \<open>qordermap\<close> is empty, cancelling the order under its
  least id. Each turn erases one entry, so the number of entries bounds the turns; a
  loop that made no progress would not end, and is \<open>Undefined\<close> here.
\<close>

fun canc_notify_all_loop :: "nat \<Rightarrow> OrderQ \<Rightarrow> sends \<Rightarrow> (OrderQ \<times> sends) res" where
  "canc_notify_all_loop fuel q out =
     (case fm_front (qordermap q) of
        None \<Rightarrow> Inr (q, out)
      | Some (_, a) \<Rightarrow>
          (case fuel of
             0 \<Rightarrow> Inl (Undefined ''canc_notify_all does not end'')
           | Suc fuel' \<Rightarrow>
               (case order_at q a of
                  None \<Rightarrow> Inl (Undefined ''dangling order pointer'')
                | Some ord \<Rightarrow>
                    bnd (canc_notify q a (o_sz ord) 0 CANCD)
                      (\<lambda>(q', out'). canc_notify_all_loop fuel' q' (out @ out')))))"

declare canc_notify_all_loop.simps [simp del]

definition canc_notify_all :: "OrderQ \<Rightarrow> (OrderQ \<times> sends) res" where
  "canc_notify_all q = canc_notify_all_loop (length (qordermap q)) q []"


section \<open>The invariant\<close>

definition order_ok :: "Order \<Rightarrow> bool" where
  "order_ok ord \<longleftrightarrow> o_sz ord > 0 \<and> \<not> o_deleted ord \<and> \<not> o_cancelled ord \<and> \<not> o_filled ord
     \<and> (issim ord \<longleftrightarrow> originator ord \<noteq> None)"

definition orderq_inv :: "OrderQ \<Rightarrow> bool" where
  "orderq_inv q \<longleftrightarrow>
     distinct (map o_addr (orders q)) \<and> distinct (map o_id (orders q))
     \<and> fm_inv (qordermap q)
     \<and> set (qordermap q) = (\<lambda>ord. (o_id ord, o_addr ord)) ` set (orders q)
     \<and> (\<forall>ord\<in>set (orders q). order_ok ord)
     \<and> size_of_book_cnt q = int (length (real_orders q))
     \<and> orders_in_book q = (\<Sum>ord\<leftarrow>real_orders q. o_sz ord)"

lemma issim_update [simp]:
  "issim (ord\<lparr>o_sz := s\<rparr>) = issim ord" "issim (ord\<lparr>o_filled := b\<rparr>) = issim ord"
  "issim (ord\<lparr>o_cancelled := b\<rparr>) = issim ord"
  by (simp_all add: issim_def)

lemma order_atD: "order_at q a = Some ord \<Longrightarrow> ord \<in> set (orders q) \<and> o_addr ord = a"
  by (auto simp: order_at_def find_Some_iff)

lemma order_at_split:
  assumes "order_at q a = Some ord"
  obtains xs ys where "orders q = xs @ ord # ys" "o_addr ord = a"
  using order_atD [OF assms] by (metis split_list)

lemma order_at_mem:
  assumes "distinct (map o_addr (orders q))" "ord \<in> set (orders q)"
  shows "order_at q (o_addr ord) = Some ord"
proof -
  obtain ord' where "order_at q (o_addr ord) = Some ord'"
    using assms(2) by (cases "order_at q (o_addr ord)") (auto simp: order_at_def find_None_iff)
  then show ?thesis
    using assms order_atD by (metis (mono_tags, lifting) distinct_map inj_onD)
qed

lemma store_order_split:
  assumes "orders q = xs @ ord # ys" "distinct (map o_addr (orders q))" "o_addr ord' = o_addr ord"
  shows "store_order q ord' = q\<lparr>orders := xs @ ord' # ys\<rparr>"
proof -
  have "map (\<lambda>x. if o_addr x = o_addr ord' then ord' else x) xs = xs"
       "map (\<lambda>x. if o_addr x = o_addr ord' then ord' else x) ys = ys"
    using assms by (auto simp: image_iff intro!: map_idI)
  then show ?thesis
    using assms by (simp add: store_order_def)
qed

lemma remove_order_split:
  assumes "orders q = xs @ ord # ys" "distinct (map o_addr (orders q))" "\<not> o_deleted ord"
  shows "remove_order q ord =
     Inr (q\<lparr>orders := xs @ ys,
            size_of_book_cnt := size_of_book_cnt q - (if issim ord then 0 else 1)\<rparr>)"
proof -
  have "filter (\<lambda>x. o_addr x \<noteq> o_addr ord) xs = xs" "filter (\<lambda>x. o_addr x \<noteq> o_addr ord) ys = ys"
    using assms by (auto simp: image_iff intro!: filter_True)
  moreover have "length (orders q) = 1 \<longrightarrow> o_addr (hd (orders q)) = o_addr ord"
    using assms(1) by auto
  ultimately show ?thesis
    using assms by (simp add: remove_order_def)
qed

text \<open>The order map after one order left the queue.\<close>

lemma set_fm_erase: "set (fm_erase k m) = {e \<in> set m. fst e \<noteq> k}"
  by (auto simp: fm_erase_def)

lemma orderq_inv_drop:
  assumes "orderq_inv q" "orders q = xs @ ord # ys"
  shows "orderq_inv (q\<lparr>orders := xs @ ys, qordermap := fm_erase (o_id ord) (qordermap q),
           size_of_book_cnt := size_of_book_cnt q - (if issim ord then 0 else 1),
           orders_in_book := orders_in_book q - (if issim ord then 0 else o_sz ord)\<rparr>)"
proof -
  have "(o_id x, o_addr x) \<noteq> (o_id ord, o_addr ord) \<and> o_id x \<noteq> o_id ord"
    if "x \<in> set xs \<union> set ys" for x
    using assms that by (auto simp: orderq_inv_def image_iff)
  then have "{e \<in> set (qordermap q). fst e \<noteq> o_id ord}
             = (\<lambda>ord. (o_id ord, o_addr ord)) ` set (xs @ ys)"
    using assms by (auto simp: orderq_inv_def)
  then show ?thesis
    using assms by (auto simp: orderq_inv_def real_orders_def set_fm_erase fm_simps)
qed

lemma orderq_inv_resize:
  assumes "orderq_inv q" "orders q = xs @ ord # ys" "order_ok ord'"
    "o_id ord' = o_id ord" "o_addr ord' = o_addr ord"
  shows "orderq_inv (q\<lparr>orders := xs @ ord' # ys,
           orders_in_book := orders_in_book q + (if issim ord then 0 else o_sz ord' - o_sz ord)\<rparr>)"
proof -
  have "issim ord' = issim ord"
    using assms(4) by (simp add: issim_def)
  then show ?thesis
    using assms by (auto simp: orderq_inv_def real_orders_def)
qed

lemma orderq_invD:
  assumes "orderq_inv q" "order_at q a = Some ord"
  shows "order_ok ord" "o_sz ord > 0" "\<not> o_deleted ord" "\<not> o_cancelled ord" "\<not> o_filled ord"
    "issim ord \<longleftrightarrow> originator ord \<noteq> None"
  using assms order_atD [OF assms(2)] by (auto simp: orderq_inv_def order_ok_def)

lemma orders_in_book_nonneg: "orderq_inv q \<Longrightarrow> 0 \<le> orders_in_book q"
proof -
  assume "orderq_inv q"
  then have "orders_in_book q = (\<Sum>ord\<leftarrow>real_orders q. o_sz ord)"
    and "\<forall>ord\<in>set (real_orders q). 0 \<le> o_sz ord"
    by (simp_all add: orderq_inv_def real_orders_def order_ok_def less_imp_le)
  then show ?thesis
    by (auto intro!: sum_list_nonneg)
qed

section \<open>What each operation does to a well-formed queue\<close>

text \<open>
  \<open>drop_order\<close> and \<open>resize_order\<close> are the two effects an operation can have on an order
  of the queue; every branch of \<open>canc_notify\<close> and \<open>fill_notify\<close> is one of them.
\<close>

definition drop_order :: "OrderQ \<Rightarrow> Order \<Rightarrow> OrderQ" where
  "drop_order q ord =
     q\<lparr>orders := filter (\<lambda>x. o_addr x \<noteq> o_addr ord) (orders q),
       qordermap := fm_erase (o_id ord) (qordermap q),
       size_of_book_cnt := size_of_book_cnt q - (if issim ord then 0 else 1),
       orders_in_book := orders_in_book q - (if issim ord then 0 else o_sz ord)\<rparr>"

definition resize_order :: "OrderQ \<Rightarrow> Order \<Rightarrow> int \<Rightarrow> OrderQ" where
  "resize_order q ord s =
     q\<lparr>orders := map (\<lambda>x. if o_addr x = o_addr ord then ord\<lparr>o_sz := s\<rparr> else x) (orders q),
       orders_in_book := orders_in_book q + (if issim ord then 0 else s - o_sz ord)\<rparr>"

lemma drop_order_split:
  assumes "orderq_inv q" "orders q = xs @ ord # ys"
  shows "orders (drop_order q ord) = xs @ ys"
proof -
  have "filter (\<lambda>x. o_addr x \<noteq> o_addr ord) xs = xs" "filter (\<lambda>x. o_addr x \<noteq> o_addr ord) ys = ys"
    using assms by (auto simp: orderq_inv_def image_iff intro!: filter_True)
  then show ?thesis
    using assms(2) by (simp add: drop_order_def)
qed

lemma resize_order_split:
  assumes "orderq_inv q" "orders q = xs @ ord # ys"
  shows "orders (resize_order q ord s) = xs @ ord\<lparr>o_sz := s\<rparr> # ys"
proof -
  have "map (\<lambda>x. if o_addr x = o_addr ord then ord\<lparr>o_sz := s\<rparr> else x) xs = xs"
       "map (\<lambda>x. if o_addr x = o_addr ord then ord\<lparr>o_sz := s\<rparr> else x) ys = ys"
    using assms by (auto simp: orderq_inv_def image_iff intro!: map_idI)
  then show ?thesis
    using assms(2) by (simp add: resize_order_def)
qed

lemma drop_order_inv:
  assumes "orderq_inv q" "ord \<in> set (orders q)"
  shows "orderq_inv (drop_order q ord)"
proof -
  obtain xs ys where sp: "orders q = xs @ ord # ys"
    using assms(2) by (metis split_list)
  have "drop_order q ord = q\<lparr>orders := xs @ ys, qordermap := fm_erase (o_id ord) (qordermap q),
           size_of_book_cnt := size_of_book_cnt q - (if issim ord then 0 else 1),
           orders_in_book := orders_in_book q - (if issim ord then 0 else o_sz ord)\<rparr>"
    using drop_order_split [OF assms(1) sp] by (simp add: drop_order_def)
  then show ?thesis
    using orderq_inv_drop [OF assms(1) sp] by simp
qed

lemma resize_order_inv:
  assumes "orderq_inv q" "ord \<in> set (orders q)" "s > 0"
  shows "orderq_inv (resize_order q ord s)"
proof -
  obtain xs ys where sp: "orders q = xs @ ord # ys"
    using assms(2) by (metis split_list)
  have "order_ok (ord\<lparr>o_sz := s\<rparr>)"
    using assms by (auto simp: orderq_inv_def order_ok_def)
  then have "orderq_inv (q\<lparr>orders := xs @ ord\<lparr>o_sz := s\<rparr> # ys,
      orders_in_book := orders_in_book q + (if issim ord then 0 else s - o_sz ord)\<rparr>)"
    using orderq_inv_resize [OF assms(1) sp, of "ord\<lparr>o_sz := s\<rparr>"]
    by (cases "issim ord") simp_all
  then show ?thesis
    using resize_order_split [OF assms(1) sp, of s] by (simp add: resize_order_def)
qed

lemma store_then_remove:
  assumes "orderq_inv q" "order_at q a = Some ord" "o_addr ord' = o_addr ord" "o_id ord' = o_id ord"
    "\<not> o_deleted ord'"
  shows "remove_order ((store_order q ord')\<lparr>orders_in_book := n, qordermap := m\<rparr>) ord'
       = Inr ((drop_order q ord)\<lparr>orders_in_book := n, qordermap := m\<rparr>)"
proof -
  obtain xs ys where sp: "orders q = xs @ ord # ys"
    using assms(2) by (rule order_at_split)
  have d: "distinct (map o_addr (orders q))"
    using assms(1) by (simp add: orderq_inv_def)
  let ?q = "(store_order q ord')\<lparr>orders_in_book := n, qordermap := m\<rparr>"
  have q': "?q = q\<lparr>orders := xs @ ord' # ys, orders_in_book := n, qordermap := m\<rparr>"
    using store_order_split [OF sp d assms(3)] by simp
  have "remove_order ?q ord' = Inr (?q\<lparr>orders := xs @ ys,
      size_of_book_cnt := size_of_book_cnt ?q - (if issim ord' then 0 else 1)\<rparr>)"
    by (rule remove_order_split) (use q' d sp assms(3,5) in auto)
  moreover have "issim ord' = issim ord"
    using assms(4) by (simp add: issim_def)
  ultimately show ?thesis
    using drop_order_split [OF assms(1) sp] q' by (simp add: drop_order_def)
qed


definition cancel_ack :: "Order \<Rightarrow> int \<Rightarrow> sends" where
  "cancel_ack ord s =
     (case originator ord of None \<Rightarrow> []
      | Some to \<Rightarrow> [(to, CancAck (id_of (o_id ord)) (o_sz ord - s) s)])"

definition fill_msg :: "Order \<Rightarrow> int \<Rightarrow> int \<Rightarrow> u64 \<Rightarrow> sends" where
  "fill_msg ord n px tim =
     (case originator ord of None \<Rightarrow> []
      | Some to \<Rightarrow> [(to, Fill (id_of (o_id ord)) (exchid (o_id ord)) (o_sym ord) px
                           (o_side ord) n (o_sz ord - n) (o_owner ord) tim)])"

lemma Order_canc_notify_ok:
  assumes "order_ok ord" "dispsz \<ge> 0" "modtyp = CANCD \<or> modtyp = CANC \<and> dispsz > 0"
  shows "Order_canc_notify ord modtyp dispsz n =
     (let s = (if modtyp = CANCD then 0 else dispsz)
      in Inr (o_sz ord - s, ord\<lparr>o_sz := s, o_cancelled := (modtyp = CANCD)\<rparr>, cancel_ack ord s))"
  using assms
  by (cases "originator ord") (auto simp: Order_canc_notify_def order_ok_def cancel_ack_def)

lemma canc_notify_CANCD:
  assumes "orderq_inv q" "order_at q a = Some ord" "disp \<ge> 0"
  shows "canc_notify q a n disp CANCD = Inr (drop_order q ord, cancel_ack ord 0)"
proof -
  let ?o = "ord\<lparr>o_sz := 0, o_cancelled := True\<rparr>"
  have rm: "remove_order ((store_order q ?o)\<lparr>orders_in_book := k, qordermap := m\<rparr>) ?o
          = Inr ((drop_order q ord)\<lparr>orders_in_book := k, qordermap := m\<rparr>)" for k m
    by (rule store_then_remove) (use assms orderq_invD in auto)
  have st: "store_order q ?o\<lparr>qordermap := m\<rparr>
            = store_order q ?o\<lparr>orders_in_book := orders_in_book q, qordermap := m\<rparr>" for m
    by (simp add: store_order_def)
  have "0 \<le> orders_in_book q - o_sz ord" if "\<not> issim ord"
    using orders_in_book_nonneg [OF drop_order_inv [OF assms(1), of ord]] order_atD [OF assms(2)] that
    by (simp add: drop_order_def)
  then show ?thesis
    using assms orderq_invD [OF assms(1,2)] orders_in_book_nonneg [OF assms(1)]
    by (cases "issim ord")
      (simp_all add: canc_notify_def Order_canc_notify_ok rm st,
       simp_all add: store_order_def drop_order_def)
qed

lemma canc_notify_CANC:
  assumes "orderq_inv q" "order_at q a = Some ord" "disp > 0"
  shows "canc_notify q a n disp CANC = Inr (resize_order q ord disp, cancel_ack ord disp)"
proof -
  have "0 \<le> orders_in_book q + (if issim ord then 0 else disp - o_sz ord)"
    using orders_in_book_nonneg [OF resize_order_inv [OF assms(1) _ assms(3)]] order_atD [OF assms(2)]
    by (simp add: resize_order_def)
  then show ?thesis
    using assms orderq_invD [OF assms(1,2)] orders_in_book_nonneg [OF assms(1)]
    by (cases "issim ord") (simp_all add: canc_notify_def Order_canc_notify_ok store_order_def
        resize_order_def fun_eq_iff cong: map_cong)
qed

lemma canc_notify_CANC_no_size:
  assumes "orderq_inv q" "order_at q a = Some ord"
  shows "canc_notify q a n 0 CANC = Inl (Assert ''no disp size in cancel message'')"
  using orderq_invD [OF assms] assms(2) by (simp add: canc_notify_def Order_canc_notify_def)

lemma canc_notify_returns_iff:
  assumes "orderq_inv q" "order_at q a = Some ord"
  shows "returns (canc_notify q a n disp m) \<longleftrightarrow>
      m = CANCD \<and> disp \<ge> 0 \<or> m = CANC \<and> disp > 0"
proof (cases "disp \<ge> 0 \<and> (m = CANC \<or> m = CANCD)")
  case True
  then consider "m = CANCD" | "m = CANC" "disp > 0" | "m = CANC" "disp = 0"
    by fastforce
  then show ?thesis
    using True assms
    by cases (simp_all add: canc_notify_CANCD canc_notify_CANC canc_notify_CANC_no_size)
next
  case False
  then show ?thesis
    using orderq_invD [OF assms] assms(2) by (auto simp: canc_notify_def)
qed


lemma Order_fill_notify_ok:
  assumes "order_ok ord" "issim ord" "0 < n" "n \<le> o_sz ord" "disp \<le> 0" "modtyp = EXEC \<or> modtyp = EXECD"
  shows "Order_fill_notify ord n disp px modtyp tim =
     Inr (n, ord\<lparr>o_sz := o_sz ord - n, o_filled := (o_sz ord = n)\<rparr>, fill_msg ord n px tim)"
  using assms by (auto simp: Order_fill_notify_def order_ok_def fill_msg_def Let_def)

lemma fill_notify_sim:
  assumes "orderq_inv q" "order_at q a = Some ord" "issim ord" "0 < n" "n \<le> o_sz ord" "tim > 0"
    "modtyp = EXEC \<and> disp \<le> 0 \<or> modtyp = EXECD \<and> disp < 0"
  shows "fill_notify q a n disp px modtyp tim =
     Inr (n, if n = o_sz ord \<or> modtyp = EXECD then drop_order q ord
             else resize_order q ord (o_sz ord - n), fill_msg ord n px tim)"
proof -
  note ok = orderq_invD [OF assms(1,2)]
  have *: "Order_fill_notify ord n disp px modtyp tim =
     Inr (n, ord\<lparr>o_sz := o_sz ord - n, o_filled := (o_sz ord = n)\<rparr>, fill_msg ord n px tim)"
    by (rule Order_fill_notify_ok) (use assms ok in auto)
  let ?o = "ord\<lparr>o_sz := o_sz ord - n, o_filled := (o_sz ord = n)\<rparr>"
  have rm: "remove_order ((store_order q ?o)\<lparr>qordermap := m\<rparr>) ?o
          = Inr ((drop_order q ord)\<lparr>qordermap := m\<rparr>)" for m
  proof -
    have "remove_order ((store_order q ?o)\<lparr>orders_in_book := orders_in_book q, qordermap := m\<rparr>) ?o
          = Inr ((drop_order q ord)\<lparr>orders_in_book := orders_in_book q, qordermap := m\<rparr>)"
      by (rule store_then_remove) (use assms ok in auto)
    then show ?thesis
      using assms(3) by (simp add: store_order_def drop_order_def)
  qed
  have rs: "store_order q (ord\<lparr>o_sz := s, o_filled := False\<rparr>) = resize_order q ord s" for s
    using assms(3) ok by (simp add: store_order_def resize_order_def cong: if_cong)
  have mod: "modtyp = EXEC \<or> modtyp = EXECD" "modtyp = EXECD \<longrightarrow> disp \<noteq> 0"
    using assms(7) by auto
  have dr: "(drop_order q ord)\<lparr>qordermap := fm_erase (o_id ord) (qordermap (store_order q ?o))\<rparr> = drop_order q ord"
    by (simp add: drop_order_def store_order_def)
  show ?thesis
  proof (cases "o_sz ?o = 0 \<or> modtyp = EXECD")
    case True
    then have "n = o_sz ord \<or> modtyp = EXECD"
      by auto
    then show ?thesis
      using True assms(2-6) ok mod * by (simp add: fill_notify_def rm dr)
  next
    case False
    then have "n \<noteq> o_sz ord" "modtyp \<noteq> EXECD"
      by auto
    then show ?thesis
      using assms(2-6) ok mod * rs [of "o_sz ord - n"] by (simp add: fill_notify_def)
  qed
qed

lemma fill_notify_Inr:
  assumes "orderq_inv q" "fill_notify q a n disp px modtyp tim = Inr (k, q', out)"
  obtains ord where "order_at q a = Some ord" "issim ord" "0 < n" "n \<le> o_sz ord" "tim > 0"
    "modtyp = EXEC \<and> disp \<le> 0 \<or> modtyp = EXECD \<and> disp < 0"
proof -
  obtain ord where ord: "order_at q a = Some ord"
    using assms(2) by (cases "order_at q a") (auto simp: fill_notify_def)
  then show thesis
    using assms(2) that by (auto simp: fill_notify_def Order_fill_notify_def Let_def split: option.splits if_splits)
qed

lemma canc_notify_Inr:
  assumes "orderq_inv q" "canc_notify q a n disp m = Inr (q', out)"
  obtains ord where "order_at q a = Some ord"
    "m = CANCD \<and> disp \<ge> 0 \<and> q' = drop_order q ord \<and> out = cancel_ack ord 0
     \<or> m = CANC \<and> disp > 0 \<and> q' = resize_order q ord disp \<and> out = cancel_ack ord disp"
proof -
  obtain ord where ord: "order_at q a = Some ord"
    using assms(2) by (cases "order_at q a") (auto simp: canc_notify_def)
  have "returns (canc_notify q a n disp m)"
    using assms(2) by simp
  then have "m = CANCD \<and> disp \<ge> 0 \<or> m = CANC \<and> disp > 0"
    using canc_notify_returns_iff [OF assms(1) ord] by simp
  then show thesis
    using that [OF ord] assms canc_notify_CANCD [OF assms(1) ord] canc_notify_CANC [OF assms(1) ord]
    by auto
qed

lemma orderq_inv_empty [simp]: "orderq_inv OrderQ_empty"
  by (simp add: orderq_inv_def OrderQ_empty_def real_orders_def fm_simps)

lemma q_append_inv:
  assumes "orderq_inv q" "order_ok n" "o_addr n \<notin> o_addr ` set (orders q)" "o_id n \<notin> o_id ` set (orders q)"
  shows "\<exists>q'. q_append q n = Inr q' \<and> orders q' = orders q @ [n] \<and> orderq_inv q'"
proof -
  have fresh: "fm_find (qordermap q) (o_id n) = None"
    using assms(1,4) by (auto simp: orderq_inv_def fm_find_def map_of_eq_None_iff image_image)
  have "set (fm_put (o_id n) (o_addr n) (qordermap q)) = insert (o_id n, o_addr n) (set (qordermap q))"
    using fresh by (rule set_fm_put_new)
  then show ?thesis
    using assms by (auto simp: q_append_def orderq_inv_def order_ok_def real_orders_def fm_simps)
qed


lemma fm_erase_front: "fm_inv (e # es) \<Longrightarrow> fm_erase (fst e) (e # es) = es"
  by (auto simp: fm_inv_def fm_erase_def intro!: filter_True)

lemma find_filter_neq:
  "(\<And>x. P x \<Longrightarrow> Q x) \<Longrightarrow> List.find P (filter Q xs) = List.find P xs"
  by (induction xs) auto

lemma order_at_drop: "a \<noteq> o_addr ord \<Longrightarrow> order_at (drop_order q ord) a = order_at q a"
  by (auto simp: order_at_def drop_order_def intro!: find_filter_neq)

lemma qordermap_order_at:
  assumes "orderq_inv q" "(i, a) \<in> set (qordermap q)"
  obtains ord where "order_at q a = Some ord" "ord \<in> set (orders q)" "o_id ord = i" "o_addr ord = a"
proof -
  obtain ord where "ord \<in> set (orders q)" "o_id ord = i" "o_addr ord = a"
    using assms by (auto simp: orderq_inv_def)
  moreover from this have "order_at q a = Some ord"
    using assms(1) order_at_mem by (auto simp: orderq_inv_def)
  ultimately show thesis
    using that by blast
qed

lemma orders_empty_iff: "orderq_inv q \<Longrightarrow> qordermap q = [] \<longleftrightarrow> orders q = []"
proof -
  assume "orderq_inv q"
  then have "set (qordermap q) = {} \<longleftrightarrow> set (orders q) = {}"
    by (simp add: orderq_inv_def)
  then show ?thesis
    by simp
qed

definition all_acks :: "OrderQ \<Rightarrow> sends" where
  "all_acks q = concat (map (\<lambda>(i, a). case order_at q a of None \<Rightarrow> [] | Some ord \<Rightarrow> cancel_ack ord 0)
                          (qordermap q))"

lemma all_acks_drop:
  assumes "orderq_inv q" "qordermap q = (i, a) # m" "order_at q a = Some ord" "o_id ord = i"
  shows "all_acks q = cancel_ack ord 0 @ all_acks (drop_order q ord)"
proof -
  have m: "qordermap (drop_order q ord) = m"
    using assms fm_erase_front [of "(i, a)" m] by (simp add: drop_order_def orderq_inv_def)
  have "a' \<noteq> o_addr ord" if mem: "(i', a') \<in> set m" for i' a'
  proof
    assume eq: "a' = o_addr ord"
    obtain ord' where ord': "ord' \<in> set (orders q)" "o_id ord' = i'" "o_addr ord' = a'"
      using qordermap_order_at [OF assms(1), of i' a'] mem assms(2) by (metis list.set_intros(2))
    then have "ord' = ord"
      using assms(1) order_atD [OF assms(3)] eq by (auto simp: orderq_inv_def distinct_map inj_on_def)
    then have "i' = i"
      using assms(4) ord'(2) by simp
    moreover have "i < i'"
      using assms(1,2) mem by (auto simp: orderq_inv_def fm_inv_def)
    ultimately show False
      by simp
  qed
  then have "order_at (drop_order q ord) a' = order_at q a'" if "(i', a') \<in> set m" for i' a'
    using that order_at_drop by blast
  then have eq: "map (\<lambda>(i, a). case order_at q a of None \<Rightarrow> [] | Some ord \<Rightarrow> cancel_ack ord 0) m =
      map (\<lambda>(i, a). case order_at (drop_order q ord) a of None \<Rightarrow> [] | Some ord \<Rightarrow> cancel_ack ord 0) m"
    by auto
  then show ?thesis
    using assms(2,3) m by (simp add: all_acks_def eq)
qed

lemma canc_notify_all_loop_ok:
  assumes "orderq_inv q" "length (qordermap q) \<le> fuel"
  shows "\<exists>q'. canc_notify_all_loop fuel q out = Inr (q', out @ all_acks q) \<and> orderq_inv q'
              \<and> orders q' = [] \<and> qordermap q' = []"
  using assms
proof (induction fuel arbitrary: q out)
  case 0
  then have "qordermap q = []" "orders q = []"
    by (simp_all add: orders_empty_iff [symmetric])
  then show ?case
    using 0 by (simp add: canc_notify_all_loop.simps fm_front_def all_acks_def)
next
  case (Suc fuel)
  show ?case
  proof (cases "qordermap q")
    case Nil
    then have "orders q = []"
      using Suc.prems by (simp add: orders_empty_iff [symmetric])
    then show ?thesis
      using Suc.prems Nil by (simp add: canc_notify_all_loop.simps fm_front_def all_acks_def)
  next
    case (Cons e m)
    obtain i a where e: "e = (i, a)"
      by force
    obtain ord where ord: "order_at q a = Some ord" "ord \<in> set (orders q)" "o_id ord = i" "o_addr ord = a"
      using qordermap_order_at [OF Suc.prems(1), of i a] Cons e by (metis list.set_intros(1))
    have m: "qordermap (drop_order q ord) = m"
      using Suc.prems(1) Cons e ord(3) fm_erase_front [of e m]
      by (simp add: drop_order_def orderq_inv_def)
    have "canc_notify_all_loop (Suc fuel) q out
          = canc_notify_all_loop fuel (drop_order q ord) (out @ cancel_ack ord 0)"
      using Cons e ord canc_notify_CANCD [OF Suc.prems(1) ord(1)]
      by (simp add: canc_notify_all_loop.simps [of "Suc fuel"] fm_front_def)
    then show ?thesis
      using Suc.IH [of "drop_order q ord" "out @ cancel_ack ord 0"] Suc.prems Cons m e ord
        drop_order_inv all_acks_drop [OF Suc.prems(1), of i a m ord]
      by simp
  qed
qed

section \<open>The abstract price level\<close>

text \<open>What a level promises its book: orders in time priority, each an id and a size.\<close>

definition level_view :: "OrderQ \<Rightarrow> (u64 \<times> int) list" where
  "level_view q = map (\<lambda>ord. (o_id ord, o_sz ord)) (orders q)"

lemma id_eq_addr_eq:
  assumes "orderq_inv q" "ord \<in> set (orders q)" "x \<in> set (orders q)"
  shows "o_addr x = o_addr ord \<longleftrightarrow> x = ord" "o_id x = o_id ord \<longleftrightarrow> x = ord"
  using assms by (auto simp: orderq_inv_def distinct_map inj_on_def)

lemma level_view_drop:
  assumes "orderq_inv q" "ord \<in> set (orders q)"
  shows "level_view (drop_order q ord) = filter (\<lambda>(i, s). i \<noteq> o_id ord) (level_view q)"
proof -
  have "filter (\<lambda>x. o_addr x \<noteq> o_addr ord) (orders q) = filter (\<lambda>x. o_id x \<noteq> o_id ord) (orders q)"
    using id_eq_addr_eq [OF assms] by (auto intro!: filter_cong)
  then show ?thesis
    by (simp add: level_view_def drop_order_def filter_map comp_def)
qed

lemma level_view_resize:
  assumes "orderq_inv q" "ord \<in> set (orders q)"
  shows "level_view (resize_order q ord n) =
           map (\<lambda>(i, s). if i = o_id ord then (i, n) else (i, s)) (level_view q)"
  using id_eq_addr_eq [OF assms] by (auto simp: level_view_def resize_order_def)


text \<open>
  The book finds an order by id in \<open>qordermap\<close> and passes the pointer on; \<open>level_cancel\<close>
  and \<open>level_reduce\<close> are these two calls together.
\<close>

definition level_cancel :: "OrderQ \<Rightarrow> u64 \<Rightarrow> OrderQ option" where
  "level_cancel q i = (case fm_find (qordermap q) i of None \<Rightarrow> None
     | Some a \<Rightarrow> (case canc_notify q a 0 0 CANCD of Inl _ \<Rightarrow> None | Inr (q', _) \<Rightarrow> Some q'))"

definition level_reduce :: "OrderQ \<Rightarrow> u64 \<Rightarrow> int \<Rightarrow> OrderQ option" where
  "level_reduce q i n = (case fm_find (qordermap q) i of None \<Rightarrow> None
     | Some a \<Rightarrow> (case canc_notify q a 0 n CANC of Inl _ \<Rightarrow> None | Inr (q', _) \<Rightarrow> Some q'))"

text \<open>
  A level of a price-time-priority book: a cancelled order leaves and everybody behind it
  moves up, a changed size keeps its place, nobody is reordered.
\<close>

locale priority_level =
  fixes view :: "'q \<Rightarrow> (u64 \<times> int) list"
    and ok :: "'q \<Rightarrow> bool"
    and cancel :: "'q \<Rightarrow> u64 \<Rightarrow> 'q option"
    and reduce :: "'q \<Rightarrow> u64 \<Rightarrow> int \<Rightarrow> 'q option"
  assumes view_distinct: "ok q \<Longrightarrow> distinct (map fst (view q))"
    and view_pos: "ok q \<Longrightarrow> (i, s) \<in> set (view q) \<Longrightarrow> s > 0"
    and cancel_ok: "ok q \<Longrightarrow> i \<in> fst ` set (view q) \<Longrightarrow>
          \<exists>q'. cancel q i = Some q' \<and> ok q' \<and> view q' = filter (\<lambda>(k, s). k \<noteq> i) (view q)"
    and reduce_ok: "ok q \<Longrightarrow> i \<in> fst ` set (view q) \<Longrightarrow> n > 0 \<Longrightarrow>
          \<exists>q'. reduce q i n = Some q' \<and> ok q'
             \<and> view q' = map (\<lambda>(k, s). if k = i then (k, n) else (k, s)) (view q)"
begin

definition ahead :: "'q \<Rightarrow> u64 \<Rightarrow> u64 list" where
  "ahead q i = takeWhile (\<lambda>k. k \<noteq> i) (map fst (view q))"

lemma cancel_ahead:
  assumes "ok q" "cancel q i = Some q'" "i \<in> fst ` set (view q)" "j \<noteq> i"
  shows "ahead q' j = filter (\<lambda>k. k \<noteq> i) (ahead q j)"
proof -
  have v: "view q' = filter (\<lambda>(k, s). k \<noteq> i) (view q)"
    using cancel_ok [OF assms(1,3)] assms(2) by auto
  have "takeWhile (\<lambda>k. k \<noteq> j) (map fst (filter (\<lambda>(k, s). k \<noteq> i) xs))
        = filter (\<lambda>k. k \<noteq> i) (takeWhile (\<lambda>k. k \<noteq> j) (map fst xs))" for xs :: "(u64 \<times> int) list"
    using assms(4) by (induction xs) auto
  then show ?thesis
    by (simp add: ahead_def v)
qed

lemma reduce_ahead:
  assumes "ok q" "reduce q i n = Some q'" "i \<in> fst ` set (view q)" "n > 0"
  shows "ahead q' j = ahead q j"
proof -
  have v: "view q' = map (\<lambda>(k, s). if k = i then (k, n) else (k, s)) (view q)"
    using reduce_ok [OF assms(1,3,4)] assms(2) by auto
  have m: "map fst (map (\<lambda>(k, s). if k = i then (k, n) else (k, s)) xs) = map fst xs"
    for xs :: "(u64 \<times> int) list"
    by (induction xs) auto
  show ?thesis
    by (simp only: ahead_def v m)
qed

end

lemma level_find:
  assumes "orderq_inv q" "i \<in> fst ` set (level_view q)"
  obtains a ord where "fm_find (qordermap q) i = Some a" "order_at q a = Some ord"
    "ord \<in> set (orders q)" "o_id ord = i"
proof -
  obtain ord where ord: "ord \<in> set (orders q)" "o_id ord = i"
    using assms(2) by (auto simp: level_view_def)
  then have "(i, o_addr ord) \<in> set (qordermap q)"
    using assms(1) by (auto simp: orderq_inv_def)
  then have "fm_find (qordermap q) i = Some (o_addr ord)"
    using assms(1) by (simp add: orderq_inv_def fm_find_iff)
  moreover have "order_at q (o_addr ord) = Some ord"
    using assms(1) ord(1) by (simp add: orderq_inv_def order_at_mem)
  ultimately show thesis
    using that ord by blast
qed

interpretation lvl: priority_level level_view orderq_inv level_cancel level_reduce
proof
  show "distinct (map fst (level_view q))" if "orderq_inv q" for q
    using that by (simp add: orderq_inv_def level_view_def comp_def)
  show "s > 0" if "orderq_inv q" "(i, s) \<in> set (level_view q)" for q i s
    using that by (auto simp: orderq_inv_def level_view_def order_ok_def)
next
  fix q i assume a: "orderq_inv q" "i \<in> fst ` set (level_view q)"
  show "\<exists>q'. level_cancel q i = Some q' \<and> orderq_inv q'
             \<and> level_view q' = filter (\<lambda>(k, s). k \<noteq> i) (level_view q)"
    using a(1) drop_order_inv [OF a(1)] level_view_drop [OF a(1)]
    by (rule_tac level_find [OF a]) (simp add: level_cancel_def canc_notify_CANCD)
  show "\<exists>q'. level_reduce q i n = Some q' \<and> orderq_inv q'
             \<and> level_view q' = map (\<lambda>(k, s). if k = i then (k, n) else (k, s)) (level_view q)"
    if "n > 0" for n
    using a(1) resize_order_inv [OF a(1)] level_view_resize [OF a(1)] that
    by (rule_tac level_find [OF a]) (simp add: level_reduce_def canc_notify_CANC)
qed


section \<open>Properties of the price level\<close>

definition sim_order :: "addr \<Rightarrow> u32 \<Rightarrow> int \<Rightarrow> Order" where
  "sim_order a n s = \<lparr>o_addr = a, o_sz = s, originator = Some 7, o_id = longid x_SIM n, exordid = 0,
      o_sym = 3, o_side = BUY, o_deleted = False, o_cancelled = False, o_filled = False,
      o_owner = 1, o_tim = 5, aggr_fills = 0\<rparr>"

definition real_order :: "addr \<Rightarrow> u32 \<Rightarrow> int \<Rightarrow> Order" where
  "real_order a n s = (sim_order a n s)\<lparr>originator := None, o_id := longid x_CMEMDFUT n\<rparr>"

definition demo_queue :: OrderQ where
  "demo_queue = \<lparr>orders = [real_order 1 100 10, sim_order 2 200 4, real_order 3 300 6],
     qordermap = [(longid x_CMEMDFUT 100, 1), (longid x_CMEMDFUT 300, 3), (longid x_SIM 200, 2)],
     size_of_book_cnt = 2, orders_in_book = 16\<rparr>"

lemmas demo_queue_simps = demo_queue_def sim_order_def real_order_def issim_def

lemma longid_less_values:
  "longid x_CMEMDFUT 100 < longid x_CMEMDFUT 300" "longid x_CMEMDFUT 300 < longid x_SIM 200"
  "longid x_CMEMDFUT 100 < longid x_SIM 200"
  by (simp_all add: longid_def x_SIM_def x_CMEMDFUT_def)

lemma longid_eq_iff [simp]: "longid x n = longid y k \<longleftrightarrow> x = y \<and> n = k"
  by (metis exchid_longid id_of_longid)

lemma x_neq [simp]: "x_CMEMDFUT \<noteq> x_SIM" "x_SIM \<noteq> x_CMEMDFUT"
  by (simp_all add: x_SIM_def x_CMEMDFUT_def)

lemma demo_queue_inv [simp]: "orderq_inv demo_queue"
  using longid_less_values
  by (simp add: orderq_inv_def demo_queue_simps real_orders_def order_ok_def fm_inv_def
      insert_commute)

text \<open>
  C6. The level invariant is inductive: the empty queue has it; appending an order with
  a fresh id and address always succeeds and keeps it; and whatever cancel or fill does to
  it without aborting keeps it: the list and \<open>qordermap\<close> name the same orders, every
  resting order has a positive size and no dead flag, and both counters equal what a walk
  over the real orders would find.
\<close>

theorem orderq_invariant_preserved:
  assumes "orderq_inv q"
  shows "orderq_inv OrderQ_empty
    \<and> (order_ok n \<and> o_addr n \<notin> o_addr ` set (orders q) \<and> o_id n \<notin> o_id ` set (orders q)
        \<longrightarrow> (\<exists>q'. q_append q n = Inr q' \<and> orders q' = orders q @ [n] \<and> orderq_inv q'))
    \<and> (canc_notify q a s disp m = Inr (q1, out1) \<longrightarrow> orderq_inv q1)
    \<and> (fill_notify q a s disp px m tim = Inr (k, q2, out2) \<longrightarrow> orderq_inv q2)"
proof (intro conjI impI)
  show "\<exists>q'. q_append q n = Inr q' \<and> orders q' = orders q @ [n] \<and> orderq_inv q'"
    if "order_ok n \<and> o_addr n \<notin> o_addr ` set (orders q) \<and> o_id n \<notin> o_id ` set (orders q)"
    using q_append_inv [OF assms] that by blast
  show "orderq_inv q1" if c: "canc_notify q a s disp m = Inr (q1, out1)"
    using canc_notify_Inr [OF assms c] drop_order_inv [OF assms] resize_order_inv [OF assms] order_atD
    by metis
  show "orderq_inv q2" if f: "fill_notify q a s disp px m tim = Inr (k, q2, out2)"
  proof -
    obtain ord where ord: "order_at q a = Some ord" "issim ord" "0 < s" "s \<le> o_sz ord" "tim > 0"
      "m = EXEC \<and> disp \<le> 0 \<or> m = EXECD \<and> disp < 0"
      using fill_notify_Inr [OF assms f] by metis
    then show ?thesis
      using fill_notify_sim [OF assms ord, of px] f drop_order_inv [OF assms] order_atD
        resize_order_inv [OF assms, of ord "o_sz ord - s"]
      by (auto split: if_splits)
  qed
qed simp

theorem orderq_invariant_preserved_witness:
  "\<exists>q' q1 out1 k q2 out2. q_append demo_queue (sim_order 4 201 5) = Inr q' \<and> orderq_inv q'
     \<and> canc_notify demo_queue 1 10 0 CANCD = Inr (q1, out1) \<and> orderq_inv q1
     \<and> fill_notify demo_queue 2 3 0 9950 EXEC 17 = Inr (k, q2, out2) \<and> orderq_inv q2"
proof -
  have at: "order_at demo_queue 1 = Some (real_order 1 100 10)"
    "order_at demo_queue 2 = Some (sim_order 2 200 4)"
    by (simp_all add: order_at_def demo_queue_simps)
  have c: "canc_notify demo_queue 1 10 0 CANCD
      = Inr (drop_order demo_queue (real_order 1 100 10), cancel_ack (real_order 1 100 10) 0)"
    using canc_notify_CANCD [OF demo_queue_inv at(1)] by simp
  have f: "fill_notify demo_queue 2 3 0 9950 EXEC 17
      = Inr (3, resize_order demo_queue (sim_order 2 200 4) 1, fill_msg (sim_order 2 200 4) 3 9950 17)"
    using fill_notify_sim [OF demo_queue_inv at(2)] by (simp add: sim_order_def issim_def)
  have n: "order_ok (sim_order 4 201 5)" "o_addr (sim_order 4 201 5) \<notin> o_addr ` set (orders demo_queue)"
    "o_id (sim_order 4 201 5) \<notin> o_id ` set (orders demo_queue)"
    by (simp_all add: demo_queue_simps order_ok_def)
  obtain q' where "q_append demo_queue (sim_order 4 201 5) = Inr q'" "orderq_inv q'"
    using orderq_invariant_preserved [OF demo_queue_inv, of "sim_order 4 201 5"] n by metis
  moreover have "orderq_inv (drop_order demo_queue (real_order 1 100 10))"
    using orderq_invariant_preserved [OF demo_queue_inv] c by metis
  moreover have "orderq_inv (resize_order demo_queue (sim_order 2 200 4) 1)"
    using orderq_invariant_preserved [OF demo_queue_inv] f by metis
  ultimately show ?thesis
    using c f by blast
qed


text \<open>
  C28. Clearing a level ends: \<open>canc_notify_all\<close> on a well-formed level returns, for any
  number of orders, leaves list and map empty, and sends each simulated order's originator
  exactly one acknowledgement, for its whole size with nothing remaining, in ascending
  order of the ids.
\<close>

theorem canc_notify_all_empties:
  assumes "orderq_inv q"
  shows "\<exists>q'. canc_notify_all q = Inr (q', all_acks q) \<and> orderq_inv q'
              \<and> orders q' = [] \<and> qordermap q' = [] \<and> orders_in_book q' = 0 \<and> size_of_book_cnt q' = 0"
proof -
  obtain q' where "canc_notify_all q = Inr (q', all_acks q)" "orderq_inv q'" "orders q' = []"
    "qordermap q' = []"
    using canc_notify_all_loop_ok [OF assms order_refl, of "[]"] by (auto simp: canc_notify_all_def)
  then show ?thesis
    by (simp add: orderq_inv_def real_orders_def)
qed

theorem canc_notify_all_empties_witness:
  "\<exists>q'. canc_notify_all demo_queue = Inr (q', [(7, CancAck 200 4 0)]) \<and> orders q' = []"
proof -
  have "all_acks demo_queue = [(7, CancAck 200 4 0)]"
    by (simp add: all_acks_def demo_queue_simps order_at_def cancel_ack_def)
  then show ?thesis
    using canc_notify_all_empties [OF demo_queue_inv] by auto
qed

text \<open>
  The build with \<open>FAST_SZ_BOOK\<close> and the build without agree on a well-formed level:
  the walk's two assertions hold, and both return the total size of the real orders.
\<close>

theorem fast_size_equals_walk:
  assumes "orderq_inv q"
  shows "get_orders_in_book q = get_orders_in_book_fast q
       \<and> get_orders_in_book q = Inr ((\<Sum>ord\<leftarrow>orders q. o_sz ord) - get_sim_in_book q)"
proof -
  have "(\<Sum>ord\<leftarrow>orders q. o_sz ord) = get_sim_in_book q + (\<Sum>ord\<leftarrow>real_orders q. o_sz ord)"
    unfolding get_sim_in_book_def real_orders_def by (rule sum_list_filter_split)
  then show ?thesis
    using assms by (simp add: orderq_inv_def get_orders_in_book_def get_orders_in_book_fast_def)
qed

theorem fast_size_equals_walk_witness:
  "get_orders_in_book demo_queue = get_orders_in_book_fast demo_queue \<and> get_orders_in_book demo_queue = Inr 16"
proof -
  have "(\<Sum>ord\<leftarrow>orders demo_queue. o_sz ord) - get_sim_in_book demo_queue = 16"
    by (simp add: get_sim_in_book_def demo_queue_simps)
  then show ?thesis
    using fast_size_equals_walk [OF demo_queue_inv] by metis
qed

text \<open>
  \<open>size_of_book\<close> of the build without \<open>FAST_SZ_BOOK\<close> counts every order of the
  level but asserts that the count is the counter of the real ones: on a well-formed level
  it returns exactly when no simulated order rests there.
\<close>

theorem size_of_book_aborts_on_sim:
  assumes "orderq_inv q"
  shows "returns (size_of_book q) \<longleftrightarrow> (\<forall>ord\<in>set (orders q). \<not> issim ord)"
proof -
  have "length (orders q) = length (real_orders q) \<longleftrightarrow> (\<forall>ord\<in>set (orders q). \<not> issim ord)"
    unfolding real_orders_def
    by (metis (no_types, lifting) filter_True length_filter_less less_irrefl)
  moreover have "real_orders q = orders q" if "\<forall>ord\<in>set (orders q). \<not> issim ord"
    using that by (simp add: real_orders_def)
  ultimately show ?thesis
    using assms by (auto simp: size_of_book_def orderq_inv_def get_orders_in_book_def returns_bnd)
qed

theorem size_of_book_aborts_on_sim_witness:
  "\<not> returns (size_of_book demo_queue)"
  using size_of_book_aborts_on_sim [OF demo_queue_inv] by (simp add: demo_queue_simps)

lemma get_sim_in_book_drop:
  assumes "orderq_inv q" "ord \<in> set (orders q)" "issim ord"
  shows "get_sim_in_book (drop_order q ord) = get_sim_in_book q - o_sz ord"
proof -
  obtain xs ys where sp: "orders q = xs @ ord # ys"
    using assms(2) by (metis split_list)
  show ?thesis
    using assms(3) sp drop_order_split [OF assms(1) sp] by (simp add: get_sim_in_book_def)
qed

lemma get_sim_in_book_resize:
  assumes "orderq_inv q" "ord \<in> set (orders q)" "issim ord"
  shows "get_sim_in_book (resize_order q ord s) = get_sim_in_book q - o_sz ord + s"
proof -
  obtain xs ys where sp: "orders q = xs @ ord # ys"
    using assms(2) by (metis split_list)
  show ?thesis
    using assms(3) sp resize_order_split [OF assms(1) sp] by (simp add: get_sim_in_book_def)
qed

text \<open>
  Filling a resting simulated order for \<open>n\<close> lots within its size always succeeds,
  reports exactly \<open>n\<close>, sends its originator one fill of \<open>n\<close> with the true remainder,
  lowers the simulated size of the level by \<open>n\<close>, leaves the real size and everybody's
  place alone, and takes the order out exactly when nothing remains. A fill larger than
  the order aborts.
\<close>

theorem fill_notify_effect:
  assumes "orderq_inv q" "order_at q a = Some ord" "issim ord" "0 < n" "tim > 0"
  shows "(n \<le> o_sz ord \<longrightarrow>
           (\<exists>q'. fill_notify q a n 0 px EXEC tim = Inr (n, q', fill_msg ord n px tim)
             \<and> get_sim_in_book q' = get_sim_in_book q - n \<and> orders_in_book q' = orders_in_book q
             \<and> level_view q' = (if n = o_sz ord
                 then filter (\<lambda>(i, s). i \<noteq> o_id ord) (level_view q)
                 else map (\<lambda>(i, s). if i = o_id ord then (i, o_sz ord - n) else (i, s)) (level_view q))))
       \<and> (n > o_sz ord \<longrightarrow> \<not> returns (fill_notify q a n 0 px EXEC tim))"
proof (intro conjI impI)
  have mem: "ord \<in> set (orders q)"
    using order_atD [OF assms(2)] by simp
  assume "n \<le> o_sz ord"
  then have "fill_notify q a n 0 px EXEC tim = Inr (n, if n = o_sz ord then drop_order q ord
             else resize_order q ord (o_sz ord - n), fill_msg ord n px tim)"
    using fill_notify_sim [OF assms(1-4) _ assms(5), of EXEC 0] by simp
  then show "\<exists>q'. fill_notify q a n 0 px EXEC tim = Inr (n, q', fill_msg ord n px tim)
             \<and> get_sim_in_book q' = get_sim_in_book q - n \<and> orders_in_book q' = orders_in_book q
             \<and> level_view q' = (if n = o_sz ord
                 then filter (\<lambda>(i, s). i \<noteq> o_id ord) (level_view q)
                 else map (\<lambda>(i, s). if i = o_id ord then (i, o_sz ord - n) else (i, s)) (level_view q))"
    using get_sim_in_book_drop [OF assms(1) mem assms(3)] get_sim_in_book_resize [OF assms(1) mem assms(3)]
      level_view_drop [OF assms(1) mem] level_view_resize [OF assms(1) mem] assms(3)
    by (simp add: drop_order_def resize_order_def)
next
  assume "n > o_sz ord"
  then show "\<not> returns (fill_notify q a n 0 px EXEC tim)"
    using assms fill_notify_Inr [OF assms(1)] by (force simp: returns_iff)
qed

theorem fill_notify_effect_witness:
  "\<exists>q'. fill_notify demo_queue 2 4 0 9950 EXEC 17
          = Inr (4, q', [(7, Fill 200 x_SIM 3 9950 BUY 4 0 1 17)])
      \<and> level_view q' = [(longid x_CMEMDFUT 100, 10), (longid x_CMEMDFUT 300, 6)]"
proof -
  have "order_at demo_queue 2 = Some (sim_order 2 200 4)" "issim (sim_order 2 200 4)"
    by (simp_all add: order_at_def demo_queue_simps)
  then show ?thesis
    using fill_notify_effect [OF demo_queue_inv, of 2 "sim_order 2 200 4" 4 17 9950]
    by (auto simp: fill_msg_def demo_queue_simps level_view_def)
qed

text \<open>
  Time priority survives cancels and size changes: after an order is cancelled the
  orders ahead of any other order are the same ones, in the same order, without it; after
  a size change nobody's queue position moves, the changed order's included.
\<close>

theorem level_time_priority:
  assumes "orderq_inv q" "i \<in> fst ` set (level_view q)" "j \<noteq> i" "n > 0"
  shows "(\<exists>q'. level_cancel q i = Some q' \<and> orderq_inv q'
             \<and> lvl.ahead q' j = filter (\<lambda>k. k \<noteq> i) (lvl.ahead q j))
       \<and> (\<exists>q'. level_reduce q i n = Some q' \<and> orderq_inv q'
             \<and> (\<forall>k. lvl.ahead q' k = lvl.ahead q k))"
  using lvl.cancel_ok [OF assms(1,2)] lvl.reduce_ok [OF assms(1,2,4)]
    lvl.cancel_ahead [OF assms(1) _ assms(2,3)] lvl.reduce_ahead [OF assms(1) _ assms(2,4)]
  by blast

theorem level_time_priority_witness:
  "\<exists>q'. level_cancel demo_queue (longid x_CMEMDFUT 100) = Some q'
      \<and> lvl.ahead q' (longid x_CMEMDFUT 300) = [longid x_SIM 200]"
proof -
  have "longid x_CMEMDFUT 100 \<in> fst ` set (level_view demo_queue)"
    by (simp add: level_view_def demo_queue_simps)
  moreover have "lvl.ahead demo_queue (longid x_CMEMDFUT 300) = [longid x_CMEMDFUT 100, longid x_SIM 200]"
    by (simp add: lvl.ahead_def level_view_def demo_queue_simps)
  ultimately show ?thesis
    using level_time_priority [OF demo_queue_inv, of "longid x_CMEMDFUT 100" "longid x_CMEMDFUT 300" 1]
    by auto
qed

end
