(* ===== verification/Point.thy ===== *)
theory Point
  imports Kaspar_Prelude "HOL-Library.Signed_Division"
begin

unbundle bit_operations_syntax

text \<open>
  \<open>frame::mda::msg::point\<close> of \<open>src/frame_ref/include/frame/mda/msg/point.hpp\<close> and
  \<open>src/frame_kaspr/src/point.cpp\<close>: the depth snapshot the book hands to its subscribers, a
  price and a size for each of \<open>NLEVELS\<close> levels of each side.

  An array \<open>std::array<int, NLEVELS>\<close> is a list of \<open>NLEVELS\<close> integers, and \<open>point_wf\<close> says
  so; arithmetic on \<open>int\<close> is checked. A \<open>double\<close> is a real number: the one division that
  computes a weighted price is exact here. Left out is \<open>imp_mid\<close> with the exponential table
  it uses, which only a build with \<open>USEIMPMID\<close> compiles.
\<close>

section \<open>State\<close>

definition NLEVELS :: nat where "NLEVELS = 16"

record point =
  baddata :: bool
  pt_sym :: int
  pt_side :: bs
  pt_action :: mt
  pt_mev :: md
  bid_px :: "int list"
  ask_px :: "int list"
  bid_sz :: "int list"
  ask_sz :: "int list"

definition array_wf :: "int list \<Rightarrow> bool" where
  "array_wf xs \<longleftrightarrow> length xs = NLEVELS \<and> list_all in32 xs"

definition point_wf :: "point \<Rightarrow> bool" where
  "point_wf p \<longleftrightarrow> array_wf (bid_px p) \<and> array_wf (ask_px p) \<and> array_wf (bid_sz p) \<and> array_wf (ask_sz p)"

section \<open>Operations\<close>

text \<open>\<open>nz_bid\<close> and \<open>nz_ask\<close>: the first level with a size, \<open>NLEVELS\<close> when there is none.\<close>

primrec nz :: "int list \<Rightarrow> nat" where
  "nz [] = 0"
| "nz (x # xs) = (if x > 0 then 0 else Suc (nz xs))"

definition nz_bid :: "point \<Rightarrow> nat" where "nz_bid p = nz (bid_sz p)"

definition nz_ask :: "point \<Rightarrow> nat" where "nz_ask p = nz (ask_sz p)"

definition zero_book :: "point \<Rightarrow> bool" where
  "zero_book p \<longleftrightarrow> nz_bid p = NLEVELS \<or> nz_ask p = NLEVELS"

definition nz_bid_val :: "point \<Rightarrow> (int \<times> int) option" where
  "nz_bid_val p = (if nz_bid p = NLEVELS then None else Some (bid_px p ! nz_bid p, bid_sz p ! nz_bid p))"

definition nz_ask_val :: "point \<Rightarrow> (int \<times> int) option" where
  "nz_ask_val p = (if nz_ask p = NLEVELS then None else Some (ask_px p ! nz_ask p, ask_sz p ! nz_ask p))"

fun sz_at :: "int list \<Rightarrow> int list \<Rightarrow> int \<Rightarrow> int option" where
  "sz_at (x # xs) (s # ss) px = (if x = px then Some s else sz_at xs ss px)"
| "sz_at _ _ px = None"

definition bsz_at_px :: "point \<Rightarrow> int \<Rightarrow> int option" where
  "bsz_at_px p px = sz_at (bid_px p) (bid_sz p) px"

definition asz_at_px :: "point \<Rightarrow> int \<Rightarrow> int option" where
  "asz_at_px p px = sz_at (ask_px p) (ask_sz p) px"

definition non_zero_mid_bo :: "point \<Rightarrow> (real \<times> int \<times> int \<times> int) option res" where
  "non_zero_mid_bo p =
     (if nz (bid_sz p) = NLEVELS then Inr None
      else if nz (ask_sz p) = NLEVELS then Inr None
      else (let bbpx = bid_px p ! nz (bid_sz p); bapx = ask_px p ! nz (ask_sz p)
            in bnd (ck32 (bbpx + bapx))
                (\<lambda>sm. bnd (ck32 (bapx - bbpx))
                  (\<lambda>bo. Inr (Some (of_int sm / 2, bo, bbpx, bapx))))))"

fun tot_loop :: "(int \<times> int) list \<Rightarrow> int \<Rightarrow> int \<Rightarrow> (int \<times> int) res" where
  "tot_loop [] tb ta = Inr (tb, ta)"
| "tot_loop ((b, a) # ss) tb ta =
     bnd (ck32 (tb + b)) (\<lambda>tb'. bnd (ck32 (ta + a)) (\<lambda>ta'. tot_loop ss tb' ta'))"

definition tot_book_sz :: "point \<Rightarrow> (int \<times> int) res" where
  "tot_book_sz p = tot_loop (zip (bid_sz p) (ask_sz p)) 0 0"

definition target_sz :: "int \<times> int \<Rightarrow> int \<Rightarrow> (int \<times> int) res" where
  "target_sz tot p =
     bnd (ck32 (fst tot * p)) (\<lambda>b. bnd (ck32 (snd tot * p))
       (\<lambda>a. Inr (max 1 (b sdiv 100), max 1 (a sdiv 100))))"

definition percentile :: "point \<Rightarrow> int \<Rightarrow> (int \<times> int) res" where
  "percentile pt p = bnd (tot_book_sz pt) (\<lambda>tot. target_sz tot p)"

text \<open>
  The loop of \<open>w_bid\<close> and \<open>w_ask\<close>, over the levels not yet visited: the sizes seen and the
  prices times sizes, or \<open>None\<close> for the return when the index reaches \<open>NLEVELS\<close>.
\<close>

fun w_side :: "int \<Rightarrow> (int \<times> int) list \<Rightarrow> int \<Rightarrow> int \<Rightarrow> (int \<times> int) option res" where
  "w_side sz lv seen pxsz =
     (if seen < sz then
        (case lv of
           [] \<Rightarrow> Inl (Undefined ''index past the levels'')
         | (px, s) # lv' \<Rightarrow>
             bnd (ck32 (seen + s)) (\<lambda>seen'. bnd (ck32 (px * s))
               (\<lambda>m. if lv' = [] then Inr None else w_side sz lv' seen' (pxsz + m))))
      else Inr (Some (seen, pxsz)))"

declare w_side.simps [simp del]

definition w_price :: "(int \<times> int) option \<Rightarrow> real option" where
  "w_price r =
     (case r of None \<Rightarrow> None
      | Some (seen, pxsz) \<Rightarrow> if seen = 0 then None else Some (of_int pxsz / of_int seen))"

definition w_bid :: "point \<Rightarrow> int \<Rightarrow> real option res" where
  "w_bid p sz = bnd (w_side sz (zip (bid_px p) (bid_sz p)) 0 0) (\<lambda>r. Inr (w_price r))"

definition w_ask :: "point \<Rightarrow> int \<Rightarrow> real option res" where
  "w_ask p sz = bnd (w_side sz (zip (ask_px p) (ask_sz p)) 0 0) (\<lambda>r. Inr (w_price r))"

definition w_bid_ask :: "point \<Rightarrow> real \<Rightarrow> (int \<times> real \<times> real) option res" where
  "w_bid_ask pt pcnt =
     bnd (trunc32 pcnt) (\<lambda>p. bnd (percentile pt p)
       (\<lambda>(tb, ta). let sz = max tb ta in
          bnd (w_bid pt sz)
            (\<lambda>wb. case wb of
               None \<Rightarrow> Inr None
             | Some b \<Rightarrow>
                 bnd (w_ask pt sz)
                   (\<lambda>wa. case wa of
                      None \<Rightarrow> Inr None
                    | Some a \<Rightarrow>
                        chk (\<not> (a < b \<or> a \<le> 0 \<or> b \<le> 0)) ''bad wa''
                          (chk (a \<ge> b) ''wa > wb'' (Inr (Some (sz, b, a))))))))"

definition w_bid_ask_fast :: "point \<Rightarrow> real \<Rightarrow> (int \<times> real \<times> real) option res" where
  "w_bid_ask_fast pt pcnt =
     bnd (tot_loop (zip (bid_sz pt) (ask_sz pt)) 0 0)
       (\<lambda>(totbid, totask).
          if totbid = 0 \<or> totask = 0 then Inr None
          else bnd (trunc32 pcnt) (\<lambda>p. bnd (target_sz (totbid, totask) p)
            (\<lambda>(tb, ta). let sz = max tb ta in
               bnd (w_side sz (zip (bid_px pt) (bid_sz pt)) 0 0)
                 (\<lambda>rb. case rb of
                    None \<Rightarrow> Inr None
                  | Some (seen_bid, totbid_px) \<Rightarrow>
                      bnd (w_side sz (zip (ask_px pt) (ask_sz pt)) 0 0)
                        (\<lambda>ra. case ra of
                           None \<Rightarrow> Inr None
                         | Some (seen_ask, totask_px) \<Rightarrow>
                             if seen_bid = 0 \<or> seen_ask = 0 then Inr None
                             else (let wbid = of_int totbid_px / of_int seen_bid;
                                       wask = of_int totask_px / of_int seen_ask
                                   in if wask < wbid \<or> wask \<le> 0 \<or> wbid \<le> 0 then Inr None
                                      else Inr (Some (sz, wbid, wask))))))))"

text \<open>\<open>shift_zero_bid\<close> and \<open>shift_zero_ask\<close> drop leading levels with no size.\<close>

lemma nz_le: "nz xs \<le> length xs"
  by (induction xs) auto

lemma nz_lt_iff: "nz xs \<noteq> length xs \<longleftrightarrow> (\<exists>x\<in>set xs. x > 0)"
  by (induction xs) auto

lemma nz_append: "nz (xs @ ys) = (if nz xs = length xs then length xs + nz ys else nz xs)"
  using nz_le by (induction xs) auto

lemma nz_drop: "nz xs < length xs \<Longrightarrow> nz (drop (nz xs) xs @ ys) = 0"
  by (induction xs) auto

lemma nz_shift: "nz sz \<noteq> length sz \<Longrightarrow> sz ! 0 \<le> 0 \<Longrightarrow> Suc (nz (tl sz @ [0])) = nz sz"
  by (cases sz) (auto simp: nz_append)

function shift_side :: "int list \<Rightarrow> int list \<Rightarrow> int list \<times> int list" where
  "shift_side px sz =
     (if nz sz = length sz then (px, sz)
      else if sz ! 0 = 0 then shift_side (tl px @ [0]) (tl sz @ [0])
      else (px, sz))"
  by pat_completeness auto

termination
proof (relation "measure (\<lambda>(px, sz). nz sz)", simp)
  fix px sz :: "int list"
  assume "nz sz \<noteq> length sz" "sz ! 0 = 0"
  then show "((tl px @ [0], tl sz @ [0]), (px, sz)) \<in> measure (\<lambda>(px, sz). nz sz)"
    using nz_shift [of sz] by simp
qed

declare shift_side.simps [simp del]

definition shift_zero_bid :: "point \<Rightarrow> point" where
  "shift_zero_bid p = (let (px, sz) = shift_side (bid_px p) (bid_sz p) in p\<lparr>bid_px := px, bid_sz := sz\<rparr>)"

definition shift_zero_ask :: "point \<Rightarrow> point" where
  "shift_zero_ask p = (let (px, sz) = shift_side (ask_px p) (ask_sz p) in p\<lparr>ask_px := px, ask_sz := sz\<rparr>)"

definition shift_zero :: "point \<Rightarrow> point" where
  "shift_zero p = shift_zero_ask (shift_zero_bid p)"

definition fill_best :: "point \<Rightarrow> nat \<Rightarrow> nat \<Rightarrow> point res" where
  "fill_best p i j =
     (if i \<ge> length (bid_sz p) \<or> j \<ge> length (ask_sz p) then Inl (Undefined ''index past the levels'')
      else if bid_sz p ! i \<ge> ask_sz p ! j then
        bnd (ck32 (bid_sz p ! i - ask_sz p ! j))
          (\<lambda>d. Inr (p\<lparr>bid_sz := (bid_sz p)[i := d], ask_sz := (ask_sz p)[j := 0]\<rparr>))
      else
        bnd (ck32 (ask_sz p ! j - bid_sz p ! i))
          (\<lambda>d. Inr (p\<lparr>ask_sz := (ask_sz p)[j := d], bid_sz := (bid_sz p)[i := 0]\<rparr>)))"

text \<open>\<open>uncross\<close> begins with \<open>SNGH\<close>: whoever calls it aborts.\<close>

definition uncross :: "point \<Rightarrow> point res" where
  "uncross p = sngh"

text \<open>
  \<open>fast_compare\<close>, the path for x86-64. A 256-bit register is its eight 32-bit lanes;
  \<open>_mm256_cmpeq_epi32\<close> sets a lane to all ones where the lanes are equal and to zero
  elsewhere, and \<open>_mm256_movemask_epi8\<close> gathers the top bits of the 32 bytes.
\<close>

definition loadu :: "int list \<Rightarrow> nat \<Rightarrow> u32 list" where
  "loadu xs k = map word_of_int (take 8 (drop k xs))"

definition cmpeq_epi32 :: "u32 list \<Rightarrow> u32 list \<Rightarrow> u32 list" where
  "cmpeq_epi32 x y = map2 (\<lambda>a b. if a = b then -1 else 0) x y"

definition and_si256 :: "u32 list \<Rightarrow> u32 list \<Rightarrow> u32 list" where
  "and_si256 x y = map2 (\<lambda>a b. a AND b) x y"

definition byte_tops :: "u32 \<Rightarrow> bool list" where
  "byte_tops w = [bit w 7, bit w 15, bit w 23, bit w 31]"

definition movemask_epi8 :: "u32 list \<Rightarrow> u32" where
  "movemask_epi8 r = horner_sum of_bool 2 (concat (map byte_tops r))"

definition compare_half :: "point \<Rightarrow> point \<Rightarrow> nat \<Rightarrow> u32 list" where
  "compare_half p q k =
     and_si256
       (and_si256 (cmpeq_epi32 (loadu (bid_px p) k) (loadu (bid_px q) k))
                  (cmpeq_epi32 (loadu (ask_px p) k) (loadu (ask_px q) k)))
       (and_si256 (cmpeq_epi32 (loadu (bid_sz p) k) (loadu (bid_sz q) k))
                  (cmpeq_epi32 (loadu (ask_sz p) k) (loadu (ask_sz q) k)))"

definition fast_compare :: "point \<Rightarrow> point \<Rightarrow> bool" where
  "fast_compare p q \<longleftrightarrow> movemask_epi8 (compare_half p q 0) = -1 \<and> movemask_epi8 (compare_half p q 8) = -1"

section \<open>Comparing snapshots\<close>

lemma length_byte_tops [simp]: "length (concat (map byte_tops r)) = 4 * length r"
  by (induction r) (auto simp: byte_tops_def)

lemma movemask_all_ones:
  assumes "length r = 8"
  shows "movemask_epi8 r = -1 \<longleftrightarrow> list_all (list_all id \<circ> byte_tops) r"
proof -
  let ?bs = "concat (map byte_tops r)"
  have len: "length ?bs = 32"
    using assms by simp
  have "movemask_epi8 r = -1 \<longleftrightarrow> (\<forall>n<32. bit (horner_sum of_bool 2 ?bs :: u32) n)"
    unfolding movemask_epi8_def by (auto simp: bit_eq_iff bit_simps)
  also have "\<dots> \<longleftrightarrow> (\<forall>n<32. ?bs ! n)"
    using len by (auto simp: bit_horner_sum_bit_word_iff)
  also have "\<dots> \<longleftrightarrow> list_all id ?bs"
    using len by (simp add: list_all_length)
  also have "\<dots> \<longleftrightarrow> list_all (list_all id \<circ> byte_tops) r"
    by (induction r) auto
  finally show ?thesis .
qed

lemma byte_tops_lane: "list_all id (byte_tops (if c then -1 else 0)) \<longleftrightarrow> c"
  by (simp add: byte_tops_def)

lemma list_all_map2: "list_all P (map2 f xs ys) \<longleftrightarrow> list_all2 (\<lambda>x y. P (f x y)) xs ys"
  if "length xs = length ys"
  using that by (induction xs ys rule: list_induct2) auto

lemma array_half:
  assumes "array_wf xs" "array_wf ys" "k = 0 \<or> k = 8"
  shows "loadu xs k = loadu ys k \<longleftrightarrow> take 8 (drop k xs) = take 8 (drop k ys)" "length (loadu xs k) = 8"
proof -
  have inj: "inj_on (word_of_int :: int \<Rightarrow> u32) {x. in32 x}"
  proof (rule inj_onI)
    fix x y assume "x \<in> {x. in32 x}" "y \<in> {x. in32 x}" "(word_of_int x :: u32) = word_of_int y"
    then have "signed_take_bit 31 x = signed_take_bit 31 y" "in32 x" "in32 y"
      by (auto simp: word_of_int_eq_iff signed_take_bit_eq_iff_take_bit_eq)
    then show "x = y"
      by (simp add: in32_def signed_take_bit_int_eq_self)
  qed
  have sub: "set (take 8 (drop k xs)) \<union> set (take 8 (drop k ys)) \<subseteq> {x. in32 x}"
    using assms by (auto simp: array_wf_def list_all_iff dest!: in_set_takeD in_set_dropD)
  show "loadu xs k = loadu ys k \<longleftrightarrow> take 8 (drop k xs) = take 8 (drop k ys)"
    unfolding loadu_def using inj_on_map_eq_map [OF inj_on_subset [OF inj sub]] .
  show "length (loadu xs k) = 8"
    using assms by (auto simp: loadu_def array_wf_def NLEVELS_def)
qed

lemma compare_half_ones:
  assumes "point_wf p" "point_wf q" "k = 0 \<or> k = 8"
  shows "movemask_epi8 (compare_half p q k) = -1 \<longleftrightarrow>
     loadu (bid_px p) k = loadu (bid_px q) k \<and> loadu (ask_px p) k = loadu (ask_px q) k
     \<and> loadu (bid_sz p) k = loadu (bid_sz q) k \<and> loadu (ask_sz p) k = loadu (ask_sz q) k"
proof -
  have len: "length (loadu (f p) k) = 8" "length (loadu (f q) k) = 8"
    if "f \<in> {bid_px, ask_px, bid_sz, ask_sz}" for f
    using that assms array_half(2) unfolding point_wf_def by auto
  have lane: "(if a then -1 else 0) AND (if b then -1 else 0) = (if a \<and> b then -1 else (0 :: u32))" for a b
    by simp
  define e where "e f i \<longleftrightarrow> loadu (f p) k ! i = loadu (f q) k ! i" for f i
  have lanes: "compare_half p q k ! i = (if e bid_px i \<and> e ask_px i \<and> e bid_sz i \<and> e ask_sz i then -1 else 0)"
    if "i < 8" for i
    using that len unfolding e_def by (simp add: compare_half_def and_si256_def cmpeq_epi32_def)
  have "length (compare_half p q k) = 8"
    using len by (simp add: compare_half_def and_si256_def cmpeq_epi32_def)
  then have "movemask_epi8 (compare_half p q k) = -1
      \<longleftrightarrow> (\<forall>i<8. list_all id (byte_tops (compare_half p q k ! i)))"
    by (simp add: movemask_all_ones list_all_length)
  also have "\<dots> \<longleftrightarrow> (\<forall>i<8. e bid_px i \<and> e ask_px i \<and> e bid_sz i \<and> e ask_sz i)"
    by (simp add: lanes byte_tops_lane del: if_split)
  also have "\<dots> \<longleftrightarrow> (\<forall>i<8. e bid_px i) \<and> (\<forall>i<8. e ask_px i) \<and> (\<forall>i<8. e bid_sz i) \<and> (\<forall>i<8. e ask_sz i)"
    by blast
  also have "\<dots> \<longleftrightarrow> loadu (bid_px p) k = loadu (bid_px q) k \<and> loadu (ask_px p) k = loadu (ask_px q) k
     \<and> loadu (bid_sz p) k = loadu (bid_sz q) k \<and> loadu (ask_sz p) k = loadu (ask_sz q) k"
    using len unfolding e_def by (simp add: list_eq_iff_nth_eq)
  finally show ?thesis .
qed

text \<open>
  The vectorised comparison of two snapshots, eight lanes at a time through compare,
  and, and movemask, says true exactly when prices and sizes of both sides agree on every
  level.
\<close>

lemma fast_compare_iff:
  assumes "point_wf p" "point_wf q"
  shows "fast_compare p q \<longleftrightarrow>
    bid_px p = bid_px q \<and> ask_px p = ask_px q \<and> bid_sz p = bid_sz q \<and> ask_sz p = ask_sz q"
proof -
  have halves: "loadu xs 0 = loadu ys 0 \<and> loadu xs 8 = loadu ys 8 \<longleftrightarrow> xs = ys"
    if "array_wf xs" "array_wf ys" for xs ys
  proof -
    have "xs = take 8 xs @ take 8 (drop 8 xs)" "ys = take 8 ys @ take 8 (drop 8 ys)"
      using that by (auto simp: array_wf_def NLEVELS_def)
    then show ?thesis
      using array_half(1) [OF that, of 0] array_half(1) [OF that, of 8] by (metis drop0)
  qed
  show ?thesis
    unfolding fast_compare_def using assms
    by (auto simp: compare_half_ones simp flip: halves simp: point_wf_def)
qed

definition flat_point :: "int \<Rightarrow> point" where
  "flat_point n = \<lparr>baddata = False, pt_sym = 1, pt_side = BUY, pt_action = MT_NONE, pt_mev = ADD,
     bid_px = map (\<lambda>i. 100 - i) [0..15], ask_px = map (\<lambda>i. 101 + i) [0..15],
     bid_sz = replicate NLEVELS n, ask_sz = replicate NLEVELS 2\<rparr>"

lemma flat_point_wf: "in32 n \<Longrightarrow> point_wf (flat_point n)"
  by (simp add: point_wf_def flat_point_def array_wf_def NLEVELS_def list_all_iff in32_def)

lemma fast_compare_example:
  "fast_compare (flat_point 3) (flat_point 3) \<and> \<not> fast_compare (flat_point 3) (flat_point 4)"
proof -
  have "point_wf (flat_point 3)" "point_wf (flat_point 4)"
    by (rule flat_point_wf, simp add: in32_def)+
  then show ?thesis
    using fast_compare_iff [of "flat_point 3" "flat_point 3"] fast_compare_iff [of "flat_point 3" "flat_point 4"]
    by (simp add: flat_point_def NLEVELS_def)
qed

section \<open>Dropping empty levels\<close>

lemma shift_side_drop:
  assumes "list_all (\<lambda>x. x \<ge> 0) sz" "length px = length sz"
  shows "shift_side px sz =
     (if nz sz = length sz then (px, sz)
      else (drop (nz sz) px @ replicate (nz sz) 0, drop (nz sz) sz @ replicate (nz sz) 0))"
  using assms
proof (induction px sz rule: shift_side.induct)
  case (1 px sz)
  show ?case
  proof (cases "nz sz = length sz")
    case True
    then show ?thesis
      by (simp add: shift_side.simps [of px sz])
  next
    case False
    then obtain s ss x xs where eq: "sz = s # ss" "px = x # xs" "length xs = length ss"
      using 1(3) by (cases sz; cases px) auto
    show ?thesis
    proof (cases "s = 0")
      case True
      have nz: "nz (ss @ [0]) = nz ss" "nz sz = Suc (nz ss)" "nz ss \<noteq> length ss" "nz ss \<le> length ss"
        using False True eq nz_le [of ss] by (auto simp: nz_append)
      have "shift_side px sz = shift_side (xs @ [0]) (ss @ [0])"
        using False True eq by (subst shift_side.simps) simp
      also have "\<dots> = (drop (nz ss) (xs @ [0]) @ replicate (nz ss) 0, drop (nz ss) (ss @ [0]) @ replicate (nz ss) 0)"
        using 1(1) [OF False] True eq 1(2) nz by auto
      also have "\<dots> = (drop (nz sz) px @ replicate (nz sz) 0, drop (nz sz) sz @ replicate (nz sz) 0)"
        using nz eq by (simp add: replicate_append_same)
      finally show ?thesis
        using False by simp
    next
      case False': False
      then have "s > 0"
        using 1(2) eq by auto
      then show ?thesis
        using eq False' by (subst shift_side.simps) simp
    qed
  qed
qed

text \<open>
  On a snapshot with no negative size that has a size on both sides, \<open>shift_zero\<close>
  brings the best non-empty level of each side to the front, keeps the levels behind it in
  order, fills up with zeroes and keeps the arrays at their length.
\<close>

theorem shift_zero_exact:
  assumes "point_wf p" "list_all (\<lambda>x. x \<ge> 0) (bid_sz p @ ask_sz p)" "\<not> zero_book p"
  shows "point_wf (shift_zero p)
    \<and> bid_px (shift_zero p) = drop (nz_bid p) (bid_px p) @ replicate (nz_bid p) 0
    \<and> bid_sz (shift_zero p) = drop (nz_bid p) (bid_sz p) @ replicate (nz_bid p) 0
    \<and> ask_px (shift_zero p) = drop (nz_ask p) (ask_px p) @ replicate (nz_ask p) 0
    \<and> ask_sz (shift_zero p) = drop (nz_ask p) (ask_sz p) @ replicate (nz_ask p) 0
    \<and> nz_bid_val (shift_zero p) = Some (bid_px (shift_zero p) ! 0, bid_sz (shift_zero p) ! 0)
    \<and> nz_ask_val (shift_zero p) = Some (ask_px (shift_zero p) ! 0, ask_sz (shift_zero p) ! 0)
    \<and> nz_bid_val (shift_zero p) = nz_bid_val p \<and> nz_ask_val (shift_zero p) = nz_ask_val p"
proof -
  have len: "length (bid_px p) = NLEVELS" "length (ask_px p) = NLEVELS" "length (bid_sz p) = NLEVELS" "length (ask_sz p) = NLEVELS"
    using assms(1) by (auto simp: point_wf_def array_wf_def)
  have lt: "nz (bid_sz p) < NLEVELS" "nz (ask_sz p) < NLEVELS"
    using assms(3) nz_le [of "bid_sz p"] nz_le [of "ask_sz p"] len by (auto simp: zero_book_def nz_bid_def nz_ask_def)
  have b: "shift_side (bid_px p) (bid_sz p) = (drop (nz_bid p) (bid_px p) @ replicate (nz_bid p) 0, drop (nz_bid p) (bid_sz p) @ replicate (nz_bid p) 0)"
    using shift_side_drop [of "bid_sz p" "bid_px p"] assms(2) len lt by (simp add: nz_bid_def)
  have a: "shift_side (ask_px p) (ask_sz p) = (drop (nz_ask p) (ask_px p) @ replicate (nz_ask p) 0, drop (nz_ask p) (ask_sz p) @ replicate (nz_ask p) 0)"
    using shift_side_drop [of "ask_sz p" "ask_px p"] assms(2) len lt by (simp add: nz_ask_def)
  have wf: "array_wf (drop k xs @ replicate k 0)" if "array_wf xs" "k < NLEVELS" for k and xs :: "int list"
    using that by (auto simp: array_wf_def list_all_iff in32_def dest: in_set_dropD)
  have val: "nz (drop (nz xs) xs @ replicate (nz xs) 0) = 0 \<and> (drop (nz xs) xs @ replicate (nz xs) 0) ! 0 = xs ! nz xs"
    if "nz xs < length xs" for xs :: "int list"
    using that by (simp add: nz_drop nth_append)
  show ?thesis
    using assms(1) wf [OF _ lt(1)] wf [OF _ lt(2)] val [of "bid_sz p"] val [of "ask_sz p"] lt len
    by (simp add: shift_zero_def shift_zero_bid_def shift_zero_ask_def a b point_wf_def
        nz_bid_val_def nz_ask_val_def nz_bid_def nz_ask_def nth_append)
qed

theorem shift_zero_exact_witness:
  "bid_px (shift_zero ((flat_point 3)\<lparr>bid_sz := [0, 0] @ replicate 14 5\<rparr>)) = map (\<lambda>i. 98 - i) [0..13] @ [0, 0]"
proof -
  let ?p = "(flat_point 3)\<lparr>bid_sz := [0, 0] @ replicate 14 5\<rparr>"
  have "point_wf ?p" "list_all (\<lambda>x. x \<ge> 0) (bid_sz ?p @ ask_sz ?p)" "\<not> zero_book ?p" "nz_bid ?p = 2"
    by (simp_all add: point_wf_def flat_point_def array_wf_def NLEVELS_def list_all_iff in32_def zero_book_def nz_bid_def nz_ask_def eval_nat_numeral)
  then have "bid_px (shift_zero ?p) = drop 2 (bid_px ?p) @ replicate 2 0"
    using shift_zero_exact [of ?p] by metis
  moreover have "drop 2 (bid_px ?p) @ replicate 2 0 = map (\<lambda>i. 98 - i) [0..13] @ [0, 0]"
    by code_simp
  ultimately show ?thesis
    by (rule trans)
qed

section \<open>Weighted prices\<close>

text \<open>What \<open>w_side\<close> computes when it returns, and what a level it does not reach cannot do.\<close>

lemma w_side_stop: "sz \<le> seen \<Longrightarrow> w_side sz lv seen pxsz = Inr (Some (seen, pxsz))"
  by (simp add: w_side.simps)

lemma w_side_step:
  "seen < sz \<Longrightarrow> w_side sz ((px, s) # lv) seen pxsz =
     bnd (ck32 (seen + s)) (\<lambda>seen'. bnd (ck32 (px * s))
       (\<lambda>m. if lv = [] then Inr None else w_side sz lv seen' (pxsz + m)))"
  by (simp add: w_side.simps)

lemma w_side_not_Assert: "w_side sz lv seen pxsz \<noteq> Inl (Assert m)"
proof (induction lv arbitrary: seen pxsz)
  case Nil
  then show ?case by (simp add: w_side.simps)
next
  case (Cons x lv)
  then show ?case
    by (cases x) (auto simp: w_side.simps [of sz "_ # _"] ck32_def)
qed

text \<open>
  \<open>avg_between L U\<close>: a sum of prices times sizes whose average lies between \<open>L\<close> and \<open>U\<close>.
\<close>

lemma w_side_bounds:
  assumes "w_side sz lv seen pxsz = Inr (Some (seen', pxsz'))"
    "\<forall>(px, s)\<in>set lv. 0 \<le> s \<and> (0 < s \<longrightarrow> L \<le> px \<and> px \<le> U)"
    "L * seen \<le> pxsz" "pxsz \<le> U * seen"
  shows "sz \<le> seen' \<and> seen \<le> seen' \<and> L * seen' \<le> pxsz' \<and> pxsz' \<le> U * seen'"
  using assms
proof (induction lv arbitrary: seen pxsz)
  case Nil
  then show ?case
    by (auto simp: w_side.simps split: if_splits)
next
  case (Cons x lv)
  obtain px s where x: "x = (px, s)"
    by (cases x)
  show ?case
  proof (cases "seen < sz")
    case True
    then have lv: "lv \<noteq> []" and rec: "w_side sz lv (seen + s) (pxsz + px * s) = Inr (Some (seen', pxsz'))"
      using Cons.prems(1) by (auto simp: x w_side_step split: if_splits)
    have s: "0 \<le> s" "0 < s \<Longrightarrow> L \<le> px \<and> px \<le> U"
      using Cons.prems(2) by (auto simp: x)
    have "L * s \<le> px * s \<and> px * s \<le> U * s"
      using s by (cases "s = 0") (auto intro!: mult_right_mono)
    then have "L * (seen + s) \<le> pxsz + px * s" "pxsz + px * s \<le> U * (seen + s)"
      using Cons.prems(3,4) by (auto simp: algebra_simps)
    then show ?thesis
      using Cons.IH [OF rec] Cons.prems(2) s(1) by auto
  next
    case False
    then show ?thesis
      using Cons.prems by (simp add: w_side_stop)
  qed
qed

lemma w_side_zero:
  assumes "w_side sz lv seen pxsz = Inr r" "seen < sz" "\<forall>(px, s)\<in>set lv. s = 0"
  shows "r = None"
  using assms
proof (induction lv arbitrary: seen pxsz)
  case Nil
  then show ?case by (simp add: w_side.simps)
next
  case (Cons x lv)
  then show ?case
    by (cases x) (auto simp: w_side_step split: if_splits)
qed

lemma tot_loop_sum:
  assumes "tot_loop ss tb ta = Inr (tb', ta')"
  shows "tb' = tb + (\<Sum>(b, a)\<leftarrow>ss. b) \<and> ta' = ta + (\<Sum>(b, a)\<leftarrow>ss. a)"
  using assms by (induction ss tb ta rule: tot_loop.induct) (simp, force)

lemma tot_loop_not_Assert: "tot_loop ss tb ta \<noteq> Inl (Assert m)"
  by (induction ss tb ta rule: tot_loop.induct) (auto simp: ck32_def)

lemma w_side_ge: "w_side sz lv seen pxsz = Inr (Some (seen', pxsz')) \<Longrightarrow> sz \<le> seen'"
proof (induction lv arbitrary: seen pxsz)
  case Nil
  then show ?case by (auto simp: w_side.simps split: if_splits)
next
  case (Cons x lv)
  then show ?case
    by (cases x) (auto simp: w_side.simps [of sz "_ # _"] split: if_splits)
qed

lemma w_side_pos: "w_side sz lv seen pxsz = Inr (Some r) \<Longrightarrow> 0 < sz \<Longrightarrow> \<exists>a b. r = (a, b) \<and> 0 < a"
  using w_side_ge by (cases r) fastforce

lemma target_sz_pos: "target_sz tot p = Inr (b, a) \<Longrightarrow> 1 \<le> b \<and> 1 \<le> a"
  by (auto simp: target_sz_def)

lemma zero_sum_side:
  assumes "length px = length sz" "list_all (\<lambda>x. x \<ge> 0) sz" "sum_list sz = (0 :: int)"
  shows "\<forall>(x, s)\<in>set (zip px sz). s = 0"
proof -
  have "\<forall>s\<in>set sz. s = 0"
    using assms(2,3) sum_list_nonneg_eq_0_iff [of sz] by (auto simp: list_all_iff)
  then show ?thesis
    by (auto dest: set_zip_rightD)
qed

lemma sum_zip:
  "length xs = length ys \<Longrightarrow> (\<Sum>(b, a)\<leftarrow>zip xs ys. b) = sum_list xs \<and> (\<Sum>(b, a)\<leftarrow>zip xs ys. a) = sum_list ys"
  by (induction xs ys rule: list_induct2) auto

text \<open>What is left of \<open>w_bid_ask\<close> once the target size is known.\<close>

definition w_both :: "point \<Rightarrow> int \<Rightarrow> (int \<times> real \<times> real) option res" where
  "w_both pt sz =
     bnd (w_side sz (zip (bid_px pt) (bid_sz pt)) 0 0)
       (\<lambda>rb. case w_price rb of
          None \<Rightarrow> Inr None
        | Some b \<Rightarrow>
            bnd (w_side sz (zip (ask_px pt) (ask_sz pt)) 0 0)
              (\<lambda>ra. case w_price ra of
                 None \<Rightarrow> Inr None
               | Some a \<Rightarrow> if a < b \<or> a \<le> 0 \<or> b \<le> 0 then Inl (Assert ''bad wa'') else Inr (Some (sz, b, a))))"

lemma w_bid_ask_both:
  assumes "trunc32 pcnt = Inr p" "tot_loop (zip (bid_sz pt) (ask_sz pt)) 0 0 = Inr tot" "target_sz tot p = Inr (tb, ta)"
  shows "w_bid_ask pt pcnt = w_both pt (max tb ta)"
  using assms
  by (cases "w_side (max tb ta) (zip (bid_px pt) (bid_sz pt)) 0 0";
      cases "w_side (max tb ta) (zip (ask_px pt) (ask_sz pt)) 0 0")
    (auto simp: w_bid_ask_def w_both_def percentile_def tot_book_sz_def w_bid_def w_ask_def chk_def split: option.splits)

lemma w_bid_ask_defined:
  assumes "defined (w_bid_ask pt pcnt)"
  obtains p tot tb ta where "trunc32 pcnt = Inr p" "tot_loop (zip (bid_sz pt) (ask_sz pt)) 0 0 = Inr tot"
    "target_sz tot p = Inr (tb, ta)" "defined (w_both pt (max tb ta))"
proof -
  obtain p where p: "trunc32 pcnt = Inr p"
    using assms by (cases "trunc32 pcnt") (auto simp: w_bid_ask_def trunc32_def Let_def split: if_splits)
  have "percentile pt p \<noteq> Inl (Assert m)" for m
    by (cases "tot_book_sz pt")
      (auto simp: percentile_def target_sz_def ck32_def tot_book_sz_def tot_loop_not_Assert)
  then obtain t where "percentile pt p = Inr t"
    using assms p by (cases "percentile pt p") (auto simp: w_bid_ask_def defined_def split: abort.splits)
  then obtain tot tb ta where tot: "tot_loop (zip (bid_sz pt) (ask_sz pt)) 0 0 = Inr tot" "target_sz tot p = Inr (tb, ta)"
    by (cases t) (auto simp: percentile_def tot_book_sz_def)
  show ?thesis
    using that [OF p tot] assms w_bid_ask_both [OF p tot] by simp
qed

text \<open>
  C37. The three-pass \<open>w_bid_ask_fast\<close> returns what \<open>w_bid_ask\<close> returns, for every snapshot
  with no negative size and every percentile for which \<open>w_bid_ask\<close> has defined behaviour;
  where \<open>w_bid_ask\<close> aborts on a crossed or non-positive result, the fast version returns no
  value.
\<close>

theorem weighted_fast_equals:
  assumes "point_wf pt" "list_all (\<lambda>x. x \<ge> 0) (bid_sz pt @ ask_sz pt)" "defined (w_bid_ask pt pcnt)"
  shows "w_bid_ask_fast pt pcnt = (case w_bid_ask pt pcnt of Inr r \<Rightarrow> Inr r | Inl _ \<Rightarrow> Inr None)"
proof -
  obtain p totb tota tb ta where c: "trunc32 pcnt = Inr p" "tot_loop (zip (bid_sz pt) (ask_sz pt)) 0 0 = Inr (totb, tota)"
    "target_sz (totb, tota) p = Inr (tb, ta)" "defined (w_both pt (max tb ta))"
    using w_bid_ask_defined [OF assms(3)] by (metis surj_pair)
  have len: "length (bid_px pt) = length (bid_sz pt)" "length (ask_px pt) = length (ask_sz pt)" "length (bid_sz pt) = length (ask_sz pt)"
    using assms(1) by (auto simp: point_wf_def array_wf_def)
  have pos: "max tb ta > 0"
    using target_sz_pos [OF c(3)] by (auto simp: max_def)
  have sums: "totb = sum_list (bid_sz pt)" "tota = sum_list (ask_sz pt)"
    using tot_loop_sum [OF c(2)] sum_zip [OF len(3)] by auto
  note zb = w_side_zero [OF _ pos zero_sum_side [OF len(1)]]
  note za = w_side_zero [OF _ pos zero_sum_side [OF len(2)]]
  note eq = w_bid_ask_both [OF c(1-3)]
  have w0: "w_price None = None"
    by (simp add: w_price_def)
  show ?thesis
  proof (cases "w_side (max tb ta) (zip (bid_px pt) (bid_sz pt)) 0 0")
    case (Inl e)
    then show ?thesis
      using c(4) w_side_not_Assert by (cases e) (auto simp: w_both_def)
  next
    case b: (Inr rb)
    show ?thesis
    proof (cases rb)
      case None
      then show ?thesis
        using b c eq by (simp add: w_both_def w0 w_bid_ask_fast_def)
    next
      case (Some r)
      then obtain sb pb where rb: "rb = Some (sb, pb)" "sb > 0"
        using w_side_pos b pos by blast
      then have nz: "totb \<noteq> 0"
        using zb b assms(2) sums by auto
      show ?thesis
      proof (cases "w_side (max tb ta) (zip (ask_px pt) (ask_sz pt)) 0 0")
        case (Inl e)
        then show ?thesis
          using c(4) b rb w_side_not_Assert by (cases e) (auto simp: w_both_def w_price_def)
      next
        case a: (Inr ra)
        show ?thesis
        proof (cases ra)
          case None
          then show ?thesis
            using a b c eq rb nz by (simp add: w_both_def w_price_def w_bid_ask_fast_def)
        next
          case (Some r)
          then obtain sa pa where ra: "ra = Some (sa, pa)" "sa > 0"
            using w_side_pos a pos by blast
          then have "tota \<noteq> 0"
            using za a assms(2) sums by auto
          then show ?thesis
            using a b c eq rb ra nz by (simp add: w_both_def w_price_def w_bid_ask_fast_def Let_def)
        qed
      qed
    qed
  qed
qed

theorem weighted_fast_equals_witness:
  "w_bid_ask_fast (flat_point 3) 50 = Inr (Some (24, 193 / 2, 213 / 2))"
proof -
  have ev: "w_bid_ask (flat_point 3) 50 = Inr (Some (24, 193 / 2, 213 / 2))"
    by code_simp
  have "list_all (\<lambda>x. x \<ge> 0) (bid_sz (flat_point 3) @ ask_sz (flat_point 3))"
    by code_simp
  then show ?thesis
    using weighted_fast_equals [of "flat_point 3" 50] flat_point_wf [of 3] ev by (simp add: in32_def)
qed

text \<open>No overflow: the sums and products stay in the type and every step is defined.\<close>

lemma w_side_returns:
  assumes "lv \<noteq> [] \<or> sz \<le> seen" "0 \<le> seen" "\<forall>(px, s)\<in>set lv. 0 \<le> s \<and> in32 (px * s)"
    "seen + (\<Sum>(px, s)\<leftarrow>lv. s) < 2 ^ 31"
  shows "\<exists>r. w_side sz lv seen pxsz = Inr r"
  using assms
proof (induction lv arbitrary: seen pxsz)
  case Nil
  then show ?case by (simp add: w_side_stop)
next
  case (Cons x lv)
  obtain px s where x: "x = (px, s)"
    by (cases x)
  have nn: "0 \<le> (\<Sum>(px, s)\<leftarrow>lv. s)"
    using Cons.prems(3) by (intro sum_list_nonneg) auto
  have "in32 (seen + s)" "0 \<le> s" "in32 (px * s)"
    using Cons.prems nn by (auto simp: x in32_def)
  moreover have "\<exists>r. w_side sz lv (seen + s) (pxsz + px * s) = Inr r" if "lv \<noteq> []"
    using Cons.IH [of "seen + s"] Cons.prems that by (auto simp: x algebra_simps)
  ultimately show ?case
    by (cases "seen < sz") (auto simp: x w_side_step w_side_stop)
qed

lemma tot_loop_returns:
  assumes "\<forall>(b, a)\<in>set ss. 0 \<le> b \<and> 0 \<le> a" "0 \<le> tb" "0 \<le> ta"
    "tb + (\<Sum>(b, a)\<leftarrow>ss. b) < 2 ^ 31" "ta + (\<Sum>(b, a)\<leftarrow>ss. a) < 2 ^ 31"
  shows "\<exists>r. tot_loop ss tb ta = Inr r"
  using assms
proof (induction ss arbitrary: tb ta)
  case (Cons x ss)
  obtain b a where x: "x = (b, a)"
    by (cases x)
  have nn: "0 \<le> (\<Sum>(b, a)\<leftarrow>ss. b)" "0 \<le> (\<Sum>(b, a)\<leftarrow>ss. a)"
    using Cons.prems(1) by (intro sum_list_nonneg; auto)+
  have "in32 (tb + b)" "in32 (ta + a)"
    using Cons.prems nn by (auto simp: x in32_def)
  then show ?case
    using Cons.IH [of "tb + b" "ta + a"] Cons.prems by (auto simp: x algebra_simps)
qed simp

lemma target_sz_returns:
  assumes "0 \<le> tb" "0 \<le> ta" "100 * tb < 2 ^ 31" "100 * ta < 2 ^ 31" "0 \<le> p" "p \<le> 100"
  shows "\<exists>b a. target_sz (tb, ta) p = Inr (b, a)"
proof -
  have "tb * p \<le> tb * 100" "ta * p \<le> ta * 100" "0 \<le> tb * p" "0 \<le> ta * p"
    using assms by (auto intro: mult_left_mono)
  then show ?thesis
    using assms(3,4) by (simp add: target_sz_def in32_def)
qed

lemma trunc32_percent:
  assumes "0 \<le> x" "x \<le> (100 :: real)"
  obtains p where "trunc32 x = Inr p" "0 \<le> p" "p \<le> 100"
proof -
  have "0 \<le> \<lfloor>x\<rfloor>" "\<lfloor>x\<rfloor> \<le> 100"
    using assms by (simp_all add: floor_le_iff)
  then show ?thesis
    using that [of "\<lfloor>x\<rfloor>"] assms by (simp add: trunc32_def in32_def)
qed

definition side_ok :: "int list \<Rightarrow> int list \<Rightarrow> bool" where
  "side_ok px sz \<longleftrightarrow> list_all2 (\<lambda>x s. 0 \<le> s \<and> in32 (x * s)) px sz \<and> 100 * sum_list sz < 2 ^ 31"

lemma side_ok_w_side:
  assumes "side_ok px sz" "length px = NLEVELS"
  shows "\<exists>r. w_side n (zip px sz) 0 0 = Inr r" "list_all (\<lambda>s. 0 \<le> s) sz" "0 \<le> sum_list sz"
proof -
  have all: "\<forall>(x, s)\<in>set (zip px sz). 0 \<le> s \<and> in32 (x * s)" and len: "length px = length sz"
    using assms(1) by (auto simp: side_ok_def list_all2_iff)
  show nn: "list_all (\<lambda>s. 0 \<le> s) sz"
    using assms(1) by (auto simp: side_ok_def list_all2_conv_all_nth list_all_length)
  show s: "0 \<le> sum_list sz"
    using nn by (auto simp: list_all_iff intro: sum_list_nonneg)
  have "zip px sz \<noteq> []"
    using assms(2) len by (cases px; cases sz) (auto simp: NLEVELS_def)
  then show "\<exists>r. w_side n (zip px sz) 0 0 = Inr r"
    using w_side_returns [of "zip px sz" n 0] all sum_zip [OF len] assms(1) s by (auto simp: side_ok_def)
qed

lemma w_price_bounds:
  assumes "w_side n (zip px sz) 0 0 = Inr rr" "w_price rr = Some v" "0 < n" "side_ok px sz"
    "list_all2 (\<lambda>x s. 0 < s \<longrightarrow> L \<le> x \<and> x \<le> U) px sz"
  shows "of_int L \<le> v \<and> v \<le> of_int U"
proof -
  obtain seen pxsz where rr: "rr = Some (seen, pxsz)" and v: "v = of_int pxsz / of_int seen"
    using assms(2) by (auto simp: w_price_def split: option.splits if_splits)
  have "\<forall>(x, s)\<in>set (zip px sz). 0 \<le> s \<and> (0 < s \<longrightarrow> L \<le> x \<and> x \<le> U)"
    using assms(4,5) by (auto simp: side_ok_def list_all2_iff)
  then have b: "n \<le> seen" "L * seen \<le> pxsz" "pxsz \<le> U * seen"
    using w_side_bounds [of n "zip px sz" 0 0 seen pxsz L U] assms(1) rr by auto
  have "real_of_int (L * seen) \<le> real_of_int pxsz" "real_of_int pxsz \<le> real_of_int (U * seen)"
    using b(2,3) by linarith+
  then show ?thesis
    using b(1) assms(3) by (simp add: v le_divide_eq divide_le_eq)
qed

text \<open>
  Weighted prices stay inside the book. With percentile between 0 and 100, sizes whose
  hundredfold total and prices whose product with the size of their level fit an \<open>int\<close>, and
  a book whose non-empty bids are positive and at most \<open>B\<close>, whose non-empty asks are at least
  \<open>A \<ge> B\<close>: \<open>w_bid_ask\<close> neither overflows nor aborts, and a result has a positive bid at most
  \<open>B\<close> and an ask at least \<open>A\<close>.
\<close>

theorem weighted_price_bounds:
  assumes "point_wf pt" "0 \<le> pcnt" "pcnt \<le> 100"
    "side_ok (bid_px pt) (bid_sz pt)" "side_ok (ask_px pt) (ask_sz pt)"
    "list_all2 (\<lambda>x s. 0 < s \<longrightarrow> 0 < x \<and> x \<le> B) (bid_px pt) (bid_sz pt)"
    "list_all2 (\<lambda>x s. 0 < s \<longrightarrow> A \<le> x) (ask_px pt) (ask_sz pt)" "B \<le> A"
  shows "\<exists>r. w_bid_ask pt pcnt = Inr r
    \<and> (\<forall>sz b a. r = Some (sz, b, a) \<longrightarrow> 1 \<le> sz \<and> 0 < b \<and> b \<le> of_int B \<and> of_int A \<le> a)"
proof -
  have len: "length (bid_px pt) = NLEVELS" "length (ask_px pt) = NLEVELS" "length (bid_sz pt) = length (ask_sz pt)"
    using assms(1) by (auto simp: point_wf_def array_wf_def)
  note sb = side_ok_w_side [OF assms(4) len(1)] and sa = side_ok_w_side [OF assms(5) len(2)]
  have lim: "100 * sum_list (bid_sz pt) < 2 ^ 31" "100 * sum_list (ask_sz pt) < 2 ^ 31"
    using assms(4,5) by (auto simp: side_ok_def)
  obtain p where p: "trunc32 pcnt = Inr p" "0 \<le> p" "p \<le> 100"
    using trunc32_percent [OF assms(2,3)] .
  have "\<forall>(b, a)\<in>set (zip (bid_sz pt) (ask_sz pt)). 0 \<le> b \<and> 0 \<le> a"
    using sb(2) sa(2) by (auto simp: list_all_iff dest: set_zip_leftD set_zip_rightD)
  then obtain totb tota where tot: "tot_loop (zip (bid_sz pt) (ask_sz pt)) 0 0 = Inr (totb, tota)"
    using tot_loop_returns [of "zip (bid_sz pt) (ask_sz pt)" 0 0] sum_zip [OF len(3)] lim sb(3) sa(3) by auto
  have sums: "totb = sum_list (bid_sz pt)" "tota = sum_list (ask_sz pt)"
    using tot_loop_sum [OF tot] sum_zip [OF len(3)] by auto
  obtain tb ta where t: "target_sz (totb, tota) p = Inr (tb, ta)"
    using target_sz_returns [of totb tota p] sums lim sb(3) sa(3) p(2,3) by auto
  have pos: "1 \<le> max tb ta"
    using target_sz_pos [OF t] by (auto simp: max_def)
  obtain rb ra where r: "w_side (max tb ta) (zip (bid_px pt) (bid_sz pt)) 0 0 = Inr rb"
    "w_side (max tb ta) (zip (ask_px pt) (ask_sz pt)) 0 0 = Inr ra"
    using sb(1) sa(1) by blast
  have lo: "list_all2 (\<lambda>x s. 0 < s \<longrightarrow> 1 \<le> x \<and> x \<le> B) (bid_px pt) (bid_sz pt)"
    by (rule list_all2_mono [OF assms(6)]) auto
  have b: "0 < v \<and> v \<le> of_int B" if "w_price rb = Some v" for v
    using w_price_bounds [OF r(1) that _ assms(4) lo] pos by simp
  have up: "list_all2 (\<lambda>x s. 0 < s \<longrightarrow> A \<le> x \<and> x \<le> 2 ^ 31) (ask_px pt) (ask_sz pt)"
    using assms(1,7) by (auto simp: list_all2_conv_all_nth point_wf_def array_wf_def list_all_length in32_def less_imp_le)
  have a: "of_int A \<le> v" if "w_price ra = Some v" for v
    using w_price_bounds [OF r(2) that _ assms(5) up] pos by simp
  have "of_int B \<le> (of_int A :: real)"
    using assms(8) by simp
  then show ?thesis
    using w_bid_ask_both [OF p(1) tot t] r pos b a
    by (cases "w_price rb"; cases "w_price ra") (force simp: w_both_def)+
qed

theorem weighted_price_bounds_witness:
  "\<exists>b a. w_bid_ask (flat_point 3) 50 = Inr (Some (24, b, a)) \<and> b \<le> 100 \<and> 101 \<le> a"
proof -
  have h: "side_ok (bid_px (flat_point 3)) (bid_sz (flat_point 3))" "side_ok (ask_px (flat_point 3)) (ask_sz (flat_point 3))"
    "list_all2 (\<lambda>x s. 0 < s \<longrightarrow> 0 < x \<and> x \<le> 100) (bid_px (flat_point 3)) (bid_sz (flat_point 3))"
    "list_all2 (\<lambda>x s. 0 < s \<longrightarrow> 101 \<le> x) (ask_px (flat_point 3)) (ask_sz (flat_point 3))"
    by code_simp+
  obtain r where r: "w_bid_ask (flat_point 3) 50 = Inr r" "\<And>sz b a. r = Some (sz, b, a) \<Longrightarrow> b \<le> 100 \<and> 101 \<le> a"
    using weighted_price_bounds [OF flat_point_wf _ _ h, of 50] by (force simp: in32_def)
  have "w_bid_ask (flat_point 3) 50 = Inr (Some (24, 193 / 2, 213 / 2))"
    by code_simp
  then have "r = Some (24, 193 / 2, 213 / 2)"
    using r(1) by simp
  then show ?thesis
    using r by blast
qed

lemma w_side_last:
  assumes "w_side sz lv seen pxsz = Inr r" "lv \<noteq> []" "\<forall>(px, s)\<in>set lv. 0 \<le> s"
    "seen + (\<Sum>(px, s)\<leftarrow>butlast lv. s) < sz"
  shows "r = None"
  using assms
proof (induction lv arbitrary: seen pxsz)
  case (Cons x lv)
  obtain px s where x: "x = (px, s)"
    by (cases x)
  have "0 \<le> (\<Sum>(px, s)\<leftarrow>butlast (x # lv). s)"
    using Cons.prems(3) by (intro sum_list_nonneg) (auto dest: in_set_butlastD split: if_splits)
  then have "seen < sz"
    using Cons.prems(4) by linarith
  then show ?case
    using Cons.IH [of "seen + s" "pxsz + px * s"] Cons.prems
    by (auto simp: x w_side_step algebra_simps split: if_splits)
qed simp

text \<open>
  The last level is never used: when the sizes of all but the last level do not reach
  the size asked for, \<open>w_bid\<close> gives no price, also when the last level would complete it.
\<close>

theorem weighted_last_level_unused:
  assumes "point_wf pt" "side_ok (bid_px pt) (bid_sz pt)" "sum_list (butlast (bid_sz pt)) < sz"
  shows "w_bid pt sz = Inr None"
proof -
  have len: "length (bid_px pt) = NLEVELS" "length (bid_sz pt) = NLEVELS"
    using assms(1) by (auto simp: point_wf_def array_wf_def)
  then have "butlast (zip (bid_px pt) (bid_sz pt)) = zip (butlast (bid_px pt)) (butlast (bid_sz pt))"
    by (simp add: butlast_conv_take take_zip)
  then have "(\<Sum>(px, s)\<leftarrow>butlast (zip (bid_px pt) (bid_sz pt)). s) = sum_list (butlast (bid_sz pt))"
    using sum_zip [of "butlast (bid_px pt)" "butlast (bid_sz pt)"] len by simp
  moreover have "zip (bid_px pt) (bid_sz pt) \<noteq> []"
    using len by (cases "bid_px pt"; cases "bid_sz pt") (auto simp: NLEVELS_def)
  moreover have "\<forall>(px, s)\<in>set (zip (bid_px pt) (bid_sz pt)). 0 \<le> s"
    using assms(2) by (auto simp: side_ok_def list_all2_iff)
  moreover obtain r where "w_side sz (zip (bid_px pt) (bid_sz pt)) 0 0 = Inr r"
    using side_ok_w_side(1) [OF assms(2) len(1)] by blast
  ultimately show ?thesis
    using w_side_last [of sz "zip (bid_px pt) (bid_sz pt)" 0 0] assms(3) by (auto simp: w_bid_def w_price_def)
qed

theorem weighted_last_level_unused_witness:
  "sum_list (bid_sz (flat_point 3)) = 48 \<and> w_bid (flat_point 3) 46 = Inr None"
proof -
  have "side_ok (bid_px (flat_point 3)) (bid_sz (flat_point 3))" "sum_list (butlast (bid_sz (flat_point 3))) < 46"
    "sum_list (bid_sz (flat_point 3)) = 48"
    by code_simp+
  then show ?thesis
    using weighted_last_level_unused [OF flat_point_wf] by (simp add: in32_def)
qed

text \<open>A level whose price times size leaves \<open>int\<close> makes the weighted price undefined.\<close>

lemma weighted_overflow:
  assumes "bid_px pt = px # pxs" "bid_sz pt = s # ss" "in32 s" "0 < sz" "\<not> in32 (px * s)"
  shows "\<not> defined (w_bid pt sz)"
  using assms by (simp add: w_bid_def w_side_step ck32_def)

end
