(* ===== verification/Payload.thy ===== *)
theory Payload
  imports Order_Queue Point
begin

text \<open>
  The message that carries one event of the order flow: \<open>data_pay_load\<close> of
  \<open>src/frame_ref/include/frame/mda/msg/Data.hpp\<close>, with the conversion of a price to the
  tick that indexes the ladder, \<open>frame::ref::Price\<close> of \<open>src/frame_ref/include/frame/ref/Price.hpp\<close>.

  A \<open>Price\<close> is its tick: the book reads nothing else of it. Prices of the feed are real
  numbers in place of \<open>double\<close>. The stamps for performance measurements (\<open>publish_ts\<close>,
  \<open>ingress_qlen\<close>, \<open>pkt_entry_idx\<close>, \<open>pkt_seq_num\<close>), which nothing in the book reads, are left out.
\<close>

record payload =
  p_ts0 :: u64
  p_tim :: u64
  p_send_tim :: u64
  p_txtim_epoch :: u64
  p_sendtim_epoch :: u64
  p_hndl_tim_epoch :: u64
  p_mkt :: u32
  p_sym :: u32
  p_px :: int
  p_sz :: int
  p_disp_sz :: int
  p_side :: bs
  p_action :: mt
  p_mev :: md
  p_ot :: ot
  p_order_ref :: u64
  p_owner :: int
  p_ex_order_id :: u64
  p_eoe :: bool
  p_recovery :: bool
  p_point :: point

definition point_init :: point where
  "point_init = \<lparr>baddata = False, pt_sym = 0, pt_side = BS_NONE, pt_action = MT_UNI, pt_mev = MD_UNI,
     bid_px = replicate NLEVELS 0, ask_px = replicate NLEVELS 0,
     bid_sz = replicate NLEVELS 0, ask_sz = replicate NLEVELS 0\<rparr>"

definition payload_init :: payload where
  "payload_init = \<lparr>p_ts0 = 0, p_tim = 0, p_send_tim = 0, p_txtim_epoch = 0, p_sendtim_epoch = 0, p_hndl_tim_epoch = 0,
     p_mkt = 0, p_sym = 0, p_px = 0, p_sz = -1, p_disp_sz = 0, p_side = BS_UNI, p_action = MT_UNI,
     p_mev = MD_UNI, p_ot = OT_UNI, p_order_ref = 0, p_owner = 0, p_ex_order_id = 0,
     p_eoe = False, p_recovery = False, p_point = point_init\<rparr>"

definition p_is_sim :: "payload \<Rightarrow> bool" where
  "p_is_sim p \<longleftrightarrow> exchid (p_order_ref p) = x_SIM"

definition x_valid :: "u32 \<Rightarrow> bool" where "x_valid n \<longleftrightarrow> n < 25 \<and> n \<noteq> 0"

definition mt_valid :: "mt \<Rightarrow> bool" where "mt_valid a \<longleftrightarrow> a \<noteq> MT_UNI"

definition md_valid :: "md \<Rightarrow> bool" where "md_valid e \<longleftrightarrow> e \<noteq> MD_UNI"

text \<open>\<open>is_valid\<close> either returns true or aborts.\<close>

definition p_is_valid :: "payload \<Rightarrow> unit res" where
  "p_is_valid p =
     (if p_mev p \<in> {CLEAR, EOP, GAP, EOBURST} \<or> p_mev p = TEST \<and> p_sz p > 0 then Inr ()
      else chk (\<not> (p_sz p < 0 \<or> p_sz p > CHOPIN_MAX_ORD_SZ \<or> p_disp_sz p < 0)) ''innvalid size''
       (chk (x_valid (p_mkt p)) ''invalid mkt''
        (chk (bs_valid (p_side p)) ''invalid side''
         (chk (p_mev p \<noteq> ADD \<longrightarrow> mt_valid (p_action p)) ''invalid act''
          (chk (md_valid (p_mev p)) ''invalid mev''
           (chk (\<not> p_recovery p \<and> \<not> p_is_sim p \<longrightarrow> p_send_tim p > 0) ''invalid time'' (Inr ())))))))"

section \<open>Prices\<close>

definition round_away :: "real \<Rightarrow> int" where
  "round_away x = (if x \<ge> 0 then \<lfloor>x + 1 / 2\<rfloor> else \<lceil>x - 1 / 2\<rceil>)"

text \<open>The tick of a price: out of range of \<open>int\<close>, or not a number for a tick size of zero, is -1.\<close>

definition price_ticks :: "real \<Rightarrow> real \<Rightarrow> int" where
  "price_ticks units pxf =
     (let t = round_away (pxf / units + 1 / 10 ^ 7)
      in if units = 0 \<or> t \<ge> 2 ^ 31 - 1 \<or> t \<le> - (2 ^ 31) then -1 else t)"

definition to_uint :: "int \<Rightarrow> int res" where
  "to_uint px = chk (px > 0) ''px'' (Inr px)"

definition make_payload ::
  "real \<Rightarrow> u64 \<Rightarrow> bs \<Rightarrow> u64 \<Rightarrow> u64 \<Rightarrow> u32 \<Rightarrow> md \<Rightarrow> mt \<Rightarrow> u32 \<Rightarrow> u32 \<Rightarrow> real \<Rightarrow> u64 \<Rightarrow> u64 \<Rightarrow> u32 \<Rightarrow> bool \<Rightarrow> bool
     \<Rightarrow> payload res" where
  "make_payload units ts0 side exord ref sy mev act sz disp_sz px txtim sendtim venue eoe recovery =
     chk (px > 0) ''should not get here''
      (let p = payload_init\<lparr>p_ts0 := ts0, p_mkt := venue, p_sym := sy, p_ex_order_id := exord, p_mev := mev,
                p_action := act, p_tim := txtim, p_send_tim := sendtim, p_order_ref := ref,
                p_sz := sint sz, p_disp_sz := sint disp_sz, p_side := side, p_eoe := eoe,
                p_recovery := recovery, p_px := price_ticks units px\<rparr>
       in bnd (p_is_valid p) (\<lambda>_. Inr p))"

lemma price_ticks_range: "in32 (price_ticks units pxf)"
  by (auto simp: price_ticks_def in32_def Let_def)

lemma round_away_int: "round_away (of_int n + of_int k / 10 ^ 7) = n" if "0 \<le> k" "k \<le> 10 ^ 6" "0 \<le> n"
  using that by (auto simp: round_away_def floor_eq_iff)

text \<open>A price that is a whole number of ticks converts to that number.\<close>

lemma price_ticks_exact:
  assumes "units > 0" "0 \<le> n" "n < 2 ^ 31 - 1"
  shows "price_ticks units (of_int n * units) = n"
proof -
  have "round_away (of_int n * units / units + 1 / 10 ^ 7) = n"
    using round_away_int [of 1 n] assms by simp
  then show ?thesis
    using assms by (simp add: price_ticks_def)
qed

lemma make_payload_valid:
  "make_payload units ts0 side exord ref sy mev act sz disp_sz px txtim sendtim venue eoe recovery = Inr p
   \<Longrightarrow> p_is_valid p = Inr () \<and> p_mev p = mev \<and> p_action p = act \<and> p_order_ref p = ref \<and> p_tim p = txtim
     \<and> p_px p = price_ticks units px \<and> p_recovery p = recovery \<and> p_side p = side"
  by (auto simp: make_payload_def Let_def)

end
