(* ===== verification/SOM.thy ===== *)
theory SOM
  imports Position Payload
begin

text \<open>
  The order manager \<open>frame::som::act::SOM\<close> (\<open>src/frame_kaspr/src/SOM.cpp\<close>, its state in
  \<open>src/frame_kaspr/include/frame/som/act/SOM.hpp\<close>, its messages in \<open>frame/som/msg\<close>). It numbers
  the orders of the traders, checks their limits, passes orders and cancels on to a simulated
  book or to the manager of an exchange, and keeps the positions from the fills that come back.

  Sizes are \<open>double\<close> in the code and reals here; a conversion to \<open>int\<close> is \<open>trunc32\<close>. The map
  \<open>orders\<close> is a HOL map; the order in which the code visits the entries of an unordered map is
  the parameter \<open>visit\<close> of the operations that iterate over it. What a handler sends is
  appended to \<open>s_out\<close>; \<open>Reply\<close> answers the sender of a fast send. The configuration
  modelled is the one that is built: \<open>DISABLE_STASHING\<close> is defined, \<open>CREATECANCREPL\<close>,
  \<open>INCLUDE_WORKING_ORDERS_INLIMIT\<close>, \<open>NOINTERALREJECT\<close> and \<open>REJECTCANC_SIMMODE\<close> are not, so the
  stashing queues do not exist. Account names and other strings that are only carried are left
  out, as are the exchange's order numbers, which are only logged. Pages of the console are
  modelled by the values of their cells.
\<close>

section \<open>Messages\<close>

datatype canc_reason =
    CR_NOTFOUND | CR_FILLEDALREADY | CR_CANCELLEDALREADY | CR_REJECTEDPREVIOUSLY | CR_NOTACKED
  | CR_INTERNALOIDTOCANC | CR_REJECTONMOD | CR_FROMEXCHANGE | CR_FROMEXCHANGE_BUSINESSREJECT
  | CR_THROTTLE | CR_DISCONNECTED | CR_NOTLOGGEDIN | CR_UNKNOWN

datatype rej_reason = RJ_UNKNOWN | RJ_OVERLIMIT | RJ_THROTTLE | RJ_EXCHLIMIT | RJ_DISCONNECTED | RJ_NOTLOGGEDIN

datatype som_code = SC_NEW | SC_ACK | SC_REJ | SC_IREJ | SC_CAN | SC_CANACK | SC_CANREJ | SC_FILL

record som_order =
  so_ts :: u64
  so_venue :: u32
  so_sym :: int
  so_sz :: real
  so_px :: int
  so_stbf :: int
  so_oid :: int
  so_side :: bs
  so_owner :: int
  so_ref :: u64
  so_oid_to_cancel :: int
  so_filled :: bool
  so_canced :: bool
  so_rejed :: bool
  so_acked :: bool
  so_slated :: bool
  so_sender :: "actor option"

record som_fill =
  f_id :: u32
  f_venue :: u32
  f_sym :: u32
  f_px :: int
  f_side :: bs
  f_sz :: real
  f_stbf :: real
  f_owner :: int
  f_tim :: u64

type_synonym order_row = "u64 \<times> u32 \<times> string \<times> u32 \<times> string \<times> int \<times> real \<times> bs \<times> int \<times> int"

datatype page =
    PgText string
  | PgPnl "(string \<times> int \<times> int) list"
  | PgLimits "(string \<times> int \<times> int) list"
  | PgStatus "u32 list"
  | PgOrders "order_row option list"

datatype som_msg =
    Ack u32
  | Reject u32 rej_reason
  | CancReject u32 canc_reason int
  | CancelAck u32 int int
  | FillMsg som_fill
  | SOMAction som_code u32 int u32 int bs int "actor option"
  | UpdatePosition int int bs int
  | GetPosition int int
  | ResetPositions
  | BookData payload
  | NewOrder som_order
  | CancelOrder u32 u64 u64
  | ExitPos u32
  | BBBOSub
  | PNL "Position list" "int list"
  | Page page

datatype som_out = Reply som_msg | Send actor som_msg

text \<open>\<open>Order::Order\<close>, and \<open>CancReject\<close>'s constructor, which insists on a reason.\<close>

definition make_order ::
  "u32 \<Rightarrow> int \<Rightarrow> real \<Rightarrow> int \<Rightarrow> bs \<Rightarrow> int \<Rightarrow> u64 \<Rightarrow> actor option \<Rightarrow> som_order res" where
  "make_order ven sy sz px side owner ts sender =
     bnd (trunc32 sz) (\<lambda>n. chk (sz > 0) ''negative order size''
       (Inr \<lparr>so_ts = ts, so_venue = ven, so_sym = sy, so_sz = sz, so_px = px, so_stbf = n, so_oid = -1, so_side = side,
          so_owner = owner, so_ref = 0, so_oid_to_cancel = -1, so_filled = False, so_canced = False, so_rejed = False,
          so_acked = False, so_slated = False, so_sender = sender\<rparr>))"

definition canc_reject :: "u32 \<Rightarrow> canc_reason \<Rightarrow> int \<Rightarrow> som_msg res" where
  "canc_reject i reason st = chk (reason \<noteq> CR_UNKNOWN) ''Must specify canc reject reason'' (Inr (CancReject i reason st))"

section \<open>State\<close>

record som_asset =
  a_name :: string
  a_cusip :: bool
  a_contract_size :: int

record SOM =
  s_allow_unacked :: bool
  s_orders :: "u32 \<Rightarrow> som_order option"
  s_subs :: "actor list"
  s_curr_id :: u32
  s_db :: "actor option"
  s_currtim :: u64
  s_add_ts :: "int \<Rightarrow> u64 option"
  s_books :: "actor option list list"
  s_managers :: "actor option list"
  s_bid :: "int list"
  s_ask :: "int list"
  s_sim :: bool
  s_pos_limit :: "int list"
  s_size_limit :: "int list"
  s_fill_volume :: "int list"
  s_num_canc :: "int list"
  s_num_ords :: "int list"
  s_num_cr :: "int list"
  s_num_fills :: "int list"
  s_num_icnrej :: "int list"
  s_num_xorej :: "int list"
  s_num_xcnrej :: int
  s_pos :: "Position list list"
  s_stopped :: bool
  s_reset :: bool
  s_cfg_pos :: "(string \<times> int) list"
  s_cfg_size :: "(string \<times> int) list"
  s_assets :: "som_asset option list"
  s_self :: actor
  s_out :: "som_out list"

definition trader_num_syms :: nat where "trader_num_syms = 13"

definition x_num_syms :: nat where "x_num_syms = 25"

text \<open>\<open>nth_res\<close> is \<open>operator[]\<close> of a vector and \<open>deref\<close> the use of a pointer.\<close>

definition nth_res :: "'a list \<Rightarrow> int \<Rightarrow> 'a res" where
  "nth_res xs i = (if 0 \<le> i \<and> i < int (length xs) then Inr (xs ! nat i) else Inl (Undefined ''index out of range''))"

definition deref :: "'a option \<Rightarrow> 'a res" where
  "deref p = (case p of None \<Rightarrow> Inl (Undefined ''null pointer'') | Some x \<Rightarrow> Inr x)"

definition upd_at :: "int list \<Rightarrow> int \<Rightarrow> int \<Rightarrow> int list res" where
  "upd_at xs i d = bnd (nth_res xs i) (\<lambda>v. bnd (ck32 (v + d)) (\<lambda>w. Inr (xs[nat i := w])))"

fun traverse :: "('a \<Rightarrow> 'b res) \<Rightarrow> 'a list \<Rightarrow> 'b list res" where
  "traverse f [] = Inr []"
| "traverse f (x # xs) = bnd (f x) (\<lambda>y. bnd (traverse f xs) (\<lambda>ys. Inr (y # ys)))"

definition emit :: "som_out list \<Rightarrow> SOM \<Rightarrow> SOM" where
  "emit os s = s\<lparr>s_out := s_out s @ os\<rparr>"

definition to_db :: "som_msg \<Rightarrow> SOM \<Rightarrow> SOM" where
  "to_db m s = (case s_db s of None \<Rightarrow> s | Some d \<Rightarrow> emit [Send d m] s)"

definition db_action :: "som_code \<Rightarrow> u32 \<Rightarrow> int \<Rightarrow> SOM \<Rightarrow> SOM" where
  "db_action c i sz = to_db (SOMAction c i sz 0 0 BS_UNI 0 None)"

definition to_client :: "actor option \<Rightarrow> som_msg res \<Rightarrow> SOM \<Rightarrow> SOM res" where
  "to_client client m s = bnd m (\<lambda>m'. bnd (deref client) (\<lambda>c. Inr (emit [Send c m'] s)))"

definition som_asset_of :: "SOM \<Rightarrow> int \<Rightarrow> som_asset option res" where
  "som_asset_of s sy = nth_res (s_assets s) sy"

definition asset_ref :: "SOM \<Rightarrow> int \<Rightarrow> som_asset res" where
  "asset_ref s sy = bnd (som_asset_of s sy) deref"

definition asset_chk :: "SOM \<Rightarrow> int \<Rightarrow> string \<Rightarrow> som_asset res" where
  "asset_chk s sy msg = bnd (som_asset_of s sy) (\<lambda>a. chk (a \<noteq> None) msg (deref a))"

text \<open>\<open>Price(px, sym)\<close> of an integer price is that price, for an asset that exists.\<close>

definition price_of :: "SOM \<Rightarrow> int \<Rightarrow> int \<Rightarrow> int res" where
  "price_of s px sy = bnd (asset_chk s sy ''No such asset'') (\<lambda>_. Inr px)"

definition book_of :: "SOM \<Rightarrow> u32 \<Rightarrow> int \<Rightarrow> actor option res" where
  "book_of s ven sy = bnd (nth_res (s_books s) (uint ven)) (\<lambda>row. nth_res row sy)"

section \<open>Limits\<close>

definition resize :: "nat \<Rightarrow> int list \<Rightarrow> int list" where
  "resize n xs = take n xs @ replicate (n - length xs) 0"

definition starts_with :: "string \<Rightarrow> string \<Rightarrow> bool" where
  "starts_with name p \<longleftrightarrow> take (length p) name = p"

definition apply_limit :: "SOM \<Rightarrow> string \<times> int \<Rightarrow> int list \<Rightarrow> int list res" where
  "apply_limit s p lims =
     traverse (\<lambda>i. bnd (asset_ref s (int i)) (\<lambda>a. Inr (if starts_with (a_name a) (fst p) then snd p else lims ! i)))
       [0..<length (s_assets s)]"

fun apply_limits :: "SOM \<Rightarrow> (string \<times> int) list \<Rightarrow> int list \<Rightarrow> int list res" where
  "apply_limits s [] lims = Inr lims"
| "apply_limits s (p # ps) lims = bnd (apply_limit s p lims) (apply_limits s ps)"

definition read_limits :: "SOM \<Rightarrow> SOM res" where
  "read_limits s =
     (let n = length (s_assets s) in
      bnd (apply_limits s (s_cfg_pos s) (resize n (s_pos_limit s))) (\<lambda>pl.
      bnd (apply_limits s (s_cfg_size s) (resize n (s_size_limit s))) (\<lambda>sl.
      bnd (traverse (\<lambda>i. if pl ! i \<le> 0 \<or> sl ! i \<le> 0 then bnd (asset_ref s (int i)) (\<lambda>_. Inr ()) else Inr ()) [0..<n])
        (\<lambda>_. Inr (s\<lparr>s_pos_limit := pl, s_size_limit := sl\<rparr>)))))"

definition SOM_init ::
  "u32 \<Rightarrow> actor option \<Rightarrow> (string \<times> int) list \<Rightarrow> (string \<times> int) list \<Rightarrow> actor option list list \<Rightarrow> bool \<Rightarrow> bool
   \<Rightarrow> actor option \<Rightarrow> som_asset option list \<Rightarrow> actor \<Rightarrow> SOM res" where
  "SOM_init ven db cp cs books sim reset fillsub assets self =
     (let n = length assets; z = replicate n 0;
          s = \<lparr>s_allow_unacked = True, s_orders = (\<lambda>_. None), s_subs = [], s_curr_id = ven * 1000000, s_db = db, s_currtim = 0,
               s_add_ts = (\<lambda>_. None), s_books = books, s_managers = replicate x_num_syms None, s_bid = z, s_ask = z,
               s_sim = sim, s_pos_limit = [], s_size_limit = [], s_fill_volume = z, s_num_canc = z, s_num_ords = z,
               s_num_cr = z, s_num_fills = z, s_num_icnrej = z, s_num_xorej = z, s_num_xcnrej = 0,
               s_pos = replicate trader_num_syms (replicate n Position_init), s_stopped = False, s_reset = reset,
               s_cfg_pos = cp, s_cfg_size = cs, s_assets = assets, s_self = self, s_out = []\<rparr>
      in bnd (if sim then bnd (nth_res books (uint ven)) (\<lambda>row. chk (\<exists>b \<in> set row. b \<noteq> None) ''no order books set'' (Inr ()))
              else Inr ())
         (\<lambda>_. bnd (read_limits s) (\<lambda>s1. Inr (s1\<lparr>s_subs := (case fillsub of None \<Rightarrow> [] | Some f \<Rightarrow> [f])\<rparr>))))"

definition add_fill_subscriber :: "SOM \<Rightarrow> actor option \<Rightarrow> SOM" where
  "add_fill_subscriber s sub = (case sub of None \<Rightarrow> s | Some f \<Rightarrow> s\<lparr>s_subs := s_subs s @ [f]\<rparr>)"

section \<open>Positions and profit\<close>

definition position_of :: "SOM \<Rightarrow> int \<Rightarrow> int \<Rightarrow> Position res" where
  "position_of s owner sy = bnd (nth_res (s_pos s) owner) (\<lambda>row. nth_res row sy)"

definition get_pos :: "SOM \<Rightarrow> int \<Rightarrow> int \<Rightarrow> int res" where
  "get_pos s sy trader = bnd (position_of s trader sy) totalSize"

definition add_pos :: "SOM \<Rightarrow> int \<Rightarrow> int \<Rightarrow> PosEntry \<Rightarrow> SOM res" where
  "add_pos s owner sy e =
     bnd (nth_res (s_pos s) owner) (\<lambda>row. bnd (nth_res row sy) (\<lambda>p.
       bnd (addToPosition p e) (\<lambda>(_, p'). Inr (s\<lparr>s_pos := (s_pos s)[nat owner := row[nat sy := p']]\<rparr>))))"

text \<open>One row of \<open>get_pnl\<close>: total, unrealised and realised profit.\<close>

definition pnl_row :: "SOM \<Rightarrow> Position list \<Rightarrow> nat \<Rightarrow> (int \<times> int \<times> int) res" where
  "pnl_row s row i =
     bnd (asset_chk s (int i) ''no asset'') (\<lambda>a.
     bnd (nth_res (s_bid s) (int i)) (\<lambda>bb. bnd (nth_res (s_ask s) (int i)) (\<lambda>ba.
     bnd (unrealPnl (row ! i) (of_int bb) (of_int ba)) (\<lambda>u. bnd (trunc32 u) (\<lambda>ui. bnd (ck32 (ui * a_contract_size a)) (\<lambda>up.
     bnd (trunc32 (realized_pnl (row ! i))) (\<lambda>ri. bnd (ck32 (ri * a_contract_size a)) (\<lambda>rp.
     bnd (ck32 (rp + up)) (\<lambda>tp. Inr (tp, up, rp))))))))))"

definition get_pnl :: "SOM \<Rightarrow> int \<Rightarrow> (int \<times> int \<times> int) list res" where
  "get_pnl s owner =
     (let n = length (s_assets s) in
      if s_bid s = [] \<or> s_ask s = [] then Inr (replicate n (0, 0, 0))
      else bnd (nth_res (s_pos s) owner) (\<lambda>row.
             bnd (traverse (pnl_row s row) [0..<length row]) (\<lambda>rs. chk (length rs = n) ''n'' (Inr rs))))"

text \<open>The loop of \<open>get_pnl_all\<close> over the traders, and its sum over the assets.\<close>

fun pnl_all_loop :: "SOM \<Rightarrow> int \<Rightarrow> Position list list \<Rightarrow> int \<Rightarrow> int \<Rightarrow> (int \<times> int) res" where
  "pnl_all_loop s sy [] u r = Inr (u, r)"
| "pnl_all_loop s sy (row # rows) u r =
     (if int (length row) < sy then pnl_all_loop s sy rows u r
      else bnd (nth_res row sy) (\<lambda>p. bnd (nth_res (s_bid s) sy) (\<lambda>bb. bnd (nth_res (s_ask s) sy) (\<lambda>ba.
           bnd (asset_chk s sy ''No such asset'') (\<lambda>_.
           bnd (unrealPnl p (of_int bb) (of_int ba)) (\<lambda>x. bnd (trunc32 (of_int u + of_int (round_away x))) (\<lambda>u'.
           bnd (trunc32 (of_int r + of_int (round_away (realized_pnl p)))) (\<lambda>r'. pnl_all_loop s sy rows u' r'))))))))"

definition get_pnl_all :: "SOM \<Rightarrow> int \<Rightarrow> (int \<times> int \<times> int) res" where
  "get_pnl_all s sy =
     bnd (asset_chk s sy ''no asset'') (\<lambda>a. bnd (pnl_all_loop s sy (s_pos s) 0 0) (\<lambda>(u, r).
       bnd (ck32 (u + r)) (\<lambda>t. bnd (ck32 (u * a_contract_size a)) (\<lambda>u'. bnd (ck32 (r * a_contract_size a)) (\<lambda>r'.
       bnd (ck32 (t * a_contract_size a)) (\<lambda>t'. Inr (u', r', t')))))))"

fun pnl_sum :: "SOM \<Rightarrow> nat list \<Rightarrow> int \<times> int \<times> int \<Rightarrow> (int \<times> int \<times> int) res" where
  "pnl_sum s [] acc = Inr acc"
| "pnl_sum s (i # is) (u, r, t) =
     bnd (get_pnl_all s (int i)) (\<lambda>(u1, r1, t1). bnd (ck32 (u + u1)) (\<lambda>u'. bnd (ck32 (r + r1)) (\<lambda>r'.
       bnd (ck32 (t + t1)) (\<lambda>t'. pnl_sum s is (u', r', t')))))"

definition get_pnl_all_all :: "SOM \<Rightarrow> (int \<times> int \<times> int) res" where
  "get_pnl_all_all s = pnl_sum s [0..<length (s_assets s)] (0, 0, 0)"

section \<open>Cancelling\<close>

definition sim_cancel_payload :: "som_order \<Rightarrow> u32 \<Rightarrow> u64 \<Rightarrow> int \<Rightarrow> int \<Rightarrow> payload" where
  "sim_cancel_payload o' i canc_ts px sz =
     payload_init\<lparr>p_mkt := x_SIM, p_sym := word_of_int (so_sym o'), p_px := px, p_sz := sz, p_action := CANCD,
       p_side := so_side o', p_order_ref := longid x_SIM i, p_mev := MOD, p_disp_sz := 0, p_ts0 := canc_ts\<rparr>"

definition sim_order_payload :: "som_order \<Rightarrow> int \<Rightarrow> int \<Rightarrow> payload" where
  "sim_order_payload m px sz =
     payload_init\<lparr>p_mkt := x_SIM, p_sym := word_of_int (so_sym m), p_px := px, p_sz := sz, p_disp_sz := sz,
       p_side := so_side m, p_order_ref := longid x_SIM (word_of_int (so_oid m)), p_action := MT_NONE, p_ot := LIMIT,
       p_mev := ADD, p_owner := so_owner m, p_ts0 := so_ts m\<rparr>"

definition send_book :: "actor option \<Rightarrow> payload \<Rightarrow> SOM \<Rightarrow> SOM res" where
  "send_book bk p s =
     chk (bk \<noteq> None) ''book not set'' (bnd (p_is_valid p) (\<lambda>_. bnd (deref bk) (\<lambda>b. Inr (emit [Send b (BookData p)] s))))"

text \<open>
  \<open>cancel_order\<close>: the last guard against a finished order, then the message to the book with the
  time of the cancel, or to the manager of the exchange.
\<close>

definition cancel_order :: "SOM \<Rightarrow> u32 \<Rightarrow> som_order \<Rightarrow> u64 \<Rightarrow> SOM res" where
  "cancel_order s i ord canc_ts =
     (if so_filled ord then to_client (so_sender ord) (canc_reject i CR_FILLEDALREADY 99) s
      else if so_canced ord then to_client (so_sender ord) (canc_reject i CR_CANCELLEDALREADY 99) s
      else if so_rejed ord then to_client (so_sender ord) (canc_reject i CR_REJECTEDPREVIOUSLY 99) s
      else bnd (upd_at (s_num_canc s) (so_sym ord) 1) (\<lambda>nc.
        (let s1 = s\<lparr>s_num_canc := nc\<rparr> in
         if s_sim s1 then
           bnd (book_of s1 (so_venue ord) (so_sym ord)) (\<lambda>bk. chk (bk \<noteq> None) ''book not set''
             (bnd (price_of s1 (so_px ord) (so_sym ord)) (\<lambda>px. bnd (trunc32 (so_sz ord)) (\<lambda>sz.
               send_book bk (sim_cancel_payload ord i canc_ts px sz) s1))))
         else bnd (nth_res (s_managers s1) (uint (so_venue ord))) (\<lambda>om.
           case om of
             None \<Rightarrow> Inr s1
           | Some a \<Rightarrow> Inr (db_action SC_CAN i 0 (emit [Send a (CancelOrder i canc_ts (longid (so_venue ord) i))] s1))))))"

text \<open>
  \<open>internal_reject\<close> refuses the cancel of an order that is unknown or finished; the result is
  the order when it does not refuse, the pointer \<open>ord\<close> of the code.
\<close>

definition internal_reject :: "SOM \<Rightarrow> int \<Rightarrow> (SOM \<times> som_order option) res" where
  "internal_reject s i =
     (let k = word_of_int i; refuse = (\<lambda>ord c. bnd (to_client (so_sender ord) (canc_reject k c 99) s)
                                          (\<lambda>s'. Inr (db_action SC_IREJ k 0 s', None))) in
      case s_orders s k of
        None \<Rightarrow> Inr (db_action SC_IREJ k 0 s, None)
      | Some ord \<Rightarrow>
          (if so_filled ord then refuse ord CR_FILLEDALREADY
           else if so_canced ord then refuse ord CR_CANCELLEDALREADY
           else if so_rejed ord then refuse ord CR_REJECTEDPREVIOUSLY
           else if \<not> s_sim s \<and> \<not> s_allow_unacked s \<and> \<not> so_acked ord
             then (let ord' = ord\<lparr>so_slated := True\<rparr> in Inr (s\<lparr>s_orders := (s_orders s)(k \<mapsto> ord')\<rparr>, Some ord'))
           else Inr (s, Some ord)))"

definition canc_handler :: "SOM \<Rightarrow> u32 \<Rightarrow> u64 \<Rightarrow> SOM res" where
  "canc_handler s i ts =
     bnd (internal_reject s (sint i)) (\<lambda>(s', r). case r of None \<Rightarrow> Inr s' | Some ord \<Rightarrow> cancel_order s' i ord ts)"

fun cancel_each :: "u32 list \<Rightarrow> SOM \<Rightarrow> SOM res" where
  "cancel_each [] s = Inr s"
| "cancel_each (k # ks) s =
     bnd (deref (s_orders s k)) (\<lambda>ord.
       if so_filled ord \<or> so_canced ord \<or> so_rejed ord then cancel_each ks s
       else bnd (cancel_order s k ord 0) (cancel_each ks))"

type_synonym visiting = "(u32 \<Rightarrow> som_order option) \<Rightarrow> u32 list"

definition cancel_all_orders :: "visiting \<Rightarrow> SOM \<Rightarrow> SOM res" where
  "cancel_all_orders visit s = cancel_each (visit (s_orders s)) s"

section \<open>New orders\<close>

definition order_over_limit :: "SOM \<Rightarrow> som_order \<Rightarrow> bool res" where
  "order_over_limit s m =
     bnd (get_pos s (so_sym m) (so_owner m)) (\<lambda>cur. bnd (nth_res (s_pos_limit s) (so_sym m)) (\<lambda>pl.
     bnd (nth_res (s_size_limit s) (so_sym m)) (\<lambda>sl.
       Inr ((if so_side m = BUY then pl \<ge> 0 \<and> of_int cur + so_sz m > of_int pl
             else pl \<ge> 0 \<and> of_int cur - so_sz m < of_int (- pl))
            \<or> sl \<ge> 0 \<and> so_sz m > of_int sl))))"

definition check_limits :: "SOM \<Rightarrow> som_order \<Rightarrow> bool res" where
  "check_limits s m =
     bnd (asset_ref s (so_sym m)) (\<lambda>a. if a_cusip a then Inr False else order_over_limit s m)"

definition assign_id :: "SOM \<Rightarrow> som_order \<Rightarrow> SOM \<times> som_order" where
  "assign_id s m =
     (if so_oid m < 0
      then (let m' = m\<lparr>so_oid := sint (s_curr_id s)\<rparr> in
            (s\<lparr>s_orders := (s_orders s)(word_of_int (so_oid m') \<mapsto> m'), s_curr_id := s_curr_id s + 1\<rparr>, m'))
      else (s, m))"

text \<open>A cancel-replace whose cancel was refused becomes a plain order; otherwise the old order is cancelled.\<close>

definition replace_refused :: "SOM \<Rightarrow> som_order \<Rightarrow> (SOM \<times> som_order) res" where
  "replace_refused s m =
     bnd (upd_at (s_num_icnrej s) (so_sym m) 1) (\<lambda>ni. bnd (upd_at (s_num_ords s) (so_sym m) 1) (\<lambda>no.
       Inr (s\<lparr>s_num_icnrej := ni, s_num_ords := no\<rparr>, m\<lparr>so_oid_to_cancel := -1\<rparr>)))"

definition replace_cancel :: "SOM \<Rightarrow> som_order \<Rightarrow> som_order \<Rightarrow> (SOM \<times> som_order) res" where
  "replace_cancel s m ord =
     bnd (upd_at (s_num_cr s) (so_sym m) 1) (\<lambda>nr.
       if s_sim s
       then bnd (cancel_order (s\<lparr>s_num_cr := nr\<rparr>) (word_of_int (so_oid_to_cancel m)) ord (so_ts m)) (\<lambda>s1. Inr (s1, m))
       else Inr (s\<lparr>s_num_cr := nr\<rparr>, m))"

definition replace_order :: "SOM \<Rightarrow> som_order \<Rightarrow> (SOM \<times> som_order) res" where
  "replace_order s m =
     (if so_oid_to_cancel m \<ge> 0 then
        bnd (internal_reject s (so_oid_to_cancel m)) (\<lambda>(s1, r).
          case r of None \<Rightarrow> replace_refused s1 m | Some ord \<Rightarrow> replace_cancel s1 m ord)
      else bnd (upd_at (s_num_ords s) (so_sym m) 1) (\<lambda>no. Inr (s\<lparr>s_num_ords := no\<rparr>, m)))"

text \<open>\<open>new Reject(rej_id, true)\<close> takes the reason \<open>int(true)\<close>, which is \<open>OVERLIMIT\<close>.\<close>

definition place_order :: "SOM \<Rightarrow> som_order \<Rightarrow> SOM res" where
  "place_order s m =
     (if s_stopped s then to_client (so_sender m) (Inr (Reject (word_of_int (so_oid m)) RJ_OVERLIMIT)) s
      else if s_sim s then
        bnd (book_of s (so_venue m) (so_sym m)) (\<lambda>bk. chk (bk \<noteq> None) ''book not set''
          (bnd (price_of s (so_px m) (so_sym m)) (\<lambda>px. bnd (trunc32 (so_sz m)) (\<lambda>sz.
            send_book bk (sim_order_payload m px sz) s))))
      else bnd (nth_res (s_managers s) (uint (so_venue m))) (\<lambda>om.
        case om of
          None \<Rightarrow> Inr s
        | Some a \<Rightarrow>
            (let fwd = m\<lparr>so_ref := longid (so_venue m) (word_of_int (so_oid m))\<rparr>
             in Inr (emit [Send a (NewOrder fwd)] (s\<lparr>s_orders := (s_orders s)(word_of_int (so_oid m) \<mapsto> fwd)\<rparr>)))))"

definition log_new :: "SOM \<Rightarrow> som_order \<Rightarrow> SOM res" where
  "log_new s m =
     (if s_db s = None then Inr s
      else bnd (trunc32 (so_sz m)) (\<lambda>n.
        Inr (to_db (SOMAction SC_NEW (word_of_int (so_oid m)) n (so_venue m) (so_sym m) (so_side m) (so_px m) (so_sender m)) s)))"

definition accept_order :: "SOM \<Rightarrow> som_order \<Rightarrow> SOM res" where
  "accept_order s m =
     (let (s1, m1) = assign_id s m;
          s2 = emit [Reply (Ack (word_of_int (so_oid m1)))] s1;
          s3 = s2\<lparr>s_add_ts := (s_add_ts s2)(so_oid m1 \<mapsto> 0)\<rparr>
      in bnd (log_new s3 m1) (\<lambda>s4. bnd (replace_order s4 m1) (\<lambda>(s5, m2). place_order s5 m2)))"

definition order_handler :: "SOM \<Rightarrow> som_order \<Rightarrow> SOM res" where
  "order_handler s m =
     chk (so_sender m \<noteq> None) ''no sender'' (chk (so_sz m > 0) ''order for 0 size''
      (chk (so_sz m < of_int CHOPIN_MAX_ORD_SZ) ''bad size''
        (bnd (check_limits s m) (\<lambda>over.
           if over then to_client (so_sender m) (Inr (Reject (s_curr_id s) RJ_OVERLIMIT)) (emit [Reply (Ack (s_curr_id s))] s)
           else accept_order s m))))"

section \<open>Answers of the market\<close>

definition ack_handler :: "SOM \<Rightarrow> u32 \<Rightarrow> SOM res" where
  "ack_handler s i =
     (case s_orders s i of
        None \<Rightarrow> Inl (Assert ''must be found'')
      | Some ord \<Rightarrow>
          (let ord' = ord\<lparr>so_acked := True\<rparr>; s1 = db_action SC_ACK i 0 (s\<lparr>s_orders := (s_orders s)(i \<mapsto> ord')\<rparr>)
           in if \<not> so_slated ord' then Inr s1
              else if so_canced ord' then Inr s1
              else chk (word_of_int (so_oid ord') = i) ''must be same id'' (cancel_order s1 i ord' 0)))"

definition rej_handler :: "SOM \<Rightarrow> u32 \<Rightarrow> rej_reason \<Rightarrow> SOM res" where
  "rej_handler s i reason =
     (let s1 = db_action SC_REJ i 0 s in
      case s_orders s1 i of
        None \<Rightarrow> Inr s1
      | Some ord \<Rightarrow>
          bnd (upd_at (s_num_xorej s1) (so_sym ord) 1) (\<lambda>nx.
          bnd (to_client (so_sender ord) (Inr (Reject i reason)) (s1\<lparr>s_num_xorej := nx\<rparr>)) (\<lambda>s2.
            Inr (s2\<lparr>s_orders := (s_orders s2)(i := None)\<rparr>))))"

definition canc_ack_handler :: "SOM \<Rightarrow> u32 \<Rightarrow> int \<Rightarrow> int \<Rightarrow> SOM res" where
  "canc_ack_handler s i fillsz sz =
     (let s1 = db_action SC_CANACK i 0 s in
      case s_orders s1 i of
        None \<Rightarrow> Inr s1
      | Some ord \<Rightarrow>
          bnd (if so_sender ord = Some (s_self s1) then Inr s1 else to_client (so_sender ord) (Inr (CancelAck i fillsz sz)) s1)
            (\<lambda>s2. if sz \<le> 0 then Inr (s2\<lparr>s_orders := (s_orders s2)(i := None)\<rparr>) else Inr s2))"

definition canc_rej_handler :: "SOM \<Rightarrow> u32 \<Rightarrow> canc_reason \<Rightarrow> int \<Rightarrow> SOM res" where
  "canc_rej_handler s i reason ord_status =
     (let s1 = db_action SC_CANREJ i 0 s in
      case s_orders s1 i of
        None \<Rightarrow> Inr s1
      | Some ord \<Rightarrow>
          (if so_sender ord = Some (s_self s1) then sngh
           else bnd (ck32 (s_num_xcnrej s1 + 1)) (\<lambda>n.
             to_client (so_sender ord)
               (if so_filled ord then canc_reject i CR_FILLEDALREADY 99
                else if so_canced ord then canc_reject i CR_CANCELLEDALREADY 99
                else if so_rejed ord then canc_reject i CR_REJECTEDPREVIOUSLY 99
                else canc_reject i reason ord_status) (s1\<lparr>s_num_xcnrej := n\<rparr>))))"

text \<open>What a fill does to its order, to those who listen, and to the position.\<close>

definition fill_order :: "SOM \<Rightarrow> som_fill \<Rightarrow> som_order \<Rightarrow> SOM res" where
  "fill_order s f ord =
     bnd (trunc32 (f_stbf f)) (\<lambda>n.
       (let ord' = ord\<lparr>so_filled := so_filled ord \<or> f_stbf f \<le> 1 / 10 ^ 7, so_stbf := n\<rparr>;
            msg = FillMsg (f\<lparr>f_venue := so_venue ord\<rparr>)
        in bnd (to_client (so_sender ord') (Inr msg) (s\<lparr>s_orders := (s_orders s)(f_id f \<mapsto> ord')\<rparr>))
             (\<lambda>s1. Inr (emit (map (\<lambda>a. Send a msg) (s_subs s1)) s1))))"

definition fill_position :: "SOM \<Rightarrow> som_fill \<Rightarrow> SOM res" where
  "fill_position s f =
     bnd (nth_res (s_pos s) (f_owner f)) (\<lambda>row.
       if uint (f_sym f) < int (length row) then
         bnd (trunc32 (f_sz f)) (\<lambda>n.
         bnd (add_pos s (f_owner f) (uint (f_sym f)) \<lparr>trade_type = f_side f, trade_price = of_int (f_px f), pe_sz = n\<rparr>)
           (\<lambda>s1. Inr (to_db (UpdatePosition (uint (f_sym f)) (f_owner f) (f_side f) n) s1)))
       else Inr s)"

definition OCCAMUST :: int where "OCCAMUST = 7"

definition log_fill :: "SOM \<Rightarrow> som_fill \<Rightarrow> SOM res" where
  "log_fill s f = (if s_db s = None then Inr s else bnd (trunc32 (f_sz f)) (\<lambda>n. Inr (db_action SC_FILL (f_id f) n s)))"

definition count_fill :: "SOM \<Rightarrow> som_fill \<Rightarrow> SOM res" where
  "count_fill s f =
     bnd (nth_res (s_fill_volume s) (uint (f_sym f))) (\<lambda>v. bnd (trunc32 (of_int v + f_sz f)) (\<lambda>v'.
     bnd (upd_at (s_num_fills s) (uint (f_sym f)) 1) (\<lambda>nf.
       Inr (s\<lparr>s_fill_volume := (s_fill_volume s)[nat (uint (f_sym f)) := v'], s_num_fills := nf\<rparr>))))"

definition apply_fill :: "SOM \<Rightarrow> som_fill \<Rightarrow> som_order \<Rightarrow> SOM res" where
  "apply_fill s f ord =
     (if so_canced ord then sngh
      else bnd (fill_order s f ord) (\<lambda>s1. bnd (fill_position s1 f) (\<lambda>s2.
        if s_sim s2 then bnd (get_pnl s2 OCCAMUST) (\<lambda>_. Inr s2) else Inr s2)))"

definition fill_handler :: "SOM \<Rightarrow> som_fill \<Rightarrow> SOM res" where
  "fill_handler s f =
     chk (f_tim f > 0) ''no tim''
      (bnd (log_fill s f) (\<lambda>s1. bnd (count_fill s1 f) (\<lambda>s2. chk (f_sz f > 0) ''invalid fill sz''
        (bnd (asset_chk s2 (uint (f_sym f)) ''no such asset'') (\<lambda>_.
          case s_orders s2 (f_id f) of None \<Rightarrow> Inr s2 | Some ord \<Rightarrow> apply_fill s2 f ord)))))"

section \<open>Control messages\<close>

definition start_handler :: "SOM \<Rightarrow> SOM" where
  "start_handler s =
     (let s1 = (if s_db s = None then s
                else if s_reset s then to_db ResetPositions s
                else fold to_db [GetPosition (int sy) (int t). t \<leftarrow> [0..<trader_num_syms], sy \<leftarrow> [0..<length (s_assets s)]] s)
      in emit [Send b BBBOSub. row \<leftarrow> s_books s1, Some b \<leftarrow> row] s1)"

definition start_trading_handler :: "SOM \<Rightarrow> SOM" where
  "start_trading_handler s = s\<lparr>s_stopped := False\<rparr>"

definition stop_trading_handler :: "visiting \<Rightarrow> SOM \<Rightarrow> SOM res" where
  "stop_trading_handler visit s = cancel_all_orders visit (s\<lparr>s_stopped := True\<rparr>)"

definition exit_handler :: "visiting \<Rightarrow> SOM \<Rightarrow> u32 \<Rightarrow> SOM res" where
  "exit_handler visit s ven =
     chk (\<not> s_sim s) ''not available in sim''
      (bnd (cancel_all_orders visit s) (\<lambda>s1. bnd (nth_res (s_managers s1) (uint ven)) (\<lambda>om. bnd (deref om) (\<lambda>a.
        Inr ((emit [Send a (ExitPos ven)] s1)\<lparr>s_stopped := True\<rparr>)))))"

definition fill_sub_handler :: "SOM \<Rightarrow> actor \<Rightarrow> SOM" where
  "fill_sub_handler s sender = s\<lparr>s_subs := s_subs s @ [sender]\<rparr>"

definition bbbochg_handler :: "SOM \<Rightarrow> int \<Rightarrow> int \<Rightarrow> int \<Rightarrow> u64 \<Rightarrow> SOM res" where
  "bbbochg_handler s sy bb ba tx =
     bnd (nth_res (s_bid s) sy) (\<lambda>_. bnd (nth_res (s_ask s) sy) (\<lambda>_.
       Inr (s\<lparr>s_bid := (s_bid s)[nat sy := bb], s_ask := (s_ask s)[nat sy := ba], s_currtim := tx\<rparr>)))"

definition set_exch_manager_handler :: "SOM \<Rightarrow> u32 \<Rightarrow> actor option \<Rightarrow> SOM res" where
  "set_exch_manager_handler s ven a =
     bnd (nth_res (s_managers s) (uint ven)) (\<lambda>_. Inr (s\<lparr>s_managers := (s_managers s)[nat (uint ven) := a]\<rparr>))"

definition position_response_handler :: "SOM \<Rightarrow> int \<Rightarrow> int \<Rightarrow> int \<Rightarrow> SOM res" where
  "position_response_handler s sy trader p =
     (if p \<noteq> 0
      then bnd (ck32 \<bar>p\<bar>) (\<lambda>sz. add_pos s trader sy \<lparr>trade_type = (if p > 0 then BUY else SEL), trade_price = 0, pe_sz = sz\<rparr>)
      else Inr s)"

definition get_pnl_handler :: "SOM \<Rightarrow> int \<Rightarrow> SOM res" where
  "get_pnl_handler s owner =
     bnd (get_pnl s owner) (\<lambda>rs. bnd (nth_res (s_pos s) owner) (\<lambda>row.
       Inr (emit [Reply (PNL row (map (\<lambda>(t, _, _). t) rs))] s)))"

definition shutdown_handler :: "SOM \<Rightarrow> SOM res" where
  "shutdown_handler s = bnd (get_pnl_all_all s) (\<lambda>_. Inr s)"

section \<open>The console\<close>

definition get_status :: "SOM \<Rightarrow> u32 list" where
  "get_status s =
     (let total = (\<lambda>xs. word_of_int (sum_list xs)) in
      [total (s_fill_volume s), total (s_num_ords s), total (s_num_canc s) - total (s_num_cr s), total (s_num_cr s),
       total (s_num_icnrej s), total (s_num_xorej s), word_of_int (s_num_xcnrej s)])"

definition order_row_of :: "SOM \<Rightarrow> som_order \<Rightarrow> order_row res" where
  "order_row_of s ord =
     bnd (asset_ref s (so_sym ord)) (\<lambda>a.
       Inr (so_ts ord, id_of (word_of_int (so_oid ord)),
            (if so_filled ord then ''FILLED   '' else if so_canced ord then ''CANCELLED''
             else if so_rejed ord then ''REJECTED '' else ''WORKING  ''),
            so_venue ord, a_name a, so_px ord, so_sz ord, so_side ord, so_stbf ord, so_owner ord))"

definition page_of :: "visiting \<Rightarrow> SOM \<Rightarrow> string \<Rightarrow> (string \<Rightarrow> string option) \<Rightarrow> (string \<Rightarrow> int option) \<Rightarrow> page option res" where
  "page_of visit s what kv trader_index =
     (if what = ''pnl'' then
        (case kv ''owner'' of
           None \<Rightarrow> Inr (Some (PgText ''key owner not found''))
         | Some own \<Rightarrow>
             (case trader_index own of
                None \<Rightarrow> Inr (Some (PgText ''invalid owner''))
              | Some owner \<Rightarrow>
                  bnd (get_pnl s owner) (\<lambda>rs.
                  bnd (traverse (\<lambda>i. bnd (asset_chk s (int i) ''must be found'') (\<lambda>a. bnd (get_pos s (int i) owner) (\<lambda>p.
                         Inr (a_name a, p, (case rs ! i of (t, _, _) \<Rightarrow> t))))) [0..<length rs])
                    (\<lambda>rows. Inr (Some (PgPnl rows))))))
      else if what = ''limits'' then
        bnd (traverse (\<lambda>i. bnd (som_asset_of s (int i)) (\<lambda>a. case a of
                 None \<Rightarrow> Inr []
               | Some a' \<Rightarrow> bnd (nth_res (s_size_limit s) (int i)) (\<lambda>sl. Inr [(a_name a', s_pos_limit s ! i, sl)])))
               [0..<length (s_pos_limit s)])
          (\<lambda>rows. Inr (Some (PgLimits (concat rows))))
      else if what = ''status'' then Inr (Some (PgStatus (get_status s)))
      else if what = ''working'' \<or> what = ''orders'' then
        bnd (traverse (\<lambda>k. bnd (deref (s_orders s k)) (\<lambda>ord.
               if what = ''working'' \<and> so_canced ord then Inr None
               else bnd (order_row_of s ord) (\<lambda>r. Inr (Some r)))) (visit (s_orders s)))
          (\<lambda>rows. Inr (Some (PgOrders rows)))
      else Inr None)"

definition get_handler :: "visiting \<Rightarrow> SOM \<Rightarrow> string \<Rightarrow> (string \<Rightarrow> string option) \<Rightarrow> (string \<Rightarrow> int option) \<Rightarrow> SOM res" where
  "get_handler visit s what kv trader_index =
     (if what = ''cancall'' then bnd (cancel_all_orders visit s) (\<lambda>s1. Inr (emit [Reply (Page (PgText ''OK''))] s1))
      else if what = ''readlimits'' then bnd (read_limits s) (\<lambda>s1. Inr (emit [Reply (Page (PgText ''read limits''))] s1))
      else bnd (page_of visit s what kv trader_index) (\<lambda>pg. case pg of
             None \<Rightarrow> Inr s
           | Some g \<Rightarrow> Inr (emit [Reply (Page g)] s)))"

section \<open>The mailbox\<close>

text \<open>The messages for which the constructor registers a handler, and their dispatch.\<close>

datatype som_in =
    InOrder som_order
  | InCancel u32 u64
  | InCancelAck u32 int int
  | InBBBOChg int int int u64
  | InShutdown
  | InCancelReject u32 canc_reason int
  | InFill som_fill
  | InFillSub actor
  | InStop
  | InStart
  | InActorStart
  | InAck u32
  | InReject u32 rej_reason
  | InGetPNL int
  | InUnStash u64
  | InExitPos u32
  | InRiskInfo
  | InGet string "string \<Rightarrow> string option" "string \<Rightarrow> int option"
  | InSetExchManager u32 "actor option"
  | InPositionResponse int int int

definition som_step :: "visiting \<Rightarrow> SOM \<Rightarrow> som_in \<Rightarrow> SOM res" where
  "som_step visit s m =
     (case m of
        InOrder x \<Rightarrow> order_handler s x
      | InCancel i ts \<Rightarrow> canc_handler s i ts
      | InCancelAck i fs sz \<Rightarrow> canc_ack_handler s i fs sz
      | InBBBOChg sy bb ba tx \<Rightarrow> bbbochg_handler s sy bb ba tx
      | InShutdown \<Rightarrow> shutdown_handler s
      | InCancelReject i r st \<Rightarrow> canc_rej_handler s i r st
      | InFill f \<Rightarrow> fill_handler s f
      | InFillSub a \<Rightarrow> Inr (fill_sub_handler s a)
      | InStop \<Rightarrow> stop_trading_handler visit s
      | InStart \<Rightarrow> Inr (start_trading_handler s)
      | InActorStart \<Rightarrow> Inr (start_handler s)
      | InAck i \<Rightarrow> ack_handler s i
      | InReject i r \<Rightarrow> rej_handler s i r
      | InGetPNL ow \<Rightarrow> get_pnl_handler s ow
      | InUnStash _ \<Rightarrow> Inr s
      | InExitPos v \<Rightarrow> exit_handler visit s v
      | InRiskInfo \<Rightarrow> Inr s
      | InGet w kv ti \<Rightarrow> get_handler visit s w kv ti
      | InSetExchManager v a \<Rightarrow> set_exch_manager_handler s v a
      | InPositionResponse sy t p \<Rightarrow> position_response_handler s sy t p)"

fun som_run :: "visiting \<Rightarrow> SOM \<Rightarrow> som_in list \<Rightarrow> SOM res" where
  "som_run visit s [] = Inr s"
| "som_run visit s (m # ms) = bnd (som_step visit s m) (\<lambda>s'. som_run visit s' ms)"

end
