(* ===== verification/Light.thy ===== *)
theory Light
  imports QCoord SOM
begin

text \<open>
  \<open>light::act::light22\<close> (\<open>src/light/include/light/act/light22.hpp\<close>) and its base
  \<open>light22_base\<close> (\<open>light22_base.hpp\<close>): a strategy that works one order at a time. It shadows the
  adds of its own side, or the trades against it, cancels when the order it attached to has gone
  or a limit is breached, and shares with the lights of its side the position in \<open>PCoord\<close> and the
  working orders in \<open>QCoord\<close>.

  The template argument \<open>Side\<close> is the field \<open>l_side\<close>. A handler works on a \<open>desk\<close>: the light, the
  two coordinators and what has been sent. \<open>Order::send\<close> is a fast send and returns the number the
  order manager gives the order, which is the argument \<open>ack\<close> of the handlers. The outputs of
  \<open>std::mt19937\<close> are the sequence \<open>l_rng\<close>. Prices and sizes stay far from the limits of \<open>int\<close>;
  \<open>double\<close> is \<open>real\<close>. \<open>GUNNING_PROTECTION\<close> is defined in no build file, and
  \<open>PLACES_NO_CHECK_CONSTRAINT\<close> is, so a \<open>place\<close> is its value. The visibility groups are 0, as in
  every call of the constructor. Log lines, the dump of the settings and the event counters of
  \<open>PCoord\<close>, which are only logged, are left out.
\<close>

section \<open>State\<close>

record ord_info_t =
  my_ord_id :: int
  my_px :: int
  oi_canc :: bool
  has_value :: bool

definition oi_empty :: ord_info_t where
  "oi_empty = \<lparr>my_ord_id = -1, my_px = -1, oi_canc = False, has_value = False\<rparr>"

definition get_oid :: "ord_info_t \<Rightarrow> int res" where
  "get_oid r = chk (has_value r) ''has_value_'' (Inr (my_ord_id r))"

definition get_px :: "ord_info_t \<Rightarrow> int res" where
  "get_px r = chk (has_value r) ''has_value_'' (Inr (my_px r))"

definition get_canc :: "ord_info_t \<Rightarrow> bool res" where
  "get_canc r = chk (has_value r) ''has_value_'' (Inr (oi_canc r))"

definition reset_or_init :: "int \<Rightarrow> int \<Rightarrow> ord_info_t" where
  "reset_or_init oid px = \<lparr>my_ord_id = oid, my_px = px, oi_canc = False, has_value = True\<rparr>"

text \<open>The test \<open>has_value() && !get_canc()\<close>.\<close>

definition oi_working :: "ord_info_t \<Rightarrow> bool" where
  "oi_working r \<longleftrightarrow> has_value r \<and> \<not> oi_canc r"

datatype side_to_trade_t = LONG | SHORT | BOTH

record position_info =
  pi_position :: int
  pi_last_px :: int
  pi_current_side :: bs

definition PositionInfo :: "int \<Rightarrow> int \<Rightarrow> bs \<Rightarrow> position_info" where
  "PositionInfo pos lpx side =
     \<lparr>pi_position = (if pos < 0 then - pos else pos), pi_last_px = lpx, pi_current_side = side\<rparr>"

record light =
  l_side :: bs
  l_self :: actor
  l_ob :: actor
  l_rm :: "actor option"
  l_owner :: int
  l_ssym :: int
  l_units :: real
  l_max_limit_order_size :: int
  l_md_venue :: u32
  l_trading_venue :: u32
  l_mmid :: int
  l_nlevels :: int
  l_ord_sz :: int
  l_lev_orders_max :: int
  l_all_orders_max :: int
  l_max_dist_for_cap :: int
  l_max_dist :: int
  l_max_dist_cancel :: int
  l_place_after_n_eob :: int
  l_place_rate_bp :: int
  l_place_rate_thresh :: u64
  l_aggr_participation_bp :: int
  l_aggr_participation_thresh :: u64
  l_aggr_ttl_ms :: int
  l_delayed_cancel_events :: int
  l_delayed_cancel_ms :: int
  l_work_multiple :: real
  l_dry_run :: bool
  l_rng :: "nat \<Rightarrow> u32"
  l_rng_pos :: nat
  l_side_to_trade :: side_to_trade_t
  l_delay :: bool
  l_delay_canc :: bool
  l_skip :: int
  l_trading :: bool
  l_orders_suspended :: bool
  l_curr_tx_time :: u64
  l_pending_cancel_eob :: int
  l_num_canc_rej_from_exchange :: int
  l_num_rej_from_exchange :: int
  l_num_canc_rej_unk :: int
  l_unskipped :: int
  l_subs :: "actor list"
  l_targetpos :: int
  l_last_fill_msg :: "(som_fill \<times> u64) list"
  l_position_info :: "position_info option"
  l_cancel_requests :: "int set"
  l_ord_info :: ord_info_t
  l_attached_order_id :: u64
  l_attached_is_trade :: bool
  l_aggr_ttl_oid :: int
  l_aggr_ttl_armed_tx :: u64
  l_eob_counter :: int

datatype set_key = TRADING_ON | TRADING_OFF | DUMP | LEV_ORDERS_MAX | TARGET_POS | SUBSCRIBEONLY

datatype light_out =
    FastSend som_msg
  | SendSom som_msg
  | AlarmClockSub int int int
  | SubFill actor som_fill
  | SubscribeHI actor
  | RegisterLight actor
  | LightInfo int "(som_fill \<times> u64) list"

record desk =
  d_light :: light
  d_q :: QCoord
  d_p :: PCoord
  d_out :: "light_out list"

definition UNSUSPEND :: int where "UNSUSPEND = 1"
definition RESET_LAST_TRADE_PRICE :: int where "RESET_LAST_TRADE_PRICE = 2"
definition DELAYED_CANCEL :: int where "DELAYED_CANCEL = 100"
definition AGGR_TTL :: int where "AGGR_TTL = 101"

abbreviation oi :: "desk \<Rightarrow> ord_info_t" where
  "oi d \<equiv> l_ord_info (d_light d)"

definition upd_light :: "(light \<Rightarrow> light) \<Rightarrow> desk \<Rightarrow> desk" where
  "upd_light f d = d\<lparr>d_light := f (d_light d)\<rparr>"

definition emits :: "light_out list \<Rightarrow> desk \<Rightarrow> desk" where
  "emits ms d = d\<lparr>d_out := d_out d @ ms\<rparr>"

section \<open>Construction\<close>

text \<open>
  The settings of the property tree: \<open>None\<close> where \<open>get\<close> falls back on its default, and where a
  required setting is missing, which throws.
\<close>

record light_pt =
  pt_nlevels :: "int option"
  pt_ord_sz :: "int option"
  pt_lev_orders_max :: "int option"
  pt_max_dist :: "int option"
  pt_max_dist_cancel :: "int option"
  pt_place_after_n_eob :: "int option"
  pt_place_rate_bp :: "int option"
  pt_aggr_ttl_ms :: "int option"
  pt_aggr_participation_bp :: "int option"
  pt_delayed_cancel_ms :: "int option"
  pt_delayed_cancel_events :: "int option"
  pt_work_multiple :: "real option"
  pt_rng_seed :: "u32 option"

definition pt_get :: "'a option \<Rightarrow> 'a res" where
  "pt_get v = (case v of None \<Rightarrow> Inl (Assert ''No such node'') | Some x \<Rightarrow> Inr x)"

definition pt_or :: "'a option \<Rightarrow> 'a \<Rightarrow> 'a" where
  "pt_or v x = (case v of None \<Rightarrow> x | Some y \<Rightarrow> y)"

definition orders_cap :: "int \<Rightarrow> int \<Rightarrow> int \<Rightarrow> int" where
  "orders_cap lev nlev maxd = max (lev * (nlev + 3)) ((maxd + 1) * lev)"

text \<open>A rate in basis points as the number of the \<open>2 ^ 32\<close> draws that are acted on.\<close>

definition rate_thresh :: "int \<Rightarrow> u64" where
  "rate_thresh bp = push_bit 32 (word_of_int (max 0 bp)) div 10000"

definition name_seed :: "u32 \<Rightarrow> string \<Rightarrow> u32" where
  "name_seed seed name = foldl (\<lambda>h c. h * 31 + of_nat (of_char c)) seed name"

definition light_init ::
  "(u32 \<Rightarrow> nat \<Rightarrow> u32) \<Rightarrow> bs \<Rightarrow> actor \<Rightarrow> actor \<Rightarrow> actor option \<Rightarrow> string \<Rightarrow> int \<Rightarrow> int \<Rightarrow> real \<Rightarrow> int \<Rightarrow> u32 \<Rightarrow> u32 \<Rightarrow> int
     \<Rightarrow> light_pt \<Rightarrow> bool \<Rightarrow> light res" where
  "light_init mt19937 side self ob rm name owner ssym units maxord mdv trv mmid pt dry =
     bnd (pt_get (pt_nlevels pt)) (\<lambda>nlev. bnd (pt_get (pt_ord_sz pt)) (\<lambda>osz. bnd (pt_get (pt_lev_orders_max pt)) (\<lambda>lev.
      (let maxd = pt_or (pt_max_dist pt) 4;
           maxc = pt_or (pt_max_dist_cancel pt) (maxd + 2);
           rate = pt_or (pt_place_rate_bp pt) 300;
           aggr = pt_or (pt_aggr_participation_bp pt) 0;
           dms = pt_or (pt_delayed_cancel_ms pt) 0;
           dev = pt_or (pt_delayed_cancel_events pt) 0;
           wm = pt_or (pt_work_multiple pt) 1
       in chk (maxc \<ge> maxd) ''max_dist_cancel < max_dist''
           (chk (\<not> (dms \<noteq> 0 \<and> dev \<noteq> 0)) ''delayed_cancel_ms and delayed_cancel_events are alternatives''
            (chk (wm \<ge> 1) ''work_multiple < 1''
             (Inr \<lparr>l_side = side, l_self = self, l_ob = ob, l_rm = rm, l_owner = owner, l_ssym = ssym, l_units = units,
                l_max_limit_order_size = maxord, l_md_venue = mdv, l_trading_venue = trv, l_mmid = mmid,
                l_nlevels = nlev, l_ord_sz = osz, l_lev_orders_max = lev, l_all_orders_max = orders_cap lev nlev maxd,
                l_max_dist_for_cap = maxd, l_max_dist = maxd, l_max_dist_cancel = maxc,
                l_place_after_n_eob = pt_or (pt_place_after_n_eob pt) 5, l_place_rate_bp = rate,
                l_place_rate_thresh = rate_thresh rate, l_aggr_participation_bp = aggr,
                l_aggr_participation_thresh = rate_thresh aggr, l_aggr_ttl_ms = pt_or (pt_aggr_ttl_ms pt) 1,
                l_delayed_cancel_events = dev, l_delayed_cancel_ms = dms, l_work_multiple = wm, l_dry_run = dry,
                l_rng = mt19937 (name_seed (pt_or (pt_rng_seed pt) 1) name), l_rng_pos = 0,
                l_side_to_trade = BOTH, l_delay = False, l_delay_canc = False, l_skip = 10, l_trading = True,
                l_orders_suspended = False, l_curr_tx_time = 0, l_pending_cancel_eob = 0,
                l_num_canc_rej_from_exchange = 0, l_num_rej_from_exchange = 0, l_num_canc_rej_unk = 0,
                l_unskipped = 0, l_subs = [], l_targetpos = 0, l_last_fill_msg = [], l_position_info = None,
                l_cancel_requests = {}, l_ord_info = oi_empty, l_attached_order_id = 0, l_attached_is_trade = False,
                l_aggr_ttl_oid = -1, l_aggr_ttl_armed_tx = 0, l_eob_counter = 0\<rparr>)))))))"

section \<open>Orders and cancels\<close>

definition light_cancel_order :: "bool \<Rightarrow> desk \<Rightarrow> desk res" where
  "light_cancel_order from_rej d =
     (if \<not> has_value (oi d) then Inr d
      else let d1 = upd_light (\<lambda>l. l\<lparr>l_pending_cancel_eob := 0\<rparr>) d in
        if oi_canc (oi d) then Inr d1
        else
          bnd (get_oid (oi d)) (\<lambda>oid.
            let d2 = upd_light (\<lambda>l. l\<lparr>l_cancel_requests := insert oid (l_cancel_requests l)\<rparr>) d1;
                d3 = (if from_rej then d2
                      else emits [FastSend (CancelOrder (word_of_int oid) (l_curr_tx_time (d_light d)) 0)] d2)
            in bnd (qc_remove_order (d_q d) (my_px (oi d)) 0 (l_mmid (d_light d)) oid True) (\<lambda>(stbf, q).
                 chk (stbf = 0) ''did not remove whole order on canc''
                  (Inr (upd_light (\<lambda>l. l\<lparr>l_ord_info := (l_ord_info l)\<lparr>oi_canc := True\<rparr>\<rparr>) (d3\<lparr>d_q := q\<rparr>))))))"

text \<open>The macro \<open>RET\<close>, and the same test in other handlers.\<close>

definition cancel_if_working :: "desk \<Rightarrow> desk res" where
  "cancel_if_working d = (if oi_working (oi d) then light_cancel_order False d else Inr d)"

definition light_place_order :: "u32 \<Rightarrow> int \<Rightarrow> int \<Rightarrow> u64 \<Rightarrow> desk \<Rightarrow> (int \<times> desk) res" where
  "light_place_order ack price sz0 ts d =
     chk (price > 0) ''bad price'' (chk (sz0 > 0) ''bad size''
      (let l = d_light d;
           sz = (if l_max_limit_order_size l > 0 \<and> sz0 > l_max_limit_order_size l then l_max_limit_order_size l else sz0)
       in bnd (make_order (l_trading_venue l) (l_ssym l) (of_int sz) price (l_side l) (l_owner l) ts (Some (l_self l)))
           (\<lambda>m. chk (\<not> has_value (oi d)) ''order id still has value''
              (bnd (qc_add_order (d_q d) price sz (l_mmid l) (sint ack) (l_lev_orders_max l))
                (\<lambda>q. Inr (sint ack,
                   emits [FastSend (NewOrder m)]
                     (upd_light (\<lambda>l. l\<lparr>l_ord_info := reset_or_init (sint ack) price\<rparr>) (d\<lparr>d_q := q\<rparr>))))))))"

definition compute_diff_from_target :: "desk \<Rightarrow> int" where
  "compute_diff_from_target d = \<bar>position (d_p d) - l_targetpos (d_light d)\<bar>"

definition compute_possible_order_sz :: "desk \<Rightarrow> int \<Rightarrow> int \<Rightarrow> int" where
  "compute_possible_order_sz d at_px payload_sz =
     (let diff = compute_diff_from_target d;
          n = min payload_sz (min (min (l_lev_orders_max (d_light d) - at_px) (l_ord_sz (d_light d))) diff)
      in if at_px \<ge> diff then 0 else n)"

section \<open>Placing\<close>

text \<open>The guards on the position and the side to trade; \<open>None\<close> is the early return that cancels.\<close>

definition at_target :: "desk \<Rightarrow> bool" where
  "at_target d =
     (if l_side (d_light d) = BUY then position (d_p d) \<ge> l_targetpos (d_light d)
      else position (d_p d) \<le> l_targetpos (d_light d))"

definition wrong_side :: "light \<Rightarrow> bool" where
  "wrong_side l \<longleftrightarrow> l_side_to_trade l = LONG \<and> l_side l = SEL \<or> l_side_to_trade l = SHORT \<and> l_side l = BUY"

definition would_cross :: "light \<Rightarrow> payload \<Rightarrow> bool" where
  "would_cross l p =
     (if l_side l = BUY then ask_px (p_point p) ! 0 > 0 \<and> p_px p \<ge> ask_px (p_point p) ! 0
      else bid_px (p_point p) ! 0 > 0 \<and> p_px p \<le> bid_px (p_point p) ! 0)"

definition too_far :: "light \<Rightarrow> payload \<Rightarrow> bool" where
  "too_far l p =
     (if l_side l = BUY then p_px p < bid_px (p_point p) ! 0 - l_max_dist l
      else p_px p > ask_px (p_point p) ! 0 + l_max_dist l)"

text \<open>The rate that decides whether a passive signal is acted on: the new light, and the decision.\<close>

definition rate_gate :: "bool \<Rightarrow> light \<Rightarrow> light \<times> bool" where
  "rate_gate already_gated l =
     (if already_gated then (l, True)
      else if l_place_rate_bp l < 0 then (l, False)
      else if l_place_rate_bp l > 0 then
        (l\<lparr>l_rng_pos := l_rng_pos l + 1\<rparr>, (ucast (l_rng l (l_rng_pos l)) :: u64) < l_place_rate_thresh l)
      else (l\<lparr>l_eob_counter := l_eob_counter l + 1\<rparr>, \<not> l_eob_counter l + 1 < l_place_after_n_eob l))"

definition send_shadow :: "u32 \<Rightarrow> payload \<Rightarrow> bool \<Rightarrow> int \<Rightarrow> desk \<Rightarrow> desk res" where
  "send_shadow ack p already_gated sz d =
     (if l_dry_run (d_light d) then Inr d
      else bnd (light_place_order ack (p_px p) sz (p_txtim_epoch p) d) (\<lambda>(oid, d1).
        if oid < 0 then Inr d1
        else
          (let d2 = upd_light (\<lambda>l. l\<lparr>l_pending_cancel_eob := 0\<rparr>)
                      (d1\<lparr>d_q := set_attached_order_id (d_q d1) (l_attached_order_id (d_light d1))\<rparr>);
               ttl = l_aggr_ttl_ms (d_light d2)
           in Inr (if already_gated \<and> ttl > 0
                   then emits [AlarmClockSub (ttl div 1000) (ttl mod 1000) AGGR_TTL]
                          (upd_light (\<lambda>l. l\<lparr>l_aggr_ttl_oid := oid, l_aggr_ttl_armed_tx := p_txtim_epoch p\<rparr>) d2)
                   else d2))))"

definition attach_and_place :: "u32 \<Rightarrow> payload \<Rightarrow> bool \<Rightarrow> int \<Rightarrow> desk \<Rightarrow> desk res" where
  "attach_and_place ack p already_gated sz d =
     (let d1 = upd_light (\<lambda>l. l\<lparr>l_attached_order_id := p_ex_order_id p, l_attached_is_trade := already_gated\<rparr>) d
      in if p_ex_order_id p \<noteq> 0 \<and> attached_order_id (d_q d1) = p_ex_order_id p then Inr d1
         else
          (let (l, go) = rate_gate already_gated (d_light d1);
               d2 = d1\<lparr>d_light := l\<rparr>
           in if \<not> go then Inr d2
              else send_shadow ack p already_gated sz (upd_light (\<lambda>l. l\<lparr>l_eob_counter := 0\<rparr>) d2)))"

text \<open>Under the coordinator's mutex: the size, checked twice.\<close>

definition size_and_place :: "u32 \<Rightarrow> payload \<Rightarrow> bool \<Rightarrow> int \<Rightarrow> desk \<Rightarrow> desk res" where
  "size_and_place ack p already_gated work_ords d =
     (let diff = compute_diff_from_target d in
      bnd (sz_at_px (d_q d) (p_px p)) (\<lambda>(at_px, q).
        let d1 = d\<lparr>d_q := q\<rparr>; l = d_light d in
        if of_int work_ords \<ge> l_work_multiple l * of_int diff then Inr d1
        else
          chk (l_lev_orders_max l \<ge> 0) ''lev_orders_max must be >= 0''
           (chk (at_px \<ge> 0) ''sz_at_px must be >= 0''
            (let n = min (p_sz p) (min (min (l_lev_orders_max l - at_px) (l_ord_sz l)) diff);
                 possible = (if at_px \<ge> diff then 0 else n)
             in chk (compute_possible_order_sz d1 at_px (p_sz p) = possible) ''possible_ord_sz_2 != possible_ord_sz''
                 (if possible \<le> 0 then Inr d1 else attach_and_place ack p already_gated possible d1)))))"

definition place_if_can_impl :: "u32 \<Rightarrow> payload \<Rightarrow> bool \<Rightarrow> desk \<Rightarrow> desk res" where
  "place_if_can_impl ack p already_gated d =
     (let l = d_light d in
      if p_mkt p \<noteq> l_md_venue l then Inr d
      else if \<not> l_trading l \<and> l_side l = BUY \<and> position (d_p d) \<ge> l_targetpos l then Inr d
      else if \<not> l_trading l \<and> l_side l = SEL \<and> position (d_p d) \<le> l_targetpos l then Inr d
      else if l_delay l then Inr d
      else if at_target d then Inr d
      else if wrong_side l then light_cancel_order False d
      else
       (let work_ords = total_sz (d_q d) in
        if work_ords + l_ord_sz l > l_all_orders_max l then Inr d
        else if \<not> already_gated \<and> would_cross l p then Inr d
        else if too_far l p then Inr d
        else size_and_place ack p already_gated work_ords d))"

section \<open>Cancelling\<close>

definition too_far_from_inside :: "light \<Rightarrow> payload \<Rightarrow> bool res" where
  "too_far_from_inside l p =
     bnd (get_px (l_ord_info l)) (\<lambda>px.
       Inr (if l_side l = BUY then px < bid_px (p_point p) ! 0 - l_max_dist_cancel l
            else px > ask_px (p_point p) ! 0 + l_max_dist_cancel l))"

definition canc_if_must_impl :: "payload \<Rightarrow> bool \<Rightarrow> desk \<Rightarrow> desk res" where
  "canc_if_must_impl p delay_skip d =
     bnd (get_px (oi d)) (\<lambda>px. bnd (sz_at_px (d_q d) px) (\<lambda>(curr_sz, q).
       let d1 = d\<lparr>d_q := q\<rparr>; l = d_light d; pos = position (d_p d) in
       if pos = 0 then light_cancel_order False d1
       else if l_side l = BUY \<and> pos \<ge> l_targetpos l then light_cancel_order False d1
       else if l_side l = SEL \<and> pos \<le> l_targetpos l then light_cancel_order False d1
       else if curr_sz > \<bar>pos - l_targetpos l\<bar> then light_cancel_order False d1
       else chk (curr_sz > 0) ''currsz''
        (if curr_sz > l_lev_orders_max l then light_cancel_order False d1
         else if delay_skip then light_cancel_order False d1
         else bnd (too_far_from_inside l p) (\<lambda>far. if far then light_cancel_order False d1 else Inr d1))))"

section \<open>Market data\<close>

definition p_is_trade :: "payload \<Rightarrow> bool" where
  "p_is_trade p \<longleftrightarrow> p_mev p = MOD \<and> p_action p = EXEC"

definition p_is_canc :: "payload \<Rightarrow> bool" where
  "p_is_canc p \<longleftrightarrow> (p_mev p = MOD \<or> p_mev p = DEL) \<and> (p_action p = CANC \<or> p_action p = CANCD)"

definition attached_gone :: "desk \<Rightarrow> payload \<Rightarrow> bool" where
  "attached_gone d p \<longleftrightarrow> oi_working (oi d) \<and> \<not> l_attached_is_trade (d_light d)
     \<and> p_ex_order_id p = l_attached_order_id (d_light d) \<and> l_attached_order_id (d_light d) \<noteq> 0"

definition detach :: "desk \<Rightarrow> desk res" where
  "detach d =
     (let d1 = upd_light (\<lambda>l. l\<lparr>l_attached_order_id := 0, l_attached_is_trade := False\<rparr>) d; l = d_light d in
      if l_delayed_cancel_events l > 0
      then Inr (upd_light (\<lambda>l. l\<lparr>l_pending_cancel_eob := l_delayed_cancel_events l\<rparr>) d1)
      else if l_delayed_cancel_ms l > 0
      then Inr (emits [AlarmClockSub (l_delayed_cancel_ms l div 1000) (l_delayed_cancel_ms l mod 1000) DELAYED_CANCEL] d1)
      else cancel_if_working d1)"

text \<open>The countdown of a deferred cancel, then the number of bursts still to be skipped.\<close>

definition tick_pending :: "desk \<Rightarrow> desk res" where
  "tick_pending d =
     (let n = l_pending_cancel_eob (d_light d) in
      if n > 0
      then (let d1 = upd_light (\<lambda>l. l\<lparr>l_pending_cancel_eob := n - 1\<rparr>) d
            in if n - 1 = 0 then cancel_if_working d1 else Inr d1)
      else Inr d)"

definition on_signal :: "u32 \<Rightarrow> payload \<Rightarrow> desk \<Rightarrow> desk res" where
  "on_signal ack p d =
     (if attached_gone d p then detach d
      else if \<not> has_value (oi d) \<and> p_mev p = ADD \<and> p_side p = l_side (d_light d)
      then place_if_can_impl ack p False (upd_light (\<lambda>l. l\<lparr>l_unskipped := l_unskipped l + 1\<rparr>) d)
      else if oi_working (oi d) \<and> p_is_canc p then canc_if_must_impl p (l_delay_canc (d_light d)) d
      else Inr d)"

definition eob_handler :: "(int \<Rightarrow> bool) \<Rightarrow> u32 \<Rightarrow> payload \<Rightarrow> desk \<Rightarrow> desk res" where
  "eob_handler known ack p d0 =
     (if \<not> known (pt_sym (p_point p)) then Inl (Undefined ''null dereference'')
      else let d = upd_light (\<lambda>l. l\<lparr>l_curr_tx_time := p_txtim_epoch p\<rparr>) d0 in
       bnd (p_is_valid p) (\<lambda>_. chk (\<not> p_recovery p) ''cant be recovery''
        (if p_mkt p \<noteq> l_md_venue (d_light d) then Inr d
         else bnd (tick_pending d) (\<lambda>d1.
           if l_skip (d_light d1) > 0 then cancel_if_working (upd_light (\<lambda>l. l\<lparr>l_skip := l_skip l - 1\<rparr>) d1)
           else let d2 = upd_light (\<lambda>l. l\<lparr>l_skip := 0\<rparr>) d1 in
             chk (p_action p \<noteq> EXEC) ''cannot be exec''
              (if baddata (p_point p) \<or> p_mev p = CLEAR then cancel_if_working d2
               else on_signal ack p d2)))))"

definition tradenotify_handler :: "u32 \<Rightarrow> payload option \<Rightarrow> desk \<Rightarrow> desk res" where
  "tradenotify_handler ack m d =
     (let l = d_light d in
      if l_aggr_participation_bp l \<le> 0 then Inr d
      else case m of None \<Rightarrow> Inr d
      | Some p \<Rightarrow>
          if p_mkt p \<noteq> l_md_venue l \<or> has_value (oi d) then Inr d
          else if l_side l = BUY \<and> \<not> (p_is_trade p \<and> p_side p = SEL) then Inr d
          else if l_side l = SEL \<and> \<not> (p_is_trade p \<and> p_side p = BUY) then Inr d
          else
           (let draw = (ucast (l_rng l (l_rng_pos l)) :: u64);
                d1 = upd_light (\<lambda>l. l\<lparr>l_rng_pos := l_rng_pos l + 1\<rparr>) d
            in if draw \<ge> l_aggr_participation_thresh l then Inr d1
               else place_if_can_impl ack p True d1))"

definition clear_handler :: "desk \<Rightarrow> desk res" where
  "clear_handler d = bnd (light_cancel_order False d) (\<lambda>d1. Inr (upd_light (\<lambda>l. l\<lparr>l_skip := 10\<rparr>) d1))"

section \<open>Timers\<close>

definition old_enough :: "light \<Rightarrow> u64 \<Rightarrow> bool" where
  "old_enough l now \<longleftrightarrow> l_aggr_ttl_armed_tx l > 0 \<and> now > l_aggr_ttl_armed_tx l
     \<and> now - l_aggr_ttl_armed_tx l \<ge> word_of_int (l_aggr_ttl_ms l) * 1000000"

definition alarm_handler_impl :: "int \<Rightarrow> u64 \<Rightarrow> desk \<Rightarrow> (bool \<times> desk) res" where
  "alarm_handler_impl timer_id now d =
     (let l = d_light d; d1 = upd_light (\<lambda>l. l\<lparr>l_curr_tx_time := now\<rparr>) d in
      if timer_id = AGGR_TTL then
        (if oi_working (oi d) \<and> my_ord_id (oi d) = l_aggr_ttl_oid l \<and> old_enough l now
         then bnd (light_cancel_order False d1) (\<lambda>d2. Inr (True, d2)) else Inr (True, d))
      else if timer_id = DELAYED_CANCEL then
        (if oi_working (oi d) then bnd (light_cancel_order False d1) (\<lambda>d2. Inr (True, d2)) else Inr (True, d))
      else Inr (False, d))"

definition alarm_handler :: "int \<Rightarrow> u64 \<Rightarrow> desk \<Rightarrow> desk res" where
  "alarm_handler timer_id now d =
     (if timer_id = UNSUSPEND then Inr (upd_light (\<lambda>l. l\<lparr>l_orders_suspended := False\<rparr>) d)
      else if timer_id = RESET_LAST_TRADE_PRICE
      then bnd (set_last_trade_px (d_p d) 0 (l_side (d_light d))) (\<lambda>pc. Inr (d\<lparr>d_p := pc\<rparr>))
      else bnd (alarm_handler_impl timer_id now d) (\<lambda>(_, d1). Inr d1))"

definition suspend_orders :: "int \<Rightarrow> int \<Rightarrow> desk \<Rightarrow> desk" where
  "suspend_orders s ms d = emits [AlarmClockSub s ms UNSUSPEND] (upd_light (\<lambda>l. l\<lparr>l_orders_suspended := True\<rparr>) d)"

section \<open>Answers of the order manager\<close>

abbreviation set_skip :: "int \<Rightarrow> desk \<Rightarrow> desk" where
  "set_skip n \<equiv> upd_light (\<lambda>l. l\<lparr>l_skip := n\<rparr>)"

abbreviation clear_ord :: "desk \<Rightarrow> desk" where
  "clear_ord \<equiv> upd_light (\<lambda>l. l\<lparr>l_ord_info := oi_empty\<rparr>)"

definition resend_cancel :: "u32 \<Rightarrow> desk \<Rightarrow> desk" where
  "resend_cancel i d = emits [SendSom (CancelOrder i (l_curr_tx_time (d_light d)) 0)] d"

definition som_cancrej_handler :: "u32 \<Rightarrow> canc_reason \<Rightarrow> desk \<Rightarrow> desk res" where
  "som_cancrej_handler i reason d =
     (if reason = CR_NOTACKED then light_cancel_order True (set_skip 50 d)
      else if reason = CR_INTERNALOIDTOCANC \<or> reason = CR_REJECTONMOD then Inr (resend_cancel i (set_skip 50 d))
      else if reason = CR_FILLEDALREADY \<or> reason = CR_CANCELLEDALREADY \<or> reason = CR_REJECTEDPREVIOUSLY then Inr d
      else if reason = CR_FROMEXCHANGE \<or> reason = CR_FROMEXCHANGE_BUSINESSREJECT then
        bnd (get_oid (oi d)) (\<lambda>oid.
          let d1 = (if sint i = oid then clear_ord d else d); n = l_num_canc_rej_from_exchange (d_light d);
              d2 = upd_light (\<lambda>l. l\<lparr>l_num_canc_rej_from_exchange := n + 1\<rparr>) d1
          in Inr (if n > 500 then set_skip 1000 d2 else d2))
      else if reason = CR_THROTTLE then Inr (resend_cancel i (set_skip 1000 d))
      else
        bnd (get_oid (oi d)) (\<lambda>oid.
          let d1 = (if sint i = oid then clear_ord d else set_skip 100 d); n = l_num_canc_rej_unk (d_light d);
              d2 = upd_light (\<lambda>l. l\<lparr>l_num_canc_rej_unk := n + 1\<rparr>) d1
          in Inr (if n > 100 then set_skip 1000 d2 else d2)))"

definition reject_pause :: "rej_reason \<Rightarrow> desk \<Rightarrow> desk" where
  "reject_pause reason d =
     (if reason = RJ_THROTTLE
      then suspend_orders 0 500 (set_skip 50 (upd_light (\<lambda>l. l\<lparr>l_num_rej_from_exchange := 0\<rparr>) d))
      else if reason = RJ_EXCHLIMIT then suspend_orders 0 500 (set_skip 50 d)
      else if reason = RJ_DISCONNECTED then suspend_orders 5 0 (set_skip 100 d)
      else set_skip 5 d)"

definition som_reject_handler :: "u32 \<Rightarrow> rej_reason \<Rightarrow> desk \<Rightarrow> desk res" where
  "som_reject_handler i reason d =
     bnd (if has_value (oi d)
          then bnd (qc_remove_order (d_q d) (my_px (oi d)) 0 (l_mmid (d_light d)) (my_ord_id (oi d)) True)
                 (\<lambda>(_, q). Inr (d\<lparr>d_q := q\<rparr>))
          else Inr d)
      (\<lambda>d1. let d2 = clear_ord (reject_pause reason d1); n = l_num_rej_from_exchange (d_light d2);
                d3 = upd_light (\<lambda>l. l\<lparr>l_num_rej_from_exchange := n + 1\<rparr>) d2
            in Inr (if n > 100 then set_skip 1000 d3 else d3))"

definition book_fill :: "som_fill \<Rightarrow> desk \<Rightarrow> desk res" where
  "book_fill m d =
     (if has_value (oi d) \<and> sint (f_id m) = my_ord_id (oi d) \<and> \<not> oi_canc (oi d)
      then bnd (trunc32 (f_sz m)) (\<lambda>sz.
             bnd (qc_remove_order (d_q d) (my_px (oi d)) sz (l_mmid (d_light d)) (sint (f_id m)) False)
               (\<lambda>(_, q). Inr (d\<lparr>d_q := q\<rparr>)))
      else Inr d)"

definition som_fill_handler :: "som_fill \<Rightarrow> desk \<Rightarrow> desk res" where
  "som_fill_handler m d =
     bnd (trunc32 (of_int (f_px m) * l_units (d_light d))) (\<lambda>last_px.
     bnd (set_last_trade_px (d_p d) last_px (f_side m)) (\<lambda>pc.
     bnd (book_fill m (d\<lparr>d_p := pc\<rparr>)) (\<lambda>d1.
     bnd (trunc32 (f_sz m)) (\<lambda>sz.
     bnd (add_position (d_p d1) (l_side (d_light d1)) sz) (\<lambda>pc1.
     chk (f_stbf m \<ge> 0) ''single order overfill''
      (let d2 = d1\<lparr>d_p := pc1\<rparr>; d3 = (if f_stbf m \<le> 0 then clear_ord d2 else d2) in
       Inr (emits (map (\<lambda>s. SubFill s m) (l_subs (d_light d3)))
              (upd_light (\<lambda>l. l\<lparr>l_last_fill_msg := l_last_fill_msg l @ [(m, l_curr_tx_time l)]\<rparr>) d3))))))))"

definition som_canc_ack_handler :: "u32 \<Rightarrow> desk \<Rightarrow> desk res" where
  "som_canc_ack_handler i d =
     chk (has_value (oi d)) ''got canc ack but ord_info has no value''
      (bnd (if sint i \<in> l_cancel_requests (d_light d)
            then Inr (upd_light (\<lambda>l. l\<lparr>l_cancel_requests := l_cancel_requests l - {sint i}\<rparr>) d)
            else bnd (qc_remove_order (d_q d) (my_px (oi d)) 0 (l_mmid (d_light d)) (my_ord_id (oi d)) True)
                   (\<lambda>(_, q). Inr (d\<lparr>d_q := q\<rparr>)))
        (\<lambda>d1. Inr (if sint i = my_ord_id (oi d1) then clear_ord d1 else d1)))"

section \<open>Settings and the messages of the actor\<close>

definition trading_off :: "desk \<Rightarrow> desk res" where
  "trading_off d = cancel_if_working (upd_light (\<lambda>l. l\<lparr>l_trading := False\<rparr>) d)"

definition add_sub :: "actor \<Rightarrow> actor list \<Rightarrow> actor list" where
  "add_sub a subs = (if a \<in> set subs then subs else insort a subs)"

definition light_set_handler :: "set_key \<Rightarrow> real \<Rightarrow> actor option \<Rightarrow> desk \<Rightarrow> desk res" where
  "light_set_handler key dval sender d =
     (case key of
        SUBSCRIBEONLY \<Rightarrow>
          (case sender of None \<Rightarrow> Inl (Assert ''no sender'')
           | Some a \<Rightarrow> Inr (upd_light (\<lambda>l. l\<lparr>l_subs := add_sub a (l_subs l)\<rparr>) d))
      | TARGET_POS \<Rightarrow> bnd (trunc32 (of_int (round_away dval))) (\<lambda>n. Inr (upd_light (\<lambda>l. l\<lparr>l_targetpos := n\<rparr>) d))
      | LEV_ORDERS_MAX \<Rightarrow>
          bnd (trunc32 (of_int (round_away dval))) (\<lambda>n.
            Inr (upd_light (\<lambda>l. l\<lparr>l_lev_orders_max := n, l_ord_sz := n,
                   l_all_orders_max := orders_cap n (l_nlevels l) (l_max_dist_for_cap l)\<rparr>) d))
      | TRADING_OFF \<Rightarrow> trading_off d
      | TRADING_ON \<Rightarrow> Inr (upd_light (\<lambda>l. l\<lparr>l_trading := True\<rparr>) d)
      | DUMP \<Rightarrow> Inr d)"

definition light_start :: "desk \<Rightarrow> desk" where
  "light_start d =
     (let l = d_light d in
      emits ([SubscribeHI (l_ob l)] @ (case l_rm l of None \<Rightarrow> [] | Some _ \<Rightarrow> [RegisterLight (l_self l)])) d)"

datatype light_msg =
    LM_Start
  | LM_EndOfBurst payload
  | LM_TradeNotify "payload option"
  | LM_GapDetected
  | LM_Clear
  | LM_Alarm int u64
  | LM_Set set_key real "actor option"
  | LM_LightStart
  | LM_LightStop
  | LM_CancAck u32
  | LM_Fill som_fill
  | LM_Reject u32 rej_reason
  | LM_CancReject u32 canc_reason
  | LM_GetLightInfo
  | LM_PositionInfo position_info
  | LM_Shutdown

fun light_handle :: "(int \<Rightarrow> bool) \<Rightarrow> u32 \<Rightarrow> light_msg \<Rightarrow> desk \<Rightarrow> desk res" where
  "light_handle known ack LM_Start d = Inr (light_start d)"
| "light_handle known ack (LM_EndOfBurst p) d = eob_handler known ack p d"
| "light_handle known ack (LM_TradeNotify m) d = tradenotify_handler ack m d"
| "light_handle known ack LM_GapDetected d = cancel_if_working d"
| "light_handle known ack LM_Clear d = clear_handler d"
| "light_handle known ack (LM_Alarm i now) d = alarm_handler i now d"
| "light_handle known ack (LM_Set key v a) d = light_set_handler key v a d"
| "light_handle known ack LM_LightStart d = Inr (upd_light (\<lambda>l. l\<lparr>l_trading := True\<rparr>) d)"
| "light_handle known ack LM_LightStop d = Inr (upd_light (\<lambda>l. l\<lparr>l_trading := False\<rparr>) d)"
| "light_handle known ack (LM_CancAck i) d = som_canc_ack_handler i d"
| "light_handle known ack (LM_Fill m) d = som_fill_handler m d"
| "light_handle known ack (LM_Reject i r) d = som_reject_handler i r d"
| "light_handle known ack (LM_CancReject i r) d = som_cancrej_handler i r d"
| "light_handle known ack LM_GetLightInfo d = Inr (emits [LightInfo (position (d_p d)) (l_last_fill_msg (d_light d))] d)"
| "light_handle known ack (LM_PositionInfo pinf) d = Inr (upd_light (\<lambda>l. l\<lparr>l_position_info := Some pinf\<rparr>) d)"
| "light_handle known ack LM_Shutdown d = Inr d"

end
