(* ===== verification/Light_Bank.thy ===== *)
theory Light_Bank
  imports Light
begin

text \<open>
  A bank of lights on one side of an instrument: they share a \<open>QCoord\<close>, each under a bit of its
  own, and a \<open>PCoord\<close> that others move as well. As long as the order manager answers for the
  order a light has, the coordinator holds exactly the orders the lights are working and no
  assertion of a light or of the coordinator fails. The last part shows what happens otherwise.
\<close>

section \<open>What the coordinator holds for a light\<close>

definition idle :: "QCoord \<Rightarrow> int \<Rightarrow> bool" where
  "idle q k \<longleftrightarrow> \<not> bit (mmid_orders q) (nat k) \<and> (\<forall>px. \<not> works q k px)"

definition booked :: "QCoord \<Rightarrow> int \<Rightarrow> ord_info_t \<Rightarrow> bool" where
  "booked q k r \<longleftrightarrow>
     (if oi_working r
      then int32 (my_px r) \<and> bit (mmid_orders q) (nat k) \<and> (\<forall>px. works q k px \<longrightarrow> px = my_px r)
        \<and> (\<exists>sz. fm_find (level_of q (my_px r)) k = Some \<lparr>q_id = my_ord_id r, q_sz = sz\<rparr>)
      else idle q k)"

text \<open>\<open>others k q q'\<close>: nothing changed but for light \<open>k\<close>.\<close>

definition others :: "int \<Rightarrow> QCoord \<Rightarrow> QCoord \<Rightarrow> bool" where
  "others k q q' \<longleftrightarrow> (\<forall>j. j \<noteq> k \<longrightarrow> (\<forall>px. fm_find (level_of q' px) j = fm_find (level_of q px) j)
     \<and> (0 \<le> j \<longrightarrow> j < kMaxMmid \<longrightarrow> bit (mmid_orders q') (nat j) = bit (mmid_orders q) (nat j)))"

lemma others_refl [simp]: "others k q q"
  by (simp add: others_def)

lemma others_trans: "others k q q' \<Longrightarrow> others k q' q'' \<Longrightarrow> others k q q''"
  by (simp add: others_def)

lemma others_booked:
  "others k q q' \<Longrightarrow> j \<noteq> k \<Longrightarrow> 0 \<le> j \<Longrightarrow> j < kMaxMmid \<Longrightarrow> booked q' j r = booked q j r"
  by (simp add: others_def booked_def idle_def works_def)

lemma booked_same_levels:
  assumes "px_mmid_ord q' = px_mmid_ord q" "mmid_orders q' = mmid_orders q"
  shows "booked q' k r = booked q k r" "others k q q'"
  using assms level_of_cong [OF assms(1)] by (simp_all add: booked_def idle_def works_def others_def)

lemma booked_idle: "\<not> oi_working r \<Longrightarrow> booked q k r = idle q k"
  by (simp add: booked_def)

lemma sum_sz_nonneg: "inner_ok m \<Longrightarrow> 0 \<le> sum_sz m"
  unfolding sum_sz_eq inner_ok_def by (rule sum_list_nonneg) fastforce

lemma booked_rest_pos:
  assumes "qc_inv q" "fm_find (level_of q px) k = Some \<lparr>q_id = i, q_sz = sz\<rparr>"
  shows "0 < sz" "sz \<le> size_at q px"
proof -
  have ok: "inner_ok (level_of q px)"
    by (rule level_of_ok [OF assms(1)])
  then show "0 < sz"
    using fm_find_mem [OF assms(2)] by (force simp: inner_ok_def)
  have "sum_sz (fm_erase k (level_of q px)) \<ge> 0"
    by (rule sum_sz_nonneg [OF inner_erase(1) [OF ok]])
  then show "sz \<le> size_at q px"
    using inner_erase(2) [OF ok, of k] assms(2) by (simp add: size_at_level)
qed

lemma size_at_nonneg: "qc_inv q \<Longrightarrow> 0 \<le> size_at q px"
  using sum_sz_nonneg [OF level_of_ok] by (simp add: size_at_level)

section \<open>The three operations of a light on the coordinator\<close>

lemma erased:
  assumes "qc_inv q" "0 \<le> k" "px_mmid_ord q' = fm_put px (fm_erase k (level_of q px)) (px_mmid_ord q)"
    "mmid_orders q' = unset_bit (nat k) (mmid_orders q)" "\<forall>p. works q k p \<longrightarrow> p = px"
  shows "idle q' k" "others k q q'"
proof -
  have l: "level_of q' p = (if p = px then fm_erase k (level_of q p) else level_of q p)" for p
    using level_of_put [OF assms(1,3)] by simp
  have f: "fm_find (level_of q' p) j = (if j = k then None else fm_find (level_of q p) j)" for p j
    using assms(5) by (auto simp: l fm_find_erase works_def)
  show "idle q' k"
    unfolding idle_def works_def by (simp add: f assms(4))
  show "others k q q'"
    unfolding others_def using f assms(2) by (auto simp: assms(4) eq_nat_nat_iff)
qed

lemma remove_all_ok:
  assumes "qc_inv q" "0 \<le> k" "k < kMaxMmid" "booked q k r"
  shows "\<exists>q'. qc_remove_order q (my_px r) 0 k (my_ord_id r) True = Inr (0, q') \<and> qc_inv q' \<and> idle q' k \<and> others k q q'"
proof (cases "oi_working r")
  case False
  then show ?thesis
    using assms by (intro exI [of _ q]) (auto simp: booked_def idle_def qc_remove_order_def)
next
  case True
  then obtain sz where b: "bit (mmid_orders q) (nat k)" "\<forall>px. works q k px \<longrightarrow> px = my_px r"
    "fm_find (level_of q (my_px r)) k = Some \<lparr>q_id = my_ord_id r, q_sz = sz\<rparr>"
    using assms(4) by (auto simp: booked_def)
  have lv: "fm_find (px_mmid_ord q) (my_px r) = Some (level_of q (my_px r))"
    using b(3) by (auto simp: level_of_def split: option.splits)
  obtain x q' where rm: "qc_remove_order q (my_px r) 0 k (my_ord_id r) True = Inr (x, q')"
    using b lv assms(2,3) booked_rest_pos(1) [OF assms(1) b(3)] by (auto simp: qc_remove_order_def Let_def)
  have inv: "qc_inv q'"
    by (rule qc_remove_order_inv [OF assms(1) rm])
  show ?thesis
    using rm
  proof (cases rule: qc_remove_order_cases)
    case noop
    then show ?thesis
      using b(1) assms(2,3) by auto
  next
    case (gone o2)
    then show ?thesis
      using rm inv gone(4) erased [OF assms(1,2) gone(5,9) b(2)] by auto
  next
    case (part o2)
    then show ?thesis
      by simp
  qed
qed

lemma remove_fill_ok:
  assumes "qc_inv q" "0 \<le> k" "k < kMaxMmid" "booked q k r" "oi_working r"
    "fm_find (level_of q (my_px r)) k = Some \<lparr>q_id = my_ord_id r, q_sz = rest\<rparr>" "0 < sz" "sz \<le> rest"
  shows "\<exists>x q'. qc_remove_order q (my_px r) sz k (my_ord_id r) False = Inr (x, q') \<and> qc_inv q' \<and> others k q q'
     \<and> (if sz = rest then idle q' k else booked q' k r)"
proof -
  have b: "int32 (my_px r)" "bit (mmid_orders q) (nat k)" "\<forall>px. works q k px \<longrightarrow> px = my_px r"
    using assms(4,5) by (auto simp: booked_def)
  have lv: "fm_find (px_mmid_ord q) (my_px r) = Some (level_of q (my_px r))"
    using assms(6) by (auto simp: level_of_def split: option.splits)
  obtain x q' where rm: "qc_remove_order q (my_px r) sz k (my_ord_id r) False = Inr (x, q')"
    using b lv assms by (cases "rest = sz") (auto simp: qc_remove_order_def Let_def)
  have inv: "qc_inv q'"
    by (rule qc_remove_order_inv [OF assms(1) rm])
  show ?thesis
    using rm
  proof (cases rule: qc_remove_order_cases)
    case noop
    then show ?thesis
      using b(2) assms(2,3) by auto
  next
    case (gone o2)
    then have "sz = rest"
      using assms(6) by (cases o2) simp
    then show ?thesis
      using rm inv erased [OF assms(1,2) gone(5,9) b(3)] by auto
  next
    case (part o2)
    have l: "level_of q' px = (if px = my_px r then fm_put k \<lparr>q_id = my_ord_id r, q_sz = q_sz o2 - sz\<rparr> (level_of q px)
               else level_of q px)" for px
      using level_of_put [OF assms(1) part(6)] by simp
    have f: "fm_find (level_of q' px) j =
        (if j = k \<and> px = my_px r then Some \<lparr>q_id = my_ord_id r, q_sz = q_sz o2 - sz\<rparr> else fm_find (level_of q px) j)" for px j
      using level_of_ok [OF assms(1), of px] by (auto simp: l fm_find_put inner_ok_def)
    have "booked q' k r"
      unfolding booked_def works_def using f b assms(5) part(10) by (auto simp: works_def)
    moreover have "others k q q'"
      unfolding others_def using f part(10) by simp
    moreover have "sz \<noteq> rest"
      using part(1,4) assms(6) by (cases o2) simp
    ultimately show ?thesis
      using rm inv by auto
  qed
qed

lemma add_ok:
  assumes "qc_inv q" "0 \<le> k" "k < kMaxMmid" "idle q k" "int32 px" "0 < sz" "size_at q px + sz \<le> mx"
  shows "\<exists>q'. qc_add_order q px sz k oid mx = Inr q' \<and> qc_inv q' \<and> booked q' k (reset_or_init oid px) \<and> others k q q'
     \<and> total_sz q' = total_sz q + sz \<and> size_at q' px = size_at q px + sz"
proof -
  note ok = level_of_ok [OF assms(1), of px]
  have free: "fm_find (level_of q px) k = None" for px
    using assms(4) by (simp add: idle_def works_def)
  have mx: "mx > 0" "size_at q px \<le> mx"
    using size_at_nonneg [OF assms(1), of px] assms(6,7) by auto
  have hit: "v \<le> mx" if "cache_sz_at_px q (px_key px) = Some v" for v
    using that assms(1,5) mx(2) by (auto simp: qc_inv_def)
  have new: "sum_sz (fm_put k \<lparr>q_id = oid, q_sz = sz\<rparr> (level_of q px)) = size_at q px + sz"
    using inner_put(2) [OF ok assms(6), of k oid] free by (simp add: size_at_level)
  let ?m = "fm_put px (fm_put k \<lparr>q_id = oid, q_sz = sz\<rparr> (level_of q px)) (px_mmid_ord q)"
  have found: "fm_find ?m px = Some (fm_put k \<lparr>q_id = oid, q_sz = sz\<rparr> (level_of q px))"
    using assms(1) by (simp add: fm_find_put qc_inv_def)
  have inner: "(case fm_find (px_mmid_ord q) px of
         Some inner \<Rightarrow> chk (fm_find inner k = None) ''already have this mm id'' (Inr (fm_put px (fm_put k \<lparr>q_id = oid, q_sz = sz\<rparr> inner) (px_mmid_ord q)))
       | None \<Rightarrow> Inr (fm_put px (fm_put k \<lparr>q_id = oid, q_sz = sz\<rparr> []) (px_mmid_ord q))) = Inr ?m"
    using free [of px] by (auto simp: level_of_def split: option.splits)
  obtain q' where add: "qc_add_order q px sz k oid mx = Inr q'"
    using assms(2,3,6,7) mx hit new found
    unfolding qc_add_order_def inner
    by (cases "cache_sz_at_px q (px_key px)") (auto simp: cache_insert_def sz_at_px_def cache_get_def Let_def)
  note a = qc_add_order_cases [OF add]
  have l: "level_of q' p = (if p = px then fm_put k \<lparr>q_id = oid, q_sz = sz\<rparr> (level_of q p) else level_of q p)" for p
    using level_of_put [OF assms(1) a(5)] by simp
  have f: "fm_find (level_of q' p) j = (if j = k \<and> p = px then Some \<lparr>q_id = oid, q_sz = sz\<rparr> else fm_find (level_of q p) j)" for p j
    using level_of_ok [OF assms(1), of p] by (auto simp: l fm_find_put inner_ok_def)
  have "booked q' k (reset_or_init oid px)"
    unfolding booked_def works_def using f free assms(2,3,5) by (auto simp: reset_or_init_def oi_working_def a(9))
  moreover have "others k q q'"
    unfolding others_def using f assms(2) by (auto simp: a(9))
  moreover have "total_sz q' = total_sz q + sz"
    by (simp add: total_sz_def a(8))
  moreover have "size_at q' px = size_at q px + sz"
    using new by (simp add: size_at_level l)
  ultimately show ?thesis
    using add qc_add_order_inv [OF assms(1) add] by blast
qed

section \<open>One light\<close>

definition desk_ok :: "desk \<Rightarrow> bool" where
  "desk_ok d \<longleftrightarrow> qc_inv (d_q d) \<and> 0 \<le> l_mmid (d_light d) \<and> l_mmid (d_light d) < kMaxMmid
     \<and> booked (d_q d) (l_mmid (d_light d)) (oi d) \<and> (l_side (d_light d) = BUY \<or> l_side (d_light d) = SEL)
     \<and> 0 \<le> l_lev_orders_max (d_light d)"

text \<open>The fields of a light its place in a bank depends on.\<close>

definition core_eq :: "light \<Rightarrow> light \<Rightarrow> bool" where
  "core_eq l l' \<longleftrightarrow> l_ord_info l' = l_ord_info l \<and> l_mmid l' = l_mmid l \<and> l_side l' = l_side l
     \<and> l_lev_orders_max l' = l_lev_orders_max l"

lemma desk_ok_core:
  assumes "core_eq (d_light d) (d_light d')" "d_q d' = d_q d"
  shows "desk_ok d' = desk_ok d"
  using assms by (simp add: desk_ok_def core_eq_def)

definition stays :: "desk \<Rightarrow> desk \<Rightarrow> bool" where
  "stays d d' \<longleftrightarrow> l_mmid (d_light d') = l_mmid (d_light d) \<and> others (l_mmid (d_light d)) (d_q d) (d_q d')"

lemma stays_refl [simp]: "stays d d"
  by (simp add: stays_def)

lemma stays_trans: "stays d d' \<Longrightarrow> stays d' d'' \<Longrightarrow> stays d d''"
  by (auto simp: stays_def intro: others_trans)

text \<open>\<open>fine d r\<close>: the handler started in \<open>d\<close> returns, in a state that is ok, and touches nothing of the other lights.\<close>

definition fine :: "desk \<Rightarrow> desk res \<Rightarrow> bool" where
  "fine d r \<longleftrightarrow> (\<exists>d'. r = Inr d' \<and> desk_ok d' \<and> stays d d')"

lemma fine_Inr [simp]: "fine d (Inr d') \<longleftrightarrow> desk_ok d' \<and> stays d d'"
  by (simp add: fine_def)

lemma fine_bnd: "fine d r \<Longrightarrow> (\<And>d'. desk_ok d' \<Longrightarrow> stays d d' \<Longrightarrow> fine d' (f d')) \<Longrightarrow> fine d (bnd r f)"
  unfolding fine_def by (metis bnd_Inr stays_trans)

lemma fine_from: "stays d d1 \<Longrightarrow> fine d1 r \<Longrightarrow> fine d r"
  by (auto simp: fine_def intro: stays_trans)

lemma fine_core: "fine d1 r \<Longrightarrow> core_eq (d_light d) (d_light d1) \<Longrightarrow> d_q d1 = d_q d \<Longrightarrow> fine d r"
  by (rule fine_from [of d d1]) (simp_all add: stays_def core_eq_def)

lemma fine_skip: "desk_ok d \<Longrightarrow> core_eq (d_light d) (d_light d1) \<Longrightarrow> d_q d1 = d_q d \<Longrightarrow> fine d (Inr d1)"
  using desk_ok_core [of d d1] by (simp add: stays_def core_eq_def)

lemmas light_core_simps = core_eq_def upd_light_def emits_def

lemma upd_light_sel [simp]:
  "d_light (upd_light f d) = f (d_light d)" "d_q (upd_light f d) = d_q d" "d_p (upd_light f d) = d_p d" "d_out (upd_light f d) = d_out d"
  by (simp_all add: upd_light_def)

lemma emits_sel [simp]:
  "d_light (emits ms d) = d_light d" "d_q (emits ms d) = d_q d" "d_p (emits ms d) = d_p d" "d_out (emits ms d) = d_out d @ ms"
  by (simp_all add: emits_def)

lemma core_eq_refl [simp]: "core_eq l l"
  by (simp add: core_eq_def)

lemma core_eq_upds [simp]:
  "core_eq l (l\<lparr>l_attached_order_id := i, l_attached_is_trade := g\<rparr>)" "core_eq l (l\<lparr>l_pending_cancel_eob := n\<rparr>)"
  "core_eq l (l\<lparr>l_unskipped := n\<rparr>)" "core_eq l (l\<lparr>l_curr_tx_time := t\<rparr>)" "core_eq l (l\<lparr>l_skip := n\<rparr>)"
  "core_eq l (l\<lparr>l_rng_pos := k\<rparr>)" "core_eq l (l\<lparr>l_orders_suspended := g\<rparr>)" "core_eq l (l\<lparr>l_trading := g\<rparr>)"
  by (simp_all add: core_eq_def)

lemma fine_upd:
  "desk_ok d \<Longrightarrow> core_eq (d_light d) (f (d_light d)) \<Longrightarrow> (desk_ok (upd_light f d) \<Longrightarrow> fine (upd_light f d) r) \<Longrightarrow> fine d r"
  using desk_ok_core [of d "upd_light f d"] by (auto intro: fine_core)

lemma ok_upd: "desk_ok d \<Longrightarrow> core_eq (d_light d) (f (d_light d)) \<Longrightarrow> desk_ok (upd_light f d)"
  using desk_ok_core [of d "upd_light f d"] by simp

lemma stays_upd: "core_eq (d_light d) (f (d_light d)) \<Longrightarrow> stays d (upd_light f d)"
  by (simp add: stays_def core_eq_def)

lemma ok_emits [simp]: "desk_ok (emits ms d) = desk_ok d" "stays d1 (emits ms d) = stays d1 d"
  using desk_ok_core [of d "emits ms d"] by (simp_all add: stays_def)

lemma fine_step:
  "desk_ok d1 \<Longrightarrow> stays d d1 \<Longrightarrow> (\<And>l. core_eq l (f l)) \<Longrightarrow> desk_ok (upd_light f d1) \<and> stays d (upd_light f d1)"
  using ok_upd [of d1 f] stays_upd [of d1 f] by (auto intro: stays_trans)

lemma cancel_fine: "desk_ok d \<Longrightarrow> fine d (light_cancel_order from_rej d)"
proof (cases "oi_working (oi d)")
  case False
  assume "desk_ok d"
  then show ?thesis
    using False fine_skip [of d "upd_light (\<lambda>l. l\<lparr>l_pending_cancel_eob := 0\<rparr>) d"]
    by (auto simp: light_cancel_order_def oi_working_def Let_def light_core_simps)
next
  case True
  assume ok: "desk_ok d"
  obtain q' where rm: "qc_remove_order (d_q d) (my_px (oi d)) 0 (l_mmid (d_light d)) (my_ord_id (oi d)) True = Inr (0, q')"
    and q': "qc_inv q'" "idle q' (l_mmid (d_light d))" "others (l_mmid (d_light d)) (d_q d) q'"
    using remove_all_ok [of "d_q d" "l_mmid (d_light d)" "oi d"] ok by (auto simp: desk_ok_def)
  show ?thesis
    using True ok rm q'
    by (auto simp: light_cancel_order_def oi_working_def get_oid_def Let_def light_core_simps desk_ok_def stays_def booked_def)
qed

lemma cancel_if_working_fine: "desk_ok d \<Longrightarrow> fine d (cancel_if_working d)"
  by (simp add: cancel_if_working_def cancel_fine)

lemma query_ok:
  assumes "desk_ok d" "int32 px"
  shows "\<exists>q. sz_at_px (d_q d) px = Inr (size_at (d_q d) px, q) \<and> desk_ok (d\<lparr>d_q := q\<rparr>) \<and> stays d (d\<lparr>d_q := q\<rparr>)
     \<and> size_at q px = size_at (d_q d) px \<and> total_sz q = total_sz (d_q d)
     \<and> attached_order_id q = attached_order_id (d_q d)"
proof -
  obtain ch where q: "sz_at_px (d_q d) px = Inr (size_at (d_q d) px, (d_q d)\<lparr>cache_sz_at_px := ch\<rparr>)"
    "qc_inv ((d_q d)\<lparr>cache_sz_at_px := ch\<rparr>)"
    using sz_at_px_ok [of "d_q d" px] assms by (auto simp: desk_ok_def)
  show ?thesis
    using q assms(1) booked_same_levels [of "(d_q d)\<lparr>cache_sz_at_px := ch\<rparr>" "d_q d"]
    by (intro exI [of _ "(d_q d)\<lparr>cache_sz_at_px := ch\<rparr>"]) (simp add: desk_ok_def stays_def size_at_def total_sz_def)
qed

lemma canc_if_must_fine:
  assumes "desk_ok d" "oi_working (oi d)"
  shows "fine d (canc_if_must_impl p delay_skip d)"
proof -
  obtain sz where b: "int32 (my_px (oi d))" "fm_find (level_of (d_q d) (my_px (oi d))) (l_mmid (d_light d)) = Some \<lparr>q_id = my_ord_id (oi d), q_sz = sz\<rparr>"
    using assms by (auto simp: desk_ok_def booked_def)
  have pos: "0 < size_at (d_q d) (my_px (oi d))"
    using booked_rest_pos [OF _ b(2)] assms(1) by (simp add: desk_ok_def)
  obtain q where q: "sz_at_px (d_q d) (my_px (oi d)) = Inr (size_at (d_q d) (my_px (oi d)), q)"
    "desk_ok (d\<lparr>d_q := q\<rparr>)" "stays d (d\<lparr>d_q := q\<rparr>)"
    using query_ok [OF assms(1) b(1)] by auto
  have "fine d (light_cancel_order False (d\<lparr>d_q := q\<rparr>))"
    by (rule fine_from [OF q(3) cancel_fine [OF q(2)]])
  then show ?thesis
    using assms(2) pos q
    by (simp add: canc_if_must_impl_def get_px_def oi_working_def too_far_from_inside_def Let_def)
qed

section \<open>Placing an order\<close>

text \<open>\<open>placed p sz d d'\<close>: from \<open>d\<close> to \<open>d'\<close> an order for \<open>sz\<close> lots at the price of \<open>p\<close> was sent and registered.\<close>

definition placed :: "payload \<Rightarrow> int \<Rightarrow> desk \<Rightarrow> desk \<Rightarrow> bool" where
  "placed p sz d d' \<longleftrightarrow>
     (\<exists>m ms. d_out d' = d_out d @ FastSend (NewOrder m) # ms \<and> so_sz m = of_int sz \<and> so_px m = p_px p
        \<and> so_side m = l_side (d_light d) \<and> so_ts m = p_txtim_epoch p)
     \<and> total_sz (d_q d') = total_sz (d_q d) + sz \<and> size_at (d_q d') (p_px p) = size_at (d_q d) (p_px p) + sz
     \<and> position (d_p d') = position (d_p d)"

lemma set_attached_ok:
  "desk_ok (d\<lparr>d_q := set_attached_order_id (d_q d) i\<rparr>) = desk_ok d" "stays d (d\<lparr>d_q := set_attached_order_id (d_q d) i\<rparr>)"
  "total_sz (set_attached_order_id q i) = total_sz q" "size_at (set_attached_order_id q i) px = size_at q px"
  using booked_same_levels [of "set_attached_order_id (d_q d) i" "d_q d"]
  by (simp_all add: desk_ok_def stays_def set_attached_order_id_def qc_inv_def size_at_def cum_at_def total_of_def total_sz_def)

lemma place_order_ok:
  assumes "desk_ok d" "\<not> has_value (oi d)" "0 < p_px p" "int32 (p_px p)" "0 < sz0" "in32 sz0"
    "size_at (d_q d) (p_px p) + sz0 \<le> l_lev_orders_max (d_light d)"
  shows "\<exists>sz d'. light_place_order ack (p_px p) sz0 (p_txtim_epoch p) d = Inr (sint ack, d') \<and> 0 < sz \<and> sz \<le> sz0
     \<and> placed p sz d d' \<and> desk_ok d' \<and> stays d d'
     \<and> d_light d' = (d_light d)\<lparr>l_ord_info := reset_or_init (sint ack) (p_px p)\<rparr>"
proof -
  let ?l = "d_light d"
  define sz where "sz = (if l_max_limit_order_size ?l > 0 \<and> sz0 > l_max_limit_order_size ?l then l_max_limit_order_size ?l else sz0)"
  have sz: "0 < sz" "sz \<le> sz0" "in32 sz"
    using assms(5,6) by (auto simp: sz_def in32_def)
  obtain m where m: "make_order (l_trading_venue ?l) (l_ssym ?l) (of_int sz) (p_px p) (l_side ?l) (l_owner ?l)
       (p_txtim_epoch p) (Some (l_self ?l)) = Inr m"
    "so_sz m = of_int sz" "so_px m = p_px p" "so_side m = l_side ?l" "so_ts m = p_txtim_epoch p"
    using sz by (simp add: make_order_def trunc32_def Let_def)
  have "idle (d_q d) (l_mmid ?l)"
    using assms(1,2) by (simp add: desk_ok_def booked_def oi_working_def)
  then obtain q' where q': "qc_add_order (d_q d) (p_px p) sz (l_mmid ?l) (sint ack) (l_lev_orders_max ?l) = Inr q'"
    "qc_inv q'" "booked q' (l_mmid ?l) (reset_or_init (sint ack) (p_px p))" "others (l_mmid ?l) (d_q d) q'"
    "total_sz q' = total_sz (d_q d) + sz" "size_at q' (p_px p) = size_at (d_q d) (p_px p) + sz"
    using add_ok [of "d_q d" "l_mmid ?l" "p_px p" sz "l_lev_orders_max ?l" "sint ack"] assms(1,4,7) sz by (auto simp: desk_ok_def)
  show ?thesis
    using assms(1-3,5) m q' sz
    by (intro exI [of _ sz] exI [of _ "emits [FastSend (NewOrder m)]
          (upd_light (\<lambda>l. l\<lparr>l_ord_info := reset_or_init (sint ack) (p_px p)\<rparr>) (d\<lparr>d_q := q'\<rparr>))"])
      (simp add: light_place_order_def sz_def [symmetric] placed_def light_core_simps desk_ok_def stays_def)
qed

lemma placed_cong:
  assumes "placed p sz d1 d'" "d_out d1 = d_out d" "l_side (d_light d1) = l_side (d_light d)" "position (d_p d1) = position (d_p d)"
    "total_sz (d_q d1) = total_sz (d_q d)" "size_at (d_q d1) (p_px p) = size_at (d_q d) (p_px p)"
  shows "placed p sz d d'"
  using assms by (simp add: placed_def)

lemma send_shadow_ok:
  assumes "desk_ok d" "\<not> has_value (oi d)" "0 < p_px p" "int32 (p_px p)" "0 < sz0" "in32 sz0"
    "size_at (d_q d) (p_px p) + sz0 \<le> l_lev_orders_max (d_light d)"
  shows "\<exists>d'. send_shadow ack p g sz0 d = Inr d' \<and> desk_ok d' \<and> stays d d'
     \<and> (d' = d \<or> (\<exists>sz. 0 < sz \<and> sz \<le> sz0 \<and> placed p sz d d'))"
proof (cases "l_dry_run (d_light d)")
  case True
  then show ?thesis
    using assms(1) by (simp add: send_shadow_def)
next
  case False
  obtain sz d1 where p: "light_place_order ack (p_px p) sz0 (p_txtim_epoch p) d = Inr (sint ack, d1)" "0 < sz" "sz \<le> sz0"
    "placed p sz d d1" "desk_ok d1" "stays d d1"
    using place_order_ok [OF assms] by blast
  let ?q = "set_attached_order_id (d_q d1) (l_attached_order_id (d_light d1))"
  have q: "desk_ok (d1\<lparr>d_q := ?q\<rparr>)" "stays d (d1\<lparr>d_q := ?q\<rparr>)"
    using p(5,6) set_attached_ok(1,2) [of d1 "l_attached_order_id (d_light d1)"] by (auto intro: stays_trans)
  obtain d' where d': "send_shadow ack p g sz0 d = Inr d'" "core_eq (d_light d1) (d_light d')"
    "d_q d' = (if sint ack < 0 then d_q d1 else ?q)" "\<exists>ms. d_out d' = d_out d1 @ ms" "d_p d' = d_p d1"
    using False p(1)
    by (cases "sint ack < 0"; cases "g \<and> 0 < l_aggr_ttl_ms (d_light d1)") (auto simp: send_shadow_def light_core_simps Let_def)
  have "desk_ok d'"
    using d'(2,3) p(5) q(1) by (auto simp: desk_ok_def core_eq_def split: if_splits)
  moreover have "stays d d'"
    using d'(2,3) p(6) q(2) by (auto simp: stays_def core_eq_def)
  moreover have "placed p sz d d'"
    using p(4) d'(3-5) by (auto simp: placed_def set_attached_ok(3,4))
  ultimately show ?thesis
    using d'(1) p(2,3) by blast
qed

lemma rate_gate_core: "core_eq l (fst (rate_gate g l))"
  by (simp add: rate_gate_def core_eq_def)

text \<open>What \<open>place_if_can_impl\<close> may do when the slot is free: nothing another actor sees, or send one order.\<close>

definition sends_none :: "desk \<Rightarrow> desk \<Rightarrow> bool" where
  "sends_none d d' \<longleftrightarrow> d_out d' = d_out d \<and> \<not> has_value (oi d') \<and> total_sz (d_q d') = total_sz (d_q d) \<and> d_p d' = d_p d"

lemma attach_and_place_ok:
  assumes "desk_ok d" "\<not> has_value (oi d)" "0 < p_px p" "int32 (p_px p)" "0 < sz0" "in32 sz0"
    "size_at (d_q d) (p_px p) + sz0 \<le> l_lev_orders_max (d_light d)"
  shows "\<exists>d'. attach_and_place ack p g sz0 d = Inr d' \<and> desk_ok d' \<and> stays d d'
     \<and> (sends_none d d' \<or> (\<exists>sz. 0 < sz \<and> sz \<le> sz0 \<and> placed p sz d d'))"
proof -
  define d1 where "d1 = upd_light (\<lambda>l. l\<lparr>l_attached_order_id := p_ex_order_id p, l_attached_is_trade := g\<rparr>) d"
  have q: "sends_none d d2 \<and> desk_ok d2 \<and> stays d d2 \<and> \<not> has_value (oi d2) \<and> l_lev_orders_max (d_light d2) = l_lev_orders_max (d_light d)
       \<and> l_side (d_light d2) = l_side (d_light d) \<and> d_q d2 = d_q d"
    if "core_eq (d_light d1) (d_light d2)" "d_q d2 = d_q d" "d_out d2 = d_out d" "d_p d2 = d_p d" for d2
    using that assms(1,2) desk_ok_core [of d d2] by (simp add: d1_def light_core_simps sends_none_def stays_def)
  obtain l go where r: "rate_gate g (d_light d1) = (l, go)" "core_eq (d_light d1) l"
    using rate_gate_core [of "d_light d1" g] by (cases "rate_gate g (d_light d1)") auto
  have d1: "d_q d1 = d_q d" "d_out d1 = d_out d" "d_p d1 = d_p d"
    by (simp_all add: d1_def light_core_simps)
  consider (dup) "p_ex_order_id p \<noteq> 0 \<and> attached_order_id (d_q d1) = p_ex_order_id p"
    | (no) "\<not> (p_ex_order_id p \<noteq> 0 \<and> attached_order_id (d_q d1) = p_ex_order_id p)" "\<not> go"
    | (go) "\<not> (p_ex_order_id p \<noteq> 0 \<and> attached_order_id (d_q d1) = p_ex_order_id p)" go
    by blast
  then show ?thesis
  proof cases
    case dup
    then show ?thesis
      using q [of d1] d1 by (simp add: attach_and_place_def d1_def [symmetric] core_eq_def)
  next
    case no
    then show ?thesis
      using q [of "d1\<lparr>d_light := l\<rparr>"] d1 r by (auto simp: attach_and_place_def d1_def [symmetric] Let_def)
  next
    case go
    let ?d2 = "upd_light (\<lambda>l. l\<lparr>l_eob_counter := 0\<rparr>) (d1\<lparr>d_light := l\<rparr>)"
    have q2: "sends_none d ?d2" "desk_ok ?d2" "stays d ?d2" "\<not> has_value (oi ?d2)"
      "l_lev_orders_max (d_light ?d2) = l_lev_orders_max (d_light d)" "l_side (d_light ?d2) = l_side (d_light d)" "d_q ?d2 = d_q d"
      using q [of ?d2] d1 r(2) by (simp_all add: light_core_simps)
    obtain d' where d': "send_shadow ack p g sz0 ?d2 = Inr d'" "desk_ok d'" "stays ?d2 d'"
      "d' = ?d2 \<or> (\<exists>sz. 0 < sz \<and> sz \<le> sz0 \<and> placed p sz ?d2 d')"
      using send_shadow_ok [of ?d2 p sz0 ack g] q2 assms(3-7) by auto
    have "sends_none d d' \<or> (\<exists>sz. 0 < sz \<and> sz \<le> sz0 \<and> placed p sz d d')"
      using d'(4) q2 placed_cong [of p _ ?d2 d' d] by (auto simp: sends_none_def)
    moreover have "attach_and_place ack p g sz0 d = send_shadow ack p g sz0 ?d2"
      using go r(1) unfolding attach_and_place_def d1_def [symmetric] Let_def by auto
    ultimately show ?thesis
      using d' stays_trans [OF q2(3) d'(3)] by simp
  qed
qed

text \<open>The size a placed order may have, from the state before.\<close>

definition sized :: "payload \<Rightarrow> int \<Rightarrow> desk \<Rightarrow> bool" where
  "sized p sz d \<longleftrightarrow> 0 < sz \<and> sz \<le> p_sz p \<and> sz \<le> l_ord_sz (d_light d) \<and> sz \<le> compute_diff_from_target d
     \<and> size_at (d_q d) (p_px p) + sz \<le> l_lev_orders_max (d_light d)
     \<and> size_at (d_q d) (p_px p) < compute_diff_from_target d
     \<and> of_int (total_sz (d_q d)) < l_work_multiple (d_light d) * of_int (compute_diff_from_target d)"

lemma size_and_place_ok:
  assumes "desk_ok d" "\<not> has_value (oi d)" "0 < p_px p" "int32 (p_px p)" "in32 (p_sz p)" "w = total_sz (d_q d)"
  shows "\<exists>d'. size_and_place ack p g w d = Inr d' \<and> desk_ok d' \<and> stays d d'
     \<and> (sends_none d d' \<or> (\<exists>sz. sized p sz d \<and> placed p sz d d'))"
proof -
  let ?l = "d_light d" and ?diff = "compute_diff_from_target d"
  obtain q where q: "sz_at_px (d_q d) (p_px p) = Inr (size_at (d_q d) (p_px p), q)" "desk_ok (d\<lparr>d_q := q\<rparr>)"
    "stays d (d\<lparr>d_q := q\<rparr>)" "size_at q (p_px p) = size_at (d_q d) (p_px p)" "total_sz q = total_sz (d_q d)"
    using query_ok [OF assms(1,4)] by auto
  let ?d1 = "d\<lparr>d_q := q\<rparr>" and ?at = "size_at (d_q d) (p_px p)"
  define possible where "possible = (if ?at \<ge> ?diff then 0 else min (p_sz p) (min (min (l_lev_orders_max ?l - ?at) (l_ord_sz ?l)) ?diff))"
  have same: "compute_possible_order_sz ?d1 ?at (p_sz p) = possible"
    by (simp add: compute_possible_order_sz_def possible_def compute_diff_from_target_def Let_def)
  have at: "0 \<le> ?at" "0 \<le> l_lev_orders_max ?l"
    using size_at_nonneg assms(1) by (auto simp: desk_ok_def)
  have sends_none: "sends_none d ?d1"
    using assms(2) q(5) by (simp add: sends_none_def)
  show ?thesis
  proof (cases "of_int w \<ge> l_work_multiple ?l * of_int ?diff \<or> possible \<le> 0")
    case True
    then show ?thesis
      using q(1-3) sends_none at same by (auto simp: size_and_place_def possible_def Let_def)
  next
    case False
    have sized: "sized p sz d" if "0 < sz" "sz \<le> possible" for sz
      using that False assms(6) by (auto simp: sized_def possible_def split: if_splits)
    have p: "0 < possible" "in32 possible" "?at + possible \<le> l_lev_orders_max ?l"
      using False sized [of possible] assms(5) at(1) by (auto simp: sized_def in32_def)
    obtain d' where d': "attach_and_place ack p g possible ?d1 = Inr d'" "desk_ok d'" "stays ?d1 d'"
      "sends_none ?d1 d' \<or> (\<exists>sz. 0 < sz \<and> sz \<le> possible \<and> placed p sz ?d1 d')"
      using attach_and_place_ok [OF q(2) _ assms(3,4) p(1,2), of ack g] assms(2) p(3) q(4) by auto
    have "sends_none d d' \<or> (\<exists>sz. sized p sz d \<and> placed p sz d d')"
      using d'(4) sized q(4,5) by (auto simp: sends_none_def placed_def)
    moreover have "size_and_place ack p g w d = attach_and_place ack p g possible ?d1"
      using False q(1) at same by (simp add: size_and_place_def possible_def [symmetric] Let_def)
    ultimately show ?thesis
      using d' stays_trans [OF q(3) d'(3)] by simp
  qed
qed

text \<open>The guards of \<open>place_if_can_impl\<close> that hold when an order is placed.\<close>

definition allowed :: "payload \<Rightarrow> bool \<Rightarrow> desk \<Rightarrow> bool" where
  "allowed p g d \<longleftrightarrow> p_mkt p = l_md_venue (d_light d) \<and> \<not> at_target d
     \<and> total_sz (d_q d) + l_ord_sz (d_light d) \<le> l_all_orders_max (d_light d)
     \<and> (\<not> g \<longrightarrow> \<not> would_cross (d_light d) p) \<and> \<not> too_far (d_light d) p"

lemma place_if_can_ok:
  assumes "desk_ok d" "\<not> has_value (oi d)" "0 < p_px p" "int32 (p_px p)" "in32 (p_sz p)"
  shows "\<exists>d'. place_if_can_impl ack p g d = Inr d' \<and> desk_ok d' \<and> stays d d'
     \<and> (sends_none d d' \<or> (\<exists>sz. allowed p g d \<and> sized p sz d \<and> placed p sz d d'))"
proof (cases "allowed p g d \<and> \<not> l_delay (d_light d) \<and> \<not> wrong_side (d_light d)")
  case True
  have "place_if_can_impl ack p g d = size_and_place ack p g (total_sz (d_q d)) d"
    using True by (auto simp: place_if_can_impl_def allowed_def at_target_def Let_def)
  then show ?thesis
    using True size_and_place_ok [OF assms refl, of ack g] by auto
next
  case False
  have "sends_none d d"
    using assms(2) by (simp add: sends_none_def)
  moreover have "place_if_can_impl ack p g d = Inr d"
    using False assms(2) by (auto simp: place_if_can_impl_def allowed_def light_cancel_order_def Let_def)
  ultimately show ?thesis
    using assms(1) by simp
qed

lemma place_if_can_fine:
  assumes "desk_ok d" "\<not> has_value (oi d)" "0 < p_px p" "int32 (p_px p)" "in32 (p_sz p)"
  shows "fine d (place_if_can_impl ack p g d)"
  using place_if_can_ok [OF assms, of ack g] by (auto simp: fine_def)

section \<open>Every message\<close>

lemma detach_fine: "desk_ok d \<Longrightarrow> fine d (detach d)"
proof -
  assume ok: "desk_ok d"
  let ?d1 = "upd_light (\<lambda>l. l\<lparr>l_attached_order_id := 0, l_attached_is_trade := False\<rparr>) d"
  have "fine ?d1 (detach d)"
    using ok_upd [OF ok, of "\<lambda>l. l\<lparr>l_attached_order_id := 0, l_attached_is_trade := False\<rparr>"] cancel_if_working_fine
    by (simp add: detach_def Let_def ok_upd stays_upd del: upd_light_sel(1))
  then show ?thesis
    by (rule fine_core) simp_all
qed

lemma tick_pending_fine: "desk_ok d \<Longrightarrow> fine d (tick_pending d)"
proof -
  assume ok: "desk_ok d"
  let ?f = "\<lambda>l. l\<lparr>l_pending_cancel_eob := l_pending_cancel_eob (d_light d) - 1\<rparr>"
  have "fine d (cancel_if_working (upd_light ?f d))"
    by (rule fine_upd [OF ok, of ?f]) (simp_all add: cancel_if_working_fine)
  moreover have "fine d (Inr (upd_light ?f d))"
    by (simp add: ok_upd ok stays_upd)
  ultimately show ?thesis
    using ok by (auto simp only: tick_pending_def Let_def fine_Inr stays_refl split: if_split)
qed

lemma valid_size: "p_is_valid p = Inr () \<Longrightarrow> p_mev p = ADD \<Longrightarrow> in32 (p_sz p)"
  by (auto simp: p_is_valid_def in32_def CHOPIN_MAX_ORD_SZ_def split: if_splits)

lemma on_signal_fine:
  assumes "desk_ok d" "p_is_valid p = Inr ()" "0 < p_px p" "int32 (p_px p)"
  shows "fine d (on_signal ack p d)"
proof -
  let ?f = "\<lambda>l. l\<lparr>l_unskipped := l_unskipped l + 1\<rparr>"
  have "fine d (place_if_can_impl ack p False (upd_light ?f d))" if "\<not> has_value (oi d)" "p_mev p = ADD"
    by (rule fine_upd [OF assms(1), of ?f]) (use that assms valid_size in \<open>simp_all add: place_if_can_fine\<close>)
  then show ?thesis
    using assms(1) detach_fine canc_if_must_fine by (simp add: on_signal_def)
qed

lemma eob_fine:
  assumes "desk_ok d0" "known (pt_sym (p_point p))" "p_is_valid p = Inr ()" "\<not> p_recovery p" "p_action p \<noteq> EXEC"
    "0 < p_px p" "int32 (p_px p)"
  shows "fine d0 (eob_handler known ack p d0)"
proof -
  define d where "d = upd_light (\<lambda>l. l\<lparr>l_curr_tx_time := p_txtim_epoch p\<rparr>) d0"
  have ok: "desk_ok d"
    by (simp add: d_def ok_upd assms(1))
  let ?f = "\<lambda>d1. if l_skip (d_light d1) > 0 then cancel_if_working (upd_light (\<lambda>l. l\<lparr>l_skip := l_skip l - 1\<rparr>) d1)
           else let d2 = upd_light (\<lambda>l. l\<lparr>l_skip := 0\<rparr>) d1 in
             chk (p_action p \<noteq> EXEC) ''cannot be exec''
              (if baddata (p_point p) \<or> p_mev p = CLEAR then cancel_if_working d2 else on_signal ack p d2)"
  have s: "fine d1 (?f d1)" if "desk_ok d1" for d1
  proof (cases "l_skip (d_light d1) > 0")
    case True
    have "fine d1 (cancel_if_working (upd_light (\<lambda>l. l\<lparr>l_skip := l_skip l - 1\<rparr>) d1))"
      by (rule fine_upd [OF that, of "\<lambda>l. l\<lparr>l_skip := l_skip l - 1\<rparr>"]) (simp_all add: cancel_if_working_fine)
    then show ?thesis
      using True by simp
  next
    case False
    let ?d2 = "upd_light (\<lambda>l. l\<lparr>l_skip := 0\<rparr>) d1"
    have "fine d1 (if baddata (p_point p) \<or> p_mev p = CLEAR then cancel_if_working ?d2 else on_signal ack p ?d2)"
      by (rule fine_upd [OF that, of "\<lambda>l. l\<lparr>l_skip := 0\<rparr>"]) (simp_all add: cancel_if_working_fine on_signal_fine assms)
    then show ?thesis
      using False assms(5) by (simp add: Let_def)
  qed
  have "eob_handler known ack p d0 = (if p_mkt p \<noteq> l_md_venue (d_light d) then Inr d else bnd (tick_pending d) ?f)"
    using assms(2-4) unfolding eob_handler_def d_def [symmetric] Let_def by simp
  then have "fine d (eob_handler known ack p d0)"
    using ok fine_bnd [OF tick_pending_fine [OF ok] s] by simp
  then show ?thesis
    by (rule fine_core) (simp_all add: d_def)
qed

lemma tradenotify_fine:
  assumes "desk_ok d" "\<And>p. m = Some p \<Longrightarrow> 0 < p_px p \<and> int32 (p_px p) \<and> in32 (p_sz p)"
  shows "fine d (tradenotify_handler ack m d)"
proof -
  let ?f = "\<lambda>l. l\<lparr>l_rng_pos := l_rng_pos l + 1\<rparr>"
  have "fine d (Inr (upd_light ?f d))" "fine d (Inr d)"
    by (simp_all add: ok_upd stays_upd assms(1))
  moreover have "fine d (place_if_can_impl ack p True (upd_light ?f d))" if "\<not> has_value (oi d)" "m = Some p" for p
    by (rule fine_upd [OF assms(1), of ?f]) (use that assms(2) in \<open>simp_all add: place_if_can_fine\<close>)
  ultimately show ?thesis
    unfolding tradenotify_handler_def Let_def by (simp split: option.splits del: fine_Inr)
qed

lemma alarm_fine: "desk_ok d \<Longrightarrow> fine d (alarm_handler timer_id now d)"
proof -
  assume ok: "desk_ok d"
  let ?f = "\<lambda>l. l\<lparr>l_curr_tx_time := now\<rparr>"
  have "fine d (light_cancel_order False (upd_light ?f d))"
    by (rule fine_upd [OF ok, of ?f]) (simp_all add: cancel_fine)
  then obtain d' where c: "light_cancel_order False (upd_light ?f d) = Inr d'" "desk_ok d'" "stays d d'"
    by (auto simp: fine_def)
  have s: "l_side (d_light d) = BUY \<or> l_side (d_light d) = SEL"
    using ok by (simp add: desk_ok_def)
  have p: "desk_ok (d\<lparr>d_p := pc\<rparr>)" "stays d (d\<lparr>d_p := pc\<rparr>)" for pc
    using ok by (simp_all add: desk_ok_def stays_def)
  have u: "fine d (Inr (upd_light (\<lambda>l. l\<lparr>l_orders_suspended := False\<rparr>) d))"
    by (simp add: ok_upd stays_upd ok)
  show ?thesis
    using s p u c ok
    by (cases "timer_id = UNSUSPEND"; cases "timer_id = RESET_LAST_TRADE_PRICE")
      (auto simp: alarm_handler_def alarm_handler_impl_def Let_def set_last_trade_px_def)
qed

lemma idle_ok:
  "qc_inv q \<Longrightarrow> idle q (l_mmid (d_light d)) \<Longrightarrow> desk_ok d \<Longrightarrow> \<not> oi_working r
   \<Longrightarrow> l_ord_info l = r \<Longrightarrow> l_mmid l = l_mmid (d_light d) \<Longrightarrow> l_side l = l_side (d_light d)
   \<Longrightarrow> l_lev_orders_max l = l_lev_orders_max (d_light d) \<Longrightarrow> d_light d' = l \<Longrightarrow> d_q d' = q \<Longrightarrow> desk_ok d'"
  by (simp add: desk_ok_def booked_def)

lemma clear_ord_fine:
  assumes "desk_ok d" "\<not> oi_working (oi d)"
  shows "desk_ok (clear_ord d)" "stays d (clear_ord d)"
  using assms by (simp_all add: desk_ok_def stays_def booked_def oi_empty_def oi_working_def)

text \<open>
  The number of lots the coordinator has for the order of a light, and the messages a light may
  rely on: the order manager answers for the order it was given, and fills no more of it than is left.
\<close>

definition rest_sz :: "desk \<Rightarrow> int" where
  "rest_sz d = (case fm_find (level_of (d_q d) (my_px (oi d))) (l_mmid (d_light d)) of None \<Rightarrow> 0 | Some r \<Rightarrow> q_sz r)"

definition fill_fits :: "som_fill \<Rightarrow> desk \<Rightarrow> bool" where
  "fill_fits m d \<longleftrightarrow>
     (let n = \<lfloor>f_sz m\<rfloor>; px = of_int (f_px m) * l_units (d_light d) in
      f_sz m = of_int n \<and> 0 < n \<and> in32 n \<and> (f_side m = BUY \<or> f_side m = SEL) \<and> returns (trunc32 px) \<and> 0 \<le> f_stbf m
      \<and> (has_value (oi d) \<longrightarrow>
           (if sint (f_id m) \<noteq> my_ord_id (oi d) then 0 < f_stbf m
            else oi_canc (oi d) \<or> n \<le> rest_sz d \<and> f_stbf m = of_int (rest_sz d - n))))"

fun legal :: "(int \<Rightarrow> bool) \<Rightarrow> light_msg \<Rightarrow> desk \<Rightarrow> bool" where
  "legal known (LM_EndOfBurst p) d =
     (known (pt_sym (p_point p)) \<and> p_is_valid p = Inr () \<and> \<not> p_recovery p \<and> p_action p \<noteq> EXEC \<and> 0 < p_px p \<and> int32 (p_px p))"
| "legal known (LM_TradeNotify m) d =
     (case m of None \<Rightarrow> True | Some p \<Rightarrow> 0 < p_px p \<and> int32 (p_px p) \<and> in32 (p_sz p))"
| "legal known (LM_Fill m) d = fill_fits m d"
| "legal known (LM_CancAck i) d = (has_value (oi d) \<and> sint i = my_ord_id (oi d)
     \<and> (sint i \<in> l_cancel_requests (d_light d) \<longrightarrow> oi_canc (oi d)))"
| "legal known (LM_CancReject i r) d =
     (r \<notin> {CR_NOTACKED, CR_INTERNALOIDTOCANC, CR_REJECTONMOD, CR_FILLEDALREADY, CR_CANCELLEDALREADY, CR_REJECTEDPREVIOUSLY, CR_THROTTLE}
      \<longrightarrow> has_value (oi d) \<and> (sint i = my_ord_id (oi d) \<longrightarrow> oi_canc (oi d)))"
| "legal known (LM_Set key v a) d =
     (case key of SUBSCRIBEONLY \<Rightarrow> a \<noteq> None | TARGET_POS \<Rightarrow> in32 (round_away v)
      | LEV_ORDERS_MAX \<Rightarrow> in32 (round_away v) \<and> 0 \<le> round_away v | _ \<Rightarrow> True)"
| "legal known _ d = True"

lemma trunc32_int: "in32 n \<Longrightarrow> trunc32 (of_int n) = Inr n"
  by (simp add: trunc32_def Let_def)

lemma cancrej_fine:
  assumes "desk_ok d" "legal known (LM_CancReject i r) d"
  shows "fine d (som_cancrej_handler i r d)"
proof -
  have sk: "desk_ok (set_skip n d)" "stays d (set_skip n d)" for n
    by (simp_all add: ok_upd stays_upd assms(1))
  have n: "fine d (Inr (upd_light f d1))" if "desk_ok d1" "stays d d1" "\<And>l. core_eq l (f l)" for f d1
    using fine_step [OF that] by simp
  have nn: "fine d (Inr (if b then upd_light g (upd_light f d1) else upd_light f d1))"
    if "desk_ok d1" "stays d d1" "\<And>l. core_eq l (f l)" "\<And>l. core_eq l (g l)" for f g d1 b
    using that n [of d1 f] n [of "upd_light f d1" g] by (auto simp del: upd_light_sel)
  have c: "desk_ok (clear_ord d) \<and> stays d (clear_ord d)" if "has_value (oi d)" "oi_canc (oi d)"
    using clear_ord_fine [OF assms(1)] that by (simp add: oi_working_def)
  have x: "core_eq l (l\<lparr>l_num_canc_rej_from_exchange := k\<rparr>)" "core_eq l (l\<lparr>l_num_canc_rej_unk := k\<rparr>)" for l k
    by (simp_all add: core_eq_def)
  consider (named) "r \<in> {CR_NOTACKED, CR_INTERNALOIDTOCANC, CR_REJECTONMOD, CR_FILLEDALREADY, CR_CANCELLEDALREADY, CR_REJECTEDPREVIOUSLY, CR_THROTTLE}"
    | (exch) "r = CR_FROMEXCHANGE \<or> r = CR_FROMEXCHANGE_BUSINESSREJECT"
    | (other) "r \<in> {CR_NOTFOUND, CR_DISCONNECTED, CR_NOTLOGGEDIN, CR_UNKNOWN}"
    by (cases r) auto
  then show ?thesis
  proof cases
    case named
    then show ?thesis
      using assms(1) sk fine_from [OF sk(2) cancel_fine [OF sk(1)]]
      by (auto simp: som_cancrej_handler_def resend_cancel_def)
  next
    case exch
    then have h: "has_value (oi d)" "sint i = my_ord_id (oi d) \<longrightarrow> oi_canc (oi d)"
      using assms(2) by auto
    show ?thesis
      using exch h nn [OF _ _ x(1) core_eq_upds(5)] assms(1) c
      by (auto simp: som_cancrej_handler_def get_oid_def Let_def simp del: fine_Inr upd_light_sel)
  next
    case other
    then have h: "has_value (oi d)" "sint i = my_ord_id (oi d) \<longrightarrow> oi_canc (oi d)"
      using assms(2) by auto
    show ?thesis
      using other h nn [OF _ _ x(2) core_eq_upds(5)] assms(1) c sk
      by (auto simp: som_cancrej_handler_def get_oid_def Let_def simp del: fine_Inr upd_light_sel)
  qed
qed

lemma reject_pause_core: "core_eq (d_light d) (d_light (reject_pause r d)) \<and> d_q (reject_pause r d) = d_q d"
  by (simp add: reject_pause_def suspend_orders_def core_eq_def)

lemma freed_ok:
  assumes "desk_ok d" "qc_inv q" "idle q (l_mmid (d_light d))" "others (l_mmid (d_light d)) (d_q d) q"
    "d_q d' = q" "\<not> oi_working (oi d')" "l_mmid (d_light d') = l_mmid (d_light d)" "l_side (d_light d') = l_side (d_light d)"
    "l_lev_orders_max (d_light d') = l_lev_orders_max (d_light d)"
  shows "desk_ok d'" "stays d d'"
  using assms by (simp_all add: desk_ok_def booked_def stays_def)

lemma empty_not_working [simp]: "\<not> oi_working oi_empty"
  by (simp add: oi_working_def oi_empty_def)

lemma reject_fine:
  assumes "desk_ok d"
  shows "fine d (som_reject_handler i r d)"
proof -
  obtain q where q: "(if has_value (oi d)
          then bnd (qc_remove_order (d_q d) (my_px (oi d)) 0 (l_mmid (d_light d)) (my_ord_id (oi d)) True) (\<lambda>(_, q). Inr (d\<lparr>d_q := q\<rparr>))
          else Inr d) = Inr (d\<lparr>d_q := q\<rparr>)" "qc_inv q" "idle q (l_mmid (d_light d))" "others (l_mmid (d_light d)) (d_q d) q"
  proof (cases "has_value (oi d)")
    case True
    then show ?thesis
      using that remove_all_ok [of "d_q d" "l_mmid (d_light d)" "oi d"] assms by (auto simp: desk_ok_def)
  next
    case False
    then show ?thesis
      using that [of "d_q d"] assms by (simp add: desk_ok_def booked_def oi_working_def)
  qed
  define d2 where "d2 = clear_ord (reject_pause r (d\<lparr>d_q := q\<rparr>))"
  have d2: "d_q d2 = q" "oi d2 = oi_empty" "l_mmid (d_light d2) = l_mmid (d_light d)" "l_side (d_light d2) = l_side (d_light d)"
    "l_lev_orders_max (d_light d2) = l_lev_orders_max (d_light d)"
    using reject_pause_core [of "d\<lparr>d_q := q\<rparr>" r] by (simp_all add: d2_def core_eq_def)
  have ok2: "desk_ok d2" "stays d d2"
    using freed_ok [OF assms q(2-4), of d2] d2 by simp_all
  define d3 where "d3 = upd_light (\<lambda>l. l\<lparr>l_num_rej_from_exchange := l_num_rej_from_exchange (d_light d2) + 1\<rparr>) d2"
  have c: "core_eq (d_light d2) (d_light d3)"
    by (simp add: d3_def core_eq_def)
  have ok3: "desk_ok d3" "stays d d3"
    using ok2 c desk_ok_core [of d2 d3] by (auto simp: d3_def stays_def core_eq_def)
  have "som_reject_handler i r d = Inr (if l_num_rej_from_exchange (d_light d2) > 100 then set_skip 1000 d3 else d3)"
    unfolding som_reject_handler_def q(1) bnd_Inr Let_def d2_def [symmetric] d3_def [symmetric] ..
  then show ?thesis
    using ok3 fine_step [OF ok3, of "\<lambda>l. l\<lparr>l_skip := 1000\<rparr>"] by simp
qed

lemma canc_ack_fine:
  assumes "desk_ok d" "legal known (LM_CancAck i) d"
  shows "fine d (som_canc_ack_handler i d)"
proof (cases "sint i \<in> l_cancel_requests (d_light d)")
  case False
  obtain q where q: "qc_remove_order (d_q d) (my_px (oi d)) 0 (l_mmid (d_light d)) (my_ord_id (oi d)) True = Inr (0, q)"
    "qc_inv q" "idle q (l_mmid (d_light d))" "others (l_mmid (d_light d)) (d_q d) q"
    using remove_all_ok [of "d_q d" "l_mmid (d_light d)" "oi d"] assms(1) by (auto simp: desk_ok_def)
  then show ?thesis
    using False assms freed_ok [OF assms(1) q(2-4), of "clear_ord (d\<lparr>d_q := q\<rparr>)"] by (simp add: som_canc_ack_handler_def)
next
  case True
  let ?d1 = "upd_light (\<lambda>l. l\<lparr>l_cancel_requests := l_cancel_requests l - {sint i}\<rparr>) d"
  have c: "core_eq (d_light d) (d_light ?d1)" "oi ?d1 = oi d"
    by (simp_all add: core_eq_def)
  have ok: "desk_ok ?d1" "stays d ?d1"
    using c(1) by (simp_all add: ok_upd stays_upd assms(1))
  have w: "\<not> oi_working (oi ?d1)"
    using True assms(2) by (simp add: c(2) oi_working_def)
  show ?thesis
    using True assms(2) stays_trans [OF ok(2) clear_ord_fine(2) [OF ok(1) w]] clear_ord_fine(1) [OF ok(1) w]
    by (simp add: som_canc_ack_handler_def)
qed

lemma floor_of_int_real: "x = of_int \<lfloor>x\<rfloor> \<Longrightarrow> in32 \<lfloor>x\<rfloor> \<Longrightarrow> trunc32 (x :: real) = Inr \<lfloor>x\<rfloor>"
  by (metis trunc32_int)

text \<open>The rest of the fill handler, once the coordinator has booked the fill.\<close>

lemma fill_rest:
  assumes "book_fill m (d\<lparr>d_p := pc\<rparr>) = Inr d1" "fill_fits m d" "desk_ok d" "d_light d1 = d_light d"
    "trunc32 (of_int (f_px m) * l_units (d_light d)) = Inr lp" "set_last_trade_px (d_p d) lp (f_side m) = Inr pc"
    "desk_ok (if f_stbf m \<le> 0 then clear_ord d1 else d1)" "stays d d1"
  shows "fine d (som_fill_handler m d)"
proof -
  have n: "trunc32 (f_sz m) = Inr \<lfloor>f_sz m\<rfloor>" "0 < \<lfloor>f_sz m\<rfloor>" "0 \<le> f_stbf m"
    using assms(2) floor_of_int_real by (auto simp: fill_fits_def Let_def)
  obtain pc1 where pc1: "add_position (d_p d1) (l_side (d_light d1)) \<lfloor>f_sz m\<rfloor> = Inr pc1"
    using assms(3,4) n(2) by (auto simp: add_position_def desk_ok_def)
  let ?d3 = "if f_stbf m \<le> 0 then clear_ord (d1\<lparr>d_p := pc1\<rparr>) else d1\<lparr>d_p := pc1\<rparr>"
  have d3: "desk_ok ?d3" "stays d ?d3"
    using assms(7,8) by (auto simp: desk_ok_def stays_def)
  let ?f = "\<lambda>l. l\<lparr>l_last_fill_msg := l_last_fill_msg l @ [(m, l_curr_tx_time l)]\<rparr>"
  have f: "core_eq l (?f l)" for l
    by (simp add: core_eq_def)
  have "som_fill_handler m d = Inr (emits (map (\<lambda>s. SubFill s m) (l_subs (d_light ?d3))) (upd_light ?f ?d3))"
    using assms(1,5,6) n pc1 by (simp add: som_fill_handler_def Let_def)
  then show ?thesis
    using fine_step [OF d3, of ?f] f by (simp del: upd_light_sel)
qed

lemma fill_fine:
  assumes "desk_ok d" "fill_fits m d"
  shows "fine d (som_fill_handler m d)"
proof -
  obtain lp where lp: "trunc32 (of_int (f_px m) * l_units (d_light d)) = Inr lp"
    using assms(2) by (auto simp: fill_fits_def Let_def returns_iff)
  obtain pc where pc: "set_last_trade_px (d_p d) lp (f_side m) = Inr pc"
    using assms(2) by (auto simp: fill_fits_def Let_def set_last_trade_px_def)
  let ?d0 = "d\<lparr>d_p := pc\<rparr>" and ?k = "l_mmid (d_light d)" and ?n = "\<lfloor>f_sz m\<rfloor>"
  have n: "trunc32 (f_sz m) = Inr ?n" "0 < ?n"
    using assms(2) floor_of_int_real by (auto simp: fill_fits_def Let_def)
  have k: "qc_inv (d_q d)" "0 \<le> ?k" "?k < kMaxMmid" "booked (d_q d) ?k (oi d)"
    using assms(1) by (simp_all add: desk_ok_def)
  have d0: "desk_ok ?d0" "stays d ?d0"
    using assms(1) by (simp_all add: desk_ok_def stays_def)
  show ?thesis
  proof (cases "oi_working (oi d) \<and> sint (f_id m) = my_ord_id (oi d)")
    case False
    have b: "book_fill m ?d0 = Inr ?d0"
      using False by (auto simp: book_fill_def oi_working_def)
    have "f_stbf m > 0 \<or> \<not> oi_working (oi d)"
      using False assms(2) by (auto simp: fill_fits_def Let_def oi_working_def)
    then have "desk_ok (if f_stbf m \<le> 0 then clear_ord ?d0 else ?d0)"
      using d0(1) clear_ord_fine(1) [of ?d0] by auto
    then show ?thesis
      by (intro fill_rest [OF b assms(2,1) _ lp pc _ d0(2)]) simp_all
  next
    case True
    then obtain rest where r: "fm_find (level_of (d_q d) (my_px (oi d))) ?k = Some \<lparr>q_id = my_ord_id (oi d), q_sz = rest\<rparr>"
      using k(4) by (auto simp: booked_def)
    have fit: "?n \<le> rest" "f_stbf m = of_int (rest - ?n)"
      using assms(2) True r by (auto simp: fill_fits_def Let_def oi_working_def rest_sz_def)
    obtain x q where q: "qc_remove_order (d_q d) (my_px (oi d)) ?n ?k (my_ord_id (oi d)) False = Inr (x, q)" "qc_inv q"
      "others ?k (d_q d) q" "if ?n = rest then idle q ?k else booked q ?k (oi d)"
      using remove_fill_ok [OF k _ r n(2) fit(1)] True by auto
    have b: "book_fill m ?d0 = Inr (?d0\<lparr>d_q := q\<rparr>)"
      using True n(1) q(1) by (simp add: book_fill_def oi_working_def)
    have s: "stays d (?d0\<lparr>d_q := q\<rparr>)"
      using q(3) by (simp add: stays_def)
    have "desk_ok (if f_stbf m \<le> 0 then clear_ord (?d0\<lparr>d_q := q\<rparr>) else ?d0\<lparr>d_q := q\<rparr>)"
      using assms(1) q(2,4) fit by (auto simp: desk_ok_def booked_def)
    then show ?thesis
      by (intro fill_rest [OF b assms(2,1) _ lp pc _ s]) simp_all
  qed
qed

lemma set_fine:
  assumes "desk_ok d" "legal known (LM_Set key v a) d"
  shows "fine d (light_set_handler key v a d)"
proof -
  have t: "fine d (trading_off d)"
    unfolding trading_off_def
    by (rule fine_upd [OF assms(1), of "\<lambda>l. l\<lparr>l_trading := False\<rparr>"]) (simp_all add: cancel_if_working_fine)
  have u: "fine d (Inr (upd_light f d))" if "\<And>l. core_eq l (f l)" for f
    using fine_step [OF assms(1) stays_refl that] by simp
  have lev: "fine d (Inr (upd_light (\<lambda>l. l\<lparr>l_lev_orders_max := n, l_ord_sz := n, l_all_orders_max := g l\<rparr>) d))" if "0 \<le> n" for n g
    using that assms(1) by (simp add: desk_ok_def stays_def)
  have s: "core_eq l (l\<lparr>l_subs := x\<rparr>)" "core_eq l (l\<lparr>l_targetpos := n\<rparr>)" for l x n
    by (simp_all add: core_eq_def)
  show ?thesis
    using assms t u [OF s(1)] u [OF s(2)] u [OF core_eq_upds(8)] lev
    by (cases key) (auto simp: light_set_handler_def trunc32_int simp del: fine_Inr, simp)
qed

lemma handle_fine:
  assumes "desk_ok d" "legal known msg d"
  shows "fine d (light_handle known ack msg d)"
proof (cases msg)
  case LM_Start
  then show ?thesis
    using assms(1) by (simp add: light_start_def Let_def)
next
  case (LM_EndOfBurst p)
  then show ?thesis
    using assms by (simp add: eob_fine)
next
  case (LM_TradeNotify m)
  then show ?thesis
    using assms by (auto intro!: tradenotify_fine)
next
  case LM_Clear
  have "fine d (clear_handler d)"
    unfolding clear_handler_def
    by (rule fine_bnd [OF cancel_fine [OF assms(1)]]) (simp add: ok_upd stays_upd)
  then show ?thesis
    using LM_Clear by simp
next
  case (LM_CancAck i)
  then show ?thesis
    using canc_ack_fine [OF assms(1), of known i] assms(2) by simp
next
  case (LM_CancReject i r)
  then show ?thesis
    using cancrej_fine [OF assms(1), of known i r] assms(2) by simp
next
  case (LM_Set key v a)
  then show ?thesis
    using set_fine [OF assms(1), of known key v a] assms(2) by simp
next
  case (LM_PositionInfo pinf)
  have "core_eq (d_light d) ((d_light d)\<lparr>l_position_info := Some pinf\<rparr>)"
    by (simp add: core_eq_def)
  then show ?thesis
    using LM_PositionInfo assms(1) by (simp add: ok_upd stays_upd)
qed (use assms in \<open>simp_all add: cancel_if_working_fine alarm_fine fill_fine reject_fine ok_upd stays_upd\<close>)

section \<open>The bank\<close>

record bank =
  b_lights :: "light list"
  b_q :: QCoord
  b_p :: PCoord
  b_out :: "light_out list"

definition bank_desk :: "nat \<Rightarrow> bank \<Rightarrow> desk" where
  "bank_desk i b = \<lparr>d_light = b_lights b ! i, d_q = b_q b, d_p = b_p b, d_out = b_out b\<rparr>"

definition bank_handle :: "(int \<Rightarrow> bool) \<Rightarrow> u32 \<Rightarrow> nat \<Rightarrow> light_msg \<Rightarrow> bank \<Rightarrow> bank res" where
  "bank_handle known ack i msg b =
     bnd (light_handle known ack msg (bank_desk i b)) (\<lambda>d.
       Inr (b\<lparr>b_lights := (b_lights b)[i := d_light d], b_q := d_q d, b_p := d_p d, b_out := d_out d\<rparr>))"

text \<open>The lights of one side, light \<open>i\<close> under the bit \<open>i\<close>, with a new coordinator.\<close>

definition bank_new :: "light list \<Rightarrow> PCoord \<Rightarrow> bank" where
  "bank_new ls p = \<lparr>b_lights = ls, b_q = QCoord_init, b_p = p, b_out = []\<rparr>"

definition fresh :: "nat \<Rightarrow> light \<Rightarrow> bool" where
  "fresh i l \<longleftrightarrow> l_mmid l = int i \<and> \<not> has_value (l_ord_info l) \<and> (l_side l = BUY \<or> l_side l = SEL) \<and> 0 \<le> l_lev_orders_max l"

text \<open>The runs of a bank; the position also moves by the fills of others and by the probe that sets it.\<close>

inductive bank_reach :: "(int \<Rightarrow> bool) \<Rightarrow> bank \<Rightarrow> bool" for known where
  bank_start: "length ls \<le> 256 \<Longrightarrow> (\<forall>i<length ls. fresh i (ls ! i)) \<Longrightarrow> bank_reach known (bank_new ls p)"
| bank_msg: "bank_reach known b \<Longrightarrow> i < length (b_lights b) \<Longrightarrow> legal known msg (bank_desk i b) \<Longrightarrow>
     bank_handle known ack i msg b = Inr b' \<Longrightarrow> bank_reach known b'"
| bank_pos: "bank_reach known b \<Longrightarrow> bank_reach known (b\<lparr>b_p := p\<rparr>)"

definition bank_inv :: "bank \<Rightarrow> bool" where
  "bank_inv b \<longleftrightarrow> length (b_lights b) \<le> 256 \<and> (\<forall>i<length (b_lights b). l_mmid (b_lights b ! i) = int i \<and> desk_ok (bank_desk i b))
     \<and> qc_inv (b_q b) \<and> (\<forall>k px. works (b_q b) k px \<longrightarrow> 0 \<le> k \<and> k < int (length (b_lights b)))"

lemma bank_inv_step:
  assumes "bank_inv b" "i < length (b_lights b)" "legal known msg (bank_desk i b)"
  shows "\<exists>b'. bank_handle known ack i msg b = Inr b' \<and> bank_inv b'"
proof -
  let ?ls = "b_lights b"
  have ok: "desk_ok (bank_desk j b)" "l_mmid (?ls ! j) = int j" if "j < length ?ls" for j
    using assms(1) that by (simp_all add: bank_inv_def)
  obtain d where d: "light_handle known ack msg (bank_desk i b) = Inr d" "desk_ok d" "stays (bank_desk i b) d"
    using handle_fine [OF ok(1) [OF assms(2)] assms(3), of ack] by (auto simp: fine_def)
  have m: "l_mmid (d_light d) = int i" "others (int i) (b_q b) (d_q d)"
    using d(3) ok(2) [OF assms(2)] by (simp_all add: stays_def bank_desk_def)
  let ?b' = "b\<lparr>b_lights := ?ls[i := d_light d], b_q := d_q d, b_p := d_p d, b_out := d_out d\<rparr>"
  have h: "bank_handle known ack i msg b = Inr ?b'"
    using d(1) by (simp add: bank_handle_def)
  have len: "length ?ls \<le> 256"
    using assms(1) by (simp add: bank_inv_def)
  have each: "l_mmid (b_lights ?b' ! j) = int j \<and> desk_ok (bank_desk j ?b')" if "j < length ?ls" for j
  proof (cases "j = i")
    case True
    then show ?thesis
      using d(2) m(1) that by (simp add: bank_desk_def desk_ok_def)
  next
    case False
    have "booked (d_q d) (int j) (l_ord_info (?ls ! j)) = booked (b_q b) (int j) (l_ord_info (?ls ! j))"
      by (rule others_booked [OF m(2)]) (use False that len in \<open>simp_all add: kMaxMmid_def\<close>)
    then show ?thesis
      using False ok [OF that] d(2) that by (simp add: bank_desk_def desk_ok_def)
  qed
  have owned: "0 \<le> k \<and> k < int (length ?ls)" if "works (d_q d) k px" for k px
  proof (cases "k = int i")
    case True
    then show ?thesis
      using assms(2) by simp
  next
    case False
    then have "works (b_q b) k px"
      using that m(2) by (simp add: works_def others_def)
    then show ?thesis
      using assms(1) unfolding bank_inv_def by blast
  qed
  have "bank_inv ?b'"
    using len each owned d(2) by (simp add: bank_inv_def desk_ok_def)
  then show ?thesis
    using h by blast
qed

lemma fresh_desk_ok:
  assumes "fresh i (ls ! i)" "i < length ls" "length ls \<le> 256"
  shows "desk_ok (bank_desk i (bank_new ls p))"
  using assms qc_init_inv
  by (auto simp: fresh_def desk_ok_def bank_desk_def bank_new_def kMaxMmid_def booked_def oi_working_def idle_def works_def
      level_of_def QCoord_init_def fm_find_def)

lemma bank_reach_inv: "bank_reach known b \<Longrightarrow> bank_inv b"
proof (induction rule: bank_reach.induct)
  case (bank_start ls p)
  then have "desk_ok (bank_desk i (bank_new ls p)) \<and> l_mmid (ls ! i) = int i" if "i < length ls" for i
    using fresh_desk_ok that by (simp add: fresh_def)
  then show ?case
    using bank_start qc_init_inv
    by (simp add: bank_inv_def) (simp add: bank_new_def works_def level_of_def QCoord_init_def)
next
  case (bank_msg b i msg ack b')
  then show ?case
    using bank_inv_step [of b i known msg ack] by auto
next
  case (bank_pos b p)
  have "desk_ok (bank_desk i (b\<lparr>b_p := p\<rparr>)) = desk_ok (bank_desk i b)" for i
    by (simp add: desk_ok_def bank_desk_def)
  then show ?case
    using bank_pos by (simp add: bank_inv_def)
qed


end
