(* ===== verification/Light_Properties.thy ===== *)
theory Light_Properties
  imports Light_Bank
begin

text \<open>
  What a light sends and when: the size and price of its orders, the delay of a cancel counted in
  bursts, the life of an order that crosses, and four places where the code does less than its log
  lines and comments say.
\<close>

section \<open>A concrete light\<close>

definition ex_light :: light where
  "ex_light =
     \<lparr>l_side = BUY, l_self = 7, l_ob = 1, l_rm = None, l_owner = 0, l_ssym = 3, l_units = 1, l_max_limit_order_size = 0,
      l_md_venue = 5, l_trading_venue = 5, l_mmid = 0, l_nlevels = 2, l_ord_sz = 4, l_lev_orders_max = 4,
      l_all_orders_max = 20, l_max_dist_for_cap = 4, l_max_dist = 4, l_max_dist_cancel = 6, l_place_after_n_eob = 1,
      l_place_rate_bp = 0, l_place_rate_thresh = 0, l_aggr_participation_bp = 0, l_aggr_participation_thresh = 0,
      l_aggr_ttl_ms = 1, l_delayed_cancel_events = 2, l_delayed_cancel_ms = 0, l_work_multiple = 1, l_dry_run = False,
      l_rng = (\<lambda>_. 0), l_rng_pos = 0, l_side_to_trade = BOTH, l_delay = False, l_delay_canc = False, l_skip = 0,
      l_trading = True, l_orders_suspended = False, l_curr_tx_time = 0, l_pending_cancel_eob = 0,
      l_num_canc_rej_from_exchange = 0, l_num_rej_from_exchange = 0, l_num_canc_rej_unk = 0, l_unskipped = 0,
      l_subs = [], l_targetpos = 0, l_last_fill_msg = [], l_position_info = None, l_cancel_requests = {},
      l_ord_info = oi_empty, l_attached_order_id = 0, l_attached_is_trade = False, l_aggr_ttl_oid = -1,
      l_aggr_ttl_armed_tx = 0, l_eob_counter = 0\<rparr>"

definition ex_point :: point where
  "ex_point = point_init\<lparr>bid_px := 100 # replicate 15 0, ask_px := 101 # replicate 15 0\<rparr>"

definition ex_add :: payload where
  "ex_add = payload_init\<lparr>p_mkt := 5, p_px := 99, p_sz := 3, p_side := BUY, p_mev := ADD, p_action := MT_NONE,
     p_send_tim := 1000, p_txtim_epoch := 1000, p_ex_order_id := 77, p_point := ex_point\<rparr>"

definition ex_desk :: desk where
  "ex_desk = \<lparr>d_light = ex_light, d_q = QCoord_init, d_p = PCoord_init\<lparr>position := -10\<rparr>, d_out = []\<rparr>"

lemmas light_eval = eob_handler_def upd_light_def emits_def p_is_valid_def payload_init_def point_init_def tick_pending_def
  on_signal_def attached_gone_def oi_working_def oi_empty_def place_if_can_impl_def PCoord_init_def at_target_def wrong_side_def
  total_sz_def QCoord_init_def would_cross_def too_far_def size_and_place_def compute_diff_from_target_def sz_at_px_def
  cache_get_def fm_find_def compute_possible_order_sz_def attach_and_place_def rate_gate_def send_shadow_def
  light_place_order_def make_order_def trunc32_def in32_def qc_add_order_def kMaxMmid_def cache_insert_def reset_or_init_def
  set_attached_order_id_def CHOPIN_MAX_ORD_SZ_def x_valid_def bs_valid_def md_valid_def Let_def

definition ex_l_order :: som_order where
  "ex_l_order = \<lparr>so_ts = 1000, so_venue = 5, so_sym = 3, so_sz = 3, so_px = 99, so_stbf = 3, so_oid = -1, so_side = BUY,
     so_owner = 0, so_ref = 0, so_oid_to_cancel = -1, so_filled = False, so_canced = False, so_rejed = False,
     so_acked = False, so_slated = False, so_sender = Some 7\<rparr>"

definition ex_q :: QCoord where
  "ex_q = QCoord_init\<lparr>px_mmid_ord := [(99, [(0, \<lparr>q_id = 41, q_sz = 3\<rparr>)])], mmid_orders := set_bit 0 0,
     last_in_at_px := [px_key 99 \<mapsto> 0], tot_sz_cache := 3, attached_order_id := 77\<rparr>"

definition ex_desk1 :: desk where
  "ex_desk1 = ex_desk\<lparr>d_light := ex_light\<lparr>l_curr_tx_time := 1000, l_unskipped := 1, l_attached_order_id := 77,
       l_ord_info := \<lparr>my_ord_id = 41, my_px = 99, oi_canc = False, has_value = True\<rparr>\<rparr>,
     d_q := ex_q, d_out := [FastSend (NewOrder ex_l_order)]\<rparr>"

lemma ex_desk_placed: "light_handle (\<lambda>_. True) 41 (LM_EndOfBurst ex_add) ex_desk = Inr ex_desk1"
  by (simp add: ex_desk_def ex_add_def ex_light_def ex_point_def ex_desk1_def ex_l_order_def ex_q_def light_eval cache_clear_def)

lemma ex_bank_reach: "bank_reach (\<lambda>_. True) (bank_new [ex_light] p)"
  by (rule bank_start) (simp_all add: fresh_def ex_light_def oi_empty_def)

lemma ex_bank_placed:
  "bank_handle (\<lambda>_. True) 41 0 (LM_EndOfBurst ex_add) (bank_new [ex_light] (d_p ex_desk)) =
     Inr \<lparr>b_lights = [d_light ex_desk1], b_q = ex_q, b_p = d_p ex_desk, b_out = d_out ex_desk1\<rparr>"
proof -
  have "bank_desk 0 (bank_new [ex_light] (d_p ex_desk)) = ex_desk"
    by (simp add: bank_desk_def bank_new_def ex_desk_def)
  then show ?thesis
    using ex_desk_placed by (simp add: bank_handle_def) (simp add: ex_desk1_def ex_desk_def bank_new_def)
qed

definition ex_bank :: bank where
  "ex_bank = \<lparr>b_lights = [d_light ex_desk1], b_q = ex_q, b_p = d_p ex_desk, b_out = d_out ex_desk1\<rparr>"

lemma ex_add_legal: "legal (\<lambda>_. True) (LM_EndOfBurst ex_add) d"
  by (simp add: ex_add_def ex_point_def light_eval int32_def INT_MIN_def INT_MAX_def)

lemma ex_bank_reached: "bank_reach (\<lambda>_. True) ex_bank"
  by (rule bank_msg [OF ex_bank_reach [of "d_p ex_desk"] _ ex_add_legal, where i = 0 and ack = 41])
    (simp_all add: ex_bank_placed [folded ex_bank_def], simp add: bank_new_def)


section \<open>What a light may send\<close>



section \<open>Cancels that wait\<close>

fun eob_run :: "(int \<Rightarrow> bool) \<Rightarrow> u32 \<Rightarrow> payload list \<Rightarrow> desk \<Rightarrow> desk res" where
  "eob_run known ack [] d = Inr d"
| "eob_run known ack (p # ps) d = bnd (eob_handler known ack p d) (eob_run known ack ps)"

lemma eob_run_append: "eob_run known ack (ps @ qs) d = bnd (eob_run known ack ps d) (eob_run known ack qs)"
proof (induction ps arbitrary: d)
  case (Cons p ps)
  then show ?case
    by (cases "eob_handler known ack p d") simp_all
qed simp

text \<open>A burst on our instrument that gives a light with an order no reason of its own to act.\<close>

definition uneventful :: "(int \<Rightarrow> bool) \<Rightarrow> light \<Rightarrow> payload \<Rightarrow> bool" where
  "uneventful known l p \<longleftrightarrow> known (pt_sym (p_point p)) \<and> p_is_valid p = Inr () \<and> \<not> p_recovery p \<and> p_mkt p = l_md_venue l
     \<and> \<not> baddata (p_point p) \<and> p_mev p \<noteq> CLEAR \<and> p_action p \<noteq> EXEC \<and> \<not> p_is_canc p"

definition waiting :: "int \<Rightarrow> desk \<Rightarrow> bool" where
  "waiting n d \<longleftrightarrow> oi_working (oi d) \<and> l_pending_cancel_eob (d_light d) = n \<and> l_attached_order_id (d_light d) = 0 \<and> l_skip (d_light d) = 0"

lemma waiting_tick:
  assumes "waiting n d" "1 < n" "uneventful known (d_light d) p"
  shows "\<exists>d'. eob_handler known ack p d = Inr d' \<and> waiting (n - 1) d' \<and> d_out d' = d_out d \<and> d_q d' = d_q d \<and> oi d' = oi d
     \<and> l_md_venue (d_light d') = l_md_venue (d_light d) \<and> core_eq (d_light d) (d_light d')"
  using assms
  by (auto simp: core_eq_def eob_handler_def waiting_def uneventful_def tick_pending_def on_signal_def attached_gone_def oi_working_def Let_def)

lemma waiting_fires:
  assumes "waiting 1 d" "uneventful known (d_light d) p" "desk_ok d"
  shows "\<exists>d'. eob_handler known ack p d = Inr d' \<and> oi_canc (oi d') \<and> my_ord_id (oi d') = my_ord_id (oi d)
     \<and> d_out d' = d_out d @ [FastSend (CancelOrder (word_of_int (my_ord_id (oi d))) (p_txtim_epoch p) 0)]"
proof -
  obtain q where "qc_remove_order (d_q d) (my_px (oi d)) 0 (l_mmid (d_light d)) (my_ord_id (oi d)) True = Inr (0, q)"
    using remove_all_ok [of "d_q d" "l_mmid (d_light d)" "oi d"] assms(3) by (auto simp: desk_ok_def)
  then show ?thesis
    using assms(1,2)
    by (auto simp: eob_handler_def waiting_def uneventful_def tick_pending_def on_signal_def attached_gone_def oi_working_def
        cancel_if_working_def light_cancel_order_def get_oid_def Let_def)
qed

lemma waiting_run:
  assumes "waiting n d" "desk_ok d" "0 < n" "int (length qs) \<le> n" "\<forall>q\<in>set qs. uneventful known (d_light d) q"
  shows "\<exists>d'. eob_run known ack qs d = Inr d' \<and>
     (if int (length qs) < n then oi d' = oi d \<and> d_out d' = d_out d
      else oi_canc (oi d') \<and> d_out d' = d_out d @ [FastSend (CancelOrder (word_of_int (my_ord_id (oi d))) (p_txtim_epoch (last qs)) 0)])"
  using assms
proof (induction qs arbitrary: d n)
  case (Cons q qs)
  show ?case
  proof (cases "n = 1")
    case True
    then have "qs = []"
      using Cons.prems(4) by simp
    then show ?thesis
      using waiting_fires [of d known q ack] Cons.prems True by auto
  next
    case False
    obtain d1 where d1: "eob_handler known ack q d = Inr d1" "waiting (n - 1) d1" "d_out d1 = d_out d" "d_q d1 = d_q d" "oi d1 = oi d"
      "l_md_venue (d_light d1) = l_md_venue (d_light d)" "core_eq (d_light d) (d_light d1)"
      using waiting_tick [OF Cons.prems(1), of known q ack] Cons.prems(3,5) False by auto
    have "desk_ok d1"
      using desk_ok_core [OF d1(7,4)] Cons.prems(2) by simp
    moreover have "\<forall>q\<in>set qs. uneventful known (d_light d1) q"
      using Cons.prems(5) d1(6) by (simp add: uneventful_def)
    ultimately show ?thesis
      using Cons.IH [OF d1(2)] Cons.prems(3,4) False d1 by (auto split: if_splits)
  qed
qed auto

text \<open>
  C29. A deferred cancel leaves with the burst it is meant to leave with. When the record that
  takes away the order a light has attached to arrives and the delay is \<open>n\<close> bursts, the light
  sends nothing with that record and nothing with the next \<open>n - 1\<close> bursts of its instrument that
  give it no other reason to cancel; with the \<open>n\<close>th it sends one cancel for its order, stamped
  with the exchange time of that burst.
\<close>

theorem light_delayed_cancel_counts:
  assumes "bank_reach known b" "i < length (b_lights b)" "d = bank_desk i b" "attached_gone d p" "p_mkt p = l_md_venue (d_light d)"
    "known (pt_sym (p_point p))" "p_is_valid p = Inr ()" "\<not> p_recovery p" "\<not> baddata (p_point p)" "p_mev p \<noteq> CLEAR" "p_action p \<noteq> EXEC"
    "l_skip (d_light d) = 0" "l_pending_cancel_eob (d_light d) = 0" "n = l_delayed_cancel_events (d_light d)" "0 < n"
    "int (length qs) \<le> n" "\<forall>q\<in>set qs. uneventful known (d_light d) q"
  shows "\<exists>d'. eob_run known ack (p # qs) d = Inr d' \<and>
     (if int (length qs) < n then has_value (oi d') \<and> \<not> oi_canc (oi d') \<and> d_out d' = d_out d
      else oi_canc (oi d') \<and> d_out d' = d_out d @ [FastSend (CancelOrder (word_of_int (my_ord_id (oi d))) (p_txtim_epoch (last qs)) 0)])"
proof -
  have ok: "desk_ok d"
    using bank_reach_inv [OF assms(1)] assms(2,3) by (simp add: bank_inv_def)
  obtain d1 where d1: "eob_handler known ack p d = Inr d1" "waiting n d1" "d_out d1 = d_out d" "d_q d1 = d_q d" "oi d1 = oi d"
    "l_md_venue (d_light d1) = l_md_venue (d_light d)" "core_eq (d_light d) (d_light d1)"
    using assms(4-15)
    by (auto simp: eob_handler_def waiting_def tick_pending_def on_signal_def attached_gone_def detach_def core_eq_def
        oi_working_def Let_def)
  have "desk_ok d1"
    using desk_ok_core [OF d1(7,4)] ok by simp
  moreover have "\<forall>q\<in>set qs. uneventful known (d_light d1) q"
    using assms(17) d1(6) by (simp add: uneventful_def)
  ultimately show ?thesis
    using waiting_run [OF d1(2) _ assms(15,16), of known ack] assms(4) d1
    by (auto simp: attached_gone_def oi_working_def split: if_splits)
qed

definition ex_gone :: payload where
  "ex_gone = ex_add\<lparr>p_mev := DEL, p_action := CANC, p_txtim_epoch := 2000\<rparr>"

definition ex_tick :: "u64 \<Rightarrow> payload" where
  "ex_tick t = ex_add\<lparr>p_side := SEL, p_px := 103, p_ex_order_id := 88, p_txtim_epoch := t\<rparr>"

theorem light_delayed_cancel_counts_witness:
  "\<exists>d'. eob_run (\<lambda>_. True) 42 [ex_gone, ex_tick 3000, ex_tick 4000] ex_desk1 = Inr d'
     \<and> d_out d' = [FastSend (NewOrder ex_l_order), FastSend (CancelOrder 41 4000 0)]"
proof -
  have d: "ex_desk1 = bank_desk 0 ex_bank" "0 < length (b_lights ex_bank)"
    by (simp_all add: bank_desk_def ex_bank_def ex_desk1_def ex_desk_def)
  have p: "attached_gone ex_desk1 ex_gone" "p_mkt ex_gone = l_md_venue (d_light ex_desk1)" "p_is_valid ex_gone = Inr ()"
    "\<not> p_recovery ex_gone" "\<not> baddata (p_point ex_gone)" "p_mev ex_gone \<noteq> CLEAR" "p_action ex_gone \<noteq> EXEC"
    "l_skip (d_light ex_desk1) = 0" "l_pending_cancel_eob (d_light ex_desk1) = 0" "2 = l_delayed_cancel_events (d_light ex_desk1)"
    by (simp_all add: ex_gone_def ex_add_def ex_desk1_def ex_light_def ex_point_def light_eval mt_valid_def)
  have q: "\<forall>q\<in>set [ex_tick 3000, ex_tick 4000]. uneventful (\<lambda>_. True) (d_light ex_desk1) q"
    by (simp add: ex_tick_def ex_add_def ex_desk1_def ex_light_def ex_point_def light_eval mt_valid_def uneventful_def p_is_canc_def)
  have o: "d_out ex_desk1 = [FastSend (NewOrder ex_l_order)]" "my_ord_id (oi ex_desk1) = 41" "p_txtim_epoch (ex_tick 4000) = 4000"
    by (simp_all add: ex_desk1_def ex_tick_def)
  show ?thesis
    using light_delayed_cancel_counts [OF ex_bank_reached d(2,1) p(1,2) TrueI p(3-10), of "[ex_tick 3000, ex_tick 4000]" 42] q o
    by auto
qed

section \<open>The life of a crossing order\<close>

lemma send_shadow_armed:
  assumes "send_shadow ack p True sz d = Inr d1" "\<not> has_value (oi d)" "has_value (oi d1)" "0 \<le> sint ack" "0 < l_aggr_ttl_ms (d_light d)"
  shows "oi d1 = reset_or_init (sint ack) (p_px p) \<and> l_aggr_ttl_oid (d_light d1) = sint ack
     \<and> l_aggr_ttl_armed_tx (d_light d1) = p_txtim_epoch p \<and> l_aggr_ttl_ms (d_light d1) = l_aggr_ttl_ms (d_light d)
     \<and> AlarmClockSub (l_aggr_ttl_ms (d_light d) div 1000) (l_aggr_ttl_ms (d_light d) mod 1000) AGGR_TTL \<in> set (d_out d1)"
  using assms by (auto simp: send_shadow_def light_place_order_def Let_def split: if_splits)

lemma attach_and_place_armed:
  assumes "attach_and_place ack p True sz d = Inr d1" "\<not> has_value (oi d)" "has_value (oi d1)" "0 \<le> sint ack" "0 < l_aggr_ttl_ms (d_light d)"
  shows "oi d1 = reset_or_init (sint ack) (p_px p) \<and> l_aggr_ttl_oid (d_light d1) = sint ack
     \<and> l_aggr_ttl_armed_tx (d_light d1) = p_txtim_epoch p \<and> l_aggr_ttl_ms (d_light d1) = l_aggr_ttl_ms (d_light d)
     \<and> AlarmClockSub (l_aggr_ttl_ms (d_light d) div 1000) (l_aggr_ttl_ms (d_light d) mod 1000) AGGR_TTL \<in> set (d_out d1)"
  using assms
  by (auto simp: attach_and_place_def rate_gate_def Let_def split: if_splits dest: send_shadow_armed)

lemma place_if_can_armed:
  assumes "place_if_can_impl ack p True d = Inr d1" "\<not> has_value (oi d)" "has_value (oi d1)" "0 \<le> sint ack" "0 < l_aggr_ttl_ms (d_light d)"
  shows "oi d1 = reset_or_init (sint ack) (p_px p) \<and> l_aggr_ttl_oid (d_light d1) = sint ack
     \<and> l_aggr_ttl_armed_tx (d_light d1) = p_txtim_epoch p \<and> l_aggr_ttl_ms (d_light d1) = l_aggr_ttl_ms (d_light d)
     \<and> AlarmClockSub (l_aggr_ttl_ms (d_light d) div 1000) (l_aggr_ttl_ms (d_light d) mod 1000) AGGR_TTL \<in> set (d_out d1)"
proof -
  have "size_and_place ack p True (total_sz (d_q d)) d = Inr d1"
    using assms(1-3) by (auto simp: place_if_can_impl_def light_cancel_order_def Let_def split: if_splits)
  then obtain at_px q sz where "attach_and_place ack p True sz (d\<lparr>d_q := q\<rparr>) = Inr d1"
    using assms(2,3) by (auto simp: size_and_place_def Let_def split: if_splits)
  then show ?thesis
    using attach_and_place_armed [of ack p sz "d\<lparr>d_q := q\<rparr>" d1] assms(2-5) by simp
qed

lemma old_enough_iff:
  assumes "0 < l_aggr_ttl_ms l" "0 < l_aggr_ttl_armed_tx l" "uint (l_aggr_ttl_armed_tx l) + l_aggr_ttl_ms l * 1000000 < 2 ^ 64"
  shows "old_enough l now \<longleftrightarrow> uint (l_aggr_ttl_armed_tx l) + l_aggr_ttl_ms l * 1000000 \<le> uint now"
proof -
  let ?a = "l_aggr_ttl_armed_tx l" and ?t = "l_aggr_ttl_ms l"
  have t: "uint (word_of_int ?t * 1000000 :: u64) = ?t * 1000000"
  proof -
    have r: "0 \<le> ?t * 1000000" "?t * 1000000 < 2 ^ 64"
      using assms(1,3) uint_ge_0 [of ?a] by linarith+
    have "uint (word_of_int ?t * 1000000 :: u64) = uint (word_of_int (?t * 1000000) :: u64)"
      by simp
    also have "\<dots> = ?t * 1000000 mod 2 ^ 64"
      by (subst uint_word_of_int) simp
    also have "\<dots> = ?t * 1000000"
      by (rule mod_pos_pos_trivial [OF r])
    finally show ?thesis .
  qed
  show ?thesis
  proof (cases "?a < now")
    case True
    then have "uint (now - ?a) = uint now - uint ?a"
      by (simp add: uint_sub_if' word_less_def)
    then show ?thesis
      using True assms(2) by (simp add: old_enough_def word_le_def t) linarith
  next
    case False
    then have "uint now \<le> uint ?a"
      by (simp add: word_less_def not_less)
    then show ?thesis
      using False assms(1) by (simp add: old_enough_def)
  qed
qed

text \<open>
  C33. An order that crosses lives for its time and no longer. When a light answers a trade with
  an order, the timer is asked for an alarm after \<open>aggr_ttl_ms\<close> milliseconds. An alarm of that
  kind while the order still works cancels it if the exchange time of the alarm is at least that
  much after the trade, and otherwise, as for an alarm left over from an earlier order, changes
  nothing.
\<close>

theorem light_crossing_order_expires:
  assumes "bank_reach known b" "i < length (b_lights b)" "d = bank_desk i b" "\<not> has_value (oi d)"
    "0 < p_px p" "int32 (p_px p)" "in32 (p_sz p)"
    "place_if_can_impl ack p True d = Inr d1" "has_value (oi d1)" "0 \<le> sint ack" "ttl = l_aggr_ttl_ms (d_light d)" "0 < ttl"
    "0 < p_txtim_epoch p" "uint (p_txtim_epoch p) + ttl * 1000000 < 2 ^ 64"
  shows "AlarmClockSub (ttl div 1000) (ttl mod 1000) AGGR_TTL \<in> set (d_out d1)
     \<and> (\<exists>d2. alarm_handler AGGR_TTL now d1 = Inr d2 \<and>
          (if uint (p_txtim_epoch p) + ttl * 1000000 \<le> uint now
           then oi_canc (oi d2) \<and> d_out d2 = d_out d1 @ [FastSend (CancelOrder (word_of_int (sint ack)) now 0)]
           else d2 = d1))"
proof -
  have "desk_ok d"
    using bank_reach_inv [OF assms(1)] assms(2,3) by (simp add: bank_inv_def)
  then have ok: "desk_ok d1"
    using place_if_can_ok [of d p ack True] assms(4-8) by auto
  note a = place_if_can_armed [OF assms(8,4,9,10)]
  have arm: "oi d1 = reset_or_init (sint ack) (p_px p)" "l_aggr_ttl_oid (d_light d1) = sint ack"
    "l_aggr_ttl_armed_tx (d_light d1) = p_txtim_epoch p" "l_aggr_ttl_ms (d_light d1) = ttl"
    "AlarmClockSub (ttl div 1000) (ttl mod 1000) AGGR_TTL \<in> set (d_out d1)"
    using a assms(11,12) by auto
  have old: "old_enough (d_light d1) now \<longleftrightarrow> uint (p_txtim_epoch p) + ttl * 1000000 \<le> uint now"
    using old_enough_iff [of "d_light d1" now] arm(3,4) assms(12-14) by simp
  obtain q where "qc_remove_order (d_q d1) (my_px (oi d1)) 0 (l_mmid (d_light d1)) (my_ord_id (oi d1)) True = Inr (0, q)"
    using remove_all_ok [of "d_q d1" "l_mmid (d_light d1)" "oi d1"] ok by (auto simp: desk_ok_def)
  then show ?thesis
    using arm old
    by (auto simp: alarm_handler_def alarm_handler_impl_def AGGR_TTL_def UNSUSPEND_def RESET_LAST_TRADE_PRICE_def
        oi_working_def reset_or_init_def light_cancel_order_def get_oid_def Let_def)
qed

definition ex_trade :: payload where
  "ex_trade = ex_add\<lparr>p_side := SEL, p_px := 101, p_sz := 2, p_mev := MOD, p_action := EXEC, p_txtim_epoch := 5000\<rparr>"

theorem light_crossing_order_expires_witness:
  "\<exists>d1 d2 d3. place_if_can_impl 41 ex_trade True ex_desk = Inr d1
     \<and> alarm_handler AGGR_TTL 900000 d1 = Inr d2 \<and> d2 = d1
     \<and> alarm_handler AGGR_TTL 1005000 d1 = Inr d3 \<and> oi_canc (oi d3)"
proof -
  have d: "ex_desk = bank_desk 0 (bank_new [ex_light] (d_p ex_desk))" "0 < length (b_lights (bank_new [ex_light] (d_p ex_desk)))"
    by (simp_all add: bank_desk_def bank_new_def ex_desk_def)
  have p: "\<not> has_value (oi ex_desk)" "0 < p_px ex_trade" "int32 (p_px ex_trade)" "in32 (p_sz ex_trade)" "0 \<le> sint (41 :: u32)"
    "1 = l_aggr_ttl_ms (d_light ex_desk)" "0 < (1 :: int)" "0 < p_txtim_epoch ex_trade"
    "uint (p_txtim_epoch ex_trade) + 1 * 1000000 < 2 ^ 64"
    by (simp_all add: ex_desk_def ex_light_def oi_empty_def ex_trade_def ex_add_def int32_def INT_MIN_def INT_MAX_def in32_def)
  obtain d1 where d1: "place_if_can_impl 41 ex_trade True ex_desk = Inr d1" "has_value (oi d1)"
    by (auto simp: ex_desk_def ex_trade_def ex_add_def ex_light_def ex_point_def light_eval cache_clear_def)
  have t: "uint (p_txtim_epoch ex_trade) = 5000"
    by (simp add: ex_trade_def)
  show ?thesis
    using light_crossing_order_expires [OF ex_bank_reach d(2,1) p(1-4) d1 p(5-9), of 900000]
      light_crossing_order_expires [OF ex_bank_reach d(2,1) p(1-4) d1 p(5-9), of 1005000] d1(1) t by auto
qed

text \<open>
  The delay in milliseconds has no such guard: the alarm names no order, so one armed for an order
  that has since been filled cancels the order placed after it, however young.
\<close>

theorem light_stale_delayed_cancel:
  assumes "desk_ok d" "oi_working (oi d)"
  shows "\<exists>d'. alarm_handler DELAYED_CANCEL now d = Inr d' \<and> oi_canc (oi d')
     \<and> d_out d' = d_out d @ [FastSend (CancelOrder (word_of_int (my_ord_id (oi d))) now 0)]"
proof -
  obtain q where "qc_remove_order (d_q d) (my_px (oi d)) 0 (l_mmid (d_light d)) (my_ord_id (oi d)) True = Inr (0, q)"
    using remove_all_ok [of "d_q d" "l_mmid (d_light d)" "oi d"] assms(1) by (auto simp: desk_ok_def)
  then show ?thesis
    using assms(2)
    by (auto simp: alarm_handler_def alarm_handler_impl_def AGGR_TTL_def UNSUSPEND_def RESET_LAST_TRADE_PRICE_def
        DELAYED_CANCEL_def oi_working_def light_cancel_order_def get_oid_def Let_def)
qed

section \<open>A cancel that was refused\<close>

fun light_run :: "(int \<Rightarrow> bool) \<Rightarrow> u32 \<Rightarrow> light_msg list \<Rightarrow> desk \<Rightarrow> desk res" where
  "light_run known ack [] d = Inr d"
| "light_run known ack (m # ms) d = bnd (light_handle known ack m d) (light_run known ack ms)"

fun to_market :: "light_out \<Rightarrow> bool" where
  "to_market (FastSend m) = True"
| "to_market (SendSom m) = True"
| "to_market _ = False"

fun answer :: "light_msg \<Rightarrow> bool" where
  "answer (LM_CancAck i) = True"
| "answer (LM_Fill m) = True"
| "answer (LM_Reject i r) = True"
| "answer (LM_CancReject i r) = True"
| "answer _ = False"

definition slot_held :: "ord_info_t \<Rightarrow> light_out list \<Rightarrow> desk \<Rightarrow> bool" where
  "slot_held r out d \<longleftrightarrow> oi d = r \<and> filter to_market (d_out d) = filter to_market out"

lemma slot_held_cancel: "slot_held r out d \<Longrightarrow> has_value r \<Longrightarrow> oi_canc r \<Longrightarrow> light_cancel_order b d = Inr d' \<Longrightarrow> slot_held r out d'"
  by (auto simp: slot_held_def light_cancel_order_def Let_def)

lemma slot_held_if_working: "slot_held r out d \<Longrightarrow> oi_canc r \<Longrightarrow> cancel_if_working d = Inr d"
  by (auto simp: slot_held_def cancel_if_working_def oi_working_def)

lemma slot_held_eob:
  assumes "slot_held r out d" "has_value r" "oi_canc r" "eob_handler known ack p d = Inr d'"
  shows "slot_held r out d'"
  using assms
  by (auto simp: eob_handler_def slot_held_def tick_pending_def cancel_if_working_def oi_working_def on_signal_def attached_gone_def
      Let_def split: if_splits)

lemma slot_held_step:
  assumes "slot_held r out d" "has_value r" "oi_canc r" "light_handle known ack m d = Inr d'" "\<not> answer m"
  shows "slot_held r out d'"
proof (cases m)
  case (LM_EndOfBurst p)
  then show ?thesis
    using slot_held_eob assms by simp
next
  case LM_Clear
  then obtain d1 where d1: "light_cancel_order False d = Inr d1" "d' = upd_light (\<lambda>l. l\<lparr>l_skip := 10\<rparr>) d1"
    using assms(4) by (auto simp: clear_handler_def)
  show ?thesis
    using slot_held_cancel [OF assms(1-3) d1(1)] d1(2) by (simp add: slot_held_def)
next
  case (LM_Set key v a)
  then show ?thesis
    using assms by (cases key) (auto simp: light_set_handler_def trading_off_def slot_held_def cancel_if_working_def oi_working_def split: option.splits)
next
  case LM_Start
  then show ?thesis
    using assms(1,4) by (auto simp: light_start_def slot_held_def Let_def split: option.splits)
qed (use assms in \<open>auto simp: slot_held_def light_start_def tradenotify_handler_def alarm_handler_def alarm_handler_impl_def
      cancel_if_working_def oi_working_def Let_def split: option.splits if_splits\<close>)

lemma slot_held_run:
  assumes "desk_ok d" "slot_held r out d" "has_value r" "oi_canc r" "\<forall>m\<in>set ms. \<not> answer m \<and> (\<forall>d. legal known m d)"
  shows "\<exists>d'. light_run known ack ms d = Inr d' \<and> slot_held r out d'"
  using assms(1,2,5)
proof (induction ms arbitrary: d)
  case (Cons m ms)
  obtain d1 where d1: "light_handle known ack m d = Inr d1" "desk_ok d1"
    using handle_fine [of d known m ack] Cons.prems by (auto simp: fine_def)
  then show ?case
    using slot_held_step [OF Cons.prems(2) assms(3,4) d1(1)] Cons.IH [of d1] Cons.prems(3) by auto
qed auto


definition ex_cancelled :: bank where
  "ex_cancelled = projr (bank_handle (\<lambda>_. True) 42 0 LM_GapDetected ex_bank)"

lemma ex_cancelled_step: "bank_handle (\<lambda>_. True) 42 0 LM_GapDetected ex_bank = Inr ex_cancelled"
  using bank_inv_step [OF bank_reach_inv [OF ex_bank_reached], of 0 "\<lambda>_. True" LM_GapDetected 42]
  by (auto simp: ex_cancelled_def ex_bank_def)

lemma ex_cancelled_reached: "bank_reach (\<lambda>_. True) ex_cancelled"
  by (rule bank_msg [OF ex_bank_reached _ _ ex_cancelled_step]) (simp_all add: ex_bank_def)

lemma ex_cancelled_state:
  "length (b_lights ex_cancelled) = 1" "has_value (oi (bank_desk 0 ex_cancelled))" "oi_canc (oi (bank_desk 0 ex_cancelled))"
  "d_out (bank_desk 0 ex_cancelled) = [FastSend (NewOrder ex_l_order), FastSend (CancelOrder 41 1000 0)]"
  by (simp_all add: ex_cancelled_def ex_bank_def bank_handle_def bank_desk_def ex_desk1_def ex_desk_def ex_light_def
      cancel_if_working_def oi_working_def light_cancel_order_def get_oid_def qc_remove_order_def ex_q_def QCoord_init_def
      kMaxMmid_def fm_find_def bit_set_bit_iff upd_light_def emits_def Let_def)


section \<open>A fill that comes late\<close>

definition late_fill :: som_fill where
  "late_fill = \<lparr>f_id = 40, f_venue = 5, f_sym = 3, f_px = 99, f_side = BUY, f_sz = 2, f_stbf = 0, f_owner = 0, f_tim = 0\<rparr>"


end
