(* ===== verification/Light_Flags.thy ===== *)
theory Light_Flags
  imports Light_Properties
begin

text \<open>
  The two switches of a light that are meant to stop it: \<open>trading\<close>, which the messages \<open>Stop\<close> and
  \<open>Set\<close> clear, and \<open>orders_suspended\<close>, which a reject sets for a while. The theory shows that
  neither is ever read to any effect: a light does the same whatever they hold.
\<close>

definition with_flags :: "bool \<Rightarrow> bool \<Rightarrow> desk \<Rightarrow> desk" where
  "with_flags t u d = upd_light (\<lambda>l. l\<lparr>l_trading := t, l_orders_suspended := u\<rparr>) d"

definition wf_res :: "bool \<Rightarrow> bool \<Rightarrow> desk res \<Rightarrow> desk res" where
  "wf_res t u r = bnd r (\<lambda>d. Inr (with_flags t u d))"

lemma wf_res_simps [simp]:
  "wf_res t u (Inr d) = Inr (with_flags t u d)" "wf_res t u (Inl e) = Inl e"
  "wf_res t u (chk c m r) = chk c m (wf_res t u r)" "wf_res t u (if c then r else r') = (if c then wf_res t u r else wf_res t u r')"
  by (simp_all add: wf_res_def chk_def)

lemma wf_res_bnd: "wf_res t u (bnd r f) = bnd r (\<lambda>x. wf_res t u (f x))"
  by (cases r) (simp_all add: wf_res_def)

lemma bnd_wf_res: "bnd (wf_res t u r) f = bnd r (\<lambda>d. f (with_flags t u d))"
  by (cases r) (simp_all add: wf_res_def)

lemma with_flags_sel [simp]:
  "d_q (with_flags t u d) = d_q d" "d_p (with_flags t u d) = d_p d" "d_out (with_flags t u d) = d_out d"
  "d_light (with_flags t u d) = (d_light d)\<lparr>l_trading := t, l_orders_suspended := u\<rparr>"
  by (simp_all add: with_flags_def)

lemma with_flags_emits: "emits ms (with_flags t u d) = with_flags t u (emits ms d)"
  by (simp add: with_flags_def emits_def upd_light_def)

lemma with_flags_q: "(with_flags t u d)\<lparr>d_q := q\<rparr> = with_flags t u (d\<lparr>d_q := q\<rparr>)" "(with_flags t u d)\<lparr>d_p := pc\<rparr> = with_flags t u (d\<lparr>d_p := pc\<rparr>)"
  by (simp_all add: with_flags_def upd_light_def)

text \<open>A change of the light that does not depend on the switches.\<close>

definition blind :: "(light \<Rightarrow> light) \<Rightarrow> bool" where
  "blind f \<longleftrightarrow> (\<forall>l t u. f (l\<lparr>l_trading := t, l_orders_suspended := u\<rparr>) = (f l)\<lparr>l_trading := t, l_orders_suspended := u\<rparr>)"

lemma with_flags_upd: "blind f \<Longrightarrow> upd_light f (with_flags t u d) = with_flags t u (upd_light f d)"
  by (simp add: with_flags_def upd_light_def blind_def)

lemma blind_upds [simp]:
  "blind (\<lambda>l. l\<lparr>l_pending_cancel_eob := k\<rparr>)" "blind (\<lambda>l. l\<lparr>l_cancel_requests := insert i (l_cancel_requests l)\<rparr>)"
  "blind (\<lambda>l. l\<lparr>l_ord_info := (l_ord_info l)\<lparr>oi_canc := b\<rparr>\<rparr>)" "blind (\<lambda>l. l\<lparr>l_ord_info := r\<rparr>)"
  "blind (\<lambda>l. l\<lparr>l_aggr_ttl_oid := k, l_aggr_ttl_armed_tx := ts\<rparr>)"
  "blind (\<lambda>l. l\<lparr>l_attached_order_id := x, l_attached_is_trade := b\<rparr>)" "blind (\<lambda>l. l\<lparr>l_eob_counter := k\<rparr>)"
  "blind (\<lambda>l. l\<lparr>l_unskipped := l_unskipped l + 1\<rparr>)" "blind (\<lambda>l. l\<lparr>l_curr_tx_time := ts\<rparr>)"
  "blind (\<lambda>l. l\<lparr>l_skip := l_skip l - 1\<rparr>)" "blind (\<lambda>l. l\<lparr>l_skip := k\<rparr>)" "blind (\<lambda>l. l\<lparr>l_rng_pos := l_rng_pos l + 1\<rparr>)"
  by (simp_all add: blind_def)

lemma with_flags_if:
  "with_flags t u (if c then d else d') = (if c then with_flags t u d else with_flags t u d')"
  "upd_light f (if c then d else d') = (if c then upd_light f d else upd_light f d')"
  by simp_all

lemmas wf_simps = with_flags_emits with_flags_q with_flags_upd wf_res_bnd bnd_wf_res

lemma wf_cancel: "light_cancel_order b (with_flags t u d) = wf_res t u (light_cancel_order b d)"
  by (cases b) (simp_all add: light_cancel_order_def wf_simps Let_def case_prod_unfold)

lemma wf_cancel_if: "cancel_if_working (with_flags t u d) = wf_res t u (cancel_if_working d)"
  by (simp add: cancel_if_working_def wf_cancel)

lemma wf_guards [simp]:
  "oi (with_flags t u d) = oi d" "at_target (with_flags t u d) = at_target d" "attached_gone (with_flags t u d) p = attached_gone d p"
  "compute_diff_from_target (with_flags t u d) = compute_diff_from_target d"
  "compute_possible_order_sz (with_flags t u d) at_px n = compute_possible_order_sz d at_px n"
  "wrong_side (l\<lparr>l_trading := t, l_orders_suspended := u\<rparr>) = wrong_side l"
  "would_cross (l\<lparr>l_trading := t, l_orders_suspended := u\<rparr>) p = would_cross l p"
  "too_far (l\<lparr>l_trading := t, l_orders_suspended := u\<rparr>) p = too_far l p"
  "too_far_from_inside (l\<lparr>l_trading := t, l_orders_suspended := u\<rparr>) p = too_far_from_inside l p"
  "old_enough (l\<lparr>l_trading := t, l_orders_suspended := u\<rparr>) now = old_enough l now"
  by (simp_all add: at_target_def attached_gone_def compute_diff_from_target_def compute_possible_order_sz_def wrong_side_def
      would_cross_def too_far_def too_far_from_inside_def old_enough_def Let_def cong: if_cong)

lemma bnd_bnd: "bnd (bnd r f) g = bnd r (\<lambda>x. bnd (f x) g)"
  by (cases r) simp_all

lemma bnd_chk: "bnd (chk c m r) g = chk c m (bnd r g)"
  by (simp add: chk_def)

lemma wf_place_order:
  "light_place_order ack price sz ts (with_flags t u d) = bnd (light_place_order ack price sz ts d) (\<lambda>(oid, d1). Inr (oid, with_flags t u d1))"
  by (simp add: light_place_order_def wf_simps bnd_bnd bnd_chk Let_def)

lemma wf_send_shadow: "send_shadow ack p g sz (with_flags t u d) = wf_res t u (send_shadow ack p g sz d)"
proof (cases "light_place_order ack (p_px p) sz (p_txtim_epoch p) d")
  case (Inr x)
  then show ?thesis
    by (cases x) (simp add: send_shadow_def wf_place_order wf_simps Let_def)
qed (simp add: send_shadow_def wf_place_order)

lemma wf_rate_gate:
  "rate_gate g (l\<lparr>l_trading := t, l_orders_suspended := u\<rparr>) =
     (let (l1, go) = rate_gate g l in (l1\<lparr>l_trading := t, l_orders_suspended := u\<rparr>, go))"
  by (simp add: rate_gate_def)

lemma wf_attach: "attach_and_place ack p g sz (with_flags t u d) = wf_res t u (attach_and_place ack p g sz d)"
proof -
  have l: "(with_flags t u d1)\<lparr>d_light := l\<lparr>l_trading := t, l_orders_suspended := u\<rparr>\<rparr> = with_flags t u (d1\<lparr>d_light := l\<rparr>)" for d1 l
    by (simp add: with_flags_def upd_light_def)
  let ?f = "\<lambda>l. l\<lparr>l_attached_order_id := p_ex_order_id p, l_attached_is_trade := g\<rparr>"
  define d1 where "d1 = upd_light ?f d"
  have d1: "upd_light ?f (with_flags t u d) = with_flags t u d1"
    by (simp add: d1_def wf_simps)
  obtain l1 go where r: "rate_gate g (d_light d1) = (l1, go)"
    by (cases "rate_gate g (d_light d1)") simp
  show ?thesis
    unfolding attach_and_place_def d1 d1_def [symmetric] by (simp add: r wf_simps wf_rate_gate wf_send_shadow l Let_def)
qed

lemma wf_size_and_place: "size_and_place ack p g w (with_flags t u d) = wf_res t u (size_and_place ack p g w d)"
  by (simp add: size_and_place_def wf_simps wf_attach Let_def case_prod_unfold cong: if_cong)

lemma wf_place_if_can: "place_if_can_impl ack p g (with_flags t u d) = wf_res t u (place_if_can_impl ack p g d)"
  by (cases "at_target d") (auto simp: place_if_can_impl_def wf_size_and_place wf_cancel Let_def at_target_def split: if_splits)

lemma wf_canc_if_must: "canc_if_must_impl p b (with_flags t u d) = wf_res t u (canc_if_must_impl p b d)"
  by (simp add: canc_if_must_impl_def wf_simps wf_cancel Let_def case_prod_unfold cong: if_cong)

lemma wf_detach: "detach (with_flags t u d) = wf_res t u (detach d)"
  by (simp add: detach_def wf_simps wf_cancel_if Let_def cong: if_cong)

lemma wf_tick: "tick_pending (with_flags t u d) = wf_res t u (tick_pending d)"
  by (simp add: tick_pending_def wf_simps wf_cancel_if Let_def cong: if_cong)

lemma wf_on_signal: "on_signal ack p (with_flags t u d) = wf_res t u (on_signal ack p d)"
  by (simp add: on_signal_def wf_simps wf_detach wf_place_if_can wf_canc_if_must cong: if_cong)

lemma wf_eob: "eob_handler known ack p (with_flags t u d) = wf_res t u (eob_handler known ack p d)"
  by (simp add: eob_handler_def wf_simps wf_tick wf_cancel_if wf_on_signal Let_def cong: if_cong)

text \<open>A trade is acted on, drawn for, or neither.\<close>

definition trade_counts :: "light \<Rightarrow> payload \<Rightarrow> bool" where
  "trade_counts l p \<longleftrightarrow> \<not> l_aggr_participation_bp l \<le> 0 \<and> \<not> (p_mkt p \<noteq> l_md_venue l \<or> has_value (l_ord_info l))
     \<and> \<not> (l_side l = BUY \<and> \<not> (p_is_trade p \<and> p_side p = SEL)) \<and> \<not> (l_side l = SEL \<and> \<not> (p_is_trade p \<and> p_side p = BUY))"

lemma four_guards:
  "(if a then x else if b then x else if c then x else if e then x else y) = (if \<not> a \<and> \<not> b \<and> \<not> c \<and> \<not> e then y else x)"
  by simp

lemma tradenotify_alt:
  "tradenotify_handler ack (Some p) d =
     (if trade_counts (d_light d) p
      then if (ucast (l_rng (d_light d) (l_rng_pos (d_light d))) :: u64) \<ge> l_aggr_participation_thresh (d_light d)
           then Inr (upd_light (\<lambda>l. l\<lparr>l_rng_pos := l_rng_pos l + 1\<rparr>) d)
           else place_if_can_impl ack p True (upd_light (\<lambda>l. l\<lparr>l_rng_pos := l_rng_pos l + 1\<rparr>) d)
      else Inr d)"
  unfolding tradenotify_handler_def trade_counts_def Let_def option.case by (rule four_guards)

lemma wf_tradenotify: "tradenotify_handler ack m (with_flags t u d) = wf_res t u (tradenotify_handler ack m d)"
proof (cases m)
  case None
  then show ?thesis
    by (simp add: tradenotify_handler_def Let_def)
next
  case (Some p)
  have "trade_counts (d_light (with_flags t u d)) p = trade_counts (d_light d) p"
    by (simp add: trade_counts_def)
  moreover have u: "upd_light (\<lambda>l. l\<lparr>l_rng_pos := l_rng_pos l + 1\<rparr>) (with_flags t u d) = with_flags t u (upd_light (\<lambda>l. l\<lparr>l_rng_pos := l_rng_pos l + 1\<rparr>) d)"
    by (rule with_flags_upd) (simp add: blind_def)
  moreover have "(ucast (l_rng (d_light (with_flags t u d)) (l_rng_pos (d_light (with_flags t u d)))) :: u64) \<ge> l_aggr_participation_thresh (d_light (with_flags t u d))
      \<longleftrightarrow> (ucast (l_rng (d_light d) (l_rng_pos (d_light d))) :: u64) \<ge> l_aggr_participation_thresh (d_light d)"
    by simp
  ultimately show ?thesis
    unfolding Some tradenotify_alt by (simp only: wf_place_if_can wf_res_simps)
qed

lemma wf_clear: "clear_handler (with_flags t u d) = wf_res t u (clear_handler d)"
  by (simp add: clear_handler_def wf_simps wf_cancel)

lemma wf_book_fill: "book_fill m (with_flags t u d) = wf_res t u (book_fill m d)"
proof (cases "has_value (oi d) \<and> sint (f_id m) = my_ord_id (oi d) \<and> \<not> oi_canc (oi d)")
  case True
  then show ?thesis
    unfolding book_fill_def wf_guards with_flags_sel by (simp add: wf_res_bnd with_flags_q case_prod_unfold)
next
  case False
  have "book_fill m d1 = Inr d1" if "oi d1 = oi d" for d1
    unfolding book_fill_def that if_not_P [OF False] ..
  then show ?thesis
    by simp
qed

lemma wf_fill: "som_fill_handler m (with_flags t u d) = wf_res t u (som_fill_handler m d)"
proof -
  have l: "blind (\<lambda>l. l\<lparr>l_last_fill_msg := l_last_fill_msg l @ [(m, l_curr_tx_time l)]\<rparr>)"
    by (simp add: blind_def)
  show ?thesis
    unfolding som_fill_handler_def with_flags_q wf_book_fill bnd_wf_res wf_res_bnd
    by (cases "f_stbf m \<le> 0") (simp_all add: with_flags_q with_flags_upd l with_flags_emits Let_def del: bnd_eq_Inr)
qed

lemma wf_ack: "som_canc_ack_handler i (with_flags t u d) = wf_res t u (som_canc_ack_handler i d)"
proof -
  have l: "blind (\<lambda>l. l\<lparr>l_cancel_requests := l_cancel_requests l - {sint i}\<rparr>)"
    by (simp add: blind_def)
  show ?thesis
    by (cases "sint i \<in> l_cancel_requests (d_light d)")
      (simp_all add: som_canc_ack_handler_def l wf_simps bnd_bnd case_prod_unfold with_flags_if cong: if_cong)
qed

lemma blind_counts:
  "blind (\<lambda>l. l\<lparr>l_num_canc_rej_from_exchange := k\<rparr>)" "blind (\<lambda>l. l\<lparr>l_num_canc_rej_unk := k\<rparr>)"
  "blind (\<lambda>l. l\<lparr>l_num_rej_from_exchange := k\<rparr>)" "blind (\<lambda>l. l\<lparr>l_position_info := pinf\<rparr>)"
  "blind (\<lambda>l. l\<lparr>l_subs := add_sub a (l_subs l)\<rparr>)" "blind (\<lambda>l. l\<lparr>l_targetpos := k\<rparr>)"
  "blind (\<lambda>l. l\<lparr>l_lev_orders_max := k, l_ord_sz := k, l_all_orders_max := orders_cap k (l_nlevels l) (l_max_dist_for_cap l)\<rparr>)"
  by (simp_all add: blind_def)

lemma wf_cancrej: "som_cancrej_handler i r (with_flags t u d) = wf_res t u (som_cancrej_handler i r d)"
  by (cases r) (simp_all add: som_cancrej_handler_def resend_cancel_def wf_simps blind_counts wf_cancel with_flags_if Let_def cong: if_cong)

lemma with_flags_set:
  "upd_light (\<lambda>l. l\<lparr>l_trading := b\<rparr>) (with_flags t u d) = with_flags b u (upd_light (\<lambda>l. l\<lparr>l_trading := b\<rparr>) d)"
  "upd_light (\<lambda>l. l\<lparr>l_orders_suspended := b\<rparr>) (with_flags t u d) = with_flags t b (upd_light (\<lambda>l. l\<lparr>l_orders_suspended := b\<rparr>) d)"
  by (simp_all add: with_flags_def upd_light_def)

lemma wf_reject: "\<exists>u'. som_reject_handler i r (with_flags t u d) = wf_res t u' (som_reject_handler i r d)"
proof -
  obtain u' where p: "reject_pause r (with_flags t u d1) = with_flags t u' (reject_pause r d1)" for d1
  proof (cases "r \<in> {RJ_THROTTLE, RJ_EXCHLIMIT, RJ_DISCONNECTED}")
    case True
    then show thesis
      by (intro that [of True]) (auto simp: reject_pause_def suspend_orders_def wf_simps with_flags_set blind_counts)
  next
    case False
    then show thesis
      by (intro that [of u]) (auto simp: reject_pause_def wf_simps)
  qed
  have "som_reject_handler i r (with_flags t u d) = wf_res t u' (som_reject_handler i r d)"
    by (cases "has_value (oi d)")
      (simp_all add: som_reject_handler_def wf_simps p blind_counts bnd_bnd case_prod_unfold with_flags_if Let_def cong: if_cong)
  then show ?thesis ..
qed

lemma wf_alarm: "\<exists>u'. alarm_handler timer now (with_flags t u d) = wf_res t u' (alarm_handler timer now d)"
proof (cases "timer = UNSUSPEND")
  case True
  then show ?thesis
    by (auto simp: alarm_handler_def with_flags_set)
next
  case False
  have "alarm_handler timer now (with_flags t u d) = wf_res t u (alarm_handler timer now d)"
    using False
    by (simp add: alarm_handler_def alarm_handler_impl_def wf_simps wf_cancel bnd_bnd ex_bool_eq Let_def)
  then show ?thesis ..
qed

lemma wf_set: "\<exists>t'. light_set_handler key v a (with_flags t u d) = wf_res t' u (light_set_handler key v a d)"
  by (cases key) (auto simp: light_set_handler_def trading_off_def with_flags_set wf_cancel_if wf_simps blind_counts split: option.splits)

lemma wf_handle: "\<exists>t' u'. light_handle known ack msg (with_flags t u d) = wf_res t' u' (light_handle known ack msg d)"
proof (cases msg)
  case LM_Start
  have "light_start (with_flags t u d) = with_flags t u (light_start d)"
    by (simp add: light_start_def wf_simps Let_def split: option.split)
  then show ?thesis
    using LM_Start by auto
next
  case (LM_EndOfBurst p)
  then show ?thesis
    using wf_eob by auto
next
  case (LM_TradeNotify m)
  then show ?thesis
    using wf_tradenotify by auto
next
  case LM_GapDetected
  then show ?thesis
    using wf_cancel_if by auto
next
  case LM_Clear
  then show ?thesis
    using wf_clear by auto
next
  case (LM_Alarm i now)
  then show ?thesis
    using wf_alarm by simp blast
next
  case (LM_Set key v a)
  then show ?thesis
    using wf_set by simp blast
next
  case (LM_CancAck i)
  then show ?thesis
    using wf_ack by auto
next
  case (LM_Fill m)
  then show ?thesis
    using wf_fill by auto
next
  case (LM_Reject i r)
  then show ?thesis
    using wf_reject by simp blast
next
  case (LM_CancReject i r)
  then show ?thesis
    using wf_cancrej by auto
qed (auto simp: with_flags_set wf_simps blind_counts)

text \<open>
  C23. Stopping a light does not stop it. Whatever the switches \<open>trading\<close> and \<open>orders_suspended\<close>
  hold, a light given the same messages aborts in the same places, sends the same messages in the
  same order and leaves the coordinator and the position the same: two runs that differ in the
  switches differ in nothing else. In particular a light that was told to stop places its next
  order as if it had not been.
\<close>

theorem light_switches_unread:
  "\<exists>t' u'. light_run known ack msgs (with_flags t u d) =
     (case light_run known ack msgs d of Inl e \<Rightarrow> Inl e | Inr d' \<Rightarrow> Inr (with_flags t' u' d'))
   \<and> (\<forall>d'. d_out (with_flags t' u' d') = d_out d' \<and> d_q (with_flags t' u' d') = d_q d' \<and> d_p (with_flags t' u' d') = d_p d')"
proof (induction msgs arbitrary: t u d)
  case (Cons m msgs)
  obtain t' u' where h: "light_handle known ack m (with_flags t u d) = wf_res t' u' (light_handle known ack m d)"
    using wf_handle by blast
  show ?case
  proof (cases "light_handle known ack m d")
    case (Inr d1)
    then show ?thesis
      using h Cons.IH [of t' u' d1] by simp
  qed (simp add: h)
qed auto

end
