(* ===== verification/Mdp3_Sequence.thy ===== *)
theory Mdp3_Sequence
  imports Flat_Map
begin

text \<open>
  \<open>mdp3::MessageProcessor\<close> (\<open>src/mdp3/include/mdp3/act/MessageProcessor.hpp\<close>): the actor
  between the two multicast lines of a channel and the decoder. Both lines carry every packet;
  the actor keeps packets that come early on \<open>msg_q\<close>, a map from the sequence number to the
  packet, hands the decoder each sequence number once and in order, and when a number stays
  out waits for two more packets before it asks \<open>RecoveryProcessor\<close> for a snapshot or, with
  recovery off, skips the hole.

  The decoder is the argument \<open>D\<close>, the three requests the actor sends to it by
  \<open>fast_send\<close>, which run inline; \<open>Mdp3_Decoder\<close> gives the one of the program. What the actor
  does to its surroundings is the list \<open>mp_out\<close>. The handlers are \<open>noexcept\<close>, so an abort
  in the decoder ends the process. \<open>FORCEINSTRUMENTRECOVERY\<close>, \<open>INSTRECOVERYONGAP\<close> and
  \<open>SENDEOBURST\<close> are defined in no build file; log lines are left out.
\<close>

section \<open>Packets and the decoder\<close>

type_synonym byte = "8 word"

record message_buffer =
  mb_seqnum :: u32
  mb_message :: "byte list"
  mb_len :: nat
  mb_recv_ts :: u64
  mb_hw_ts :: u64
  mb_chan :: char
  mb_src_ip :: u32
  mb_dst_port :: "16 word"
  mb_qlen :: u32

record DecodePacket =
  dp_data :: "byte list"
  dp_len :: nat
  dp_ts :: u64
  dp_qlen :: u32

record 'd decoder_if =
  on_decode_packet :: "DecodePacket \<Rightarrow> 'd \<Rightarrow> (bool \<times> bool \<times> 'd) res"
  on_gap :: "'d \<Rightarrow> 'd res"
  on_print_stats :: "'d \<Rightarrow> 'd res"

section \<open>State\<close>

datatype mp_event =
    Decode u32 DecodePacket bool
  | GapCmd
  | PrintStatsCmd
  | DoDataRecovery
  | DoInstrumentRecovery
  | WakeUp nat
  | SelfStopQ
  | SelfStartQ
  | ReplyText string
  | ReplyStats u32 u64 u64 u32

record 'd MessageProcessor =
  recovery_processor :: bool
  mp_decoder :: 'd
  msg_q :: "(u32, message_buffer) flat_map"
  dorecovery :: bool
  in_data_recovery :: bool
  in_instr_recovery :: bool
  instr_recoveryonstart :: bool
  data_recoveryonstart :: bool
  qseq_num :: u32
  numdrecoveries :: u32
  numwaits :: u32
  waitcnt :: int
  last_ts :: u64
  last_msg_timestamp :: u64
  stopq :: bool
  nummsg :: u32
  mp_out :: "mp_event list"

definition maxwaitcnt :: int where
  "maxwaitcnt = 3"

definition MessageProcessor_init :: "bool \<Rightarrow> 'd \<Rightarrow> bool \<Rightarrow> bool \<Rightarrow> 'd MessageProcessor" where
  "MessageProcessor_init rp d dorec onstart =
     \<lparr>recovery_processor = rp, mp_decoder = d, msg_q = [], dorecovery = dorec,
      in_data_recovery = False, in_instr_recovery = False, instr_recoveryonstart = True,
      data_recoveryonstart = onstart, qseq_num = 0, numdrecoveries = 0, numwaits = 0,
      waitcnt = 3, last_ts = 0, last_msg_timestamp = 0, stopq = False, nummsg = 0,
      mp_out = []\<rparr>"

definition mp_emit :: "mp_event \<Rightarrow> 'd MessageProcessor \<Rightarrow> 'd MessageProcessor" where
  "mp_emit e s = s\<lparr>mp_out := mp_out s @ [e]\<rparr>"

section \<open>Recovery requests\<close>

definition do_data_recovery :: "'d MessageProcessor \<Rightarrow> 'd MessageProcessor res" where
  "do_data_recovery s =
     (if recovery_processor s
      then Inr ((mp_emit DoDataRecovery s)
             \<lparr>in_data_recovery := True, numdrecoveries := numdrecoveries s + 1,
              waitcnt := maxwaitcnt\<rparr>)
      else Inl (Undefined ''null dereference''))"

definition do_instr_recovery :: "'d MessageProcessor \<Rightarrow> 'd MessageProcessor" where
  "do_instr_recovery s =
     (if recovery_processor s
      then (mp_emit DoInstrumentRecovery s)\<lparr>in_instr_recovery := True\<rparr>
      else s)"

definition mp_start :: "'d MessageProcessor \<Rightarrow> 'd MessageProcessor res" where
  "mp_start s =
     (let s1 = mp_emit (WakeUp 60) s;
          s2 = (if instr_recoveryonstart s1 then do_instr_recovery s1 else s1)
      in if data_recoveryonstart s2 then do_data_recovery s2 else Inr s2)"

section \<open>Draining the reorder map\<close>

definition packet_of :: "message_buffer \<Rightarrow> u64 \<Rightarrow> DecodePacket" where
  "packet_of b ts = \<lparr>dp_data = mb_message b, dp_len = mb_len b, dp_ts = ts, dp_qlen = mb_qlen b\<rparr>"

text \<open>
  The loop of \<open>processq\<close>. Its iterator is always the first entry of the map: an entry is either
  erased or ends the loop, so the loop is a recursion on the entries.
\<close>

fun drain :: "'d decoder_if \<Rightarrow> u64 \<Rightarrow> (u32, message_buffer) flat_map \<Rightarrow> 'd MessageProcessor
                \<Rightarrow> 'd MessageProcessor res" where
  "drain D ts [] s = Inr (s\<lparr>msg_q := []\<rparr>)"
| "drain D ts ((sn, b) # q) s =
     (if sn \<le> qseq_num s then drain D ts q s
      else if sn = qseq_num s + 1 \<or> qseq_num s = 0 then
        bnd (on_decode_packet D (packet_of b ts) (mp_decoder s)) (\<lambda>(rc, rst, d).
          let s1 = mp_emit (Decode sn (packet_of b ts) rc) (s\<lparr>mp_decoder := d\<rparr>)
          in if \<not> rc
             then bnd (on_gap D d) (\<lambda>d1.
                    do_data_recovery (mp_emit GapCmd (s1\<lparr>mp_decoder := d1, msg_q := (sn, b) # q\<rparr>)))
             else drain D ts q
                    (s1\<lparr>qseq_num := sn,
                        waitcnt := (if waitcnt s < maxwaitcnt then maxwaitcnt else waitcnt s)\<rparr>))
      else
        bnd (ck32 (waitcnt s - 1)) (\<lambda>w.
          let s1 = s\<lparr>waitcnt := w, msg_q := (sn, b) # q\<rparr>
          in if w > 0 then Inr (s1\<lparr>numwaits := numwaits s + 1\<rparr>)
             else if dorecovery s then do_data_recovery s1
             else Inr (s1\<lparr>qseq_num := sn - 1\<rparr>)))"

definition processq :: "'d decoder_if \<Rightarrow> u64 \<Rightarrow> 'd MessageProcessor \<Rightarrow> 'd MessageProcessor res" where
  "processq D ts s =
     (if in_data_recovery s \<or> in_instr_recovery s then Inr s else drain D ts (msg_q s) s)"

definition try_emplace :: "'k::linorder \<Rightarrow> 'v \<Rightarrow> ('k, 'v) flat_map \<Rightarrow> ('k, 'v) flat_map" where
  "try_emplace k v m = (if fm_find m k = None then fm_put k v m else m)"

definition mp_packet :: "'d decoder_if \<Rightarrow> message_buffer \<Rightarrow> 'd MessageProcessor \<Rightarrow> 'd MessageProcessor res" where
  "mp_packet D b s0 =
     (let s = s0\<lparr>nummsg := nummsg s0 + 1\<rparr>
      in if mb_seqnum b \<le> qseq_num s \<or> stopq s then Inr s
         else bnd (processq D (mb_recv_ts b) (s\<lparr>msg_q := try_emplace (mb_seqnum b) b (msg_q s)\<rparr>))
                (\<lambda>s1. Inr (s1\<lparr>last_ts := mb_recv_ts b,
                             last_msg_timestamp := (if mb_recv_ts b \<noteq> 0 then mb_recv_ts b
                                                    else last_msg_timestamp s1)\<rparr>)))"

section \<open>The other messages\<close>

definition mp_enddatarecovery :: "'d decoder_if \<Rightarrow> u32 \<Rightarrow> 'd MessageProcessor \<Rightarrow> 'd MessageProcessor res" where
  "mp_enddatarecovery D n s =
     bnd (processq D 0 (if qseq_num s < n then s\<lparr>qseq_num := n\<rparr> else s))
       (\<lambda>s1. Inr (s1\<lparr>in_data_recovery := False\<rparr>))"

definition mp_endinstrrecovery :: "'d decoder_if \<Rightarrow> 'd MessageProcessor \<Rightarrow> 'd MessageProcessor res" where
  "mp_endinstrrecovery D s =
     bnd (processq D 0 s) (\<lambda>s1. Inr (s1\<lparr>in_instr_recovery := False\<rparr>))"

definition mp_get :: "string \<Rightarrow> u64 \<Rightarrow> 'd MessageProcessor \<Rightarrow> 'd MessageProcessor" where
  "mp_get what now s =
     (if what = ''stopq'' then mp_emit (ReplyText ''stopping q'') (mp_emit SelfStopQ s)
      else if what = ''startq'' then mp_emit (ReplyText ''starting q'') (mp_emit SelfStartQ s)
      else if what = ''stats'' then
        mp_emit (ReplyStats (nummsg s) (last_msg_timestamp s) (now - last_msg_timestamp s)
                (numdrecoveries s)) s
      else mp_emit (ReplyText ''Unknown command. Use: stats, stopq, startq'') s)"

definition mp_shutdown :: "'d decoder_if \<Rightarrow> 'd MessageProcessor \<Rightarrow> 'd MessageProcessor res" where
  "mp_shutdown D s =
     bnd (on_print_stats D (mp_decoder s)) (\<lambda>d. Inr (mp_emit PrintStatsCmd (s\<lparr>mp_decoder := d\<rparr>)))"

datatype mp_msg =
    Start
  | Packet message_buffer
  | EndDataRecovery u32
  | EndInstrumentRecovery
  | Timeout
  | StartQ
  | StopQ
  | Get string u64
  | Shutdown

fun mp_step :: "'d decoder_if \<Rightarrow> mp_msg \<Rightarrow> 'd MessageProcessor \<Rightarrow> 'd MessageProcessor res" where
  "mp_step D Start s = mp_start s"
| "mp_step D (Packet b) s = mp_packet D b s"
| "mp_step D (EndDataRecovery n) s = mp_enddatarecovery D n s"
| "mp_step D EndInstrumentRecovery s = mp_endinstrrecovery D s"
| "mp_step D Timeout s = Inr (mp_emit (WakeUp 31) s)"
| "mp_step D StartQ s = Inr (s\<lparr>stopq := False\<rparr>)"
| "mp_step D StopQ s = Inr (s\<lparr>stopq := True\<rparr>)"
| "mp_step D (Get what now) s = Inr (mp_get what now s)"
| "mp_step D Shutdown s = mp_shutdown D s"

fun mp_run :: "'d decoder_if \<Rightarrow> mp_msg list \<Rightarrow> 'd MessageProcessor \<Rightarrow> 'd MessageProcessor res" where
  "mp_run D [] s = Inr s"
| "mp_run D (m # ms) s = bnd (mp_step D m s) (mp_run D ms)"

text \<open>
  The actor with its recovery processor. \<open>Manager\<close> sends \<open>Start\<close> once, before anything else.
  \<open>pending\<close> are the requests the recovery processor has not answered; it works on them one at
  a time, in order, and answers each once.
\<close>

fun is_request :: "mp_event \<Rightarrow> bool" where
  "is_request DoDataRecovery = True"
| "is_request DoInstrumentRecovery = True"
| "is_request _ = False"

fun is_end :: "mp_msg \<Rightarrow> bool" where
  "is_end (EndDataRecovery n) = True"
| "is_end EndInstrumentRecovery = True"
| "is_end _ = False"

definition requests_after :: "'d MessageProcessor \<Rightarrow> 'd MessageProcessor \<Rightarrow> mp_event list" where
  "requests_after s s1 = filter is_request (drop (length (mp_out s)) (mp_out s1))"

inductive mp_reach :: "'d decoder_if \<Rightarrow> 'd MessageProcessor \<Rightarrow> 'd MessageProcessor \<Rightarrow> mp_event list \<Rightarrow> bool"
  for D s0 where
  reach_start: "mp_step D Start s0 = Inr s \<Longrightarrow> mp_reach D s0 s (requests_after s0 s)"
| reach_msg: "mp_reach D s0 s p \<Longrightarrow> m \<noteq> Start \<Longrightarrow> \<not> is_end m \<Longrightarrow> mp_step D m s = Inr s1 \<Longrightarrow>
     mp_reach D s0 s1 (p @ requests_after s s1)"
| reach_data: "mp_reach D s0 s (DoDataRecovery # p) \<Longrightarrow> mp_step D (EndDataRecovery n) s = Inr s1 \<Longrightarrow>
     mp_reach D s0 s1 (p @ requests_after s s1)"
| reach_instr: "mp_reach D s0 s (DoInstrumentRecovery # p) \<Longrightarrow> mp_step D EndInstrumentRecovery s = Inr s1 \<Longrightarrow>
     mp_reach D s0 s1 (p @ requests_after s s1)"

end
