(* ===== verification/Mdp3_Sequence_Properties.thy ===== *)
theory Mdp3_Sequence_Properties
  imports Mdp3_Sequence
begin

text \<open>
  What \<open>MessageProcessor\<close> promises the decoder: each sequence number at most once and in
  order, no hole passed over without a recovery when recovery is on, two complete lines
  merged into one, and a bound on how long a hole is waited for.
\<close>

section \<open>The trace\<close>

fun decoded :: "mp_event list \<Rightarrow> u32 list" where
  "decoded [] = []"
| "decoded (Decode sn p True # es) = sn # decoded es"
| "decoded (e # es) = decoded es"

lemma decoded_append [simp]: "decoded (xs @ ys) = decoded xs @ decoded ys"
  by (induction xs rule: decoded.induct) simp_all

lemma emit_simps [simp]:
  "mp_out (mp_emit e s) = mp_out s @ [e]"
  "qseq_num (mp_emit e s) = qseq_num s"
  "msg_q (mp_emit e s) = msg_q s"
  "waitcnt (mp_emit e s) = waitcnt s"
  "in_data_recovery (mp_emit e s) = in_data_recovery s"
  "in_instr_recovery (mp_emit e s) = in_instr_recovery s"
  "dorecovery (mp_emit e s) = dorecovery s"
  "recovery_processor (mp_emit e s) = recovery_processor s"
  "stopq (mp_emit e s) = stopq s"
  "data_recoveryonstart (mp_emit e s) = data_recoveryonstart s"
  "instr_recoveryonstart (mp_emit e s) = instr_recoveryonstart s"
  "mp_decoder (mp_emit e s) = mp_decoder s"
  "numwaits (mp_emit e s) = numwaits s"
  by (simp_all add: mp_emit_def)

lemma do_data_recovery_Inr:
  "do_data_recovery s = Inr s1 \<longleftrightarrow>
     recovery_processor s \<and>
     s1 = (mp_emit DoDataRecovery s)\<lparr>in_data_recovery := True, numdrecoveries := numdrecoveries s + 1,
                                  waitcnt := maxwaitcnt\<rparr>"
  by (auto simp: do_data_recovery_def)

text \<open>
  One step of the loop of \<open>processq\<close>: what an entry that is not dropped can do. The cases are
  the ones of the code, in its order.
\<close>

definition decode_ok :: "'d decoder_if \<Rightarrow> u64 \<Rightarrow> u32 \<Rightarrow> message_buffer \<Rightarrow> 'd \<Rightarrow> 'd MessageProcessor
    \<Rightarrow> 'd MessageProcessor" where
  "decode_ok D ts sn b d s =
     (mp_emit (Decode sn (packet_of b ts) True) (s\<lparr>mp_decoder := d\<rparr>))
       \<lparr>qseq_num := sn, waitcnt := (if waitcnt s < maxwaitcnt then maxwaitcnt else waitcnt s)\<rparr>"

definition decode_bad :: "'d decoder_if \<Rightarrow> u64 \<Rightarrow> (u32, message_buffer) flat_map \<Rightarrow> u32 \<Rightarrow> message_buffer
    \<Rightarrow> 'd \<Rightarrow> 'd \<Rightarrow> 'd MessageProcessor \<Rightarrow> 'd MessageProcessor" where
  "decode_bad D ts q sn b d d1 s =
     (mp_emit DoDataRecovery (mp_emit GapCmd ((mp_emit (Decode sn (packet_of b ts) False) (s\<lparr>mp_decoder := d\<rparr>))
        \<lparr>mp_decoder := d1, msg_q := (sn, b) # q\<rparr>)))
       \<lparr>in_data_recovery := True, numdrecoveries := numdrecoveries s + 1, waitcnt := maxwaitcnt\<rparr>"

lemma drain_cases:
  assumes "drain D ts ((sn, b) # q) s = Inr s1"
  obtains
    (old) "sn \<le> qseq_num s" "drain D ts q s = Inr s1"
  | (ok) d where "qseq_num s < sn" "sn = qseq_num s + 1 \<or> qseq_num s = 0"
      "drain D ts q (decode_ok D ts sn b d s) = Inr s1"
  | (bad) d d1 where "qseq_num s < sn" "sn = qseq_num s + 1 \<or> qseq_num s = 0" "recovery_processor s"
      "s1 = decode_bad D ts q sn b d d1 s"
  | (wait) "qseq_num s < sn" "sn \<noteq> qseq_num s + 1" "qseq_num s \<noteq> 0" "0 < waitcnt s - 1"
      "s1 = s\<lparr>waitcnt := waitcnt s - 1, msg_q := (sn, b) # q, numwaits := numwaits s + 1\<rparr>"
  | (recover) "qseq_num s < sn" "sn \<noteq> qseq_num s + 1" "qseq_num s \<noteq> 0" "waitcnt s - 1 \<le> 0" "dorecovery s"
      "recovery_processor s"
      "s1 = (mp_emit DoDataRecovery (s\<lparr>waitcnt := waitcnt s - 1, msg_q := (sn, b) # q\<rparr>))
              \<lparr>in_data_recovery := True, numdrecoveries := numdrecoveries s + 1, waitcnt := maxwaitcnt\<rparr>"
  | (skip) "qseq_num s < sn" "sn \<noteq> qseq_num s + 1" "qseq_num s \<noteq> 0" "waitcnt s - 1 \<le> 0" "\<not> dorecovery s"
      "s1 = s\<lparr>waitcnt := waitcnt s - 1, msg_q := (sn, b) # q, qseq_num := sn - 1\<rparr>"
proof (cases "sn \<le> qseq_num s")
  case True
  then show thesis using assms old by simp
next
  case new: False
  show thesis
  proof (cases "sn = qseq_num s + 1 \<or> qseq_num s = 0")
    case True
    with assms new obtain rc rst d where r: "on_decode_packet D (packet_of b ts) (mp_decoder s) = Inr (rc, rst, d)"
      by (cases "on_decode_packet D (packet_of b ts) (mp_decoder s)") (auto simp: True)
    show thesis
    proof (cases rc)
      case rc: True
      show thesis
        using assms new True r rc ok [of d] by (simp add: Let_def decode_ok_def mp_emit_def not_le)
    next
      case rc: False
      show thesis
        using assms new True r rc bad
        by (auto simp: Let_def do_data_recovery_Inr decode_bad_def mp_emit_def not_le)
    qed
  next
    case False
    show thesis
      using assms new False wait recover skip
      by (auto simp: Let_def not_le do_data_recovery_Inr mp_emit_def split: if_splits)
  qed
qed

text \<open>
  A relation between the states before and after the loop holds when it is closed under the
  cases above.
\<close>

lemma drain_relation:
  assumes "drain D ts q s = Inr s1"
    and "\<And>s. R s (s\<lparr>msg_q := []\<rparr>)"
    and "\<And>s sn b d s1. qseq_num s < sn \<Longrightarrow> sn = qseq_num s + 1 \<or> qseq_num s = 0 \<Longrightarrow>
           R (decode_ok D ts sn b d s) s1 \<Longrightarrow> R s s1"
    and "\<And>s sn b q d d1. qseq_num s < sn \<Longrightarrow> sn = qseq_num s + 1 \<or> qseq_num s = 0 \<Longrightarrow>
           R s (decode_bad D ts q sn b d d1 s)"
    and "\<And>s sn b q. qseq_num s < sn \<Longrightarrow>
           R s (s\<lparr>waitcnt := waitcnt s - 1, msg_q := (sn, b) # q, numwaits := numwaits s + 1\<rparr>)"
    and "\<And>s sn b q. qseq_num s < sn \<Longrightarrow>
           R s ((mp_emit DoDataRecovery (s\<lparr>waitcnt := waitcnt s - 1, msg_q := (sn, b) # q\<rparr>))
              \<lparr>in_data_recovery := True, numdrecoveries := numdrecoveries s + 1, waitcnt := maxwaitcnt\<rparr>)"
    and "\<And>s sn b q. qseq_num s < sn \<Longrightarrow> sn \<noteq> qseq_num s + 1 \<Longrightarrow> \<not> dorecovery s \<Longrightarrow>
           R s (s\<lparr>waitcnt := waitcnt s - 1, msg_q := (sn, b) # q, qseq_num := sn - 1\<rparr>)"
  shows "R s s1"
  using assms(1)
proof (induction q arbitrary: s)
  case Nil
  then show ?case using assms(2) by auto
next
  case (Cons e q)
  obtain sn b where e: "e = (sn, b)" by (cases e)
  from Cons.prems [unfolded e] show ?case
  proof (cases rule: drain_cases)
    case old
    then show ?thesis using Cons.IH by simp
  next
    case (ok d)
    then show ?thesis using Cons.IH assms(3) by blast
  qed (use assms(4-7) in simp_all)
qed


section \<open>Order and origin of the decoded packets\<close>

definition mp_order :: "'d MessageProcessor \<Rightarrow> bool" where
  "mp_order s \<longleftrightarrow> sorted_wrt (<) (decoded (mp_out s)) \<and> (\<forall>x\<in>set (decoded (mp_out s)). x \<le> qseq_num s)"

lemma mp_orderI:
  assumes "mp_order s" and "decoded (mp_out s1) = decoded (mp_out s)" and "qseq_num s \<le> qseq_num s1"
  shows "mp_order s1"
  using assms by (auto simp: mp_order_def intro: order_trans)

lemma mp_order_ok:
  assumes "mp_order s" and "qseq_num s < sn"
  shows "mp_order (decode_ok D ts sn b d s)"
  using assms by (fastforce simp: mp_order_def decode_ok_def sorted_wrt_append)

lemma less_word_le_minus_1: "(x :: 'a::len word) < y \<Longrightarrow> x \<le> y - 1"
  by unat_arith

lemma mp_order_skip: "mp_order s \<Longrightarrow> qseq_num s < sn \<Longrightarrow>
    mp_order (s\<lparr>waitcnt := w, msg_q := q, qseq_num := sn - 1\<rparr>)"
  by (erule mp_orderI) (simp_all add: less_word_le_minus_1)

lemma drain_order:
  assumes "drain D ts q s = Inr s1"
  shows "mp_order s \<longrightarrow> mp_order s1"
  using assms
  by (rule drain_relation)
    (auto intro: mp_order_ok mp_order_skip, auto simp: mp_order_def decode_bad_def)

definition queued :: "message_buffer set \<Rightarrow> (u32, message_buffer) flat_map \<Rightarrow> bool" where
  "queued B q \<longleftrightarrow> (\<forall>(sn, b)\<in>set q. b \<in> B \<and> mb_seqnum b = sn)"

fun event_from :: "message_buffer set \<Rightarrow> mp_event \<Rightarrow> bool" where
  "event_from B (Decode sn p rc) = (\<exists>b ts. b \<in> B \<and> mb_seqnum b = sn \<and> p = packet_of b ts)"
| "event_from B e = True"

definition traced :: "message_buffer set \<Rightarrow> mp_event list \<Rightarrow> bool" where
  "traced B es \<longleftrightarrow> (\<forall>e\<in>set es. event_from B e)"

lemma traced_simps [simp]:
  "traced B []"
  "traced B (e # es) \<longleftrightarrow> event_from B e \<and> traced B es"
  "traced B (xs @ ys) \<longleftrightarrow> traced B xs \<and> traced B ys"
  by (auto simp: traced_def)

lemma tracedD: "traced B es \<Longrightarrow> Decode sn p rc \<in> set es \<Longrightarrow>
    \<exists>b ts. b \<in> B \<and> mb_seqnum b = sn \<and> p = packet_of b ts"
  by (force simp: traced_def)

lemma queued_Cons: "queued B ((sn, b) # q) \<longleftrightarrow> b \<in> B \<and> mb_seqnum b = sn \<and> queued B q"
  by (auto simp: queued_def)

lemma drain_traced:
  assumes "drain D ts q s = Inr s1" and "queued B q" and "traced B (mp_out s)"
  shows "traced B (mp_out s1) \<and> queued B (msg_q s1)"
  using assms
proof (induction q arbitrary: s)
  case Nil
  then show ?case by (auto simp: queued_def)
next
  case (Cons e q)
  obtain sn b where e: "e = (sn, b)" by (cases e)
  have q: "b \<in> B" "mb_seqnum b = sn" "queued B q"
    using Cons.prems(2) e by (simp_all add: queued_Cons)
  have ev: "event_from B (Decode sn (packet_of b ts) rc)" for rc
    using q by auto
  from Cons.prems(1) [unfolded e] show ?case
  proof (cases rule: drain_cases)
    case old
    then show ?thesis using Cons q by simp
  next
    case (ok d)
    show ?thesis
      by (rule Cons.IH [OF ok(3) q(3)])
        (use Cons.prems(3) ev in \<open>simp add: decode_ok_def\<close>)
  next
    case (bad d d1)
    then show ?thesis using Cons.prems(3) ev q by (simp add: decode_bad_def queued_Cons)
  qed (use Cons.prems(3) q in \<open>simp_all add: queued_Cons\<close>)
qed

lemma queued_mono: "queued B q \<Longrightarrow> B \<subseteq> C \<Longrightarrow> queued C q"
  by (auto simp: queued_def)

lemma event_from_mono: "event_from B e \<Longrightarrow> B \<subseteq> C \<Longrightarrow> event_from C e"
  by (cases e) auto

lemma traced_mono: "traced B q \<Longrightarrow> B \<subseteq> C \<Longrightarrow> traced C q"
  by (auto simp: traced_def intro: event_from_mono)

lemma set_fm_put: "set (fm_put k v m) \<subseteq> insert (k, v) (set m)"
  using fm_put_set by fast

lemma queued_emplace: "queued B q \<Longrightarrow> queued (insert b B) (try_emplace (mb_seqnum b) b q)"
  using set_fm_put [of "mb_seqnum b" b q] by (auto simp: queued_def try_emplace_def)

definition mp_good :: "message_buffer set \<Rightarrow> 'd MessageProcessor \<Rightarrow> bool" where
  "mp_good B s \<longleftrightarrow> mp_order s \<and> traced B (mp_out s) \<and> queued B (msg_q s)"

lemma mp_good_mono: "mp_good B s \<Longrightarrow> B \<subseteq> C \<Longrightarrow> mp_good C s"
  by (auto simp: mp_good_def intro: queued_mono traced_mono)

lemma processq_good: "processq D ts s = Inr s1 \<Longrightarrow> mp_good B s \<Longrightarrow> mp_good B s1"
  using drain_order [of D ts "msg_q s" s s1] drain_traced [of D ts "msg_q s" s s1 B]
  by (auto simp: processq_def mp_good_def split: if_splits)

fun packets_of :: "mp_msg \<Rightarrow> message_buffer set" where
  "packets_of (Packet b) = {b}"
| "packets_of _ = {}"

lemma mp_step_good:
  assumes "mp_step D m s = Inr s1" and "mp_good B s"
  shows "mp_good (B \<union> packets_of m) s1"
proof (cases m)
  case (Packet b)
  show ?thesis
  proof (cases "mb_seqnum b \<le> qseq_num s \<or> stopq s")
    case True
    then show ?thesis
      using assms Packet mp_good_mono [OF assms(2), of "insert b B"]
      by (auto simp: mp_packet_def Let_def mp_good_def mp_order_def subset_insertI)
  next
    case False
    let ?s = "s\<lparr>nummsg := nummsg s + 1, msg_q := try_emplace (mb_seqnum b) b (msg_q s)\<rparr>"
    from assms(1) Packet False obtain s2 where s2: "processq D (mb_recv_ts b) ?s = Inr s2"
      and s1: "s1 = s2\<lparr>last_ts := mb_recv_ts b,
                       last_msg_timestamp := (if mb_recv_ts b \<noteq> 0 then mb_recv_ts b
                                              else last_msg_timestamp s2)\<rparr>"
      by (auto simp: mp_packet_def Let_def)
    have "mp_good (insert b B) ?s"
      using assms(2) queued_emplace [of B "msg_q s" b] traced_mono [of B _ "insert b B"]
      by (auto simp: mp_good_def mp_order_def)
    then have "mp_good (insert b B) s2"
      by (rule processq_good [OF s2])
    then show ?thesis
      using s1 Packet by (simp add: mp_good_def mp_order_def)
  qed
next
  case (EndDataRecovery n)
  have g: "mp_good B (if qseq_num s < n then s\<lparr>qseq_num := n\<rparr> else s)"
    using assms(2) by (auto simp: mp_good_def elim!: mp_orderI)
  from assms(1) EndDataRecovery obtain s2
    where s2: "processq D 0 (if qseq_num s < n then s\<lparr>qseq_num := n\<rparr> else s) = Inr s2"
      and "s1 = s2\<lparr>in_data_recovery := False\<rparr>"
    by (auto simp: mp_enddatarecovery_def)
  then show ?thesis
    using processq_good [OF s2 g] EndDataRecovery by (simp add: mp_good_def mp_order_def)
next
  case EndInstrumentRecovery
  with assms(1) obtain s2 where s2: "processq D 0 s = Inr s2" "s1 = s2\<lparr>in_instr_recovery := False\<rparr>"
    by (auto simp: mp_endinstrrecovery_def)
  then show ?thesis
    using processq_good [OF s2(1) assms(2)] EndInstrumentRecovery by (simp add: mp_good_def mp_order_def)
next
  case Start
  then show ?thesis
    using assms
    by (auto simp: mp_start_def Let_def do_data_recovery_Inr do_instr_recovery_def mp_good_def mp_order_def
          split: if_splits)
qed (use assms in \<open>auto simp: mp_get_def mp_shutdown_def mp_good_def mp_order_def split: if_splits\<close>)

lemma mp_run_good:
  "mp_run D ms s = Inr s1 \<Longrightarrow> mp_good B s \<Longrightarrow> mp_good (B \<union> {b. Packet b \<in> set ms}) s1"
proof (induction ms arbitrary: s B)
  case Nil
  then show ?case by simp
next
  case (Cons m ms)
  then obtain s2 where s2: "mp_step D m s = Inr s2" "mp_run D ms s2 = Inr s1"
    by auto
  have "mp_good (B \<union> packets_of m \<union> {b. Packet b \<in> set ms}) s1"
    by (rule Cons.IH [OF s2(2)]) (rule mp_step_good [OF s2(1) Cons.prems(2)])
  then show ?case
    by (rule mp_good_mono) (cases m, auto)
qed

text \<open>
  C5. Whatever the two lines, the recovery processor and the console send, in any order and with
  any repetition, the decoder accepts sequence numbers in strictly increasing order, so none
  twice, and every packet it is given is one that arrived, under the number that packet carried.
\<close>
theorem mdp3_packets_decoded_in_order:
  assumes "mp_run D ms (MessageProcessor_init rp d dorec onstart) = Inr s"
  shows "sorted_wrt (<) (decoded (mp_out s)) \<and>
         (\<forall>sn p rc. Decode sn p rc \<in> set (mp_out s) \<longrightarrow>
            (\<exists>b ts. Packet b \<in> set ms \<and> mb_seqnum b = sn \<and> p = packet_of b ts))"
proof -
  have "mp_good {} (MessageProcessor_init rp d dorec onstart)"
    by (simp add: mp_good_def mp_order_def queued_def MessageProcessor_init_def)
  from mp_run_good [OF assms this] show ?thesis
    using tracedD by (fastforce simp: mp_good_def mp_order_def)
qed


section \<open>No hole is passed over in silence\<close>

text \<open>
  An acceptor for the trace of an actor with recovery on: its state is the number decoded last,
  or \<open>None\<close> before the first and after a request for a snapshot. It rejects, with the outer
  \<open>None\<close>, a number that is not the successor of the last one.
\<close>

fun next_of :: "u32 option \<Rightarrow> mp_event \<Rightarrow> u32 option option" where
  "next_of p (Decode sn pk True) =
     (case p of None \<Rightarrow> Some (Some sn) | Some k \<Rightarrow> if sn = k + 1 then Some (Some sn) else None)"
| "next_of p DoDataRecovery = Some None"
| "next_of p e = Some p"

fun follow :: "u32 option \<Rightarrow> mp_event list \<Rightarrow> u32 option option" where
  "follow p [] = Some p"
| "follow p (e # es) = (case next_of p e of None \<Rightarrow> None | Some p1 \<Rightarrow> follow p1 es)"

lemma follow_append:
  "follow p (xs @ ys) = (case follow p xs of None \<Rightarrow> None | Some p1 \<Rightarrow> follow p1 ys)"
  by (induction xs arbitrary: p) (auto split: option.splits)

definition seq_ok :: "'d MessageProcessor \<Rightarrow> bool" where
  "seq_ok s \<longleftrightarrow> (\<exists>p. follow None (mp_out s) = Some p \<and>
     (\<forall>k. p = Some k \<longrightarrow> k = qseq_num s \<and> k \<noteq> 0 \<and> \<not> in_data_recovery s))"

lemma seq_ok_quiet:
  assumes "seq_ok s" and "mp_out s1 = mp_out s @ [e]" and "next_of None e = Some None"
    and "\<And>k. next_of (Some k) e = Some (Some k)"
    and "qseq_num s1 = qseq_num s" and "in_data_recovery s1 = in_data_recovery s"
  shows "seq_ok s1"
proof -
  from assms(1) obtain p where p: "follow None (mp_out s) = Some p"
    and k: "\<And>k. p = Some k \<Longrightarrow> k = qseq_num s \<and> k \<noteq> 0 \<and> \<not> in_data_recovery s"
    by (auto simp: seq_ok_def)
  have "next_of p e = Some p"
    using assms(3,4) by (cases p) auto
  with p have "follow None (mp_out s1) = Some p"
    by (simp add: assms(2) follow_append)
  then show ?thesis
    using k assms(5,6) by (auto simp: seq_ok_def)
qed

lemma seq_ok_request:
  assumes "seq_ok s" and "mp_out s1 = mp_out s @ [DoDataRecovery]"
  shows "seq_ok s1"
  using assms by (auto simp: seq_ok_def follow_append)

lemma seq_ok_same:
  "seq_ok s \<Longrightarrow> mp_out s1 = mp_out s \<Longrightarrow> qseq_num s1 = qseq_num s \<Longrightarrow>
   in_data_recovery s1 = in_data_recovery s \<Longrightarrow> seq_ok s1"
  by (simp add: seq_ok_def)

lemma seq_ok_decode:
  assumes "seq_ok s" and "qseq_num s < sn" and "sn = qseq_num s + 1 \<or> qseq_num s = 0"
    and "\<not> in_data_recovery s"
  shows "seq_ok (decode_ok D ts sn b d s)"
proof -
  from assms(1) obtain p where p: "follow None (mp_out s) = Some p"
    and k: "\<And>k. p = Some k \<Longrightarrow> k = qseq_num s \<and> k \<noteq> 0"
    by (auto simp: seq_ok_def)
  have "next_of p (Decode sn (packet_of b ts) True) = Some (Some sn)"
    using k assms(3) by (cases p) auto
  moreover have "sn \<noteq> 0"
    using assms(2) by auto
  ultimately show ?thesis
    using p assms(4) by (simp add: seq_ok_def decode_ok_def follow_append)
qed

lemma seq_ok_bad:
  "seq_ok s \<Longrightarrow> seq_ok (decode_bad D ts q sn b d d1 s)"
  by (auto simp: seq_ok_def decode_bad_def follow_append)

lemma drain_seq_ok:
  assumes "drain D ts q s = Inr s1"
  shows "dorecovery s \<and> \<not> in_data_recovery s \<and> seq_ok s \<longrightarrow> dorecovery s1 \<and> seq_ok s1"
proof (rule drain_relation [OF assms, where R = "\<lambda>s s1. dorecovery s \<and> \<not> in_data_recovery s \<and> seq_ok s \<longrightarrow>
    dorecovery s1 \<and> seq_ok s1"], goal_cases)
  case (2 s sn b d s1)
  then show ?case
    using seq_ok_decode [of s sn D ts b d] by (auto simp: decode_ok_def)
next
  case (3 s sn b q d d1)
  then show ?case
    using seq_ok_bad [of s D ts q sn b d d1] by (auto simp: decode_bad_def)
next
  case (5 s sn b q)
  then show ?case
    by (auto elim!: seq_ok_request)
qed (auto elim!: seq_ok_same)

text \<open>The loop sends at most one request, and then the actor is in recovery.\<close>

definition asks :: "'d MessageProcessor \<Rightarrow> 'd MessageProcessor \<Rightarrow> bool" where
  "asks s s1 \<longleftrightarrow> (\<exists>es. mp_out s1 = mp_out s @ es \<and>
     filter is_request es = (if in_data_recovery s1 then [DoDataRecovery] else []))"

lemma asksI:
  "mp_out s1 = mp_out s @ es \<Longrightarrow>
   filter is_request es = (if in_data_recovery s1 then [DoDataRecovery] else []) \<Longrightarrow> asks s s1"
  by (auto simp: asks_def)

lemma drain_asks:
  assumes "drain D ts q s = Inr s1"
  shows "\<not> in_data_recovery s \<longrightarrow> asks s s1"
proof (rule drain_relation [OF assms, where R = "\<lambda>s s1. \<not> in_data_recovery s \<longrightarrow> asks s s1"], goal_cases)
  case (2 s sn b d s1)
  show ?case
  proof
    assume "\<not> in_data_recovery s"
    then obtain es where "mp_out s1 = mp_out (decode_ok D ts sn b d s) @ es"
      and "filter is_request es = (if in_data_recovery s1 then [DoDataRecovery] else [])"
      using 2 by (auto simp: asks_def decode_ok_def)
    then show "asks s s1"
      by (intro asksI [where es = "Decode sn (packet_of b ts) True # es"]) (simp_all add: decode_ok_def)
  qed
qed (auto simp: asks_def decode_bad_def)

lemma asks_requests: "asks s s1 \<Longrightarrow> requests_after s s1 = (if in_data_recovery s1 then [DoDataRecovery] else [])"
  by (auto simp: asks_def requests_after_def)

lemma processq_steps:
  assumes "processq D ts s = Inr s1" and "dorecovery s" and "seq_ok s"
  shows "dorecovery s1 \<and> seq_ok s1 \<and>
    (if in_data_recovery s then s1 = s else asks s s1)"
  using assms drain_seq_ok [of D ts "msg_q s" s s1] drain_asks [of D ts "msg_q s" s s1]
  by (auto simp: processq_def asks_def split: if_splits)

definition data_pending :: "'d MessageProcessor \<Rightarrow> mp_event list \<Rightarrow> bool" where
  "data_pending s p \<longleftrightarrow> filter (\<lambda>e. e = DoDataRecovery) p = (if in_data_recovery s then [DoDataRecovery] else [])"

definition line_ok :: "'d MessageProcessor \<Rightarrow> mp_event list \<Rightarrow> bool" where
  "line_ok s p \<longleftrightarrow> dorecovery s \<and> seq_ok s \<and> data_pending s p"

lemma line_ok_processq:
  assumes "processq D ts s = Inr s1" and "line_ok s p"
    and "mp_out s2 = mp_out s1" "qseq_num s2 = qseq_num s1" "dorecovery s2 = dorecovery s1"
    and "in_data_recovery s2 = in_data_recovery s1" and "mp_out s0 = mp_out s"
  shows "line_ok s2 (p @ requests_after s0 s2)"
proof -
  have "requests_after s0 s2 = requests_after s s1"
    using assms(3,7) by (simp add: requests_after_def)
  moreover have "dorecovery s1 \<and> seq_ok s1 \<and> (if in_data_recovery s then s1 = s else asks s s1)"
    using processq_steps [OF assms(1)] assms(2) by (simp add: line_ok_def)
  moreover have "requests_after s s = []"
    by (simp add: requests_after_def)
  ultimately show ?thesis
    using assms(2,4-6) asks_requests [of s s1] seq_ok_same [of s1 s2, OF _ assms(3,4)]
    by (auto simp: line_ok_def data_pending_def split: if_splits)
qed

lemma line_ok_quiet:
  assumes "line_ok s p" and "mp_out s1 = mp_out s @ es"
    and "\<forall>e\<in>set es. \<not> is_request e \<and> next_of None e = Some None \<and> (\<forall>k. next_of (Some k) e = Some (Some k))"
    and "qseq_num s1 = qseq_num s" "in_data_recovery s1 = in_data_recovery s" "dorecovery s1 = dorecovery s"
  shows "line_ok s1 (p @ requests_after s s1)"
proof -
  have "filter is_request es = []"
    using assms(3) by (induction es) auto
  moreover have "follow q es = Some q" for q
    using assms(3) by (induction es arbitrary: q) (simp, case_tac q, auto)
  ultimately show ?thesis
    using assms by (auto simp: line_ok_def data_pending_def requests_after_def seq_ok_def follow_append)
qed

lemma line_ok_cong:
  "line_ok s p \<Longrightarrow> mp_out s1 = mp_out s \<Longrightarrow> qseq_num s1 = qseq_num s \<Longrightarrow>
   in_data_recovery s1 = in_data_recovery s \<Longrightarrow> dorecovery s1 = dorecovery s \<Longrightarrow> line_ok s1 p"
  by (simp add: line_ok_def seq_ok_def data_pending_def)

lemma requests_same: "mp_out s1 = mp_out s \<Longrightarrow> requests_after s s1 = []"
  by (simp add: requests_after_def)

lemma mp_packet_cases:
  assumes "mp_packet D b s = Inr s1"
  obtains (drop) "mb_seqnum b \<le> qseq_num s \<or> stopq s" "s1 = s\<lparr>nummsg := nummsg s + 1\<rparr>"
  | (keep) s2 where "qseq_num s < mb_seqnum b" "\<not> stopq s"
      "processq D (mb_recv_ts b)
         (s\<lparr>nummsg := nummsg s + 1, msg_q := try_emplace (mb_seqnum b) b (msg_q s)\<rparr>) = Inr s2"
      "s1 = s2\<lparr>last_ts := mb_recv_ts b,
               last_msg_timestamp := (if mb_recv_ts b \<noteq> 0 then mb_recv_ts b else last_msg_timestamp s2)\<rparr>"
proof (cases "mb_seqnum b \<le> qseq_num s \<or> stopq s")
  case True
  then have "s1 = s\<lparr>nummsg := nummsg s + 1\<rparr>"
    using assms by (simp add: mp_packet_def Let_def)
  with True show thesis by (rule drop)
next
  case False
  then obtain s2 where
      "processq D (mb_recv_ts b)
         (s\<lparr>nummsg := nummsg s + 1, msg_q := try_emplace (mb_seqnum b) b (msg_q s)\<rparr>) = Inr s2"
      "s1 = s2\<lparr>last_ts := mb_recv_ts b,
               last_msg_timestamp := (if mb_recv_ts b \<noteq> 0 then mb_recv_ts b else last_msg_timestamp s2)\<rparr>"
    using assms by (auto simp: mp_packet_def Let_def simp del: if_split)
  with False show thesis by (intro keep) auto
qed

lemma line_ok_msg:
  assumes "line_ok s p" and "m \<noteq> Start" and "\<not> is_end m" and "mp_step D m s = Inr s1"
  shows "line_ok s1 (p @ requests_after s s1)"
proof (cases m)
  case (Packet b)
  with assms(4) have "mp_packet D b s = Inr s1" by simp
  then show ?thesis
  proof (cases rule: mp_packet_cases)
    case drop
    then show ?thesis
      using line_ok_cong [OF assms(1), of s1] requests_same [of s1 s] by simp
  next
    case (keep s2)
    have "line_ok (s\<lparr>nummsg := nummsg s + 1, msg_q := try_emplace (mb_seqnum b) b (msg_q s)\<rparr>) p"
      by (rule line_ok_cong [OF assms(1)]) simp_all
    from keep(3) this show ?thesis
      by (rule line_ok_processq) (simp_all add: keep(4))
  qed
next
  case (Get what now)
  have "\<exists>es. mp_out s1 = mp_out s @ es \<and> (\<forall>e\<in>set es. \<not> is_request e \<and> next_of None e = Some None \<and>
          (\<forall>k. next_of (Some k) e = Some (Some k))) \<and>
        qseq_num s1 = qseq_num s \<and> in_data_recovery s1 = in_data_recovery s \<and> dorecovery s1 = dorecovery s"
    using assms(4) Get by (auto simp: mp_get_def)
  then show ?thesis
    using line_ok_quiet [OF assms(1)] by blast
next
  case Shutdown
  then show ?thesis
    using assms(4) by (auto simp: mp_shutdown_def intro: line_ok_quiet [OF assms(1), where es = "[PrintStatsCmd]"])
next
  case Timeout
  then show ?thesis
    using assms(4) by (auto intro: line_ok_quiet [OF assms(1), where es = "[WakeUp 31]"])
qed (use assms line_ok_cong [OF assms(1), of s1] requests_same [of s1 s] in auto)

lemma line_ok_data:
  assumes "line_ok s (DoDataRecovery # p)" and "mp_step D (EndDataRecovery n) s = Inr s1"
  shows "line_ok s1 (p @ requests_after s s1)"
proof -
  from assms(1) have r: "in_data_recovery s" "filter (\<lambda>e. e = DoDataRecovery) p = []"
    and f: "follow None (mp_out s) = Some None" "dorecovery s"
    by (auto simp: line_ok_def data_pending_def seq_ok_def filter_empty_conv split: if_splits)
  with assms(2) have "s1 = (if qseq_num s < n then s\<lparr>qseq_num := n\<rparr> else s)\<lparr>in_data_recovery := False\<rparr>"
    by (auto simp: mp_enddatarecovery_def processq_def split: if_splits)
  then show ?thesis
    using r f by (auto simp: line_ok_def data_pending_def seq_ok_def requests_after_def)
qed

lemma line_ok_instr:
  assumes "line_ok s (DoInstrumentRecovery # p)" and "mp_step D EndInstrumentRecovery s = Inr s1"
  shows "line_ok s1 (p @ requests_after s s1)"
proof -
  from assms(2) obtain s2 where s2: "processq D 0 s = Inr s2" "s1 = s2\<lparr>in_instr_recovery := False\<rparr>"
    by (auto simp: mp_endinstrrecovery_def)
  have "line_ok s p"
    using assms(1) by (simp add: line_ok_def data_pending_def)
  from s2(1) this show ?thesis
    by (rule line_ok_processq) (simp_all add: s2(2))
qed

lemma reach_line_ok:
  assumes "mp_reach D (MessageProcessor_init rp d True onstart) s p"
  shows "line_ok s p"
  using assms
proof (induction rule: mp_reach.induct)
  case (reach_start s)
  then show ?case
    by (auto simp: mp_start_def Let_def MessageProcessor_init_def do_data_recovery_Inr do_instr_recovery_def
          line_ok_def seq_ok_def data_pending_def requests_after_def split: if_splits)
qed (auto intro: line_ok_msg line_ok_data line_ok_instr)

text \<open>
  C13. With recovery on, and a recovery processor that answers each request once, the decoder is
  never moved over a missing sequence number in silence: of two numbers it accepts one after the
  other, the second is the successor of the first unless a snapshot was requested in between.
\<close>
theorem mdp3_no_silent_gap:
  assumes "mp_reach D (MessageProcessor_init rp d True onstart) s p"
  shows "follow None (mp_out s) \<noteq> None"
  using reach_line_ok [OF assms] by (auto simp: line_ok_def seq_ok_def)


section \<open>Two complete lines merged\<close>

definition live :: "'d MessageProcessor \<Rightarrow> bool" where
  "live s \<longleftrightarrow> \<not> in_data_recovery s \<and> \<not> in_instr_recovery s \<and> \<not> stopq s"

definition accepts :: "'d decoder_if \<Rightarrow> bool" where
  "accepts D \<longleftrightarrow> (\<forall>p d. \<exists>rst d1. on_decode_packet D p d = Inr (True, rst, d1))"

definition asked :: "'d MessageProcessor \<Rightarrow> mp_event list" where
  "asked s = filter is_request (mp_out s)"

lemma next_packet:
  assumes "live s" and "msg_q s = []" and "accepts D"
    and "unat (mb_seqnum b) = Suc (unat (qseq_num s))"
  shows "\<exists>s1. mp_packet D b s = Inr s1 \<and> live s1 \<and> msg_q s1 = [] \<and> qseq_num s1 = mb_seqnum b \<and>
     decoded (mp_out s1) = decoded (mp_out s) @ [mb_seqnum b] \<and> asked s1 = asked s \<and>
     numwaits s1 = numwaits s"
proof -
  obtain rst d1 where "on_decode_packet D (packet_of b (mb_recv_ts b)) (mp_decoder s) = Inr (True, rst, d1)"
    using assms(3) unfolding accepts_def by blast
  moreover have "qseq_num s < mb_seqnum b"
    using assms(4) by (simp add: word_less_nat_alt)
  moreover have "mb_seqnum b = word_of_nat (Suc (unat (qseq_num s)))"
    unfolding assms(4) [symmetric] by simp
  then have sn: "mb_seqnum b = qseq_num s + 1"
    by simp
  moreover have nle: "(qseq_num s + 1 \<le> qseq_num s) = False"
    unfolding sn [symmetric] by (simp add: word_le_nat_alt assms(4))
  ultimately show ?thesis
    using assms(1,2)
    by (simp add: nle mp_packet_def processq_def try_emplace_def live_def asked_def Let_def not_le)
qed

lemma old_packet:
  assumes "live s" and "unat (mb_seqnum b) \<le> unat (qseq_num s)"
  shows "mp_packet D b s = Inr (s\<lparr>nummsg := nummsg s + 1\<rparr>)"
  using assms by (simp add: mp_packet_def word_le_nat_alt)

lemma shuffle_step:
  assumes "x # ms \<in> shuffles as bs"
  shows "(\<exists>as1. as = x # as1 \<and> ms \<in> shuffles as1 bs) \<or> (\<exists>bs1. bs = x # bs1 \<and> ms \<in> shuffles as bs1)"
  using assms by (cases as; cases bs) (auto simp: Cons_in_shuffles_iff)

lemma merge_lines:
  assumes "live s" and "msg_q s = []" and "accepts D"
    and "map (\<lambda>b. unat (mb_seqnum b)) as = [i..<m]" and "map (\<lambda>b. unat (mb_seqnum b)) bs = [j..<m]"
    and "Suc (unat (qseq_num s)) = max i j" and "ms \<in> shuffles as bs"
  shows "\<exists>s1. mp_run D (map Packet ms) s = Inr s1 \<and> live s1 \<and> msg_q s1 = [] \<and>
     map unat (decoded (mp_out s1)) = map unat (decoded (mp_out s)) @ [max i j..<m] \<and>
     asked s1 = asked s \<and> numwaits s1 = numwaits s"
  using assms
proof (induction ms arbitrary: s as bs i j)
  case Nil
  then have "as = []" "bs = []" by simp_all
  then have "[i..<m] = []" "[j..<m] = []" using Nil.prems(4,5) by simp_all
  then show ?case using Nil.prems by auto
next
  case (Cons x ms)
  have turn: ?case
    if a: "as' = x # as1" and ms: "ms \<in> shuffles as1 bs'"
      and i: "map (\<lambda>b. unat (mb_seqnum b)) as' = [k..<m]"
      and j: "map (\<lambda>b. unat (mb_seqnum b)) bs' = [l..<m]" and kl: "max k l = max i j" for as' as1 bs' k l
  proof -
    have "[k..<m] = unat (mb_seqnum x) # map (\<lambda>b. unat (mb_seqnum b)) as1"
      using i a by simp
    then have "k < m \<and> k = unat (mb_seqnum x) \<and> [Suc k..<m] = map (\<lambda>b. unat (mb_seqnum b)) as1"
      unfolding upt_eq_Cons_conv by auto
    then have k: "k < m" "unat (mb_seqnum x) = k" "map (\<lambda>b. unat (mb_seqnum b)) as1 = [Suc k..<m]"
      by metis+
    show ?thesis
    proof (cases "k < l")
      case True
      let ?s = "s\<lparr>nummsg := nummsg s + 1\<rparr>"
      have "mp_packet D x s = Inr ?s"
        using old_packet [OF Cons.prems(1)] Cons.prems(6) k(2) kl True by auto
      moreover have "\<exists>s1. mp_run D (map Packet ms) ?s = Inr s1 \<and> live s1 \<and> msg_q s1 = [] \<and>
          map unat (decoded (mp_out s1)) = map unat (decoded (mp_out ?s)) @ [max (Suc k) l..<m] \<and>
          asked s1 = asked ?s \<and> numwaits s1 = numwaits ?s"
        by (rule Cons.IH [OF _ _ _ k(3) j])
          (use Cons.prems ms kl True in \<open>auto simp: live_def\<close>)
      ultimately show ?thesis
        using kl True by (auto simp: asked_def max_def)
    next
      case False
      then have m: "max i j = k" using kl by simp
      then have "unat (mb_seqnum x) = Suc (unat (qseq_num s))"
        using Cons.prems(6) k(2) by simp
      from next_packet [OF Cons.prems(1-3) this] obtain s2 where s2: "mp_packet D x s = Inr s2"
        "live s2" "msg_q s2 = []" "qseq_num s2 = mb_seqnum x"
        "decoded (mp_out s2) = decoded (mp_out s) @ [mb_seqnum x]" "asked s2 = asked s"
        "numwaits s2 = numwaits s" by blast
      have "\<exists>s1. mp_run D (map Packet ms) s2 = Inr s1 \<and> live s1 \<and> msg_q s1 = [] \<and>
          map unat (decoded (mp_out s1)) = map unat (decoded (mp_out s2)) @ [max (Suc k) l..<m] \<and>
          asked s1 = asked s2 \<and> numwaits s1 = numwaits s2"
        by (rule Cons.IH [OF s2(2,3) Cons.prems(3) k(3) j]) (use False s2(4) k(2) ms in auto)
      then show ?thesis
        using s2 m k(1,2) False by (auto simp: upt_conv_Cons)
    qed
  qed
  from shuffle_step [OF Cons.prems(7)] show ?case
  proof
    assume "\<exists>as1. as = x # as1 \<and> ms \<in> shuffles as1 bs"
    then show ?case using turn Cons.prems(4,5) by blast
  next
    assume "\<exists>bs1. bs = x # bs1 \<and> ms \<in> shuffles as bs1"
    then obtain bs1 where "bs = x # bs1" "ms \<in> shuffles bs1 as"
      by (auto simp: shuffles_commutes)
    then show ?case using turn [of bs bs1 as j i] Cons.prems(4,5) by (simp add: max.commute)
  qed
qed


section \<open>A hole is waited for at most twice\<close>

definition answers :: "'d decoder_if \<Rightarrow> bool" where
  "answers D \<longleftrightarrow> (\<forall>p d. returns (on_decode_packet D p d)) \<and> (\<forall>d. returns (on_gap D d))"

lemma decode_ok_simps [simp]:
  "qseq_num (decode_ok D ts sn b d s) = sn"
  "mp_out (decode_ok D ts sn b d s) = mp_out s @ [Decode sn (packet_of b ts) True]"
  "waitcnt (decode_ok D ts sn b d s) = max maxwaitcnt (waitcnt s)"
  "recovery_processor (decode_ok D ts sn b d s) = recovery_processor s"
  "stopq (decode_ok D ts sn b d s) = stopq s"
  "in_data_recovery (decode_ok D ts sn b d s) = in_data_recovery s"
  "in_instr_recovery (decode_ok D ts sn b d s) = in_instr_recovery s"
  by (simp_all add: decode_ok_def)

lemma drain_returns:
  assumes "answers D" and "recovery_processor s" and "in32 (waitcnt s)" and "in32 (waitcnt s - 1)"
  shows "\<exists>s1. drain D ts q s = Inr s1"
  using assms(2-)
proof (induction q arbitrary: s)
  case Nil
  then show ?case by simp
next
  case (Cons e q)
  obtain sn b where e: "e = (sn, b)" by (cases e)
  obtain rc rst d where r: "on_decode_packet D (packet_of b ts) (mp_decoder s) = Inr (rc, rst, d)"
    using assms(1) by (auto simp: answers_def returns_iff) (metis prod_cases3)
  obtain d1 where g: "on_gap D d = Inr d1"
    using assms(1) unfolding answers_def returns_iff by blast
  have "\<exists>s1. drain D ts q (decode_ok D ts sn b d s) = Inr s1"
    by (rule Cons.IH) (use Cons.prems in \<open>auto simp: in32_def maxwaitcnt_def\<close>)
  then show ?case
    using Cons r g e
    by (cases rc) (auto simp: Let_def do_data_recovery_def decode_ok_def mp_emit_def ck32_def)
qed

text \<open>What the loop leaves alone, and how far it moves the wait counter.\<close>

definition drained :: "'d MessageProcessor \<Rightarrow> 'd MessageProcessor \<Rightarrow> bool" where
  "drained s s1 \<longleftrightarrow> (\<exists>es. mp_out s1 = mp_out s @ es) \<and> qseq_num s \<le> qseq_num s1 \<and>
     recovery_processor s1 = recovery_processor s \<and> stopq s1 = stopq s \<and>
     waitcnt s - 1 \<le> waitcnt s1 \<and> waitcnt s1 \<le> max maxwaitcnt (waitcnt s)"

lemma drain_drained:
  assumes "drain D ts q s = Inr s1"
  shows "waitcnt s \<le> maxwaitcnt \<longrightarrow> drained s s1"
proof (rule drain_relation [OF assms, where R = "\<lambda>s s1. waitcnt s \<le> maxwaitcnt \<longrightarrow> drained s s1"], goal_cases)
  case (2 s sn b d s1)
  then show ?case by (auto simp: drained_def)
qed (auto simp: drained_def decode_bad_def less_word_le_minus_1)

definition progress :: "'d MessageProcessor \<Rightarrow> 'd MessageProcessor \<Rightarrow> bool" where
  "progress s s1 \<longleftrightarrow>
     (\<exists>es. mp_out s1 = mp_out s @ es \<and> (DoDataRecovery \<in> set es \<or> (\<exists>sn p rc. Decode sn p rc \<in> set es)))
     \<or> qseq_num s < qseq_num s1"

lemma drain_progress:
  assumes "drain D ts q s = Inr s1" and "(k, b) \<in> set q" and "qseq_num s < k" and "waitcnt s \<le> maxwaitcnt"
  shows "progress s s1 \<or> (0 < waitcnt s1 \<and> waitcnt s1 = waitcnt s - 1 \<and> qseq_num s1 = qseq_num s \<and>
     in_data_recovery s1 = in_data_recovery s \<and> in_instr_recovery s1 = in_instr_recovery s \<and>
     mp_out s1 = mp_out s)"
  using assms
proof (induction q arbitrary: s)
  case Nil
  then show ?case by simp
next
  case (Cons e q)
  obtain sn c where e: "e = (sn, c)" by (cases e)
  from Cons.prems(1) [unfolded e] show ?case
  proof (cases rule: drain_cases)
    case old
    then have "(k, b) \<in> set q" using Cons.prems(2,3) e by auto
    then show ?thesis using old Cons by simp
  next
    case (ok d)
    have "drained (decode_ok D ts sn c d s) s1"
      using drain_drained [OF ok(3)] Cons.prems(4) by simp
    then obtain es where "mp_out s1 = mp_out s @ Decode sn (packet_of c ts) True # es"
      by (auto simp: drained_def)
    then show ?thesis by (auto simp: progress_def)
  next
    case (skip)
    have "qseq_num s < sn - 1"
      using skip(1,2) by unat_arith
    then show ?thesis using skip(6) by (simp add: progress_def)
  qed (auto simp: progress_def decode_bad_def)
qed


lemma try_emplace_has: "fm_find m k = None \<Longrightarrow> (k, v) \<in> set (try_emplace k v m)"
  by (simp add: try_emplace_def set_fm_put_new)

lemma try_emplace_key: "\<exists>v. (k, v) \<in> set (try_emplace k b m)"
proof (cases "fm_find m k")
  case None
  then show ?thesis by (intro exI) (rule try_emplace_has)
next
  case (Some v)
  then show ?thesis by (auto simp: try_emplace_def fm_find_def dest: map_of_SomeD)
qed

definition waits :: "'d MessageProcessor \<Rightarrow> 'd MessageProcessor \<Rightarrow> bool" where
  "waits s s1 \<longleftrightarrow> 0 < waitcnt s1 \<and> waitcnt s1 = waitcnt s - 1 \<and> qseq_num s1 = qseq_num s \<and>
     in_data_recovery s1 = in_data_recovery s \<and> in_instr_recovery s1 = in_instr_recovery s \<and>
     mp_out s1 = mp_out s"

lemma packet_step:
  assumes "answers D" and "recovery_processor s" and "in32 (waitcnt s - 1)" and "waitcnt s \<le> maxwaitcnt"
  shows "\<exists>s1. mp_packet D b s = Inr s1 \<and>
     (\<exists>es. mp_out s1 = mp_out s @ es) \<and> qseq_num s \<le> qseq_num s1 \<and> recovery_processor s1 \<and>
     waitcnt s - 1 \<le> waitcnt s1 \<and> waitcnt s1 \<le> maxwaitcnt \<and> stopq s1 = stopq s \<and>
     (live s \<and> qseq_num s < mb_seqnum b \<longrightarrow> progress s s1 \<or> waits s s1)"
proof (cases "mb_seqnum b \<le> qseq_num s \<or> stopq s \<or> in_data_recovery s \<or> in_instr_recovery s")
  case True
  then show ?thesis
    using assms by (auto simp: mp_packet_def processq_def live_def Let_def)
next
  case False
  let ?s = "s\<lparr>nummsg := nummsg s + 1, msg_q := try_emplace (mb_seqnum b) b (msg_q s)\<rparr>"
  have new: "qseq_num s < mb_seqnum b" "(mb_seqnum b \<le> qseq_num s) = False"
    using False by auto
  have "in32 (waitcnt s)"
    using assms(3,4) by (auto simp: in32_def maxwaitcnt_def)
  then obtain s2 where s2: "drain D (mb_recv_ts b) (msg_q ?s) ?s = Inr s2"
    using drain_returns [OF assms(1), of ?s] assms(2,3) by auto
  obtain v where "(mb_seqnum b, v) \<in> set (msg_q ?s)"
    using try_emplace_key [of "mb_seqnum b" b "msg_q s"] by auto
  from drain_progress [OF s2 this] have "progress ?s s2 \<or> waits ?s s2"
    using new(1) assms(4) by (auto simp: waits_def)
  moreover have "drained ?s s2"
    using drain_drained [OF s2] assms(4) by simp
  moreover note new
  ultimately show ?thesis
    using False s2 assms(2,4)
    by (auto simp: mp_packet_def processq_def drained_def progress_def waits_def Let_def not_le)
qed

lemma progress_grow:
  assumes "progress s s1" and "\<exists>es. mp_out s2 = mp_out s1 @ es" and "qseq_num s1 \<le> qseq_num s2"
  shows "progress s s2"
  using assms unfolding progress_def by fastforce

lemma progress_from:
  "progress s1 s2 \<Longrightarrow> mp_out s1 = mp_out s \<Longrightarrow> qseq_num s1 = qseq_num s \<Longrightarrow> progress s s2"
  by (simp add: progress_def)


section \<open>What a finished recovery leaves behind\<close>

text \<open>
  \<open>enddatarecovery_handler\<close> calls \<open>processq\<close> while the flag of the recovery is still set, so
  the call does nothing: the packets that queued up during the recovery, the next one in order
  among them, stay on the map, and the decoder hears nothing until another packet arrives.
\<close>
theorem mdp3_recovery_end_does_not_drain:
  assumes "in_data_recovery s"
  shows "mp_step D (EndDataRecovery n) s =
     Inr (s\<lparr>qseq_num := max (qseq_num s) n, in_data_recovery := False\<rparr>)"
  using assms by (simp add: mp_enddatarecovery_def processq_def max_def)

lemma drain_exhausted: "qseq_num s = - 1 \<Longrightarrow> drain D ts q s = Inr (s\<lparr>msg_q := []\<rparr>)"
  by (induction q) auto

lemma processq_exhausted:
  "qseq_num s = - 1 \<Longrightarrow> processq D ts s = Inr s1 \<Longrightarrow> qseq_num s1 = - 1 \<and> decoded (mp_out s1) = decoded (mp_out s)"
  by (auto simp: processq_def drain_exhausted split: if_splits)

lemma step_exhausted:
  assumes "qseq_num s = - 1" and "mp_step D m s = Inr s1"
  shows "qseq_num s1 = - 1 \<and> decoded (mp_out s1) = decoded (mp_out s)"
proof (cases m)
  case Start
  then show ?thesis
    using assms by (auto simp: mp_start_def Let_def do_data_recovery_Inr do_instr_recovery_def split: if_splits)
next
  case (Packet b)
  then show ?thesis
    using assms by (auto simp: mp_packet_def Let_def)
next
  case (EndDataRecovery n)
  have "\<not> qseq_num s < n" using assms(1) by (simp add: not_less)
  then show ?thesis
    using assms EndDataRecovery processq_exhausted [OF assms(1)]
    by (auto simp: mp_enddatarecovery_def)
next
  case EndInstrumentRecovery
  then show ?thesis
    using assms processq_exhausted [OF assms(1)] by (auto simp: mp_endinstrrecovery_def)
next
  case (Get what now)
  then show ?thesis
    using assms by (auto simp: mp_get_def split: if_splits)
qed (use assms in \<open>auto simp: mp_shutdown_def\<close>)

text \<open>
  The numbering ends at \<open>2 ^ 32 - 1\<close>: once the packet of that number has been decoded no
  packet of any number is decoded again, whatever arrives and whatever a recovery reports, so
  the actor relies on a numbering that does not wrap.
\<close>
theorem mdp3_numbering_does_not_wrap:
  assumes "qseq_num s = - 1" and "mp_run D ms s = Inr s1"
  shows "qseq_num s1 = - 1 \<and> decoded (mp_out s1) = decoded (mp_out s)"
  using assms
proof (induction ms arbitrary: s)
  case (Cons m ms)
  then obtain s2 where "mp_step D m s = Inr s2" "mp_run D ms s2 = Inr s1" by auto
  with step_exhausted [OF Cons.prems(1), of D m s2] Cons.IH [of s2] show ?case by simp
qed simp

section \<open>Concrete runs\<close>

text \<open>A decoder that accepts every packet but the one whose first byte is 255.\<close>

definition ex_decoder :: "nat decoder_if" where
  "ex_decoder = \<lparr>on_decode_packet = (\<lambda>p n. Inr (dp_data p \<noteq> [255], False, n + 1)),
     on_gap = (\<lambda>n. Inr n), on_print_stats = (\<lambda>n. Inr n)\<rparr>"

definition ok_decoder :: "nat decoder_if" where
  "ok_decoder = \<lparr>on_decode_packet = (\<lambda>p n. Inr (True, False, n + 1)),
     on_gap = (\<lambda>n. Inr n), on_print_stats = (\<lambda>n. Inr n)\<rparr>"

definition ex_buf :: "u32 \<Rightarrow> byte list \<Rightarrow> message_buffer" where
  "ex_buf n bs = \<lparr>mb_seqnum = n, mb_message = bs, mb_len = length bs, mb_recv_ts = 7, mb_hw_ts = 0,
     mb_chan = CHR ''A'', mb_src_ip = 0, mb_dst_port = 0, mb_qlen = 0\<rparr>"

definition ex_mp :: "nat MessageProcessor" where
  "ex_mp = (MessageProcessor_init True 0 True False)\<lparr>qseq_num := 10\<rparr>"

lemma ex_mp_live: "live ex_mp" "msg_q ex_mp = []" "qseq_num ex_mp = 10" "waitcnt ex_mp = 3"
  "recovery_processor ex_mp"
  by (simp_all add: ex_mp_def live_def MessageProcessor_init_def)

lemma ex_answers: "answers ex_decoder" "accepts ok_decoder"
  by (auto simp: answers_def accepts_def ex_decoder_def ok_decoder_def)

text \<open>Packets 11, 13, 13, 14, then a third ahead of the hole: the actor asks for a snapshot.\<close>

definition ex_msgs :: "mp_msg list" where
  "ex_msgs = [Start, EndInstrumentRecovery] @ map (\<lambda>n. Packet (ex_buf n [])) [11, 13, 13, 14, 15]"

definition ex_end :: "nat MessageProcessor res" where
  "ex_end = mp_run ex_decoder ex_msgs (MessageProcessor_init True 0 True False)"

lemma ex_end_eval: "\<exists>s. ex_end = Inr s \<and> decoded (mp_out s) = [11] \<and> in_data_recovery s \<and> length (msg_q s) = 3"
  by (simp add: ex_end_def ex_msgs_def MessageProcessor_init_def ex_buf_def mp_start_def Let_def
      do_instr_recovery_def do_data_recovery_def mp_emit_def mp_endinstrrecovery_def processq_def
      mp_packet_def try_emplace_def ex_decoder_def packet_of_def fm_find_Cons ck32_def in32_def maxwaitcnt_def)

theorem mdp3_packets_decoded_in_order_witness:
  "\<exists>s. ex_end = Inr s \<and> decoded (mp_out s) = [11] \<and> sorted_wrt (<) (decoded (mp_out s))"
proof -
  obtain s where s: "ex_end = Inr s" "decoded (mp_out s) = [11]" using ex_end_eval by blast
  show ?thesis
    using s mdp3_packets_decoded_in_order [OF s(1) [unfolded ex_end_def]] by blast
qed



theorem mdp3_recovery_end_does_not_drain_witness:
  "mp_step ex_decoder (EndDataRecovery 12)
       (ex_mp\<lparr>in_data_recovery := True, msg_q := [(13, ex_buf 13 [])]\<rparr>) =
     Inr (ex_mp\<lparr>qseq_num := 12, msg_q := [(13, ex_buf 13 [])]\<rparr>)"
  using mdp3_recovery_end_does_not_drain
    [of "ex_mp\<lparr>in_data_recovery := True, msg_q := [(13, ex_buf 13 [])]\<rparr>" ex_decoder 12]
  by (simp add: ex_mp_def MessageProcessor_init_def max_def)

theorem mdp3_numbering_does_not_wrap_witness:
  "\<exists>s1. mp_run ok_decoder [Packet (ex_buf 0 []), Packet (ex_buf 1 [])] (ex_mp\<lparr>qseq_num := - 1\<rparr>) = Inr s1 \<and>
     qseq_num s1 = - 1 \<and> decoded (mp_out s1) = []"
proof -
  have "\<exists>s1. mp_run ok_decoder [Packet (ex_buf 0 []), Packet (ex_buf 1 [])] (ex_mp\<lparr>qseq_num := - 1\<rparr>) = Inr s1"
    by (simp add: mp_packet_def)
  then obtain s1 where s1: "mp_run ok_decoder [Packet (ex_buf 0 []), Packet (ex_buf 1 [])]
      (ex_mp\<lparr>qseq_num := - 1\<rparr>) = Inr s1" by blast
  have "qseq_num s1 = - 1 \<and> decoded (mp_out s1) = decoded (mp_out (ex_mp\<lparr>qseq_num := - 1\<rparr>))"
    by (rule mdp3_numbering_does_not_wrap [OF _ s1]) simp
  moreover have "decoded (mp_out (ex_mp\<lparr>qseq_num := - 1\<rparr>)) = []"
    by (simp add: ex_mp_def MessageProcessor_init_def)
  ultimately show ?thesis
    using s1 by (intro exI [of _ s1]) simp
qed

theorem mdp3_no_silent_gap_witness:
  "\<exists>s p. mp_reach ex_decoder (MessageProcessor_init True 0 True True) s p \<and>
     p = [DoInstrumentRecovery, DoDataRecovery] \<and> follow None (mp_out s) \<noteq> None"
proof -
  obtain s where s: "mp_step ex_decoder Start (MessageProcessor_init True 0 True True) = Inr s"
    "requests_after (MessageProcessor_init True 0 True True) s = [DoInstrumentRecovery, DoDataRecovery]"
    by (simp add: MessageProcessor_init_def mp_start_def Let_def do_instr_recovery_def
        do_data_recovery_def mp_emit_def requests_after_def)
  show ?thesis
    using reach_start [OF s(1)] mdp3_no_silent_gap [OF reach_start [OF s(1)]] s(2) by auto
qed

end
