(* ===== verification/Linked_Queue.thy ===== *)
theory Linked_Queue
  imports Order_Queue
begin

text \<open>
  The doubly linked list under a price level: \<open>OrderQNode\<close> of
  \<open>src/frame_kaspr/include/frame/ob/OrderQNode.hpp\<close> and the pointer code of
  \<open>OrderQ::append\<close> and \<open>OrderQ::remove_order\<close>. A node is its address; the fields \<open>next\<close>
  and \<open>prev\<close> of all nodes are two functions from addresses to optional addresses, and the
  queue has its \<open>head\<close> and \<open>tail\<close> pointers. The theory shows that every assertion of the
  pointer code holds and that it implements the list operations of \<open>Order_Queue\<close>.
\<close>

section \<open>Pointer operations\<close>

record links =
  l_head :: "addr option"
  l_tail :: "addr option"
  l_next :: "addr \<Rightarrow> addr option"
  l_prev :: "addr \<Rightarrow> addr option"

definition links_empty :: links where
  "links_empty = \<lparr>l_head = None, l_tail = None, l_next = (\<lambda>_. None), l_prev = (\<lambda>_. None)\<rparr>"

definition set_next :: "addr \<Rightarrow> addr option \<Rightarrow> links \<Rightarrow> links" where
  "set_next a v L = L\<lparr>l_next := (l_next L)(a := v)\<rparr>"

definition set_prev :: "addr \<Rightarrow> addr option \<Rightarrow> links \<Rightarrow> links" where
  "set_prev a v L = L\<lparr>l_prev := (l_prev L)(a := v)\<rparr>"

definition link_asserts :: "links \<Rightarrow> 'a res \<Rightarrow> 'a res" where
  "link_asserts L k =
     (case (l_head L, l_tail L) of
        (Some h, Some t) \<Rightarrow> chk (l_next L t = None) ''bad next'' (chk (l_prev L h = None) ''bad prev'' k)
      | _ \<Rightarrow> Inl (Undefined ''null dereference''))"

definition link_append :: "links \<Rightarrow> addr \<Rightarrow> links res" where
  "link_append L n =
     bnd (case l_head L of
            None \<Rightarrow> chk (l_tail L = None) ''bad tail'' (Inr (L\<lparr>l_head := Some n, l_tail := Some n\<rparr>))
          | Some _ \<Rightarrow>
              (case l_tail L of
                 None \<Rightarrow> Inl (Undefined ''null dereference'')
               | Some t \<Rightarrow> Inr ((set_next t (Some n) (set_next n None (set_prev n (Some t) L)))
                                \<lparr>l_tail := Some n\<rparr>)))
       (\<lambda>L'. link_asserts L'
          (chk (l_tail L' \<noteq> Some n \<longrightarrow> l_next L' n \<noteq> None) ''no next''
            (chk (l_head L' \<noteq> Some n \<longrightarrow> l_prev L' n \<noteq> None) ''no prev'' (Inr L'))))"

definition link_remove :: "links \<Rightarrow> addr \<Rightarrow> links res" where
  "link_remove L n =
     chk (l_head L \<noteq> None) ''no head''
      (chk (l_tail L \<noteq> None) ''no tail''
        (link_asserts L
          (bnd (if l_head L = l_tail L then
                  chk (l_head L = Some n) ''head''
                    (chk (l_tail L = Some n) ''tail'' (Inr (L\<lparr>l_head := None, l_tail := None\<rparr>)))
                else if l_head L = Some n then
                  (case l_next L n of
                     None \<Rightarrow> Inl (Undefined ''null dereference'')
                   | Some h \<Rightarrow> Inr (set_prev n None (set_next n None
                                (set_prev h None (L\<lparr>l_head := Some h\<rparr>)))))
                else if l_tail L = Some n then
                  (case l_prev L n of
                     None \<Rightarrow> Inl (Undefined ''null dereference'')
                   | Some t \<Rightarrow> Inr (set_prev n None (set_next n None
                                (set_next t None (L\<lparr>l_tail := Some t\<rparr>)))))
                else
                  (case l_prev L n of
                     None \<Rightarrow> Inl (Assert ''prev'')
                   | Some p \<Rightarrow>
                       (let L1 = set_next p (l_next L n) L
                        in (case l_next L1 n of
                              None \<Rightarrow> Inl (Assert ''next'')
                            | Some x \<Rightarrow> Inr (set_prev x (l_prev L1 n) L1)))))
            (\<lambda>L'. Inr (set_next n None (set_prev n None L'))))))"

text \<open>The walk \<open>while (p) \{ ...; p = p->next; \}\<close> every query of the queue makes.\<close>

fun walk :: "nat \<Rightarrow> links \<Rightarrow> addr option \<Rightarrow> addr list option" where
  "walk fuel L None = Some []"
| "walk 0 L (Some a) = None"
| "walk (Suc fuel) L (Some a) = map_option ((#) a) (walk fuel L (l_next L a))"

section \<open>Segments of the list\<close>

lemma set_next_sel [simp]:
  "l_next (set_next a v L) = (l_next L)(a := v)" "l_prev (set_next a v L) = l_prev L"
  "l_head (set_next a v L) = l_head L" "l_tail (set_next a v L) = l_tail L"
  by (simp_all add: set_next_def)

lemma set_prev_sel [simp]:
  "l_next (set_prev a v L) = l_next L" "l_prev (set_prev a v L) = (l_prev L)(a := v)"
  "l_head (set_prev a v L) = l_head L" "l_tail (set_prev a v L) = l_tail L"
  by (simp_all add: set_prev_def)

fun seg :: "links \<Rightarrow> addr option \<Rightarrow> addr list \<Rightarrow> addr option \<Rightarrow> bool" where
  "seg L p [] e \<longleftrightarrow> True"
| "seg L p (x # xs) e \<longleftrightarrow>
     l_prev L x = p \<and> l_next L x = (if xs = [] then e else Some (hd xs)) \<and> seg L (Some x) xs e"

definition dlist :: "links \<Rightarrow> addr list \<Rightarrow> bool" where
  "dlist L xs \<longleftrightarrow> distinct xs \<and> seg L None xs None
     \<and> l_head L = (if xs = [] then None else Some (hd xs))
     \<and> l_tail L = (if xs = [] then None else Some (last xs))"

lemma set_ends_commute [simp]:
  "set_prev a v (L\<lparr>l_head := h\<rparr>) = (set_prev a v L)\<lparr>l_head := h\<rparr>"
  "set_next a v (L\<lparr>l_head := h\<rparr>) = (set_next a v L)\<lparr>l_head := h\<rparr>"
  "set_prev a v (L\<lparr>l_tail := h\<rparr>) = (set_prev a v L)\<lparr>l_tail := h\<rparr>"
  "set_next a v (L\<lparr>l_tail := h\<rparr>) = (set_next a v L)\<lparr>l_tail := h\<rparr>"
  by (simp_all add: set_prev_def set_next_def)

lemma seg_append:
  "seg L p (xs @ ys) e \<longleftrightarrow>
     seg L p xs (if ys = [] then e else Some (hd ys)) \<and> seg L (if xs = [] then p else Some (last xs)) ys e"
  by (induction xs arbitrary: p) auto

lemma seg_ends [simp]:
  "seg (L\<lparr>l_head := h\<rparr>) p xs e = seg L p xs e" "seg (L\<lparr>l_tail := t\<rparr>) p xs e = seg L p xs e"
  by (induction xs arbitrary: p) auto

lemma seg_frame [simp]:
  "n \<notin> set xs \<Longrightarrow> seg (set_next n v L) p xs e = seg L p xs e"
  "n \<notin> set xs \<Longrightarrow> seg (set_prev n v L) p xs e = seg L p xs e"
  by (induction xs arbitrary: p) auto

lemma seg_set_last:
  "seg L p xs e \<Longrightarrow> xs \<noteq> [] \<Longrightarrow> distinct xs \<Longrightarrow> seg (set_next (last xs) v L) p xs v"
  by (induction xs arbitrary: p) auto

lemma seg_set_first:
  "seg L p xs e \<Longrightarrow> xs \<noteq> [] \<Longrightarrow> distinct xs \<Longrightarrow> seg (set_prev (hd xs) v L) v xs e"
  by (cases xs) auto


lemma dlist_empty [simp]: "dlist links_empty []"
  by (simp add: dlist_def links_empty_def)

lemma seg_first: "seg L p xs e \<Longrightarrow> xs \<noteq> [] \<Longrightarrow> l_prev L (hd xs) = p"
  by (cases xs) auto

lemma seg_last: "seg L p xs e \<Longrightarrow> xs \<noteq> [] \<Longrightarrow> l_next L (last xs) = e"
  by (induction xs arbitrary: p) auto

lemma link_asserts_dlist: "dlist L xs \<Longrightarrow> xs \<noteq> [] \<Longrightarrow> link_asserts L k = k"
  using seg_first [of L None xs None] seg_last [of L None xs None]
  by (simp add: link_asserts_def dlist_def)

lemma link_append_dlist:
  assumes "dlist L xs" "n \<notin> set xs" "l_next L n = None" "l_prev L n = None"
  shows "\<exists>L'. link_append L n = Inr L' \<and> dlist L' (xs @ [n])"
proof (cases "xs = []")
  case True
  then show ?thesis
    using assms by (simp add: link_append_def dlist_def link_asserts_def)
next
  case False
  let ?t = "last xs"
  let ?L = "(set_next ?t (Some n) (set_next n None (set_prev n (Some ?t) L)))\<lparr>l_tail := Some n\<rparr>"
  have "seg (set_next n None (set_prev n (Some ?t) L)) None xs None"
    using assms by (simp add: dlist_def)
  then have "seg ?L None xs (Some n)"
    using False assms(1) by (simp add: seg_set_last dlist_def)
  then have d: "dlist ?L (xs @ [n])"
    using assms False by (auto simp: dlist_def seg_append)
  moreover have "link_append L n = Inr ?L"
    using assms False link_asserts_dlist [OF d]
    by (simp add: link_append_def dlist_def)
  ultimately show ?thesis
    by blast
qed

lemma remove1_middle: "distinct (as @ n # bs) \<Longrightarrow> remove1 n (as @ n # bs) = as @ bs"
  by (simp add: remove1_append)

lemma link_remove_dlist:
  assumes "dlist L xs" "n \<in> set xs"
  shows "\<exists>L'. link_remove L n = Inr L' \<and> dlist L' (remove1 n xs) \<and> l_next L' n = None \<and> l_prev L' n = None"
proof -
  obtain as bs where xs: "xs = as @ n # bs"
    using assms(2) by (metis split_list)
  have d: "distinct xs" "n \<notin> set as" "n \<notin> set bs"
    using assms(1) xs by (auto simp: dlist_def)
  have rm: "remove1 n xs = as @ bs"
    using d xs by (simp add: remove1_middle)
  have sg: "seg L None as (Some n)" "l_prev L n = (if as = [] then None else Some (last as))"
     "l_next L n = (if bs = [] then None else Some (hd bs))" "seg L (Some n) bs None"
    using assms(1) xs by (auto simp: dlist_def seg_append)
  have ends: "l_head L = Some (hd xs)" "l_tail L = Some (last xs)"
    using assms by (auto simp: dlist_def)
  have la: "link_asserts L k = k" for k :: "links res"
    using assms by (intro link_asserts_dlist) auto
  consider (single) "as = []" "bs = []" | (first) "as = []" "bs \<noteq> []" | (final) "as \<noteq> []" "bs = []"
    | (middle) "as \<noteq> []" "bs \<noteq> []" by blast
  then show ?thesis
  proof cases
    case single
    then show ?thesis
      using ends xs rm la by (simp add: link_remove_def dlist_def)
  next
    case first
    have "last bs \<noteq> n"
      using d first by (metis last_in_set)
    moreover have "seg (set_prev (hd bs) None L) None bs None"
      using sg first d xs by (auto intro: seg_set_first)
    ultimately show ?thesis
      using first ends xs rm la sg d by (auto simp: link_remove_def dlist_def)
  next
    case final
    have "hd as \<noteq> n"
      using d final by (metis hd_in_set)
    moreover have "seg (set_next (last as) None L) None as None"
      using sg final d xs by (auto intro: seg_set_last)
    ultimately show ?thesis
      using final ends xs rm la sg d by (auto simp: link_remove_def dlist_def)
  next
    case middle
    have ne: "hd as \<noteq> n" "last bs \<noteq> n" "hd as \<noteq> last bs" "last as \<notin> set bs" "hd bs \<notin> set as"
      "last as \<noteq> n"
      using d middle xs by (auto dest: hd_in_set last_in_set)
    have "seg (set_next (last as) (Some (hd bs)) L) None as (Some (hd bs))"
      using sg middle d xs by (auto intro: seg_set_last)
    moreover have "seg (set_next (last as) (Some (hd bs)) L) (Some n) bs None"
      using sg ne by simp
    then have "seg (set_prev (hd bs) (Some (last as)) (set_next (last as) (Some (hd bs)) L))
        (Some (last as)) bs None"
      using middle d xs by (auto intro: seg_set_first)
    ultimately have "seg (set_prev (hd bs) (Some (last as)) (set_next (last as) (Some (hd bs)) L))
        None (as @ bs) None"
      using middle ne by (simp add: seg_append)
    then show ?thesis
      using middle ends xs rm la sg d ne by (auto simp: link_remove_def dlist_def)
  qed
qed


lemma walk_seg:
  assumes "seg L p xs None" "length xs \<le> fuel"
  shows "walk fuel L (if xs = [] then None else Some (hd xs)) = Some xs"
  using assms
proof (induction xs arbitrary: p fuel)
  case Nil
  then show ?case by simp
next
  case (Cons x xs)
  then obtain f where "fuel = Suc f"
    by (cases fuel) auto
  then show ?case
    using Cons.IH [of "Some x" f] Cons.prems by auto
qed

section \<open>The linked list implements the level\<close>

text \<open>
  The simulation relation between a level and its links: the addresses of the orders, in
  list order, are the nodes of the doubly linked list.
\<close>

definition links_of :: "OrderQ \<Rightarrow> links \<Rightarrow> bool" where
  "links_of q L \<longleftrightarrow> dlist L (map o_addr (orders q))"

lemma map_addr_drop:
  assumes "orderq_inv q" "ord \<in> set (orders q)"
  shows "map o_addr (orders (drop_order q ord)) = remove1 (o_addr ord) (map o_addr (orders q))"
proof -
  obtain xs ys where sp: "orders q = xs @ ord # ys"
    using assms(2) by (metis split_list)
  moreover have "distinct (map o_addr (orders q))"
    using assms(1) by (simp add: orderq_inv_def)
  ultimately show ?thesis
    using drop_order_split [OF assms(1) sp] remove1_middle [of "map o_addr xs" "o_addr ord" "map o_addr ys"]
    by simp
qed

text \<open>
  C14. The doubly linked list refines the level. From any well-formed level and links that
  represent it: appending a fresh node with null pointers satisfies all assertions of the
  pointer code and gives links that represent the level after \<open>append\<close>; unlinking the node
  of any resting order satisfies them too, gives links that represent the level without
  that order, and leaves the node's own pointers null; and the walk along \<open>next\<close> from
  \<open>head\<close> ends after as many nodes as there are orders and meets them in list order.
\<close>

theorem linked_list_refines_level:
  assumes "orderq_inv q" "links_of q L"
  shows "(order_ok n \<and> o_addr n \<notin> o_addr ` set (orders q) \<and> o_id n \<notin> o_id ` set (orders q)
           \<and> l_next L (o_addr n) = None \<and> l_prev L (o_addr n) = None \<longrightarrow>
           (\<exists>q' L'. q_append q n = Inr q' \<and> link_append L (o_addr n) = Inr L' \<and> links_of q' L'))
       \<and> (ord \<in> set (orders q) \<longrightarrow>
           (\<exists>q' out L'. canc_notify q (o_addr ord) s 0 CANCD = Inr (q', out)
              \<and> link_remove L (o_addr ord) = Inr L' \<and> links_of q' L'
              \<and> l_next L' (o_addr ord) = None \<and> l_prev L' (o_addr ord) = None))
       \<and> walk (length (orders q)) L (l_head L) = Some (map o_addr (orders q))"
proof (intro conjI impI)
  assume n: "order_ok n \<and> o_addr n \<notin> o_addr ` set (orders q) \<and> o_id n \<notin> o_id ` set (orders q)
           \<and> l_next L (o_addr n) = None \<and> l_prev L (o_addr n) = None"
  then obtain q' where "q_append q n = Inr q'" "orders q' = orders q @ [n]"
    using q_append_inv [OF assms(1)] by blast
  then show "\<exists>q' L'. q_append q n = Inr q' \<and> link_append L (o_addr n) = Inr L' \<and> links_of q' L'"
    using link_append_dlist [of L "map o_addr (orders q)" "o_addr n"] n assms(2) by (auto simp: links_of_def)
next
  assume ord: "ord \<in> set (orders q)"
  then have "order_at q (o_addr ord) = Some ord"
    using assms(1) by (simp add: orderq_inv_def order_at_mem)
  then have "canc_notify q (o_addr ord) s 0 CANCD = Inr (drop_order q ord, cancel_ack ord 0)"
    using canc_notify_CANCD [OF assms(1)] by simp
  then show "\<exists>q' out L'. canc_notify q (o_addr ord) s 0 CANCD = Inr (q', out)
              \<and> link_remove L (o_addr ord) = Inr L' \<and> links_of q' L'
              \<and> l_next L' (o_addr ord) = None \<and> l_prev L' (o_addr ord) = None"
    using link_remove_dlist [of L "map o_addr (orders q)" "o_addr ord"] assms(2) ord
      map_addr_drop [OF assms(1) ord] by (auto simp: links_of_def)
next
  show "walk (length (orders q)) L (l_head L) = Some (map o_addr (orders q))"
    using walk_seg [of L None "map o_addr (orders q)" "length (orders q)"] assms(2)
    by (simp add: links_of_def dlist_def hd_map split: if_splits)
qed

definition demo_links :: links where
  "demo_links = \<lparr>l_head = Some 1, l_tail = Some 3, l_next = (\<lambda>_. None)(1 := Some 2, 2 := Some 3),
                 l_prev = (\<lambda>_. None)(2 := Some 1, 3 := Some 2)\<rparr>"

theorem linked_list_refines_level_witness:
  "walk 3 demo_links (l_head demo_links) = Some [1, 2, 3]
   \<and> (\<exists>L'. link_remove demo_links 2 = Inr L' \<and> l_next L' 1 = Some 3 \<and> l_prev L' 3 = Some 1)"
proof -
  have l: "links_of demo_queue demo_links"
    by (simp add: links_of_def dlist_def demo_links_def demo_queue_simps)
  have "walk 3 demo_links (l_head demo_links) = Some [1, 2, 3]"
    using linked_list_refines_level [OF demo_queue_inv l] by (simp add: demo_queue_simps eval_nat_numeral)
  moreover obtain q' out L' where "canc_notify demo_queue 2 0 0 CANCD = Inr (q', out)"
      "link_remove demo_links 2 = Inr L'" "links_of q' L'"
    using linked_list_refines_level [OF demo_queue_inv l, of undefined "sim_order 2 200 4" 0]
    by (auto simp: demo_queue_simps)
  moreover have "link_remove demo_links 2 = Inr L' \<Longrightarrow> l_next L' 1 = Some 3 \<and> l_prev L' 3 = Some 1"
    by (auto simp: link_remove_def demo_links_def link_asserts_def)
  ultimately show ?thesis
    by blast
qed

end
