(* ===== verification/OB_Book.thy ===== *)
theory OB_Book
  imports Linked_Queue Payload
begin

text \<open>
  The simulated limit order book of one instrument: the book half of
  \<open>frame::ob::act::OB\<close> in \<open>src/frame_kaspr/src/OB.cpp\<close> and
  \<open>src/frame_kaspr/include/frame/ob/act/OB.hpp\<close>.

  A side of the book is a ladder of levels, one \<open>OrderQ\<close> per price. Real orders come from
  the exchange's feed, simulated ones from our own traders; the inside (\<open>best_bid\<close>,
  \<open>best_ask\<close>) is that of the real orders. The state is passed explicitly. The heap
  allocation of an order takes the next address. What the book sends is in \<open>sent\<close>, in
  sending order, and what waits for the inbound feed delay in \<open>pub_q\<close>. \<open>asset_maxpx\<close> is the
  value the asset of \<open>ref::RefData\<close> has at that moment, which another component may
  change; \<open>maxprice\<close> is the snapshot the constructor took.

  The model is the build with \<open>FILLSTRAYSIM\<close> and without \<open>ALLOWREJONARR\<close>, \<open>TRACEORDERS\<close>
  and \<open>DONOTODOTHISIFDIFFERENTPRICE\<close>, which no build file defines, and the run-time flag
  \<open>debug\<close> is off (it prints the book after each change); \<open>check_bbbo\<close>, which only runs with
  \<open>debug\<close>, is here as the check it makes.
\<close>

section \<open>State\<close>

datatype ob_msg =
    Ret ret_msg
  | CancReject_NOTFOUND u32
  | BBBOChg (chg_tim: u64) (chg_venue: u32) (chg_side: bs) (chg_sym: u32) (chg_bid: int) (chg_ask: int)
  | ClearMsg u32
  | GapDetected u32
  | UnStash u64
  | TradeNotify payload
  | EndOfBurst payload
  | EndOfBurst2 (eob2_sym: u32) (eob2_txtim: u64) (eob2_bb: int) (eob2_ba: int) (eob2_bs: int) (eob2_as: int)
      (eob2_mev: md) (eob2_action: mt) (eob2_side: bs) (eob2_volumefound: u32)

record Book =
  bidqs :: "OrderQ list"
  askqs :: "OrderQ list"
  best_bid :: int
  best_ask :: int
  maxprice :: int
  asset_maxpx :: int
  do_cross_check :: bool
  sym :: u32
  currtim :: u64
  last_bbo_notify_tim :: u64
  bbbosubs :: "actor list"
  hiprio_datasubs :: "actor list"
  lowprio_datasubs :: "actor list"
  delay :: int
  cancel_delay :: int
  feed_delay :: int
  last_processed_ts :: u64
  pub_q :: "(u64 \<times> actor \<times> ob_msg) list"
  sent :: "(actor \<times> ob_msg) list"
  num_cross_recover :: nat
  next_addr :: addr

definition Book_init :: "bool \<Rightarrow> u32 \<Rightarrow> int \<Rightarrow> Book res" where
  "Book_init cross s maxpx =
     chk (maxpx - 1 > 0) ''max price too low''
      (Inr \<lparr>bidqs = replicate (nat (maxpx + 2)) OrderQ_empty, askqs = replicate (nat (maxpx + 2)) OrderQ_empty,
            best_bid = 0, best_ask = maxpx - 1, maxprice = maxpx, asset_maxpx = maxpx,
            do_cross_check = cross, sym = s, currtim = 0, last_bbo_notify_tim = 0,
            bbbosubs = [], hiprio_datasubs = [], lowprio_datasubs = [],
            delay = 1000, cancel_delay = -1, feed_delay = 0, last_processed_ts = 0,
            pub_q = [], sent = [], num_cross_recover = 0, next_addr = 1\<rparr>)"

section \<open>Latency and publication\<close>

definition set_delay :: "Book \<Rightarrow> int \<Rightarrow> int \<Rightarrow> Book res" where
  "set_delay b order_us cancel_us =
     chk (cancel_us < 0 \<or> cancel_us \<ge> order_us) ''cancel latency below order latency''
       (Inr (b\<lparr>delay := order_us, cancel_delay := cancel_us\<rparr>))"

definition set_feed_delay :: "Book \<Rightarrow> int \<Rightarrow> Book res" where
  "set_feed_delay b feed_us =
     chk (feed_us \<ge> 0) ''feed latency is negative'' (Inr (b\<lparr>feed_delay := feed_us\<rparr>))"

definition publish_delayed :: "Book \<Rightarrow> actor \<Rightarrow> ob_msg \<Rightarrow> u64 \<Rightarrow> Book" where
  "publish_delayed b sub m now =
     (if feed_delay b \<le> 0 \<or> now = 0 then b\<lparr>sent := sent b @ [(sub, m)]\<rparr>
      else b\<lparr>pub_q := pub_q b @ [(now + of_int (feed_delay b) * 1000, sub, m)]\<rparr>)"

fun drain_loop :: "u64 \<Rightarrow> (u64 \<times> actor \<times> ob_msg) list \<Rightarrow> (actor \<times> ob_msg) list
    \<Rightarrow> (u64 \<times> actor \<times> ob_msg) list \<times> (actor \<times> ob_msg) list" where
  "drain_loop now [] out = ([], out)"
| "drain_loop now ((t, to, m) # q) out =
     (if t \<le> now then drain_loop now q (out @ [(to, m)]) else ((t, to, m) # q, out))"

definition drain_pub_q :: "Book \<Rightarrow> u64 \<Rightarrow> Book" where
  "drain_pub_q b now =
     (if pub_q b = [] then b
      else (let (q, out) = drain_loop now (pub_q b) (sent b) in b\<lparr>pub_q := q, sent := out\<rparr>))"

text \<open>\<open>ret_path_\<close>: this book's return path for fills and cancel acknowledgements.\<close>

definition ret_path :: "Book \<Rightarrow> sends \<Rightarrow> Book" where
  "ret_path b out = foldl (\<lambda>b (to, m). publish_delayed b to (Ret m) (last_processed_ts b)) b out"

definition MIN_INTERVAL_NS :: u64 where "MIN_INTERVAL_NS = 100000000"

definition notifybbbosubs :: "Book \<Rightarrow> u64 \<Rightarrow> bs \<Rightarrow> u32 \<Rightarrow> Book" where
  "notifybbbosubs b txtim side venue =
     (if last_bbo_notify_tim b \<noteq> 0 \<and> txtim - last_bbo_notify_tim b < MIN_INTERVAL_NS then b
      else if best_bid b \<ge> best_ask b then b
      else foldl (\<lambda>b c. publish_delayed b c (BBBOChg txtim venue side (sym b) (best_bid b) (best_ask b)) txtim)
             (b\<lparr>last_bbo_notify_tim := txtim\<rparr>) (bbbosubs b))"

section \<open>Levels\<close>

definition lvl_at :: "OrderQ list \<Rightarrow> int \<Rightarrow> OrderQ res" where
  "lvl_at v i = (if 0 \<le> i \<and> nat i < length v then Inr (v ! nat i) else Inl (Undefined ''level out of range''))"

definition qv :: "Book \<Rightarrow> bs \<Rightarrow> OrderQ list" where
  "qv b side = (if side = BUY then bidqs b else askqs b)"

definition set_lvl :: "Book \<Rightarrow> bs \<Rightarrow> int \<Rightarrow> OrderQ \<Rightarrow> Book" where
  "set_lvl b side i q =
     (if side = BUY then b\<lparr>bidqs := (bidqs b)[nat i := q]\<rparr> else b\<lparr>askqs := (askqs b)[nat i := q]\<rparr>)"

fun prev_in :: "Order list \<Rightarrow> addr \<Rightarrow> Order option" where
  "prev_in (x # y # xs) a = (if o_addr y = a then Some x else prev_in (y # xs) a)"
| "prev_in _ a = None"

text \<open>
  \<open>OB::fill\<close>, recursive through \<open>prev\<close>. It touches one level only, so it is a function of
  that level; the book publishes the fills it returns. Every call but the last removes an
  order, so the number of orders bounds the depth.
\<close>

fun q_fill :: "nat \<Rightarrow> OrderQ \<Rightarrow> addr \<Rightarrow> int \<Rightarrow> int \<Rightarrow> u64 \<Rightarrow> (OrderQ \<times> sends) res" where
  "q_fill fuel q a sz px tim =
     (case order_at q a of
        None \<Rightarrow> Inl (Undefined ''dangling order pointer'')
      | Some s \<Rightarrow>
          (let fillsz = min (o_sz s) sz in
           chk (fillsz > 0) ''filling for 0''
            (chk (issim s) ''for sim orders only''
             (if o_sz s \<le> sz then
                (let prev = prev_in (orders q) a in
                 chk (fm_find (qordermap q) (o_id s) \<noteq> None) ''order not found''
                  (chk (tim > 0) ''no tim''
                   (bnd (fill_notify q a (o_sz s) (-1) px EXECD tim)
                     (\<lambda>(_, q', out).
                        case prev of
                          None \<Rightarrow> Inr (q', out)
                        | Some p \<Rightarrow>
                            if sz - fillsz > 0 \<and> issim p then
                              (case fuel of
                                 0 \<Rightarrow> Inl (Undefined ''fill does not end'')
                               | Suc fuel' \<Rightarrow>
                                   bnd (q_fill fuel' q' (o_addr p) (sz - fillsz) px tim)
                                     (\<lambda>(q'', out'). Inr (q'', out @ out')))
                            else Inr (q', out)))))
              else
                chk (fm_find (qordermap q) (o_id s) \<noteq> None) ''order not found''
                 (chk (tim > 0) ''no tim''
                  (bnd (fill_notify q a fillsz (-1) px EXEC tim)
                    (\<lambda>(_, q', out).
                       case order_at q' a of
                         None \<Rightarrow> Inl (Undefined ''dangling order pointer'')
                       | Some s' \<Rightarrow> chk (o_sz s' > 0) ''partial fill but size is < 0'' (Inr (q', out)))))))))"

declare q_fill.simps [simp del]

definition ob_fill :: "Book \<Rightarrow> bs \<Rightarrow> int \<Rightarrow> addr \<Rightarrow> int \<Rightarrow> int \<Rightarrow> u64 \<Rightarrow> Book res" where
  "ob_fill b side lvl a sz px tim =
     bnd (lvl_at (qv b side) lvl)
       (\<lambda>q. bnd (q_fill (length (orders q)) q a sz px tim)
          (\<lambda>(q', out). Inr (ret_path (set_lvl b side lvl q') out)))"

text \<open>\<open>do_canc\<close>: the lookup in the level's map only decides whether to log.\<close>

definition do_canc :: "Book \<Rightarrow> bs \<Rightarrow> int \<Rightarrow> addr \<Rightarrow> int \<Rightarrow> int \<Rightarrow> mt \<Rightarrow> Book res" where
  "do_canc b side lvl a sz dispsz modtyp =
     bnd (lvl_at (qv b side) lvl)
       (\<lambda>q. bnd (canc_notify q a sz dispsz modtyp)
          (\<lambda>(q', out). Inr (ret_path (set_lvl b side lvl q') out)))"

text \<open>
  The walks of the inside over levels with no real order: upwards bounded by \<open>hi\<close>,
  downwards by 1. The flag says whether the inside moved.
\<close>

function ask_walk :: "OrderQ list \<Rightarrow> int \<Rightarrow> int \<Rightarrow> bool \<Rightarrow> (int \<times> bool) res" where
  "ask_walk v a hi chg =
     bnd (lvl_at v a)
       (\<lambda>q. if isempty_or_allsim q \<and> a < hi then ask_walk v (a + 1) hi True else Inr (a, chg))"
  by pat_completeness auto

termination
  by (relation "measure (\<lambda>(v, a, hi, chg). nat (hi - a))") auto

declare ask_walk.simps [simp del]

function bid_walk :: "OrderQ list \<Rightarrow> int \<Rightarrow> bool \<Rightarrow> (int \<times> bool) res" where
  "bid_walk v b chg =
     bnd (lvl_at v b)
       (\<lambda>q. if isempty_or_allsim q \<and> b > 1 then bid_walk v (b - 1) True else Inr (b, chg))"
  by pat_completeness auto

termination
  by (relation "measure (\<lambda>(v, b, chg). nat b)") auto

declare bid_walk.simps [simp del]


section \<open>Adding an order\<close>

text \<open>\<open>fill_sim_on_arrival\<close>: \<open>None\<close> when the lambda returns false.\<close>

definition fill_sim_on_arrival ::
  "Book \<Rightarrow> u64 \<Rightarrow> u64 \<Rightarrow> bs \<Rightarrow> int \<Rightarrow> int \<Rightarrow> actor option \<Rightarrow> ot \<Rightarrow> int \<Rightarrow> u64 \<Rightarrow> Book option res" where
  "fill_sim_on_arrival b txtim oid side px sz sender typ owner exord =
     chk (typ = LIMIT) ''order type not implemented''
      (let fill_at = (\<lambda>contra best.
             bnd (lvl_at (qv b contra) best)
              (\<lambda>_. bnd (new_Order (next_addr b) txtim oid exord (sym b) side sz sender owner)
                (\<lambda>ord. bnd (fill_notify_s ord sz (-1) best EXECD txtim)
                   (\<lambda>(_, _, out). Inr (Some (ret_path (b\<lparr>next_addr := next_addr b + 1\<rparr>) out))))))
       in if side = BUY then
            (if px \<ge> best_ask b \<and> best_bid b < best_ask b then fill_at SEL (best_ask b) else Inr None)
          else if side = SEL then
            (if px \<le> best_bid b \<and> best_bid b < best_ask b then fill_at BUY (best_bid b) else Inr None)
          else sngh)"

text \<open>
  The walk over one level in \<open>fill_stray_sim_orders\<close>. The code reads \<open>next\<close> before it fills
  or cancels the order it stands on, and nothing else leaves the level meanwhile, so the
  walk visits the orders that were on the level when it began. The count is
  \<open>uncrossed_here\<close>.
\<close>

fun stray_orders :: "Book \<Rightarrow> bs \<Rightarrow> int \<Rightarrow> u64 \<Rightarrow> addr list \<Rightarrow> nat \<Rightarrow> (Book \<times> nat) res" where
  "stray_orders b side lvl txtim [] n = Inr (b, n)"
| "stray_orders b side lvl txtim (a # as) n =
     bnd (lvl_at (qv b side) lvl)
       (\<lambda>q. case order_at q a of
              None \<Rightarrow> Inl (Undefined ''dangling order pointer'')
            | Some s \<Rightarrow>
                if issim s \<and> o_side s = side then
                  bnd (ob_fill b side lvl a (o_sz s) lvl txtim)
                    (\<lambda>b'. stray_orders b' side lvl txtim as n)
                else if \<not> do_cross_check b \<and> \<not> issim s \<and> o_side s = side then
                  bnd (do_canc b side lvl a (o_sz s) 0 CANCD)
                    (\<lambda>b'. stray_orders (b'\<lparr>num_cross_recover := num_cross_recover b' + 1\<rparr>)
                            side lvl txtim as (n + 1))
                else stray_orders b side lvl txtim as n)"

definition stray_level :: "Book \<Rightarrow> bs \<Rightarrow> int \<Rightarrow> u64 \<Rightarrow> nat \<Rightarrow> (Book \<times> nat) res" where
  "stray_level b side lvl txtim n =
     chk (0 \<le> lvl \<and> nat lvl < length (qv b side)) ''tmp_px out of range''
       (stray_orders b side lvl txtim (map o_addr (orders (qv b side ! nat lvl))) n)"

function stray_up :: "Book \<Rightarrow> int \<Rightarrow> int \<Rightarrow> u64 \<Rightarrow> int \<Rightarrow> nat \<Rightarrow> (Book \<times> nat) res" where
  "stray_up b px maxpx txtim tmp n =
     (if tmp \<le> px then
        bnd (stray_level b SEL tmp txtim n)
          (\<lambda>(b', n'). if tmp + 1 \<ge> maxpx then Inr (b', n') else stray_up b' px maxpx txtim (tmp + 1) n')
      else Inr (b, n))"
  by pat_completeness auto

termination
  by (relation "measure (\<lambda>(b, px, maxpx, txtim, tmp, n). nat (px + 1 - tmp))") auto

declare stray_up.simps [simp del]

function stray_down :: "Book \<Rightarrow> int \<Rightarrow> u64 \<Rightarrow> int \<Rightarrow> nat \<Rightarrow> (Book \<times> nat) res" where
  "stray_down b px txtim tmp n =
     (if tmp \<ge> px then
        bnd (stray_level b BUY tmp txtim n)
          (\<lambda>(b', n'). if tmp - 1 \<le> 0 then Inr (b', n') else stray_down b' px txtim (tmp - 1) n')
      else Inr (b, n))"
  by pat_completeness auto

termination
  by (relation "measure (\<lambda>(b, px, txtim, tmp, n). nat (tmp + 1 - px))") auto

declare stray_down.simps [simp del]

definition fill_stray_sim_orders :: "Book \<Rightarrow> bs \<Rightarrow> int \<Rightarrow> int \<Rightarrow> u64 \<Rightarrow> (Book \<times> nat) res" where
  "fill_stray_sim_orders b side px maxpx txtim =
     (let repair = (\<not> do_cross_check b) in
      if side = BUY \<and> (px > best_bid b \<or> repair \<and> px \<ge> best_ask b) then
        stray_up b px maxpx txtim (if repair then min (best_bid b) (best_ask b) else best_bid b) 0
      else if side = SEL \<and> (px < best_ask b \<or> repair \<and> px \<le> best_bid b) then
        stray_down b px txtim (if repair then max (best_ask b) (best_bid b) else best_ask b) 0
      else Inr (b, 0))"

definition uncross_buy :: "Book \<Rightarrow> nat \<Rightarrow> (Book \<times> bool \<times> bool) res" where
  "uncross_buy b uncrossed =
     (if \<not> do_cross_check b \<and> (uncrossed \<noteq> 0 \<or> best_bid b \<ge> best_ask b) then
        (let hi = int (length (askqs b)) - 1 in
         chk (\<not> (best_ask b < 0 \<or> best_ask b > hi)) ''best_ask out of range for askqs''
          (bnd (ask_walk (askqs b) (best_ask b) hi False)
            (\<lambda>(a, chg). Inr (b\<lparr>best_ask := a\<rparr>, chg, \<not> isempty_or_allsim (askqs b ! nat a)))))
      else Inr (b, False, True))"

definition uncross_sel :: "Book \<Rightarrow> nat \<Rightarrow> (Book \<times> bool \<times> bool) res" where
  "uncross_sel b uncrossed =
     (if \<not> do_cross_check b \<and> (uncrossed \<noteq> 0 \<or> best_bid b \<ge> best_ask b) then
        chk (\<not> (best_bid b < 0 \<or> nat (best_bid b) \<ge> length (bidqs b))) ''best_bid out of range for bidqs''
         (bnd (bid_walk (bidqs b) (best_bid b) False)
           (\<lambda>(p, chg). Inr (b\<lparr>best_bid := p\<rparr>, chg, \<not> isempty_or_allsim (bidqs b ! nat p))))
      else Inr (b, False, True))"

definition check_for_bo_change :: "Book \<Rightarrow> bs \<Rightarrow> int \<Rightarrow> u64 \<Rightarrow> nat \<Rightarrow> u32 \<Rightarrow> Book res" where
  "check_for_bo_change b side px txtim uncrossed venue =
     bnd (if side = BUY then
            (let bbchg = (px > best_bid b);
                 b1 = (if bbchg then b\<lparr>best_bid := px\<rparr> else b)
             in bnd (uncross_buy b1 uncrossed)
                  (\<lambda>(b2, bochg, real). Inr (b2, bbchg, bochg, real)))
          else if side = SEL then
            (let bochg = (px < best_ask b);
                 b1 = (if bochg then b\<lparr>best_ask := px\<rparr> else b)
             in bnd (uncross_sel b1 uncrossed)
                  (\<lambda>(b2, bbchg, real). Inr (b2, bbchg, bochg, real)))
          else sngh)
       (\<lambda>(b2, bbchg, bochg, real).
          if (bbchg \<or> bochg) \<and> best_bid b2 > 0 \<and> best_ask b2 > 0 \<and> real
          then Inr (notifybbbosubs b2 txtim (if bbchg then BUY else SEL) venue)
          else Inr b2)"

definition append_order ::
  "Book \<Rightarrow> u64 \<Rightarrow> u64 \<Rightarrow> bs \<Rightarrow> int \<Rightarrow> int \<Rightarrow> actor option \<Rightarrow> int \<Rightarrow> u64 \<Rightarrow> Book res" where
  "append_order b txtim oid side px sz sender owner exord =
     bnd (lvl_at (qv b side) px)
       (\<lambda>q. bnd (new_Order (next_addr b) txtim oid exord (sym b) side sz sender owner)
          (\<lambda>ord. bnd (q_append q ord)
             (\<lambda>q'. Inr ((set_lvl b side px q')\<lparr>next_addr := next_addr b + 1\<rparr>))))"

definition ob_add ::
  "Book \<Rightarrow> u64 \<Rightarrow> u64 \<Rightarrow> bs \<Rightarrow> int \<Rightarrow> int \<Rightarrow> actor option \<Rightarrow> ot \<Rightarrow> int \<Rightarrow> u64 \<Rightarrow> u32 \<Rightarrow> Book res" where
  "ob_add b txtim oid side px sz sender typ owner exord venue =
     (let sim = (exchid oid = x_SIM) in
      chk (sim \<longrightarrow> sender \<noteq> None) ''sim orders must have a sender''
       (chk (sim \<longrightarrow> currtim b > 0) ''invalid sim time set''
        (chk (asset_maxpx b > 0) ''maxprice''
         (if px \<ge> asset_maxpx b then Inr b
          else if side \<noteq> BUY \<and> side \<noteq> SEL then sngh
          else if sz \<le> 0 then sngh
          else if sim then
            bnd (fill_sim_on_arrival b txtim oid side px sz sender typ owner exord)
              (\<lambda>r. case r of
                     Some b' \<Rightarrow> Inr b'
                   | None \<Rightarrow> append_order b txtim oid side px sz sender owner exord)
          else
            bnd (fill_stray_sim_orders b side px (asset_maxpx b) txtim)
              (\<lambda>(b1, uncrossed). bnd (check_for_bo_change b1 side px txtim uncrossed venue)
                 (\<lambda>b2. append_order b2 txtim oid side px sz sender owner exord))))))"

section \<open>Cancels and executions\<close>

definition mod_order_that_is_not_found :: "Book \<Rightarrow> bool \<Rightarrow> mt \<Rightarrow> actor option \<Rightarrow> u64 \<Rightarrow> Book res" where
  "mod_order_that_is_not_found b sim modtyp sender oid =
     (if sim then
        (if modtyp = CANC \<or> modtyp = CANCD then
           (case sender of
              None \<Rightarrow> Inl (Assert ''sim cancs must have sender'')
            | Some to \<Rightarrow> Inr (publish_delayed b to (CancReject_NOTFOUND (id_of oid)) (last_processed_ts b)))
         else sngh)
      else chk (modtyp \<noteq> EXECD) ''no execd allowed here'' (Inr b))"

definition do_exec :: "Book \<Rightarrow> bs \<Rightarrow> int \<Rightarrow> Order \<Rightarrow> int \<Rightarrow> mt \<Rightarrow> u64 \<Rightarrow> Book res" where
  "do_exec b side px ord sz modtyp txtim =
     chk (\<not> issim ord) ''sim orders cannot execute''
      (chk (modtyp = EXEC) ''can only fill sims on exec''
       (bnd (lvl_at (qv b side) px)
         (\<lambda>q. if map_option o_addr (get_head_no_sim q) = Some (o_addr ord) then
                (case prev_in (orders q) (o_addr ord) of
                   Some p \<Rightarrow> if issim p then ob_fill b side px (o_addr p) sz px txtim else Inr b
                 | None \<Rightarrow> Inr b)
              else Inr b)))"

definition adjust_inside :: "Book \<Rightarrow> bs \<Rightarrow> int \<Rightarrow> u64 \<Rightarrow> u32 \<Rightarrow> Book res" where
  "adjust_inside b side px txtim mkt =
     bnd (if side = BUY \<and> px \<le> best_bid b then
            bnd (bid_walk (bidqs b) (best_bid b) False) (\<lambda>(p, chg). Inr (b\<lparr>best_bid := p\<rparr>, chg, False))
          else if side = SEL \<and> px \<ge> best_ask b then
            chk (asset_maxpx b - 1 > 0) ''maxprice''
             (bnd (ask_walk (askqs b) (best_ask b) (asset_maxpx b - 1) False)
               (\<lambda>(a, chg). Inr (b\<lparr>best_ask := a\<rparr>, False, chg)))
          else Inr (b, False, False))
       (\<lambda>(b1, bbchg, bochg).
          if (bbchg \<or> bochg) \<and> best_bid b1 > 0 \<and> best_ask b1 > 0
          then Inr (notifybbbosubs b1 txtim (if bbchg then BUY else SEL) mkt)
          else Inr b1)"

definition mod_found ::
  "Book \<Rightarrow> bool \<Rightarrow> Order \<Rightarrow> u64 \<Rightarrow> mt \<Rightarrow> bs \<Rightarrow> int \<Rightarrow> int \<Rightarrow> int \<Rightarrow> u32 \<Rightarrow> Book res" where
  "mod_found b sim ord txtim modtyp side px sz disp_sz mkt =
     chk (modtyp = EXEC \<longrightarrow> sz > 0) ''bad size''
      (chk (issim ord = sim) ''sim not set properly''
       (chk (modtyp \<noteq> EXECD) ''execd not allowed here to be used in order q only''
        (bnd (if modtyp = EXEC then do_exec b side px ord sz modtyp txtim
              else if modtyp = CANC \<or> modtyp = CANCD then
                do_canc b side px (o_addr ord) sz disp_sz modtyp
              else Inr b)
          (\<lambda>b1. if sim then Inr b1 else adjust_inside b1 side px txtim mkt))))"

definition ob_mod ::
  "Book \<Rightarrow> actor option \<Rightarrow> u64 \<Rightarrow> u64 \<Rightarrow> mt \<Rightarrow> bs \<Rightarrow> int \<Rightarrow> int \<Rightarrow> int \<Rightarrow> u32 \<Rightarrow> Book res" where
  "ob_mod b sender txtim oid modtyp side px sz disp_sz mkt =
     chk (oid > 0) ''bad oid''
      (chk (sz < CHOPIN_MAX_ORD_SZ) ''sz too large''
       (if modtyp \<noteq> CANCD \<and> sz < 0 then sngh
        else chk (maxprice b > 0) ''maxprice''
         (if px \<ge> maxprice b then Inr b
          else (let sim = (exchid oid = x_SIM) in
            chk (sim \<longrightarrow> sender \<noteq> None) ''mod sim must have sender''
             (if side \<noteq> BUY \<and> side \<noteq> SEL then sngh
              else bnd (lvl_at (qv b side) px)
                (\<lambda>q. case fm_find (qordermap q) oid of
                       None \<Rightarrow> mod_order_that_is_not_found b sim modtyp sender oid
                     | Some a \<Rightarrow>
                         (case order_at q a of
                            None \<Rightarrow> Inl (Undefined ''dangling order pointer'')
                          | Some ord \<Rightarrow> mod_found b sim ord txtim modtyp side px sz disp_sz mkt)))))))"

section \<open>Clearing the book\<close>

fun clear_levels :: "Book \<Rightarrow> bs \<Rightarrow> nat list \<Rightarrow> Book res" where
  "clear_levels b side [] = Inr b"
| "clear_levels b side (i # is) =
     (let q = qv b side ! i in
      if isempty q then clear_levels b side is
      else bnd (canc_notify_all q)
             (\<lambda>(q', out). clear_levels (ret_path (set_lvl b side (int i) q') out) side is))"

fun check_cleared :: "OrderQ list \<Rightarrow> unit res" where
  "check_cleared [] = Inr ()"
| "check_cleared (q # qs) =
     chk (isempty q) ''not empty''
      (bnd (get_orders_in_book q) (\<lambda>n. chk (n = 0) ''orders'' (check_cleared qs)))"

definition clear_book :: "Book \<Rightarrow> Book res" where
  "clear_book b =
     (let b1 = b\<lparr>sent := sent b @ map (\<lambda>s. (s, ClearMsg (sym b))) (lowprio_datasubs b)
                   @ map (\<lambda>s. (s, ClearMsg (sym b))) (hiprio_datasubs b)\<rparr>
      in bnd (clear_levels b1 BUY [0..<length (bidqs b1)])
        (\<lambda>b2. bnd (clear_levels b2 SEL [0..<length (askqs b2)])
          (\<lambda>b3. let b4 = b3\<lparr>best_bid := 0, best_ask := asset_maxpx b3 - 1\<rparr>
                in bnd (check_cleared (bidqs b4))
                  (\<lambda>_. bnd (check_cleared (askqs b4)) (\<lambda>_. Inr b4)))))"

section \<open>Subscriptions and the consistency check\<close>

datatype prio = HI | LOW | PRIO_OTHER

definition bbbosub :: "Book \<Rightarrow> actor \<Rightarrow> Book" where
  "bbbosub b who = b\<lparr>bbbosubs := bbbosubs b @ [who]\<rparr>"

definition subscribe :: "Book \<Rightarrow> actor option \<Rightarrow> prio \<Rightarrow> Book res" where
  "subscribe b sender p =
     (case sender of
        None \<Rightarrow> Inl (Assert ''no sender'')
      | Some who \<Rightarrow>
          bnd (case p of
                 HI \<Rightarrow> Inr (b\<lparr>hiprio_datasubs := hiprio_datasubs b @ [who]\<rparr>)
               | LOW \<Rightarrow> Inr (b\<lparr>lowprio_datasubs := lowprio_datasubs b @ [who]\<rparr>)
               | PRIO_OTHER \<Rightarrow> sngh)
            (\<lambda>b'. chk (distinct (hiprio_datasubs b' @ lowprio_datasubs b'))
                    ''Subscriber exists in multiple subscription lists'' (Inr b')))"

definition kCheckWindow :: int where "kCheckWindow = 64"

definition levels_clear :: "OrderQ list \<Rightarrow> int \<Rightarrow> int \<Rightarrow> bool" where
  "levels_clear v lo hi \<longleftrightarrow> list_all (\<lambda>i. isempty_or_allsim (v ! nat i)) [lo..hi]"

definition check_bbbo :: "Book \<Rightarrow> unit res" where
  "check_bbbo b =
     bnd (lvl_at (askqs b) (best_ask b))
      (\<lambda>aq. bnd (lvl_at (bidqs b) (best_bid b))
        (\<lambda>bq. chk (best_bid b > 10 \<longrightarrow> \<not> isempty bq) ''bidq is empty''
          (chk (asset_maxpx b - 10 > 0) ''maxprice''
           (chk (best_ask b < asset_maxpx b - 10 \<longrightarrow> \<not> isempty aq) ''askq is empty''
            (chk (levels_clear (bidqs b) (best_bid b + 1)
                    (min (best_bid b + 1 + kCheckWindow) (asset_maxpx b - 1))) ''bid above the inside''
              (if best_ask b \<le> 1 then Inr ()
               else chk (levels_clear (askqs b)
                     (max 2 (if best_ask b > kCheckWindow + 1 then best_ask b - kCheckWindow else 2))
                     (best_ask b - 1)) ''ask below the inside'' (Inr ())))))))"


section \<open>What \<open>fill\<close> does to a level\<close>

text \<open>
  \<open>consume n xs\<close> is the effect of filling \<open>n\<close> lots along a list of orders, nearest first:
  whole orders as long as they fit and are simulated, then a part of the next. The fills
  it sends are \<open>consume_fills\<close>.
\<close>

fun consume :: "int \<Rightarrow> Order list \<Rightarrow> Order list" where
  "consume n [] = []"
| "consume n (x # xs) =
     (if n > 0 \<and> issim x then
        (if o_sz x \<le> n then consume (n - o_sz x) xs else x\<lparr>o_sz := o_sz x - n\<rparr> # xs)
      else x # xs)"

fun consume_fills :: "int \<Rightarrow> int \<Rightarrow> u64 \<Rightarrow> Order list \<Rightarrow> sends" where
  "consume_fills n px tim [] = []"
| "consume_fills n px tim (x # xs) =
     (if n > 0 \<and> issim x then
        (if o_sz x \<le> n then fill_msg x (o_sz x) px tim @ consume_fills (n - o_sz x) px tim xs
         else fill_msg x n px tim)
      else [])"

lemma consume_zero [simp]: "consume 0 xs = xs" "consume_fills 0 px tim xs = []"
  by (cases xs; simp)+

lemma prev_in_None: "a \<notin> o_addr ` set (tl xs) \<Longrightarrow> prev_in xs a = None"
  by (induction xs a rule: prev_in.induct) auto

lemma prev_in_split:
  "distinct (map o_addr (pre @ s # post)) \<Longrightarrow>
     prev_in (pre @ s # post) (o_addr s) = (if pre = [] then None else Some (last pre))"
proof (induction pre)
  case Nil
  then show ?case
    by (simp add: prev_in_None)
next
  case (Cons x pre)
  then show ?case
    by (cases pre) auto
qed


lemma fm_find_qordermap:
  assumes "orderq_inv q" "order_at q a = Some s"
  shows "fm_find (qordermap q) (o_id s) = Some a"
proof -
  have "(o_id s, a) \<in> set (qordermap q)"
    using assms order_atD [OF assms(2)] by (auto simp: orderq_inv_def)
  then show ?thesis
    using assms(1) by (simp add: orderq_inv_def fm_find_iff)
qed

lemma resize_order_at:
  assumes "orderq_inv q" "order_at q a = Some s"
  shows "order_at (resize_order q s n) a = Some (s\<lparr>o_sz := n\<rparr>)"
proof -
  have a: "o_addr s = a"
    using order_atD [OF assms(2)] by simp
  obtain xs ys where sp: "orders q = xs @ s # ys"
    using order_at_split [OF assms(2)] by blast
  have "distinct (map o_addr (orders (resize_order q s n)))"
    using assms(1) sp by (simp add: resize_order_split [OF assms(1) sp] orderq_inv_def)
  then show ?thesis
    using order_at_mem [of "resize_order q s n" "s\<lparr>o_sz := n\<rparr>"] a
    by (simp add: resize_order_split [OF assms(1) sp])
qed

text \<open>One call of \<open>fill\<close> on a well-formed level, with its recursive call left as it is.\<close>

lemma q_fill_step:
  assumes "orderq_inv q" "orders q = pre @ s # post" "issim s" "sz > 0" "tim > 0"
  shows "q_fill fuel q (o_addr s) sz px tim =
     (if sz < o_sz s then Inr (resize_order q s (o_sz s - sz), fill_msg s sz px tim)
      else if pre \<noteq> [] \<and> sz > o_sz s \<and> issim (last pre) then
        (case fuel of
           0 \<Rightarrow> Inl (Undefined ''fill does not end'')
         | Suc fuel' \<Rightarrow>
             bnd (q_fill fuel' (drop_order q s) (o_addr (last pre)) (sz - o_sz s) px tim)
               (\<lambda>(q'', out'). Inr (q'', fill_msg s (o_sz s) px tim @ out')))
      else Inr (drop_order q s, fill_msg s (o_sz s) px tim))"
proof -
  have at: "order_at q (o_addr s) = Some s"
    using order_at_mem [of q s] assms(1,2) by (simp add: orderq_inv_def)
  note ok = orderq_invD [OF assms(1) at]
  have prev: "prev_in (orders q) (o_addr s) = (if pre = [] then None else Some (last pre))"
    using prev_in_split [of pre s post] assms(1,2) by (simp add: orderq_inv_def)
  have found: "fm_find (qordermap q) (o_id s) = Some (o_addr s)"
    using fm_find_qordermap [OF assms(1) at] .
  have full: "fill_notify q (o_addr s) (o_sz s) (-1) px EXECD tim
      = Inr (o_sz s, drop_order q s, fill_msg s (o_sz s) px tim)"
    using fill_notify_sim [OF assms(1) at assms(3) ok(2), of tim EXECD "-1" px] assms(5) by simp
  have part: "fill_notify q (o_addr s) sz (-1) px EXEC tim
      = Inr (sz, resize_order q s (o_sz s - sz), fill_msg s sz px tim)" if "sz < o_sz s"
    using fill_notify_sim [OF assms(1) at assms(3,4), of tim EXEC "-1" px] assms(5) that by simp
  show ?thesis
  proof (cases "sz < o_sz s")
    case True
    then show ?thesis
      using at found assms(3-5) part resize_order_at [OF assms(1) at]
      by (simp add: q_fill.simps [of fuel])
  next
    case False
    then show ?thesis
      using at found assms(3-5) full prev ok(2)
      by (simp add: q_fill.simps [of fuel] min_def Let_def)
  qed
qed

lemma consume_stop:
  "pre = [] \<or> n \<le> 0 \<or> \<not> issim (last pre) \<Longrightarrow> consume n (rev pre) = rev pre \<and> consume_fills n px tim (rev pre) = []"
  by (cases pre rule: rev_cases) auto

lemma q_fill_ok:
  assumes "orderq_inv q" "orders q = pre @ s # post" "issim s" "sz > 0" "tim > 0" "length pre \<le> fuel"
  shows "\<exists>q'. q_fill fuel q (o_addr s) sz px tim = Inr (q', consume_fills sz px tim (s # rev pre))
     \<and> orderq_inv q' \<and> orders q' = rev (consume sz (s # rev pre)) @ post"
  using assms
proof (induction fuel arbitrary: q pre s sz)
  case 0
  then have "pre = []"
    by simp
  then show ?case
    using q_fill_step [OF 0(1-5), of 0 px] drop_order_inv [OF 0(1), of s] resize_order_inv [OF 0(1), of s "o_sz s - sz"]
      drop_order_split [OF 0(1,2)] resize_order_split [OF 0(1,2)] 0(2-4) by auto
next
  case (Suc fuel)
  note P = Suc.prems
  have mem: "s \<in> set (orders q)"
    using P(2) by simp
  note dr = drop_order_inv [OF P(1) mem] drop_order_split [OF P(1,2)]
  note st = q_fill_step [OF P(1-5), of "Suc fuel" px]
  show ?case
  proof (cases "pre \<noteq> [] \<and> sz > o_sz s \<and> issim (last pre)")
    case True
    have pre: "pre = butlast pre @ [last pre]"
      using True by simp
    have sp: "orders (drop_order q s) = butlast pre @ last pre # post"
      using dr(2) pre by (metis append.assoc append_Cons append_Nil)
    have "issim (last pre)" "0 < sz - o_sz s" "length (butlast pre) \<le> fuel"
      using True P(6) by auto
    then obtain q' where q': "q_fill fuel (drop_order q s) (o_addr (last pre)) (sz - o_sz s) px tim
        = Inr (q', consume_fills (sz - o_sz s) px tim (last pre # rev (butlast pre)))"
      "orderq_inv q'" "orders q' = rev (consume (sz - o_sz s) (last pre # rev (butlast pre))) @ post"
      using Suc.IH [OF dr(1) sp _ _ P(5)] by blast
    have rp: "rev pre = last pre # rev (butlast pre)"
      using arg_cong [OF pre, of rev] by simp
    have "consume sz (s # rev pre) = consume (sz - o_sz s) (last pre # rev (butlast pre))"
      "consume_fills sz px tim (s # rev pre)
       = fill_msg s (o_sz s) px tim @ consume_fills (sz - o_sz s) px tim (last pre # rev (butlast pre))"
      using True P(3,4) by (simp_all add: rp)
    then show ?thesis
      using True q' st by simp
  next
    case False
    show ?thesis
    proof (cases "sz < o_sz s")
      case True
      then show ?thesis
        using st resize_order_inv [OF P(1) mem, of "o_sz s - sz"] resize_order_split [OF P(1,2)] P(3,4) by simp
    next
      case False
      note * = consume_stop [of pre "sz - o_sz s" px tim]
      have "q_fill (Suc fuel) q (o_addr s) sz px tim = Inr (drop_order q s, fill_msg s (o_sz s) px tim)"
        using st False \<open>\<not> (pre \<noteq> [] \<and> sz > o_sz s \<and> issim (last pre))\<close> by auto
      moreover have "consume sz (s # rev pre) = rev pre" "consume_fills sz px tim (s # rev pre) = fill_msg s (o_sz s) px tim"
        using * False \<open>\<not> (pre \<noteq> [] \<and> sz > o_sz s \<and> issim (last pre))\<close> P(3,4) by auto
      ultimately show ?thesis
        using dr by simp
    qed
  qed
qed


lemma sends_size_consume:
  "\<forall>x\<in>set xs. order_ok x \<Longrightarrow> n \<ge> 0 \<Longrightarrow>
     (\<Sum>(to, m)\<leftarrow>consume_fills n px tim xs. fill_sz m) = min n (\<Sum>x\<leftarrow>takeWhile issim xs. o_sz x)"
proof (induction xs arbitrary: n)
  case Nil
  then show ?case by simp
next
  case (Cons x xs)
  have nn: "0 \<le> (\<Sum>x\<leftarrow>takeWhile issim xs. o_sz x)"
    using Cons.prems(1) by (intro sum_list_nonneg) (auto dest!: set_takeWhileD simp: order_ok_def)
  show ?case
  proof (cases "issim x")
    case True
    then obtain to where "originator x = Some to"
      using Cons.prems(1) by (auto simp: order_ok_def)
    then have one: "(\<Sum>(to, m)\<leftarrow>fill_msg x k px tim. fill_sz m) = k" for k
      by (simp add: fill_msg_def)
    show ?thesis
      using Cons True nn one by (auto simp: order_ok_def)
  next
    case False
    then show ?thesis
      using Cons.prems(2) by simp
  qed
qed

end
