(* ===== verification/Fill_Slate.thy ===== *)
theory Fill_Slate
  imports Kaspar_Prelude "HOL-Library.Multiset"
begin

text \<open>
  \<open>frame::ob::FillSlate\<close> of \<open>src/frame_kaspr/include/frame/ob/FillSlate.hpp\<close>: fills of one
  exchange transaction are held until the book records of their orders tell who was the
  aggressor, and released with a role. The payload type is a type parameter, as in the
  C++ template. The callback \<open>release\<close> is a consumer: an operation returns the list of
  its calls, in order. \<open>idx_\<close>, an unordered map that is never iterated, is a HOL map;
  \<open>fills_\<close> is a list that is updated by index and the \<open>next\<close> chains are indices into it.
  The cumulative 64-bit counters and \<open>held_\<close> are integers, and \<open>held_\<close> is shown never
  to go below zero.
\<close>

section \<open>State\<close>

datatype FillRole = RESTING | AGGRESSOR | AMBIGUOUS

datatype Release = AT_DECISION | AT_OWN_RECORD

definition sBUY :: int where "sBUY = 0"
definition sSEL :: int where "sSEL = 1"
definition SIDE_NONE :: int where "SIDE_NONE = -2"
definition SIDE_UNKNOWN :: int where "SIDE_UNKNOWN = -1"

lemmas side_consts = sBUY_def sSEL_def SIDE_NONE_def SIDE_UNKNOWN_def

record 'p SlateFill =
  f_oid :: u64
  f_tx :: u64
  f_px :: real
  f_qty :: u32
  f_side :: int
  f_pl :: 'p
  f_next :: int
  f_at_touch :: bool
  f_released :: bool

record Ord =
  ord_first :: int
  ord_last :: int
  ord_seen :: bool

record 'p FillSlate =
  mode :: Release
  fills :: "'p SlateFill list"
  idx :: "u64 \<Rightarrow> Ord option"
  held :: int
  tx_open :: bool
  tx :: u64
  nb :: nat
  ns :: nat
  seen_orders :: nat
  moved_side :: int
  kept_side :: int
  buy_at_touch :: bool
  sel_at_touch :: bool
  aside :: int
  n_resting :: nat
  n_aggressor :: nat
  n_ambiguous :: nat

type_synonym 'p releases = "('p SlateFill \<times> FillRole) list"

definition FillSlate_init :: "Release \<Rightarrow> 'p FillSlate" where
  "FillSlate_init md = \<lparr>mode = md, fills = [], idx = (\<lambda>_. None), held = 0, tx_open = False, tx = 0,
     nb = 0, ns = 0, seen_orders = 0, moved_side = SIDE_UNKNOWN, kept_side = SIDE_UNKNOWN,
     buy_at_touch = True, sel_at_touch = True, aside = SIDE_UNKNOWN,
     n_resting = 0, n_aggressor = 0, n_ambiguous = 0\<rparr>"

section \<open>Operations\<close>

definition reset_tx :: "'p FillSlate \<Rightarrow> 'p FillSlate" where
  "reset_tx s = s\<lparr>tx_open := False, nb := 0, ns := 0, seen_orders := 0,
     moved_side := SIDE_UNKNOWN, kept_side := SIDE_UNKNOWN,
     buy_at_touch := True, sel_at_touch := True, aside := SIDE_UNKNOWN\<rparr>"

definition slate_clear :: "'p FillSlate \<Rightarrow> 'p FillSlate" where
  "slate_clear s =
     reset_tx (s\<lparr>idx := foldl (\<lambda>ix f. ix(f_oid f := None)) (idx s) (fills s), fills := [], held := 0\<rparr>)"

definition same_px :: "real \<Rightarrow> real \<Rightarrow> bool" where
  "same_px a b \<longleftrightarrow> \<bar>a - b\<bar> \<le> 1 / 10 ^ 9 * max 1 (max \<bar>a\<bar> \<bar>b\<bar>)"

definition compute_side :: "'p FillSlate \<Rightarrow> int" where
  "compute_side s =
     (if nb s = 0 \<or> ns s = 0 then SIDE_NONE
      else if nb s \<ge> 2 \<and> ns s \<ge> 2 then SIDE_NONE
      else if nb s = 1 \<and> ns s \<ge> 2 then sBUY
      else if ns s = 1 \<and> nb s \<ge> 2 then sSEL
      else if moved_side s \<noteq> SIDE_UNKNOWN then moved_side s
      else if kept_side s \<noteq> SIDE_UNKNOWN then (if kept_side s = sBUY then sSEL else sBUY)
      else if buy_at_touch s \<noteq> sel_at_touch s then (if buy_at_touch s then sSEL else sBUY)
      else SIDE_UNKNOWN)"

definition role_for :: "'p FillSlate \<Rightarrow> 'p SlateFill \<Rightarrow> FillRole" where
  "role_for s f =
     (if aside s = SIDE_NONE then RESTING
      else if aside s = SIDE_UNKNOWN then AMBIGUOUS
      else if f_side f = aside s then AGGRESSOR else RESTING)"

definition release_one :: "'p FillSlate \<Rightarrow> nat \<Rightarrow> FillRole \<Rightarrow> 'p FillSlate \<times> 'p releases" where
  "release_one s i r =
     (let f = fills s ! i in
      if f_released f then (s, [])
      else (let f' = f\<lparr>f_released := True\<rparr>;
                s1 = s\<lparr>fills := (fills s)[i := f'], held := held s - 1\<rparr>
            in (case r of
                  RESTING \<Rightarrow> s1\<lparr>n_resting := n_resting s1 + 1\<rparr>
                | AGGRESSOR \<Rightarrow> s1\<lparr>n_aggressor := n_aggressor s1 + 1\<rparr>
                | AMBIGUOUS \<Rightarrow> s1\<lparr>n_ambiguous := n_ambiguous s1 + 1\<rparr>,
                [(f', r)])))"

text \<open>
  The three loops \<open>for (auto g : fills_) if (!g.released ...) release_one(g, ...)\<close>: \<open>P\<close> is
  the rest of the condition and \<open>rf\<close> the role, both read in the current state.
\<close>

fun release_loop ::
  "('p FillSlate \<Rightarrow> 'p SlateFill \<Rightarrow> bool) \<Rightarrow> ('p FillSlate \<Rightarrow> 'p SlateFill \<Rightarrow> FillRole)
     \<Rightarrow> nat list \<Rightarrow> 'p FillSlate \<Rightarrow> 'p FillSlate \<times> 'p releases" where
  "release_loop P rf [] s = (s, [])"
| "release_loop P rf (i # is) s =
     (let g = fills s ! i;
          (s1, out1) = (if \<not> f_released g \<and> P s g then release_one s i (rf s g) else (s, []));
          (s2, out2) = release_loop P rf is s1
      in (s2, out1 @ out2))"

text \<open>The chain of one order's fills, followed through \<open>next\<close>.\<close>

fun release_chain :: "nat \<Rightarrow> 'p FillSlate \<Rightarrow> int \<Rightarrow> FillRole \<Rightarrow> ('p FillSlate \<times> 'p releases) res" where
  "release_chain fuel s i undecided =
     (if i < 0 then Inr (s, [])
      else if nat i \<ge> length (fills s) then Inl (Undefined ''index past the fills'')
      else (case fuel of
              0 \<Rightarrow> Inl (Undefined ''the chain does not end'')
            | Suc fuel' \<Rightarrow>
                (let (s1, out1) = release_one s (nat i)
                       (if aside s = SIDE_UNKNOWN then undecided else role_for s (fills s ! nat i))
                 in bnd (release_chain fuel' s1 (f_next (fills s1 ! nat i)) undecided)
                      (\<lambda>(s2, out2). Inr (s2, out1 @ out2)))))"

declare release_chain.simps [simp del]

definition release_order ::
  "'p FillSlate \<Rightarrow> Ord \<Rightarrow> FillRole \<Rightarrow> ('p FillSlate \<times> 'p releases) res" where
  "release_order s ord undecided = release_chain (length (fills s)) s (ord_first ord) undecided"

definition close_tx :: "'p FillSlate \<Rightarrow> 'p FillSlate \<times> 'p releases" where
  "close_tx s =
     (let s1 = (if aside s = SIDE_UNKNOWN then s\<lparr>aside := compute_side s\<rparr> else s);
          (s2, out) = release_loop (\<lambda>_ _. True) role_for [0..<length (fills s1)] s1
      in (slate_clear s2, out))"

definition advance :: "'p FillSlate \<Rightarrow> u64 \<Rightarrow> 'p FillSlate \<times> 'p releases" where
  "advance s t = (if tx_open s \<and> t \<noteq> tx s then close_tx s else (s, []))"

definition flush :: "'p FillSlate \<Rightarrow> 'p FillSlate \<times> 'p releases" where
  "flush s = close_tx s"

text \<open>The two halves of \<open>on_trade\<close>: listing the fill, then releasing it when that is due.\<close>

definition list_fill ::
  "'p FillSlate \<Rightarrow> u64 \<Rightarrow> u64 \<Rightarrow> real \<Rightarrow> int \<Rightarrow> u32 \<Rightarrow> bool \<Rightarrow> 'p \<Rightarrow> 'p FillSlate" where
  "list_fill s oid t px side qty touch pl =
     (let s1 = (if tx_open s then s else s\<lparr>tx_open := True, tx := t\<rparr>);
          i = length (fills s1);
          s2 = s1\<lparr>fills := fills s1 @ [\<lparr>f_oid = oid, f_tx = t, f_px = px, f_qty = qty, f_side = side,
                                        f_pl = pl, f_next = -1, f_at_touch = touch, f_released = False\<rparr>],
                  held := held s1 + 1\<rparr>
      in (case idx s2 oid of
            None \<Rightarrow>
              (let s3 = s2\<lparr>idx := (idx s2)(oid \<mapsto> \<lparr>ord_first = int i, ord_last = int i, ord_seen = False\<rparr>)\<rparr>
               in if side = sBUY then s3\<lparr>nb := nb s3 + 1, buy_at_touch := touch\<rparr>
                  else s3\<lparr>ns := ns s3 + 1, sel_at_touch := touch\<rparr>)
          | Some ord \<Rightarrow>
              (let l = nat (ord_last ord) in
               s2\<lparr>fills := (fills s2)[l := (fills s2 ! l)\<lparr>f_next := int i\<rparr>],
                  idx := (idx s2)(oid \<mapsto> ord\<lparr>ord_last := int i\<rparr>)\<rparr>)))"

definition on_trade ::
  "'p FillSlate \<Rightarrow> u64 \<Rightarrow> u64 \<Rightarrow> real \<Rightarrow> int \<Rightarrow> u32 \<Rightarrow> bool \<Rightarrow> 'p \<Rightarrow> 'p FillSlate \<times> 'p releases" where
  "on_trade s oid t px side qty touch pl =
     (let (s0, out0) = advance s t;
          s1 = list_fill s0 oid t px side qty touch pl;
          i = length (fills s0);
          seen = (case idx s1 oid of None \<Rightarrow> False | Some ord \<Rightarrow> ord_seen ord)
      in if aside s1 \<noteq> SIDE_UNKNOWN \<and> (mode s1 = AT_DECISION \<or> seen)
         then (let (s2, out2) = release_one s1 i (role_for s1 (fills s1 ! i)) in (s2, out0 @ out2))
         else (s1, out0))"

definition mark_seen :: "'p FillSlate \<Rightarrow> u64 \<Rightarrow> Ord \<Rightarrow> int \<Rightarrow> real \<Rightarrow> 'p FillSlate" where
  "mark_seen s oid ord action px =
     (let s1 = s\<lparr>idx := (idx s)(oid \<mapsto> ord\<lparr>ord_seen := True\<rparr>), seen_orders := seen_orders s + 1\<rparr>;
          first = fills s1 ! nat (ord_first ord)
      in if action = 1
         then (if same_px px (f_px first) then s1\<lparr>kept_side := f_side first\<rparr>
               else s1\<lparr>moved_side := f_side first\<rparr>)
         else s1)"

definition seen_fill :: "'p FillSlate \<Rightarrow> 'p SlateFill \<Rightarrow> bool" where
  "seen_fill s f = (case idx s (f_oid f) of None \<Rightarrow> False | Some ord \<Rightarrow> ord_seen ord)"

definition on_book ::
  "'p FillSlate \<Rightarrow> u64 \<Rightarrow> u64 \<Rightarrow> int \<Rightarrow> real \<Rightarrow> ('p FillSlate \<times> 'p releases) res" where
  "on_book s oid t action px =
     (if \<not> tx_open s then Inr (s, [])
      else if t \<noteq> tx s then Inr (close_tx s)
      else if action \<noteq> 1 \<and> action \<noteq> 2 then Inr (s, [])
      else (case idx s oid of
              None \<Rightarrow> Inr (s, [])
            | Some ord \<Rightarrow>
                if ord_seen ord then Inr (s, [])
                else (let s1 = mark_seen s oid ord action px in
                      if aside s1 = SIDE_UNKNOWN then
                        (let s2 = s1\<lparr>aside := compute_side s1\<rparr> in
                         if aside s2 \<noteq> SIDE_UNKNOWN then
                           Inr (release_loop (\<lambda>s f. mode s = AT_DECISION \<or> seen_fill s f) role_for
                                  [0..<length (fills s2)] s2)
                         else if mode s2 = AT_OWN_RECORD then
                           release_order s2 ord AMBIGUOUS
                         else if seen_orders s2 = nb s2 + ns s2 then
                           Inr (release_loop (\<lambda>_ _. True) (\<lambda>_ _. AMBIGUOUS) [0..<length (fills s2)] s2)
                         else Inr (s2, []))
                      else if mode s1 = AT_OWN_RECORD then release_order s1 ord AMBIGUOUS
                      else Inr (s1, []))))"

definition slate_empty :: "'p FillSlate \<Rightarrow> bool" where
  "slate_empty s \<longleftrightarrow> held s = 0"


section \<open>What releasing does\<close>

definition unrel :: "'p SlateFill list \<Rightarrow> 'p SlateFill list" where
  "unrel fs = filter (\<lambda>f. \<not> f_released f) fs"

definition core :: "'p SlateFill \<Rightarrow> u64 \<times> u64 \<times> real \<times> u32 \<times> int \<times> 'p" where
  "core f = (f_oid f, f_tx f, f_px f, f_qty f, f_side f, f_pl f)"

lemma core_update [simp]: "core (f\<lparr>f_released := b\<rparr>) = core f" "core (f\<lparr>f_next := n\<rparr>) = core f"
  by (simp_all add: core_def)

lemma unrel_append [simp]: "unrel (xs @ ys) = unrel xs @ unrel ys"
  by (simp add: unrel_def)

lemma unrel_Cons [simp]: "unrel (f # xs) = (if f_released f then unrel xs else f # unrel xs)"
  by (simp add: unrel_def)

lemma unrel_Nil [simp]: "unrel [] = []"
  by (simp add: unrel_def)

definition n_total :: "'p FillSlate \<Rightarrow> nat" where
  "n_total s = n_resting s + n_aggressor s + n_ambiguous s"

definition same_or_released :: "'p SlateFill \<Rightarrow> 'p SlateFill \<Rightarrow> bool" where
  "same_or_released f f' \<longleftrightarrow> f' = f \<or> f' = f\<lparr>f_released := True\<rparr>"

text \<open>
  \<open>releases_from s s' out\<close>: going from \<open>s\<close> to \<open>s'\<close> released exactly the fills of \<open>out\<close> and
  changed nothing else.
\<close>

definition slate_frame :: "'p FillSlate \<Rightarrow> 'p FillSlate" where
  "slate_frame s = s\<lparr>fills := [], held := 0, n_resting := 0, n_aggressor := 0, n_ambiguous := 0\<rparr>"

definition releases_from :: "'p FillSlate \<Rightarrow> 'p FillSlate \<Rightarrow> 'p releases \<Rightarrow> bool" where
  "releases_from s s' out \<longleftrightarrow>
     slate_frame s' = slate_frame s
     \<and> list_all2 same_or_released (fills s) (fills s')
     \<and> held s' = held s - int (length out)
     \<and> n_total s' = n_total s + length out
     \<and> mset (map (core \<circ> fst) out) + mset (map core (unrel (fills s'))) = mset (map core (unrel (fills s)))"

lemma releases_from_refl [simp]: "releases_from s s []"
  by (auto simp: releases_from_def same_or_released_def intro!: list_all2_refl)

lemma releases_from_trans:
  assumes "releases_from s s1 out1" "releases_from s1 s2 out2"
  shows "releases_from s s2 (out1 @ out2)"
proof -
  have "list_all2 same_or_released (fills s) (fills s2)"
    by (rule list_all2_trans [of same_or_released same_or_released])
      (use assms in \<open>auto simp: releases_from_def same_or_released_def\<close>)
  then show ?thesis
    using assms by (auto simp: releases_from_def algebra_simps)
qed

lemma releases_from_length: "releases_from s s' out \<Longrightarrow> length (fills s') = length (fills s)"
  by (auto simp: releases_from_def dest: list_all2_lengthD)

lemma releases_from_nth:
  "releases_from s s' out \<Longrightarrow> i < length (fills s) \<Longrightarrow> same_or_released (fills s ! i) (fills s' ! i)"
  by (simp add: releases_from_def list_all2_nthD)

lemma releases_from_sel:
  assumes "releases_from s s' out"
  shows "mode s' = mode s" "idx s' = idx s" "tx_open s' = tx_open s" "tx s' = tx s" "nb s' = nb s"
    "ns s' = ns s" "seen_orders s' = seen_orders s" "moved_side s' = moved_side s"
    "kept_side s' = kept_side s" "buy_at_touch s' = buy_at_touch s"
    "sel_at_touch s' = sel_at_touch s" "aside s' = aside s"
proof -
  have "slate_frame s' = slate_frame s"
    using assms by (simp add: releases_from_def)
  then show "mode s' = mode s" "idx s' = idx s" "tx_open s' = tx_open s" "tx s' = tx s" "nb s' = nb s"
    "ns s' = ns s" "seen_orders s' = seen_orders s" "moved_side s' = moved_side s"
    "kept_side s' = kept_side s" "buy_at_touch s' = buy_at_touch s"
    "sel_at_touch s' = sel_at_touch s" "aside s' = aside s"
    by (cases s, cases s', simp add: slate_frame_def)+
qed

lemma mset_unrel_release:
  assumes "i < length fs" "\<not> f_released (fs ! i)"
  shows "mset (map core (unrel fs))
       = add_mset (core (fs ! i)) (mset (map core (unrel (fs[i := (fs ! i)\<lparr>f_released := True\<rparr>]))))"
proof -
  have "fs = take i fs @ fs ! i # drop (Suc i) fs"
    using assms(1) by (rule id_take_nth_drop)
  then have "unrel fs = unrel (take i fs) @ fs ! i # unrel (drop (Suc i) fs)"
    using assms(2) by (metis unrel_append unrel_Cons)
  moreover have "unrel (fs[i := (fs ! i)\<lparr>f_released := True\<rparr>]) = unrel (take i fs) @ unrel (drop (Suc i) fs)"
    using assms(1) by (simp add: upd_conv_take_nth_drop)
  ultimately show ?thesis
    by simp
qed

lemma release_one_releases:
  assumes "i < length (fills s)" "release_one s i r = (s', out)"
  shows "releases_from s s' out" "f_released (fills s' ! i)"
    "\<And>f r'. (f, r') \<in> set out \<Longrightarrow> r' = r \<and> f = (fills s ! i)\<lparr>f_released := True\<rparr>"
proof -
  have l2: "list_all2 same_or_released (fills s) ((fills s)[i := (fills s ! i)\<lparr>f_released := True\<rparr>])"
    using assms(1) by (auto simp: list_all2_conv_all_nth nth_list_update same_or_released_def)
  show "releases_from s s' out"
  proof (cases "f_released (fills s ! i)")
    case True
    then show ?thesis
      using assms(2) by (simp add: release_one_def)
  next
    case False
    then show ?thesis
      using assms l2 mset_unrel_release [OF assms(1) False]
      by (cases r) (auto simp: release_one_def releases_from_def n_total_def slate_frame_def Let_def)
  qed
  show "f_released (fills s' ! i)"
    using assms by (cases r) (auto simp: release_one_def Let_def split: if_splits)
  show "\<And>f r'. (f, r') \<in> set out \<Longrightarrow> r' = r \<and> f = (fills s ! i)\<lparr>f_released := True\<rparr>"
    using assms by (auto simp: release_one_def Let_def split: if_splits)
qed

lemma release_loop_releases:
  assumes "\<forall>i\<in>set is. i < length (fills s)" "release_loop P rf is s = (s', out)"
  shows "releases_from s s' out"
  using assms
proof (induction "is" arbitrary: s s' out)
  case Nil
  then show ?case by simp
next
  case (Cons i js)
  obtain s1 out1 where one: "(if \<not> f_released (fills s ! i) \<and> P s (fills s ! i)
      then release_one s i (rf s (fills s ! i)) else (s, [])) = (s1, out1)"
    by force
  obtain s2 out2 where two: "release_loop P rf js s1 = (s2, out2)"
    by force
  have 1: "releases_from s s1 out1"
    using one Cons.prems(1) release_one_releases(1) [of i s] by (auto split: if_splits)
  then have "releases_from s1 s2 out2"
    using Cons.IH [OF _ two] Cons.prems(1) by (simp add: releases_from_length)
  then show ?case
    using releases_from_trans [OF 1] Cons.prems(2) one two by auto
qed


text \<open>A condition or role that releasing other fills does not change.\<close>

definition stable :: "('p FillSlate \<Rightarrow> 'p SlateFill \<Rightarrow> 'b) \<Rightarrow> bool" where
  "stable F \<longleftrightarrow> (\<forall>s s' f f'. slate_frame s' = slate_frame s \<and> same_or_released f f' \<longrightarrow> F s' f' = F s f)"

lemma stable_releases:
  "stable F \<Longrightarrow> releases_from s s' out \<Longrightarrow> i < length (fills s) \<Longrightarrow>
     F s' (fills s' ! i) = F s (fills s ! i)"
  by (meson releases_from_def releases_from_nth stable_def)

lemma stable_frame: "stable F \<Longrightarrow> releases_from s s' out \<Longrightarrow> F s' f = F s f"
  by (auto simp: stable_def releases_from_def same_or_released_def)

lemma stable_released: "stable F \<Longrightarrow> F s (f\<lparr>f_released := True\<rparr>) = F s f"
  unfolding stable_def same_or_released_def by blast

lemma frame_sel:
  assumes "slate_frame s' = slate_frame s"
  shows "aside s' = aside s" "mode s' = mode s" "idx s' = idx s"
  using assms by (cases s, cases s', simp add: slate_frame_def)+

lemma stable_role_for: "stable role_for"
  by (auto simp: stable_def role_for_def same_or_released_def dest: frame_sel)

lemma stable_const [simp]: "stable (\<lambda>_ _. c)"
  by (simp add: stable_def)

lemma stable_seen: "stable (\<lambda>s f. mode s = AT_DECISION \<or> seen_fill s f)"
  by (auto simp: stable_def seen_fill_def same_or_released_def dest: frame_sel)

lemma released_mono: "same_or_released f f' \<Longrightarrow> f_released f \<Longrightarrow> f_released f'"
  by (auto simp: same_or_released_def)

text \<open>One turn of the loop, as the step of its inductions.\<close>

lemma release_loop_Cons:
  assumes "\<forall>i\<in>set (j # js). i < length (fills s)" "release_loop P rf (j # js) s = (s', out)"
  obtains s1 out1 out2 where "releases_from s s1 out1" "release_loop P rf js s1 = (s', out2)"
    "releases_from s1 s' out2" "out = out1 @ out2" "\<forall>i\<in>set js. i < length (fills s1)"
    "P s (fills s ! j) \<Longrightarrow> f_released (fills s1 ! j)"
    "\<And>f r. (f, r) \<in> set out1 \<Longrightarrow> r = rf s (fills s ! j) \<and> f = (fills s ! j)\<lparr>f_released := True\<rparr>"
proof -
  let ?c = "\<not> f_released (fills s ! j) \<and> P s (fills s ! j)"
  obtain s1 out1 where one: "(if ?c then release_one s j (rf s (fills s ! j)) else (s, [])) = (s1, out1)"
    by force
  obtain s2 out2 where two: "release_loop P rf js s1 = (s2, out2)"
    by force
  have j: "j < length (fills s)"
    using assms(1) by simp
  have r1: "releases_from s s1 out1"
    using one release_one_releases(1) [OF j] by (auto split: if_splits)
  have js: "\<forall>i\<in>set js. i < length (fills s1)"
    using assms(1) r1 by (simp add: releases_from_length)
  show thesis
  proof (rule that [OF r1 _ _ _ js])
    show "release_loop P rf js s1 = (s', out2)" "out = out1 @ out2"
      using assms(2) one two by auto
    then show "releases_from s1 s' out2"
      using release_loop_releases [OF js] by blast
    show "f_released (fills s1 ! j)" if "P s (fills s ! j)"
      using that one release_one_releases(2) [OF j] by (auto split: if_splits)
    show "r = rf s (fills s ! j) \<and> f = (fills s ! j)\<lparr>f_released := True\<rparr>" if "(f, r) \<in> set out1" for f r
      using that one release_one_releases(3) [OF j] by (auto split: if_splits)
  qed
qed

lemma release_loop_done:
  assumes "\<forall>i\<in>set is. i < length (fills s)" "release_loop P rf is s = (s', out)" "stable P"
    "i \<in> set is" "P s (fills s ! i)"
  shows "f_released (fills s' ! i)"
  using assms(1,2,4,5)
proof (induction "is" arbitrary: s s' out)
  case Nil
  then show ?case by simp
next
  case (Cons j js)
  obtain s1 out1 out2 where st: "releases_from s s1 out1" "release_loop P rf js s1 = (s', out2)"
    "releases_from s1 s' out2" "\<forall>i\<in>set js. i < length (fills s1)"
    "P s (fills s ! j) \<Longrightarrow> f_released (fills s1 ! j)"
    by (rule release_loop_Cons [OF Cons.prems(1,2)]) blast
  have i: "i < length (fills s)"
    using Cons.prems(1,3) by blast
  show ?case
  proof (cases "i \<in> set js")
    case True
    then show ?thesis
      using Cons.IH [OF st(4,2)] stable_releases [OF assms(3) st(1) i] Cons.prems(4) by simp
  next
    case False
    then have "f_released (fills s1 ! i)"
      using Cons.prems(3,4) st(5) by simp
    then show ?thesis
      using releases_from_nth [OF st(3), of i] released_mono i st(1) by (simp add: releases_from_length)
  qed
qed

lemma release_loop_roles:
  assumes "\<forall>i\<in>set is. i < length (fills s)" "release_loop P rf is s = (s', out)" "stable rf"
    "(f, r) \<in> set out"
  shows "r = rf s f"
  using assms(1,2,4)
proof (induction "is" arbitrary: s s' out)
  case Nil
  then show ?case by simp
next
  case (Cons j js)
  obtain s1 out1 out2 where st: "releases_from s s1 out1" "release_loop P rf js s1 = (s', out2)"
    "out = out1 @ out2" "\<forall>i\<in>set js. i < length (fills s1)"
    "\<And>f r. (f, r) \<in> set out1 \<Longrightarrow> r = rf s (fills s ! j) \<and> f = (fills s ! j)\<lparr>f_released := True\<rparr>"
    by (rule release_loop_Cons [OF Cons.prems(1,2)]) blast
  have "r = rf s f" if "(f, r) \<in> set out1"
    using st(5) [OF that] stable_released [OF assms(3)] by metis
  moreover have "r = rf s f" if "(f, r) \<in> set out2"
    using Cons.IH [OF st(4,2) that] stable_frame [OF assms(3) st(1)] by simp
  ultimately show ?case
    using Cons.prems(3) st(3) by auto
qed

lemma release_loop_all:
  assumes "release_loop (\<lambda>_ _. True) rf [0..<length (fills s)] s = (s', out)" "stable rf"
  shows "unrel (fills s') = []"
proof -
  have "f_released (fills s' ! i)" if "i < length (fills s)" for i
    using release_loop_done [OF _ assms(1)] that by simp
  then have "\<forall>f\<in>set (fills s'). f_released f"
    using releases_from_length [OF release_loop_releases [OF _ assms(1)]] by (auto simp: in_set_conv_nth)
  then show ?thesis
    by (simp add: unrel_def)
qed


section \<open>The chains of an order's fills\<close>

definition positions :: "'p SlateFill list \<Rightarrow> u64 \<Rightarrow> nat list" where
  "positions fs oid = filter (\<lambda>i. f_oid (fs ! i) = oid) [0..<length fs]"

fun chained :: "'p SlateFill list \<Rightarrow> nat list \<Rightarrow> bool" where
  "chained fs [] \<longleftrightarrow> True"
| "chained fs (i # is) \<longleftrightarrow> f_next (fs ! i) = (case is of [] \<Rightarrow> -1 | j # _ \<Rightarrow> int j) \<and> chained fs is"

definition entry_ok :: "'p SlateFill list \<Rightarrow> u64 \<Rightarrow> Ord option \<Rightarrow> bool" where
  "entry_ok fs oid e \<longleftrightarrow>
     (case e of
        None \<Rightarrow> positions fs oid = []
      | Some ord \<Rightarrow> positions fs oid \<noteq> [] \<and> chained fs (positions fs oid)
          \<and> ord_first ord = int (hd (positions fs oid)) \<and> ord_last ord = int (last (positions fs oid)))"

definition idx_ok :: "'p FillSlate \<Rightarrow> bool" where
  "idx_ok s \<longleftrightarrow> (\<forall>oid. entry_ok (fills s) oid (idx s oid))"

lemma positions_bound: "i \<in> set (positions fs oid) \<longleftrightarrow> i < length fs \<and> f_oid (fs ! i) = oid"
  by (auto simp: positions_def)

lemma positions_length: "length (positions fs oid) \<le> length fs"
  unfolding positions_def using length_filter_le [of _ "[0..<length fs]"] by simp

lemma positions_distinct: "distinct (positions fs oid)"
  by (simp add: positions_def)

lemma positions_cong:
  assumes "length fs' = length fs" "\<And>i. i < length fs \<Longrightarrow> f_oid (fs' ! i) = f_oid (fs ! i)"
  shows "positions fs' oid = positions fs oid"
  using assms by (auto simp: positions_def intro: filter_cong)

lemma positions_snoc:
  "positions (fs @ [f]) oid = positions fs oid @ (if f_oid f = oid then [length fs] else [])"
proof -
  have "filter (\<lambda>i. f_oid ((fs @ [f]) ! i) = oid) [0..<length fs] = filter (\<lambda>i. f_oid (fs ! i) = oid) [0..<length fs]"
    by (auto simp: nth_append intro: filter_cong)
  then show ?thesis
    by (simp add: positions_def)
qed

lemma chained_cong:
  "(\<And>i. i \<in> set is \<Longrightarrow> f_next (fs' ! i) = f_next (fs ! i)) \<Longrightarrow> chained fs' is = chained fs is"
  by (induction "is") auto

lemma chained_snoc:
  "chained fs is \<Longrightarrow> is \<noteq> [] \<Longrightarrow> distinct is \<Longrightarrow> \<forall>i\<in>set is. i < length fs \<Longrightarrow> l = last is \<Longrightarrow> f_next (fs ! n) = -1
     \<Longrightarrow> n \<notin> set is \<Longrightarrow> chained (fs[l := (fs ! l)\<lparr>f_next := int n\<rparr>]) (is @ [n])"
proof (induction "is")
  case Nil
  then show ?case by simp
next
  case (Cons i js)
  show ?case
  proof (cases js)
    case Nil
    then show ?thesis
      using Cons.prems by (auto simp: nth_list_update)
  next
    case (Cons j ks)
    have "i \<noteq> last js"
      using Cons.prems Cons by (metis distinct.simps(2) last_in_set list.distinct(1))
    then show ?thesis
      using Cons.IH Cons.prems Cons by (auto simp: nth_list_update split: list.splits)
  qed
qed

lemma releases_from_idx_ok:
  assumes "releases_from s s' out" "idx_ok s"
  shows "idx_ok s'"
proof -
  have f: "f_oid (fills s' ! i) = f_oid (fills s ! i)" "f_next (fills s' ! i) = f_next (fills s ! i)"
    if "i < length (fills s)" for i
    using releases_from_nth [OF assms(1) that] by (auto simp: same_or_released_def)
  have "positions (fills s') oid = positions (fills s) oid" for oid
    using f assms(1) by (intro positions_cong) (auto simp: releases_from_length)
  moreover have "chained (fills s') (positions (fills s) oid) = chained (fills s) (positions (fills s) oid)" for oid
    using f by (intro chained_cong) (auto simp: positions_bound)
  ultimately have "entry_ok (fills s') oid e = entry_ok (fills s) oid e" for oid e
    by (simp add: entry_ok_def split: option.split)
  then show ?thesis
    using assms by (simp add: idx_ok_def releases_from_sel)
qed

lemma release_chain_ok:
  assumes "chained (fills s) is" "\<forall>i\<in>set is. i < length (fills s)" "length is \<le> fuel"
  shows "\<exists>s' out. release_chain fuel s (case is of [] \<Rightarrow> -1 | j # _ \<Rightarrow> int j) und = Inr (s', out)
           \<and> releases_from s s' out \<and> (\<forall>i\<in>set is. f_released (fills s' ! i))
           \<and> (\<forall>(f, r)\<in>set out. r = (if aside s = SIDE_UNKNOWN then und else role_for s f))"
  using assms
proof (induction fuel arbitrary: s "is")
  case 0
  then show ?case
    by (simp add: release_chain.simps)
next
  case (Suc fuel)
  show ?case
  proof (cases "is")
    case Nil
    then show ?thesis
      by (simp add: release_chain.simps)
  next
    case (Cons i js)
    let ?r = "if aside s = SIDE_UNKNOWN then und else role_for s (fills s ! i)"
    obtain s1 out1 where one: "release_one s i ?r = (s1, out1)"
      by force
    have i: "i < length (fills s)"
      using Suc.prems(2) Cons by simp
    note r1 = release_one_releases [OF i one]
    have nx: "f_next (fills s1 ! j) = f_next (fills s ! j)" if "j < length (fills s)" for j
      using releases_from_nth [OF r1(1) that] by (auto simp: same_or_released_def)
    have c: "chained (fills s1) js"
      using Suc.prems(1,2) Cons nx chained_cong [of js "fills s1" "fills s"] by simp
    obtain s' out2 where rest: "release_chain fuel s1 (case js of [] \<Rightarrow> -1 | j # _ \<Rightarrow> int j) und = Inr (s', out2)"
      "releases_from s1 s' out2" "\<forall>i\<in>set js. f_released (fills s' ! i)"
      "\<forall>(f, r)\<in>set out2. r = (if aside s1 = SIDE_UNKNOWN then und else role_for s1 f)"
      using Suc.IH [OF c] Suc.prems(2,3) Cons r1(1) by (auto simp: releases_from_length)
    have "release_chain (Suc fuel) s (int i) und = Inr (s', out1 @ out2)"
      using one rest(1) i nx [OF i] Suc.prems(1) Cons
      by (cases "aside s = SIDE_UNKNOWN") (simp_all add: release_chain.simps [of "Suc fuel"])
    moreover have "releases_from s s' (out1 @ out2)"
      using releases_from_trans [OF r1(1) rest(2)] .
    moreover have "f_released (fills s' ! i)"
      using releases_from_nth [OF rest(2), of i] r1(2) released_mono i r1(1) by (simp add: releases_from_length)
    moreover have "r = (if aside s = SIDE_UNKNOWN then und else role_for s f)" if "(f, r) \<in> set out1" for f r
      using r1(3) [OF that] by (simp add: role_for_def)
    moreover have "r = (if aside s = SIDE_UNKNOWN then und else role_for s f)" if "(f, r) \<in> set out2" for f r
      using rest(4) that stable_frame [OF stable_role_for r1(1)] releases_from_sel(12) [OF r1(1)] by auto
    ultimately show ?thesis
      using rest(3) Cons by (intro exI [of _ s'] exI [of _ "out1 @ out2"]) auto
  qed
qed


section \<open>The invariant\<close>

text \<open>\<open>firsts\<close>: the first listing of each order; \<open>nb_\<close> and \<open>ns_\<close> count them by side.\<close>

definition firsts :: "'p SlateFill list \<Rightarrow> nat list" where
  "firsts fs = filter (\<lambda>i. f_oid (fs ! i) \<notin> f_oid ` set (take i fs)) [0..<length fs]"

definition listed :: "'p SlateFill list \<Rightarrow> (int \<Rightarrow> bool) \<Rightarrow> nat" where
  "listed fs P = length (filter (\<lambda>i. P (f_side (fs ! i))) (firsts fs))"

definition slate_struct :: "'p FillSlate \<Rightarrow> bool" where
  "slate_struct s \<longleftrightarrow>
     idx_ok s
     \<and> held s = int (length (unrel (fills s)))
     \<and> (\<forall>f\<in>set (fills s). f_tx f = tx s)
     \<and> nb s = listed (fills s) (\<lambda>d. d = sBUY) \<and> ns s = listed (fills s) (\<lambda>d. d \<noteq> sBUY)
     \<and> (\<not> tx_open s \<longrightarrow> fills s = [] \<and> aside s = SIDE_UNKNOWN \<and> moved_side s = SIDE_UNKNOWN
           \<and> kept_side s = SIDE_UNKNOWN \<and> seen_orders s = 0)"

text \<open>No fill waits longer than its mode allows.\<close>

definition slate_due :: "'p FillSlate \<Rightarrow> bool" where
  "slate_due s \<longleftrightarrow> (aside s \<noteq> SIDE_UNKNOWN \<longrightarrow>
     (\<forall>f\<in>set (fills s). mode s = AT_DECISION \<or> seen_fill s f \<longrightarrow> f_released f))"

definition slate_inv :: "'p FillSlate \<Rightarrow> bool" where
  "slate_inv s \<longleftrightarrow> slate_struct s \<and> slate_due s"

lemma listed_cong:
  assumes "length fs' = length fs"
    "\<And>i. i < length fs \<Longrightarrow> f_oid (fs' ! i) = f_oid (fs ! i) \<and> f_side (fs' ! i) = f_side (fs ! i)"
  shows "listed fs' P = listed fs P"
proof -
  have "map f_oid fs' = map f_oid fs"
    using assms by (auto intro!: nth_equalityI)
  then have "f_oid ` set (take i fs') = f_oid ` set (take i fs)" for i
    by (metis image_set take_map)
  then have "firsts fs' = firsts fs"
    using assms by (auto simp: firsts_def intro!: filter_cong)
  moreover have "filter (\<lambda>i. P (f_side (fs' ! i))) (firsts fs) = filter (\<lambda>i. P (f_side (fs ! i))) (firsts fs)"
    using assms by (auto simp: firsts_def intro!: filter_cong)
  ultimately show ?thesis
    by (simp add: listed_def)
qed

lemma firsts_snoc:
  "firsts (fs @ [f]) = firsts fs @ (if f_oid f \<in> f_oid ` set fs then [] else [length fs])"
proof -
  have "filter (\<lambda>i. f_oid ((fs @ [f]) ! i) \<notin> f_oid ` set (take i (fs @ [f]))) [0..<length fs] = firsts fs"
    unfolding firsts_def by (auto simp: nth_append intro!: filter_cong)
  then show ?thesis
    by (auto simp: firsts_def nth_append)
qed

lemma listed_snoc:
  "listed (fs @ [f]) P = listed fs P + (if f_oid f \<notin> f_oid ` set fs \<and> P (f_side f) then 1 else 0)"
proof -
  have "filter (\<lambda>i. P (f_side ((fs @ [f]) ! i))) (firsts fs) = filter (\<lambda>i. P (f_side (fs ! i))) (firsts fs)"
    by (auto simp: firsts_def nth_append intro!: filter_cong)
  then show ?thesis
    by (simp add: listed_def firsts_snoc nth_append)
qed

lemma listed_Nil [simp]: "listed [] P = 0"
  by (simp add: listed_def firsts_def)

lemma positions_Nil_iff: "positions fs oid = [] \<longleftrightarrow> oid \<notin> f_oid ` set fs"
  by (auto simp: positions_def filter_empty_conv image_iff all_set_conv_all_nth)

lemma idx_None_iff: "idx_ok s \<Longrightarrow> idx s oid = None \<longleftrightarrow> oid \<notin> f_oid ` set (fills s)"
  by (cases "idx s oid") (auto simp: idx_ok_def entry_ok_def positions_Nil_iff [symmetric] dest: spec [of _ oid])

lemma releases_from_struct:
  assumes "releases_from s s' out" "slate_struct s"
  shows "slate_struct s'"
proof -
  have len: "length (fills s') = length (fills s)"
    using releases_from_length [OF assms(1)] .
  have f: "f_oid (fills s' ! i) = f_oid (fills s ! i)" "f_side (fills s' ! i) = f_side (fills s ! i)"
    "f_tx (fills s' ! i) = f_tx (fills s ! i)"
    if "i < length (fills s)" for i
    using releases_from_nth [OF assms(1) that] by (auto simp: same_or_released_def)
  have "listed (fills s') P = listed (fills s) P" for P
    using f len by (intro listed_cong) auto
  moreover have "\<forall>f\<in>set (fills s'). f_tx f = tx s"
    using f(3) len assms(2) by (simp add: slate_struct_def all_set_conv_all_nth)
  moreover have "length out + length (unrel (fills s')) = length (unrel (fills s))"
  proof -
    have "size (mset (map (core \<circ> fst) out) + mset (map core (unrel (fills s'))))
        = size (mset (map core (unrel (fills s))))"
      using assms(1) by (simp only: releases_from_def)
    then show ?thesis
      by simp
  qed
  moreover have "held s' = held s - int (length out)"
    using assms(1) by (simp only: releases_from_def)
  moreover have "fills s' = []" if "fills s = []"
    using len that by simp
  ultimately show ?thesis
    using assms(2) releases_from_idx_ok [OF assms(1)] by (auto simp: slate_struct_def releases_from_sel [OF assms(1)])
qed

lemma foldl_clear:
  "foldl (\<lambda>ix f. ix(f_oid f := None)) ix fs oid = (if oid \<in> f_oid ` set fs then None else ix oid)"
  by (induction fs arbitrary: ix) auto

lemma slate_clear_inv:
  assumes "idx_ok s"
  shows "slate_inv (slate_clear s)" "idx (slate_clear s) = (\<lambda>_. None)"
proof -
  show ix: "idx (slate_clear s) = (\<lambda>_. None)"
    using idx_None_iff [OF assms] by (auto simp: slate_clear_def reset_tx_def fun_eq_iff foldl_clear)
  have "idx_ok (slate_clear s)"
    unfolding idx_ok_def ix by (simp add: entry_ok_def slate_clear_def reset_tx_def positions_def)
  then show "slate_inv (slate_clear s)"
    by (simp add: slate_inv_def slate_struct_def slate_due_def slate_clear_def reset_tx_def)
qed


lemma close_tx_ok:
  assumes "slate_inv s" "close_tx s = (s', out)"
  shows "slate_inv s'" "\<not> tx_open s'" "held s' = 0" "mode s' = mode s"
    "mset (map (core \<circ> fst) out) = mset (map core (unrel (fills s)))"
    "n_total s' = n_total s + length out"
    "\<And>f r. (f, r) \<in> set out \<Longrightarrow>
       r = role_for (s\<lparr>aside := (if aside s = SIDE_UNKNOWN then compute_side s else aside s)\<rparr>) f"
proof -
  let ?s1 = "if aside s = SIDE_UNKNOWN then s\<lparr>aside := compute_side s\<rparr> else s"
  obtain s2 where loop: "release_loop (\<lambda>_ _. True) role_for [0..<length (fills ?s1)] ?s1 = (s2, out)"
    and s': "s' = slate_clear s2"
    using assms(2) by (auto simp: close_tx_def Let_def split: prod.splits)
  have r: "releases_from ?s1 s2 out"
    using release_loop_releases [OF _ loop] by simp
  have "idx_ok ?s1"
    using assms(1) by (simp add: slate_inv_def slate_struct_def idx_ok_def)
  then have "idx_ok s2"
    using releases_from_idx_ok [OF r] by simp
  then show "slate_inv s'"
    using slate_clear_inv s' by simp
  show "\<not> tx_open s'" "held s' = 0"
    by (simp_all add: s' slate_clear_def reset_tx_def)
  show "mode s' = mode s"
    using releases_from_sel(1) [OF r] by (simp add: s' slate_clear_def reset_tx_def split: if_splits)
  have "unrel (fills s2) = []"
    using release_loop_all [OF loop stable_role_for] .
  then have "mset (map (core \<circ> fst) out) = mset (map core (unrel (fills ?s1)))"
    using r unfolding releases_from_def by (metis add.right_neutral list.simps(8) mset.simps(1))
  then show "mset (map (core \<circ> fst) out) = mset (map core (unrel (fills s)))"
    by (simp split: if_splits)
  have "n_total s2 = n_total ?s1 + length out"
    using r by (simp only: releases_from_def)
  then show "n_total s' = n_total s + length out"
    by (simp add: s' slate_clear_def reset_tx_def n_total_def split: if_splits)
  show "r = role_for (s\<lparr>aside := (if aside s = SIDE_UNKNOWN then compute_side s else aside s)\<rparr>) f"
    if "(f, r) \<in> set out" for f r
    using release_loop_roles [OF _ loop stable_role_for that] by (simp split: if_splits)
qed


text \<open>Listing a fill: the two branches of \<open>try_emplace\<close>.\<close>

definition new_fill :: "u64 \<Rightarrow> u64 \<Rightarrow> real \<Rightarrow> int \<Rightarrow> u32 \<Rightarrow> bool \<Rightarrow> 'p \<Rightarrow> 'p SlateFill" where
  "new_fill oid t px side qty touch pl =
     \<lparr>f_oid = oid, f_tx = t, f_px = px, f_qty = qty, f_side = side, f_pl = pl, f_next = -1,
      f_at_touch = touch, f_released = False\<rparr>"

lemma idx_ok_new_order:
  assumes "idx_ok s" "idx s oid = None" "f_oid f = oid" "f_next f = -1"
    "fills s' = fills s @ [f]"
    "idx s' = (idx s)(oid \<mapsto> \<lparr>ord_first = int (length (fills s)), ord_last = int (length (fills s)), ord_seen = b\<rparr>)"
  shows "idx_ok s'"
  unfolding idx_ok_def
proof
  fix o'
  have c: "chained (fills s @ [f]) (positions (fills s) o') = chained (fills s) (positions (fills s) o')"
    by (intro chained_cong) (auto simp: positions_bound nth_append)
  have "entry_ok (fills s) o' (idx s o')"
    using assms(1) by (simp add: idx_ok_def)
  then show "entry_ok (fills s') o' (idx s' o')"
    using assms(2-6) c by (auto simp: entry_ok_def positions_snoc nth_append split: option.splits)
qed

lemma idx_ok_same_order:
  assumes "idx_ok s" "idx s oid = Some ord" "f_oid f = oid" "f_next f = -1" "l = nat (ord_last ord)"
  shows "l < length (fills s)"
    and "fills s' = (fills s @ [f])[l := ((fills s @ [f]) ! l)\<lparr>f_next := int (length (fills s))\<rparr>] \<Longrightarrow>
         idx s' = (idx s)(oid \<mapsto> ord\<lparr>ord_last := int (length (fills s))\<rparr>) \<Longrightarrow> idx_ok s'"
proof -
  let ?fs = "fills s @ [f]" and ?n = "length (fills s)"
  let ?fs' = "?fs[l := (?fs ! l)\<lparr>f_next := int ?n\<rparr>]"
  have "entry_ok (fills s) oid (Some ord)"
    using assms(1,2) by (metis idx_ok_def)
  then have ps: "positions (fills s) oid \<noteq> []" "chained (fills s) (positions (fills s) oid)"
    "ord_first ord = int (hd (positions (fills s) oid))" "l = last (positions (fills s) oid)"
    using assms(5) by (auto simp: entry_ok_def)
  then have lp: "l \<in> set (positions (fills s) oid)"
    by simp
  then show l: "l < ?n"
    by (simp add: positions_bound)
  have lo: "f_oid (fills s ! l) = oid"
    using lp by (simp add: positions_bound)
  have p': "positions ?fs' o' = positions ?fs o'" for o'
    by (rule positions_cong) (use l in \<open>auto simp: nth_list_update\<close>)
  have c0: "chained ?fs (positions (fills s) o') = chained (fills s) (positions (fills s) o')" for o'
    by (intro chained_cong) (auto simp: positions_bound nth_append)
  have c1: "chained ?fs' (positions (fills s) o') = chained (fills s) (positions (fills s) o')"
    if "o' \<noteq> oid" for o'
    using that l lo by (intro chained_cong) (auto simp: positions_bound nth_append nth_list_update)
  have c2: "chained ?fs' (positions (fills s) oid @ [?n])"
    by (rule chained_snoc) (use ps l assms(4) c0 in \<open>auto simp: positions_bound positions_distinct\<close>)
  have e: "entry_ok ?fs' o' (((idx s)(oid \<mapsto> ord\<lparr>ord_last := int ?n\<rparr>)) o')" for o'
  proof (cases "o' = oid")
    case True
    then show ?thesis
      using assms(3) ps(1,3) c2 by (simp add: entry_ok_def p' positions_snoc)
  next
    case False
    moreover have "entry_ok (fills s) o' (idx s o')"
      using assms(1) by (simp add: idx_ok_def)
    ultimately show ?thesis
      using assms(3) c1 by (simp add: entry_ok_def p' positions_snoc split: option.splits)
  qed
  show "idx_ok s'" if "fills s' = ?fs'" "idx s' = (idx s)(oid \<mapsto> ord\<lparr>ord_last := int ?n\<rparr>)"
    unfolding idx_ok_def that using e by blast
qed

lemma unrel_map_core_same:
  assumes "length fs' = length fs"
    "\<And>i. i < length fs \<Longrightarrow> core (fs' ! i) = core (fs ! i) \<and> f_released (fs' ! i) = f_released (fs ! i)"
  shows "map core (unrel fs') = map core (unrel fs)"
  using assms
proof (induction fs' fs rule: list_induct2)
  case Nil
  then show ?case by simp
next
  case (Cons x xs y ys)
  have "core x = core y \<and> f_released x = f_released y"
    using Cons.prems [of 0] by simp
  moreover have "map core (unrel xs) = map core (unrel ys)"
    using Cons.IH Cons.prems by fastforce
  ultimately show ?case
    by simp
qed

lemma list_fill_ok:
  assumes "slate_struct s" "tx_open s \<longrightarrow> t = tx s" "list_fill s oid t px side qty touch pl = s'"
  shows "slate_struct s'" and "tx_open s'" and "aside s' = aside s" and "mode s' = mode s" and "tx s' = t"
    and "length (fills s') = Suc (length (fills s))"
    and "core (fills s' ! length (fills s)) = (oid, t, px, qty, side, pl)"
    and "mset (map core (unrel (fills s'))) = add_mset (oid, t, px, qty, side, pl) (mset (map core (unrel (fills s))))"
    and "n_total s' = n_total s"
    and "\<And>i. i < length (fills s) \<Longrightarrow>
           core (fills s' ! i) = core (fills s ! i) \<and> f_released (fills s' ! i) = f_released (fills s ! i)"
    and "\<And>f. f_oid f \<noteq> oid \<or> f_oid f \<in> f_oid ` set (fills s) \<Longrightarrow> seen_fill s' f = seen_fill s f"
proof -
  let ?f = "new_fill oid t px side qty touch pl" and ?n = "length (fills s)"
  let ?s1 = "if tx_open s then s else s\<lparr>tx_open := True, tx := t\<rparr>"
  have s1: "fills ?s1 = fills s" "idx ?s1 = idx s" "tx_open ?s1" "tx ?s1 = t" "aside ?s1 = aside s" "held ?s1 = held s"
    "mode ?s1 = mode s" "nb ?s1 = nb s" "ns ?s1 = ns s" "n_total ?s1 = n_total s"
    using assms(2) by (simp_all add: n_total_def)
  have inv: "idx_ok s" "held s = int (length (unrel (fills s)))" "\<forall>f\<in>set (fills s). f_tx f = t"
    "nb s = listed (fills s) (\<lambda>d. d = sBUY)" "ns s = listed (fills s) (\<lambda>d. d \<noteq> sBUY)"
    using assms(1,2) by (cases "tx_open s"; simp add: slate_struct_def)+
  have "slate_struct s' \<and> tx_open s' \<and> aside s' = aside s \<and> mode s' = mode s \<and> tx s' = t
      \<and> length (fills s') = Suc ?n \<and> n_total s' = n_total s
      \<and> (\<forall>i<Suc ?n. core (fills s' ! i) = core ((fills s @ [?f]) ! i)
            \<and> f_released (fills s' ! i) = f_released ((fills s @ [?f]) ! i))
      \<and> (\<forall>f. f_oid f \<noteq> oid \<or> f_oid f \<in> f_oid ` set (fills s) \<longrightarrow> seen_fill s' f = seen_fill s f)"
  proof (cases "idx s oid")
    case None
    have new: "oid \<notin> f_oid ` set (fills s)"
      using idx_None_iff [OF inv(1)] None by blast
    have "idx_ok s'"
      by (rule idx_ok_new_order [OF inv(1) None, of ?f _ False])
        (use None s1(1,2) assms(3) in \<open>auto simp: list_fill_def Let_def new_fill_def\<close>)
    moreover have "fills s' = fills s @ [?f]" "held s' = held s + 1" "tx_open s'" "tx s' = t"
      "aside s' = aside s" "mode s' = mode s" "n_total s' = n_total s"
      "nb s' = nb s + (if side = sBUY then 1 else 0)" "ns s' = ns s + (if side = sBUY then 0 else 1)"
      "idx s' = (idx s)(oid \<mapsto> \<lparr>ord_first = int ?n, ord_last = int ?n, ord_seen = False\<rparr>)"
      using None assms(2,3) by (auto simp: list_fill_def Let_def new_fill_def n_total_def)
    moreover have "f_oid ?f = oid" "f_side ?f = side" "f_tx ?f = t" "\<not> f_released ?f"
      by (simp_all add: new_fill_def)
    ultimately show ?thesis
      using new inv by (auto simp: slate_struct_def listed_snoc seen_fill_def)
  next
    case (Some ord)
    let ?l = "nat (ord_last ord)"
    have old: "oid \<in> f_oid ` set (fills s)"
      using idx_None_iff [OF inv(1), of oid] Some by auto
    note same = idx_ok_same_order [OF inv(1) Some, of ?f ?l]
    have l: "?l < ?n"
      using same(1) by (simp add: new_fill_def)
    let ?fs = "fills s @ [?f]"
    let ?fs' = "?fs[?l := (?fs ! ?l)\<lparr>f_next := int ?n\<rparr>]"
    have s': "s' = ?s1\<lparr>fills := ?fs', held := held s + 1, idx := (idx s)(oid \<mapsto> ord\<lparr>ord_last := int ?n\<rparr>)\<rparr>"
      using Some assms(3) by (cases "tx_open s") (auto simp: list_fill_def Let_def new_fill_def)
    have ix: "idx_ok s'"
      by (rule same(2)) (simp_all add: s' new_fill_def)
    have fs: "core (?fs' ! i) = core (?fs ! i)" "f_released (?fs' ! i) = f_released (?fs ! i)"
      "f_oid (?fs' ! i) = f_oid (?fs ! i)" "f_side (?fs' ! i) = f_side (?fs ! i)" "f_tx (?fs' ! i) = f_tx (?fs ! i)"
      if "i < Suc ?n" for i
      using that l by (auto simp: nth_list_update)
    have li: "listed ?fs' P = listed (fills s) P" for P
      using listed_cong [of ?fs' ?fs P] fs(3,4) old by (simp add: listed_snoc new_fill_def)
    have un: "length (unrel ?fs') = length (unrel (fills s)) + 1"
      using arg_cong [OF unrel_map_core_same [of ?fs' ?fs], of length] fs(1,2) by (simp add: new_fill_def)
    have "f_tx (?fs' ! i) = t" if "i < Suc ?n" for i
      using fs(5) [OF that] inv(3) that by (cases "i < ?n") (auto simp: nth_append new_fill_def less_Suc_eq)
    then have tx: "\<forall>f\<in>set ?fs'. f_tx f = t"
      unfolding all_set_conv_all_nth by (metis length_append_singleton length_list_update)
    show ?thesis
      using s1 ix li un tx inv fs Some
      by (auto simp: s' slate_struct_def n_total_def seen_fill_def)
  qed
  note * = this
  have "map core (unrel (fills s')) = map core (unrel (fills s @ [?f]))"
    using * by (intro unrel_map_core_same) auto
  then show "mset (map core (unrel (fills s'))) = add_mset (oid, t, px, qty, side, pl) (mset (map core (unrel (fills s))))"
    by (simp add: new_fill_def core_def)
  have "core (fills s' ! ?n) = core ?f"
    using * by (metis lessI nth_append_length)
  then show "core (fills s' ! ?n) = (oid, t, px, qty, side, pl)"
    by (simp add: new_fill_def core_def)
  show "core (fills s' ! i) = core (fills s ! i) \<and> f_released (fills s' ! i) = f_released (fills s ! i)"
    if "i < length (fills s)" for i
    using * that by (simp add: nth_append)
  show "slate_struct s'" "tx_open s'" "aside s' = aside s" "mode s' = mode s" "tx s' = t"
    "length (fills s') = Suc (length (fills s))" "n_total s' = n_total s"
    "\<And>f. f_oid f \<noteq> oid \<or> f_oid f \<in> f_oid ` set (fills s) \<Longrightarrow> seen_fill s' f = seen_fill s f"
    using * by blast+
qed


section \<open>Each operation keeps the invariant and loses no fill\<close>

text \<open>
  \<open>accounted s s' out new\<close>: the fills held before and the new one are, as a multiset, the
  fills released and the fills still held, and the counters grew by the releases.
\<close>

definition accounted ::
  "'p FillSlate \<Rightarrow> 'p FillSlate \<Rightarrow> 'p releases \<Rightarrow> (u64 \<times> u64 \<times> real \<times> u32 \<times> int \<times> 'p) multiset \<Rightarrow> bool" where
  "accounted s s' out new \<longleftrightarrow>
     mset (map (core \<circ> fst) out) + mset (map core (unrel (fills s'))) = mset (map core (unrel (fills s))) + new
     \<and> n_total s' = n_total s + length out"

lemma accounted_trans:
  "accounted s s1 out1 new1 \<Longrightarrow> accounted s1 s2 out2 new2 \<Longrightarrow> accounted s s2 (out1 @ out2) (new1 + new2)"
  by (auto simp: accounted_def algebra_simps)

lemma releases_accounted: "releases_from s s' out \<Longrightarrow> accounted s s' out {#}"
  unfolding releases_from_def accounted_def by simp

lemma accounted_refl [simp]: "accounted s s [] {#}"
  by (simp add: accounted_def)

lemma close_tx_accounted:
  assumes "slate_inv s" "close_tx s = (s', out)"
  shows "accounted s s' out {#}"
proof -
  have "unrel (fills s') = []"
    using close_tx_ok(1,2) [OF assms] by (simp add: slate_inv_def slate_struct_def)
  then show ?thesis
    using close_tx_ok(5,6) [OF assms] by (simp add: accounted_def)
qed

lemma advance_ok:
  assumes "slate_inv s" "advance s t = (s', out)"
  shows "slate_inv s'" "accounted s s' out {#}" "tx_open s' \<Longrightarrow> t = tx s'" "mode s' = mode s"
proof -
  have "slate_inv s' \<and> accounted s s' out {#} \<and> (tx_open s' \<longrightarrow> t = tx s') \<and> mode s' = mode s"
  proof (cases "tx_open s \<and> t \<noteq> tx s")
    case True
    then have c: "close_tx s = (s', out)"
      using assms(2) by (simp add: advance_def)
    show ?thesis
      using close_tx_ok(1,2,4) [OF assms(1) c] close_tx_accounted [OF assms(1) c] by simp
  next
    case False
    then show ?thesis
      using assms by (auto simp: advance_def)
  qed
  then show "slate_inv s'" "accounted s s' out {#}" "tx_open s' \<Longrightarrow> t = tx s'" "mode s' = mode s"
    by auto
qed

lemma on_trade_ok:
  assumes "slate_inv s" "on_trade s oid t px side qty touch pl = (s', out)"
  shows "slate_inv s'" and "accounted s s' out {#(oid, t, px, qty, side, pl)#}"
    and "mode s' = mode s" and "tx_open s'" and "tx s' = t"
proof -
  obtain s0 out0 where adv: "advance s t = (s0, out0)"
    by force
  let ?s1 = "list_fill s0 oid t px side qty touch pl" and ?n = "length (fills s0)"
  note a = advance_ok [OF assms(1) adv]
  have st0: "slate_struct s0" "slate_due s0"
    using a(1) by (simp_all add: slate_inv_def)
  note lf = list_fill_ok [OF st0(1) _ refl, where t = t and oid = oid and px = px and side = side
      and qty = qty and touch = touch and pl = pl]
  have lf: "slate_struct ?s1" "tx_open ?s1" "aside ?s1 = aside s0" "mode ?s1 = mode s0" "tx ?s1 = t"
    "length (fills ?s1) = Suc ?n"
    "core (fills ?s1 ! ?n) = (oid, t, px, qty, side, pl)"
    "mset (map core (unrel (fills ?s1))) = add_mset (oid, t, px, qty, side, pl) (mset (map core (unrel (fills s0))))"
    "n_total ?s1 = n_total s0"
    "\<And>i. i < ?n \<Longrightarrow> core (fills ?s1 ! i) = core (fills s0 ! i) \<and> f_released (fills ?s1 ! i) = f_released (fills s0 ! i)"
    "\<And>f. f_oid f \<noteq> oid \<or> f_oid f \<in> f_oid ` set (fills s0) \<Longrightarrow> seen_fill ?s1 f = seen_fill s0 f"
    using lf a(3) by blast+
  have acc1: "accounted s ?s1 out0 {#(oid, t, px, qty, side, pl)#}"
    using a(2) lf(8,9) by (auto simp: accounted_def)
  let ?seen = "case idx ?s1 oid of None \<Rightarrow> False | Some ord \<Rightarrow> ord_seen ord"
  have seen_new: "seen_fill ?s1 (fills ?s1 ! ?n) = ?seen"
    using lf(7) by (simp add: seen_fill_def core_def)
  have old: "f_released (fills ?s1 ! i)"
    if "i < ?n" "aside ?s1 \<noteq> SIDE_UNKNOWN" "mode ?s1 = AT_DECISION \<or> seen_fill ?s1 (fills ?s1 ! i)" for i
  proof -
    have "f_oid (fills ?s1 ! i) = f_oid (fills s0 ! i)"
      using lf(10) [OF that(1)] by (simp add: core_def)
    then have "seen_fill ?s1 (fills ?s1 ! i) = seen_fill s0 (fills s0 ! i)"
      using lf(11) [of "fills s0 ! i"] that(1) by (simp add: seen_fill_def)
    then show ?thesis
      using st0(2) that lf(3,4,10) by (auto simp: slate_due_def)
  qed
  have "slate_inv s' \<and> accounted s s' out {#(oid, t, px, qty, side, pl)#} \<and> mode s' = mode s \<and> tx_open s' \<and> tx s' = t"
  proof (cases "aside ?s1 \<noteq> SIDE_UNKNOWN \<and> (mode ?s1 = AT_DECISION \<or> ?seen)")
    case True
    obtain out2 where one: "release_one ?s1 ?n (role_for ?s1 (fills ?s1 ! ?n)) = (s', out2)"
      and out: "out = out0 @ out2"
      using assms(2) adv True by (auto simp: on_trade_def Let_def split: prod.splits)
    note r = release_one_releases [OF _ one]
    have n: "?n < length (fills ?s1)"
      using lf(6) by simp
    have rel: "f_released (fills s' ! i)"
      if "i < Suc ?n" "mode s' = AT_DECISION \<or> seen_fill s' (fills s' ! i)" for i
    proof (cases "i = ?n")
      case True
      then show ?thesis using r(2) [OF n] by simp
    next
      case False
      then have i: "i < ?n" using that(1) by simp
      have "mode ?s1 = AT_DECISION \<or> seen_fill ?s1 (fills ?s1 ! i)"
        using that(2) stable_releases [OF stable_seen r(1) [OF n], of i] lf(6) i by simp
      then have "f_released (fills ?s1 ! i)"
        using old [OF i] True by blast
      then show ?thesis
        using releases_from_nth [OF r(1) [OF n], of i] released_mono lf(6) i by simp
    qed
    have "slate_due s'"
      using rel releases_from_length [OF r(1) [OF n]] lf(6) by (auto simp: slate_due_def in_set_conv_nth)
    then show ?thesis
      using releases_from_struct [OF r(1) [OF n] lf(1)] releases_accounted [OF r(1) [OF n]]
        accounted_trans [OF acc1] releases_from_sel [OF r(1) [OF n]] out lf(2,4,5) a(4)
      by (auto simp: slate_inv_def)
  next
    case False
    then have s': "s' = ?s1" "out = out0"
      using assms(2) adv by (auto simp: on_trade_def Let_def split: prod.splits)
    have "f_released (fills ?s1 ! i)"
      if "i < Suc ?n" "aside ?s1 \<noteq> SIDE_UNKNOWN" "mode ?s1 = AT_DECISION \<or> seen_fill ?s1 (fills ?s1 ! i)" for i
      using old [OF _ that(2,3)] that seen_new False by (cases "i = ?n") auto
    then have "slate_due ?s1"
      using lf(6) by (auto simp: slate_due_def in_set_conv_nth)
    then show ?thesis
      using lf(1,2,4,5) a(4) acc1 s' by (auto simp: slate_inv_def)
  qed
  then show "slate_inv s'" "accounted s s' out {#(oid, t, px, qty, side, pl)#}" "mode s' = mode s" "tx_open s'" "tx s' = t"
    by simp_all
qed


lemma mark_seen_sel:
  "fills (mark_seen s oid ord action px) = fills s" "held (mark_seen s oid ord action px) = held s"
  "tx (mark_seen s oid ord action px) = tx s" "tx_open (mark_seen s oid ord action px) = tx_open s"
  "nb (mark_seen s oid ord action px) = nb s" "ns (mark_seen s oid ord action px) = ns s"
  "aside (mark_seen s oid ord action px) = aside s" "mode (mark_seen s oid ord action px) = mode s"
  "n_total (mark_seen s oid ord action px) = n_total s"
  "idx (mark_seen s oid ord action px) = (idx s)(oid \<mapsto> ord\<lparr>ord_seen := True\<rparr>)"
  by (simp_all add: mark_seen_def Let_def n_total_def)

lemma mark_seen_aside: "(mark_seen s oid ord action px)\<lparr>aside := aside s\<rparr> = mark_seen s oid ord action px"
  by (cases s) (simp add: mark_seen_def Let_def)

lemma mark_seen_struct:
  assumes "slate_struct s" "idx s oid = Some ord" "tx_open s"
  shows "slate_struct ((mark_seen s oid ord action px)\<lparr>aside := d\<rparr>)"
proof -
  have "entry_ok (fills s) oid (Some ord)"
    using assms(1,2) by (metis idx_ok_def slate_struct_def)
  then have "entry_ok (fills s) oid (Some (ord\<lparr>ord_seen := True\<rparr>))"
    by (simp add: entry_ok_def)
  then show ?thesis
    using assms by (auto simp: slate_struct_def idx_ok_def mark_seen_sel)
qed

lemma release_order_ok:
  assumes "slate_struct s" "idx s oid = Some ord" "ord_first ord' = ord_first ord"
  shows "\<exists>s' out. release_order s ord' und = Inr (s', out) \<and> releases_from s s' out
     \<and> (\<forall>i<length (fills s). f_oid (fills s ! i) = oid \<longrightarrow> f_released (fills s' ! i))
     \<and> (\<forall>(f, r)\<in>set out. r = (if aside s = SIDE_UNKNOWN then und else role_for s f))"
proof -
  have e: "entry_ok (fills s) oid (Some ord)"
    using assms(1,2) by (metis idx_ok_def slate_struct_def)
  let ?ps = "positions (fills s) oid"
  have "ord_first ord' = (case ?ps of [] \<Rightarrow> -1 | j # _ \<Rightarrow> int j)"
    using e assms(3) by (auto simp: entry_ok_def split: list.splits)
  moreover obtain s' out where "release_chain (length (fills s)) s (case ?ps of [] \<Rightarrow> -1 | j # _ \<Rightarrow> int j) und = Inr (s', out)"
    "releases_from s s' out" "\<forall>i\<in>set ?ps. f_released (fills s' ! i)"
    "\<forall>(f, r)\<in>set out. r = (if aside s = SIDE_UNKNOWN then und else role_for s f)"
    using release_chain_ok [of s ?ps "length (fills s)" und] e positions_length
    by (auto simp: entry_ok_def positions_bound)
  ultimately show ?thesis
    by (auto simp: release_order_def positions_bound)
qed

lemma slate_dueI:
  assumes "\<And>i. i < length (fills s) \<Longrightarrow> mode s = AT_DECISION \<or> seen_fill s (fills s ! i) \<Longrightarrow> f_released (fills s ! i)"
  shows "slate_due s"
  using assms by (auto simp: slate_due_def in_set_conv_nth)

text \<open>The part of \<open>on_book\<close> after the order's record is marked seen.\<close>

lemma on_book_decided:
  assumes "slate_struct s2" "aside s2 \<noteq> SIDE_UNKNOWN"
    "release_loop (\<lambda>s f. mode s = AT_DECISION \<or> seen_fill s f) role_for [0..<length (fills s2)] s2 = (s', out)"
  shows "slate_inv s'" "releases_from s2 s' out" "\<And>f r. (f, r) \<in> set out \<Longrightarrow> r = role_for s2 f"
proof -
  show r: "releases_from s2 s' out"
    using release_loop_releases [OF _ assms(3)] by simp
  have "slate_due s'"
  proof (rule slate_dueI)
    fix i assume "i < length (fills s')" "mode s' = AT_DECISION \<or> seen_fill s' (fills s' ! i)"
    then show "f_released (fills s' ! i)"
      using release_loop_done [OF _ assms(3) stable_seen, of i] stable_releases [OF stable_seen r, of i]
        releases_from_length [OF r] by simp
  qed
  then show "slate_inv s'"
    using releases_from_struct [OF r assms(1)] by (simp add: slate_inv_def)
  show "\<And>f r. (f, r) \<in> set out \<Longrightarrow> r = role_for s2 f"
    using release_loop_roles [OF _ assms(3) stable_role_for] by simp
qed

lemma on_book_own:
  assumes "slate_struct s2" "idx s2 oid = Some ord2" "ord_first ord = ord_first ord2" "mode s2 = AT_OWN_RECORD"
    "aside s2 \<noteq> SIDE_UNKNOWN \<Longrightarrow>
       \<forall>f\<in>set (fills s2). f_oid f \<noteq> oid \<longrightarrow> seen_fill s2 f \<longrightarrow> f_released f"
  shows "\<exists>s' out. release_order s2 ord AMBIGUOUS = Inr (s', out) \<and> slate_inv s' \<and> releases_from s2 s' out
    \<and> (\<forall>f\<in>set (fills s'). f_oid f = oid \<longrightarrow> f_released f)
    \<and> (\<forall>(f, r)\<in>set out. r = role_for s2 f)"
proof -
  obtain s' out where ro: "release_order s2 ord AMBIGUOUS = Inr (s', out)" and r: "releases_from s2 s' out"
    and oid: "\<forall>i<length (fills s2). f_oid (fills s2 ! i) = oid \<longrightarrow> f_released (fills s' ! i)"
    and roles: "\<forall>(f, r)\<in>set out. r = (if aside s2 = SIDE_UNKNOWN then AMBIGUOUS else role_for s2 f)"
    using release_order_ok [OF assms(1-3), of AMBIGUOUS] by blast
  have roles': "\<forall>(f, r)\<in>set out. r = role_for s2 f"
    using roles by (auto simp: role_for_def side_consts)
  have same: "f_oid (fills s' ! i) = f_oid (fills s2 ! i)" if "i < length (fills s2)" for i
    using releases_from_nth [OF r that] by (auto simp: same_or_released_def)
  have own: "\<forall>f\<in>set (fills s'). f_oid f = oid \<longrightarrow> f_released f"
    using oid same releases_from_length [OF r] by (auto simp: in_set_conv_nth)
  have "slate_due s'"
    unfolding slate_due_def
  proof (intro impI ballI)
    fix f assume d: "aside s' \<noteq> SIDE_UNKNOWN" "f \<in> set (fills s')" "mode s' = AT_DECISION \<or> seen_fill s' f"
    then obtain i where i: "i < length (fills s2)" "f = fills s' ! i"
      using releases_from_length [OF r] by (auto simp: in_set_conv_nth)
    have "seen_fill s' f = seen_fill s2 (fills s2 ! i)"
      using i same [OF i(1)] releases_from_sel(2) [OF r] by (simp add: seen_fill_def)
    then have "f_released (fills s2 ! i)" if "f_oid f \<noteq> oid"
      using d(1,3) that assms(4,5) i same [OF i(1)] releases_from_sel(1,12) [OF r] by auto
    then show "f_released f"
      using d(2) own i(2) released_mono [OF releases_from_nth [OF r i(1)]] by blast
  qed
  then show ?thesis
    using ro r own roles' releases_from_struct [OF r assms(1)] by (auto simp: slate_inv_def)
qed

lemma on_book_ok:
  assumes "slate_inv s"
  shows "\<exists>s' out. on_book s oid t action px = Inr (s', out) \<and> slate_inv s' \<and> accounted s s' out {#}
    \<and> mode s' = mode s
    \<and> (tx_open s \<and> t = tx s \<and> (action = 1 \<or> action = 2) \<and> mode s = AT_OWN_RECORD
        \<and> idx s oid = Some ord \<and> \<not> ord_seen ord \<longrightarrow> (\<forall>f\<in>set (fills s'). f_oid f = oid \<longrightarrow> f_released f))"
proof (cases "tx_open s \<and> t = tx s \<and> (action = 1 \<or> action = 2) \<and> idx s oid \<noteq> None \<and> \<not> ord_seen (the (idx s oid))")
  case False
  then consider "\<not> tx_open s" | "tx_open s" "t \<noteq> tx s" | "tx_open s" "t = tx s" "action \<noteq> 1 \<and> action \<noteq> 2 \<or>
      idx s oid = None \<or> (\<exists>ord. idx s oid = Some ord \<and> ord_seen ord)"
    by (cases "idx s oid") auto
  then show ?thesis
  proof cases
    case 2
    obtain s' out where c: "close_tx s = (s', out)"
      by force
    then show ?thesis
      using 2 close_tx_ok(1,4) [OF assms c] close_tx_accounted [OF assms c] by (simp add: on_book_def)
  next
    case 3
    then have "on_book s oid t action px = Inr (s, [])"
      by (auto simp: on_book_def split: option.splits)
    then show ?thesis
      using assms 3 by auto
  qed (use assms in \<open>simp add: on_book_def\<close>)
next
  case True
  then obtain ord0 where ord0: "idx s oid = Some ord0" "\<not> ord_seen ord0"
    by auto
  have inv: "slate_struct s" "slate_due s"
    using assms by (simp_all add: slate_inv_def)
  let ?s1 = "mark_seen s oid ord0 action px"
  define s2 where "s2 = ?s1\<lparr>aside := (if aside s = SIDE_UNKNOWN then compute_side ?s1 else aside s)\<rparr>"
  have st2: "slate_struct s2"
    unfolding s2_def using mark_seen_struct [OF inv(1) ord0(1)] True by blast
  have sel: "fills s2 = fills s" "mode s2 = mode s" "idx s2 oid = Some (ord0\<lparr>ord_seen := True\<rparr>)" "n_total s2 = n_total s"
    "idx s2 = (idx s)(oid \<mapsto> ord0\<lparr>ord_seen := True\<rparr>)"
    by (simp_all add: s2_def mark_seen_sel n_total_def) (simp add: mark_seen_def Let_def)
  have acc: "accounted s s' out {#}" if "releases_from s2 s' out" for s' out
    using releases_accounted [OF that] sel(1,4) by (simp add: accounted_def)
  have out: "on_book s oid t action px =
     (if aside s = SIDE_UNKNOWN then
        (if aside s2 \<noteq> SIDE_UNKNOWN then
           Inr (release_loop (\<lambda>s f. mode s = AT_DECISION \<or> seen_fill s f) role_for [0..<length (fills s2)] s2)
         else if mode s2 = AT_OWN_RECORD then release_order s2 ord0 AMBIGUOUS
         else if seen_orders s2 = nb s2 + ns s2 then
           Inr (release_loop (\<lambda>_ _. True) (\<lambda>_ _. AMBIGUOUS) [0..<length (fills s2)] s2)
         else Inr (s2, []))
      else if mode s2 = AT_OWN_RECORD then release_order s2 ord0 AMBIGUOUS else Inr (s2, []))"
    using True ord0 by (auto simp: on_book_def s2_def mark_seen_sel mark_seen_aside Let_def)
  have due: "\<forall>f\<in>set (fills s2). f_oid f \<noteq> oid \<longrightarrow> seen_fill s2 f \<longrightarrow> f_released f"
    if "aside s \<noteq> SIDE_UNKNOWN"
    using inv(2) that sel(1,5) by (auto simp: slate_due_def seen_fill_def)
  have mo: "mode s' = mode s" if "releases_from s2 s' out" for s' out
    using releases_from_sel(1) [OF that] sel(2) by simp
  have seen: "\<forall>f\<in>set (fills s'). f_oid f = oid \<longrightarrow> f_released f"
    if "slate_inv s'" "releases_from s2 s' out" "aside s2 \<noteq> SIDE_UNKNOWN" for s' out
  proof -
    have "seen_fill s' f" if "f_oid f = oid" for f :: "'a SlateFill"
      using that sel(3) releases_from_sel(2) [OF \<open>releases_from s2 s' out\<close>] by (simp add: seen_fill_def)
    then show ?thesis
      using that releases_from_sel(12) [OF that(2)] by (auto simp: slate_inv_def slate_due_def)
  qed
  consider (now) "aside s = SIDE_UNKNOWN" "aside s2 \<noteq> SIDE_UNKNOWN"
    | (own) "mode s2 = AT_OWN_RECORD" "aside s2 = SIDE_UNKNOWN \<or> aside s \<noteq> SIDE_UNKNOWN"
    | (amb) "aside s = SIDE_UNKNOWN" "aside s2 = SIDE_UNKNOWN" "mode s2 = AT_DECISION" "seen_orders s2 = nb s2 + ns s2"
    | (wait) "aside s = SIDE_UNKNOWN" "aside s2 = SIDE_UNKNOWN" "mode s2 = AT_DECISION" "seen_orders s2 \<noteq> nb s2 + ns s2"
    | (old) "aside s \<noteq> SIDE_UNKNOWN" "mode s2 = AT_DECISION"
    by (metis Release.exhaust)
  then show ?thesis
  proof cases
    case now
    obtain s' out' where loop: "release_loop (\<lambda>s f. mode s = AT_DECISION \<or> seen_fill s f) role_for [0..<length (fills s2)] s2 = (s', out')"
      by force
    note d = on_book_decided [OF st2 now(2) loop]
    show ?thesis
      using out now loop d(1) acc [OF d(2)] mo [OF d(2)] seen [OF d(1,2) now(2)] by auto
  next
    case own
    obtain s' out' where ro: "release_order s2 ord0 AMBIGUOUS = Inr (s', out')" "slate_inv s'" "releases_from s2 s' out'"
      "\<forall>f\<in>set (fills s'). f_oid f = oid \<longrightarrow> f_released f"
      using on_book_own [OF st2 sel(3), of ord0] own due by (auto simp: s2_def split: if_splits)
    then have "on_book s oid t action px = Inr (s', out')"
      using out own by auto
    then show ?thesis
      using ro acc mo by blast
  next
    case amb
    obtain s' out' where loop: "release_loop (\<lambda>_ _. True) (\<lambda>_ _. AMBIGUOUS) [0..<length (fills s2)] s2 = (s', out')"
      by force
    have r: "releases_from s2 s' out'"
      using release_loop_releases [OF _ loop] by simp
    then have "slate_inv s'"
      using releases_from_struct [OF r st2] releases_from_sel(12) [OF r] amb(2) by (simp add: slate_inv_def slate_due_def)
    then show ?thesis
      using out amb loop acc [OF r] mo [OF r] sel(2) by auto
  next
    case wait
    then have "on_book s oid t action px = Inr (s2, [])" "slate_inv s2"
      using out st2 by (auto simp: slate_inv_def slate_due_def)
    then show ?thesis
      using acc [of s2 "[]"] wait sel(2) by auto
  next
    case old
    then have "on_book s oid t action px = Inr (s2, [])" "slate_inv s2"
      using out st2 inv(2) sel(1,2) by (auto simp: slate_inv_def slate_due_def)
    then show ?thesis
      using acc [of s2 "[]"] old sel(2) by auto
  qed
qed


section \<open>Runs\<close>

text \<open>A caller's sequence of calls, and the fills its trade records announced.\<close>

datatype 'p slate_call =
    CallTrade u64 u64 real int u32 bool 'p
  | CallBook u64 u64 int real
  | CallAdvance u64

fun slate_run :: "'p FillSlate \<Rightarrow> 'p slate_call list \<Rightarrow> ('p FillSlate \<times> 'p releases) res" where
  "slate_run s [] = Inr (s, [])"
| "slate_run s (c # cs) =
     bnd (case c of
            CallTrade oid t px side qty touch pl \<Rightarrow> Inr (on_trade s oid t px side qty touch pl)
          | CallBook oid t action px \<Rightarrow> on_book s oid t action px
          | CallAdvance t \<Rightarrow> Inr (advance s t))
       (\<lambda>(s1, out1). bnd (slate_run s1 cs) (\<lambda>(s2, out2). Inr (s2, out1 @ out2)))"

fun call_trades :: "'p slate_call \<Rightarrow> (u64 \<times> u64 \<times> real \<times> u32 \<times> int \<times> 'p) multiset" where
  "call_trades (CallTrade oid t px side qty touch pl) = {#(oid, t, px, qty, side, pl)#}"
| "call_trades (CallBook oid t action px) = {#}"
| "call_trades (CallAdvance t) = {#}"

definition trades_of :: "'p slate_call list \<Rightarrow> (u64 \<times> u64 \<times> real \<times> u32 \<times> int \<times> 'p) multiset" where
  "trades_of cs = sum_list (map call_trades cs)"

lemma slate_init_inv [simp]: "slate_inv (FillSlate_init m)"
  by (simp add: slate_inv_def slate_struct_def slate_due_def FillSlate_init_def idx_ok_def entry_ok_def positions_def)

lemma slate_run_ok:
  assumes "slate_inv s"
  shows "\<exists>s' out. slate_run s cs = Inr (s', out) \<and> slate_inv s' \<and> accounted s s' out (trades_of cs) \<and> mode s' = mode s"
  using assms
proof (induction cs arbitrary: s)
  case Nil
  then show ?case by (simp add: trades_of_def)
next
  case (Cons c cs)
  have "\<exists>s1 out1. (case c of
            CallTrade oid t px side qty touch pl \<Rightarrow> Inr (on_trade s oid t px side qty touch pl)
          | CallBook oid t action px \<Rightarrow> on_book s oid t action px
          | CallAdvance t \<Rightarrow> Inr (advance s t)) = Inr (s1, out1)
          \<and> slate_inv s1 \<and> accounted s s1 out1 (call_trades c) \<and> mode s1 = mode s"
  proof (cases c)
    case (CallTrade oid t px side qty touch pl)
    obtain s1 out1 where "on_trade s oid t px side qty touch pl = (s1, out1)"
      by force
    then show ?thesis
      using on_trade_ok [OF Cons.prems, of oid t px side qty touch pl s1 out1] CallTrade by auto
  next
    case (CallBook oid t action px)
    then show ?thesis
      using on_book_ok [OF Cons.prems, of oid t action px undefined] by (simp, blast)
  next
    case (CallAdvance t)
    obtain s1 out1 where "advance s t = (s1, out1)"
      by force
    then show ?thesis
      using advance_ok [OF Cons.prems, of t s1 out1] CallAdvance by auto
  qed
  then obtain s1 out1 where one: "(case c of
            CallTrade oid t px side qty touch pl \<Rightarrow> Inr (on_trade s oid t px side qty touch pl)
          | CallBook oid t action px \<Rightarrow> on_book s oid t action px
          | CallAdvance t \<Rightarrow> Inr (advance s t)) = Inr (s1, out1)"
          "slate_inv s1" "accounted s s1 out1 (call_trades c)" "mode s1 = mode s"
    by blast
  obtain s2 out2 where two: "slate_run s1 cs = Inr (s2, out2)" "slate_inv s2" "accounted s1 s2 out2 (trades_of cs)"
    "mode s2 = mode s1"
    using Cons.IH [OF one(2)] by blast
  have "slate_run s (c # cs) = Inr (s2, out1 @ out2)"
    by (simp add: one(1) two(1))
  moreover have "accounted s s2 (out1 @ out2) (trades_of (c # cs))"
    using accounted_trans [OF one(3) two(3)] by (simp add: trades_of_def)
  ultimately show ?case
    using two(2,4) one(4) by auto
qed

section \<open>Properties of the slate\<close>


text \<open>
  Between calls \<open>held_\<close> is the number of fills announced and not yet released, so it
  never goes below zero and \<open>empty()\<close> is exact; \<open>nb_\<close> and \<open>ns_\<close> count distinct orders by
  the side of their first listing, not fills; and no fill waits longer than its mode
  allows: once the transaction is decided, an \<open>AT_DECISION\<close> slate holds nothing and an
  \<open>AT_OWN_RECORD\<close> slate holds no fill of an order whose book record has come.
\<close>

theorem slate_no_late_fill:
  "\<exists>s out. slate_run (FillSlate_init m) cs = Inr (s, out)
     \<and> held s = int (length (unrel (fills s))) \<and> held s \<ge> 0 \<and> (slate_empty s \<longleftrightarrow> unrel (fills s) = [])
     \<and> nb s = listed (fills s) (\<lambda>d. d = sBUY) \<and> ns s = listed (fills s) (\<lambda>d. d \<noteq> sBUY)
     \<and> (aside s = SIDE_UNKNOWN \<or> m = AT_OWN_RECORD \<or> slate_empty s)
     \<and> (aside s = SIDE_UNKNOWN \<or> filter (seen_fill s) (unrel (fills s)) = [])"
proof -
  obtain s out where run: "slate_run (FillSlate_init m) cs = Inr (s, out)" "slate_inv s" "mode s = m"
    using slate_run_ok [OF slate_init_inv, of m cs] by (auto simp: FillSlate_init_def)
  have "unrel (fills s) = []" if "aside s \<noteq> SIDE_UNKNOWN" "m \<noteq> AT_OWN_RECORD"
  proof -
    have "mode s = AT_DECISION"
      using that(2) run(3) by (cases m) auto
    then show ?thesis
      using run(2) that(1) by (simp add: slate_inv_def slate_due_def unrel_def)
  qed
  moreover have "filter (seen_fill s) (unrel (fills s)) = []" if "aside s \<noteq> SIDE_UNKNOWN"
    using run(2) that by (auto simp: slate_inv_def slate_due_def unrel_def filter_empty_conv)
  moreover have "held s = int (length (unrel (fills s)))" "nb s = listed (fills s) (\<lambda>d. d = sBUY)"
    "ns s = listed (fills s) (\<lambda>d. d \<noteq> sBUY)"
    using run(2) by (simp_all add: slate_inv_def slate_struct_def)
  moreover from this have "held s \<ge> 0" "slate_empty s \<longleftrightarrow> unrel (fills s) = []"
    by (simp_all add: slate_empty_def)
  ultimately show ?thesis
    using run(1) by blast
qed

text \<open>
  An EXEC is processed before its order's own record removes the order. On an
  \<open>AT_OWN_RECORD\<close> slate in a well-formed state, the first Change or Delete record of a
  listed order, within the open transaction, returns with every fill of that order
  released.
\<close>

theorem slate_own_record_releases:
  assumes "slate_inv s" "tx_open s" "mode s = AT_OWN_RECORD" "action = 1 \<or> action = 2"
    "idx s oid = Some ord" "\<not> ord_seen ord"
  shows "\<exists>s' out. on_book s oid (tx s) action px = Inr (s', out) \<and> slate_inv s'
           \<and> (\<forall>f\<in>set (fills s'). f_oid f = oid \<longrightarrow> f_released f)"
  using on_book_ok [OF assms(1), of oid "tx s" action px ord] assms(2-6) by auto


definition demo_slate :: "nat FillSlate" where
  "demo_slate = fst (on_trade (fst (on_trade (fst (on_trade (FillSlate_init AT_OWN_RECORD)
      11 500 (209 / 2) sBUY 4 True 1)) 22 500 (209 / 2) sSEL 3 True 2)) 11 500 (209 / 2) sBUY 2 True 3)"

lemma demo_slate_inv: "slate_inv demo_slate"
proof -
  have step: "slate_inv (fst (on_trade s oid t px side qty touch pl))" if "slate_inv s"
    for s :: "nat FillSlate" and oid t px side qty touch pl
    using on_trade_ok(1) [OF that, of oid t px side qty touch pl] by (metis prod.collapse)
  show ?thesis
    unfolding demo_slate_def by (intro step slate_init_inv)
qed

lemma demo_slate_facts:
  "tx_open demo_slate" "mode demo_slate = AT_OWN_RECORD" "tx demo_slate = 500"
  "idx demo_slate 11 = Some \<lparr>ord_first = 0, ord_last = 2, ord_seen = False\<rparr>"
  by (simp_all add: demo_slate_def on_trade_def list_fill_def advance_def FillSlate_init_def side_consts)

theorem slate_own_record_releases_witness:
  "\<exists>s' out. on_book demo_slate 11 500 2 0 = Inr (s', out) \<and> slate_inv s'
      \<and> (\<forall>f\<in>set (fills s'). f_oid f = 11 \<longrightarrow> f_released f)"
  using slate_own_record_releases [OF demo_slate_inv demo_slate_facts(1,2), of 2 11] demo_slate_facts(3,4) by simp

lemma role_for_aside: "aside s' = aside s \<Longrightarrow> role_for s' f = role_for s f"
  by (simp add: role_for_def)

lemma on_trade_verdict:
  assumes "slate_inv s" "tx_open s" "aside s \<noteq> SIDE_UNKNOWN" "on_trade s oid (tx s) px side qty touch pl = (s1, out1)"
  shows "aside s1 = aside s \<and> (\<forall>(f, r)\<in>set out1. r = role_for s f)"
proof -
  let ?s = "list_fill s oid (tx s) px side qty touch pl" and ?n = "length (fills s)"
  have st: "slate_struct s"
    using assms(1) by (simp add: slate_inv_def)
  have as: "aside ?s = aside s" and n: "?n < length (fills ?s)"
    using list_fill_ok(3,6) [OF st _ refl, where t = "tx s"] by auto
  have adv: "advance s (tx s) = (s, [])"
    by (simp add: advance_def)
  show ?thesis
  proof (cases "s1 = ?s \<and> out1 = []")
    case True
    then show ?thesis using as by simp
  next
    case False
    then have one: "release_one ?s ?n (role_for ?s (fills ?s ! ?n)) = (s1, out1)"
      using assms(4) adv by (auto simp: on_trade_def Let_def split: if_splits prod.splits)
    have "aside s1 = aside s"
      using releases_from_sel(12) [OF release_one_releases(1) [OF n one]] as by simp
    moreover have "r = role_for s f" if "(f, r) \<in> set out1" for f r
      using release_one_releases(3) [OF n one that] role_for_aside [OF as] stable_released [OF stable_role_for, of ?s]
      by metis
    ultimately show ?thesis
      by auto
  qed
qed

lemma on_book_verdict:
  assumes "slate_inv s" "tx_open s" "aside s \<noteq> SIDE_UNKNOWN" "on_book s oid (tx s) action px = Inr (s2, out2)"
  shows "aside s2 = aside s \<and> (\<forall>(f, r)\<in>set out2. r = role_for s f)"
proof (cases "(action = 1 \<or> action = 2) \<and> idx s oid \<noteq> None \<and> \<not> ord_seen (the (idx s oid)) \<and> mode s = AT_OWN_RECORD")
  case True
  then obtain ord0 where ord0: "idx s oid = Some ord0" "\<not> ord_seen ord0"
    by auto
  let ?s1 = "mark_seen s oid ord0 action px"
  have as: "aside ?s1 = aside s"
    by (simp add: mark_seen_sel)
  have ro: "release_order ?s1 ord0 AMBIGUOUS = Inr (s2, out2)"
    using assms(2-4) True ord0 by (auto simp: on_book_def mark_seen_sel)
  have st: "slate_struct ?s1"
    using mark_seen_struct [OF _ ord0(1) assms(2), where action = action and px = px and d = "aside s"] assms(1) mark_seen_aside
    by (metis slate_inv_def)
  obtain s' out where "release_order ?s1 ord0 AMBIGUOUS = Inr (s', out)" "releases_from ?s1 s' out"
    "\<forall>(f, r)\<in>set out. r = (if aside ?s1 = SIDE_UNKNOWN then AMBIGUOUS else role_for ?s1 f)"
    using release_order_ok [OF st, of oid "ord0\<lparr>ord_seen := True\<rparr>" ord0 AMBIGUOUS] by (auto simp: mark_seen_sel)
  then have "aside s' = aside s" "s2 = s'" "out2 = out" "\<forall>(f, r)\<in>set out. r = role_for s f"
    using ro as assms(3) releases_from_sel(12) [of ?s1 s' out] role_for_aside [OF as] by auto
  then show ?thesis
    by simp
next
  case False
  then consider "action \<noteq> 1 \<and> action \<noteq> 2" | "idx s oid = None"
    | ord where "idx s oid = Some ord" "ord_seen ord \<or> mode s = AT_DECISION"
    by (cases "idx s oid"; cases "mode s") auto
  then have "aside s2 = aside s \<and> out2 = []"
    using assms(2-4) by cases (auto simp: on_book_def mark_seen_sel split: if_splits)
  then show ?thesis
    by simp
qed

text \<open>
  The verdict on a transaction is fixed once made, and every fill carries it. In a
  decided transaction no trade or book record of the same transaction changes the
  aggressor side, and each fill such a record releases has the role of that verdict; so
  the two sides of one transaction are never both called the aggressor.
\<close>

theorem slate_verdict_fixed:
  assumes "slate_inv s" "tx_open s" "aside s \<noteq> SIDE_UNKNOWN"
  shows "(on_trade s oid (tx s) px side qty touch pl = (s1, out1) \<longrightarrow>
           aside s1 = aside s \<and> (\<forall>(f, r)\<in>set out1. r = role_for s f))
       \<and> (on_book s oid (tx s) action px = Inr (s2, out2) \<longrightarrow>
           aside s2 = aside s \<and> (\<forall>(f, r)\<in>set out2. r = role_for s f))"
  using on_trade_verdict [OF assms] on_book_verdict [OF assms] by blast

definition demo_decided :: "nat FillSlate" where
  "demo_decided = (case on_book demo_slate 11 500 1 (209 / 2) of Inr (s, _) \<Rightarrow> s | Inl _ \<Rightarrow> demo_slate)"

lemma demo_decided_facts:
  "slate_inv demo_decided" "tx_open demo_decided" "aside demo_decided = sSEL" "tx demo_decided = 500"
proof -
  show "slate_inv demo_decided"
    using on_book_ok [OF demo_slate_inv, of 11 500 1 "209 / 2" undefined] by (auto simp: demo_decided_def)
qed (simp_all add: demo_decided_def demo_slate_def on_book_def mark_seen_def on_trade_def list_fill_def
    advance_def FillSlate_init_def side_consts compute_side_def same_px_def release_one_def role_for_def
    seen_fill_def upt_rec Let_def)

theorem slate_verdict_fixed_witness:
  "aside (fst (on_trade demo_decided 33 500 (209 / 2) sSEL 1 True 9)) = sSEL"
proof -
  have "aside demo_decided \<noteq> SIDE_UNKNOWN"
    using demo_decided_facts(3) by (simp add: side_consts)
  then show ?thesis
    using slate_verdict_fixed [OF demo_decided_facts(1,2), of 33 "209 / 2" sSEL 1 True 9] demo_decided_facts(3,4)
    by (metis prod.collapse)
qed

end
