(* ===== verification/OB_Feed.thy ===== *)
theory OB_Feed
  imports OB_Book Fill_Slate
begin

text \<open>
  The feed half of \<open>frame::ob::act::OB\<close> (\<open>src/frame_kaspr/src/OB.cpp\<close>): \<open>data_handler\<close> turns
  records of the exchange and orders of our own traders into payloads, \<open>process_q\<close> delays our
  orders on \<open>del_q\<close>, and \<open>process_market_data\<close> applies a payload to the book and publishes
  what the book then looks like.

  The record \<open>OB\<close> holds the book of \<open>OB_Book\<close> and the state of the feed. \<open>ordermap\<close>, a flat map
  that is only looked up, is a HOL map. Payloads are values: the one object that is changed
  after it was shared, \<open>last_good_payload\<close>, is changed before the messages that refer to it are
  sent and not after. \<open>units\<close>, \<open>sec_id\<close> and \<open>bo_spread\<close> are those of the instrument's \<open>Asset\<close>.
  Whether a time falls in the daily break of the exchange comes from the time zone database
  of the host and is the parameter \<open>brk\<close>. \<open>has_pred\<close> is false (the constructor aborts
  otherwise), \<open>USEMBP\<close>, \<open>USEFASTSEND\<close> and \<open>PRINTSTATS\<close> are not defined, and the interval
  records for \<open>binrec\<close>, which only time the program, are left out.
\<close>

section \<open>State\<close>

record order_info =
  chopid :: u64
  xoid :: u64
  oi_px :: real
  oi_sz :: u32
  oi_side :: bs

record mbo =
  venue :: u32
  transactTime :: u64
  sendingTime :: u64
  mbo_handlerendtim :: u64
  orderUpdateAction :: int
  securityID :: int
  orderID :: u64
  pxd :: real
  displayQty :: u32
  mbo_side :: char
  endOfEvent :: bool
  recovery :: bool

record mbo_trd =
  t_venue :: u32
  t_transactTime :: u64
  t_sendingTime :: u64
  t_handlerendtim :: u64
  t_lastQty :: u32
  t_orderID :: u64
  t_endOfEvent :: bool

text \<open>
  The alternatives of \<open>bfile::l3_t\<close> the handler tells apart. \<open>L3_other\<close> stands for the
  remaining ones, with the exchange time they carry, 0 for none.
\<close>

datatype l3 =
    MBO mbo
  | MBO_TRD mbo_trd
  | MBP u64
  | MBP_TRD u64
  | VOL u64
  | SST (sst_txtim: u64) (tradingStatus: int)
  | CHR_REC u32
  | GAP_REC u32
  | EOB
  | SIM_REC
  | SOM_REC
  | L3_other u64

record Data =
  israw :: bool
  d_l3 :: l3
  d_payload :: payload
  d_sender :: "actor option"

record OB =
  book :: Book
  ordermap :: "u64 \<Rightarrow> order_info option"
  exec_slate :: "payload FillSlate"
  del_q :: "(payload \<times> actor option) list"
  bookoid :: u32
  txtim_epoch :: u64
  sendtim_epoch :: u64
  handlerendtim :: u64
  volumefound :: u32
  volumeall :: u32
  num_exec :: u32
  num_add :: u32
  num_bad_px :: u64
  is_in_recovery :: bool
  have_new_payload :: bool
  last_good_payload :: "payload option"
  last_tx_tim :: u64
  last_recovery_tx_tim :: u64
  xcheck_tx :: u64
  matching :: bool
  first_record_seen :: bool
  crossed_data :: "payload list"
  prev_xoid :: u64
  is_option :: bool
  som :: "actor option"
  units :: real
  sec_id :: int
  bo_spread :: int

definition OB_init :: "bool \<Rightarrow> u32 \<Rightarrow> int \<Rightarrow> bool \<Rightarrow> real \<Rightarrow> int \<Rightarrow> int \<Rightarrow> OB res" where
  "OB_init cross s maxpx opt un sec spread =
     bnd (Book_init cross s maxpx)
       (\<lambda>b. Inr \<lparr>book = b, ordermap = (\<lambda>_. None), exec_slate = FillSlate_init AT_OWN_RECORD, del_q = [],
          bookoid = 0, txtim_epoch = 0, sendtim_epoch = 0, handlerendtim = 0, volumefound = 0, volumeall = 0,
          num_exec = 0, num_add = 0, num_bad_px = 0, is_in_recovery = False, have_new_payload = False,
          last_good_payload = None, last_tx_tim = 0, last_recovery_tx_tim = 0, xcheck_tx = 0,
          matching = True, first_record_seen = False, crossed_data = [], prev_xoid = 0,
          is_option = opt, som = None, units = un, sec_id = sec, bo_spread = spread\<rparr>)"

section \<open>Applying a payload\<close>

definition ob_clear :: "OB \<Rightarrow> OB res" where
  "ob_clear s =
     bnd (clear_book (book s))
       (\<lambda>b. Inr (s\<lparr>book := b, ordermap := (\<lambda>_. None), exec_slate := slate_clear (exec_slate s)\<rparr>))"

definition publish_all :: "Book \<Rightarrow> actor list \<Rightarrow> ob_msg \<Rightarrow> u64 \<Rightarrow> Book" where
  "publish_all b subs msg now = foldl (\<lambda>b c. publish_delayed b c msg now) b subs"

definition handle_eoburst :: "OB \<Rightarrow> payload \<Rightarrow> OB res" where
  "handle_eoburst s pl =
     (if \<not> have_new_payload s then Inr s
      else case last_good_payload s of
        None \<Rightarrow> Inl (Undefined ''null dereference'')
      | Some g \<Rightarrow>
          chk (\<not> p_is_sim g) ''cant be sim''
           (let g1 = (if baddata (p_point g) then g else g\<lparr>p_point := shift_zero (p_point g)\<rparr>);
                b0 = book s;
                b1 = (if baddata (p_point g) then b0
                      else publish_all b0 (hiprio_datasubs b0) (EndOfBurst g1) (p_txtim_epoch g1));
                b2 = (case som s of
                        None \<Rightarrow> b1
                      | Some a \<Rightarrow> if p_sendtim_epoch pl > 0
                                  then b1\<lparr>sent := sent b1 @ [(a, UnStash (p_sendtim_epoch pl + 40000))]\<rparr> else b1);
                pt = p_point g1;
                b3 = publish_all b2 (lowprio_datasubs b2)
                       (EndOfBurst2 (sym b2) (p_txtim_epoch g1) (bid_px pt ! 0) (ask_px pt ! 0) (bid_sz pt ! 0) (ask_sz pt ! 0)
                          (pt_mev pt) (pt_action pt) (pt_side pt) (volumefound s)) (p_txtim_epoch g1)
            in Inr (s\<lparr>book := b3, have_new_payload := False, last_good_payload := Some g1\<rparr>)))"

definition process_add_or_mod :: "OB \<Rightarrow> payload \<Rightarrow> actor option \<Rightarrow> OB res" where
  "process_add_or_mod s0 pl sender =
     (let s = s0\<lparr>prev_xoid := p_ex_order_id pl\<rparr>; b = book s in
      bnd (p_is_valid pl)
       (\<lambda>_. case p_mev pl of
          ADD \<Rightarrow>
            chk (p_is_sim pl \<longrightarrow> sender \<noteq> None) ''must have sender''
             (bnd (to_uint (p_px pl))
               (\<lambda>px. bnd (ob_add b (p_txtim_epoch pl) (p_order_ref pl) (p_side pl) px (p_sz pl) sender (p_ot pl)
                           (p_owner pl) (p_ex_order_id pl) (p_mkt pl))
                  (\<lambda>b'. handle_eoburst (s\<lparr>book := b'\<rparr>) pl)))
        | EOBURST \<Rightarrow> handle_eoburst s pl
        | MOD \<Rightarrow>
            chk (p_is_sim pl \<longrightarrow> sender \<noteq> None) ''must have sender''
             (bnd (to_uint (p_px pl))
               (\<lambda>px. bnd (ob_mod b sender (p_txtim_epoch pl) (p_order_ref pl) (p_action pl) (p_side pl) px (p_sz pl)
                           (p_disp_sz pl) (p_mkt pl))
                  (\<lambda>b'. handle_eoburst (s\<lparr>book := b'\<rparr>) pl)))
        | CLEAR \<Rightarrow>
            chk (p_sym pl = sym b) ''sym'' (ob_clear (s\<lparr>last_tx_tim := 0, last_recovery_tx_tim := 0\<rparr>))
        | GAP \<Rightarrow>
            Inr (s\<lparr>book := b\<lparr>sent := sent b @ map (\<lambda>a. (a, GapDetected (sym b))) (hiprio_datasubs b)
                                 @ map (\<lambda>a. (a, GapDetected (sym b))) (lowprio_datasubs b)\<rparr>\<rparr>)
        | _ \<Rightarrow> Inr s))"

text \<open>
  \<open>calc_ba\<close>: the depth snapshot. One step reads the two levels at distance \<open>i\<close> from the
  inside; the assertions compare with the step before.
\<close>

type_synonym depth = "(int \<times> int \<times> int \<times> int \<times> int \<times> int) list"

fun calc_levels :: "Book \<Rightarrow> nat \<Rightarrow> nat \<Rightarrow> int \<Rightarrow> int \<Rightarrow> depth \<Rightarrow> depth res" where
  "calc_levels b 0 i bsum asum acc = Inr acc"
| "calc_levels b (Suc n) i bsum asum acc =
     bnd (lvl_at (bidqs b) (best_bid b - int i))
      (\<lambda>bq. bnd (lvl_at (askqs b) (best_ask b + int i))
        (\<lambda>aq. bnd (get_orders_in_book bq)
          (\<lambda>bs. bnd (get_orders_in_book aq)
            (\<lambda>as.
               let bpx = best_bid b - int i; apx = best_ask b + int i;
                   cb = bsum + bs; ca = asum + as
               in chk (case acc of [] \<Rightarrow> True
                       | _ \<Rightarrow> (case last acc of (pbpx, papx, pbs, pas, pcb, pca) \<Rightarrow>
                                 cb \<ge> pcb \<and> ca \<ge> pas \<and> bpx < pbpx \<and> apx > papx)) ''calcba''
                    (calc_levels b n (i + 1) cb ca (acc @ [(bpx, apx, bs, as, cb, ca)]))))))"

definition calc_ba :: "Book \<Rightarrow> depth res" where
  "calc_ba b =
     (if best_bid b < int NLEVELS * 2 \<or> best_ask b > asset_maxpx b - int NLEVELS * 2
      then Inr (replicate NLEVELS (0, asset_maxpx b - 1, 0, 0, 0, 0))
      else calc_levels b NLEVELS 0 0 0 [])"

definition depth_point :: "Book \<Rightarrow> payload \<Rightarrow> depth \<Rightarrow> point" where
  "depth_point b pl d =
     (let bpx = map fst d; apx = map (fst \<circ> snd) d
      in \<lparr>baddata = (apx ! 0 - bpx ! 0 \<le> 0 \<or> bpx ! 0 \<le> 10 \<or> apx ! 0 \<ge> maxprice b),
          pt_sym = uint (p_sym pl), pt_side = p_side pl, pt_action = p_action pl, pt_mev = p_mev pl,
          bid_px = bpx, ask_px = apx,
          bid_sz = map (\<lambda>(_, _, x, _). x) d, ask_sz = map (\<lambda>(_, _, _, x, _). x) d\<rparr>)"

text \<open>The no-cross check at a transaction boundary, and the boundary itself.\<close>

definition no_cross :: "OB \<Rightarrow> payload \<Rightarrow> OB res" where
  "no_cross s pl =
     (let b = book s in
      bnd (if matching s \<and> xcheck_tx s \<noteq> 0 \<and> \<not> p_is_sim pl \<and> p_tim pl > xcheck_tx s then
             (if do_cross_check b then chk (best_bid b \<le> best_ask b) ''CROSSED book'' (Inr s)
              else if best_bid b > best_ask b
                   then Inr (s\<lparr>book := b\<lparr>num_cross_recover := num_cross_recover b + 1\<rparr>\<rparr>)
              else Inr s)
           else Inr s)
       (\<lambda>s1. Inr (if \<not> p_is_sim pl \<and> p_tim pl > xcheck_tx s1 then s1\<lparr>xcheck_tx := p_tim pl\<rparr> else s1)))"

definition publish_depth :: "OB \<Rightarrow> payload \<Rightarrow> OB res" where
  "publish_depth s pl =
     (let s1 = s\<lparr>book := (book s)\<lparr>currtim := p_send_tim pl\<rparr>\<rparr> in
      chk (p_send_tim pl > 0) ''invalid time''
       (let s2 = s1\<lparr>txtim_epoch := p_txtim_epoch pl\<rparr>; b = book s2 in
        chk (bo_spread s2 = 1) ''incr''
         (chk (maxprice b \<ge> asset_maxpx b) ''maxprice''
          (bnd (calc_ba b)
            (\<lambda>d. let pl1 = pl\<lparr>p_point := depth_point b pl d\<rparr> in
               chk (\<not> p_recovery pl1) ''cant be recovery''
                (if p_action pl1 \<noteq> EXEC
                 then Inr (s2\<lparr>have_new_payload := True, last_good_payload := Some pl1\<rparr>)
                 else Inr (s2\<lparr>book := publish_all (publish_all b (hiprio_datasubs b) (TradeNotify pl1) (p_txtim_epoch pl1))
                                        (filter (\<lambda>a. a \<notin> set (hiprio_datasubs b)) (bbbosubs b))
                                        (TradeNotify pl1) (p_txtim_epoch pl1)\<rparr>)))))))"

definition md_clock :: "OB \<Rightarrow> payload \<Rightarrow> OB" where
  "md_clock s pl =
     (if p_txtim_epoch pl \<noteq> 0 \<and> \<not> p_is_sim pl
      then s\<lparr>book := (drain_pub_q (book s) (p_txtim_epoch pl))\<lparr>last_processed_ts := p_txtim_epoch pl\<rparr>\<rparr>
      else s)"

definition process_market_data :: "OB \<Rightarrow> payload \<Rightarrow> actor option \<Rightarrow> OB res" where
  "process_market_data s pl sender =
     chk (p_mev pl \<noteq> MD_UNI) ''uninitialied md type''
      (bnd (no_cross (md_clock s pl) pl)
        (\<lambda>s1. bnd (process_add_or_mod s1 pl sender)
          (\<lambda>s2. if p_is_sim pl then Inr s2
                else if p_recovery pl then Inr s2
                else if p_mev pl \<in> {EOBURST, TEST, CLEAR, GAP} then Inr s2
                else publish_depth s2 pl)))"

section \<open>The delay of our own orders\<close>

definition arrive_time :: "Book \<Rightarrow> payload \<Rightarrow> u64" where
  "arrive_time b p =
     (let eff_delay = (if p_action p = CANCD \<and> cancel_delay b \<ge> 0 then cancel_delay b else delay b)
      in p_ts0 p + of_int (feed_delay b) * 1000 + of_int (max 40 eff_delay) * 1000)"

text \<open>
  The loop of \<open>process_q\<close>. The order is erased after it was applied, and applying it does not
  read the queue, so the queue is set to the rest here.
\<close>

fun del_loop :: "OB \<Rightarrow> payload \<Rightarrow> (payload \<times> actor option) list \<Rightarrow> OB res" where
  "del_loop s to_proc [] = Inr (s\<lparr>del_q := []\<rparr>)"
| "del_loop s to_proc ((p, sender) # q) =
     chk (p_send_tim p > 0) ''bad date''
      (chk (p_ts0 p > 0) ''bad ts0''
        (if arrive_time (book s) p < p_tim to_proc
         then bnd (process_market_data s p sender) (\<lambda>s'. del_loop s' to_proc q)
         else Inr (s\<lparr>del_q := (p, sender) # q\<rparr>)))"

definition pq_clock :: "OB \<Rightarrow> payload \<Rightarrow> OB" where
  "pq_clock s to_proc =
     (if p_txtim_epoch to_proc \<noteq> 0 then s\<lparr>book := (book s)\<lparr>last_processed_ts := p_txtim_epoch to_proc\<rparr>\<rparr> else s)"

definition process_q :: "OB \<Rightarrow> payload \<Rightarrow> OB res" where
  "process_q s to_proc =
     (if p_px to_proc \<le> 0 then Inr s
      else chk (\<not> p_is_sim to_proc) ''this must be a real order''
        (let s1 = pq_clock s to_proc
         in bnd (del_loop s1 to_proc (del_q s1)) (\<lambda>s2. process_market_data s2 to_proc None)))"

section \<open>The feed handler\<close>

definition record_tx_time :: "l3 \<Rightarrow> u64" where
  "record_tx_time l =
     (case l of
        MBO r \<Rightarrow> transactTime r
      | MBO_TRD r \<Rightarrow> t_transactTime r
      | MBP t \<Rightarrow> t | MBP_TRD t \<Rightarrow> t | VOL t \<Rightarrow> t
      | SST t _ \<Rightarrow> t
      | L3_other t \<Rightarrow> t
      | _ \<Rightarrow> 0)"

definition is_matching_status :: "int \<Rightarrow> bool" where
  "is_matching_status st \<longleftrightarrow> st = 17"

definition is_sst :: "l3 \<Rightarrow> bool" where
  "is_sst l = (case l of SST _ _ \<Rightarrow> True | _ \<Rightarrow> False)"

definition dh_first :: "(u64 \<Rightarrow> bool) \<Rightarrow> OB \<Rightarrow> l3 \<Rightarrow> OB" where
  "dh_first brk s l =
     (if first_record_seen s \<or> record_tx_time l = 0 then s
      else s\<lparr>first_record_seen := True,
             matching := (if \<not> is_sst l \<and> brk (record_tx_time l) then False else matching s)\<rparr>)"

text \<open>
  The filter at the head of the handler: \<open>None\<close> when it returns, otherwise the exchange
  time, the sending time and whether a bad price forces a delete.
\<close>

definition dh_filter :: "OB \<Rightarrow> l3 \<Rightarrow> bool \<Rightarrow> (OB \<times> (u64 \<times> u64 \<times> bool) option) res" where
  "dh_filter s l raw =
     (case l of
        SOM_REC \<Rightarrow> Inr (s, None)
      | MBO r \<Rightarrow>
          (let ticks = price_ticks (units s) (pxd r);
               bad = (\<not> (ticks > 0 \<and> ticks < maxprice (book s)));
               s1 = (if bad then s\<lparr>num_bad_px := num_bad_px s + 1\<rparr> else s)
           in if bad \<and> orderUpdateAction r = 0 then Inr (s1, None)
              else if securityID r \<noteq> sec_id s \<and> securityID r \<noteq> sint (sym (book s)) then Inr (s1, None)
              else Inr (s1\<lparr>txtim_epoch := transactTime r, sendtim_epoch := sendingTime r,
                           handlerendtim := mbo_handlerendtim r\<rparr>,
                        Some (transactTime r, sendingTime r, bad)))
      | MBO_TRD r \<Rightarrow>
          (if is_option s then Inr (s, None)
           else Inr (s\<lparr>txtim_epoch := t_transactTime r, sendtim_epoch := t_sendingTime r,
                       handlerendtim := t_handlerendtim r, volumeall := volumeall s + t_lastQty r\<rparr>,
                     Some (t_transactTime r, t_sendingTime r, False)))
      | MBP _ \<Rightarrow> Inr (s, None)
      | MBP_TRD _ \<Rightarrow> Inr (s, None)
      | VOL _ \<Rightarrow> Inr (s, None)
      | SST _ st \<Rightarrow> Inr (s\<lparr>matching := is_matching_status st\<rparr>, None)
      | L3_other _ \<Rightarrow> chk raw ''cannot ignore sim'' (Inr (s, None))
      | _ \<Rightarrow> Inr (s, Some (0, 0, False)))"

text \<open>Snapshot and incremental records: which are stale, and when a recovery begins and ends.\<close>

definition dh_recovery :: "OB \<Rightarrow> mbo \<Rightarrow> u64 \<Rightarrow> (OB \<times> bool) res" where
  "dh_recovery s r extim =
     (let s1 = (if extim = 0 then s
                else if recovery r then s\<lparr>last_recovery_tx_tim := extim\<rparr> else s\<lparr>last_tx_tim := extim\<rparr>);
          both = (extim \<noteq> 0 \<and> last_tx_tim s1 \<noteq> 0 \<and> last_recovery_tx_tim s1 \<noteq> 0)
      in if both \<and> recovery r \<and> extim < last_tx_tim s1 then Inr (s1, False)
         else if both \<and> \<not> recovery r \<and> extim \<le> last_recovery_tx_tim s1 then Inr (s1, False)
         else bnd (if recovery r \<and> \<not> is_in_recovery s1
                   then bnd (ob_clear s1) (\<lambda>s2. Inr (s2\<lparr>is_in_recovery := True\<rparr>)) else Inr s1)
               (\<lambda>s2. Inr (if \<not> recovery r \<and> is_in_recovery s2 then s2\<lparr>is_in_recovery := False\<rparr> else s2, True)))"

text \<open>An order of one of our traders, sent by the order manager.\<close>

definition dh_sim :: "OB \<Rightarrow> payload \<Rightarrow> actor option \<Rightarrow> OB res" where
  "dh_sim s p sender =
     chk (p_is_sim p) ''not sim''
      (chk (currtim (book s) > 0) ''cannot set send time in sim order''
       (let pl = p\<lparr>p_send_tim := currtim (book s), p_txtim_epoch := currtim (book s)\<rparr> in
        if p_ts0 p = 0 then
          chk (del_q s = []) ''untimed cancel while sim orders are still queued'' (process_market_data s pl sender)
        else Inr (s\<lparr>del_q := del_q s @ [(pl, sender)]\<rparr>)))"

definition mbo_get_side :: "mbo \<Rightarrow> bs res" where
  "mbo_get_side r = (if mbo_side r = CHR ''0'' then Inr BUY else if mbo_side r = CHR ''1'' then Inr SEL else sngh)"

definition have_side :: "mbo \<Rightarrow> bool" where
  "have_side r \<longleftrightarrow> mbo_side r = CHR ''0'' \<or> mbo_side r = CHR ''1''"

definition stamp :: "OB \<Rightarrow> payload \<Rightarrow> payload" where
  "stamp s p = p\<lparr>p_txtim_epoch := txtim_epoch s, p_sendtim_epoch := sendtim_epoch s, p_hndl_tim_epoch := handlerendtim s\<rparr>"

definition mbo_payload ::
  "OB \<Rightarrow> mbo \<Rightarrow> u64 \<Rightarrow> u64 \<Rightarrow> bs \<Rightarrow> u64 \<Rightarrow> md \<Rightarrow> mt \<Rightarrow> u32 \<Rightarrow> u32 \<Rightarrow> real \<Rightarrow> bool \<Rightarrow> bool \<Rightarrow> payload res" where
  "mbo_payload s r extim sendtim side ref mev act sz disp_sz px eoe rec =
     bnd (make_payload (units s) (mbo_handlerendtim r) side (orderID r) ref (sym (book s)) mev act sz disp_sz px
            extim sendtim (venue r) eoe rec)
       (\<lambda>p. Inr (stamp s p))"

fun release_execs :: "OB \<Rightarrow> payload releases \<Rightarrow> OB res" where
  "release_execs s [] = Inr s"
| "release_execs s ((f, r) # rs) =
     (if r = AGGRESSOR then release_execs s rs
      else (let c = currtim (book s); t = txtim_epoch s in
            bnd (process_q s (f_pl f))
              (\<lambda>s'. release_execs (s'\<lparr>book := (book s')\<lparr>currtim := c\<rparr>, txtim_epoch := t\<rparr>) rs)))"

definition process_slated_exec :: "OB \<Rightarrow> mbo \<Rightarrow> payload \<Rightarrow> OB res" where
  "process_slated_exec s r pl =
     bnd (on_book (exec_slate s) (orderID r) (transactTime r) (orderUpdateAction r) (pxd r))
       (\<lambda>(sl, rel). bnd (release_execs (s\<lparr>exec_slate := sl\<rparr>) rel) (\<lambda>s'. process_q s' pl))"

definition dh_add :: "OB \<Rightarrow> mbo \<Rightarrow> u64 \<Rightarrow> u64 \<Rightarrow> OB res" where
  "dh_add s0 r extim sendtim =
     (let s = s0\<lparr>num_add := num_add s0 + 1\<rparr> in
      case ordermap s (orderID r) of
        Some o1 \<Rightarrow>
          if recovery r \<and> pxd r > 0 \<and> displayQty r > 0 then
            bnd (mbo_get_side r)
              (\<lambda>sd. Inr (s\<lparr>ordermap := (ordermap s)
                             (orderID r \<mapsto> o1\<lparr>oi_px := pxd r, oi_sz := displayQty r, oi_side := sd\<rparr>)\<rparr>))
          else Inr s
      | None \<Rightarrow>
          if pxd r \<le> 0 then Inr s
          else
            (let ref = longid (venue r) (bookoid s) in
             bnd (mbo_get_side r)
               (\<lambda>sd. let s1 = s\<lparr>bookoid := bookoid s + 1,
                                ordermap := (ordermap s)(orderID r \<mapsto>
                                  \<lparr>chopid = ref, xoid = orderID r, oi_px = pxd r, oi_sz = displayQty r, oi_side = sd\<rparr>)\<rparr>
                in chk (displayQty r > 0) ''sz''
                    (bnd (mbo_payload s1 r extim sendtim sd ref ADD MT_NONE (displayQty r) (displayQty r) (pxd r)
                            (endOfEvent r) (recovery r))
                      (\<lambda>pl. process_q s1 pl)))))"

definition at_touch_of :: "OB \<Rightarrow> order_info \<Rightarrow> bool" where
  "at_touch_of s o1 =
     (let px = price_ticks (units s) (oi_px o1)
      in if oi_side o1 = BUY then px = best_bid (book s) else px = best_ask (book s))"

definition dh_exec :: "OB \<Rightarrow> mbo_trd \<Rightarrow> u64 \<Rightarrow> u64 \<Rightarrow> OB res" where
  "dh_exec s0 r extim sendtim =
     (let (sl, rel) = advance (exec_slate s0) (t_transactTime r) in
      bnd (release_execs (s0\<lparr>exec_slate := sl\<rparr>) rel)
        (\<lambda>s. case ordermap s (t_orderID r) of
           None \<Rightarrow> Inr s
         | Some o1 \<Rightarrow>
             (let s1 = s\<lparr>num_exec := num_exec s + 1, volumefound := volumefound s + t_lastQty r\<rparr> in
              bnd (make_payload (units s1) (t_handlerendtim r) (oi_side o1) (t_orderID r) (chopid o1) (sym (book s1)) MOD EXEC
                     (t_lastQty r) 0 (oi_px o1) extim sendtim (t_venue r) (t_endOfEvent r) False)
                (\<lambda>p. let (sl2, rel2) = on_trade (exec_slate s1) (t_orderID r) (t_transactTime r) (oi_px o1)
                                          (if oi_side o1 = BUY then sBUY else sSEL) (t_lastQty r)
                                          (at_touch_of s1 o1) (stamp s1 p)
                     in release_execs (s1\<lparr>exec_slate := sl2\<rparr>) rel2))))"

definition px_eq :: "real \<Rightarrow> real \<Rightarrow> bool" where
  "px_eq a b \<longleftrightarrow> \<bar>a - b\<bar> \<le> (if \<bar>a\<bar> < \<bar>b\<bar> then \<bar>b\<bar> else \<bar>a\<bar>) * (1 / 2 ^ 52)"

definition canc_replace :: "OB \<Rightarrow> mbo \<Rightarrow> order_info \<Rightarrow> u64 \<Rightarrow> u64 \<Rightarrow> OB res" where
  "canc_replace s r o1 extim sendtim =
     bnd (mbo_payload s r extim sendtim (oi_side o1) (chopid o1) MOD CANCD 0 0 (oi_px o1) False False)
       (\<lambda>pl1. bnd (process_slated_exec s r pl1)
         (\<lambda>s1. let ref = longid (venue r) (bookoid s1); s2 = s1\<lparr>bookoid := bookoid s1 + 1\<rparr> in
            bnd (if have_side r then mbo_get_side r else Inr (oi_side o1))
              (\<lambda>sd. bnd (mbo_payload s2 r extim sendtim sd ref ADD MT_NONE (displayQty r) (displayQty r)
                           (if have_side r then pxd r else oi_px o1) (endOfEvent r) False)
                 (\<lambda>pl2. bnd (process_q s2 pl2)
                    (\<lambda>s3. let o2 = o1\<lparr>chopid := ref, xoid := orderID r, oi_sz := displayQty r\<rparr> in
                       if have_side r
                       then chk (oi_side o2 = sd) ''side has changed''
                              (Inr (s3\<lparr>ordermap := (ordermap s3)(orderID r \<mapsto> o2\<lparr>oi_px := pxd r\<rparr>)\<rparr>))
                       else Inr (s3\<lparr>ordermap := (ordermap s3)(orderID r \<mapsto> o2)\<rparr>))))))"

definition dh_canc :: "OB \<Rightarrow> mbo \<Rightarrow> u64 \<Rightarrow> u64 \<Rightarrow> OB res" where
  "dh_canc s r extim sendtim =
     (case ordermap s (orderID r) of
        None \<Rightarrow> Inr s
      | Some o1 \<Rightarrow>
          chk (\<not> have_side r \<longrightarrow> displayQty r \<le> oi_sz o1) ''sz''
           (if displayQty r > oi_sz o1 \<or> (have_side r \<and> \<not> px_eq (pxd r) (oi_px o1))
            then canc_replace s r o1 extim sendtim
            else
              (let s1 = s\<lparr>ordermap := (ordermap s)(orderID r \<mapsto> o1\<lparr>oi_sz := displayQty r\<rparr>)\<rparr> in
               bnd (mbo_payload s1 r extim sendtim (oi_side o1) (chopid o1) MOD CANC 0 (displayQty r) (oi_px o1)
                      (endOfEvent r) (recovery r))
                 (\<lambda>pl. process_slated_exec s1 r pl))))"

definition dh_cancd :: "OB \<Rightarrow> mbo \<Rightarrow> u64 \<Rightarrow> u64 \<Rightarrow> OB res" where
  "dh_cancd s r extim sendtim =
     (case ordermap s (orderID r) of
        None \<Rightarrow> Inr s
      | Some o1 \<Rightarrow>
          bnd (mbo_payload s r extim sendtim (oi_side o1) (chopid o1) MOD CANCD 0 0 (oi_px o1)
                 (endOfEvent r) (recovery r))
            (\<lambda>pl. bnd (process_slated_exec s r pl)
               (\<lambda>s'. Inr (s'\<lparr>ordermap := (ordermap s')(orderID r := None)\<rparr>))))"

text \<open>\<open>cross_check\<close> at the end of a burst only reports: it keeps the payloads for the report.\<close>

definition cross_check :: "OB \<Rightarrow> payload \<Rightarrow> OB" where
  "cross_check s g =
     (let b = book s in
      if \<not> do_cross_check b then s
      else if best_bid b > best_ask b then s\<lparr>crossed_data := crossed_data s @ [g]\<rparr>
      else if best_bid b = best_ask b then s
      else s\<lparr>crossed_data := []\<rparr>)"

definition dh_control :: "OB \<Rightarrow> md \<Rightarrow> u32 \<Rightarrow> OB res" where
  "dh_control s mev mkt =
     process_market_data s (stamp s (payload_init\<lparr>p_sym := sym (book s), p_mev := mev, p_mkt := mkt\<rparr>)) None"

definition dh_eob :: "OB \<Rightarrow> OB res" where
  "dh_eob s =
     (if have_new_payload s then
        (case last_good_payload s of
           None \<Rightarrow> Inl (Undefined ''null dereference'')
         | Some g \<Rightarrow> dh_control (if p_eoe g then cross_check s g else s) EOBURST 0)
      else dh_control s EOBURST 0)"

definition dh_mbo :: "OB \<Rightarrow> mbo \<Rightarrow> u64 \<Rightarrow> u64 \<Rightarrow> bool \<Rightarrow> OB res" where
  "dh_mbo s r extim sendtim bad =
     chk (recovery r \<longrightarrow> orderUpdateAction r = 0) ''must have add for recovery''
      (if orderUpdateAction r = 0 \<and> \<not> bad then dh_add s r extim sendtim
       else if orderUpdateAction r = 1 \<and> \<not> bad then dh_canc s r extim sendtim
       else if orderUpdateAction r = 2 \<or> bad then dh_cancd s r extim sendtim
       else sngh)"

definition data_handler :: "(u64 \<Rightarrow> bool) \<Rightarrow> OB \<Rightarrow> Data \<Rightarrow> OB res" where
  "data_handler brk s0 m =
     bnd (dh_filter (dh_first brk s0 (d_l3 m)) (d_l3 m) (israw m))
       (\<lambda>(s, k). case k of
          None \<Rightarrow> Inr s
        | Some (extim, sendtim, bad) \<Rightarrow>
            (case d_l3 m of
               MBO r \<Rightarrow>
                 if is_option s then Inr s
                 else chk (israw m) ''must be raw''
                  (bnd (dh_recovery s r extim) (\<lambda>(s1, go). if go then dh_mbo s1 r extim sendtim bad else Inr s1))
             | l \<Rightarrow>
                 if \<not> israw m then dh_sim s (d_payload m) (d_sender m)
                 else (case l of
                         MBO_TRD r \<Rightarrow> dh_exec s r extim sendtim
                       | CHR_REC v \<Rightarrow> dh_control s CLEAR v
                       | GAP_REC v \<Rightarrow> dh_control s GAP v
                       | EOB \<Rightarrow> dh_eob s
                       | _ \<Rightarrow> sngh)))"

end
