(* ===== verification/Mdp3_Handler.thy ===== *)
theory Mdp3_Handler
  imports OB_Feed
begin

text \<open>
  \<open>handler_if\<close> (\<open>src/mdp3/include/mdp3/handler_if.hpp\<close>): the callbacks the decoder of a channel
  calls. Each one turns the fields of a message into the record the rest of the program knows,
  sends it to the recorder \<open>binrec\<close> and to the order book of the instrument. Two tables route
  the records: from the exchange's security id to our asset, filled by the instrument
  definitions, and from an order id to its security, since a trade record names the order only.

  The records of \<open>wire\<close> are the alternatives of \<open>bfile::l3_t\<close> the handler builds; those that a
  book reads extend the records of \<open>OB_Feed\<close>. The instrument definitions copy some forty
  descriptive fields into the record for \<open>binrec\<close> only; the model keeps the fields the handler
  itself reads. The macro \<open>mbp\<close> is not defined and \<open>filter_mbp_\<close> is never cleared, so the
  callbacks for aggregated prices do nothing. Log lines and the latency samples are left out.
\<close>

section \<open>Records and state\<close>

record wire_mbo = mbo +
  lastQuote :: bool
  w_priority :: u64
  ingress_qlen :: u32
  pkt_entry_idx :: u32
  pkt_seq_num :: u32

record wire_trd = mbo_trd +
  lastTrade :: bool
  t_ingress_qlen :: u32
  t_pkt_entry_idx :: u32
  t_pkt_seq_num :: u32

record mbo_snap =
  sn_lastSeqNum :: u32
  sn_numReports :: u32
  sn_msgSeqNum :: u32
  sn_currentChunk :: u32
  sn_numChunks :: u32
  sn_securityID :: int
  sn_displayQty :: u32
  sn_pxd :: real
  sn_side :: char
  sn_priority :: u64
  sn_orderID :: u64

record instr_def =
  id_sym :: string
  id_asset :: string
  id_cfi :: string
  id_securityID :: int
  id_action :: char
  id_activation :: u64
  id_group :: string
  id_mpi_mantissa :: int
  id_mpi_exponent :: int

datatype wire =
    WMbo wire_mbo
  | WTrd wire_trd
  | WSnap mbo_snap
  | WFdf instr_def
  | WOdf instr_def
  | WSdf instr_def
  | WLim int real real real string
  | WSst int int int int u64 u64
  | WVol int int char int u64 u64
  | WGap u32
  | WChr u32
  | WEop u32 u64
  | WEob

datatype h_target = Binrec | ToBook actor

record hasset =
  ha_id :: int
  ha_name :: string
  ha_sec_id :: u32
  ha_activation :: u64
  ha_cfi :: string
  ha_group :: string
  ha_units :: real
  ha_bo_spread :: int
  ha_maxpx :: int
  ha_option :: bool

record handler =
  treas_only :: bool
  xchg :: u32
  binrec :: bool
  mbo_order_books :: "actor option list"
  instruments :: "int list"
  max_mbp_level :: u32
  mbo_disabled :: bool
  securityid_to_asset_id :: "int \<Rightarrow> int option"
  orderid_to_securityid :: "u64 \<Rightarrow> int option"
  h_ingress_qlen :: u32
  h_entry_idx :: u32
  assets :: "string \<Rightarrow> hasset option"
  sec_id_to_asset :: "int \<Rightarrow> string option"
  h_sends :: "(h_target \<times> wire) list"

definition handler_init :: "bool \<Rightarrow> u32 \<Rightarrow> bool \<Rightarrow> actor option list \<Rightarrow> (string \<Rightarrow> hasset option) \<Rightarrow> handler" where
  "handler_init treas x rec books as =
     \<lparr>treas_only = treas, xchg = x, binrec = rec, mbo_order_books = books, instruments = [],
      max_mbp_level = 1000, mbo_disabled = False, securityid_to_asset_id = (\<lambda>_. None),
      orderid_to_securityid = (\<lambda>_. None), h_ingress_qlen = 0, h_entry_idx = 0,
      assets = as, sec_id_to_asset = (\<lambda>_. None), h_sends = []\<rparr>"

section \<open>Sending\<close>

definition to_price :: "int \<Rightarrow> int \<Rightarrow> real" where
  "to_price m e = (if e \<ge> 0 then real_of_int m * 10 ^ nat e else real_of_int m / 10 ^ nat (- e))"

definition record_it :: "wire \<Rightarrow> handler \<Rightarrow> handler" where
  "record_it w h = (if binrec h then h\<lparr>h_sends := h_sends h @ [(Binrec, w)]\<rparr> else h)"

definition route_of :: "handler \<Rightarrow> int \<Rightarrow> actor option" where
  "route_of h sec =
     (case securityid_to_asset_id h sec of
        None \<Rightarrow> None
      | Some a \<Rightarrow> if 0 \<le> a \<and> nat a < length (mbo_order_books h) then mbo_order_books h ! nat a else None)"

definition to_book :: "int \<Rightarrow> wire \<Rightarrow> handler \<Rightarrow> handler" where
  "to_book sec w h =
     (case route_of h sec of
        None \<Rightarrow> h
      | Some b \<Rightarrow> h\<lparr>h_sends := h_sends h @ [(ToBook b, w)]\<rparr>)"

definition live_books :: "handler \<Rightarrow> actor list" where
  "live_books h = [b. Some b \<leftarrow> mbo_order_books h]"

definition to_all :: "wire \<Rightarrow> handler \<Rightarrow> handler" where
  "to_all w h = h\<lparr>h_sends := h_sends h @ map (\<lambda>b. (ToBook b, w)) (live_books h)\<rparr>"

section \<open>Settings\<close>

definition set_max_mbp_level :: "u32 \<Rightarrow> handler \<Rightarrow> handler" where
  "set_max_mbp_level l h = h\<lparr>max_mbp_level := l\<rparr>"

definition disable_mbo :: "bool \<Rightarrow> handler \<Rightarrow> handler" where
  "disable_mbo d h = h\<lparr>mbo_disabled := d\<rparr>"

definition set_ingress_qlen :: "u32 \<Rightarrow> handler \<Rightarrow> handler" where
  "set_ingress_qlen n h = h\<lparr>h_ingress_qlen := n\<rparr>"

section \<open>Orders and trades\<close>

record mbo_args =
  a_recv_time :: u64
  a_seq :: u32
  a_transactTime :: u64
  a_sendingTime :: u64
  a_securityID :: int
  a_px_mantissa :: int
  a_px_exponent :: int
  a_side :: char
  a_displayQty :: u32
  a_orderID :: u64
  a_action :: int
  a_priority :: u64
  a_lastQuote :: bool
  a_endOfEvent :: bool
  a_recovery :: bool

definition mbo_record :: "mbo_args \<Rightarrow> handler \<Rightarrow> wire_mbo" where
  "mbo_record a h =
     \<lparr>venue = xchg h, transactTime = a_transactTime a, sendingTime = a_sendingTime a,
      mbo_handlerendtim = a_recv_time a, orderUpdateAction = a_action a,
      securityID = a_securityID a, orderID = a_orderID a,
      pxd = to_price (a_px_mantissa a) (a_px_exponent a), displayQty = a_displayQty a,
      mbo_side = a_side a, endOfEvent = a_endOfEvent a, recovery = a_recovery a,
      lastQuote = a_lastQuote a, w_priority = a_priority a, ingress_qlen = h_ingress_qlen h,
      pkt_entry_idx = h_entry_idx h, pkt_seq_num = a_seq a\<rparr>"

definition note_order :: "int \<Rightarrow> u64 \<Rightarrow> int \<Rightarrow> handler \<Rightarrow> handler" where
  "note_order act oid sec h =
     (if act = 0 then h\<lparr>orderid_to_securityid := (orderid_to_securityid h)(oid := Some sec)\<rparr>
      else if act = 2 then h\<lparr>orderid_to_securityid := (orderid_to_securityid h)(oid := None)\<rparr>
      else h)"

definition mbo_update :: "mbo_args \<Rightarrow> handler \<Rightarrow> handler" where
  "mbo_update a h =
     (if mbo_disabled h then h
      else
        let r = mbo_record a h;
            h1 = note_order (a_action a) (a_orderID a) (a_securityID a)
                   (h\<lparr>h_entry_idx := h_entry_idx h + 1\<rparr>)
        in to_book (a_securityID a) (WMbo r) (record_it (WMbo r) h1))"

record trd_args =
  ta_recv_time :: u64
  ta_seq :: u32
  ta_transactTime :: u64
  ta_sendingTime :: u64
  ta_lastQty :: u32
  ta_orderID :: u64
  ta_lastTrade :: bool
  ta_endOfEvent :: bool

definition trd_record :: "trd_args \<Rightarrow> handler \<Rightarrow> wire_trd" where
  "trd_record a h =
     \<lparr>t_venue = xchg h, t_transactTime = ta_transactTime a, t_sendingTime = ta_sendingTime a,
      t_handlerendtim = ta_recv_time a, t_lastQty = ta_lastQty a, t_orderID = ta_orderID a,
      t_endOfEvent = ta_endOfEvent a, lastTrade = ta_lastTrade a,
      t_ingress_qlen = h_ingress_qlen h, t_pkt_entry_idx = h_entry_idx h,
      t_pkt_seq_num = ta_seq a\<rparr>"

definition mbo_trade :: "trd_args \<Rightarrow> handler \<Rightarrow> handler" where
  "mbo_trade a h =
     (if mbo_disabled h then h
      else
        let r = trd_record a h;
            h1 = record_it (WTrd r) (h\<lparr>h_entry_idx := h_entry_idx h + 1\<rparr>)
        in case orderid_to_securityid h1 (ta_orderID a) of
             None \<Rightarrow> h1
           | Some sec \<Rightarrow> to_book sec (WTrd r) h1)"

text \<open>An order of a snapshot, sent to its book as a recovery record; its action is 0, a new order.\<close>

definition snapshot_order :: "u64 \<Rightarrow> u64 \<Rightarrow> int \<Rightarrow> u32 \<Rightarrow> int \<Rightarrow> int \<Rightarrow> char \<Rightarrow> u64 \<Rightarrow> u64
    \<Rightarrow> handler \<Rightarrow> handler" where
  "snapshot_order txt snd_t sec qty pm pe side prio oid h =
     (let r = \<lparr>venue = xchg h, transactTime = txt, sendingTime = snd_t, mbo_handlerendtim = 0,
               orderUpdateAction = 0, securityID = sec, orderID = oid, pxd = to_price pm pe,
               displayQty = qty, mbo_side = side, endOfEvent = False, recovery = True,
               lastQuote = False, w_priority = prio, ingress_qlen = 0, pkt_entry_idx = 0,
               pkt_seq_num = 0\<rparr>;
          h1 = h\<lparr>orderid_to_securityid := (orderid_to_securityid h)(oid := Some sec)\<rparr>
      in to_book sec (WMbo r) (record_it (WMbo r) h1))"

text \<open>The recorders' form of the same, which no book sees.\<close>

definition snapshot_order_NR :: "mbo_snap \<Rightarrow> handler \<Rightarrow> handler" where
  "snapshot_order_NR r h = record_it (WSnap r) h"

section \<open>Instruments and states of the channel\<close>

text \<open>\<open>RefData::update_sec_id\<close> on the asset of that name.\<close>

definition update_sec_id :: "int \<Rightarrow> string \<Rightarrow> hasset \<Rightarrow> handler \<Rightarrow> handler" where
  "update_sec_id sec nm a h =
     h\<lparr>sec_id_to_asset := (sec_id_to_asset h)(sec := Some nm),
       assets := (assets h)(nm := Some (a\<lparr>ha_sec_id := word_of_int sec\<rparr>))\<rparr>"

definition map_security :: "int \<Rightarrow> int \<Rightarrow> handler \<Rightarrow> handler" where
  "map_security sec aid h = h\<lparr>securityid_to_asset_id := (securityid_to_asset_id h)(sec := Some aid)\<rparr>"

definition note_instrument :: "int \<Rightarrow> handler \<Rightarrow> handler" where
  "note_instrument sec h = h\<lparr>instruments := List.insert sec (instruments h)\<rparr>"

definition max_px :: "real \<Rightarrow> int res" where
  "max_px unit = (if unit = 0 then Inl (Undefined ''conversion out of range'') else trunc32 (180 / unit))"

text \<open>The fields of the asset a definition overwrites, for futures with the activation time.\<close>

definition describe :: "bool \<Rightarrow> u64 option \<Rightarrow> instr_def \<Rightarrow> hasset \<Rightarrow> hasset res" where
  "describe treas act d a =
     (let unit = to_price (id_mpi_mantissa d) (id_mpi_exponent d);
          a1 = a\<lparr>ha_cfi := take 6 (id_cfi d), ha_group := id_group d, ha_units := unit,
                ha_activation := (case act of None \<Rightarrow> ha_activation a | Some t \<Rightarrow> t),
                ha_bo_spread := 1\<rparr>
      in if treas then bnd (max_px unit) (\<lambda>m. Inr (a1\<lparr>ha_maxpx := m\<rparr>)) else Inr a1)"

definition set_asset :: "string \<Rightarrow> hasset \<Rightarrow> handler \<Rightarrow> handler" where
  "set_asset nm a h = h\<lparr>assets := (assets h)(nm := Some a)\<rparr>"

definition lookup_name :: "instr_def \<Rightarrow> handler \<Rightarrow> string" where
  "lookup_name d h =
     (if treas_only h then (if assets h (id_sym d) = None then id_asset d else id_sym d)
      else id_sym d)"

definition future_definition :: "instr_def \<Rightarrow> handler \<Rightarrow> handler res" where
  "future_definition d h =
     (let nm = lookup_name d h
      in if id_action d = CHR ''A'' \<or> id_action d = CHR ''M'' then
           (let h1 = note_instrument (id_securityID d) h
            in case assets h1 nm of
                 None \<Rightarrow> Inr (record_it (WFdf d) h1)
               | Some a \<Rightarrow>
                   let h2 = map_security (id_securityID d) (ha_id a) h1
                   in if ha_sec_id a \<noteq> 0 \<and> ha_activation a > id_activation d then Inr h2
                      else
                        let h3 = update_sec_id (id_securityID d) nm a h2
                        in bnd (describe (treas_only h) (Some (id_activation d)) d
                                  (a\<lparr>ha_sec_id := word_of_int (id_securityID d)\<rparr>))
                             (\<lambda>a1. chk (ha_name a1 = nm) ''sym mismatch''
                                (Inr (record_it (WFdf d) (set_asset nm a1 h3)))))
         else if id_action d = CHR ''D'' then Inr (record_it (WFdf d) h)
         else Inl (Assert ''abort''))"

definition option_definition :: "instr_def \<Rightarrow> handler \<Rightarrow> handler res" where
  "option_definition d h =
     (if id_action d = CHR ''A'' \<or> id_action d = CHR ''M'' then
        (let h1 = note_instrument (id_securityID d) h
         in case assets h1 (id_sym d) of
              None \<Rightarrow> Inr (record_it (WOdf d) h1)
            | Some a \<Rightarrow>
                let h2 = map_security (id_securityID d) (ha_id a)
                           (update_sec_id (id_securityID d) (id_sym d) a h1)
                in bnd (describe (treas_only h) None d (a\<lparr>ha_sec_id := word_of_int (id_securityID d)\<rparr>))
                     (\<lambda>a1. chk (ha_name a1 = id_sym d) ''sym mismatch''
                        (Inr (record_it (WOdf d) (set_asset (id_sym d) a1 h2)))))
      else if id_action d = CHR ''D'' then Inr (record_it (WOdf d) h)
      else Inl (Assert ''securityUpdateAction''))"

definition spread_definition :: "instr_def \<Rightarrow> handler \<Rightarrow> handler res" where
  "spread_definition d h =
     (if id_action d = CHR ''A'' \<or> id_action d = CHR ''M''
      then Inr (record_it (WSdf d) (note_instrument (id_securityID d) h))
      else if id_action d = CHR ''D'' then Inr (record_it (WSdf d) h)
      else Inl (Assert ''securityUpdateAction''))"

definition limits_banding :: "int \<Rightarrow> int \<times> int \<Rightarrow> int \<times> int \<Rightarrow> int \<times> int \<Rightarrow> string \<Rightarrow> handler \<Rightarrow> handler" where
  "limits_banding sec hi lo var ent h =
     record_it (WLim sec (to_price (fst hi) (snd hi)) (to_price (fst lo) (snd lo))
                  (to_price (fst var) (snd var)) ent) h"

definition security_status :: "u64 \<Rightarrow> u64 \<Rightarrow> int \<Rightarrow> int \<Rightarrow> int \<Rightarrow> int \<Rightarrow> handler \<Rightarrow> handler" where
  "security_status txt snd_t sec halt st ev h =
     (let w = WSst sec halt st ev txt snd_t in record_it w (to_all w h))"

definition h_gap :: "handler \<Rightarrow> handler" where
  "h_gap h = (let w = WGap (xchg h) in record_it w (to_all w h))"

definition channel_reset :: "handler \<Rightarrow> handler" where
  "channel_reset h = (let w = WChr (xchg h) in record_it w (to_all w h))"

definition data_recovery_restart :: "handler \<Rightarrow> handler" where
  "data_recovery_restart h = channel_reset h"

definition refresh_volume :: "u64 \<Rightarrow> u64 \<Rightarrow> int \<Rightarrow> int \<Rightarrow> char \<Rightarrow> int \<Rightarrow> handler \<Rightarrow> handler" where
  "refresh_volume txt snd_t sec vol ty act h = record_it (WVol sec vol ty act txt snd_t) h"

definition end_of_packet :: "u32 \<Rightarrow> u64 \<Rightarrow> handler \<Rightarrow> handler" where
  "end_of_packet sn t h = record_it (WEop sn t) (h\<lparr>h_entry_idx := 0\<rparr>)"

text \<open>\<open>BurstEnd\<close> looks the asset of a book up by its index; \<open>asset_by_id\<close> is that lookup.\<close>

definition burst_end :: "(nat \<Rightarrow> hasset option) \<Rightarrow> handler \<Rightarrow> handler" where
  "burst_end asset_by_id h =
     (if mbo_disabled h then h
      else
        let bs = concat (map (\<lambda>i. case mbo_order_books h ! i of
                                    None \<Rightarrow> []
                                  | Some b \<Rightarrow> (case asset_by_id i of
                                                 None \<Rightarrow> []
                                               | Some a \<Rightarrow> if ha_option a then [] else [b]))
                    [0..<length (mbo_order_books h)])
        in record_it WEob (h\<lparr>h_sends := h_sends h @ map (\<lambda>b. (ToBook b, WEob)) bs\<rparr>))"

section \<open>What a book reads\<close>

text \<open>The record as \<open>data_handler\<close> of a book sees it: the fields stamped on for measurements drop out.\<close>

fun to_l3 :: "wire \<Rightarrow> l3" where
  "to_l3 (WMbo r) = MBO (mbo.truncate r)"
| "to_l3 (WTrd r) = MBO_TRD (mbo_trd.truncate r)"
| "to_l3 (WSst sec halt st ev txt snd_t) = SST txt st"
| "to_l3 (WGap x) = GAP_REC x"
| "to_l3 (WChr x) = CHR_REC x"
| "to_l3 WEob = EOB"
| "to_l3 (WVol sec vol ty act txt snd_t) = VOL txt"
| "to_l3 _ = L3_other 0"

end
