(* ===== verification/Mdp3_Decoder.thy ===== *)
theory Mdp3_Decoder
  imports Mdp3_Sequence Mdp3_Handler
begin

text \<open>
  \<open>mdp3::DataDecoder\<close> (\<open>src/mdp3/include/mdp3/DataDecoder.hpp\<close>) and the message decoders of
  \<open>src/mdp3/include/mdp3/msg_decoder.hpp\<close>: the walk over the messages of one packet, the dispatch
  on the template number, and for each template the callbacks it makes, in order.

  The classes that read the fields of a message (\<open>mdp3_sbe\<close>) are generated from the exchange's
  schema and are not in the repository. They are the argument \<open>S\<close>: for each template a function
  from the packet, the offset of the message, its block length, version and size to the message,
  or \<open>None\<close> when \<open>wrapForDecode\<close> throws, which ends the process since the handler is \<open>noexcept\<close>.
  A repeating group is read with one cursor: \<open>Group es t\<close> yields \<open>es\<close> and then, if \<open>t\<close>, throws
  instead of ending. Reading a packet past the end of its array has no meaning in C++.
\<close>

section \<open>Reading a packet\<close>

definition le_nat :: "nat \<Rightarrow> byte list \<Rightarrow> nat \<Rightarrow> nat" where
  "le_nat n p off = horner_sum unat 256 (take n (drop off p))"

definition load :: "nat \<Rightarrow> byte list \<Rightarrow> nat \<Rightarrow> nat res" where
  "load n p off =
     (if off + n \<le> length p then Inr (le_nat n p off) else Inl (Undefined ''read past the buffer''))"

section \<open>Messages\<close>

datatype 'a group = Group (g_entries: "'a list") (g_throws: bool)

record entry46 =
  e_securityID :: int
  e_px_mantissa :: int
  e_px_exponent :: int
  e_side :: char

record oid46 =
  o_displayQty :: u32
  o_orderID :: u64
  o_action :: int
  o_priority :: u64
  o_reference :: nat

record book46 =
  b_transactTime :: u64
  b_lastQuote :: bool
  b_endOfEvent :: bool
  b_recovery :: bool
  b_entries :: "entry46 group"
  b_oids :: "oid46 group"

record entry47 =
  f_displayQty :: u32
  f_orderID :: u64
  f_action :: int
  f_side :: char
  f_priority :: u64
  f_px_mantissa :: int
  f_px_exponent :: int
  f_securityID :: int

record book47 =
  c_transactTime :: u64
  c_lastQuote :: bool
  c_endOfEvent :: bool
  c_recovery :: bool
  c_entries :: "entry47 group"

record trade48 =
  t8_transactTime :: u64
  t8_lastTrade :: bool
  t8_endOfEvent :: bool
  t8_entries :: "int group"
  t8_oids :: "(u32 \<times> u64) group"

record limit50 =
  l_securityID :: int
  l_high :: "int \<times> int"
  l_low :: "int \<times> int"
  l_var :: "int \<times> int"
  l_entry :: string

record status30 =
  s_transactTime :: u64
  s_securityID :: int
  s_halt :: int
  s_status :: int
  s_event :: int

record vol37 =
  v_transactTime :: u64
  v_entries :: "(int \<times> int \<times> char \<times> int) group"

text \<open>An instrument definition: the fields, the events and whether a later group throws.\<close>

record def_msg =
  d_fields :: instr_def
  d_events :: "(u64 \<times> int) group"
  d_late_throw :: bool

type_synonym 'm reader = "byte list \<Rightarrow> nat \<Rightarrow> nat \<Rightarrow> nat \<Rightarrow> nat \<Rightarrow> 'm option"

record sbe =
  Book46 :: "book46 reader"
  Trade48 :: "trade48 reader"
  Daily49 :: "unit reader"
  Session51 :: "unit reader"
  Spread56 :: "def_msg reader"
  Option55 :: "def_msg reader"
  Future54 :: "def_msg reader"
  Fixed57 :: "def_msg reader"
  Reset4 :: "unit group reader"
  Limits50 :: "limit50 group reader"
  Status30 :: "status30 reader"
  Book47 :: "book47 reader"
  Volume37 :: "vol37 reader"
  Quote39 :: "unit reader"

section \<open>The message decoders\<close>

text \<open>
  A decoder returns the handler after its callbacks and whether it ran to its end; \<open>False\<close> means
  a \<open>runtime_error\<close> was caught.
\<close>

definition over :: "('a \<Rightarrow> handler \<Rightarrow> handler res) \<Rightarrow> 'a group \<Rightarrow> handler \<Rightarrow> (handler \<times> bool) res" where
  "over f g h =
     bnd (fold (\<lambda>e r. bnd r (f e)) (g_entries g) (Inr h)) (\<lambda>h1. Inr (h1, \<not> g_throws g))"

definition over_oid :: "u64 \<Rightarrow> u32 \<Rightarrow> u64 \<Rightarrow> book46 \<Rightarrow> oid46 \<Rightarrow> handler \<Rightarrow> handler res" where
  "over_oid ts sn st m o1 h =
     (if o_reference o1 = 0 \<or> length (g_entries (b_entries m)) < o_reference o1
      then Inl (Undefined ''vector index'')
      else
        let e = g_entries (b_entries m) ! (o_reference o1 - 1)
        in Inr (mbo_update
                  \<lparr>a_recv_time = ts, a_seq = sn, a_transactTime = b_transactTime m, a_sendingTime = st,
                   a_securityID = e_securityID e, a_px_mantissa = e_px_mantissa e,
                   a_px_exponent = e_px_exponent e, a_side = e_side e, a_displayQty = o_displayQty o1,
                   a_orderID = o_orderID o1, a_action = o_action o1, a_priority = o_priority o1,
                   a_lastQuote = b_lastQuote m, a_endOfEvent = b_endOfEvent m,
                   a_recovery = b_recovery m\<rparr> h))"

definition decode46 :: "u64 \<Rightarrow> u32 \<Rightarrow> u64 \<Rightarrow> book46 \<Rightarrow> handler \<Rightarrow> (handler \<times> bool) res" where
  "decode46 ts sn st m h =
     (if g_throws (b_entries m) then Inr (h, False) else over (over_oid ts sn st m) (b_oids m) h)"

definition decode48 :: "u64 \<Rightarrow> u32 \<Rightarrow> u64 \<Rightarrow> trade48 \<Rightarrow> handler \<Rightarrow> (handler \<times> bool) res" where
  "decode48 ts sn st m h =
     (if g_throws (t8_entries m) then Inr (h, False)
      else over (\<lambda>(q, oid) h1. Inr (mbo_trade
             \<lparr>ta_recv_time = ts, ta_seq = sn, ta_transactTime = t8_transactTime m, ta_sendingTime = st,
              ta_lastQty = q, ta_orderID = oid, ta_lastTrade = t8_lastTrade m,
              ta_endOfEvent = t8_endOfEvent m\<rparr> h1)) (t8_oids m) h)"

definition decode47 :: "u64 \<Rightarrow> u32 \<Rightarrow> u64 \<Rightarrow> book47 \<Rightarrow> handler \<Rightarrow> (handler \<times> bool) res" where
  "decode47 ts sn st m h =
     over (\<lambda>e h1. Inr (mbo_update
             \<lparr>a_recv_time = ts, a_seq = sn, a_transactTime = c_transactTime m, a_sendingTime = st,
              a_securityID = f_securityID e, a_px_mantissa = f_px_mantissa e,
              a_px_exponent = f_px_exponent e, a_side = f_side e, a_displayQty = f_displayQty e,
              a_orderID = f_orderID e, a_action = f_action e, a_priority = f_priority e,
              a_lastQuote = c_lastQuote m, a_endOfEvent = c_endOfEvent m,
              a_recovery = c_recovery m\<rparr> h1)) (c_entries m) h"

definition decode4 :: "unit group \<Rightarrow> handler \<Rightarrow> (handler \<times> bool) res" where
  "decode4 m h = over (\<lambda>_ h1. Inr (channel_reset h1)) m h"

definition decode50 :: "limit50 group \<Rightarrow> handler \<Rightarrow> (handler \<times> bool) res" where
  "decode50 m h =
     over (\<lambda>e h1. Inr (limits_banding (l_securityID e) (l_high e) (l_low e) (l_var e) (l_entry e) h1)) m h"

definition decode30 :: "u64 \<Rightarrow> status30 \<Rightarrow> handler \<Rightarrow> (handler \<times> bool) res" where
  "decode30 st m h =
     Inr (security_status (s_transactTime m) st (s_securityID m) (s_halt m) (s_status m) (s_event m) h, True)"

definition decode37 :: "u64 \<Rightarrow> vol37 \<Rightarrow> handler \<Rightarrow> (handler \<times> bool) res" where
  "decode37 st m h =
     over (\<lambda>(vol, sec, ty, act) h1. Inr (refresh_volume (v_transactTime m) st sec vol ty act h1)) (v_entries m) h"

text \<open>The events of a definition: 5 is the activation, 7 the expiration, any other aborts.\<close>

fun activation_of :: "(u64 \<times> int) list \<Rightarrow> u64 \<Rightarrow> u64 res" where
  "activation_of [] a = Inr a"
| "activation_of ((t, ev) # es) a =
     (if ev = 5 then activation_of es t
      else if ev = 7 then activation_of es a
      else sngh)"

definition decode_def :: "(instr_def \<Rightarrow> handler \<Rightarrow> handler res) \<Rightarrow> def_msg \<Rightarrow> handler \<Rightarrow> (handler \<times> bool) res" where
  "decode_def cb m h =
     bnd (activation_of (g_entries (d_events m)) 0) (\<lambda>act.
       if g_throws (d_events m) \<or> d_late_throw m then Inr (h, False)
       else bnd (cb ((d_fields m)\<lparr>id_activation := act\<rparr>) h) (\<lambda>h1. Inr (h1, True)))"

section \<open>One message\<close>

definition wrapped :: "'m option \<Rightarrow> ('m \<Rightarrow> 'a res) \<Rightarrow> 'a res" where
  "wrapped r f = (case r of None \<Rightarrow> Inl (Assert ''terminate'') | Some m \<Rightarrow> f m)"

text \<open>A caught exception fails the packet for the critical templates and is ignored for the others.\<close>

definition critical :: "(handler \<times> bool) res \<Rightarrow> bool \<Rightarrow> (bool \<times> bool \<times> handler) res" where
  "critical r rst = bnd r (\<lambda>(h, ok). Inr (ok, rst, h))"

definition tolerant :: "(handler \<times> bool) res \<Rightarrow> bool \<Rightarrow> (bool \<times> bool \<times> handler) res" where
  "tolerant r rst = bnd r (\<lambda>(h, ok). Inr (True, rst, h))"

definition decode_one :: "sbe \<Rightarrow> byte list \<Rightarrow> nat \<Rightarrow> nat \<Rightarrow> u64 \<Rightarrow> u32 \<Rightarrow> u64 \<Rightarrow> bool \<Rightarrow> handler
    \<Rightarrow> (bool \<times> bool \<times> handler) res" where
  "decode_one S p off msz ts sn st rst h =
     bnd (load 2 p (off + 2)) (\<lambda>blk.
     bnd (load 2 p (off + 4)) (\<lambda>tmpl.
     bnd (load 2 p (off + 6)) (\<lambda>schema.
     bnd (load 2 p (off + 8)) (\<lambda>ver.
     chk (schema = 1) ''wrong schema id''
       (if tmpl = 46 then wrapped (Book46 S p off blk ver msz) (\<lambda>m. critical (decode46 ts sn st m h) rst)
        else if tmpl = 48 then wrapped (Trade48 S p off blk ver msz) (\<lambda>m. critical (decode48 ts sn st m h) rst)
        else if tmpl = 49 then wrapped (Daily49 S p off blk ver msz) (\<lambda>m. Inr (True, rst, h))
        else if tmpl = 51 then wrapped (Session51 S p off blk ver msz) (\<lambda>m. Inr (True, rst, h))
        else if tmpl = 56 then wrapped (Spread56 S p off blk ver msz) (\<lambda>m. tolerant (decode_def spread_definition m h) rst)
        else if tmpl = 55 then wrapped (Option55 S p off blk ver msz) (\<lambda>m. tolerant (decode_def option_definition m h) rst)
        else if tmpl = 54 then wrapped (Future54 S p off blk ver msz) (\<lambda>m. tolerant (decode_def future_definition m h) rst)
        else if tmpl = 57 then wrapped (Fixed57 S p off blk ver msz) (\<lambda>m. tolerant (decode_def future_definition m h) rst)
        else if tmpl = 4 then wrapped (Reset4 S p off blk ver msz) (\<lambda>m. critical (decode4 m h) True)
        else if tmpl = 50 then wrapped (Limits50 S p off blk ver msz) (\<lambda>m. tolerant (decode50 m h) rst)
        else if tmpl = 30 then wrapped (Status30 S p off blk ver msz) (\<lambda>m. tolerant (decode30 st m h) rst)
        else if tmpl = 47 then wrapped (Book47 S p off blk ver msz) (\<lambda>m. critical (decode47 ts sn st m h) rst)
        else if tmpl = 37 then wrapped (Volume37 S p off blk ver msz) (\<lambda>m. tolerant (decode37 st m h) rst)
        else if tmpl = 39 then wrapped (Quote39 S p off blk ver msz) (\<lambda>m. Inr (True, rst, h))
        else Inr (True, rst, h))))))"

section \<open>One packet\<close>

text \<open>
  The loop of \<open>mbo_data\<close>. A size of 0 fails the packet, so each turn moves the offset on and the
  loop ends.
\<close>

lemma bnd_fun_cong [fundef_cong]:
  "r = r' \<Longrightarrow> (\<And>x. r' = Inr x \<Longrightarrow> f x = g x) \<Longrightarrow> bnd r f = bnd r' g"
  by (cases r') auto

function packet_walk :: "sbe \<Rightarrow> byte list \<Rightarrow> nat \<Rightarrow> u64 \<Rightarrow> u32 \<Rightarrow> u64 \<Rightarrow> nat \<Rightarrow> bool \<Rightarrow> handler
    \<Rightarrow> (bool \<times> bool \<times> handler) res" where
  "packet_walk S p len ts sn st off rst h =
     (if off < len then
        bnd (load 2 p off) (\<lambda>msz.
          if msz = 0 then Inr (False, rst, h)
          else bnd (decode_one S p off msz ts sn st rst h) (\<lambda>(ok, rst1, h1).
                 if ok then packet_walk S p len ts sn st (off + msz) rst1 h1
                 else Inr (False, rst1, h1)))
      else Inr (True, rst, end_of_packet sn st h))"
  by pat_completeness auto
termination
  by (relation "measure (\<lambda>(S, p, len, ts, sn, st, off, rst, h). len - off)") auto

declare packet_walk.simps [simp del]

definition mbo_data :: "sbe \<Rightarrow> byte list \<Rightarrow> nat \<Rightarrow> u64 \<Rightarrow> handler \<Rightarrow> (bool \<times> bool \<times> handler) res" where
  "mbo_data S p len ts h =
     bnd (load 4 p 0) (\<lambda>sn.
     bnd (load 8 p 4) (\<lambda>st.
       packet_walk S p len ts (of_nat sn) (of_nat st) 12 False h))"

section \<open>The actor\<close>

definition data_decoder :: "sbe \<Rightarrow> handler decoder_if" where
  "data_decoder S =
     \<lparr>on_decode_packet = (\<lambda>m h. mbo_data S (dp_data m) (dp_len m) (dp_ts m) (set_ingress_qlen (dp_qlen m) h)),
      on_gap = (\<lambda>h. Inr (h_gap h)),
      on_print_stats = (\<lambda>h. Inr h)\<rparr>"

definition DataDecoder_init :: "bool \<Rightarrow> u32 \<Rightarrow> handler \<Rightarrow> handler" where
  "DataDecoder_init dis lvl h = disable_mbo dis (set_max_mbp_level lvl h)"

end
