(* ===== verification/Mdp3_Recovery.thy ===== *)
theory Mdp3_Recovery
  imports Mdp3_Decoder
begin

text \<open>
  \<open>mdp3::RecoveryProcessor\<close> (\<open>src/mdp3/include/mdp3/act/RecoveryProcessor.hpp\<close>): the actor that
  rebuilds the books of a channel from the snapshot line, and the instruments from the
  instrument line. Both lines repeat a cycle of packets numbered from 1. \<open>datarecovery_handler\<close>
  waits for packet 1, restarts on a hole or when the number of reports changes, and replies when
  it has the last chunk of as many books as the snapshot announces, with the least of the
  sequence numbers the snapshots were taken at.

  The sockets are the list of datagrams still to come: each is the receive buffer after the
  read and the number of bytes received. A handler that finds no datagram is still waiting.
  The reader of template 53 is generated code like those of \<open>Mdp3_Decoder\<close> and an argument; an
  exception out of it ends the process, as these handlers catch none. Templates 52 are skipped
  (\<open>NOTIMPLEMENTED\<close> is not defined).
\<close>

section \<open>Book recovery\<close>

record snap_entry =
  x_displayQty :: u32
  x_px_mantissa :: int
  x_px_exponent :: int
  x_side :: char
  x_priority :: u64
  x_orderID :: u64

record snap53 =
  x_totNumReports :: u32
  x_currentChunk :: u32
  x_noChunks :: u32
  x_securityID :: int
  x_lastMsgSeqNumProcessed :: u32
  x_transactTime :: u64
  x_entries :: "snap_entry group"

type_synonym datagram = "byte list \<times> nat"

record data_recovery =
  curr_seq_num :: u32
  found_first_packet :: bool
  last_seq_num :: u32
  numreports :: u32
  recovered_books :: "int list"
  dr_handler :: handler

definition data_recovery_init :: "handler \<Rightarrow> data_recovery" where
  "data_recovery_init h =
     \<lparr>curr_seq_num = 0, found_first_packet = False, last_seq_num = - 1, numreports = - 1,
      recovered_books = [], dr_handler = h\<rparr>"

definition dr_restart :: "data_recovery \<Rightarrow> data_recovery" where
  "dr_restart s =
     s\<lparr>dr_handler := data_recovery_restart (dr_handler s), curr_seq_num := 0,
       recovered_books := [], found_first_packet := False, numreports := - 1\<rparr>"

definition snap_orders :: "u64 \<Rightarrow> snap53 \<Rightarrow> handler \<Rightarrow> handler res" where
  "snap_orders st m h =
     (let h1 = fold (\<lambda>e. snapshot_order (x_transactTime m) st (x_securityID m) (x_displayQty e)
                            (x_px_mantissa e) (x_px_exponent e) (x_side e) (x_priority e) (x_orderID e))
                 (g_entries (x_entries m)) h
      in if g_throws (x_entries m) then Inl (Assert ''terminate'') else Inr h1)"

text \<open>One snapshot message; \<open>None\<close> is a restart, after which the rest of the packet is dropped.\<close>

definition dr_snapshot :: "u64 \<Rightarrow> snap53 \<Rightarrow> data_recovery \<Rightarrow> data_recovery option res" where
  "dr_snapshot st m s =
     (if numreports s \<noteq> - 1 \<and> numreports s \<noteq> x_totNumReports m then Inr None
      else
        let s1 = s\<lparr>numreports := (if numreports s \<noteq> - 1 then numreports s else x_totNumReports m),
                   last_seq_num := min (last_seq_num s) (x_lastMsgSeqNumProcessed m),
                   recovered_books := (if x_noChunks m = x_currentChunk m
                     then List.insert (x_securityID m) (recovered_books s) else recovered_books s)\<rparr>
        in bnd (snap_orders st m (dr_handler s)) (\<lambda>h. Inr (Some (s1\<lparr>dr_handler := h\<rparr>))))"

function dr_walk :: "snap53 reader \<Rightarrow> byte list \<Rightarrow> nat \<Rightarrow> u64 \<Rightarrow> nat \<Rightarrow> data_recovery \<Rightarrow> data_recovery option res" where
  "dr_walk S p len st off s =
     (if off < len then
        bnd (load 2 p off) (\<lambda>msz.
          if msz < 10 \<or> len < off + msz then Inl (Assert ''data recovery: bad MsgSize'')
          else
            bnd (load 2 p (off + 2)) (\<lambda>blk.
            bnd (load 2 p (off + 4)) (\<lambda>tmpl.
            bnd (load 2 p (off + 8)) (\<lambda>ver.
              if tmpl = 52 \<or> tmpl = 12 then dr_walk S p len st (off + msz) s
              else if tmpl = 53 then
                bnd (wrapped (S p off blk ver msz) (\<lambda>m. dr_snapshot st m s)) (\<lambda>r.
                  case r of None \<Rightarrow> Inr None | Some s1 \<Rightarrow> dr_walk S p len st (off + msz) s1)
              else Inl (Assert ''got unknown TemplateID'')))))
      else Inr (Some s))"
  by pat_completeness auto
termination
  by (relation "measure (\<lambda>(S, p, len, st, off, s). len - off)") auto

declare dr_walk.simps [simp del]

datatype dr_state = Reading data_recovery | Replied u32 data_recovery

definition dr_packet :: "snap53 reader \<Rightarrow> datagram \<Rightarrow> data_recovery \<Rightarrow> dr_state res" where
  "dr_packet S d s =
     (if snd d = 0 then Inl (Assert ''could not read msg'')
      else
        bnd (load 4 (fst d) 0) (\<lambda>n.
          let sn = of_nat n :: u32;
              s1 = (if sn = 1 then s\<lparr>found_first_packet := True\<rparr> else s)
          in if \<not> found_first_packet s1 then Inr (Reading s1)
             else if sn - curr_seq_num s1 > 1 \<and> sn \<noteq> 1 then Inr (Reading (dr_restart s1))
             else
               bnd (load 8 (fst d) 4) (\<lambda>t.
               bnd (dr_walk S (fst d) (snd d) (of_nat t) 12 (s1\<lparr>curr_seq_num := sn\<rparr>)) (\<lambda>r.
                 case r of
                   None \<Rightarrow> Inr (Reading (dr_restart (s1\<lparr>curr_seq_num := sn\<rparr>)))
                 | Some s2 \<Rightarrow>
                     if length (recovered_books s2) < unat (numreports s2) then Inr (Reading s2)
                     else Inr (Replied (last_seq_num s2) s2)))))"

fun dr_run :: "snap53 reader \<Rightarrow> datagram list \<Rightarrow> data_recovery \<Rightarrow> dr_state res" where
  "dr_run S [] s = Inr (Reading s)"
| "dr_run S (d # ds) s =
     bnd (dr_packet S d s) (\<lambda>r. case r of Reading s1 \<Rightarrow> dr_run S ds s1 | Replied n s1 \<Rightarrow> Inr (Replied n s1))"

section \<open>Instrument recovery\<close>

record instr_recovery =
  totnumreports :: u32
  have_totnumreports :: bool
  ir_found :: bool
  seq_num_processed :: "u32 list"
  securities :: "int list"
  ir_handler :: handler

definition instr_recovery_init :: "handler \<Rightarrow> instr_recovery" where
  "instr_recovery_init h =
     \<lparr>totnumreports = - 1, have_totnumreports = False, ir_found = False, seq_num_processed = [],
      securities = [], ir_handler = h\<rparr>"

definition ir_restart :: "instr_recovery \<Rightarrow> instr_recovery" where
  "ir_restart s =
     s\<lparr>seq_num_processed := [], totnumreports := - 1, have_totnumreports := False, ir_found := False\<rparr>"

record ir_def =
  y_totNumReports :: u32
  y_def :: def_msg

definition ir_definition :: "(instr_def \<Rightarrow> handler \<Rightarrow> handler res) \<Rightarrow> ir_def \<Rightarrow> instr_recovery \<Rightarrow> instr_recovery res" where
  "ir_definition cb m s =
     bnd (decode_def cb (y_def m) (ir_handler s)) (\<lambda>(h, ok).
       if \<not> ok then Inl (Assert ''terminate'')
       else Inr (s\<lparr>totnumreports := (if have_totnumreports s then totnumreports s else y_totNumReports m),
                   have_totnumreports := True,
                   securities := List.insert (id_securityID (d_fields (y_def m))) (securities s),
                   ir_handler := h\<rparr>))"

function ir_walk :: "(nat \<Rightarrow> ir_def reader) \<Rightarrow> byte list \<Rightarrow> nat \<Rightarrow> nat \<Rightarrow> instr_recovery \<Rightarrow> instr_recovery res" where
  "ir_walk S p len off s =
     (if off < len then
        bnd (load 2 p off) (\<lambda>msz.
          if msz = 0 then sngh
          else
            bnd (load 2 p (off + 2)) (\<lambda>blk.
            bnd (load 2 p (off + 4)) (\<lambda>tmpl.
            bnd (load 2 p (off + 8)) (\<lambda>ver.
            bnd (if tmpl = 54 \<or> tmpl = 57 then wrapped (S tmpl p off blk ver msz) (\<lambda>m. ir_definition future_definition m s)
                 else if tmpl = 55 then wrapped (S tmpl p off blk ver msz) (\<lambda>m. ir_definition option_definition m s)
                 else if tmpl = 56 then wrapped (S tmpl p off blk ver msz) (\<lambda>m. ir_definition spread_definition m s)
                 else Inr s)
              (\<lambda>s1. ir_walk S p len (off + msz) s1)))))
      else Inr s)"
  by pat_completeness auto
termination
  by (relation "measure (\<lambda>(S, p, len, off, s). len - off)") auto

declare ir_walk.simps [simp del]

datatype ir_state = IReading instr_recovery | IReplied instr_recovery

definition ir_done :: "instr_recovery \<Rightarrow> ir_state" where
  "ir_done s = (if length (securities s) < unat (totnumreports s) then IReading s else IReplied s)"

definition ir_packet :: "(nat \<Rightarrow> ir_def reader) \<Rightarrow> datagram \<Rightarrow> instr_recovery \<Rightarrow> ir_state res" where
  "ir_packet S d s =
     (if snd d = 0 then Inl (Assert ''no message'')
      else
        bnd (load 4 (fst d) 0) (\<lambda>n.
          let sn = of_nat n :: u32
          in if sn = 1 \<and> ir_found s then Inr (IReading (ir_restart s))
             else
               let s1 = (if sn = 1 then s\<lparr>ir_found := True\<rparr> else s)
               in if \<not> ir_found s1 then Inr (IReading s1)
                  else
                    bnd (load 8 (fst d) 4) (\<lambda>t.
                      if sn \<in> set (seq_num_processed s1) then Inr (ir_done s1)
                      else bnd (ir_walk S (fst d) (snd d) 12
                                  (s1\<lparr>seq_num_processed := sn # seq_num_processed s1\<rparr>))
                             (\<lambda>s2. Inr (ir_done s2)))))"

fun ir_run :: "(nat \<Rightarrow> ir_def reader) \<Rightarrow> datagram list \<Rightarrow> instr_recovery \<Rightarrow> ir_state res" where
  "ir_run S [] s = Inr (IReading s)"
| "ir_run S (d # ds) s =
     bnd (ir_packet S d s) (\<lambda>r. case r of IReading s1 \<Rightarrow> ir_run S ds s1 | IReplied s1 \<Rightarrow> Inr (IReplied s1))"

end
