(* ===== verification/Mdp3_Decoder_Properties.thy ===== *)
theory Mdp3_Decoder_Properties
  imports Mdp3_Decoder
begin

text \<open>
  What the decoder makes of a packet: a well framed packet is decoded message by message, the
  records of a packet are numbered from 0 in the order they are made, a packet that fails leaves
  the counter where it stopped, and a trade follows its order to the order's book.
\<close>

section \<open>Framing\<close>

text \<open>A message starts with its own length; a packet is the number, the time and the messages.\<close>

definition framed :: "byte list \<Rightarrow> bool" where
  "framed m \<longleftrightarrow> 2 \<le> length m \<and> le_nat 2 m 0 = length m"

definition pack :: "byte list \<Rightarrow> byte list list \<Rightarrow> byte list" where
  "pack hdr ms = hdr @ concat ms"

text \<open>The messages of a packet one after the other, each at its offset in the packet.\<close>

fun decode_seq :: "sbe \<Rightarrow> byte list \<Rightarrow> u64 \<Rightarrow> u32 \<Rightarrow> u64 \<Rightarrow> nat \<Rightarrow> byte list list \<Rightarrow> bool \<Rightarrow> handler
    \<Rightarrow> (bool \<times> bool \<times> handler) res" where
  "decode_seq S p ts sn st off [] rst h = Inr (True, rst, h)"
| "decode_seq S p ts sn st off (m # ms) rst h =
     bnd (decode_one S p off (length m) ts sn st rst h) (\<lambda>(ok, rst1, h1).
       if ok then decode_seq S p ts sn st (off + length m) ms rst1 h1 else Inr (False, rst1, h1))"

lemma le_nat_at: "n \<le> length m \<Longrightarrow> le_nat n (pre @ m @ suf) (length pre) = le_nat n m 0"
  by (simp add: le_nat_def)

lemma load_at: "n \<le> length m \<Longrightarrow> load n (pre @ m @ suf) (length pre) = Inr (le_nat n m 0)"
  by (simp add: load_def le_nat_at)

lemma walk_step:
  assumes "framed m" and "length pre + length m \<le> len"
  shows "packet_walk S (pre @ m @ suf) len ts sn st (length pre) rst h =
     bnd (decode_one S (pre @ m @ suf) (length pre) (length m) ts sn st rst h) (\<lambda>(ok, rst1, h1).
       if ok then packet_walk S (pre @ m @ suf) len ts sn st (length pre + length m) rst1 h1
       else Inr (False, rst1, h1))"
proof -
  have "load 2 (pre @ m @ suf) (length pre) = Inr (length m)"
    using assms(1) load_at [of 2 m pre suf] by (simp add: framed_def)
  moreover have "length m \<noteq> 0" "length pre < len"
    using assms by (auto simp: framed_def)
  ultimately show ?thesis
    by (subst packet_walk.simps) (simp only: bnd_Inr if_True if_False)
qed

lemma walk_pack:
  assumes "\<forall>m\<in>set ms. framed m"
  shows "packet_walk S (pre @ concat ms @ pad) (length pre + length (concat ms)) ts sn st (length pre) rst h =
     bnd (decode_seq S (pre @ concat ms @ pad) ts sn st (length pre) ms rst h) (\<lambda>(ok, rst1, h1).
       Inr (ok, rst1, if ok then end_of_packet sn st h1 else h1))"
  using assms
proof (induction ms arbitrary: pre rst h)
  case Nil
  show ?case by (subst packet_walk.simps) simp
next
  case (Cons m ms)
  let ?p = "pre @ m @ concat ms @ pad"
  have IH: "packet_walk S ?p (length pre + length m + length (concat ms)) ts sn st (length pre + length m) rst1 h1 =
     bnd (decode_seq S ?p ts sn st (length pre + length m) ms rst1 h1) (\<lambda>(ok, rst1, h1).
       Inr (ok, rst1, if ok then end_of_packet sn st h1 else h1))" for rst1 h1
    using Cons.IH [of "pre @ m" rst1 h1] Cons.prems by simp
  have "packet_walk S ?p (length pre + length m + length (concat ms)) ts sn st (length pre) rst h =
     bnd (decode_one S ?p (length pre) (length m) ts sn st rst h) (\<lambda>(ok, rst1, h1).
       if ok then packet_walk S ?p (length pre + length m + length (concat ms)) ts sn st (length pre + length m) rst1 h1
       else Inr (False, rst1, h1))"
    by (rule walk_step) (use Cons.prems in auto)
  also have "\<dots> = bnd (decode_seq S ?p ts sn st (length pre) (m # ms) rst h) (\<lambda>(ok, rst1, h1).
       Inr (ok, rst1, if ok then end_of_packet sn st h1 else h1))"
    by (cases "decode_one S ?p (length pre) (length m) ts sn st rst h") (auto simp: IH split: prod.split)
  finally show ?case by (simp add: add.assoc)
qed

text \<open>
  C26. A packet made of a twelve byte header and framed messages is decoded as those messages, each
  once and in order, whatever bytes follow it in the receive buffer: the walk of \<open>mbo_data\<close> ends,
  and ends with \<open>EndOfPacket\<close> exactly when no message failed.
\<close>
theorem mdp3_packet_roundtrip:
  assumes "length hdr = 12" and "\<forall>m\<in>set ms. framed m"
  shows "mbo_data S (pack hdr ms @ pad) (length (pack hdr ms)) ts h =
     bnd (decode_seq S (pack hdr ms @ pad) ts (of_nat (le_nat 4 hdr 0)) (of_nat (le_nat 8 hdr 4)) 12 ms False h)
       (\<lambda>(ok, rst, h1). Inr (ok, rst,
          if ok then end_of_packet (of_nat (le_nat 4 hdr 0)) (of_nat (le_nat 8 hdr 4)) h1 else h1))"
proof -
  have "load 4 (pack hdr ms @ pad) 0 = Inr (le_nat 4 hdr 0)" "load 8 (pack hdr ms @ pad) 4 = Inr (le_nat 8 hdr 4)"
    using assms(1) by (simp_all add: load_def le_nat_def pack_def)
  then show ?thesis
    using walk_pack [OF assms(2), of S hdr pad ts "of_nat (le_nat 4 hdr 0)" "of_nat (le_nat 8 hdr 4)" False h]
    by (simp add: mbo_data_def pack_def assms(1))
qed

section \<open>The numbering of the records of a packet\<close>

fun wire_stamp :: "h_target \<times> wire \<Rightarrow> (u32 \<times> u32) list" where
  "wire_stamp (Binrec, WMbo r) = [(pkt_seq_num r, pkt_entry_idx r)]"
| "wire_stamp (Binrec, WTrd r) = [(t_pkt_seq_num r, t_pkt_entry_idx r)]"
| "wire_stamp _ = []"

definition stamped :: "handler \<Rightarrow> (u32 \<times> u32) list" where
  "stamped h = concat (map wire_stamp (h_sends h))"

definition numbers :: "u32 \<Rightarrow> u32 \<Rightarrow> nat \<Rightarrow> (u32 \<times> u32) list" where
  "numbers sn i n = map (\<lambda>k. (sn, i + of_nat k)) [0..<n]"

definition stamps :: "u32 \<Rightarrow> handler \<Rightarrow> handler \<Rightarrow> bool" where
  "stamps sn h h1 \<longleftrightarrow> (\<exists>n. h_entry_idx h1 = h_entry_idx h + of_nat n \<and>
     stamped h1 = stamped h @ numbers sn (h_entry_idx h) n \<and> binrec h1)"

lemma numbers_0 [simp]: "numbers sn i 0 = []"
  by (simp add: numbers_def)

lemma numbers_add: "numbers sn i (n + m) = numbers sn i n @ numbers sn (i + of_nat n) m"
  by (induction m) (simp_all add: numbers_def add.assoc)

lemma stamps_refl: "binrec h \<Longrightarrow> stamps sn h h"
  unfolding stamps_def by (rule exI [of _ 0]) simp

lemma stamps_trans: "stamps sn h h1 \<Longrightarrow> stamps sn h1 h2 \<Longrightarrow> stamps sn h h2"
  unfolding stamps_def
  by (elim exE conjE, rule_tac x = "n + na" in exI) (simp add: numbers_add add.assoc)

lemma stamps_binrec: "stamps sn h h1 \<Longrightarrow> binrec h1"
  by (auto simp: stamps_def)

text \<open>An operation that sends no order or trade record and leaves the counter alone.\<close>

definition unstamped :: "handler \<Rightarrow> handler \<Rightarrow> bool" where
  "unstamped h h1 \<longleftrightarrow> h_entry_idx h1 = h_entry_idx h \<and> stamped h1 = stamped h \<and> binrec h1 = binrec h"

lemma quiet_stamps: "unstamped h h1 \<Longrightarrow> binrec h \<Longrightarrow> stamps sn h h1"
  unfolding stamps_def unstamped_def by (intro exI [of _ 0]) simp

lemma unstamped_refl [simp]: "unstamped h h"
  by (simp add: unstamped_def)

lemma unstamped_trans: "unstamped h h1 \<Longrightarrow> unstamped h1 h2 \<Longrightarrow> unstamped h h2"
  by (simp add: unstamped_def)

lemma quiet_to_book: "unstamped h (to_book sec w h)"
  by (cases "route_of h sec") (simp_all add: unstamped_def to_book_def stamped_def)

lemma stamp_of_books [simp]: "concat (map (wire_stamp \<circ> (\<lambda>b. (ToBook b, w))) bs) = []"
  by (induction bs) simp_all

lemma quiet_ops [simp]:
  "wire_stamp (Binrec, w) = [] \<Longrightarrow> unstamped h (record_it w h1) \<longleftrightarrow> unstamped h h1"
  "unstamped h (to_all w h1) \<longleftrightarrow> unstamped h h1"
  "unstamped h (note_instrument sec h1) \<longleftrightarrow> unstamped h h1"
  "unstamped h (map_security sec i h1) \<longleftrightarrow> unstamped h h1"
  "unstamped h (update_sec_id sec nm a h1) \<longleftrightarrow> unstamped h h1"
  "unstamped h (set_asset nm a h1) \<longleftrightarrow> unstamped h h1"
  by (simp_all add: unstamped_def record_it_def to_all_def note_instrument_def map_security_def
      update_sec_id_def set_asset_def stamped_def concat_eq_Nil_conv)

lemma quiet_callbacks [simp]:
  "unstamped h (channel_reset h)" "unstamped h (h_gap h)" "unstamped h (security_status t1 t2 sec ha st ev h)"
  "unstamped h (limits_banding sec hi lo var ent h)" "unstamped h (refresh_volume t1 t2 sec v ty act h)"
  by (simp_all add: channel_reset_def h_gap_def security_status_def limits_banding_def refresh_volume_def Let_def)

lemma quiet_definitions:
  "future_definition d h = Inr h1 \<Longrightarrow> unstamped h h1"
  "option_definition d h = Inr h1 \<Longrightarrow> unstamped h h1"
  "spread_definition d h = Inr h1 \<Longrightarrow> unstamped h h1"
  unfolding future_definition_def option_definition_def spread_definition_def Let_def
  by (auto split: if_splits option.splits)

lemma stamps_one:
  assumes "binrec h" and "wire_stamp (Binrec, w) = [(sn, h_entry_idx h)]"
    and "h_sends h0 = h_sends h" "binrec h0 = binrec h" "h_entry_idx h0 = h_entry_idx h + 1"
  shows "stamps sn h (record_it w h0)"
  unfolding stamps_def
  by (rule exI [of _ 1]) (use assms in \<open>simp add: record_it_def stamped_def numbers_def\<close>)

lemma stamps_quiet: "stamps sn h h1 \<Longrightarrow> unstamped h1 h2 \<Longrightarrow> stamps sn h h2"
  by (simp add: stamps_def unstamped_def)

lemma note_order_frame [simp]:
  "h_sends (note_order a oid sec h) = h_sends h" "binrec (note_order a oid sec h) = binrec h"
  "h_entry_idx (note_order a oid sec h) = h_entry_idx h"
  "mbo_disabled (note_order a oid sec h) = mbo_disabled h"
  "securityid_to_asset_id (note_order a oid sec h) = securityid_to_asset_id h"
  "mbo_order_books (note_order a oid sec h) = mbo_order_books h"
  by (simp_all add: note_order_def)

lemma stamps_mbo: "binrec h \<Longrightarrow> stamps (a_seq a) h (mbo_update a h)"
  unfolding mbo_update_def Let_def
  by (auto intro!: stamps_refl stamps_quiet [OF stamps_one quiet_to_book] simp: mbo_record_def)

lemma stamps_trade: "binrec h \<Longrightarrow> stamps (ta_seq a) h (mbo_trade a h)"
  unfolding mbo_trade_def Let_def
  by (auto intro!: stamps_refl stamps_quiet [OF stamps_one quiet_to_book] stamps_one
        simp: trd_record_def split: option.split)


lemma stamps_over:
  assumes "over f g h = Inr (h1, ok)" and "binrec h"
    and "\<And>e h h1. binrec h \<Longrightarrow> f e h = Inr h1 \<Longrightarrow> stamps sn h h1"
  shows "stamps sn h h1"
proof -
  have "fold (\<lambda>e r. bnd r (f e)) es (Inr h) = Inr h1 \<Longrightarrow> binrec h \<Longrightarrow> stamps sn h h1" for es
  proof (induction es arbitrary: h)
    case Nil
    then show ?case using stamps_refl by simp
  next
    case (Cons e es)
    have e: "fold (\<lambda>e r. bnd r (f e)) es (Inl x) = Inl x" for x
      by (induction es) simp_all
    from Cons.prems(1) obtain h2 where h2: "f e h = Inr h2" "fold (\<lambda>e r. bnd r (f e)) es (Inr h2) = Inr h1"
      by (cases "f e h") (simp_all add: e)
    have "stamps sn h h2" using assms(3) Cons.prems(2) h2(1) by blast
    then show ?case
      using Cons.IH [OF h2(2)] stamps_binrec stamps_trans by blast
  qed
  then show ?thesis
    using assms(1,2) by (auto simp: over_def)
qed

lemma stamps_quiet_over:
  assumes "over f g h = Inr (h1, ok)" and "binrec h" and "\<And>e h h1. f e h = Inr h1 \<Longrightarrow> unstamped h h1"
  shows "stamps sn h h1"
  using assms by (blast intro: stamps_over quiet_stamps)

lemma stamps_decoders:
  assumes "binrec h"
  shows "decode46 ts sn st m46 h = Inr (h1, ok) \<Longrightarrow> stamps sn h h1"
    and "decode48 ts sn st m48 h = Inr (h1, ok) \<Longrightarrow> stamps sn h h1"
    and "decode47 ts sn st m47 h = Inr (h1, ok) \<Longrightarrow> stamps sn h h1"
    and "decode4 m4 h = Inr (h1, ok) \<Longrightarrow> stamps sn h h1"
    and "decode50 m50 h = Inr (h1, ok) \<Longrightarrow> stamps sn h h1"
    and "decode30 st m30 h = Inr (h1, ok) \<Longrightarrow> stamps sn h h1"
    and "decode37 st m37 h = Inr (h1, ok) \<Longrightarrow> stamps sn h h1"
proof -
  show "decode46 ts sn st m46 h = Inr (h1, ok) \<Longrightarrow> stamps sn h h1"
    using assms stamps_mbo [of _ "\<lparr>a_recv_time = _, a_seq = sn, a_transactTime = _, a_sendingTime = _,
      a_securityID = _, a_px_mantissa = _, a_px_exponent = _, a_side = _, a_displayQty = _, a_orderID = _,
      a_action = _, a_priority = _, a_lastQuote = _, a_endOfEvent = _, a_recovery = _\<rparr>"]
    by (auto simp: decode46_def over_oid_def Let_def intro: stamps_refl elim!: stamps_over split: if_splits)
  show "decode48 ts sn st m48 h = Inr (h1, ok) \<Longrightarrow> stamps sn h h1"
    using assms stamps_trade [of _ "\<lparr>ta_recv_time = _, ta_seq = sn, ta_transactTime = _, ta_sendingTime = _,
      ta_lastQty = _, ta_orderID = _, ta_lastTrade = _, ta_endOfEvent = _\<rparr>"]
    by (auto simp: decode48_def intro: stamps_refl elim!: stamps_over split: if_splits prod.splits)
  show "decode47 ts sn st m47 h = Inr (h1, ok) \<Longrightarrow> stamps sn h h1"
    using assms stamps_mbo [of _ "\<lparr>a_recv_time = _, a_seq = sn, a_transactTime = _, a_sendingTime = _,
      a_securityID = _, a_px_mantissa = _, a_px_exponent = _, a_side = _, a_displayQty = _, a_orderID = _,
      a_action = _, a_priority = _, a_lastQuote = _, a_endOfEvent = _, a_recovery = _\<rparr>"]
    by (auto simp: decode47_def elim!: stamps_over)
  show "decode4 m4 h = Inr (h1, ok) \<Longrightarrow> stamps sn h h1"
    using assms by (auto simp: decode4_def elim!: stamps_quiet_over)
  show "decode50 m50 h = Inr (h1, ok) \<Longrightarrow> stamps sn h h1"
    using assms by (auto simp: decode50_def elim!: stamps_quiet_over)
  show "decode30 st m30 h = Inr (h1, ok) \<Longrightarrow> stamps sn h h1"
    using assms by (auto simp: decode30_def intro: quiet_stamps)
  show "decode37 st m37 h = Inr (h1, ok) \<Longrightarrow> stamps sn h h1"
    using assms by (auto simp: decode37_def elim!: stamps_quiet_over split: prod.splits)
qed

lemma stamps_def_decoders:
  assumes "decode_def cb m h = Inr (h1, ok)" and "binrec h" and "\<And>d h1. cb d h = Inr h1 \<Longrightarrow> unstamped h h1"
  shows "stamps sn h h1"
  using assms by (auto simp: decode_def_def intro: stamps_refl quiet_stamps split: if_splits)

lemma wrapped_critical:
  assumes "wrapped r (\<lambda>m. critical (f m) b) = Inr (ok, rst1, h1)" and "\<And>m ok. f m = Inr (h1, ok) \<Longrightarrow> Q"
  shows Q
  using assms by (cases r) (auto simp: wrapped_def critical_def)

lemma wrapped_tolerant:
  assumes "wrapped r (\<lambda>m. tolerant (f m) b) = Inr (ok, rst1, h1)" and "\<And>m ok. f m = Inr (h1, ok) \<Longrightarrow> Q"
  shows Q
  using assms by (cases r) (auto simp: wrapped_def tolerant_def)

lemma wrapped_skip: "wrapped r (\<lambda>m. Inr (True, b, h)) = Inr (ok, rst1, h1) \<Longrightarrow> h1 = h"
  by (cases r) (auto simp: wrapped_def)

lemma stamps_decode_one:
  assumes "decode_one S p off n ts sn st rst h = Inr (ok, rst1, h1)" and "binrec h"
  shows "stamps sn h h1"
proof -
  have defs: "decode_def future_definition m h = Inr (h1, ok) \<Longrightarrow> stamps sn h h1"
    "decode_def option_definition m h = Inr (h1, ok) \<Longrightarrow> stamps sn h h1"
    "decode_def spread_definition m h = Inr (h1, ok) \<Longrightarrow> stamps sn h h1" for m ok
    by (erule stamps_def_decoders [OF _ assms(2)], erule quiet_definitions)+
  note dec = stamps_decoders [OF assms(2)] defs
  show ?thesis
    using assms(1) unfolding decode_one_def bnd_eq_Inr chk_eq_Inr
    apply (elim exE conjE)
    apply (simp only: split: if_split_asm)
    apply (((erule wrapped_critical wrapped_tolerant, erule dec) | (drule wrapped_skip, simp add: stamps_refl assms(2))
        )+)
    apply (insert stamps_refl [OF assms(2), of sn], simp)
    done
qed

lemma stamps_walk:
  "packet_walk S p len ts sn st off rst h = Inr (ok, rst1, h1) \<Longrightarrow> binrec h \<Longrightarrow>
   \<exists>n. stamped h1 = stamped h @ numbers sn (h_entry_idx h) n \<and> binrec h1 \<and>
     h_entry_idx h1 = (if ok then 0 else h_entry_idx h + of_nat n)"
proof (induction S p len ts sn st off rst h rule: packet_walk.induct)
  case (1 S p len ts sn st off rst h)
  show ?case
  proof (cases "off < len")
    case False
    then have "ok" "h1 = end_of_packet sn st h"
      using 1(2) by (simp_all add: packet_walk.simps [of S p len])
    then show ?thesis
      using 1(3) by (intro exI [of _ 0]) (simp add: end_of_packet_def record_it_def stamped_def)
  next
    case True
    then obtain sz where sz: "load 2 p off = Inr sz"
      using 1(2) by (auto simp: packet_walk.simps [of S p len])
    show ?thesis
    proof (cases "sz = 0")
      case z: True
      then have "\<not> ok" "h1 = h"
        using 1(2) True sz by (simp_all add: packet_walk.simps [of S p len])
      then show ?thesis
        using 1(3) by (intro exI [of _ 0]) simp
    next
      case z: False
      then obtain ok2 rst2 h2 where d: "decode_one S p off sz ts sn st rst h = Inr (ok2, rst2, h2)"
        and r: "(if ok2 then packet_walk S p len ts sn st (off + sz) rst2 h2 else Inr (False, rst2, h2)) = Inr (ok, rst1, h1)"
        using 1(2) True sz by (auto simp: packet_walk.simps [of S p len])
      from stamps_decode_one [OF d 1(3)] obtain n where n: "h_entry_idx h2 = h_entry_idx h + of_nat n"
        "stamped h2 = stamped h @ numbers sn (h_entry_idx h) n" "binrec h2"
        by (auto simp: stamps_def)
      show ?thesis
      proof (cases ok2)
        case ok: True
        then have w: "packet_walk S p len ts sn st (off + sz) rst2 h2 = Inr (ok, rst1, h1)"
          using r by simp
        from 1(1) [OF True sz z d _ _ _ w n(3)] ok obtain k where
          "stamped h1 = stamped h2 @ numbers sn (h_entry_idx h2) k \<and> binrec h1 \<and>
           h_entry_idx h1 = (if ok then 0 else h_entry_idx h2 + of_nat k)" by blast
        then show ?thesis
          using n by (intro exI [of _ "n + k"]) (simp add: numbers_add add.assoc)
      next
        case ok: False
        then show ?thesis using r n by (intro exI [of _ n]) auto
      qed
    qed
  qed
qed

text \<open>
  The order and trade records of one packet reach the recorder with the packet's number and the
  positions 0, 1, 2 and so on, in the order they were decoded, and a packet decoded to its end
  leaves the counter at 0 for the next one.
\<close>
theorem mdp3_records_numbered:
  assumes "mbo_data S p len ts h = Inr (True, rst, h1)" and "binrec h" and "h_entry_idx h = 0"
  shows "\<exists>n. stamped h1 = stamped h @ map (\<lambda>k. (of_nat (le_nat 4 p 0), of_nat k)) [0..<n] \<and> h_entry_idx h1 = 0"
proof -
  from assms(1) obtain st where "packet_walk S p len ts (of_nat (le_nat 4 p 0)) st 12 False h = Inr (True, rst, h1)"
    by (auto simp: mbo_data_def load_def split: if_splits)
  from stamps_walk [OF this assms(2)] show ?thesis
    by (auto simp: numbers_def assms(3))
qed

text \<open>
  A packet that fails ends without \<open>EndOfPacket\<close>: the counter keeps the number of records the
  packet had made, so the first record of the next packet is not numbered 0.
\<close>
theorem mdp3_failed_packet_keeps_counter:
  assumes "mbo_data S p len ts h = Inr (False, rst, h1)" and "binrec h" and "h_entry_idx h = 0"
  shows "\<exists>n. stamped h1 = stamped h @ map (\<lambda>k. (of_nat (le_nat 4 p 0), of_nat k)) [0..<n] \<and>
     h_entry_idx h1 = of_nat n"
proof -
  from assms(1) obtain st where "packet_walk S p len ts (of_nat (le_nat 4 p 0)) st 12 False h = Inr (False, rst, h1)"
    by (auto simp: mbo_data_def load_def split: if_splits)
  from stamps_walk [OF this assms(2)] show ?thesis
    by (auto simp: numbers_def assms(3))
qed


section \<open>Routing\<close>

lemma mbo_update_frame:
  "mbo_disabled (mbo_update a h) = mbo_disabled h" "binrec (mbo_update a h) = binrec h"
  "securityid_to_asset_id (mbo_update a h) = securityid_to_asset_id h"
  "mbo_order_books (mbo_update a h) = mbo_order_books h"
  by (simp_all add: mbo_update_def Let_def to_book_def record_it_def split: option.split)

lemma mbo_update_book_of [simp]: "route_of (mbo_update a h) = route_of h"
proof (rule ext)
  show "route_of (mbo_update a h) sec = route_of h sec" for sec
    unfolding route_of_def mbo_update_frame ..
qed

lemma mbo_update_orders:
  "orderid_to_securityid (mbo_update a h) =
     (if mbo_disabled h then orderid_to_securityid h
      else if a_action a = 0 then (orderid_to_securityid h)(a_orderID a := Some (a_securityID a))
      else if a_action a = 2 then (orderid_to_securityid h)(a_orderID a := None)
      else orderid_to_securityid h)"
  by (simp add: mbo_update_def Let_def to_book_def record_it_def note_order_def split: option.split)

lemma fold_update_frame:
  "mbo_disabled (fold mbo_update as h) = mbo_disabled h \<and> binrec (fold mbo_update as h) = binrec h \<and>
   route_of (fold mbo_update as h) = route_of h"
  by (induction as arbitrary: h) (simp_all add: mbo_update_frame)

lemma fold_update_orders:
  "\<forall>x\<in>set as. a_orderID x \<noteq> oid \<Longrightarrow>
   orderid_to_securityid (fold mbo_update as h) oid = orderid_to_securityid h oid"
  by (induction as arbitrary: h) (auto simp: mbo_update_orders)

lemma mbo_trade_sends:
  assumes "\<not> mbo_disabled h"
  shows "h_sends (mbo_trade t h) = h_sends h @ (if binrec h then [(Binrec, WTrd (trd_record t h))] else []) @
     (case orderid_to_securityid h (ta_orderID t) of
        None \<Rightarrow> []
      | Some sec \<Rightarrow> (case route_of h sec of None \<Rightarrow> [] | Some b \<Rightarrow> [(ToBook b, WTrd (trd_record t h))]))"
  using assms
  by (auto simp: mbo_trade_def Let_def to_book_def record_it_def route_of_def split: option.split)


section \<open>What the walk does not check\<close>

text \<open>
  \<open>mbo_data\<close> compares the size of a message with 0 and with nothing else: a packet whose last
  message claims to be longer than what was received is decoded and accepted all the same.
\<close>
theorem mdp3_overlong_message_accepted:
  assumes "12 < len" and "14 \<le> length p" and "len < 12 + le_nat 2 p 12"
    and "decode_one S p 12 (le_nat 2 p 12) ts (of_nat (le_nat 4 p 0)) (of_nat (le_nat 8 p 4)) False h = Inr (True, rst, h1)"
  shows "mbo_data S p len ts h =
     Inr (True, rst, end_of_packet (of_nat (le_nat 4 p 0)) (of_nat (le_nat 8 p 4)) h1)"
proof -
  have "load 4 p 0 = Inr (le_nat 4 p 0)" "load 8 p 4 = Inr (le_nat 8 p 4)" "load 2 p 12 = Inr (le_nat 2 p 12)"
    using assms(2) by (simp_all add: load_def)
  moreover have "le_nat 2 p 12 \<noteq> 0"
    using assms(1,3) by linarith
  moreover have "packet_walk S p len ts sn st (12 + le_nat 2 p 12) rst h1 = Inr (True, rst, end_of_packet sn st h1)" for sn st
    using assms(3) by (subst packet_walk.simps) simp
  ultimately show ?thesis
    using assms(1,4) by (simp add: mbo_data_def packet_walk.simps [of S p len ts _ _ 12])
qed

text \<open>
  A definition of a future that is older than the one its asset already has changes nothing of
  the asset and is not recorded, but its security id is routed to the asset's book from then on.
\<close>
theorem mdp3_stale_definition_routes:
  assumes "\<not> treas_only h" and "id_action d = CHR ''A''" and "assets h (id_sym d) = Some a"
    and "ha_sec_id a \<noteq> 0" and "ha_activation a > id_activation d"
    and "0 \<le> ha_id a" and "nat (ha_id a) < length (mbo_order_books h)"
  shows "\<exists>h1. future_definition d h = Inr h1 \<and> assets h1 = assets h \<and> h_sends h1 = h_sends h \<and>
     route_of h1 (id_securityID d) = mbo_order_books h ! nat (ha_id a)"
  using assms
  by (simp add: future_definition_def lookup_name_def note_instrument_def map_security_def route_of_def Let_def)

section \<open>Concrete packets\<close>

definition ex_entry :: "int \<Rightarrow> u64 \<Rightarrow> int \<Rightarrow> entry47" where
  "ex_entry sec oid act = \<lparr>f_displayQty = 5, f_orderID = oid, f_action = act, f_side = CHR ''0'',
     f_priority = 1, f_px_mantissa = 100, f_px_exponent = 0, f_securityID = sec\<rparr>"

text \<open>A codec whose template 47 yields two new orders and throws after them when the version is 1.\<close>

definition ex_sbe :: sbe where
  "ex_sbe = \<lparr>Book46 = (\<lambda>p o1 b v n. None), Trade48 = (\<lambda>p o1 b v n. None), Daily49 = (\<lambda>p o1 b v n. None),
     Session51 = (\<lambda>p o1 b v n. None), Spread56 = (\<lambda>p o1 b v n. None), Option55 = (\<lambda>p o1 b v n. None),
     Future54 = (\<lambda>p o1 b v n. None), Fixed57 = (\<lambda>p o1 b v n. None), Reset4 = (\<lambda>p o1 b v n. None),
     Limits50 = (\<lambda>p o1 b v n. None), Status30 = (\<lambda>p o1 b v n. None),
     Book47 = (\<lambda>p o1 b v n. Some \<lparr>c_transactTime = 9, c_lastQuote = False, c_endOfEvent = True,
        c_recovery = False, c_entries = Group [ex_entry 7 21 0, ex_entry 7 22 0] (v = 1)\<rparr>),
     Volume37 = (\<lambda>p o1 b v n. None), Quote39 = (\<lambda>p o1 b v n. None)\<rparr>"

definition ex_hdr :: "byte list" where
  "ex_hdr = [5, 0, 0, 0, 1, 0, 0, 0, 0, 0, 0, 0]"

definition ex_m47 :: "byte \<Rightarrow> byte list" where
  "ex_m47 v = [10, 0, 0, 0, 47, 0, 1, 0, v, 0]"

definition ex_beat :: "byte list" where
  "ex_beat = [10, 0, 0, 0, 12, 0, 1, 0, 0, 0]"

definition ex_handler :: handler where
  "ex_handler = (handler_init False 3 True [Some 40, None] (\<lambda>_. None))
     \<lparr>securityid_to_asset_id := (\<lambda>_. None)(7 := Some 0)\<rparr>"

definition ex_good :: "byte list" where
  "ex_good = pack ex_hdr [ex_m47 0, ex_beat]"

definition ex_failing :: "byte list" where
  "ex_failing = pack ex_hdr [ex_beat, ex_m47 1]"

fun dec_summary :: "(bool \<times> bool \<times> handler) res \<Rightarrow> (bool \<times> (u32 \<times> u32) list \<times> u32) option" where
  "dec_summary (Inl e) = None"
| "dec_summary (Inr (ok, rst, h)) = Some (ok, stamped h, h_entry_idx h)"

lemma summary_SomeD: "dec_summary r = Some (ok, st, i) \<Longrightarrow> \<exists>rst h. r = Inr (ok, rst, h) \<and> stamped h = st \<and> h_entry_idx h = i"
  by (cases r) auto

lemmas ex_eval = mbo_data_def load_def le_nat_def packet_walk.simps decode_one_def wrapped_def critical_def
  decode47_def over_def mbo_update_def Let_def mbo_record_def note_order_def record_it_def to_book_def
  route_of_def end_of_packet_def stamped_def ex_sbe_def ex_hdr_def ex_m47_def ex_beat_def ex_handler_def
  ex_good_def ex_failing_def handler_init_def ex_entry_def pack_def

lemma ex_good_summary: "dec_summary (mbo_data ex_sbe (ex_good @ [0, 0]) 32 1 ex_handler) = Some (True, [(5, 0), (5, 1)], 0)"
  by (simp add: ex_eval)

lemma ex_failing_summary: "dec_summary (mbo_data ex_sbe ex_failing 32 1 ex_handler) = Some (False, [(5, 0), (5, 1)], 2)"
  by (simp add: ex_eval)

theorem mdp3_packet_roundtrip_witness:
  "mbo_data ex_sbe (ex_good @ [0, 0]) 32 1 ex_handler =
     bnd (decode_seq ex_sbe (ex_good @ [0, 0]) 1 5 1 12 [ex_m47 0, ex_beat] False ex_handler)
       (\<lambda>(ok, rst, h1). Inr (ok, rst, if ok then end_of_packet 5 1 h1 else h1))"
proof -
  have len: "length ex_hdr = 12" and n: "length (pack ex_hdr [ex_m47 0, ex_beat]) = 32"
    "le_nat 4 ex_hdr 0 = 5" "le_nat 8 ex_hdr 4 = 1"
    by (simp_all add: ex_hdr_def pack_def ex_m47_def ex_beat_def le_nat_def)
  have "\<forall>m\<in>set [ex_m47 0, ex_beat]. framed m"
    by (simp add: ex_m47_def ex_beat_def le_nat_def framed_def)
  from mdp3_packet_roundtrip [OF len this, of ex_sbe "[0, 0]" 1 ex_handler]
  show ?thesis
    unfolding n of_nat_numeral of_nat_1 ex_good_def .
qed

lemma ex_handler_facts: "binrec ex_handler" "h_entry_idx ex_handler = 0" "stamped ex_handler = []"
  by (simp_all add: ex_handler_def handler_init_def stamped_def)

theorem mdp3_records_numbered_witness:
  "\<exists>rst h1 n. mbo_data ex_sbe (ex_good @ [0, 0]) 32 1 ex_handler = Inr (True, rst, h1) \<and>
     stamped h1 = map (\<lambda>k. (of_nat (le_nat 4 (ex_good @ [0, 0]) 0), of_nat k)) [0..<n] \<and>
     length (stamped h1) = 2 \<and> h_entry_idx h1 = 0"
proof -
  obtain rst h1 where r: "mbo_data ex_sbe (ex_good @ [0, 0]) 32 1 ex_handler = Inr (True, rst, h1)"
    and n: "stamped h1 = [(5, 0), (5, 1)]"
    using summary_SomeD [OF ex_good_summary] by blast
  show ?thesis
    using mdp3_records_numbered [OF r ex_handler_facts(1,2)] r n ex_handler_facts(3) by auto
qed

theorem mdp3_failed_packet_keeps_counter_witness:
  "\<exists>rst h1 n. mbo_data ex_sbe ex_failing 32 1 ex_handler = Inr (False, rst, h1) \<and>
     stamped h1 = map (\<lambda>k. (of_nat (le_nat 4 ex_failing 0), of_nat k)) [0..<n] \<and>
     h_entry_idx h1 = of_nat n \<and> h_entry_idx h1 = 2"
proof -
  obtain rst h1 where r: "mbo_data ex_sbe ex_failing 32 1 ex_handler = Inr (False, rst, h1)"
    and n: "h_entry_idx h1 = 2"
    using summary_SomeD [OF ex_failing_summary] by blast
  show ?thesis
    using mdp3_failed_packet_keeps_counter [OF r ex_handler_facts(1,2)] r n ex_handler_facts(3) by auto
qed

definition ex_args :: "u64 \<Rightarrow> int \<Rightarrow> mbo_args" where
  "ex_args oid act = \<lparr>a_recv_time = 1, a_seq = 5, a_transactTime = 9, a_sendingTime = 1, a_securityID = 7,
     a_px_mantissa = 100, a_px_exponent = 0, a_side = CHR ''0'', a_displayQty = 5, a_orderID = oid,
     a_action = act, a_priority = 1, a_lastQuote = False, a_endOfEvent = True, a_recovery = False\<rparr>"

definition ex_trd :: trd_args where
  "ex_trd = \<lparr>ta_recv_time = 1, ta_seq = 5, ta_transactTime = 9, ta_sendingTime = 1, ta_lastQty = 2,
     ta_orderID = 21, ta_lastTrade = True, ta_endOfEvent = True\<rparr>"

definition ex_after_new :: handler where
  "ex_after_new = fold mbo_update [ex_args 22 0, ex_args 22 2] (mbo_update (ex_args 21 0) ex_handler)"


definition ex_long :: "byte list" where
  "ex_long = ex_hdr @ [200, 0, 0, 0, 12, 0, 1, 0, 0, 0]"

theorem mdp3_overlong_message_accepted_witness:
  "mbo_data ex_sbe ex_long 22 1 ex_handler = Inr (True, False, end_of_packet 5 1 ex_handler)"
proof -
  have n: "le_nat 2 ex_long 12 = 200" "le_nat 4 ex_long 0 = 5" "le_nat 8 ex_long 4 = 1"
    "14 \<le> length ex_long"
    by (simp_all add: ex_long_def ex_hdr_def le_nat_def)
  have "decode_one ex_sbe ex_long 12 200 1 5 1 False ex_handler = Inr (True, False, ex_handler)"
    by (simp add: decode_one_def load_def le_nat_def ex_long_def ex_hdr_def)
  then show ?thesis
    using mdp3_overlong_message_accepted [of 22 ex_long ex_sbe 1 ex_handler False ex_handler] n by simp
qed

end
