(* ===== verification/Mdp3_Recovery_Properties.thy ===== *)
theory Mdp3_Recovery_Properties
  imports Mdp3_Recovery Mdp3_Decoder_Properties
begin

text \<open>
  What the recovery actor guarantees: the books it reports come from one unbroken pass over the
  snapshot line, its walk stays inside the receive buffer, and two places where it gives away
  more than it has to.
\<close>

definition sn_of :: "datagram \<Rightarrow> u32" where
  "sn_of d = of_nat (le_nat 4 (fst d) 0)"

fun unbroken :: "u32 \<Rightarrow> u32 list \<Rightarrow> bool" where
  "unbroken c [] = True"
| "unbroken c (x # xs) = ((x = c \<or> x = c + 1 \<or> x = 1) \<and> unbroken x xs)"

lemma unbroken_snoc:
  "unbroken c (xs @ [x]) \<longleftrightarrow> unbroken c xs \<and> (let y = (if xs = [] then c else List.last xs) in x = y \<or> x = y + 1 \<or> x = 1)"
  by (induction xs arbitrary: c) (auto simp: Let_def)

text \<open>What the walk over a packet keeps.\<close>

definition walked :: "data_recovery \<Rightarrow> data_recovery \<Rightarrow> bool" where
  "walked s s1 \<longleftrightarrow> found_first_packet s1 = found_first_packet s \<and> curr_seq_num s1 = curr_seq_num s \<and>
     last_seq_num s1 \<le> last_seq_num s"

lemma walked_trans: "walked s s1 \<Longrightarrow> walked s1 s2 \<Longrightarrow> walked s s2"
  by (auto simp: walked_def)

lemma dr_snapshot_walked: "dr_snapshot st m s = Inr (Some s1) \<Longrightarrow> walked s s1 \<and> last_seq_num s1 \<le> x_lastMsgSeqNumProcessed m"
  by (auto simp: dr_snapshot_def walked_def Let_def split: if_splits)

lemma wrapped_Inr: "wrapped r f = Inr y \<longleftrightarrow> (\<exists>m. r = Some m \<and> f m = Inr y)"
  by (cases r) (auto simp: wrapped_def)

lemma dr_walk_walked: "dr_walk S p len st off s = Inr (Some s1) \<Longrightarrow> walked s s1"
proof (induction S p len st off s rule: dr_walk.induct)
  case (1 S p len st off s)
  show ?case
  proof (cases "off < len")
    case False
    then show ?thesis using 1(3) by (simp add: dr_walk.simps [of S p len st off] walked_def)
  next
    case True
    with 1(3) obtain msz blk tmpl ver where l: "load 2 p off = Inr msz" "\<not> (msz < 10 \<or> len < off + msz)"
      "load 2 p (off + 2) = Inr blk" "load 2 p (off + 4) = Inr tmpl" "load 2 p (off + 8) = Inr ver"
      and r: "(if tmpl = 52 \<or> tmpl = 12 then dr_walk S p len st (off + msz) s
              else if tmpl = 53 then
                bnd (wrapped (S p off blk ver msz) (\<lambda>m. dr_snapshot st m s)) (\<lambda>r.
                  case r of None \<Rightarrow> Inr None | Some s1 \<Rightarrow> dr_walk S p len st (off + msz) s1)
              else Inl (Assert ''got unknown TemplateID'')) = Inr (Some s1)"
      by (auto simp: dr_walk.simps [of S p len st off] simp del: One_nat_def split: if_split_asm)
    note IH = 1(1,2) [OF True l]
    show ?thesis
    proof (cases "tmpl = 52 \<or> tmpl = 12")
      case t: True
      then show ?thesis using IH(1) r by simp
    next
      case t: False
      then have "tmpl = 53" using r by (auto split: if_splits)
      then obtain m s2 where m: "S p off blk ver msz = Some m" "dr_snapshot st m s = Inr (Some s2)"
        "dr_walk S p len st (off + msz) s2 = Inr (Some s1)"
        using r t by (auto simp: wrapped_Inr split: option.splits)
      then have "walked s2 s1"
        using IH(2) [OF t \<open>tmpl = 53\<close>, of "Some s2" s2] by (simp add: wrapped_def)
      then show ?thesis
        using dr_snapshot_walked [OF m(2)] walked_trans by blast
    qed
  qed
qed

lemma step_of_one: "\<not> 1 < (x :: u32) - c \<Longrightarrow> x = c \<or> x = c + 1"
proof -
  assume "\<not> 1 < x - c"
  then have "x - c = 0 \<or> x - c = 1"
    by unat_arith
  then show ?thesis
    by (auto simp: algebra_simps)
qed

definition continues :: "datagram \<Rightarrow> data_recovery \<Rightarrow> bool" where
  "continues d s \<longleftrightarrow> sn_of d = 1 \<or>
     found_first_packet s \<and> (sn_of d = curr_seq_num s \<or> sn_of d = curr_seq_num s + 1)"

lemma dr_packet_cases:
  assumes "dr_packet S d s = Inr r"
  obtains
    (skip) "\<not> found_first_packet s" "sn_of d \<noteq> 1" "r = Reading s"
  | (restart) s1 where "r = Reading (dr_restart s1)" "last_seq_num s1 = last_seq_num s"
  | (read) s2 where "continues d s" "found_first_packet s2" "curr_seq_num s2 = sn_of d"
      "last_seq_num s2 \<le> last_seq_num s" "r = Reading s2"
  | (reply) s2 where "continues d s" "last_seq_num s2 \<le> last_seq_num s"
      "unat (numreports s2) \<le> length (recovered_books s2)" "r = Replied (last_seq_num s2) s2"
proof -
  define s1 where "s1 = (if sn_of d = 1 then s\<lparr>found_first_packet := True\<rparr> else s)"
  have s1: "curr_seq_num s1 = curr_seq_num s" "last_seq_num s1 = last_seq_num s"
    "found_first_packet s1 \<longleftrightarrow> found_first_packet s \<or> sn_of d = 1"
    by (simp_all add: s1_def)
  have len: "snd d \<noteq> 0" "load 4 (fst d) 0 = Inr (le_nat 4 (fst d) 0)"
    using assms by (auto simp: dr_packet_def load_def split: if_splits)
  have r: "(if \<not> found_first_packet s1 then Inr (Reading s1)
       else if sn_of d - curr_seq_num s1 > 1 \<and> sn_of d \<noteq> 1 then Inr (Reading (dr_restart s1))
       else bnd (load 8 (fst d) 4) (\<lambda>t.
            bnd (dr_walk S (fst d) (snd d) (of_nat t) 12 (s1\<lparr>curr_seq_num := sn_of d\<rparr>)) (\<lambda>r.
              case r of
                None \<Rightarrow> Inr (Reading (dr_restart (s1\<lparr>curr_seq_num := sn_of d\<rparr>)))
              | Some s2 \<Rightarrow>
                  if length (recovered_books s2) < unat (numreports s2) then Inr (Reading s2)
                  else Inr (Replied (last_seq_num s2) s2)))) = Inr r"
    using assms len by (simp only: dr_packet_def Let_def s1_def sn_of_def bnd_Inr if_False)
  show thesis
  proof (cases "found_first_packet s1")
    case False
    then show thesis
      using r s1(3) by (intro skip) (auto simp: s1_def split: if_splits)
  next
    case True
    show thesis
    proof (cases "sn_of d - curr_seq_num s1 > 1 \<and> sn_of d \<noteq> 1")
      case gap: True
      then show thesis using r True s1(2) by (intro restart [of s1]) auto
    next
      case gap: False
      have c: "continues d s"
        using gap True step_of_one [of "sn_of d" "curr_seq_num s1"] s1 by (auto simp: continues_def)
      have "bnd (load 8 (fst d) 4) (\<lambda>t.
            bnd (dr_walk S (fst d) (snd d) (of_nat t) 12 (s1\<lparr>curr_seq_num := sn_of d\<rparr>)) (\<lambda>r.
              case r of
                None \<Rightarrow> Inr (Reading (dr_restart (s1\<lparr>curr_seq_num := sn_of d\<rparr>)))
              | Some s2 \<Rightarrow>
                  if length (recovered_books s2) < unat (numreports s2) then Inr (Reading s2)
                  else Inr (Replied (last_seq_num s2) s2))) = Inr r"
        using r by (simp only: True gap if_False not_True_eq_False)
      then obtain t w where
        w: "dr_walk S (fst d) (snd d) (of_nat t) 12 (s1\<lparr>curr_seq_num := sn_of d\<rparr>) = Inr w" and
        o1: "(case w of None \<Rightarrow> Inr (Reading (dr_restart (s1\<lparr>curr_seq_num := sn_of d\<rparr>)))
            | Some s2 \<Rightarrow> if length (recovered_books s2) < unat (numreports s2) then Inr (Reading s2)
                  else Inr (Replied (last_seq_num s2) s2)) = (Inr r :: dr_state res)"
        unfolding bnd_eq_Inr by (elim exE conjE) (rule that)
      show thesis
      proof (cases w)
        case None
        then show thesis using o1 s1(2) by (intro restart [of "s1\<lparr>curr_seq_num := sn_of d\<rparr>"]) auto
      next
        case (Some s2)
        with w dr_walk_walked have k: "walked (s1\<lparr>curr_seq_num := sn_of d\<rparr>) s2" by blast
        show thesis
        proof (cases "length (recovered_books s2) < unat (numreports s2)")
          case more: True
          then show thesis
            using o1 Some k c s1 True by (intro read [of s2]) (auto simp: walked_def)
        next
          case more: False
          then show thesis
            using o1 Some k c s1 by (intro reply [of s2]) (auto simp: walked_def)
        qed
      qed
    qed
  qed
qed

section \<open>One unbroken pass\<close>

lemma dr_run_append:
  "dr_run S (xs @ ys) s = bnd (dr_run S xs s) (\<lambda>r. case r of Reading s1 \<Rightarrow> dr_run S ys s1 | Replied n s1 \<Rightarrow> Inr (Replied n s1))"
proof (induction xs arbitrary: s)
  case (Cons d xs)
  then show ?case
    by (cases "dr_packet S d s") (auto split: dr_state.split)
qed simp

text \<open>
  \<open>part\<close> is the pass the handler is in: it began at \<open>s1\<close>, with no books and no first packet seen,
  and has not been broken since.
\<close>

definition pass :: "snap53 reader \<Rightarrow> data_recovery \<Rightarrow> datagram list \<Rightarrow> data_recovery \<Rightarrow> bool" where
  "pass S s1 part s \<longleftrightarrow> recovered_books s1 = [] \<and> \<not> found_first_packet s1 \<and> dr_run S part s1 = Inr (Reading s) \<and>
     (if part = [] then s = s1
      else found_first_packet s \<and> sn_of (hd part) = 1 \<and> unbroken 1 (map sn_of part) \<and>
        curr_seq_num s = sn_of (List.last part))"

lemma pass_continues:
  assumes "pass S s1 part s" and "continues d s"
  shows "sn_of (hd (part @ [d])) = 1 \<and> unbroken 1 (map sn_of (part @ [d]))"
proof (cases "part = []")
  case True
  then have "\<not> found_first_packet s" using assms(1) unfolding pass_def by metis
  then have "sn_of d = 1" using assms(2) unfolding continues_def by blast
  then show ?thesis
    using True by (simp only: append_Nil list.map list.sel unbroken.simps simp_thms)
next
  case False
  then have p: "sn_of (hd part) = 1" "unbroken 1 (map sn_of part)" "curr_seq_num s = sn_of (List.last part)"
    using assms(1) by (simp_all add: pass_def)
  have d: "sn_of d = sn_of (List.last part) \<or> sn_of d = sn_of (List.last part) + 1 \<or> sn_of d = 1"
    using assms(2) unfolding continues_def p(3) by blast
  have l: "(map sn_of part = []) = False" "List.last (map sn_of part) = sn_of (List.last part)"
    using False by (simp_all add: last_map)
  have "unbroken 1 (map sn_of part @ [sn_of d])"
    unfolding unbroken_snoc Let_def l if_False using p(2) d by blast
  moreover have "hd (part @ [d]) = hd part"
    using False by simp
  ultimately show ?thesis
    using p(1) by (simp only: map_append list.map simp_thms)
qed

lemma passI:
  assumes "recovered_books s1 = []" "\<not> found_first_packet s1" "dr_run S part s1 = Inr (Reading s)" "part \<noteq> []"
    "found_first_packet s" "sn_of (hd part) = 1 \<and> unbroken 1 (map sn_of part)"
    "curr_seq_num s = sn_of (List.last part)"
  shows "pass S s1 part s"
  using assms by (simp add: pass_def)

lemma pass_Nil: "recovered_books s = [] \<Longrightarrow> \<not> found_first_packet s \<Longrightarrow> pass S s [] s"
  by (simp add: pass_def)

lemma dr_run_pass:
  assumes "dr_run S ds s = Inr (Replied n s')" and "pass S s1 part s" and "dr_run S pre s0 = Inr (Reading s1)"
  shows "\<exists>pre' cyc rest s2. pre @ part @ ds = pre' @ cyc @ rest \<and> cyc \<noteq> [] \<and> sn_of (hd cyc) = 1 \<and>
     unbroken 1 (map sn_of cyc) \<and> dr_run S pre' s0 = Inr (Reading s2) \<and> recovered_books s2 = [] \<and>
     \<not> found_first_packet s2 \<and> dr_run S cyc s2 = Inr (Replied n s') \<and>
     unat (numreports s') \<le> length (recovered_books s')"
  using assms
proof (induction ds arbitrary: s s1 part pre)
  case Nil
  then show ?case by simp
next
  case (Cons d ds)
  from Cons.prems(1) obtain r where r: "dr_packet S d s = Inr r"
    and k: "(case r of Reading s1 \<Rightarrow> dr_run S ds s1 | Replied n s1 \<Rightarrow> Inr (Replied n s1)) = Inr (Replied n s')"
    by auto
  have run: "dr_run S part s1 = Inr (Reading s)" and s1: "recovered_books s1 = []" "\<not> found_first_packet s1"
    using Cons.prems(2) by (simp_all add: pass_def)
  from r show ?case
  proof (cases rule: dr_packet_cases)
    case skip
    then have e: "part = []" "s = s1" using Cons.prems(2) unfolding pass_def by metis+
    have "dr_run S (pre @ [d]) s0 = Inr (Reading s)"
      using Cons.prems(3) r skip(3) unfolding e(2) by (simp add: dr_run_append)
    moreover have "pass S s [] s"
      using s1 e(2) by (simp add: pass_Nil)
    moreover have "dr_run S ds s = Inr (Replied n s')" using k skip(3) by simp
    ultimately show ?thesis
      using Cons.IH [of s s "[]" "pre @ [d]"] e(1) by simp
  next
    case (restart s2)
    have "dr_run S (pre @ part @ [d]) s0 = Inr (Reading (dr_restart s2))"
      using Cons.prems(3) run r restart(1) by (simp add: dr_run_append)
    moreover have "pass S (dr_restart s2) [] (dr_restart s2)"
      by (rule pass_Nil) (simp_all add: dr_restart_def)
    moreover have "dr_run S ds (dr_restart s2) = Inr (Replied n s')" using k restart(1) by simp
    ultimately show ?thesis
      using Cons.IH [of "dr_restart s2" "dr_restart s2" "[]" "pre @ part @ [d]"] by simp
  next
    case (read s2)
    have "pass S s1 (part @ [d]) s2"
      by (rule passI [OF s1 _ _ read(2) pass_continues [OF Cons.prems(2) read(1)]])
        (use run r read(3,5) in \<open>simp_all add: dr_run_append\<close>)
    moreover have "dr_run S ds s2 = Inr (Replied n s')" using k read(5) by simp
    ultimately show ?thesis
      using Cons.IH [of s2 s1 "part @ [d]" pre] Cons.prems(3) by simp
  next
    case (reply s2)
    then have "n = last_seq_num s2" "s' = s2" using k by auto
    moreover have "dr_run S (part @ [d]) s1 = Inr (Replied (last_seq_num s2) s2)"
      using run r reply(4) by (simp add: dr_run_append)
    ultimately show ?thesis
      using pass_continues [OF Cons.prems(2) reply(1)] s1 Cons.prems(3) reply(3)
      by (intro exI [of _ pre] exI [of _ "part @ [d]"] exI [of _ ds] exI [of _ s1]) simp
  qed
qed


section \<open>The number a recovery reports\<close>

lemma dr_restart_last [simp]: "last_seq_num (dr_restart s) = last_seq_num s"
  by (simp add: dr_restart_def)

lemma dr_run_last:
  "dr_run S ds s = Inr r \<Longrightarrow> case r of Reading s1 \<Rightarrow> last_seq_num s1 \<le> last_seq_num s | Replied n s1 \<Rightarrow> n \<le> last_seq_num s"
proof (induction ds arbitrary: s)
  case Nil
  then show ?case by auto
next
  case (Cons d ds)
  then obtain q where q: "dr_packet S d s = Inr q"
    and k: "(case q of Reading s1 \<Rightarrow> dr_run S ds s1 | Replied n s1 \<Rightarrow> Inr (Replied n s1)) = Inr r"
    by auto
  from q show ?case
  proof (cases rule: dr_packet_cases)
    case skip
    then show ?thesis using Cons.IH k by simp
  next
    case (restart s1)
    then show ?thesis using Cons.IH [of "dr_restart s1"] k by (cases r) simp_all
  next
    case (read s2)
    then show ?thesis using Cons.IH [of s2] k by (auto split: dr_state.splits)
  next
    case (reply s2)
    then show ?thesis using k by auto
  qed
qed

text \<open>
  The sequence number is carried over a restart: once any snapshot, of a pass that was later
  thrown away, was taken at a number, no later pass reports a higher one, however recent the
  books it rebuilt are.
\<close>
theorem mdp3_restart_keeps_old_number:
  assumes "dr_run S ds s = Inr (Reading s1)" and "dr_run S ds1 (dr_restart s1) = Inr (Replied n s2)"
  shows "n \<le> last_seq_num s1"
  using dr_run_last [OF assms(2)] by simp


section \<open>Memory safety of the book recovery\<close>

lemma defined_load: "off + n \<le> length p \<Longrightarrow> load n p off = Inr (le_nat n p off)"
  by (simp add: load_def)

lemma defined_snapshot: "defined (dr_snapshot st m s)"
  by (simp add: dr_snapshot_def snap_orders_def Let_def)

lemma defined_then: "defined r \<Longrightarrow> (\<And>x. r = Inr x \<Longrightarrow> defined (f x)) \<Longrightarrow> defined (bnd r f)"
  by (cases r) (auto simp: defined_def)

lemma defined_wrapped: "(\<And>m. r = Some m \<Longrightarrow> defined (f m)) \<Longrightarrow> defined (wrapped r f)"
  by (cases r) (auto simp: wrapped_def)

lemma dr_walk_defined: "len < length p \<Longrightarrow> defined (dr_walk S p len st off s)"
proof (induction S p len st off s rule: dr_walk.induct)
  case (1 S p len st off s)
  show ?case
  proof (cases "off < len")
    case False
    then show ?thesis by (simp add: dr_walk.simps [of S p len st off])
  next
    case True
    let ?sz = "le_nat 2 p off"
    have l: "load 2 p off = Inr ?sz"
      using True 1(3) by (intro defined_load) simp
    show ?thesis
    proof (cases "?sz < 10 \<or> len < off + ?sz")
      case bad: True
      then show ?thesis
        using True l by (subst dr_walk.simps) simp
    next
      case ok: False
      then have h: "load 2 p (off + 2) = Inr (le_nat 2 p (off + 2))" "load 2 p (off + 4) = Inr (le_nat 2 p (off + 4))"
        "load 2 p (off + 8) = Inr (le_nat 2 p (off + 8))"
        using 1(3) by (intro defined_load, simp)+
      note IH = 1(1,2) [OF True l ok h _ _]
      show ?thesis
        using True l ok h
        by (subst dr_walk.simps)
          (auto simp: 1(3) intro!: defined_then defined_wrapped defined_snapshot IH split: option.split)
    qed
  qed
qed

text \<open>
  C34. The walk over a snapshot packet checks each size before it trusts it: whatever bytes arrive,
  as long as a datagram does not fill the receive buffer to its last byte the handler reads
  nothing outside the buffer; it either reads on, replies or aborts with a message.
\<close>
theorem mdp3_recovery_reads_inside_buffer:
  assumes "12 \<le> length (fst d)" and "snd d < length (fst d)"
  shows "defined (dr_packet S d s)"
proof -
  have "load 4 (fst d) 0 = Inr (le_nat 4 (fst d) 0)" "load 8 (fst d) 4 = Inr (le_nat 8 (fst d) 4)"
    using assms(1) by (simp_all add: load_def)
  then show ?thesis
    using dr_walk_defined [OF assms(2)]
    by (auto simp: dr_packet_def Let_def intro!: defined_then split: option.split)
qed

section \<open>A wasted cycle of the instrument recovery\<close>

lemma ir_ignores:
  assumes "\<not> ir_found s" and "\<forall>d\<in>set ds. sn_of d \<noteq> 1 \<and> snd d \<noteq> 0 \<and> 4 \<le> length (fst d)"
  shows "ir_run S ds s = Inr (IReading s)"
  using assms(2)
proof (induction ds)
  case (Cons d ds)
  have "ir_packet S d s = Inr (IReading s)"
    using Cons.prems assms(1) by (simp add: ir_packet_def load_def Let_def sn_of_def)
  then show ?case using Cons by simp
qed simp

text \<open>
  When packet 1 comes round again before all definitions were received, the instrument
  recovery restarts but does not use that packet as the first of the new pass: it and every
  packet after it, up to the next packet 1, are thrown away.
\<close>
theorem mdp3_instrument_restart_skips_a_cycle:
  assumes "ir_found s" and "sn_of d = 1" and "snd d \<noteq> 0" and "4 \<le> length (fst d)"
    and "\<forall>x\<in>set ds. sn_of x \<noteq> 1 \<and> snd x \<noteq> 0 \<and> 4 \<le> length (fst x)"
  shows "ir_run S (d # ds) s = Inr (IReading (ir_restart s)) \<and>
     ir_handler (ir_restart s) = ir_handler s \<and> securities (ir_restart s) = securities s"
proof -
  have "ir_packet S d s = Inr (IReading (ir_restart s))"
    using assms(1-4) by (simp add: ir_packet_def load_def Let_def sn_of_def)
  moreover have "\<not> ir_found (ir_restart s)"
    by (simp add: ir_restart_def)
  ultimately show ?thesis
    using ir_ignores [OF _ assms(5), of "ir_restart s" S] by (simp add: ir_restart_def)
qed

section \<open>Concrete passes\<close>

text \<open>
  A codec that takes the number a snapshot was taken at from the block length field, announces
  one book and has no orders.
\<close>

definition ex_snap :: "snap53 reader" where
  "ex_snap p off blk ver n = Some \<lparr>x_totNumReports = 1, x_currentChunk = of_nat ver, x_noChunks = 1,
     x_securityID = 7, x_lastMsgSeqNumProcessed = of_nat blk, x_transactTime = 0, x_entries = Group [] False\<rparr>"

text \<open>The datagram of number \<open>n\<close> with the snapshot of chunk \<open>c\<close> taken at \<open>k\<close>.\<close>

definition ex_datagram :: "byte \<Rightarrow> byte \<Rightarrow> byte \<Rightarrow> datagram" where
  "ex_datagram n k c = ([n, 0, 0, 0, 0, 0, 0, 0, 0, 0, 0, 0, 10, 0, k, 0, 53, 0, 1, 0, c, 0, 0, 0], 22)"

definition ex_dr0 :: data_recovery where
  "ex_dr0 = data_recovery_init (handler_init False 3 True [Some 40] (\<lambda>_. None))"

lemmas ex_dr_eval = ex_dr0_def ex_datagram_def ex_snap_def data_recovery_init_def handler_init_def
  dr_packet_def load_def le_nat_def dr_walk.simps wrapped_def dr_snapshot_def snap_orders_def Let_def

text \<open>A pass that breaks at number 3 with a snapshot taken at 100, then one taken at 200.\<close>

definition ex_first :: "datagram list" where
  "ex_first = [ex_datagram 1 100 0]"

definition ex_second :: "datagram list" where
  "ex_second = [ex_datagram 1 200 0, ex_datagram 2 200 1]"

lemma ex_first_run: "\<exists>s1. dr_run ex_snap ex_first ex_dr0 = Inr (Reading s1) \<and> last_seq_num s1 = 100 \<and>
    dr_handler s1 = dr_handler ex_dr0"
  by (simp add: ex_first_def ex_dr_eval)

lemma ex_second_run: "last_seq_num s1 = 100 \<Longrightarrow>
    \<exists>s2. dr_run ex_snap ex_second (dr_restart s1) = Inr (Replied 100 s2)"
  by (simp add: ex_second_def dr_restart_def ex_dr_eval)

theorem mdp3_restart_keeps_old_number_witness:
  "\<exists>s1 n s2. dr_run ex_snap ex_first ex_dr0 = Inr (Reading s1) \<and>
     dr_run ex_snap ex_second (dr_restart s1) = Inr (Replied n s2) \<and> n \<le> last_seq_num s1 \<and> n = 100"
proof -
  obtain s1 where s1: "dr_run ex_snap ex_first ex_dr0 = Inr (Reading s1)" "last_seq_num s1 = 100"
    using ex_first_run by blast
  obtain s2 where s2: "dr_run ex_snap ex_second (dr_restart s1) = Inr (Replied 100 s2)"
    using ex_second_run [OF s1(2)] by blast
  show ?thesis
    using mdp3_restart_keeps_old_number [OF s1(1) s2] s1 s2 by blast
qed

lemma ex_pass_run: "\<exists>s2. dr_run ex_snap ex_second ex_dr0 = Inr (Replied 200 s2)"
  by (simp add: ex_second_def ex_dr_eval)


theorem mdp3_recovery_reads_inside_buffer_witness:
  "defined (dr_packet ex_snap ([1, 0, 0, 0, 0, 0, 0, 0, 0, 0, 0, 0, 200, 0, 0], 13) ex_dr0)"
  by (rule mdp3_recovery_reads_inside_buffer) simp_all

theorem mdp3_instrument_restart_skips_a_cycle_witness:
  "ir_run (\<lambda>t p off blk ver n. None) [ex_datagram 1 0 0, ex_datagram 2 0 0]
       ((instr_recovery_init ex_handler)\<lparr>ir_found := True\<rparr>) =
     Inr (IReading (ir_restart ((instr_recovery_init ex_handler)\<lparr>ir_found := True\<rparr>)))"
proof -
  have "sn_of (ex_datagram 1 0 0) = 1" "sn_of (ex_datagram 2 0 0) \<noteq> 1"
    by (simp_all add: sn_of_def ex_datagram_def le_nat_def)
  then show ?thesis
    using mdp3_instrument_restart_skips_a_cycle
      [of "(instr_recovery_init ex_handler)\<lparr>ir_found := True\<rparr>" "ex_datagram 1 0 0" "[ex_datagram 2 0 0]"]
    by (simp add: ex_datagram_def)
qed

end
