(* ===== verification/Tach_Book.thy ===== *)
theory Tach_Book
  imports OB_Feed
begin

text \<open>
  \<open>frame::ob::act::TachBook\<close> of \<open>src/frame_kaspr/include/frame/ob/act/TachBook.hpp\<close>: the book
  that follows the exchange's records and publishes a depth snapshot when it changed. A side is
  an array of \<open>ARRAY_SIZE\<close> aggregate sizes and the index of its best level; the orders are kept
  in a flat map that is only looked up, a HOL map here. The records, the payloads and the messages
  are those of \<open>OB_Feed\<close>, \<open>Payload\<close> and \<open>OB_Book\<close>, the held fills those of \<open>Fill_Slate\<close>.

  The array is a function, read and written at indices below \<open>ARRAY_SIZE\<close> only, which the guards
  of the code are shown to ensure by writing them out. The asset of \<open>ref::RefData\<close> can change
  between two records, so its tick size and exchange id are an argument of the handlers. A name
  of an actor comes from the argument \<open>nm\<close>. What is sent is in \<open>tb_sent\<close>, in sending order.
  Left out are the log lines and the time stamps nothing in the book reads.
\<close>

section \<open>One side\<close>

definition ARRAY_SIZE :: int where "ARRAY_SIZE = 1024 * 256"
definition INVALID_BID :: int where "INVALID_BID = -1"
definition INVALID_ASK :: int where "INVALID_ASK = ARRAY_SIZE"

lemmas ladder_consts = ARRAY_SIZE_def INVALID_BID_def INVALID_ASK_def

text \<open>The template argument \<open>SIDE\<close>: 0 is the bid side, 1 the ask side.\<close>

record OrderBookSide =
  lvls :: "int \<Rightarrow> u32"
  best :: int

definition invalid_px :: "nat \<Rightarrow> int" where
  "invalid_px SIDE = (if SIDE = 0 then INVALID_BID else INVALID_ASK)"

definition side_init :: "nat \<Rightarrow> OrderBookSide" where
  "side_init SIDE = \<lparr>lvls = (\<lambda>_. 0), best = invalid_px SIDE\<rparr>"

text \<open>The two loops: down over the \<open>n\<close> levels below, and up over the \<open>n\<close> levels from \<open>i\<close> on.\<close>

fun search_down :: "(int \<Rightarrow> u32) \<Rightarrow> nat \<Rightarrow> int" where
  "search_down lv 0 = INVALID_BID"
| "search_down lv (Suc n) = (if lv (int n) > 0 then int n else search_down lv n)"

fun search_up :: "(int \<Rightarrow> u32) \<Rightarrow> nat \<Rightarrow> int \<Rightarrow> int" where
  "search_up lv 0 i = INVALID_ASK"
| "search_up lv (Suc n) i = (if lv i > 0 then i else search_up lv n (i + 1))"

definition update_best_after_zero :: "nat \<Rightarrow> OrderBookSide \<Rightarrow> int \<Rightarrow> OrderBookSide" where
  "update_best_after_zero SIDE sd px =
     (if SIDE = 0 then sd\<lparr>best := search_down (lvls sd) (nat px)\<rparr>
      else sd\<lparr>best := search_up (lvls sd) (nat (ARRAY_SIZE - (px + 1))) (px + 1)\<rparr>)"

definition in_ladder :: "int \<Rightarrow> bool" where
  "in_ladder px \<longleftrightarrow> \<not> (px < 0 \<or> px \<ge> ARRAY_SIZE)"

text \<open>The new size of the level, and the best level after it.\<close>

definition level_after :: "u32 \<Rightarrow> int \<Rightarrow> u32" where
  "level_after old delta = (if delta < 0 \<and> uint old \<le> \<bar>delta\<bar> then 0 else old + of_int delta)"

definition set_level :: "nat \<Rightarrow> OrderBookSide \<Rightarrow> int \<Rightarrow> u32 \<Rightarrow> OrderBookSide" where
  "set_level SIDE sd px x =
     (let sd1 = sd\<lparr>lvls := (lvls sd)(px := x)\<rparr>
      in if x = 0 then (if px = best sd1 then update_best_after_zero SIDE sd1 px else sd1)
         else if SIDE = 0 then (if px > best sd1 then sd1\<lparr>best := px\<rparr> else sd1)
         else (if px < best sd1 then sd1\<lparr>best := px\<rparr> else sd1))"

definition update_sz :: "nat \<Rightarrow> OrderBookSide \<Rightarrow> int \<Rightarrow> int \<Rightarrow> OrderBookSide res" where
  "update_sz SIDE sd px delta =
     (if \<not> in_ladder px then Inr sd
      else bnd (if delta < 0 then ck32 \<bar>delta\<bar> else Inr delta)
        (\<lambda>_. Inr (set_level SIDE sd px (level_after (lvls sd px) delta))))"

definition get_sz :: "OrderBookSide \<Rightarrow> int \<Rightarrow> u32" where
  "get_sz sd px = (if \<not> in_ladder px then 0 else lvls sd px)"

definition clear_at_px :: "nat \<Rightarrow> OrderBookSide \<Rightarrow> int \<Rightarrow> OrderBookSide" where
  "clear_at_px SIDE sd px =
     (if lvls sd px = 0 then sd
      else (let sd1 = sd\<lparr>lvls := (lvls sd)(px := 0)\<rparr>
            in if px = best sd1 then update_best_after_zero SIDE sd1 px else sd1))"

definition clear_crossed :: "nat \<Rightarrow> OrderBookSide \<Rightarrow> int \<Rightarrow> OrderBookSide" where
  "clear_crossed SIDE sd px = (if get_sz sd px > 0 then clear_at_px SIDE sd px else sd)"

section \<open>State\<close>

record tach_asset =
  ta_units :: real
  ta_sec_id :: int

record TachBook =
  tb_bid :: OrderBookSide
  tb_ask :: OrderBookSide
  tb_orders :: "u64 \<Rightarrow> mbo option"
  tb_hiprio :: "actor list"
  tb_loprio :: "actor list"
  tb_aggr :: "actor list"
  tb_bbbosubs :: "actor list"
  tb_bbbo_only :: "actor list"
  tb_slate :: "payload FillSlate"
  tb_prev_bb :: int
  tb_prev_ba :: int
  tb_sym :: u32
  tb_maxprice :: int
  tb_have_scale :: bool
  tb_eob_counter :: int
  pb_calls :: u64
  pb_same :: u64
  pb_baddata :: u64
  pb_sent :: u64
  pb_noscale :: u64
  tb_dbg_px_left :: int
  tb_have_sec_id :: bool
  tb_sec_id :: int
  tb_prev_pl :: "payload option"
  tb_sent :: "(actor \<times> ob_msg) list"

definition TachBook_init :: "u32 \<Rightarrow> int \<Rightarrow> TachBook res" where
  "TachBook_init s maxpx =
     chk (maxpx \<le> ARRAY_SIZE) ''maxpx exceeds TachBook ladder''
      (Inr \<lparr>tb_bid = side_init 0, tb_ask = side_init 1, tb_orders = (\<lambda>_. None), tb_hiprio = [], tb_loprio = [],
         tb_aggr = [], tb_bbbosubs = [], tb_bbbo_only = [], tb_slate = FillSlate_init AT_DECISION,
         tb_prev_bb = 0, tb_prev_ba = 2 ^ 31 - 1, tb_sym = s, tb_maxprice = maxpx, tb_have_scale = False,
         tb_eob_counter = 0, pb_calls = 0, pb_same = 0, pb_baddata = 0, pb_sent = 0, pb_noscale = 0,
         tb_dbg_px_left = 5, tb_have_sec_id = False, tb_sec_id = 0, tb_prev_pl = None, tb_sent = []\<rparr>)"

definition post_all :: "actor list \<Rightarrow> ob_msg \<Rightarrow> TachBook \<Rightarrow> TachBook" where
  "post_all subs msg s = s\<lparr>tb_sent := tb_sent s @ map (\<lambda>a. (a, msg)) subs\<rparr>"

text \<open>
  \<open>to_px\<close> is \<open>Price::from_double\<close>, whose conversion to \<open>int\<close> has no guard. The tick size is
  positive when the scale is latched.
\<close>

definition to_px :: "real \<Rightarrow> real \<Rightarrow> int res" where
  "to_px un px =
     (let t = round_away (px / un + 1 / 10 ^ 7)
      in if un = 0 \<or> \<not> in32 t then Inl (Undefined ''conversion out of range'') else Inr t)"

section \<open>Subscriptions and identity\<close>

definition lower :: "char \<Rightarrow> char" where
  "lower c = (let n = (of_char c :: nat) in if 65 \<le> n \<and> n \<le> 90 then char_of (n + 32) else c)"

fun starts_as :: "string \<Rightarrow> string \<Rightarrow> bool" where
  "starts_as [] s = True"
| "starts_as (p # ps) [] = False"
| "starts_as (p # ps) (c # cs) = (lower p = lower c \<and> starts_as ps cs)"

fun icontains :: "string \<Rightarrow> string \<Rightarrow> bool" where
  "icontains [] p = starts_as p []"
| "icontains (c # cs) p = (starts_as p (c # cs) \<or> icontains cs p)"

definition name_has :: "string option \<Rightarrow> string \<Rightarrow> bool" where
  "name_has n p = (case n of None \<Rightarrow> False | Some s \<Rightarrow> icontains s p)"

definition update_bbbo_only_subs :: "TachBook \<Rightarrow> TachBook" where
  "update_bbbo_only_subs s = s\<lparr>tb_bbbo_only := filter (\<lambda>a. a \<notin> set (tb_hiprio s)) (tb_bbbosubs s)\<rparr>"

definition bbosubscribe_handler :: "TachBook \<Rightarrow> actor option \<Rightarrow> TachBook res" where
  "bbosubscribe_handler s sender =
     (case sender of None \<Rightarrow> Inl (Assert ''no sender'')
      | Some a \<Rightarrow> Inr (update_bbbo_only_subs (s\<lparr>tb_bbbosubs := tb_bbbosubs s @ [a]\<rparr>)))"

text \<open>The priority is the \<open>int\<close> of the message: 0 for low, 1 for high, 2 for \<open>AGGR\<close>, which aborts.\<close>

definition subscribe_handler :: "(actor \<Rightarrow> string option) \<Rightarrow> TachBook \<Rightarrow> actor option \<Rightarrow> int \<Rightarrow> TachBook res" where
  "subscribe_handler nm s sender prio =
     (case sender of None \<Rightarrow> Inl (Assert ''no sender'')
      | Some a \<Rightarrow>
          (let has = name_has (nm a);
               has_aggr = has ''aggr''; mtd = has ''MTD''; timer = has ''Timer''; sup = has ''super''; perf = has ''perf''
           in chk ((has_aggr \<or> mtd \<or> timer \<or> perf) \<and> \<not> sup) ''not allowed to subscribe''
               (if prio = 2 then Inl (Assert ''no aggr sub allowed'')
                else if prio = 0 then
                  chk (mtd \<or> timer) ''no low prio sub allowed''
                    (chk (a \<notin> set (tb_hiprio s)) ''subscriber already exists in hiprio_subs''
                      (Inr (s\<lparr>tb_loprio := tb_loprio s @ [a]\<rparr>)))
                else if prio = 1 then
                  chk (has_aggr \<or> perf) ''no hi prio sub allowed''
                    (chk (a \<notin> set (tb_loprio s)) ''subscriber already exists in loprio_subs''
                      (Inr (update_bbbo_only_subs (s\<lparr>tb_hiprio := tb_hiprio s @ [a]\<rparr>))))
                else Inl (Assert ''invalid sub prio''))))"

definition get_ex_id :: "tach_asset option \<Rightarrow> TachBook \<Rightarrow> TachBook \<times> int" where
  "get_ex_id a s =
     (let s1 = (case a of
                  Some x \<Rightarrow> if tb_have_sec_id s then s else s\<lparr>tb_sec_id := ta_sec_id x, tb_have_sec_id := True\<rparr>
                | None \<Rightarrow> s)
      in (s1, tb_sec_id s1))"

definition set_ex_sym_id :: "TachBook \<Rightarrow> u32 \<Rightarrow> TachBook" where
  "set_ex_sym_id s i = s\<lparr>tb_sec_id := sint i, tb_have_sec_id := True\<rparr>"

definition latch :: "tach_asset \<Rightarrow> TachBook \<Rightarrow> TachBook" where
  "latch a s =
     (if tb_have_sec_id s \<and> tb_have_scale s then s
      else (let s1 = (if \<not> tb_have_sec_id s \<and> ta_sec_id a \<noteq> 0
                      then s\<lparr>tb_sec_id := ta_sec_id a, tb_have_sec_id := True\<rparr> else s)
            in if \<not> tb_have_scale s1 \<and> ta_units a > 0 then s1\<lparr>tb_have_scale := True\<rparr> else s1))"

section \<open>Fills\<close>

definition send_trade :: "TachBook \<Rightarrow> payload \<Rightarrow> TachBook" where
  "send_trade s pl =
     (let msg = TradeNotify (pl\<lparr>p_point := point_init\<rparr>)
      in post_all (tb_hiprio s) msg (post_all (tb_aggr s) msg s))"

definition release_fill :: "TachBook \<Rightarrow> payload SlateFill \<times> FillRole \<Rightarrow> TachBook" where
  "release_fill s fr = (if snd fr = AGGRESSOR then s else send_trade s (f_pl (fst fr)))"

definition release_fills :: "TachBook \<Rightarrow> payload FillSlate \<times> payload releases \<Rightarrow> TachBook" where
  "release_fills s sr = foldl release_fill (s\<lparr>tb_slate := fst sr\<rparr>) (snd sr)"

definition tach_shutdown :: "TachBook \<Rightarrow> TachBook" where
  "tach_shutdown s = release_fills s (flush (tb_slate s))"

section \<open>Publication\<close>

definition create_point :: "TachBook \<Rightarrow> payload \<Rightarrow> point" where
  "create_point s pl =
     (let hb = best (tb_bid s); la = best (tb_ask s);
          pt0 = (p_point pl)\<lparr>bid_px := replicate NLEVELS 0, ask_px := replicate NLEVELS 0,
                            bid_sz := replicate NLEVELS 0, ask_sz := replicate NLEVELS 0\<rparr>
      in if la = INVALID_ASK then pt0\<lparr>baddata := True\<rparr>
         else if hb = INVALID_BID then pt0\<lparr>baddata := True\<rparr>
         else (let bs = sint (get_sz (tb_bid s) hb); as = sint (get_sz (tb_ask s) la) in
               pt0\<lparr>bid_px := map (\<lambda>i. hb - int i) [0..<NLEVELS],
                  bid_sz := map (\<lambda>i. sint (get_sz (tb_bid s) (hb - int i))) [0..<NLEVELS],
                  ask_px := map (\<lambda>i. la + int i) [0..<NLEVELS],
                  ask_sz := map (\<lambda>i. sint (get_sz (tb_ask s) (la + int i))) [0..<NLEVELS],
                  baddata := (hb \<ge> la \<or> hb \<le> 10 \<or> la \<ge> INVALID_ASK - 10 \<or> bs = 0 \<or> as = 0 \<or> hb = 0 \<or> la = 0),
                  pt_sym := uint (p_sym pl), pt_side := p_side pl, pt_action := p_action pl, pt_mev := p_mev pl\<rparr>))"

text \<open>The last step of \<open>publish_book\<close>: the best prices, when they moved and are not locked.\<close>

definition send_bbbo :: "TachBook \<Rightarrow> payload \<Rightarrow> TachBook" where
  "send_bbbo s pl =
     (let bb = bid_px (p_point pl) ! 0; ba = ask_px (p_point pl) ! 0
      in if (bb \<noteq> tb_prev_bb s \<or> ba \<noteq> tb_prev_ba s) \<and> bb \<noteq> ba
         then (post_all (tb_bbbosubs s)
                 (BBBOChg (p_txtim_epoch pl) (p_mkt pl) (p_side pl) (p_sym pl) bb ba) s)
                \<lparr>tb_prev_bb := bb, tb_prev_ba := ba\<rparr>
         else s)"

definition send_eob2 :: "TachBook \<Rightarrow> payload \<Rightarrow> TachBook" where
  "send_eob2 s pl =
     (let pt = p_point pl
      in if tb_eob_counter s mod 4 = 0
         then post_all (tb_loprio s)
                (EndOfBurst2 (tb_sym s) (p_txtim_epoch pl) (bid_px pt ! 0) (ask_px pt ! 0) (bid_sz pt ! 0) (ask_sz pt ! 0)
                   (pt_mev pt) (pt_action pt) (pt_side pt) 0) s
         else s)"

definition send_point :: "TachBook \<Rightarrow> payload \<Rightarrow> TachBook res" where
  "send_point s pl =
     (let s1 = s\<lparr>tb_prev_pl := Some pl, pb_sent := pb_sent s + 1\<rparr>;
          s2 = post_all (tb_hiprio s1) (EndOfBurst pl) (post_all (tb_aggr s1) (EndOfBurst pl) s1)
      in bnd (ck32 (tb_eob_counter s2 + 1))
           (\<lambda>n. Inr (send_bbbo (send_eob2 (s2\<lparr>tb_eob_counter := n\<rparr>) pl) pl)))"

definition publish_book :: "TachBook \<Rightarrow> payload \<Rightarrow> TachBook res" where
  "publish_book s0 pl0 =
     (let s = s0\<lparr>pb_calls := pb_calls s0 + 1\<rparr>;
          pl = pl0\<lparr>p_point := create_point s pl0\<rparr>
      in if baddata (p_point pl) then Inr (s\<lparr>pb_baddata := pb_baddata s + 1\<rparr>)
         else if (case tb_prev_pl s of None \<Rightarrow> False | Some q \<Rightarrow> fast_compare (p_point pl) (p_point q))
         then Inr (s\<lparr>pb_same := pb_same s + 1\<rparr>)
         else send_point s pl)"

section \<open>Book records\<close>

definition side_upd :: "TachBook \<Rightarrow> bs \<Rightarrow> int \<Rightarrow> int \<Rightarrow> TachBook res" where
  "side_upd s sd px delta =
     (if sd = BUY then bnd (update_sz 0 (tb_bid s) px delta) (\<lambda>b. Inr (s\<lparr>tb_bid := b\<rparr>))
      else if sd = SEL then bnd (update_sz 1 (tb_ask s) px delta) (\<lambda>a. Inr (s\<lparr>tb_ask := a\<rparr>))
      else Inr s)"

definition neg_qty :: "u32 \<Rightarrow> int res" where
  "neg_qty q = ck32 (- sint q)"

definition tach_payload :: "real \<Rightarrow> TachBook \<Rightarrow> mbo \<Rightarrow> bs \<Rightarrow> md \<Rightarrow> mt \<Rightarrow> u32 \<Rightarrow> u32 \<Rightarrow> real \<Rightarrow> payload res" where
  "tach_payload un s r sd mev act sz disp_sz px =
     bnd (make_payload un (mbo_handlerendtim r) sd (orderID r) 0 (tb_sym s) mev act sz disp_sz px
            (transactTime r) (sendingTime r) (venue r) (endOfEvent r) (recovery r))
       (\<lambda>p. Inr (p\<lparr>p_hndl_tim_epoch := mbo_handlerendtim r, p_txtim_epoch := transactTime r,
                 p_sendtim_epoch := sendingTime r\<rparr>))"

text \<open>An add of an order that is already there replaces it: the old size leaves its level.\<close>

definition drop_old :: "real \<Rightarrow> TachBook \<Rightarrow> u64 \<Rightarrow> TachBook res" where
  "drop_old un s i =
     (case tb_orders s i of
        None \<Rightarrow> Inr s
      | Some ex \<Rightarrow>
          bnd (mbo_get_side ex) (\<lambda>sd. bnd (to_px un (pxd ex)) (\<lambda>px. bnd (neg_qty (displayQty ex))
            (\<lambda>d. bnd (side_upd s sd px d) (\<lambda>s1. Inr (s1\<lparr>tb_orders := (tb_orders s1)(i := None)\<rparr>))))))"

text \<open>
  An add that reaches the other side clears the levels it reaches. The loop counter is an \<open>int\<close>
  that is compared with \<open>\<le>\<close>: it overflows for the largest price.
\<close>

definition uncross_add :: "TachBook \<Rightarrow> bs \<Rightarrow> int \<Rightarrow> TachBook res" where
  "uncross_add s sd px =
     (if sd = BUY then
        (let ba = best (tb_ask s) in
         if ba \<noteq> INVALID_ASK \<and> px \<ge> ba
         then bnd (ck32 (px + 1)) (\<lambda>_. Inr (s\<lparr>tb_ask := foldl (clear_crossed 1) (tb_ask s) [ba..px]\<rparr>))
         else Inr s)
      else if sd = SEL then
        (let bb = best (tb_bid s) in
         if bb \<noteq> INVALID_BID \<and> px \<le> bb
         then Inr (s\<lparr>tb_bid := foldl (clear_crossed 0) (tb_bid s) [px..bb]\<rparr>)
         else Inr s)
      else Inr s)"

definition tach_add :: "real \<Rightarrow> TachBook \<Rightarrow> mbo \<Rightarrow> (TachBook \<times> payload option) res" where
  "tach_add un s r =
     bnd (drop_old un s (orderID r))
       (\<lambda>s1. bnd (mbo_get_side r)
         (\<lambda>sd. bnd (to_px un (pxd r))
           (\<lambda>px. let s2 = s1\<lparr>tb_orders := (tb_orders s1)(orderID r \<mapsto> r),
                            tb_dbg_px_left := (if tb_dbg_px_left s1 > 0 then tb_dbg_px_left s1 - 1 else tb_dbg_px_left s1)\<rparr>
                 in bnd (side_upd s2 sd px (sint (displayQty r)))
                      (\<lambda>s3. bnd (uncross_add s3 sd px)
                        (\<lambda>s4. bnd (tach_payload un s4 r sd ADD MT_NONE (displayQty r) (displayQty r) (pxd r))
                          (\<lambda>pl. Inr (s4, Some pl)))))))"

definition is_replace :: "mbo \<Rightarrow> mbo \<Rightarrow> bool" where
  "is_replace r ord \<longleftrightarrow> displayQty r > displayQty ord \<or> pxd r > 0 \<and> \<not> px_eq (pxd r) (pxd ord)"

text \<open>The order leaves its level with the size \<open>oq\<close> and enters the new one with \<open>q\<close>.\<close>

definition move_order :: "real \<Rightarrow> TachBook \<Rightarrow> bs \<Rightarrow> int \<Rightarrow> u32 \<Rightarrow> real \<Rightarrow> u32 \<Rightarrow> TachBook res" where
  "move_order un s sd px oq new_pxd q =
     bnd (neg_qty oq) (\<lambda>d. bnd (side_upd s sd px d)
       (\<lambda>s1. bnd (to_px un new_pxd) (\<lambda>new_px. side_upd s1 sd new_px (sint q))))"

definition tach_replace :: "real \<Rightarrow> TachBook \<Rightarrow> mbo \<Rightarrow> mbo \<Rightarrow> bs \<Rightarrow> int \<Rightarrow> (TachBook \<times> mbo) res" where
  "tach_replace un s r ord sd px =
     (let q = displayQty r; oq = displayQty ord; same = px_eq (pxd r) (pxd ord) in
      if q > oq \<and> same then
        (let sz_delta = sint (q - oq) in
         chk (sz_delta > 0) ''sz_delta <=0 on canc replace''
           (bnd (side_upd s sd px sz_delta) (\<lambda>s1. Inr (s1, ord\<lparr>displayQty := q\<rparr>))))
      else if q = oq \<and> \<not> same then
        (if sd = BUY then
           bnd (neg_qty oq) (\<lambda>d. bnd (side_upd s BUY px d)
             (\<lambda>s1. chk (get_sz (tb_bid s1) px < 1000000) ''bid size <0 on canc replace''
                (bnd (to_px un (pxd r)) (\<lambda>new_px. bnd (side_upd s1 BUY new_px (sint q))
                  (\<lambda>s2. Inr (s2, ord\<lparr>pxd := pxd r\<rparr>))))))
         else bnd (move_order un s sd px q (pxd r) q) (\<lambda>s1. Inr (s1, ord\<lparr>pxd := pxd r\<rparr>)))
      else if q > oq \<and> \<not> same then
        chk (sint (q - oq) > 0) ''sz_delta <=0 on canc replace''
          (bnd (move_order un s sd px oq (pxd r) q) (\<lambda>s1. Inr (s1, ord\<lparr>pxd := pxd r, displayQty := q\<rparr>)))
      else if q < oq \<and> \<not> same then
        bnd (move_order un s sd px oq (pxd r) q) (\<lambda>s1. Inr (s1, ord\<lparr>pxd := pxd r, displayQty := q\<rparr>))
      else Inl (Assert ''should not be here in canc replace''))"

definition tach_reduce :: "TachBook \<Rightarrow> mbo \<Rightarrow> mbo \<Rightarrow> bs \<Rightarrow> int \<Rightarrow> (TachBook \<times> mbo) res" where
  "tach_reduce s r ord sd px =
     bnd (ck32 (sint (displayQty ord) - sint (displayQty r)))
       (\<lambda>sz_delta. bnd (ck32 (- sz_delta)) (\<lambda>d. bnd (side_upd s sd px d)
         (\<lambda>s1. Inr (s1, ord\<lparr>displayQty := displayQty r\<rparr>))))"

definition tach_canc :: "real \<Rightarrow> TachBook \<Rightarrow> mbo \<Rightarrow> (TachBook \<times> payload option) res" where
  "tach_canc un s r =
     (case tb_orders s (orderID r) of
        None \<Rightarrow> Inr (s, None)
      | Some ord \<Rightarrow>
          bnd (mbo_get_side ord) (\<lambda>sd. bnd (to_px un (pxd ord))
            (\<lambda>px. bnd (if is_replace r ord then tach_replace un s r ord sd px else tach_reduce s r ord sd px)
              (\<lambda>(s1, ord1). let s2 = s1\<lparr>tb_orders := (tb_orders s1)(orderID r \<mapsto> ord1)\<rparr> in
                 bnd (tach_payload un s2 r sd MOD CANC 0 (displayQty r) (pxd ord1)) (\<lambda>pl. Inr (s2, Some pl))))))"

definition side_of :: "TachBook \<Rightarrow> bs \<Rightarrow> OrderBookSide" where
  "side_of s sd = (if sd = BUY then tb_bid s else tb_ask s)"

definition tach_cancd :: "real \<Rightarrow> TachBook \<Rightarrow> mbo \<Rightarrow> (TachBook \<times> payload option) res" where
  "tach_cancd un s r =
     (case tb_orders s (orderID r) of
        None \<Rightarrow> Inr (s, None)
      | Some ord \<Rightarrow>
          bnd (mbo_get_side ord) (\<lambda>sd. bnd (to_px un (pxd ord))
            (\<lambda>px. if px < 0 \<or> px \<ge> ARRAY_SIZE
                  then Inr (s\<lparr>tb_orders := (tb_orders s)(orderID r := None)\<rparr>, None)
                  else bnd (neg_qty (displayQty ord)) (\<lambda>d. bnd (side_upd s sd px d)
                    (\<lambda>s1. chk (get_sz (side_of s1 sd) px < 10000000) ''size <0 on canc''
                      (bnd (tach_payload un s1 r sd MOD CANCD 0 0 (pxd ord))
                        (\<lambda>pl. Inr (s1\<lparr>tb_orders := (tb_orders s1)(orderID r := None)\<rparr>, Some pl))))))))"

definition release_on_book :: "TachBook \<Rightarrow> mbo \<Rightarrow> TachBook res" where
  "release_on_book s r =
     (if recovery r then Inr s
      else bnd (on_book (tb_slate s) (orderID r) (transactTime r) (orderUpdateAction r) (pxd r))
             (\<lambda>sr. Inr (release_fills s sr)))"

definition apply_mbo :: "real \<Rightarrow> TachBook \<Rightarrow> mbo \<Rightarrow> (TachBook \<times> payload option) res" where
  "apply_mbo un s r =
     (if orderUpdateAction r = 0 then tach_add un s r
      else if orderUpdateAction r = 1 then tach_canc un s r
      else if orderUpdateAction r = 2 then tach_cancd un s r
      else Inr (s, None))"

definition tach_mbo :: "real \<Rightarrow> TachBook \<Rightarrow> mbo \<Rightarrow> TachBook res" where
  "tach_mbo un s r =
     (if securityID r \<noteq> tb_sec_id s then Inr s
      else bnd (release_on_book s r) (\<lambda>s1. bnd (apply_mbo un s1 r)
        (\<lambda>(s2, pl). case pl of
             None \<Rightarrow> Inr s2
           | Some p \<Rightarrow> if recovery r then Inr s2 else publish_book s2 p)))"

section \<open>Trades and control records\<close>

definition trade_payload :: "real \<Rightarrow> TachBook \<Rightarrow> mbo_trd \<Rightarrow> mbo \<Rightarrow> bs \<Rightarrow> payload res" where
  "trade_payload un s r ord sd =
     bnd (make_payload un (t_handlerendtim r) sd (t_orderID r) 0 (tb_sym s) MOD EXEC (t_lastQty r) 0 (pxd ord)
            (t_transactTime r) (t_sendingTime r) (t_venue r) (t_endOfEvent r) False)
       (\<lambda>p. Inr (p\<lparr>p_hndl_tim_epoch := t_handlerendtim r, p_txtim_epoch := t_transactTime r,
                 p_sendtim_epoch := t_sendingTime r\<rparr>))"

definition slate_trade :: "real \<Rightarrow> TachBook \<Rightarrow> mbo_trd \<Rightarrow> mbo \<Rightarrow> bs \<Rightarrow> payload \<Rightarrow> TachBook res" where
  "slate_trade un s r ord sd pl =
     bnd (to_px un (pxd ord))
       (\<lambda>ord_px. Inr (release_fills s
          (on_trade (tb_slate s) (t_orderID r) (t_transactTime r) (pxd ord) (if sd = BUY then sBUY else sSEL)
             (t_lastQty r) (if sd = BUY then ord_px = best (tb_bid s) else ord_px = best (tb_ask s)) pl)))"

definition tach_trd :: "real \<Rightarrow> TachBook \<Rightarrow> mbo_trd \<Rightarrow> TachBook res" where
  "tach_trd un s0 r =
     (let s = release_fills s0 (advance (tb_slate s0) (t_transactTime r)) in
      case tb_orders s (t_orderID r) of
        None \<Rightarrow> Inr s
      | Some ord \<Rightarrow>
          bnd (mbo_get_side ord) (\<lambda>sd. bnd (trade_payload un s r ord sd)
            (\<lambda>pl. if sd \<noteq> BUY \<and> sd \<noteq> SEL then Inr (send_trade s pl) else slate_trade un s r ord sd pl)))"

definition tach_reset :: "TachBook \<Rightarrow> TachBook" where
  "tach_reset s =
     (let s1 = s\<lparr>tb_ask := side_init 1, tb_bid := side_init 0, tb_orders := (\<lambda>_. None)\<rparr>;
          s2 = release_fills s1 (flush (tb_slate s1));
          msg = ClearMsg (tb_sym s2)
      in post_all (tb_loprio s2) msg (post_all (tb_hiprio s2) msg s2))"

definition tach_gap :: "TachBook \<Rightarrow> TachBook" where
  "tach_gap s = (let msg = GapDetected (tb_sym s) in post_all (tb_loprio s) msg (post_all (tb_hiprio s) msg s))"

definition tach_data :: "tach_asset \<Rightarrow> TachBook \<Rightarrow> Data \<Rightarrow> TachBook res" where
  "tach_data a s0 m =
     (let s = latch a s0; un = ta_units a in
      if \<not> tb_have_scale s then Inr (s\<lparr>pb_noscale := pb_noscale s + 1\<rparr>)
      else (case d_l3 m of
              MBO r \<Rightarrow> tach_mbo un s r
            | MBO_TRD r \<Rightarrow> tach_trd un s r
            | CHR_REC v \<Rightarrow> Inr (tach_reset s)
            | GAP_REC v \<Rightarrow> Inr (tach_gap s)
            | EOB \<Rightarrow> (case d_sender m of None \<Rightarrow> Inl (Undefined ''null dereference'') | Some x \<Rightarrow> Inr s)
            | _ \<Rightarrow> Inr s))"

section \<open>The actor\<close>

datatype tach_in =
    TData tach_asset Data
  | TSubscribe "actor option" int
  | TBBBOSub "actor option"
  | TGetId "tach_asset option"
  | TSetId u32
  | TShutdown

definition tach_step :: "(actor \<Rightarrow> string option) \<Rightarrow> TachBook \<Rightarrow> tach_in \<Rightarrow> TachBook res" where
  "tach_step nm s i =
     (case i of
        TData a m \<Rightarrow> tach_data a s m
      | TSubscribe who p \<Rightarrow> subscribe_handler nm s who p
      | TBBBOSub who \<Rightarrow> bbosubscribe_handler s who
      | TGetId a \<Rightarrow> Inr (fst (get_ex_id a s))
      | TSetId v \<Rightarrow> Inr (set_ex_sym_id s v)
      | TShutdown \<Rightarrow> Inr (tach_shutdown s))"

fun tach_run :: "(actor \<Rightarrow> string option) \<Rightarrow> TachBook \<Rightarrow> tach_in list \<Rightarrow> TachBook res" where
  "tach_run nm s [] = Inr s"
| "tach_run nm s (i # is) = bnd (tach_step nm s i) (\<lambda>s1. tach_run nm s1 is)"

end
