(* ===== verification/Mdp3_Line.thy ===== *)
theory Mdp3_Line
  imports Mdp3_Sequence_Properties Mdp3_Recovery_Properties Tach_Book
begin

text \<open>
  The channel put together: \<open>MessageProcessor\<close> runs the program's own decoder, whose handler
  sends to the books. A packet that fails must reach the subscribers of every book as a gap
  before the recovery it causes, and the number the recovery replies with must not hand the
  decoder a packet a second time.
\<close>

section \<open>A packet that fails\<close>

lemma failing_packet:
  assumes "live s" and "msg_q s = []" and "recovery_processor s"
    and "unat (mb_seqnum b) = Suc (unat (qseq_num s))"
    and "on_decode_packet D (packet_of b (mb_recv_ts b)) (mp_decoder s) = Inr (False, rst, d1)"
    and "on_gap D d1 = Inr d2"
  shows "\<exists>s1. mp_packet D b s = Inr s1 \<and> mp_decoder s1 = d2 \<and> in_data_recovery s1 \<and>
     qseq_num s1 = qseq_num s \<and> msg_q s1 = [(mb_seqnum b, b)] \<and>
     mp_out s1 = mp_out s @ [Decode (mb_seqnum b) (packet_of b (mb_recv_ts b)) False, GapCmd, DoDataRecovery]"
proof -
  have "mb_seqnum b = word_of_nat (Suc (unat (qseq_num s)))"
    unfolding assms(4) [symmetric] by simp
  then have sn: "mb_seqnum b = qseq_num s + 1"
    by simp
  moreover have "(qseq_num s + 1 \<le> qseq_num s) = False"
    unfolding sn [symmetric] by (simp add: word_le_nat_alt assms(4))
  ultimately show ?thesis
    using assms(1-3,5,6)
    by (simp add: mp_packet_def processq_def try_emplace_def live_def do_data_recovery_def Let_def
        mp_emit_def packet_of_def)
qed

lemma gap_to_books: "Some bk \<in> set (mbo_order_books h) \<Longrightarrow> (ToBook bk, WGap (xchg h)) \<in> set (h_sends (h_gap h))"
  by (force simp: h_gap_def record_it_def to_all_def live_books_def Let_def)

lemma tach_gap_data:
  assumes "tb_have_scale t" and "d_l3 m = to_l3 (WGap x)"
  shows "\<exists>t1. tach_data a t m = Inr t1 \<and> tb_bid t1 = tb_bid t \<and> tb_ask t1 = tb_ask t \<and>
     (\<forall>w\<in>set (tb_hiprio t) \<union> set (tb_loprio t). (w, GapDetected (tb_sym t)) \<in> set (tb_sent t1))"
  using assms by (auto simp: tach_data_def latch_def tach_gap_def post_all_def Let_def)

text \<open>
  C31. When the next packet in order cannot be decoded, the actor keeps it and its place in the
  numbering, has every book of the channel told of the gap, and then asks for a snapshot; a
  \<open>TachBook\<close> that knows its price scale passes the gap on to each of its subscribers and leaves
  its levels alone.
\<close>
theorem mdp3_failed_packet_alerts_books:
  assumes "live s" and "msg_q s = []" and "recovery_processor s"
    and "unat (mb_seqnum b) = Suc (unat (qseq_num s))"
    and "mbo_data S (mb_message b) (mb_len b) (mb_recv_ts b) (set_ingress_qlen (mb_qlen b) (mp_decoder s))
         = Inr (False, rst, h1)"
    and "Some bk \<in> set (mbo_order_books h1)" and "tb_have_scale t" and "d_l3 m = to_l3 (WGap (xchg h1))"
  shows "(\<exists>s1. mp_packet (data_decoder S) b s = Inr s1 \<and> in_data_recovery s1 \<and>
       qseq_num s1 = qseq_num s \<and> msg_q s1 = [(mb_seqnum b, b)] \<and>
       (ToBook bk, WGap (xchg h1)) \<in> set (h_sends (mp_decoder s1)) \<and>
       mp_out s1 = mp_out s @ [Decode (mb_seqnum b) (packet_of b (mb_recv_ts b)) False, GapCmd, DoDataRecovery])
     \<and> (\<exists>t1. tach_data a t m = Inr t1 \<and> tb_bid t1 = tb_bid t \<and> tb_ask t1 = tb_ask t \<and>
       (\<forall>w\<in>set (tb_hiprio t) \<union> set (tb_loprio t). (w, GapDetected (tb_sym t)) \<in> set (tb_sent t1)))"
proof -
  have d: "on_decode_packet (data_decoder S) (packet_of b (mb_recv_ts b)) (mp_decoder s) = Inr (False, rst, h1)"
    using assms(5) by (simp add: data_decoder_def packet_of_def)
  have g: "on_gap (data_decoder S) h1 = Inr (h_gap h1)"
    by (simp add: data_decoder_def)
  show ?thesis
    using failing_packet [OF assms(1-4) d g] gap_to_books [OF assms(6)] tach_gap_data [OF assms(7,8), of a]
    by fastforce
qed

section \<open>Packets queued during a recovery\<close>

lemma drain_drops:
  assumes "\<forall>e\<in>set q. fst e \<le> qseq_num s"
  shows "drain D ts q s = Inr (s\<lparr>msg_q := []\<rparr>)"
  using assms
  by (induction q) (auto split: prod.splits)


section \<open>Concrete channels\<close>

definition ex_channel :: "handler MessageProcessor" where
  "ex_channel = (MessageProcessor_init True ex_handler True False)\<lparr>qseq_num := 4\<rparr>"

definition ex_bad_buf :: message_buffer where
  "ex_bad_buf = (ex_buf 5 ex_failing)\<lparr>mb_len := 32, mb_recv_ts := 1\<rparr>"

definition ex_scaled :: TachBook where
  "ex_scaled = (case TachBook_init 9 1000 of Inr t \<Rightarrow> t\<lparr>tb_have_scale := True, tb_hiprio := [2], tb_loprio := [3]\<rparr>
     | Inl e \<Rightarrow> undefined)"

definition ex_gap_data :: Data where
  "ex_gap_data = undefined\<lparr>d_l3 := GAP_REC 3\<rparr>"

lemma ex_bad_decode:
  "\<exists>rst h1. mbo_data ex_sbe (mb_message ex_bad_buf) (mb_len ex_bad_buf) (mb_recv_ts ex_bad_buf)
      (set_ingress_qlen (mb_qlen ex_bad_buf) (mp_decoder ex_channel)) = Inr (False, rst, h1) \<and>
      mbo_order_books h1 = [Some 40, None] \<and> xchg h1 = 3"
  by (simp add: ex_eval ex_bad_buf_def ex_buf_def ex_channel_def MessageProcessor_init_def set_ingress_qlen_def)
    blast

theorem mdp3_failed_packet_alerts_books_witness:
  "\<exists>s1 t1. mp_packet (data_decoder ex_sbe) ex_bad_buf ex_channel = Inr s1 \<and> in_data_recovery s1 \<and>
     (ToBook 40, WGap 3) \<in> set (h_sends (mp_decoder s1)) \<and>
     tach_data \<lparr>ta_units = 1, ta_sec_id = 0\<rparr> ex_scaled ex_gap_data = Inr t1 \<and>
     (2, GapDetected 9) \<in> set (tb_sent t1)"
proof -
  obtain rst h1 where d: "mbo_data ex_sbe (mb_message ex_bad_buf) (mb_len ex_bad_buf) (mb_recv_ts ex_bad_buf)
      (set_ingress_qlen (mb_qlen ex_bad_buf) (mp_decoder ex_channel)) = Inr (False, rst, h1)"
    and h1: "mbo_order_books h1 = [Some 40, None]" "xchg h1 = 3"
    using ex_bad_decode by blast
  have c: "live ex_channel" "msg_q ex_channel = []" "recovery_processor ex_channel"
    "unat (mb_seqnum ex_bad_buf) = Suc (unat (qseq_num ex_channel))"
    by (simp_all add: ex_channel_def MessageProcessor_init_def live_def ex_bad_buf_def ex_buf_def)
  have t: "tb_have_scale ex_scaled" "tb_hiprio ex_scaled = [2]" "tb_sym ex_scaled = 9"
    by (simp_all add: ex_scaled_def TachBook_init_def ARRAY_SIZE_def)
  have m: "d_l3 ex_gap_data = to_l3 (WGap (xchg h1))"
    by (simp add: ex_gap_data_def h1)
  have b: "Some 40 \<in> set (mbo_order_books h1)"
    by (simp add: h1)
  from mdp3_failed_packet_alerts_books [OF c d b t(1) m, of "\<lparr>ta_units = 1, ta_sec_id = 0\<rparr>"]
  show ?thesis
    unfolding h1(2) t(2,3) by auto
qed

definition ex_recovering :: "nat MessageProcessor" where
  "ex_recovering = ex_mp\<lparr>in_data_recovery := True, msg_q := [(12, ex_buf 12 []), (14, ex_buf 14 [])]\<rparr>"


end
