(* ===== verification/Tach_Ladder.thy ===== *)
theory Tach_Ladder
  imports Tach_Book
begin

text \<open>
  The ladder of \<open>Tach_Book\<close>. The interface \<open>price_ladder\<close> states what a book may assume of one
  side: setting the size of a level changes that level only, and the best price is exact. It is
  proved of \<open>OrderBookSide\<close> for both values of the template argument, and the operations of
  \<open>TachBook\<close> are shown to change the sides through it only.
\<close>

section \<open>The interface\<close>

locale price_ladder =
  fixes size_at :: "'s \<Rightarrow> int \<Rightarrow> u32"
    and set_at :: "'s \<Rightarrow> int \<Rightarrow> u32 \<Rightarrow> 's"
    and top :: "'s \<Rightarrow> int"
    and no_top :: int
    and better :: "int \<Rightarrow> int \<Rightarrow> bool"
    and ok :: "'s \<Rightarrow> bool"
  assumes size_set: "size_at (set_at s px x) p = (if p = px then x else size_at s p)"
    and ok_set: "ok s \<Longrightarrow> in_ladder px \<Longrightarrow> ok (set_at s px x)"
    and top_none: "ok s \<Longrightarrow> top s = no_top \<Longrightarrow> in_ladder p \<Longrightarrow> size_at s p = 0"
    and top_some: "ok s \<Longrightarrow> top s \<noteq> no_top \<Longrightarrow> in_ladder (top s) \<and> size_at s (top s) \<noteq> 0"
    and top_best: "ok s \<Longrightarrow> in_ladder p \<Longrightarrow> size_at s p \<noteq> 0 \<Longrightarrow> p = top s \<or> better (top s) p"
    and better_asym: "better p q \<Longrightarrow> \<not> better q p"
    and no_top_out: "\<not> in_ladder no_top"
begin

text \<open>The sizes determine the best price.\<close>

lemma top_unique:
  assumes "ok s" "ok s'" "\<And>p. in_ladder p \<Longrightarrow> (size_at s p = 0) = (size_at s' p = 0)"
  shows "top s = top s'"
proof (cases "top s = no_top")
  case True
  then have "in_ladder p \<Longrightarrow> size_at s' p = 0" for p
    using assms(3) top_none [OF assms(1)] by simp
  then show ?thesis
    using top_some [OF assms(2)] True by metis
next
  case False
  then have "in_ladder (top s)" "size_at s' (top s) \<noteq> 0"
    using top_some [OF assms(1)] assms(3) by auto
  then have one: "top s = top s' \<or> better (top s') (top s)" and ne: "top s' \<noteq> no_top"
    using top_best [OF assms(2)] top_none [OF assms(2)] by blast+
  have "top s' = top s \<or> better (top s) (top s')"
    using top_some [OF assms(2) ne] top_best [OF assms(1)] assms(3) by auto
  then show ?thesis
    using one better_asym by metis
qed

text \<open>A level that gets a size is the best one or worse than the best one.\<close>

lemma top_after_set:
  assumes "ok s" "in_ladder px" "x \<noteq> 0"
  shows "top (set_at s px x) = px \<or> better (top (set_at s px x)) px"
  using top_best [OF ok_set [OF assms(1,2), of x] assms(2)] assms(3) by (auto simp: size_set)

text \<open>Emptying a level that is not the best keeps the best price.\<close>

lemma top_after_clear:
  assumes "ok s" "in_ladder px" "px \<noteq> top s"
  shows "top (set_at s px 0) = top s"
proof (cases "top s = no_top")
  case True
  then have "\<And>p. in_ladder p \<Longrightarrow> size_at (set_at s px 0) p = 0"
    using top_none [OF assms(1)] by (simp add: size_set)
  then show ?thesis
    using top_some [OF ok_set [OF assms(1,2), of 0]] True by metis
next
  case False
  let ?t = "set_at s px 0"
  have t: "in_ladder (top s)" "size_at ?t (top s) \<noteq> 0"
    using top_some [OF assms(1) False] assms(3) by (auto simp: size_set)
  then have one: "top s = top ?t \<or> better (top ?t) (top s)" and ne: "top ?t \<noteq> no_top"
    using top_best [OF ok_set [OF assms(1,2)]] top_none [OF ok_set [OF assms(1,2)]] by blast+
  have "top ?t = top s \<or> better (top s) (top ?t)"
    using top_some [OF ok_set [OF assms(1,2)] ne] top_best [OF assms(1)] by (auto simp: size_set split: if_splits)
  then show ?thesis
    using one better_asym by metis
qed

end

section \<open>The sides of TachBook\<close>

definition best_ok :: "nat \<Rightarrow> OrderBookSide \<Rightarrow> bool" where
  "best_ok SIDE sd \<longleftrightarrow>
     (if best sd = invalid_px SIDE then \<forall>i. in_ladder i \<longrightarrow> lvls sd i = 0
      else in_ladder (best sd) \<and> lvls sd (best sd) \<noteq> 0
        \<and> (\<forall>i. in_ladder i \<and> lvls sd i \<noteq> 0 \<longrightarrow> (if SIDE = 0 then i \<le> best sd else best sd \<le> i)))"

lemma search_down_spec:
  "search_down lv n = INVALID_BID \<and> (\<forall>i. 0 \<le> i \<and> i < int n \<longrightarrow> lv i = 0)
   \<or> 0 \<le> search_down lv n \<and> search_down lv n < int n \<and> lv (search_down lv n) \<noteq> 0
     \<and> (\<forall>i. search_down lv n < i \<and> i < int n \<longrightarrow> lv i = 0)"
proof (induction n)
  case 0
  then show ?case by auto
next
  case (Suc n)
  have split: "i < 1 + int n \<longleftrightarrow> i < int n \<or> i = int n" for i by auto
  show ?case
  proof (cases "lv (int n) = 0")
    case True
    then have "search_down lv (Suc n) = search_down lv n" by simp
    then show ?thesis
      using Suc.IH True by (simp only: of_nat_Suc split) (metis less_irrefl)
  qed (auto simp: word_neq_0_conv)
qed

lemma search_up_spec:
  "search_up lv n i = INVALID_ASK \<and> (\<forall>j. i \<le> j \<and> j < i + int n \<longrightarrow> lv j = 0)
   \<or> i \<le> search_up lv n i \<and> search_up lv n i < i + int n \<and> lv (search_up lv n i) \<noteq> 0
     \<and> (\<forall>j. i \<le> j \<and> j < search_up lv n i \<longrightarrow> lv j = 0)"
proof (induction lv n i rule: search_up.induct)
  case (1 lv i)
  then show ?case by auto
next
  case (2 lv n i)
  show ?case
  proof (cases "lv i = 0")
    case True
    have split: "i \<le> j \<longleftrightarrow> j = i \<or> i + 1 \<le> j" for j by auto
    have eq: "i + 1 + int n = i + int (Suc n)" by simp
    have "search_up lv (Suc n) i = search_up lv n (i + 1)"
      using True by simp
    then show ?thesis
      using "2.IH" True unfolding eq split by (metis word_neq_0_conv less_irrefl)
  qed (auto simp: word_neq_0_conv)
qed

lemma invalid_px_out: "\<not> in_ladder (invalid_px SIDE)"
  by (simp add: in_ladder_def invalid_px_def ladder_consts)

lemma side_init_ok: "best_ok SIDE (side_init SIDE)"
  by (simp add: best_ok_def side_init_def)

lemma best_okD:
  assumes "best_ok SIDE sd" "in_ladder i" "lvls sd i \<noteq> 0"
  shows "if SIDE = 0 then i \<le> best sd else best sd \<le> i"
  using assms by (auto simp: best_ok_def split: if_splits)

lemma best_ok_zero:
  assumes "best_ok SIDE sd" "in_ladder px" "px = best sd"
  shows "best_ok SIDE (update_best_after_zero SIDE (sd\<lparr>lvls := (lvls sd)(px := 0)\<rparr>) px)"
proof (cases "SIDE = 0")
  case True
  let ?lv = "(lvls sd)(px := 0)"
  have above: "?lv i = 0" if "in_ladder i" "\<not> i < px" for i
    using best_okD [OF assms(1) that(1)] that(2) assms(3) True by (cases "i = px") auto
  have eq: "int (nat px) = px"
    using assms(2) by (simp add: in_ladder_def)
  show ?thesis
    using search_down_spec [of ?lv "nat px"]
  proof
    assume "search_down ?lv (nat px) = INVALID_BID \<and> (\<forall>i. 0 \<le> i \<and> i < int (nat px) \<longrightarrow> ?lv i = 0)"
    then show ?thesis
      using above True eq by (simp add: best_ok_def update_best_after_zero_def invalid_px_def in_ladder_def) (metis not_less)
  next
    let ?b = "search_down ?lv (nat px)"
    assume b: "0 \<le> ?b \<and> ?b < int (nat px) \<and> ?lv ?b \<noteq> 0 \<and> (\<forall>i. ?b < i \<and> i < int (nat px) \<longrightarrow> ?lv i = 0)"
    then have "in_ladder ?b" "?b \<noteq> INVALID_BID"
      using assms(2) by (auto simp: in_ladder_def ladder_consts)
    moreover have "i \<le> ?b" if "in_ladder i" "?lv i \<noteq> 0" for i
      using b above that eq by (metis not_less)
    ultimately show ?thesis
      using True b by (simp add: best_ok_def update_best_after_zero_def invalid_px_def)
  qed
next
  case False
  let ?lv = "(lvls sd)(px := 0)"
  let ?n = "nat (ARRAY_SIZE - (px + 1))"
  have below: "?lv i = 0" if "in_ladder i" "\<not> px + 1 \<le> i" for i
    using best_okD [OF assms(1) that(1)] that(2) assms(3) False by (cases "i = px") auto
  have eq: "px + 1 + int ?n = ARRAY_SIZE"
    using assms(2) by (simp add: in_ladder_def)
  have lad: "in_ladder i \<Longrightarrow> i < px + 1 + int ?n" for i
    unfolding eq by (simp add: in_ladder_def)
  show ?thesis
    using search_up_spec [of ?lv ?n "px + 1"]
  proof
    assume "search_up ?lv ?n (px + 1) = INVALID_ASK \<and> (\<forall>i. px + 1 \<le> i \<and> i < px + 1 + int ?n \<longrightarrow> ?lv i = 0)"
    then show ?thesis
      using below lad False by (simp add: best_ok_def update_best_after_zero_def invalid_px_def) metis
  next
    let ?b = "search_up ?lv ?n (px + 1)"
    assume b: "px + 1 \<le> ?b \<and> ?b < px + 1 + int ?n \<and> ?lv ?b \<noteq> 0 \<and> (\<forall>i. px + 1 \<le> i \<and> i < ?b \<longrightarrow> ?lv i = 0)"
    then have "in_ladder ?b" "?b \<noteq> INVALID_ASK"
      using assms(2) unfolding eq by (auto simp: in_ladder_def ladder_consts)
    moreover have "?b \<le> i" if "in_ladder i" "?lv i \<noteq> 0" for i
      using b below that by (metis not_less)
    ultimately show ?thesis
      using False b by (auto simp: best_ok_def update_best_after_zero_def invalid_px_def)
  qed
qed

lemma lvls_zero [simp]: "lvls (update_best_after_zero SIDE sd px) = lvls sd"
  by (simp add: update_best_after_zero_def)

lemma lvls_set_level: "lvls (set_level SIDE sd px x) p = (if p = px then x else lvls sd p)"
  by (simp add: set_level_def Let_def)

lemma best_ok_set:
  assumes "best_ok SIDE sd" "in_ladder px"
  shows "best_ok SIDE (set_level SIDE sd px x)"
proof (cases "x = 0")
  case True
  then show ?thesis
    using best_ok_zero [OF assms] assms
    by (auto simp: set_level_def Let_def best_ok_def split: if_splits)
next
  case False
  have "px \<noteq> invalid_px SIDE"
    using assms(2) invalid_px_out by auto
  then show ?thesis
    using False assms by (auto simp: set_level_def Let_def best_ok_def invalid_px_def ladder_consts in_ladder_def split: if_splits)
qed

lemma best_ok_ladder:
  "price_ladder lvls (set_level SIDE) best (invalid_px SIDE) (\<lambda>p q. if SIDE = 0 then q < p else p < q) (best_ok SIDE)"
proof (unfold_locales, goal_cases)
  case (1 s px x p)
  then show ?case by (rule lvls_set_level)
next
  case (2 s px x)
  then show ?case by (rule best_ok_set)
next
  case (3 s p)
  then show ?case by (simp add: best_ok_def)
next
  case (4 s)
  then show ?case by (simp add: best_ok_def)
next
  case (5 s p)
  then show ?case using best_okD [OF 5] by (auto split: if_splits)
next
  case (6 p q)
  then show ?case by (auto split: if_splits)
next
  case 7
  then show ?case by (rule invalid_px_out)
qed

interpretation bids: price_ladder lvls "set_level 0" best INVALID_BID "\<lambda>p q. q < p" "best_ok 0"
  using best_ok_ladder [of 0] by (simp add: invalid_px_def)

interpretation asks: price_ladder lvls "set_level 1" best INVALID_ASK "\<lambda>p q. p < q" "best_ok 1"
  using best_ok_ladder [of 1] by (simp add: invalid_px_def)

section \<open>The operations on a side\<close>

lemma clear_crossed_eq:
  assumes "best_ok SIDE sd"
  shows "clear_crossed SIDE sd px = (if in_ladder px \<and> lvls sd px \<noteq> 0 then set_level SIDE sd px 0 else sd)"
  by (simp add: clear_crossed_def get_sz_def clear_at_px_def set_level_def Let_def word_neq_0_conv)

lemma clear_crossed_ok:
  assumes "best_ok SIDE sd"
  shows "best_ok SIDE (clear_crossed SIDE sd px)"
    "lvls (clear_crossed SIDE sd px) p = (if p = px \<and> in_ladder px then 0 else lvls sd p)"
  using assms best_ok_set [OF assms] by (auto simp: clear_crossed_eq lvls_set_level)

lemma clear_all_ok:
  assumes "best_ok SIDE sd"
  shows "best_ok SIDE (foldl (clear_crossed SIDE) sd ps)
    \<and> lvls (foldl (clear_crossed SIDE) sd ps) p = (if p \<in> set ps \<and> in_ladder p then 0 else lvls sd p)"
  using assms
  by (induction ps arbitrary: sd) (auto simp: clear_crossed_ok)

lemma update_sz_ok:
  "best_ok SIDE sd \<Longrightarrow> ensures (best_ok SIDE) (update_sz SIDE sd px d)"
  by (auto simp: update_sz_def intro!: ensures_bnd best_ok_set)

end
