(* ===== verification/Tach_Properties.thy ===== *)
theory Tach_Properties
  imports Tach_Ladder
begin

text \<open>
  What holds of \<open>Tach_Book\<close> in every reachable state: the best prices are exact, what is
  published is a sound snapshot and differs from the one before, and the low priority stream is
  every fourth of the high priority one.
\<close>

section \<open>What a record may change\<close>

definition sides_ok :: "TachBook \<Rightarrow> bool" where
  "sides_ok s \<longleftrightarrow> best_ok 0 (tb_bid s) \<and> best_ok 1 (tb_ask s)"

definition book_part :: "TachBook \<Rightarrow> TachBook" where
  "book_part s = s\<lparr>tb_bid := side_init 0, tb_ask := side_init 1, tb_orders := (\<lambda>_. None), tb_dbg_px_left := 0\<rparr>"

text \<open>Applying a record changes the sides and the orders only, and keeps the best prices exact.\<close>

definition applies :: "TachBook \<Rightarrow> TachBook \<Rightarrow> bool" where
  "applies s s' \<longleftrightarrow>
     book_part s' = book_part s \<and> (sides_ok s \<longrightarrow> sides_ok s')
     \<and> (finite (dom (tb_orders s)) \<longrightarrow> finite (dom (tb_orders s')))"

lemma applies_refl [simp]: "applies s s"
  by (simp add: applies_def)

lemma applies_trans: "applies s s1 \<Longrightarrow> applies s1 s2 \<Longrightarrow> applies s s2"
  by (simp add: applies_def)

lemma applies_orders [simp]:
  "applies s (s\<lparr>tb_orders := (tb_orders s)(i := x)\<rparr>)" "applies s (s\<lparr>tb_dbg_px_left := n\<rparr>)"
  "applies s (s\<lparr>tb_orders := (tb_orders s)(i := x), tb_dbg_px_left := n\<rparr>)"
  by (auto simp: applies_def book_part_def sides_ok_def dom_def elim: rev_finite_subset
      intro: finite_subset [where B = "insert i {a. \<exists>y. tb_orders s a = Some y}"])

lemma applies_put [intro]: "applies s s1 \<Longrightarrow> applies s (s1\<lparr>tb_orders := (tb_orders s1)(i := x)\<rparr>)"
  using applies_trans applies_orders(1) by blast

lemma applies_side_upd: "ensures (applies s) (side_upd s sd px d)"
  using update_sz_ok [of 0 "tb_bid s" px d] update_sz_ok [of 1 "tb_ask s" px d]
  by (auto simp: side_upd_def applies_def book_part_def sides_ok_def intro!: ensuresI dest: ensuresD)

lemma applies_uncross: "ensures (applies s) (uncross_add s sd px)"
  by (auto simp: uncross_add_def Let_def applies_def book_part_def sides_ok_def clear_all_ok intro!: ensures_bnd)

lemma applies_drop_old: "ensures (applies s) (drop_old un s i)"
  by (auto simp: drop_old_def split: option.splits intro!: ensures_bnd ensures_seq [OF applies_side_upd])

definition book_only :: "TachBook \<Rightarrow> TachBook \<times> 'a \<Rightarrow> bool" where
  "book_only s r \<longleftrightarrow> applies s (fst r)"

lemma book_only_simp [simp]: "book_only s (s', x) \<longleftrightarrow> applies s s'"
  by (simp add: book_only_def)

lemma applies_move: "ensures (applies s) (move_order un s sd px oq new_pxd q)"
  unfolding move_order_def
  by (intro ensures_bnd ensures_seq [OF applies_side_upd])
    (auto intro!: ensuresI dest: ensuresD [OF applies_side_upd] elim: applies_trans)

lemma applies_replace: "ensures (book_only s) (tach_replace un s r ord sd px)"
proof -
  have move: "ensures (book_only s) (bnd (move_order un s sd' p q y z) (\<lambda>s1. Inr (s1, x s1)))"
    for sd' p q y z and x :: "TachBook \<Rightarrow> mbo"
    by (intro ensures_seq [OF applies_move]) simp
  have upd: "ensures (book_only s) (bnd (side_upd s1 sd' p d) (\<lambda>s1. Inr (s1, x s1)))" if "applies s s1"
    for s1 sd' p d and x :: "TachBook \<Rightarrow> mbo"
    using applies_trans [OF that] by (intro ensures_seq [OF applies_side_upd]) simp
  show ?thesis
    unfolding tach_replace_def Let_def
    by (auto intro!: ensures_chk ensures_bnd move upd dest!: ensuresD [OF applies_side_upd])
qed

lemma applies_reduce: "ensures (book_only s) (tach_reduce s r ord sd px)"
  unfolding tach_reduce_def by (intro ensures_bnd ensures_seq [OF applies_side_upd]) simp

lemma applies_payload: "ensures (book_only s) (bnd r (\<lambda>pl. Inr (s', x pl)))" if "applies s s'"
  using that by (auto intro: ensures_bnd)

lemma applies_add: "ensures (book_only s) (tach_add un s r)"
  unfolding tach_add_def Let_def
  by (intro ensures_seq [OF applies_drop_old] ensures_bnd applies_payload)
    (blast intro: applies_trans applies_orders(3) ensuresD [OF applies_side_upd] ensuresD [OF applies_uncross])

lemma applies_canc: "ensures (book_only s) (tach_canc un s r)"
proof -
  have one: "ensures (book_only s) (if is_replace r ord then tach_replace un s r ord sd px else tach_reduce s r ord sd px)"
    for ord sd px
    by (simp add: applies_replace applies_reduce)
  show ?thesis
    unfolding tach_canc_def Let_def
    by (auto split: option.splits intro!: ensures_bnd applies_payload dest!: ensuresD [OF one])
qed

lemma applies_cancd: "ensures (book_only s) (tach_cancd un s r)"
  unfolding tach_cancd_def
  by (auto split: option.splits intro!: ensures_bnd ensures_chk applies_payload dest!: ensuresD [OF applies_side_upd])

lemma applies_mbo: "ensures (book_only s) (apply_mbo un s r)"
  by (simp add: apply_mbo_def applies_add applies_canc applies_cancd)

section \<open>What is sent\<close>

definition good_point :: "point \<Rightarrow> bool" where
  "good_point pt \<longleftrightarrow> point_wf pt \<and> \<not> baddata pt
     \<and> 10 < bid_px pt ! 0 \<and> bid_px pt ! 0 < ask_px pt ! 0 \<and> ask_px pt ! 0 < ARRAY_SIZE - 10
     \<and> bid_sz pt ! 0 \<noteq> 0 \<and> ask_sz pt ! 0 \<noteq> 0"

definition tach_inv :: "TachBook \<Rightarrow> bool" where
  "tach_inv s \<longleftrightarrow>
     sides_ok s \<and> finite (dom (tb_orders s)) \<and> slate_inv (tb_slate s) \<and> tb_aggr s = []
     \<and> (\<forall>q. tb_prev_pl s = Some q \<longrightarrow> good_point (p_point q))"

definition trade_msgs :: "actor list \<Rightarrow> payload releases \<Rightarrow> (actor \<times> ob_msg) list" where
  "trade_msgs subs rel =
     concat (map (\<lambda>(f, r). if r = AGGRESSOR then []
                           else map (\<lambda>a. (a, TradeNotify ((f_pl f)\<lparr>p_point := point_init\<rparr>))) subs) rel)"

lemma release_fills_eq:
  "release_fills s sr = s\<lparr>tb_slate := fst sr, tb_sent := tb_sent s @ trade_msgs (tb_aggr s @ tb_hiprio s) (snd sr)\<rparr>"
proof -
  have one: "release_fill t fr = t\<lparr>tb_sent := tb_sent t @ trade_msgs (tb_aggr t @ tb_hiprio t) [fr]\<rparr>" for t fr
    by (simp add: release_fill_def send_trade_def post_all_def trade_msgs_def Let_def split: prod.splits)
  have "foldl release_fill t rel = t\<lparr>tb_sent := tb_sent t @ trade_msgs (tb_aggr t @ tb_hiprio t) rel\<rparr>" for t rel
    by (induction rel arbitrary: t) (simp_all add: one, simp_all add: trade_msgs_def)
  then show ?thesis
    by (simp add: release_fills_def)
qed

lemma ladder_in32: "in_ladder p \<Longrightarrow> i \<le> 20 \<Longrightarrow> in32 (p - int i) \<and> in32 (p + int i)"
  by (simp add: in_ladder_def in32_def ARRAY_SIZE_def)

lemma sint_in32: "in32 (sint (w :: u32))"
  using sint_ge [of w] sint_lt [of w] by (simp add: in32_def)

lemma create_point_good:
  assumes "sides_ok s" "\<not> baddata (create_point s pl)"
  shows "good_point (create_point s pl)"
proof -
  have ne: "best (tb_ask s) \<noteq> INVALID_ASK" "best (tb_bid s) \<noteq> INVALID_BID"
    using assms(2) by (auto simp: create_point_def Let_def split: if_splits)
  then have lad: "in_ladder (best (tb_bid s))" "in_ladder (best (tb_ask s))"
    using assms(1) bids.top_some asks.top_some by (auto simp: sides_ok_def)
  have wf: "point_wf (create_point s pl)"
    using ne ladder_in32 [OF lad(1)] ladder_in32 [OF lad(2)] sint_in32
    by (auto simp: create_point_def Let_def point_wf_def array_wf_def list_all_iff NLEVELS_def)
  moreover have "0 < NLEVELS" by (simp add: NLEVELS_def)
  ultimately show ?thesis
    using ne assms(2) by (auto simp: good_point_def create_point_def Let_def INVALID_ASK_def)
qed

section \<open>Publishing\<close>

definition same_ladder :: "payload \<Rightarrow> payload \<Rightarrow> bool" where
  "same_ladder p q \<longleftrightarrow> bid_px (p_point p) = bid_px (p_point q) \<and> ask_px (p_point p) = ask_px (p_point q)
     \<and> bid_sz (p_point p) = bid_sz (p_point q) \<and> ask_sz (p_point p) = ask_sz (p_point q)"

definition summary :: "u32 \<Rightarrow> payload \<Rightarrow> ob_msg" where
  "summary sy p = (let pt = p_point p in
     EndOfBurst2 sy (p_txtim_epoch p) (bid_px pt ! 0) (ask_px pt ! 0) (bid_sz pt ! 0) (ask_sz pt ! 0)
       (pt_mev pt) (pt_action pt) (pt_side pt) 0)"

definition is_bbbo :: "ob_msg \<Rightarrow> bool" where
  "is_bbbo m = (case m of BBBOChg _ _ _ _ _ _ \<Rightarrow> True | _ \<Rightarrow> False)"

text \<open>
  \<open>sends s s' ps new\<close>: from \<open>s\<close> to \<open>s'\<close> the snapshots \<open>ps\<close>, at most one, were published with
  the messages \<open>new\<close>, and nothing but the book and the record of the publication changed.
\<close>

definition config :: "TachBook \<Rightarrow> actor list \<times> actor list \<times> actor list \<times> u32" where
  "config s = (tb_hiprio s, tb_loprio s, tb_aggr s, tb_sym s)"

lemma config_eq: "config s' = config s \<longleftrightarrow>
   tb_hiprio s' = tb_hiprio s \<and> tb_loprio s' = tb_loprio s \<and> tb_aggr s' = tb_aggr s \<and> tb_sym s' = tb_sym s"
  by (auto simp: config_def)

definition burst_msgs :: "TachBook \<Rightarrow> payload \<Rightarrow> (actor \<times> ob_msg) list" where
  "burst_msgs s p =
     map (\<lambda>a. (a, EndOfBurst p)) (tb_hiprio s)
     @ (if (tb_eob_counter s + 1) mod 4 = 0 then map (\<lambda>a. (a, summary (tb_sym s) p)) (tb_loprio s) else [])"

definition quiet_step :: "TachBook \<Rightarrow> TachBook \<Rightarrow> bool" where
  "quiet_step s s' \<longleftrightarrow> config s' = config s \<and> tb_eob_counter s' = tb_eob_counter s \<and> tb_prev_pl s' = tb_prev_pl s"

text \<open>The point lists the levels of both sides, from the best on.\<close>

definition shows_book :: "TachBook \<Rightarrow> point \<Rightarrow> bool" where
  "shows_book s pt \<longleftrightarrow>
     bid_px pt = map (\<lambda>i. best (tb_bid s) - int i) [0..<NLEVELS]
     \<and> bid_sz pt = map (\<lambda>i. sint (get_sz (tb_bid s) (best (tb_bid s) - int i))) [0..<NLEVELS]
     \<and> ask_px pt = map (\<lambda>i. best (tb_ask s) + int i) [0..<NLEVELS]
     \<and> ask_sz pt = map (\<lambda>i. sint (get_sz (tb_ask s) (best (tb_ask s) + int i))) [0..<NLEVELS]
     \<and> best (tb_bid s) \<noteq> INVALID_BID \<and> best (tb_ask s) \<noteq> INVALID_ASK"

lemma create_point_shows: "\<not> baddata (create_point s pl) \<Longrightarrow> shows_book s (create_point s pl)"
  by (simp add: create_point_def shows_book_def Let_def split: if_splits)

definition publishes :: "TachBook \<Rightarrow> TachBook \<Rightarrow> payload \<Rightarrow> (actor \<times> ob_msg) list \<Rightarrow> bool" where
  "publishes s s' p new \<longleftrightarrow>
     config s' = config s \<and> tb_eob_counter s' = tb_eob_counter s + 1 \<and> tb_prev_pl s' = Some p
     \<and> good_point (p_point p) \<and> shows_book s' (p_point p) \<and> (\<forall>q. tb_prev_pl s = Some q \<longrightarrow> \<not> same_ladder p q)
     \<and> (\<exists>bo. new = burst_msgs s p @ bo \<and> (\<forall>m\<in>set bo. is_bbbo (snd m)))"

lemma send_bbbo_cases:
  obtains bo x y where "\<forall>m\<in>set bo. is_bbbo (snd m)"
    "send_bbbo s pl = s\<lparr>tb_sent := tb_sent s @ bo, tb_prev_bb := x, tb_prev_ba := y\<rparr>"
proof (cases "(bid_px (p_point pl) ! 0 \<noteq> tb_prev_bb s \<or> ask_px (p_point pl) ! 0 \<noteq> tb_prev_ba s)
    \<and> bid_px (p_point pl) ! 0 \<noteq> ask_px (p_point pl) ! 0")
  case True
  then show ?thesis
    by (intro that) (simp_all add: send_bbbo_def Let_def post_all_def is_bbbo_def)
next
  case False
  then have "send_bbbo s pl = s"
    by (auto simp: send_bbbo_def Let_def)
  then show ?thesis
    by (intro that [where bo = "[]" and x = "tb_prev_bb s" and y = "tb_prev_ba s"]) simp_all
qed

lemma send_point_publishes:
  assumes "send_point s pl = Inr s'" "tb_aggr s = []" "good_point (p_point pl)" "shows_book s (p_point pl)"
    "\<forall>q. tb_prev_pl s = Some q \<longrightarrow> \<not> same_ladder pl q"
  shows "\<exists>new. tb_sent s' = tb_sent s @ new \<and> publishes s s' pl new \<and> tb_slate s' = tb_slate s
    \<and> tb_bid s' = tb_bid s \<and> tb_ask s' = tb_ask s \<and> tb_orders s' = tb_orders s"
proof -
  let ?s1 = "s\<lparr>tb_prev_pl := Some pl, pb_sent := pb_sent s + 1, tb_sent := tb_sent s @ map (\<lambda>a. (a, EndOfBurst pl)) (tb_hiprio s),
      tb_eob_counter := tb_eob_counter s + 1\<rparr>"
  have s': "s' = send_bbbo (send_eob2 ?s1 pl) pl"
    using assms(1,2) by (simp add: send_point_def Let_def post_all_def)
  have e: "send_eob2 ?s1 pl = ?s1\<lparr>tb_sent := tb_sent s @ burst_msgs s pl\<rparr>"
    by (simp add: send_eob2_def Let_def post_all_def burst_msgs_def summary_def)
  obtain bo x y where bo: "\<forall>m\<in>set bo. is_bbbo (snd m)"
    "s' = (send_eob2 ?s1 pl)\<lparr>tb_sent := tb_sent (send_eob2 ?s1 pl) @ bo, tb_prev_bb := x, tb_prev_ba := y\<rparr>"
    unfolding s' by (rule send_bbbo_cases)
  show ?thesis
    unfolding bo(2) e using bo(1) assms(3-5) by (simp add: publishes_def config_def shows_book_def)
qed

lemma publish_book_cases:
  assumes "publish_book s pl = Inr s'" "tb_aggr s = []" "sides_ok s"
    "\<forall>q. tb_prev_pl s = Some q \<longrightarrow> good_point (p_point q)"
  shows "(quiet_step s s' \<and> tb_sent s' = tb_sent s
      \<or> (\<exists>new. tb_sent s' = tb_sent s @ new \<and> publishes s s' (pl\<lparr>p_point := create_point s pl\<rparr>) new))
    \<and> tb_slate s' = tb_slate s \<and> tb_bid s' = tb_bid s \<and> tb_ask s' = tb_ask s \<and> tb_orders s' = tb_orders s"
proof -
  let ?s = "s\<lparr>pb_calls := pb_calls s + 1\<rparr>"
  let ?pl = "pl\<lparr>p_point := create_point s pl\<rparr>"
  have cp: "create_point ?s pl = create_point s pl"
    by (simp add: create_point_def Let_def)
  consider "baddata (create_point s pl)"
    | q where "\<not> baddata (create_point s pl)" "tb_prev_pl s = Some q" "fast_compare (create_point s pl) (p_point q)"
    | "\<not> baddata (create_point s pl)" "\<forall>q. tb_prev_pl s = Some q \<longrightarrow> \<not> fast_compare (create_point s pl) (p_point q)"
    by blast
  then show ?thesis
  proof cases
    case 3
    have good: "good_point (create_point s pl)"
      using create_point_good 3(1) assms(3) by blast
    have shown: "shows_book ?s (create_point s pl)"
      using create_point_shows [OF 3(1)] by (simp add: shows_book_def)
    have "\<not> same_ladder ?pl q" if "tb_prev_pl s = Some q" for q
      using that 3(2) assms(4) fast_compare_iff good by (auto simp: same_ladder_def good_point_def)
    moreover have "send_point ?s ?pl = Inr s'"
      using assms(1) 3 by (auto simp: publish_book_def Let_def cp split: option.splits)
    ultimately have "\<exists>new. tb_sent s' = tb_sent ?s @ new \<and> publishes ?s s' ?pl new \<and> tb_slate s' = tb_slate ?s
        \<and> tb_bid s' = tb_bid ?s \<and> tb_ask s' = tb_ask ?s \<and> tb_orders s' = tb_orders ?s"
      using assms(2) good shown by (intro send_point_publishes) simp_all
    then show ?thesis
      by (auto simp: publishes_def config_def burst_msgs_def)
  qed (use assms(1) in \<open>auto simp: publish_book_def Let_def cp quiet_step_def config_def\<close>)
qed

section \<open>One input\<close>

definition silent :: "(actor \<times> ob_msg) list \<Rightarrow> bool" where
  "silent ms \<longleftrightarrow> (\<forall>m\<in>set ms. case snd m of EndOfBurst _ \<Rightarrow> False | EndOfBurst2 _ _ _ _ _ _ _ _ _ _ \<Rightarrow> False | _ \<Rightarrow> True)"

lemma silent_simps [simp]:
  "silent []" "silent (xs @ ys) \<longleftrightarrow> silent xs \<and> silent ys"
  "silent (map (\<lambda>a. (a, ClearMsg v)) as)" "silent (map (\<lambda>a. (a, GapDetected v)) as)"
  by (auto simp: silent_def)

lemma silent_trades [simp]: "silent (trade_msgs subs rel)"
  by (auto simp: silent_def trade_msgs_def split: if_splits)

lemma silent_bbbo: "\<forall>m\<in>set bo. is_bbbo (snd m) \<Longrightarrow> silent bo"
  by (auto simp: silent_def is_bbbo_def split: ob_msg.splits)

definition stream :: "TachBook \<Rightarrow> TachBook \<Rightarrow> bool" where
  "stream s s' \<longleftrightarrow> tach_inv s' \<and>
     (\<exists>new. tb_sent s' = tb_sent s @ new \<and>
        (quiet_step s s' \<and> silent new
         \<or> (\<exists>p pre new1. silent pre \<and> new = pre @ new1 \<and> publishes s s' p new1)))"

lemma stream_quiet: "tach_inv s' \<Longrightarrow> quiet_step s s' \<Longrightarrow> tb_sent s' = tb_sent s @ new \<Longrightarrow> silent new \<Longrightarrow> stream s s'"
  by (auto simp: stream_def)

lemma tach_invD:
  assumes "tach_inv s"
  shows "sides_ok s" "finite (dom (tb_orders s))" "slate_inv (tb_slate s)" "tb_aggr s = []"
    "\<forall>q. tb_prev_pl s = Some q \<longrightarrow> good_point (p_point q)"
  using assms by (auto simp: tach_inv_def)

lemma inv_quiet:
  assumes "tach_inv s" "sides_ok s'" "finite (dom (tb_orders s'))" "slate_inv (tb_slate s')" "quiet_step s s'"
  shows "tach_inv s'"
  using assms by (auto simp: tach_inv_def quiet_step_def config_eq)

text \<open>Releasing fills sends prints and nothing else.\<close>

lemma release_quiet:
  assumes "tach_inv s" "slate_inv (fst sr)"
  shows "tach_inv (release_fills s sr)" "quiet_step s (release_fills s sr)"
    "\<exists>new. tb_sent (release_fills s sr) = tb_sent s @ new \<and> silent new"
proof -
  show q: "quiet_step s (release_fills s sr)"
    by (simp add: release_fills_eq quiet_step_def config_def)
  show "tach_inv (release_fills s sr)"
    using tach_invD [OF assms(1)] assms
    by (intro inv_quiet [OF assms(1) _ _ _ q]) (simp_all add: release_fills_eq sides_ok_def)
  show "\<exists>new. tb_sent (release_fills s sr) = tb_sent s @ new \<and> silent new"
    by (simp add: release_fills_eq)
qed

lemma quiet_stream:
  assumes "stream s1 s'" "quiet_step s s1" "tb_sent s1 = tb_sent s @ pre" "silent pre"
  shows "stream s s'"
proof -
  obtain new where new: "tach_inv s'" "tb_sent s' = tb_sent s1 @ new"
    "quiet_step s1 s' \<and> silent new \<or> (\<exists>p mid new1. silent mid \<and> new = mid @ new1 \<and> publishes s1 s' p new1)"
    using assms(1) by (auto simp: stream_def)
  have "publishes s s' p new1" if "publishes s1 s' p new1" for p new1
    using that assms(2) by (auto simp: publishes_def quiet_step_def burst_msgs_def config_eq)
  moreover have "quiet_step s s'" if "quiet_step s1 s'"
    using that assms(2) by (auto simp: quiet_step_def)
  ultimately show ?thesis
    using new assms(3,4) unfolding stream_def by (metis append.assoc silent_simps(2))
qed

lemma stream_refl [simp]: "tach_inv s \<Longrightarrow> stream s s"
  by (auto simp: stream_def quiet_step_def intro: exI [of _ "[]"])

lemma stream_release:
  assumes "tach_inv s" "slate_inv (fst sr)" "tach_inv (release_fills s sr) \<Longrightarrow> stream (release_fills s sr) s'"
  shows "stream s s'"
  using release_quiet [OF assms(1,2)] assms(3) quiet_stream by blast

lemma stream_applies:
  assumes "tach_inv s" "applies s s'"
  shows "stream s s'"
proof -
  have eq: "s' = s\<lparr>tb_bid := tb_bid s', tb_ask := tb_ask s', tb_orders := tb_orders s', tb_dbg_px_left := tb_dbg_px_left s'\<rparr>"
    using assms(2) by (cases s, cases s') (simp add: applies_def book_part_def)
  have q: "quiet_step s s'" "tb_slate s' = tb_slate s" "tb_sent s' = tb_sent s"
    by (subst eq, simp add: quiet_step_def config_def)+
  have "tach_inv s'"
    using tach_invD [OF assms(1)] assms(2) q by (intro inv_quiet [OF assms(1)]) (simp_all add: applies_def)
  then show ?thesis
    using q by (auto intro: stream_quiet)
qed

lemma stream_publish:
  assumes "tach_inv s" "publish_book s pl = Inr s'"
  shows "stream s s'"
proof -
  note c = publish_book_cases [OF assms(2) tach_invD(4,1,5) [OF assms(1)]]
  have inv: "tach_inv s'"
    using c tach_invD [OF assms(1)]
    by (auto simp: tach_inv_def quiet_step_def publishes_def config_eq sides_ok_def)
  show ?thesis
    using c inv unfolding stream_def by (metis append_Nil append_Nil2 silent_simps(1))
qed

lemma stream_applied_publish:
  assumes "tach_inv s" "applies s s1" "publish_book s1 pl = Inr s'"
  shows "stream s s'"
proof -
  have s1: "stream s s1" "tach_inv s1"
    using stream_applies [OF assms(1,2)] by (auto simp: stream_def)
  have "quiet_step s s1 \<and> tb_sent s1 = tb_sent s"
    using assms(2) by (cases s, cases s1) (simp add: applies_def book_part_def quiet_step_def config_def)
  then show ?thesis
    using quiet_stream [OF stream_publish [OF s1(2) assms(3)], of s "[]"] by simp
qed

lemma stream_mbo:
  assumes "tach_inv s" "tach_mbo un s r = Inr s'"
  shows "stream s s'"
proof (cases "securityID r \<noteq> tb_sec_id s")
  case True
  then show ?thesis
    using assms by (simp add: tach_mbo_def)
next
  case False
  then obtain s1 s2 pl where step: "release_on_book s r = Inr s1" "apply_mbo un s1 r = Inr (s2, pl)"
    "(case pl of None \<Rightarrow> Inr s2 | Some p \<Rightarrow> if recovery r then Inr s2 else publish_book s2 p) = Inr s'"
    using assms(2) by (auto simp: tach_mbo_def)
  have ap: "applies s1 s2"
    using ensuresD [OF applies_mbo step(2)] by simp
  have rest: "stream s1 s'" if "tach_inv s1"
    using stream_applies [OF that ap] stream_applied_publish [OF that ap] step(3)
    by (auto split: option.splits if_splits)
  show ?thesis
  proof (cases "recovery r")
    case True
    then show ?thesis
      using rest step(1) assms(1) by (simp add: release_on_book_def)
  next
    case False
    then obtain sr where sr: "on_book (tb_slate s) (orderID r) (transactTime r) (orderUpdateAction r) (pxd r) = Inr sr"
        "s1 = release_fills s sr"
      using step(1) by (auto simp: release_on_book_def)
    have "slate_inv (fst sr)"
      using on_book_ok [OF tach_invD(3) [OF assms(1)], of "orderID r" "transactTime r" "orderUpdateAction r" "pxd r" undefined] sr(1)
      by auto
    then show ?thesis
      using stream_release [OF assms(1)] rest sr(2) by blast
  qed
qed

lemma stream_trd:
  assumes "tach_inv s" "tach_trd un s r = Inr s'"
  shows "stream s s'"
proof -
  let ?adv = "advance (tb_slate s) (t_transactTime r)"
  let ?s1 = "release_fills s ?adv"
  have adv: "slate_inv (fst ?adv)"
    using advance_ok(1) [OF tach_invD(3) [OF assms(1)]] by (metis prod.collapse)
  have sl: "tb_slate ?s1 = fst ?adv"
    by (simp add: release_fills_eq)
  show ?thesis
  proof (rule stream_release [OF assms(1) adv])
    assume inv: "tach_inv ?s1"
    show "stream ?s1 s'"
    proof (cases "tb_orders ?s1 (t_orderID r)")
      case None
      then show ?thesis
        using assms(2) inv by (simp add: tach_trd_def)
    next
      case (Some ord)
      then obtain sd pl where pl: "mbo_get_side ord = Inr sd"
        "(if sd \<noteq> BUY \<and> sd \<noteq> SEL then Inr (send_trade ?s1 pl) else slate_trade un ?s1 r ord sd pl) = Inr s'"
        using assms(2) by (auto simp: tach_trd_def Let_def)
      moreover have "sd = BUY \<or> sd = SEL"
        using pl(1) by (auto simp: mbo_get_side_def split: if_splits)
      ultimately obtain ord_px where "s' = release_fills ?s1 (on_trade (tb_slate ?s1) (t_orderID r) (t_transactTime r) (pxd ord)
            (if sd = BUY then sBUY else sSEL) (t_lastQty r)
            (if sd = BUY then ord_px = best (tb_bid ?s1) else ord_px = best (tb_ask ?s1)) pl)"
        by (auto simp: slate_trade_def)
      moreover have "slate_inv (fst (on_trade (tb_slate ?s1) oid t px d q tch p))" for oid t px d q tch p
        using on_trade_ok(1) [OF tach_invD(3) [OF inv]] by (metis prod.collapse)
      ultimately show ?thesis
        using stream_release [OF inv] stream_refl by metis
    qed
  qed
qed

lemma stream_reset:
  assumes "tach_inv s"
  shows "stream s (tach_reset s)"
proof -
  let ?fl = "flush (tb_slate s)"
  have fl: "slate_inv (fst ?fl)"
    using close_tx_ok(1) [OF tach_invD(3) [OF assms]] by (metis flush_def prod.collapse)
  have q: "quiet_step s (tach_reset s)"
    by (simp add: tach_reset_def Let_def release_fills_eq post_all_def quiet_step_def config_def)
  have "tach_inv (tach_reset s)"
    by (rule inv_quiet [OF assms _ _ _ q])
      (simp_all add: tach_reset_def Let_def release_fills_eq post_all_def sides_ok_def side_init_ok fl)
  then show ?thesis
    using q by (rule stream_quiet) (simp add: tach_reset_def Let_def release_fills_eq post_all_def, simp)
qed

lemma stream_gap:
  assumes "tach_inv s"
  shows "stream s (tach_gap s)"
proof -
  have q: "quiet_step s (tach_gap s)"
    by (simp add: tach_gap_def Let_def post_all_def quiet_step_def config_def)
  have "tach_inv (tach_gap s)"
    using tach_invD [OF assms]
    by (intro inv_quiet [OF assms _ _ _ q]) (simp_all add: tach_gap_def Let_def post_all_def sides_ok_def)
  then show ?thesis
    using q by (rule stream_quiet) (simp add: tach_gap_def Let_def post_all_def, simp)
qed

lemma tach_inv_cong:
  "tach_inv (s\<lparr>tb_sec_id := x, tb_have_sec_id := y\<rparr>) = tach_inv s" "tach_inv (s\<lparr>tb_have_scale := z\<rparr>) = tach_inv s"
  "tach_inv (s\<lparr>pb_noscale := n\<rparr>) = tach_inv s"
  by (simp_all add: tach_inv_def sides_ok_def)

lemma latch_quiet:
  "tach_inv s \<Longrightarrow> tach_inv (latch a s) \<and> quiet_step s (latch a s) \<and> tb_sent (latch a s) = tb_sent s"
  by (auto simp: latch_def Let_def tach_inv_cong quiet_step_def config_def)

lemma stream_data:
  assumes "tach_inv s" "tach_data a s m = Inr s'"
  shows "stream s s'"
proof -
  note l = latch_quiet [OF assms(1), of a]
  have "stream (latch a s) s'"
  proof (cases "tb_have_scale (latch a s)")
    case False
    then have s': "s' = (latch a s)\<lparr>pb_noscale := pb_noscale (latch a s) + 1\<rparr>"
      using assms(2) by (simp add: tach_data_def Let_def)
    show ?thesis
      unfolding s' using l
      by (intro stream_quiet [where new = "[]"]) (simp_all add: tach_inv_cong quiet_step_def config_def)
  next
    case True
    then show ?thesis
      using assms(2) l stream_mbo stream_trd stream_reset stream_gap
      by (auto simp: tach_data_def Let_def split: l3.splits option.splits)
  qed
  then show ?thesis
    using quiet_stream [of "latch a s" s' s "[]"] l by simp
qed

section \<open>Runs\<close>

lemma tach_init_inv: "TachBook_init sy mp = Inr s \<Longrightarrow> tach_inv s"
  by (auto simp: TachBook_init_def tach_inv_def sides_ok_def side_init_ok)

lemma tach_step_inv:
  assumes "tach_inv s" "tach_step nm s i = Inr s'"
  shows "tach_inv s'"
proof (cases i)
  case (TData a m)
  then show ?thesis
    using stream_data assms by (auto simp: tach_step_def stream_def)
next
  case TShutdown
  have "slate_inv (fst (flush (tb_slate s)))"
    using close_tx_ok(1) [OF tach_invD(3) [OF assms(1)]] by (metis flush_def prod.collapse)
  then show ?thesis
    using release_quiet(1) [OF assms(1), of "flush (tb_slate s)"] assms(2) TShutdown by (auto simp: tach_step_def tach_shutdown_def)
qed (use assms in \<open>auto simp: tach_step_def subscribe_handler_def bbosubscribe_handler_def get_ex_id_def set_ex_sym_id_def
      update_bbbo_only_subs_def tach_inv_def sides_ok_def Let_def split: option.splits if_splits\<close>)

lemma tach_run_inv: "tach_inv s \<Longrightarrow> tach_run nm s is = Inr s' \<Longrightarrow> tach_inv s'"
proof (induction "is" arbitrary: s)
  case (Cons i "is")
  then show ?case
    using tach_step_inv by (auto simp: bnd_eq_Inr) blast
qed simp

lemma tach_run_append: "tach_run nm s (is @ is1) = bnd (tach_run nm s is) (\<lambda>s1. tach_run nm s1 is1)"
proof (induction "is" arbitrary: s)
  case (Cons i "is")
  then show ?case
    by (cases "tach_step nm s i") simp_all
qed simp

definition bursts_to :: "actor \<Rightarrow> (actor \<times> ob_msg) list \<Rightarrow> payload list" where
  "bursts_to x ms = List.map_filter (\<lambda>(a, m). case m of EndOfBurst p \<Rightarrow> if a = x then Some p else None | _ \<Rightarrow> None) ms"

definition eob2_to :: "actor \<Rightarrow> (actor \<times> ob_msg) list \<Rightarrow> ob_msg list" where
  "eob2_to x ms = List.map_filter
     (\<lambda>(a, m). case m of EndOfBurst2 _ _ _ _ _ _ _ _ _ _ \<Rightarrow> if a = x then Some m else None | _ \<Rightarrow> None) ms"

text \<open>Every fourth snapshot, counted from \<open>n\<close> already published.\<close>

fun every_fourth :: "int \<Rightarrow> 'a list \<Rightarrow> 'a list" where
  "every_fourth n [] = []"
| "every_fourth n (p # ps) = (if (n + 1) mod 4 = 0 then p # every_fourth (n + 1) ps else every_fourth (n + 1) ps)"

lemma to_append [simp]:
  "bursts_to x (ms @ ms1) = bursts_to x ms @ bursts_to x ms1" "eob2_to x (ms @ ms1) = eob2_to x ms @ eob2_to x ms1"
  by (simp_all add: bursts_to_def eob2_to_def List.map_filter_def)

lemma to_silent:
  assumes "silent ms"
  shows "bursts_to x ms = []" "eob2_to x ms = []"
  using assms by (auto simp: bursts_to_def eob2_to_def silent_def List.map_filter_def filter_empty_conv split: ob_msg.splits)

lemma map_filter_one:
  "List.map_filter (\<lambda>a. if a = x then Some c else None) as = map (\<lambda>_. c) (filter (\<lambda>a. a = x) as)"
  by (induction as) (simp_all add: List.map_filter_simps)

lemma to_posted:
  assumes "filter (\<lambda>a. a = x) subs = [x]"
  shows "bursts_to x (map (\<lambda>a. (a, EndOfBurst p)) subs) = [p]"
    "eob2_to x (map (\<lambda>a. (a, summary sy p)) subs) = [summary sy p]"
proof -
  have "bursts_to x (map (\<lambda>a. (a, EndOfBurst p)) as) = List.map_filter (\<lambda>a. if a = x then Some p else None) as"
    "eob2_to x (map (\<lambda>a. (a, summary sy p)) as) = List.map_filter (\<lambda>a. if a = x then Some (summary sy p) else None) as" for as
    by (induction as) (simp_all add: bursts_to_def eob2_to_def summary_def Let_def List.map_filter_simps)
  then show "bursts_to x (map (\<lambda>a. (a, EndOfBurst p)) subs) = [p]"
    "eob2_to x (map (\<lambda>a. (a, summary sy p)) subs) = [summary sy p]"
    using assms by (simp_all only: map_filter_one list.map)
qed

lemma to_none:
  "bursts_to x (map (\<lambda>a. (a, summary sy p)) subs) = []" "eob2_to x (map (\<lambda>a. (a, EndOfBurst p)) subs) = []"
  by (induction subs) (simp_all add: bursts_to_def eob2_to_def summary_def Let_def List.map_filter_simps)

definition data_inputs :: "(tach_asset \<times> Data) list \<Rightarrow> tach_in list" where
  "data_inputs ms = map (\<lambda>(a, m). TData a m) ms"

definition prev_points :: "TachBook \<Rightarrow> payload list" where
  "prev_points s = (case tb_prev_pl s of None \<Rightarrow> [] | Some q \<Rightarrow> [q])"

lemma stream_run:
  assumes "tach_inv s" "filter (\<lambda>a. a = h) (tb_hiprio s) = [h]" "filter (\<lambda>a. a = l) (tb_loprio s) = [l]"
    "tach_run nm s (data_inputs ms) = Inr s'"
  shows "\<exists>new. tb_sent s' = tb_sent s @ new
    \<and> eob2_to l new = map (summary (tb_sym s)) (every_fourth (tb_eob_counter s) (bursts_to h new))
    \<and> (\<forall>p\<in>set (bursts_to h new). good_point (p_point p))
    \<and> successively (\<lambda>q p. \<not> same_ladder p q) (prev_points s @ bursts_to h new)"
  using assms
proof (induction ms arbitrary: s)
  case Nil
  then show ?case
    by (auto simp: data_inputs_def prev_points_def bursts_to_def eob2_to_def List.map_filter_simps split: option.splits)
next
  case (Cons am ms)
  then obtain s1 where s1: "tach_data (fst am) s (snd am) = Inr s1" "tach_run nm s1 (data_inputs ms) = Inr s'"
    by (auto simp: data_inputs_def tach_step_def split: prod.splits)
  obtain new1 where st: "tach_inv s1" "tb_sent s1 = tb_sent s @ new1"
    "quiet_step s s1 \<and> silent new1 \<or> (\<exists>p pre new2. silent pre \<and> new1 = pre @ new2 \<and> publishes s s1 p new2)"
    using stream_data [OF Cons.prems(1) s1(1)] by (auto simp: stream_def)
  have cfg: "config s1 = config s"
    using st(3) by (auto simp: quiet_step_def publishes_def)
  then obtain new where IH: "tb_sent s' = tb_sent s1 @ new"
    "eob2_to l new = map (summary (tb_sym s)) (every_fourth (tb_eob_counter s1) (bursts_to h new))"
    "\<forall>p\<in>set (bursts_to h new). good_point (p_point p)"
    "successively (\<lambda>q p. \<not> same_ladder p q) (prev_points s1 @ bursts_to h new)"
    using Cons.IH [OF st(1) _ _ s1(2)] Cons.prems(2,3) by (auto simp: config_eq)
  show ?case
    using st(3)
  proof
    assume q: "quiet_step s s1 \<and> silent new1"
    then have "prev_points s1 = prev_points s" "tb_eob_counter s1 = tb_eob_counter s"
      by (simp_all add: quiet_step_def prev_points_def)
    then show ?thesis
      using IH st(2) q by (intro exI [of _ "new1 @ new"]) (simp add: to_silent)
  next
    assume "\<exists>p pre new2. silent pre \<and> new1 = pre @ new2 \<and> publishes s s1 p new2"
    then obtain p pre new2 bo where p: "silent pre" "new1 = pre @ new2" "publishes s s1 p new2"
      "new2 = burst_msgs s p @ bo" "silent bo"
      using silent_bbbo by (auto simp: publishes_def)
    have b: "bursts_to h new1 = [p]"
      "eob2_to l new1 = (if (tb_eob_counter s + 1) mod 4 = 0 then [summary (tb_sym s) p] else [])"
      using Cons.prems(2,3) p by (simp_all add: to_silent burst_msgs_def to_posted to_none)
    have prev: "prev_points s1 = [p]" "tb_eob_counter s1 = tb_eob_counter s + 1"
      "\<forall>q. tb_prev_pl s = Some q \<longrightarrow> \<not> same_ladder p q" "good_point (p_point p)"
      using p(3) by (auto simp: publishes_def prev_points_def)
    have "successively (\<lambda>q p. \<not> same_ladder p q) (prev_points s @ p # bursts_to h new)"
      using IH(4) prev(1,3) by (auto simp: prev_points_def split: option.splits)
    then show ?thesis
      using IH st(2) b prev by (intro exI [of _ "new1 @ new"]) simp
  qed
qed

section \<open>Properties\<close>

text \<open>
  The best price is exact. In every state the book can reach, whatever records, subscriptions
  and changes of the asset it has seen, the best bid is the highest bid level with a size and the
  best ask the lowest ask level with one, and each is the invalid price exactly when its side is
  empty: no sequence of adds, replaces, deletes and clearings of crossed levels leaves a stale
  inside.
\<close>

theorem tach_best_exact:
  assumes "TachBook_init sy mp = Inr s0" "tach_run nm s0 is = Inr s"
  shows "(\<forall>p. get_sz (tb_bid s) p \<noteq> 0 \<longrightarrow> p \<le> best (tb_bid s))
    \<and> (\<forall>p. get_sz (tb_ask s) p \<noteq> 0 \<longrightarrow> best (tb_ask s) \<le> p)
    \<and> (best (tb_bid s) = INVALID_BID \<longleftrightarrow> (\<forall>p. get_sz (tb_bid s) p = 0))
    \<and> (best (tb_ask s) = INVALID_ASK \<longleftrightarrow> (\<forall>p. get_sz (tb_ask s) p = 0))
    \<and> (best (tb_bid s) \<noteq> INVALID_BID \<longrightarrow> get_sz (tb_bid s) (best (tb_bid s)) \<noteq> 0)
    \<and> (best (tb_ask s) \<noteq> INVALID_ASK \<longrightarrow> get_sz (tb_ask s) (best (tb_ask s)) \<noteq> 0)"
proof -
  have ok: "best_ok 0 (tb_bid s)" "best_ok 1 (tb_ask s)"
    using tach_invD(1) [OF tach_run_inv [OF tach_init_inv [OF assms(1)] assms(2)]] by (simp_all add: sides_ok_def)
  show ?thesis
    using bids.top_best [OF ok(1)] bids.top_none [OF ok(1)] bids.top_some [OF ok(1)]
      asks.top_best [OF ok(2)] asks.top_none [OF ok(2)] asks.top_some [OF ok(2)]
    by (force simp: get_sz_def)
qed

text \<open>
  C20. The published streams. From any reachable state and over any run of records, a high
  priority subscriber receives snapshots that are each sound (the best bid below the best ask,
  both with a size, away from the ends of the ladder) and each different from the one before in
  some price or size, counting the last one published before the run; and a low priority
  subscriber receives the summary of exactly every fourth of them, counted over the life of the
  book, in the same order.
\<close>

theorem tach_publication_streams:
  assumes "TachBook_init sy mp = Inr s0" "tach_run nm s0 is = Inr s"
    and "filter (\<lambda>a. a = h) (tb_hiprio s) = [h]" "filter (\<lambda>a. a = l) (tb_loprio s) = [l]"
    and "tach_run nm s (data_inputs ms) = Inr s'"
  shows "\<exists>new. tb_sent s' = tb_sent s @ new
    \<and> eob2_to l new = map (summary (tb_sym s)) (every_fourth (tb_eob_counter s) (bursts_to h new))
    \<and> (\<forall>p\<in>set (bursts_to h new). good_point (p_point p))
    \<and> successively (\<lambda>q p. \<not> same_ladder p q) (prev_points s @ bursts_to h new)"
  using stream_run [OF tach_run_inv [OF tach_init_inv [OF assms(1)] assms(2)] assms(3-5)] .

text \<open>Two records on a book with a subscriber of each priority.\<close>

definition tach_rec :: "int \<Rightarrow> char \<Rightarrow> real \<Rightarrow> u32 \<Rightarrow> u64 \<Rightarrow> u64 \<Rightarrow> Data" where
  "tach_rec act side px q oid tim = \<lparr>israw = True,
     d_l3 = MBO \<lparr>venue = 11, transactTime = tim, sendingTime = tim, mbo_handlerendtim = tim, orderUpdateAction = act,
       securityID = 7, orderID = oid, pxd = px, displayQty = q, mbo_side = side, endOfEvent = True, recovery = False\<rparr>,
     d_payload = payload_init, d_sender = None\<rparr>"

definition ex_asset :: tach_asset where
  "ex_asset = \<lparr>ta_units = 1, ta_sec_id = 7\<rparr>"

definition ex_names :: "actor \<Rightarrow> string option" where
  "ex_names a = (if a = 1 then Some ''Aggr_1'' else if a = 2 then Some ''mtd'' else None)"

definition ex_tach_subs :: "tach_in list" where
  "ex_tach_subs = [TSubscribe (Some 1) 1, TSubscribe (Some 2) 0, TBBBOSub (Some 2)]"

definition ex_tach_data :: "(tach_asset \<times> Data) list" where
  "ex_tach_data = map (Pair ex_asset)
     [tach_rec 0 CHR ''0'' 100 5 11 1000, tach_rec 0 CHR ''1'' 110 3 12 2000]"

definition ex_tach0 :: TachBook where "ex_tach0 = projr (TachBook_init 1 200)"
definition ex_tach1 :: TachBook where "ex_tach1 = projr (tach_run ex_names ex_tach0 ex_tach_subs)"
definition ex_tach2 :: TachBook where "ex_tach2 = projr (tach_run ex_names ex_tach1 (data_inputs ex_tach_data))"

lemma ex_tach_runs:
  "TachBook_init 1 200 = Inr ex_tach0" "tach_run ex_names ex_tach0 ex_tach_subs = Inr ex_tach1"
  "tach_run ex_names ex_tach1 (data_inputs ex_tach_data) = Inr ex_tach2"
proof -
  have "returns (TachBook_init 1 200)" "returns (tach_run ex_names ex_tach0 ex_tach_subs)"
    "returns (tach_run ex_names ex_tach1 (data_inputs ex_tach_data))"
    by code_simp+
  then show "TachBook_init 1 200 = Inr ex_tach0" "tach_run ex_names ex_tach0 ex_tach_subs = Inr ex_tach1"
    "tach_run ex_names ex_tach1 (data_inputs ex_tach_data) = Inr ex_tach2"
    by (auto simp: ex_tach0_def ex_tach1_def ex_tach2_def returns_iff)
qed

lemma ex_tach_facts:
  "filter (\<lambda>a. a = 1) (tb_hiprio ex_tach1) = [1]" "filter (\<lambda>a. a = 2) (tb_loprio ex_tach1) = [2]"
  "tb_sym ex_tach1 = 1" "tb_eob_counter ex_tach1 = 0" "tb_sent ex_tach1 = []"
  "length (bursts_to 1 (tb_sent ex_tach2)) = 1"
  by code_simp+

theorem tach_publication_streams_witness:
  "\<exists>new. tb_sent ex_tach2 = tb_sent ex_tach1 @ new
    \<and> eob2_to 2 new = map (summary 1) (every_fourth 0 (bursts_to 1 new)) \<and> length (bursts_to 1 new) = 1"
  using tach_publication_streams [OF ex_tach_runs(1,2) ex_tach_facts(1,2) ex_tach_runs(3)] ex_tach_facts(3-) by auto

theorem tach_best_exact_witness:
  "best (tb_bid ex_tach2) = 100 \<and> get_sz (tb_bid ex_tach2) 101 = 0"
proof -
  have "tach_run ex_names ex_tach0 (ex_tach_subs @ data_inputs ex_tach_data) = Inr ex_tach2"
    using ex_tach_runs(2,3) by (simp add: tach_run_append)
  from tach_best_exact [OF ex_tach_runs(1) this]
  have "get_sz (tb_bid ex_tach2) 101 \<noteq> 0 \<longrightarrow> 101 \<le> best (tb_bid ex_tach2)"
    by (elim conjE) (rule spec)
  moreover have "best (tb_bid ex_tach2) = 100"
    by code_simp
  ultimately show ?thesis
    by simp
qed

end
