(* ===== verification/Tach_Orders.thy ===== *)
theory Tach_Orders
  imports Tach_Properties
begin

text \<open>
  The ladder of \<open>Tach_Book\<close> against the orders it was built from. An abstract book is the map of
  the orders alone: the size of a level is the sum of the sizes of its orders. As long as the feed
  is orderly (\<open>calm\<close>), the array of aggregates is that sum, level by level, no record aborts, and
  every snapshot shows the orders' book. The last section shows what happens when an add crosses.
\<close>

section \<open>Sums over a map\<close>

definition msum :: "('v \<Rightarrow> int) \<Rightarrow> ('k \<Rightarrow> 'v option) \<Rightarrow> int" where
  "msum f m = (\<Sum>k\<in>dom m. f (the (m k)))"

definition msum_at :: "('v \<Rightarrow> int) \<Rightarrow> ('k \<Rightarrow> 'v option) \<Rightarrow> 'k \<Rightarrow> int" where
  "msum_at f m k = (case m k of None \<Rightarrow> 0 | Some v \<Rightarrow> f v)"

lemma msum_empty [simp]: "msum f (\<lambda>_. None) = 0"
  by (simp add: msum_def)

lemma msum_split:
  assumes "finite (dom m)"
  shows "msum f m = msum_at f m k + (\<Sum>j\<in>dom m - {k}. f (the (m j)))"
proof (cases "k \<in> dom m")
  case True
  then show ?thesis
    using sum.remove [OF assms True, of "\<lambda>j. f (the (m j))"] by (auto simp: msum_def msum_at_def)
qed (auto simp: msum_def msum_at_def domIff)

lemma msum_put:
  assumes "finite (dom m)"
  shows "msum f (m(k \<mapsto> v)) = msum f m - msum_at f m k + f v"
proof -
  have "msum f (m(k \<mapsto> v)) = msum_at f (m(k \<mapsto> v)) k + (\<Sum>j\<in>dom (m(k \<mapsto> v)) - {k}. f (the ((m(k \<mapsto> v)) j)))"
    using assms by (intro msum_split) simp
  also have "(\<Sum>j\<in>dom (m(k \<mapsto> v)) - {k}. f (the ((m(k \<mapsto> v)) j))) = (\<Sum>j\<in>dom m - {k}. f (the (m j)))"
    by (rule sum.cong) auto
  finally show ?thesis
    using msum_split [OF assms, of f k] by (simp add: msum_at_def fun_upd_def)
qed

lemma msum_del:
  assumes "finite (dom m)"
  shows "msum f (m(k := None)) = msum f m - msum_at f m k"
proof -
  have "msum f (m(k := None)) = (\<Sum>j\<in>dom m - {k}. f (the (m j)))"
    by (auto simp: msum_def intro!: sum.cong)
  then show ?thesis
    using msum_split [OF assms, of f k] by simp
qed

lemma msum_mono:
  assumes "finite (dom m)" "\<And>v. 0 \<le> f v \<and> f v \<le> g v"
  shows "0 \<le> msum f m" "msum f m \<le> msum g m" "msum_at f m k \<le> msum f m"
proof -
  show "0 \<le> msum f m" "msum f m \<le> msum g m"
    using assms(2) by (auto simp: msum_def intro!: sum_nonneg sum_mono)
  have "0 \<le> (\<Sum>j\<in>dom m - {k}. f (the (m j)))"
    using assms(2) by (intro sum_nonneg) auto
  then show "msum_at f m k \<le> msum f m"
    using msum_split [OF assms(1), of f k] by simp
qed

section \<open>The abstract book\<close>

definition qty :: "mbo \<Rightarrow> int" where "qty r = uint (displayQty r)"

definition at_level :: "real \<Rightarrow> bs \<Rightarrow> int \<Rightarrow> mbo \<Rightarrow> int" where
  "at_level un sd p r = (if mbo_get_side r = Inr sd \<and> to_px un (pxd r) = Inr p then qty r else 0)"

definition level_sum :: "real \<Rightarrow> (u64 \<Rightarrow> mbo option) \<Rightarrow> bs \<Rightarrow> int \<Rightarrow> int" where
  "level_sum un ords sd p = msum (at_level un sd p) ords"

definition total_qty :: "(u64 \<Rightarrow> mbo option) \<Rightarrow> int" where
  "total_qty ords = msum qty ords"

text \<open>An order the ladder can hold, and the relation between the two books.\<close>

definition order_fine :: "real \<Rightarrow> mbo \<Rightarrow> bool" where
  "order_fine un r \<longleftrightarrow> have_side r \<and> pxd r > 0
     \<and> (case to_px un (pxd r) of Inl _ \<Rightarrow> False | Inr p \<Rightarrow> in_ladder p)"

definition lv :: "TachBook \<Rightarrow> bs \<Rightarrow> int \<Rightarrow> int" where
  "lv s sd p = uint (lvls (side_of s sd) p)"

definition mirrors :: "real \<Rightarrow> TachBook \<Rightarrow> bool" where
  "mirrors un s \<longleftrightarrow>
     (\<forall>p. in_ladder p \<longrightarrow> lv s BUY p = level_sum un (tb_orders s) BUY p \<and> lv s SEL p = level_sum un (tb_orders s) SEL p)"

definition orders_fine :: "real \<Rightarrow> TachBook \<Rightarrow> bool" where
  "orders_fine un s \<longleftrightarrow> (\<forall>i r. tb_orders s i = Some r \<longrightarrow> order_fine un r) \<and> total_qty (tb_orders s) < 1000000"

text \<open>
  An orderly record. An add has a side, a size, a price on the ladder that does not reach the other
  side, and a venue and a sending time a payload accepts. A change may leave its price out (zero)
  when it does not raise the size. The sizes of the book stay below a million in total.
\<close>

definition sendable :: "mbo \<Rightarrow> bool" where
  "sendable r \<longleftrightarrow> x_valid (venue r) \<and> (recovery r \<or> sendingTime r > 0)"

definition calm_add :: "real \<Rightarrow> TachBook \<Rightarrow> mbo \<Rightarrow> bool" where
  "calm_add un s r \<longleftrightarrow> order_fine un r \<and> total_qty (tb_orders s) + qty r < 1000000
     \<and> (case to_px un (pxd r) of
          Inl _ \<Rightarrow> False
        | Inr p \<Rightarrow> if mbo_get_side r = Inr BUY then p < best (tb_ask s) else best (tb_bid s) < p)"

definition calm_canc :: "real \<Rightarrow> TachBook \<Rightarrow> mbo \<Rightarrow> bool" where
  "calm_canc un s r \<longleftrightarrow>
     (case tb_orders s (orderID r) of
        None \<Rightarrow> True
      | Some ord \<Rightarrow> total_qty (tb_orders s) + qty r < 1000000
          \<and> (if displayQty r > displayQty ord then pxd r > 0 else pxd r \<ge> 0)
          \<and> (pxd r > 0 \<longrightarrow> (case to_px un (pxd r) of Inl _ \<Rightarrow> False | Inr p \<Rightarrow> in_ladder p)))"

definition calm :: "real \<Rightarrow> TachBook \<Rightarrow> Data \<Rightarrow> bool" where
  "calm un s m \<longleftrightarrow> in32 (tb_eob_counter s + 1) \<and>
     (case d_l3 m of
        MBO r \<Rightarrow> sendable r \<and> (if orderUpdateAction r = 0 then calm_add un s r
                               else orderUpdateAction r = 1 \<longrightarrow> calm_canc un s r)
      | MBO_TRD r \<Rightarrow> x_valid (t_venue r) \<and> t_sendingTime r > 0 \<and> sint (t_lastQty r) \<ge> 0
                     \<and> sint (t_lastQty r) \<le> CHOPIN_MAX_ORD_SZ
      | EOB \<Rightarrow> d_sender m \<noteq> None
      | _ \<Rightarrow> True)"

section \<open>One level\<close>

lemma level_after_uint:
  assumes "uint x = L" "0 \<le> L + d" "L + d < 2 ^ 31"
  shows "uint (level_after x d) = L + d"
proof (cases "d < 0 \<and> uint x \<le> \<bar>d\<bar>")
  case True
  then have "d = - L"
    using assms(1,2) by arith
  then show ?thesis
    using True assms(1) by (simp add: level_after_def)
next
  case False
  have "x + of_int d = word_of_int (L + d)"
    by (simp flip: assms(1))
  moreover have "uint (word_of_int (L + d) :: u32) = L + d"
    using assms(2,3) by (simp add: unsigned_of_int take_bit_int_eq_self del: of_int_add)
  ultimately have "uint (x + of_int d) = L + d"
    by simp
  then show ?thesis
    using False assms by (auto simp: level_after_def)
qed

definition real_side :: "bs \<Rightarrow> bool" where "real_side sd \<longleftrightarrow> sd = BUY \<or> sd = SEL"

lemma side_upd_lv:
  assumes "real_side sd" "in_ladder px" "0 \<le> lv s sd px + d" "lv s sd px + d < 2 ^ 31" "d > - (2 ^ 31)"
  shows "\<exists>s'. side_upd s sd px d = Inr s' \<and> applies s s' \<and> tb_orders s' = tb_orders s
    \<and> (\<forall>sd' p. real_side sd' \<longrightarrow> lv s' sd' p = lv s sd' p + (if sd' = sd \<and> p = px then d else 0))"
proof -
  have new: "uint (level_after (lvls (side_of s sd) px) d) = lv s sd px + d"
    using assms(3,4) by (intro level_after_uint) (simp_all add: lv_def)
  have up: "update_sz n (side_of s sd) px d = Inr (set_level n (side_of s sd) px (level_after (lvls (side_of s sd) px) d))" for n
    using assms(2,5) by (simp add: update_sz_def in32_def ck32_ok)
  have "\<exists>s'. side_upd s sd px d = Inr s' \<and> tb_orders s' = tb_orders s
      \<and> (\<forall>sd' p. real_side sd' \<longrightarrow> lv s' sd' p = lv s sd' p + (if sd' = sd \<and> p = px then d else 0))"
  proof (cases "sd = BUY")
    case True
    then show ?thesis
      using up [of 0] new by (auto simp: side_upd_def side_of_def lv_def lvls_set_level real_side_def)
  next
    case False
    then have "sd = SEL" using assms(1) by (simp add: real_side_def)
    then show ?thesis
      using up [of 1] new by (auto simp: side_upd_def side_of_def lv_def lvls_set_level real_side_def)
  qed
  then show ?thesis
    using ensuresD [OF applies_side_upd] by blast
qed

lemma mbo_side_real: "mbo_get_side r = Inr sd \<Longrightarrow> real_side sd"
  by (auto simp: mbo_get_side_def real_side_def split: if_splits)

lemma have_side_get: "have_side r \<Longrightarrow> \<exists>sd. mbo_get_side r = Inr sd"
  by (auto simp: have_side_def mbo_get_side_def)

lemma order_fineE:
  assumes "order_fine un r"
  obtains sd p where "mbo_get_side r = Inr sd" "real_side sd" "to_px un (pxd r) = Inr p" "in_ladder p" "pxd r > 0"
  using assms have_side_get mbo_side_real by (force simp: order_fine_def split: sum.splits)

section \<open>The sums after one change\<close>

definition share :: "real \<Rightarrow> bs \<Rightarrow> int \<Rightarrow> mbo option \<Rightarrow> int" where
  "share un sd p x = (case x of None \<Rightarrow> 0 | Some r \<Rightarrow> at_level un sd p r)"

definition qty_of :: "mbo option \<Rightarrow> int" where
  "qty_of x = (case x of None \<Rightarrow> 0 | Some r \<Rightarrow> qty r)"

lemma share_simps [simp]: "share un sd p None = 0" "share un sd p (Some r) = at_level un sd p r"
  "qty_of None = 0" "qty_of (Some r) = qty r"
  by (simp_all add: share_def qty_of_def)

lemma level_sum_upd:
  assumes "finite (dom m)"
  shows "level_sum un (m(i := x)) sd p = level_sum un m sd p - share un sd p (m i) + share un sd p x"
  using msum_put [OF assms] msum_del [OF assms]
  by (cases x) (simp_all add: level_sum_def msum_at_def share_def)

lemma total_upd:
  assumes "finite (dom m)"
  shows "total_qty (m(i := x)) = total_qty m - qty_of (m i) + qty_of x"
  using msum_put [OF assms] msum_del [OF assms]
  by (cases x) (simp_all add: total_qty_def msum_at_def qty_of_def)

lemma qty_nonneg: "0 \<le> qty r" "0 \<le> at_level un sd p r" "at_level un sd p r \<le> qty r"
  by (simp_all add: qty_def at_level_def)

lemma level_sum_bounds:
  assumes "finite (dom m)"
  shows "0 \<le> level_sum un m sd p" "level_sum un m sd p \<le> total_qty m" "share un sd p (m i) \<le> level_sum un m sd p"
  using msum_mono [OF assms, of "at_level un sd p" qty] msum_mono(3) [OF assms, of "at_level un sd p" "at_level un sd p" i] qty_nonneg
  by (auto simp: level_sum_def total_qty_def share_def msum_at_def split: option.splits)

lemma qty_of_total: "finite (dom m) \<Longrightarrow> qty_of (m i) \<le> total_qty m" "finite (dom m) \<Longrightarrow> 0 \<le> total_qty m"
  using msum_mono(1,3) [of m qty qty] qty_nonneg by (auto simp: total_qty_def qty_of_def msum_at_def split: option.splits)

lemma mirrors_lv: "mirrors un s \<Longrightarrow> in_ladder p \<Longrightarrow> real_side sd \<Longrightarrow> lv s sd p = level_sum un (tb_orders s) sd p"
  by (auto simp: mirrors_def real_side_def)

lemma mirrors_upd:
  assumes "mirrors un s" "finite (dom (tb_orders s))" "tb_orders s' = (tb_orders s)(i := x)"
    "\<And>sd p. real_side sd \<Longrightarrow> in_ladder p \<Longrightarrow> lv s' sd p = lv s sd p - share un sd p (tb_orders s i) + share un sd p x"
  shows "mirrors un s'"
  unfolding mirrors_def assms(3) level_sum_upd [OF assms(2)]
  using assms(4) mirrors_lv [OF assms(1)] by (simp add: real_side_def)

lemma lv_bounds:
  assumes "mirrors un s" "finite (dom (tb_orders s))" "in_ladder p" "real_side sd" "orders_fine un s"
  shows "0 \<le> lv s sd p" "lv s sd p < 1000000" "share un sd p (tb_orders s i) \<le> lv s sd p"
  using level_sum_bounds [OF assms(2), of un sd p] mirrors_lv [OF assms(1,3,4)] assms(5)
  by (auto simp: orders_fine_def)

text \<open>The states between the records: the two books agree.\<close>

definition agree :: "real \<Rightarrow> TachBook \<Rightarrow> bool" where
  "agree un s \<longleftrightarrow> mirrors un s \<and> finite (dom (tb_orders s)) \<and> orders_fine un s"

lemma sint_small: "uint (w :: u32) < 2 ^ 31 \<Longrightarrow> sint w = uint w"
  unfolding sint_uint by (rule signed_take_bit_int_eq_self) (simp_all, use uint_ge_0 [of w] in linarith)

lemma agreeD:
  assumes "agree un s"
  shows "mirrors un s" "finite (dom (tb_orders s))" "orders_fine un s"
  using assms by (simp_all add: agree_def)

lemma agree_order:
  assumes "agree un s" "tb_orders s i = Some r"
  shows "order_fine un r" "qty r \<le> total_qty (tb_orders s)" "qty r < 1000000" "total_qty (tb_orders s) < 1000000"
  using assms qty_of_total(1) [of "tb_orders s" i] by (auto simp: agree_def orders_fine_def)

text \<open>
  Replacing the order \<open>i\<close> by \<open>x\<close>, once the levels have moved by the two shares.
\<close>

lemma agree_upd:
  assumes "agree un s" "tb_orders s' = (tb_orders s)(i := x)"
    "\<And>sd p. real_side sd \<Longrightarrow> in_ladder p \<Longrightarrow> lv s' sd p = lv s sd p - share un sd p (tb_orders s i) + share un sd p x"
    "\<And>r. x = Some r \<Longrightarrow> order_fine un r" "total_qty (tb_orders s) - qty_of (tb_orders s i) + qty_of x < 1000000"
  shows "agree un s'"
proof -
  note a = agreeD [OF assms(1)]
  have "mirrors un s'"
    by (rule mirrors_upd [OF a(1,2) assms(2,3)])
  moreover have "orders_fine un s'"
    using a(3) assms(4,5) unfolding orders_fine_def assms(2) total_upd [OF a(2)] by auto
  ultimately show ?thesis
    using a(2) by (simp add: agree_def assms(2))
qed

lemma at_level_eq:
  assumes "mbo_get_side r = Inr sd" "to_px un (pxd r) = Inr px"
  shows "at_level un sd' p r = (if sd' = sd \<and> p = px then qty r else 0)"
  using assms by (auto simp: at_level_def)

lemma neg_qty_small:
  assumes "qty r < 1000000"
  shows "neg_qty (displayQty r) = Inr (- qty r)"
proof -
  have "in32 (- qty r)"
    using assms qty_nonneg(1) [of r] unfolding in32_def by simp
  then show ?thesis
    using assms by (simp add: neg_qty_def qty_def sint_small)
qed

text \<open>Taking an order off its level.\<close>

lemma take_off:
  assumes "agree un s" "tb_orders s i = Some ord" "mbo_get_side ord = Inr sd" "to_px un (pxd ord) = Inr px" "in_ladder px"
  shows "\<exists>s1. side_upd s sd px (- qty ord) = Inr s1 \<and> applies s s1 \<and> tb_orders s1 = tb_orders s
    \<and> (\<forall>sd' p. real_side sd' \<longrightarrow> lv s1 sd' p = lv s sd' p - at_level un sd' p ord) \<and> lv s1 sd px < 1000000"
proof -
  note a = agreeD [OF assms(1)] agree_order [OF assms(1,2)] qty_nonneg(1) [of ord]
  have sd: "real_side sd"
    using mbo_side_real [OF assms(3)] .
  have b: "qty ord \<le> lv s sd px" "lv s sd px < 1000000"
    using lv_bounds(2) [OF a(1,2) assms(5) sd a(3)] lv_bounds(3) [OF a(1,2) assms(5) sd a(3), of i]
      assms(2) at_level_eq [OF assms(3,4), of sd px] by simp_all
  have "0 \<le> lv s sd px + - qty ord" "lv s sd px + - qty ord < 2 ^ 31" "- qty ord > - (2 ^ 31)"
    using a(6,8) b by simp_all
  then obtain s1 where s1: "side_upd s sd px (- qty ord) = Inr s1" "applies s s1" "tb_orders s1 = tb_orders s"
    "\<forall>sd' p. real_side sd' \<longrightarrow> lv s1 sd' p = lv s sd' p + (if sd' = sd \<and> p = px then - qty ord else 0)"
    using side_upd_lv [OF sd assms(5)] by blast
  have "lv s1 sd' p = lv s sd' p - at_level un sd' p ord" if "real_side sd'" for sd' p
    using s1(4) that by (simp add: at_level_eq [OF assms(3,4)])
  moreover have "lv s1 sd px < 1000000"
    using s1(4) sd b a(8) by simp
  ultimately show ?thesis
    using s1 by blast
qed

lemma drop_old_agree:
  assumes "agree un s"
  shows "\<exists>s1. drop_old un s i = Inr s1 \<and> applies s s1 \<and> agree un s1 \<and> tb_orders s1 = (tb_orders s)(i := None)
    \<and> (\<forall>sd p. real_side sd \<longrightarrow> lv s1 sd p \<le> lv s sd p)"
proof (cases "tb_orders s i")
  case None
  then have "tb_orders s = (tb_orders s)(i := None)"
    by (simp add: fun_upd_idem)
  then show ?thesis
    using assms None by (intro exI [of _ s]) (simp add: drop_old_def)
next
  case (Some ord)
  obtain sd px where o1: "mbo_get_side ord = Inr sd" "to_px un (pxd ord) = Inr px" "in_ladder px"
    using agree_order(1) [OF assms Some] by (rule order_fineE)
  obtain s1 where s1: "side_upd s sd px (- qty ord) = Inr s1" "applies s s1" "tb_orders s1 = tb_orders s"
    "\<forall>sd' p. real_side sd' \<longrightarrow> lv s1 sd' p = lv s sd' p - at_level un sd' p ord"
    using take_off [OF assms Some o1] by blast
  let ?t = "s1\<lparr>tb_orders := (tb_orders s1)(i := None)\<rparr>"
  have lvt: "lv ?t sd' p = lv s1 sd' p" for sd' p
    by (simp add: lv_def side_of_def)
  have le: "lv ?t sd' p \<le> lv s sd' p" if "real_side sd'" for sd' p
    using s1(4) that qty_nonneg(2) [of un sd' p ord] by (simp add: lvt)
  have "agree un ?t"
    by (rule agree_upd [OF assms, of ?t i None])
      (use s1(3,4) lvt Some agree_order(4) [OF assms Some] qty_nonneg(1) [of ord] in simp_all)
  moreover have "drop_old un s i = Inr ?t"
    using Some o1 agree_order(3) [OF assms Some] s1(1) by (simp add: drop_old_def neg_qty_small)
  moreover have "applies s ?t"
    using s1(2) by (rule applies_put)
  ultimately show ?thesis
    using s1(3) le by (intro exI [of _ ?t]) simp
qed

text \<open>Payloads, and the checks they make.\<close>

lemma payload_returns:
  assumes "x_valid v" "rec \<or> sendt > 0" "px > 0" "0 \<le> sint sz" "sint sz \<le> CHOPIN_MAX_ORD_SZ" "0 \<le> sint dsz" "real_side sd"
    "mev = ADD \<or> mev = MOD \<and> act \<noteq> MT_UNI"
  shows "returns (make_payload un ts0 sd oid ref sy mev act sz dsz px txtim sendt v eoe rec)"
  using assms
  by (auto simp: make_payload_def Let_def p_is_valid_def returns_bnd bs_valid_def real_side_def mt_valid_def md_valid_def
      CHOPIN_MAX_ORD_SZ_def)

lemma tach_payload_returns:
  assumes "sendable r" "px > 0" "0 \<le> sint sz" "sint sz \<le> CHOPIN_MAX_ORD_SZ" "0 \<le> sint dsz" "real_side sd"
    "mev = ADD \<or> mev = MOD \<and> act \<noteq> MT_UNI"
  shows "\<exists>pl. tach_payload un s r sd mev act sz dsz px = Inr pl"
  using payload_returns [of "venue r" "recovery r" "sendingTime r" px sz dsz sd mev act un] assms
  by (fastforce simp: tach_payload_def sendable_def returns_iff)

lemma publish_returns:
  assumes "in32 (tb_eob_counter s + 1)"
  shows "\<exists>s'. publish_book s pl = Inr s'"
  using assms by (auto simp: publish_book_def Let_def send_point_def post_all_def ck32_ok)

section \<open>One orderly record\<close>

lemma lv_upd [simp]:
  "lv (s\<lparr>tb_orders := m\<rparr>) sd p = lv s sd p" "lv (s\<lparr>tb_orders := m, tb_dbg_px_left := n\<rparr>) sd p = lv s sd p"
  by (simp_all add: lv_def side_of_def)

lemma lv_nonneg: "0 \<le> lv s sd p"
  by (simp add: lv_def)

lemma lv_zero: "lv s sd p = 0 \<longleftrightarrow> lvls (side_of s sd) p = 0"
  by (simp add: lv_def uint_0_iff)

lemma uncross_none:
  assumes "sides_ok s" "sd = BUY \<Longrightarrow> \<forall>q. in_ladder q \<and> lv s SEL q \<noteq> 0 \<longrightarrow> px < q"
    "sd = SEL \<Longrightarrow> \<forall>q. in_ladder q \<and> lv s BUY q \<noteq> 0 \<longrightarrow> q < px"
  shows "uncross_add s sd px = Inr s"
proof -
  have ok: "best_ok 0 (tb_bid s)" "best_ok 1 (tb_ask s)"
    using assms(1) by (simp_all add: sides_ok_def)
  have "best (tb_ask s) \<noteq> INVALID_ASK \<Longrightarrow> sd = BUY \<Longrightarrow> px < best (tb_ask s)"
    using asks.top_some [OF ok(2)] assms(2) by (simp add: lv_zero side_of_def)
  moreover have "best (tb_bid s) \<noteq> INVALID_BID \<Longrightarrow> sd = SEL \<Longrightarrow> best (tb_bid s) < px"
    using bids.top_some [OF ok(1)] assms(3) by (simp add: lv_zero side_of_def)
  ultimately show ?thesis
    by (auto simp: uncross_add_def Let_def)
qed

lemma small_sz: "qty r < 1000000 \<Longrightarrow> 0 \<le> sint (displayQty r) \<and> sint (displayQty r) \<le> CHOPIN_MAX_ORD_SZ
    \<and> sint (displayQty r) = qty r"
  using qty_nonneg(1) [of r] by (simp add: sint_small qty_def CHOPIN_MAX_ORD_SZ_def)

lemma calm_add_agree:
  assumes "agree un s" "sides_ok s" "sendable r" "calm_add un s r"
  shows "\<exists>s' pl. tach_add un s r = Inr (s', Some pl) \<and> agree un s'"
proof -
  let ?i = "orderID r"
  obtain s1 where s1: "drop_old un s ?i = Inr s1" "applies s s1" "agree un s1" "tb_orders s1 = (tb_orders s)(?i := None)"
    "\<forall>sd p. real_side sd \<longrightarrow> lv s1 sd p \<le> lv s sd p"
    using drop_old_agree [OF assms(1)] by blast
  have fine: "order_fine un r" "total_qty (tb_orders s) + qty r < 1000000"
    using assms(4) by (simp_all add: calm_add_def)
  obtain sd px where o1: "mbo_get_side r = Inr sd" "real_side sd" "to_px un (pxd r) = Inr px" "in_ladder px" "pxd r > 0"
    using fine(1) by (rule order_fineE)
  have tot: "total_qty (tb_orders s1) \<le> total_qty (tb_orders s)"
    using total_upd [OF agreeD(2) [OF assms(1)], of ?i None] qty_nonneg(1) by (simp add: s1(4) qty_of_def split: option.splits)
  have q: "0 \<le> qty r" "qty r < 1000000"
    using fine(2) qty_of_total(2) [OF agreeD(2) [OF assms(1)]] qty_nonneg(1) [of r] by simp_all
  let ?s2 = "s1\<lparr>tb_orders := (tb_orders s1)(?i \<mapsto> r),
               tb_dbg_px_left := (if tb_dbg_px_left s1 > 0 then tb_dbg_px_left s1 - 1 else tb_dbg_px_left s1)\<rparr>"
  have "0 \<le> lv ?s2 sd px + qty r" "lv ?s2 sd px + qty r < 2 ^ 31"
    using lv_bounds(1,2) [OF agreeD(1,2) [OF s1(3)] o1(4,2) agreeD(3) [OF s1(3)]] q by simp_all
  then obtain s3 where s3: "side_upd ?s2 sd px (qty r) = Inr s3" "applies ?s2 s3" "tb_orders s3 = tb_orders ?s2"
    "\<forall>sd' p. real_side sd' \<longrightarrow> lv s3 sd' p = lv s1 sd' p + (if sd' = sd \<and> p = px then qty r else 0)"
    using side_upd_lv [OF o1(2,4), of ?s2 "qty r"] q(1) by auto
  have agree3: "agree un s3"
    by (rule agree_upd [OF s1(3), of s3 ?i "Some r"])
      (use s3(3,4) s1(4) fine tot in \<open>simp_all add: at_level_eq [OF o1(1,3)]\<close>)
  have sides3: "sides_ok s3"
    using assms(2) s1(2) s3(2) applies_orders(3) [where s = s1 and i = ?i and x = "Some r"] by (simp add: applies_def)
  have below: "lv s3 sd' p \<noteq> 0 \<Longrightarrow> lv s sd' p \<noteq> 0" if "real_side sd'" "sd' \<noteq> sd" for sd' p
  proof -
    have "lv s3 sd' p = lv s1 sd' p" "lv s1 sd' p \<le> lv s sd' p"
      using s3(4) s1(5) that by simp_all
    then show "lv s3 sd' p \<noteq> 0 \<Longrightarrow> lv s sd' p \<noteq> 0"
      using lv_nonneg [of s1 sd' p] by simp
  qed
  have beyond: "in_ladder q \<Longrightarrow> lvls (tb_ask s) q \<noteq> 0 \<Longrightarrow> best (tb_ask s) \<le> q"
    "in_ladder q \<Longrightarrow> lvls (tb_bid s) q \<noteq> 0 \<Longrightarrow> q \<le> best (tb_bid s)" for q
    using assms(2) asks.top_best [of "tb_ask s" q] bids.top_best [of "tb_bid s" q] by (auto simp: sides_ok_def)
  have "uncross_add s3 sd px = Inr s3"
  proof (rule uncross_none [OF sides3])
    assume "sd = BUY"
    then show "\<forall>q. in_ladder q \<and> lv s3 SEL q \<noteq> 0 \<longrightarrow> px < q"
      using assms(4) o1 below [of SEL] beyond by (force simp: calm_add_def lv_zero side_of_def real_side_def)
  next
    assume "sd = SEL"
    then show "\<forall>q. in_ladder q \<and> lv s3 BUY q \<noteq> 0 \<longrightarrow> q < px"
      using assms(4) o1 below [of BUY] beyond by (force simp: calm_add_def lv_zero side_of_def real_side_def)
  qed
  moreover obtain pl where "tach_payload un s3 r sd ADD MT_NONE (displayQty r) (displayQty r) (pxd r) = Inr pl"
    using tach_payload_returns [OF assms(3) o1(5) _ _ _ o1(2)] small_sz [OF q(2)] by blast
  ultimately show ?thesis
    using s1(1) o1 s3(1) agree3 small_sz [OF q(2)] by (simp add: tach_add_def)
qed

text \<open>An order that moves: off its level, then onto the new one.\<close>

lemma put_on:
  assumes "agree un s" "tb_orders s i = Some ord" "real_side sd" "in_ladder px" "tb_orders s1 = tb_orders s"
    "\<forall>sd' p. real_side sd' \<longrightarrow> lv s1 sd' p = lv s sd' p - at_level un sd' p ord"
    "mbo_get_side ord1 = Inr sd" "to_px un (pxd ord1) = Inr px" "pxd ord1 > 0"
    "total_qty (tb_orders s) + qty ord1 < 1000000"
  shows "\<exists>s2. side_upd s1 sd px (qty ord1) = Inr s2 \<and> agree un (s2\<lparr>tb_orders := (tb_orders s2)(i \<mapsto> ord1)\<rparr>)"
proof -
  have b: "0 \<le> lv s1 sd px" "lv s1 sd px < 1000000"
    using lv_nonneg [of s1 sd px] lv_bounds(2) [OF agreeD(1,2) [OF assms(1)] assms(4,3) agreeD(3) [OF assms(1)]] assms(3,6) qty_nonneg(2) [of un sd px ord]
    by simp_all
  have q: "0 \<le> qty ord1" "qty ord1 < 1000000"
    using assms(10) qty_of_total(2) [OF agreeD(2) [OF assms(1)]] qty_nonneg(1) [of ord1] by simp_all
  obtain s2 where s2: "side_upd s1 sd px (qty ord1) = Inr s2" "tb_orders s2 = tb_orders s1"
    "\<forall>sd' p. real_side sd' \<longrightarrow> lv s2 sd' p = lv s1 sd' p + (if sd' = sd \<and> p = px then qty ord1 else 0)"
    using side_upd_lv [OF assms(3,4), of s1 "qty ord1"] b q by auto
  have fine: "order_fine un ord1"
    using assms(4,7-9) by (auto simp: order_fine_def mbo_get_side_def have_side_def split: if_splits)
  have "agree un (s2\<lparr>tb_orders := (tb_orders s2)(i \<mapsto> ord1)\<rparr>)"
    by (rule agree_upd [OF assms(1), of _ i "Some ord1"])
      (use s2(2,3) assms(2,5,6,10) fine qty_nonneg(1) [of ord] in \<open>simp_all add: at_level_eq [OF assms(7,8)]\<close>)
  then show ?thesis
    using s2(1) by blast
qed

lemma side_keeps [simp]:
  "mbo_get_side (r\<lparr>displayQty := q\<rparr>) = mbo_get_side r" "mbo_get_side (r\<lparr>pxd := x\<rparr>) = mbo_get_side r"
  by (simp_all add: mbo_get_side_def)

lemma qty_upd [simp]: "qty (r\<lparr>displayQty := q\<rparr>) = uint q" "qty (r\<lparr>pxd := x\<rparr>) = qty r"
  by (simp_all add: qty_def)

lemma qty_less: "displayQty r < displayQty ord \<longleftrightarrow> qty r < qty ord"
  by (simp add: word_less_def qty_def)

lemma uint_diff:
  assumes "uint (b :: u32) \<le> uint a"
  shows "uint (a - b) = uint a - uint b"
proof -
  have "a - b = word_of_int (uint a - uint b)"
    by simp
  moreover have "uint a - uint b < 2 ^ LENGTH(32)"
    using uint_lt2p [of a] uint_ge_0 [of b] by linarith
  then have "uint (word_of_int (uint a - uint b) :: u32) = uint a - uint b"
    using assms by (simp add: unsigned_of_int take_bit_int_eq_self del: of_int_diff)
  ultimately show ?thesis
    by simp
qed

text \<open>What a change needs of the order it changes.\<close>

definition change_ok :: "real \<Rightarrow> TachBook \<Rightarrow> mbo \<Rightarrow> mbo \<Rightarrow> bs \<Rightarrow> int \<Rightarrow> bool" where
  "change_ok un s r ord sd px \<longleftrightarrow> agree un s \<and> tb_orders s (orderID r) = Some ord \<and> mbo_get_side ord = Inr sd
     \<and> to_px un (pxd ord) = Inr px \<and> in_ladder px \<and> pxd ord > 0 \<and> total_qty (tb_orders s) + qty r < 1000000"

lemma change_okD:
  assumes "change_ok un s r ord sd px"
  shows "agree un s" "tb_orders s (orderID r) = Some ord" "mbo_get_side ord = Inr sd" "to_px un (pxd ord) = Inr px"
    "in_ladder px" "pxd ord > 0" "total_qty (tb_orders s) + qty r < 1000000" "real_side sd" "qty r < 1000000" "qty ord < 1000000"
    "0 \<le> qty r" "0 \<le> qty ord" "qty ord \<le> total_qty (tb_orders s)"
  using assms mbo_side_real [of ord sd] qty_nonneg(1) [of r] qty_nonneg(1) [of ord] agree_order(2-4) [of un s "orderID r" ord]
  by (simp_all add: change_ok_def)

lemma resize_agree:
  assumes "change_ok un s r ord sd px"
  shows "\<exists>s1. side_upd s sd px (qty r - qty ord) = Inr s1
    \<and> agree un (s1\<lparr>tb_orders := (tb_orders s1)(orderID r \<mapsto> ord\<lparr>displayQty := displayQty r\<rparr>)\<rparr>)"
proof -
  note c = change_okD [OF assms]
  note a = agreeD [OF c(1)]
  have b: "qty ord \<le> lv s sd px" "lv s sd px < 1000000"
    using lv_bounds(2) [OF a(1,2) c(5,8) a(3)] lv_bounds(3) [OF a(1,2) c(5,8) a(3), of "orderID r"]
      c(2) at_level_eq [OF c(3,4), of sd px] by simp_all
  have "0 \<le> lv s sd px + (qty r - qty ord)" "lv s sd px + (qty r - qty ord) < 2 ^ 31" "qty r - qty ord > - (2 ^ 31)"
    using b c(9-12) by simp_all
  then obtain s1 where s1: "side_upd s sd px (qty r - qty ord) = Inr s1" "tb_orders s1 = tb_orders s"
    "\<forall>sd' p. real_side sd' \<longrightarrow> lv s1 sd' p = lv s sd' p + (if sd' = sd \<and> p = px then qty r - qty ord else 0)"
    using side_upd_lv [OF c(8,5)] by blast
  let ?o = "ord\<lparr>displayQty := displayQty r\<rparr>"
  have o1: "mbo_get_side ?o = Inr sd" "to_px un (pxd ?o) = Inr px" "qty ?o = qty r"
    using c(3,4) by (simp_all, simp add: qty_def)
  have fine: "order_fine un ?o"
    using agree_order(1) [OF c(1,2)] by (simp add: order_fine_def have_side_def)
  have "agree un (s1\<lparr>tb_orders := (tb_orders s1)(orderID r \<mapsto> ?o)\<rparr>)"
    by (rule agree_upd [OF c(1), of _ "orderID r" "Some ?o"])
      (use s1(2,3) c(2,7,12) o1(3) fine in \<open>simp_all add: at_level_eq [OF c(3,4)] at_level_eq [OF o1(1,2)]\<close>)
  then show ?thesis
    using s1(1) by blast
qed

lemma move_agree:
  assumes "change_ok un s r ord sd px" "pxd r > 0" "to_px un (pxd r) = Inr px'" "in_ladder px'"
  shows "\<exists>s1 s2. side_upd s sd px (- qty ord) = Inr s1 \<and> lv s1 sd px < 1000000 \<and> side_upd s1 sd px' (qty r) = Inr s2
    \<and> agree un (s2\<lparr>tb_orders := (tb_orders s2)(orderID r \<mapsto> ord\<lparr>pxd := pxd r, displayQty := displayQty r\<rparr>)\<rparr>)"
proof -
  note c = change_okD [OF assms(1)]
  obtain s1 where s1: "side_upd s sd px (- qty ord) = Inr s1" "tb_orders s1 = tb_orders s" "lv s1 sd px < 1000000"
    "\<forall>sd' p. real_side sd' \<longrightarrow> lv s1 sd' p = lv s sd' p - at_level un sd' p ord"
    using take_off [OF c(1-5)] by blast
  let ?o = "ord\<lparr>pxd := pxd r, displayQty := displayQty r\<rparr>"
  have o1: "mbo_get_side ?o = Inr sd" "to_px un (pxd ?o) = Inr px'" "pxd ?o > 0" "qty ?o = qty r"
    using c(3) assms by (simp_all, simp add: qty_def)
  then show ?thesis
    using put_on [OF c(1,2,8) assms(4) s1(2,4) o1(1-3)] c(7) s1(1,3) by auto
qed

lemma move_order_eq:
  assumes "qty ord < 1000000" "qty r < 1000000" "to_px un (pxd r) = Inr px'" "side_upd s sd px (- qty ord) = Inr s1"
  shows "move_order un s sd px (displayQty ord) (pxd r) (displayQty r) = side_upd s1 sd px' (qty r)"
  using assms small_sz [of r] by (simp add: move_order_def neg_qty_small)

lemma replace_agree:
  assumes "change_ok un s r ord sd px" "is_replace r ord" "pxd r > 0" "to_px un (pxd r) = Inr px'" "in_ladder px'"
  shows "\<exists>s1 ord1. tach_replace un s r ord sd px = Inr (s1, ord1) \<and> pxd ord1 > 0
    \<and> agree un (s1\<lparr>tb_orders := (tb_orders s1)(orderID r \<mapsto> ord1)\<rparr>)"
proof -
  note c = change_okD [OF assms(1)]
  let ?same = "px_eq (pxd r) (pxd ord)"
  obtain s1 s2 where mv: "side_upd s sd px (- qty ord) = Inr s1" "lv s1 sd px < 1000000" "side_upd s1 sd px' (qty r) = Inr s2"
    "agree un (s2\<lparr>tb_orders := (tb_orders s2)(orderID r \<mapsto> ord\<lparr>pxd := pxd r, displayQty := displayQty r\<rparr>)\<rparr>)"
    using move_agree [OF assms(1,3-5)] by blast
  have mo: "move_order un s sd px (displayQty ord) (pxd r) (displayQty r) = Inr s2"
    using move_order_eq [OF c(10,9) assms(4) mv(1)] mv(3) by simp
  have up: "sint (displayQty r - displayQty ord) = qty r - qty ord" if "displayQty ord < displayQty r"
  proof -
    have "uint (displayQty r - displayQty ord) = qty r - qty ord"
      using that by (simp add: uint_diff qty_def word_less_def)
    moreover have "qty r - qty ord < 2 ^ 31"
      using c(9,12) by simp
    ultimately show ?thesis
      by (simp add: sint_small)
  qed
  consider "displayQty ord < displayQty r" "?same" | "displayQty r = displayQty ord" "\<not> ?same"
    | "displayQty ord < displayQty r" "\<not> ?same" | "displayQty r < displayQty ord" "\<not> ?same"
    using assms(2) linorder_less_linear [of "displayQty r" "displayQty ord"] by (auto simp: is_replace_def)
  then show ?thesis
  proof cases
    case 1
    obtain t where "side_upd s sd px (qty r - qty ord) = Inr t"
      "agree un (t\<lparr>tb_orders := (tb_orders t)(orderID r \<mapsto> ord\<lparr>displayQty := displayQty r\<rparr>)\<rparr>)"
      using resize_agree [OF assms(1)] by blast
    then show ?thesis
      using 1 up c(6) by (simp add: tach_replace_def Let_def qty_less)
  next
    case 2
    have same: "ord\<lparr>pxd := pxd r, displayQty := displayQty r\<rparr> = ord\<lparr>pxd := pxd r\<rparr>"
      using 2 by (cases ord) simp
    have q: "qty r = qty ord"
      using 2 by (simp add: qty_def)
    show ?thesis
    proof (cases "sd = BUY")
      case True
      have "get_sz (tb_bid s1) px < 1000000"
        using mv(2) c(5) True by (simp add: get_sz_def lv_def side_of_def word_less_def)
      then show ?thesis
        using 2 True mv small_sz [OF c(9)] assms(3,4) same
        by (simp add: tach_replace_def Let_def neg_qty_small [OF c(10)] q)
    next
      case False
      then show ?thesis
        using 2 mo mv(4) assms(3) same by (simp add: tach_replace_def Let_def)
    qed
  next
    case 3
    then show ?thesis
      using mo mv(4) assms(3) up by (auto simp: tach_replace_def Let_def qty_less)
  next
    case 4
    then show ?thesis
      using mo mv(4) assms(3) by (auto simp: tach_replace_def Let_def)
  qed
qed

lemma order_changeable:
  assumes "agree un s" "tb_orders s (orderID r) = Some ord" "total_qty (tb_orders s) + qty r < 1000000"
  shows "\<exists>sd px. change_ok un s r ord sd px"
proof -
  obtain sd px where "mbo_get_side ord = Inr sd" "real_side sd" "to_px un (pxd ord) = Inr px" "in_ladder px" "pxd ord > 0"
    using agree_order(1) [OF assms(1,2)] by (rule order_fineE)
  then have "change_ok un s r ord sd px"
    using assms by (simp add: change_ok_def)
  then show ?thesis
    by blast
qed

lemma ladder_price: "(case to_px un x of Inl _ \<Rightarrow> False | Inr p \<Rightarrow> in_ladder p) \<longleftrightarrow> (\<exists>p. to_px un x = Inr p \<and> in_ladder p)"
  by (auto split: sum.splits)

lemma calm_canc_agree:
  assumes "agree un s" "sendable r" "calm_canc un s r"
  shows "\<exists>s' pl. tach_canc un s r = Inr (s', pl) \<and> agree un s'"
proof (cases "tb_orders s (orderID r)")
  case None
  then show ?thesis
    using assms(1) by (simp add: tach_canc_def)
next
  case (Some ord)
  then have calm: "total_qty (tb_orders s) + qty r < 1000000" "displayQty ord < displayQty r \<Longrightarrow> pxd r > 0"
    "pxd r > 0 \<Longrightarrow> \<exists>p. to_px un (pxd r) = Inr p \<and> in_ladder p"
    using assms(3) by (auto simp: calm_canc_def ladder_price split: if_splits)
  obtain sd px where ch: "change_ok un s r ord sd px"
    using order_changeable [OF assms(1) Some calm(1)] by blast
  note c = change_okD [OF ch]
  have "\<exists>s1 ord1. (if is_replace r ord then tach_replace un s r ord sd px else tach_reduce s r ord sd px) = Inr (s1, ord1)
      \<and> pxd ord1 > 0 \<and> agree un (s1\<lparr>tb_orders := (tb_orders s1)(orderID r \<mapsto> ord1)\<rparr>)"
  proof (cases "is_replace r ord")
    case True
    then have "pxd r > 0"
      using calm(2) by (auto simp: is_replace_def)
    then show ?thesis
      using replace_agree [OF ch True] calm(3) True by auto
  next
    case False
    obtain s1 where s1: "side_upd s sd px (qty r - qty ord) = Inr s1"
      "agree un (s1\<lparr>tb_orders := (tb_orders s1)(orderID r \<mapsto> ord\<lparr>displayQty := displayQty r\<rparr>)\<rparr>)"
      using resize_agree [OF ch] by blast
    have "in32 (qty ord - qty r)" "in32 (qty r - qty ord)"
      using c(9-12) by (auto simp: in32_def)
    then have "tach_reduce s r ord sd px = Inr (s1, ord\<lparr>displayQty := displayQty r\<rparr>)"
      using s1(1) small_sz [OF c(9)] small_sz [OF c(10)] by (simp add: tach_reduce_def ck32_ok)
    then show ?thesis
      using False s1(2) c(6) by simp
  qed
  then obtain s1 ord1 where st: "(if is_replace r ord then tach_replace un s r ord sd px else tach_reduce s r ord sd px) = Inr (s1, ord1)"
    "pxd ord1 > 0" "agree un (s1\<lparr>tb_orders := (tb_orders s1)(orderID r \<mapsto> ord1)\<rparr>)"
    by blast
  obtain pl where "tach_payload un (s1\<lparr>tb_orders := (tb_orders s1)(orderID r \<mapsto> ord1)\<rparr>) r sd MOD CANC 0 (displayQty r) (pxd ord1) = Inr pl"
    using tach_payload_returns [OF assms(2) st(2), of 0 "displayQty r" sd MOD CANC un] small_sz [OF c(9)] c(8)
    by (auto simp: CHOPIN_MAX_ORD_SZ_def)
  then show ?thesis
    using Some c(3,4) st by (simp add: tach_canc_def)
qed

lemma calm_cancd_agree:
  assumes "agree un s" "sendable r"
  shows "\<exists>s' pl. tach_cancd un s r = Inr (s', pl) \<and> agree un s'"
proof (cases "tb_orders s (orderID r)")
  case None
  then show ?thesis
    using assms(1) by (simp add: tach_cancd_def)
next
  case (Some ord)
  obtain sd px where o1: "mbo_get_side ord = Inr sd" "real_side sd" "to_px un (pxd ord) = Inr px" "in_ladder px" "pxd ord > 0"
    using agree_order(1) [OF assms(1) Some] by (rule order_fineE)
  obtain s1 where s1: "side_upd s sd px (- qty ord) = Inr s1" "tb_orders s1 = tb_orders s" "lv s1 sd px < 1000000"
    "\<forall>sd' p. real_side sd' \<longrightarrow> lv s1 sd' p = lv s sd' p - at_level un sd' p ord"
    using take_off [OF assms(1) Some o1(1,3,4)] by blast
  let ?t = "s1\<lparr>tb_orders := (tb_orders s1)(orderID r := None)\<rparr>"
  have "agree un ?t"
    by (rule agree_upd [OF assms(1), of ?t "orderID r" None])
      (use s1(2,4) Some agree_order(4) [OF assms(1) Some] qty_nonneg(1) [of ord] in simp_all)
  moreover have "get_sz (side_of s1 sd) px < 10000000"
    using s1(3) o1(4) by (simp add: get_sz_def lv_def word_less_def)
  moreover obtain pl where "tach_payload un s1 r sd MOD CANCD 0 0 (pxd ord) = Inr pl"
    using tach_payload_returns [OF assms(2) o1(5), of 0 0 sd MOD CANCD un] o1(2) by (auto simp: CHOPIN_MAX_ORD_SZ_def)
  moreover have "\<not> (px < 0 \<or> px \<ge> ARRAY_SIZE)"
    using o1(4) by (simp add: in_ladder_def)
  ultimately show ?thesis
    using Some o1 s1(1) neg_qty_small [OF agree_order(3) [OF assms(1) Some]] by (simp add: tach_cancd_def)
qed

lemma calm_mbo_agree:
  assumes "agree un s" "sides_ok s" "sendable r"
    "if orderUpdateAction r = 0 then calm_add un s r else orderUpdateAction r = 1 \<longrightarrow> calm_canc un s r"
  shows "\<exists>s' pl. apply_mbo un s r = Inr (s', pl) \<and> agree un s'"
  using calm_add_agree [OF assms(1-3)] calm_canc_agree [OF assms(1,3)] calm_cancd_agree [OF assms(1,3)] assms(1,4)
  by (auto simp: apply_mbo_def)

section \<open>Orderly runs\<close>

lemma agree_cong:
  assumes "tb_bid s' = tb_bid s" "tb_ask s' = tb_ask s" "tb_orders s' = tb_orders s"
  shows "agree un s' = agree un s" "sides_ok s' = sides_ok s" "calm_add un s' r = calm_add un s r" "calm_canc un s' r = calm_canc un s r"
  unfolding agree_def mirrors_def orders_fine_def lv_def side_of_def sides_ok_def calm_add_def calm_canc_def assms
  by (rule refl)+

lemma release_book [simp]:
  "tb_bid (release_fills s sr) = tb_bid s" "tb_ask (release_fills s sr) = tb_ask s"
  "tb_orders (release_fills s sr) = tb_orders s" "tb_eob_counter (release_fills s sr) = tb_eob_counter s"
  "tb_sec_id (release_fills s sr) = tb_sec_id s" "tb_prev_pl (release_fills s sr) = tb_prev_pl s"
  "tb_aggr (release_fills s sr) = tb_aggr s" "tb_hiprio (release_fills s sr) = tb_hiprio s"
  by (simp_all add: release_fills_eq)

lemma applies_counter: "applies s s' \<Longrightarrow> tb_eob_counter s' = tb_eob_counter s"
  by (cases s, cases s') (simp add: applies_def book_part_def)

lemma calm_tach_mbo:
  assumes "tach_inv s" "agree un s" "in32 (tb_eob_counter s + 1)" "sendable r"
    "if orderUpdateAction r = 0 then calm_add un s r else orderUpdateAction r = 1 \<longrightarrow> calm_canc un s r"
  shows "\<exists>s'. tach_mbo un s r = Inr s' \<and> agree un s'"
proof (cases "securityID r = tb_sec_id s")
  case False
  then show ?thesis
    using assms(2) by (simp add: tach_mbo_def)
next
  case True
  note inv = tach_invD [OF assms(1)]
  obtain sr where sr: "on_book (tb_slate s) (orderID r) (transactTime r) (orderUpdateAction r) (pxd r) = Inr sr" "slate_inv (fst sr)"
    using on_book_ok [OF inv(3), of "orderID r" "transactTime r" "orderUpdateAction r" "pxd r" undefined] by auto
  obtain s1 where s1: "release_on_book s r = Inr s1" "tb_bid s1 = tb_bid s" "tb_ask s1 = tb_ask s" "tb_orders s1 = tb_orders s"
    "tb_eob_counter s1 = tb_eob_counter s" "tach_inv s1"
  proof (cases "recovery r")
    case True
    then show ?thesis
      using that [of s] assms(1) by (simp add: release_on_book_def)
  next
    case False
    then show ?thesis
      using that [of "release_fills s sr"] sr release_quiet(1) [OF assms(1), of sr] by (simp add: release_on_book_def)
  qed
  note cong = agree_cong [OF s1(2-4)]
  obtain s2 pl where s2: "apply_mbo un s1 r = Inr (s2, pl)" "agree un s2"
  proof -
    have "if orderUpdateAction r = 0 then calm_add un s1 r else orderUpdateAction r = 1 \<longrightarrow> calm_canc un s1 r"
      using assms(5) unfolding cong .
    then show ?thesis
      using that calm_mbo_agree [of un s1 r] assms(2,4) inv(1) cong(1,2) by blast
  qed
  have ap: "applies s1 s2"
    using ensuresD [OF applies_mbo s2(1)] by simp
  have inv2: "tach_inv s2"
    using stream_applies [OF s1(6) ap] by (simp add: stream_def)
  show ?thesis
  proof (cases "pl = None \<or> recovery r")
    case True
    then show ?thesis
      using \<open>securityID r = tb_sec_id s\<close> s1(1) s2 by (auto simp: tach_mbo_def split: option.splits)
  next
    case False
    then obtain p where p: "pl = Some p" "\<not> recovery r"
      by (cases pl) auto
    obtain s3 where s3: "publish_book s2 p = Inr s3"
      using publish_returns [of s2 p] applies_counter [OF ap] s1(5) assms(3) by auto
    have "agree un s3"
      using publish_book_cases [OF s3 tach_invD(4,1,5) [OF inv2]] agree_cong(1) s2(2) by blast
    then show ?thesis
      using True s1(1) s2(1) s3 p by (simp add: tach_mbo_def)
  qed
qed

lemma calm_tach_trd:
  assumes "tach_inv s" "agree un s" "x_valid (t_venue r)" "t_sendingTime r > 0" "0 \<le> sint (t_lastQty r)"
    "sint (t_lastQty r) \<le> CHOPIN_MAX_ORD_SZ"
  shows "\<exists>s'. tach_trd un s r = Inr s' \<and> agree un s'"
proof -
  let ?s1 = "release_fills s (advance (tb_slate s) (t_transactTime r))"
  have a1: "agree un ?s1"
    using assms(2) agree_cong(1) [of ?s1 s] by simp
  show ?thesis
  proof (cases "tb_orders ?s1 (t_orderID r)")
    case None
    then show ?thesis
      using a1 by (simp add: tach_trd_def)
  next
    case (Some ord)
    obtain sd px where o1: "mbo_get_side ord = Inr sd" "real_side sd" "to_px un (pxd ord) = Inr px" "in_ladder px" "pxd ord > 0"
      using agree_order(1) [OF a1 Some] by (rule order_fineE)
    have "returns (make_payload un (t_handlerendtim r) sd (t_orderID r) 0 (tb_sym ?s1) MOD EXEC (t_lastQty r) 0 (pxd ord)
        (t_transactTime r) (t_sendingTime r) (t_venue r) (t_endOfEvent r) False)"
      using assms(3-6) o1 by (intro payload_returns) simp_all
    then obtain pl where pl: "trade_payload un ?s1 r ord sd = Inr pl"
      by (auto simp: trade_payload_def returns_iff)
    have "tach_trd un s r = slate_trade un ?s1 r ord sd pl"
      using Some o1(1,2) pl by (auto simp: tach_trd_def Let_def real_side_def simp del: release_book)
    moreover have "slate_trade un ?s1 r ord sd pl = Inr (release_fills ?s1 (on_trade (tb_slate ?s1) (t_orderID r) (t_transactTime r)
        (pxd ord) (if sd = BUY then sBUY else sSEL) (t_lastQty r)
        (if sd = BUY then px = best (tb_bid ?s1) else px = best (tb_ask ?s1)) pl))"
      using o1(3) by (simp add: slate_trade_def)
    ultimately show ?thesis
      using agree_cong(1) [OF release_book(1-3)] a1 by metis
  qed
qed

lemma agree_empty: "tb_orders s = (\<lambda>_. None) \<Longrightarrow> tb_bid s = side_init 0 \<Longrightarrow> tb_ask s = side_init 1 \<Longrightarrow> agree un s"
  by (simp add: agree_def mirrors_def orders_fine_def lv_def side_of_def side_init_def level_sum_def total_qty_def)

lemma latch_book [simp]:
  "tb_bid (latch a s) = tb_bid s" "tb_ask (latch a s) = tb_ask s" "tb_orders (latch a s) = tb_orders s"
  "tb_eob_counter (latch a s) = tb_eob_counter s" "tb_prev_pl (latch a s) = tb_prev_pl s" "tb_sent (latch a s) = tb_sent s"
  by (simp_all add: latch_def Let_def)

lemma latch_scale: "ta_units a > 0 \<Longrightarrow> tb_have_scale (latch a s)"
  by (simp add: latch_def Let_def)

lemma calm_data:
  assumes "tach_inv s" "agree (ta_units a) s" "ta_units a > 0" "calm (ta_units a) s m"
  shows "\<exists>s'. tach_data a s m = Inr s' \<and> agree (ta_units a) s'"
proof -
  let ?s = "latch a s" and ?un = "ta_units a"
  have l: "tach_inv ?s" "agree ?un ?s"
    using latch_quiet [OF assms(1)] assms(2) agree_cong(1) [of ?s s] by simp_all
  have sc: "tach_data a s m = (case d_l3 m of
              MBO r \<Rightarrow> tach_mbo ?un ?s r
            | MBO_TRD r \<Rightarrow> tach_trd ?un ?s r
            | CHR_REC v \<Rightarrow> Inr (tach_reset ?s)
            | GAP_REC v \<Rightarrow> Inr (tach_gap ?s)
            | EOB \<Rightarrow> (case d_sender m of None \<Rightarrow> Inl (Undefined ''null dereference'') | Some x \<Rightarrow> Inr ?s)
            | _ \<Rightarrow> Inr ?s)"
    using latch_scale [OF assms(3), of s] by (simp add: tach_data_def Let_def)
  have reset: "agree ?un (tach_reset ?s)"
    by (rule agree_empty) (simp_all add: tach_reset_def Let_def post_all_def)
  have gap: "agree ?un (tach_gap ?s)"
    using l(2) agree_cong(1) [of "tach_gap ?s" ?s] by (simp add: tach_gap_def Let_def post_all_def)
  show ?thesis
  proof (cases "d_l3 m")
    case (MBO r)
    have "sendable r" "in32 (tb_eob_counter ?s + 1)"
      "if orderUpdateAction r = 0 then calm_add ?un ?s r else orderUpdateAction r = 1 \<longrightarrow> calm_canc ?un ?s r"
      using assms(4) MBO unfolding agree_cong(3,4) [OF latch_book(1-3)] by (simp_all add: calm_def)
    then show ?thesis
      using calm_tach_mbo [OF l] MBO sc by simp
  next
    case (MBO_TRD r)
    then show ?thesis
      using calm_tach_trd [OF l] assms(4) sc by (simp add: calm_def)
  qed (use sc l reset gap assms(4) in \<open>auto simp: calm_def\<close>)
qed

inductive calm_reach :: "(actor \<Rightarrow> string option) \<Rightarrow> tach_asset \<Rightarrow> TachBook \<Rightarrow> TachBook \<Rightarrow> bool" for nm a s0 where
  calm_start: "calm_reach nm a s0 s0"
| calm_record: "calm_reach nm a s0 s \<Longrightarrow> calm (ta_units a) s m \<Longrightarrow> tach_data a s m = Inr s' \<Longrightarrow> calm_reach nm a s0 s'"
| calm_other: "calm_reach nm a s0 s \<Longrightarrow> \<forall>b m. i \<noteq> TData b m \<Longrightarrow> tach_step nm s i = Inr s' \<Longrightarrow> calm_reach nm a s0 s'"

lemma other_keeps_book:
  assumes "\<forall>b m. i \<noteq> TData b m" "tach_step nm s i = Inr s'"
  shows "tb_bid s' = tb_bid s" "tb_ask s' = tb_ask s" "tb_orders s' = tb_orders s"
  using assms
  by (cases i; auto simp: tach_step_def subscribe_handler_def bbosubscribe_handler_def get_ex_id_def set_ex_sym_id_def
      update_bbbo_only_subs_def tach_shutdown_def Let_def split: option.splits if_splits)+

lemma calm_reach_agree:
  assumes "calm_reach nm a s0 s" "TachBook_init sy mp = Inr s0" "ta_units a > 0"
  shows "tach_inv s \<and> agree (ta_units a) s"
  using assms(1)
proof induction
  case calm_start
  have "agree (ta_units a) s0"
    using assms(2) by (intro agree_empty) (auto simp: TachBook_init_def)
  then show ?case
    using tach_init_inv [OF assms(2)] by simp
next
  case (calm_record s m s')
  then show ?case
    using calm_data [of s a m] stream_data [of s a m s'] assms(3) by (auto simp: stream_def)
next
  case (calm_other s i s')
  then show ?case
    using tach_step_inv [of s nm i s'] other_keeps_book [OF calm_other.hyps(2,3)] agree_cong(1) by blast
qed

section \<open>Properties\<close>

text \<open>
  C4. The ladder is the orders' book. As long as the feed is orderly, the aggregate size the book
  keeps for every price and side equals the sum of the sizes of the orders it holds there: adds,
  re-adds that replace an order, size and price changes, deletes, trades, channel resets and
  subscriptions in any order never make the incremental array drift. And no orderly record
  aborts: none of the assertions of the handlers or of the payload fires and no arithmetic
  overflows.
\<close>

theorem tach_levels_are_orders:
  assumes "TachBook_init sy mp = Inr s0" "ta_units a > 0" "calm_reach nm a s0 s"
  shows "(\<forall>p. in_ladder p \<longrightarrow>
      uint (get_sz (tb_bid s) p) = level_sum (ta_units a) (tb_orders s) BUY p
      \<and> uint (get_sz (tb_ask s) p) = level_sum (ta_units a) (tb_orders s) SEL p)
    \<and> (\<forall>m. calm (ta_units a) s m \<longrightarrow> returns (tach_data a s m))"
proof -
  have r: "tach_inv s" "agree (ta_units a) s"
    using calm_reach_agree [OF assms(3,1,2)] by simp_all
  have "returns (tach_data a s m)" if "calm (ta_units a) s m" for m
    using calm_data [OF r assms(2) that] by auto
  moreover have "mirrors (ta_units a) s"
    using agreeD(1) [OF r(2)] .
  ultimately show ?thesis
    by (auto simp: mirrors_def lv_def side_of_def get_sz_def)
qed


section \<open>An example\<close>

lemma side_upd_orders: "side_upd s sd px d = Inr s' \<Longrightarrow> tb_orders s' = tb_orders s"
  by (auto simp: side_upd_def split: if_splits)

lemma tach_add_orders:
  assumes "tach_add un s r = Inr (s', pl)"
  shows "tb_orders s' = (tb_orders s)(orderID r \<mapsto> r)"
proof -
  obtain s1 sd px s3 where st: "drop_old un s (orderID r) = Inr s1"
    "side_upd (s1\<lparr>tb_orders := (tb_orders s1)(orderID r \<mapsto> r),
        tb_dbg_px_left := (if tb_dbg_px_left s1 > 0 then tb_dbg_px_left s1 - 1 else tb_dbg_px_left s1)\<rparr>) sd px (sint (displayQty r)) = Inr s3"
    "uncross_add s3 sd px = Inr s'"
    using assms by (auto simp: tach_add_def Let_def)
  have "tb_orders s' = tb_orders s3"
    using st(3) by (auto simp: uncross_add_def Let_def split: if_splits)
  moreover have "(tb_orders s1)(orderID r \<mapsto> r) = (tb_orders s)(orderID r \<mapsto> r)"
    using st(1) by (auto simp: drop_old_def dest!: side_upd_orders split: option.splits)
  ultimately show ?thesis
    using side_upd_orders [OF st(2)] by simp
qed

lemma init_orders: "TachBook_init sy mp = Inr s \<Longrightarrow> tb_orders s = (\<lambda>_. None)"
  by (auto simp: TachBook_init_def)

lemma add_record_orders:
  assumes "tach_inv s" "tach_data a s m = Inr s'" "d_l3 m = MBO r" "orderUpdateAction r = 0" "securityID r = tb_sec_id (latch a s)"
    "ta_units a > 0"
  shows "tb_orders s' = (tb_orders s)(orderID r \<mapsto> r)"
proof -
  let ?s = "latch a s"
  have inv: "tach_inv ?s"
    using latch_quiet [OF assms(1)] by simp
  obtain s1 s2 pl where st: "release_on_book ?s r = Inr s1" "apply_mbo (ta_units a) s1 r = Inr (s2, pl)"
    "(case pl of None \<Rightarrow> Inr s2 | Some p \<Rightarrow> if recovery r then Inr s2 else publish_book s2 p) = Inr s'"
    using assms(2,3,5) latch_scale [OF assms(6), of s] by (auto simp: tach_data_def Let_def tach_mbo_def)
  have s1: "tb_orders s1 = tb_orders s" "tach_inv s1"
  proof -
    obtain sr where "on_book (tb_slate ?s) (orderID r) (transactTime r) (orderUpdateAction r) (pxd r) = Inr sr" "slate_inv (fst sr)"
      using on_book_ok [OF tach_invD(3) [OF inv], of "orderID r" "transactTime r" "orderUpdateAction r" "pxd r" undefined] by auto
    then show "tb_orders s1 = tb_orders s" "tach_inv s1"
      using st(1) inv release_quiet(1) [OF inv, of sr] by (auto simp: release_on_book_def split: if_splits)
  qed
  have s2: "tb_orders s2 = (tb_orders s)(orderID r \<mapsto> r)"
    using tach_add_orders [of "ta_units a" s1 r s2 pl] st(2) assms(4) s1(1) by (simp add: apply_mbo_def)
  have "tach_inv s2"
    using stream_applies [OF s1(2), of s2] ensuresD [OF applies_mbo st(2)] by (simp add: stream_def)
  then show ?thesis
    using st(3) s2 publish_book_cases [of s2 _ s'] tach_invD [of s2] by (auto split: option.splits if_splits)
qed

lemma calm_reach_others:
  assumes "calm_reach nm a s0 s" "tach_run nm s is = Inr s'" "\<forall>i\<in>set is. \<forall>b m. i \<noteq> TData b m"
  shows "calm_reach nm a s0 s'"
  using assms
proof (induction "is" arbitrary: s)
  case (Cons i "is")
  then obtain s1 where s1: "tach_step nm s i = Inr s1" "tach_run nm s1 is = Inr s'"
    by auto
  have "calm_reach nm a s0 s1"
    using calm_other [OF Cons.prems(1) _ s1(1)] Cons.prems(3) by simp
  then show ?case
    using Cons.IH s1(2) Cons.prems(3) by simp
qed simp

definition ex_m1 :: Data where "ex_m1 = tach_rec 0 CHR ''0'' 100 5 11 1000"
definition ex_m2 :: Data where "ex_m2 = tach_rec 0 CHR ''1'' 110 3 12 2000"
definition ex_mid :: TachBook where "ex_mid = projr (tach_data ex_asset ex_tach1 ex_m1)"

lemma ex_reach1: "calm_reach ex_names ex_asset ex_tach0 ex_tach1" "tb_orders ex_tach1 = (\<lambda>_. None)"
proof -
  show "calm_reach ex_names ex_asset ex_tach0 ex_tach1"
    by (rule calm_reach_others [OF calm_start ex_tach_runs(2)]) (auto simp: ex_tach_subs_def)
  note init_orders [OF ex_tach_runs(1)]
  then show "tb_orders ex_tach1 = (\<lambda>_. None)"
    using ex_tach_runs(2) by (auto simp: ex_tach_subs_def dest!: other_keeps_book(3) [rotated])
qed

lemma total_none [simp]: "total_qty (\<lambda>_. None) = 0"
  by (simp add: total_qty_def)

lemma ex_mid_reach: "calm_reach ex_names ex_asset ex_tach0 ex_mid" "total_qty (tb_orders ex_mid) = 5"
  and ex_m1_calm: "calm 1 ex_tach1 ex_m1" and ex_mid_eq: "tach_data ex_asset ex_tach1 ex_m1 = Inr ex_mid"
proof -
  have u: "ta_units ex_asset = 1"
    by (simp add: ex_asset_def)
  obtain r where r: "d_l3 ex_m1 = MBO r" "orderUpdateAction r = 0" "sendable r" "order_fine 1 r" "qty r = 5"
      "mbo_get_side r = Inr BUY" "to_px 1 (pxd r) = Inr 100" "securityID r = 7" "orderID r = 11"
  proof -
    obtain r where "d_l3 ex_m1 = MBO r"
      by (simp add: ex_m1_def tach_rec_def)
    moreover have "case d_l3 ex_m1 of MBO r \<Rightarrow> orderUpdateAction r = 0 \<and> sendable r \<and> order_fine 1 r \<and> qty r = 5
      \<and> mbo_get_side r = Inr BUY \<and> to_px 1 (pxd r) = Inr 100 \<and> securityID r = 7 \<and> orderID r = 11 | _ \<Rightarrow> False"
      by code_simp
    ultimately show ?thesis
      using that by simp
  qed
  have st: "in32 (tb_eob_counter ex_tach1 + 1)" "100 < best (tb_ask ex_tach1)" "tb_sec_id (latch ex_asset ex_tach1) = 7"
    "returns (tach_data ex_asset ex_tach1 ex_m1)"
    by code_simp+
  show calm: "calm 1 ex_tach1 ex_m1"
    using r st by (simp add: calm_def calm_add_def ex_reach1(2))
  show eq: "tach_data ex_asset ex_tach1 ex_m1 = Inr ex_mid"
    using st(4) by (auto simp: ex_mid_def returns_iff)
  show "calm_reach ex_names ex_asset ex_tach0 ex_mid"
    using calm_record [OF ex_reach1(1) _ eq] calm u by simp
  have "tach_inv ex_tach1"
    using tach_run_inv [OF tach_init_inv [OF ex_tach_runs(1)] ex_tach_runs(2)] .
  then have "tb_orders ex_mid = [11 \<mapsto> r]"
    using add_record_orders [OF _ eq r(1,2)] r(8,9) st(3) u by (simp add: ex_reach1(2))
  then show "total_qty (tb_orders ex_mid) = 5"
    using total_upd [of "\<lambda>_. None" 11 "Some r"] r(5) by simp
qed

theorem tach_levels_are_orders_witness:
  "level_sum 1 (tb_orders ex_mid) BUY 100 = 5 \<and> returns (tach_data ex_asset ex_tach1 ex_m1)"
proof -
  have u: "ta_units ex_asset = 1" "0 < ta_units ex_asset" and lad: "in_ladder 100"
    by (simp_all add: ex_asset_def in_ladder_def ARRAY_SIZE_def)
  have "uint (get_sz (tb_bid ex_mid) 100) = 5"
    by code_simp
  moreover have "uint (get_sz (tb_bid ex_mid) 100) = level_sum 1 (tb_orders ex_mid) BUY 100"
    using tach_levels_are_orders [OF ex_tach_runs(1) u(2) ex_mid_reach(1)] lad by (simp add: u(1))
  moreover have "returns (tach_data ex_asset ex_tach1 ex_m1)"
    using tach_levels_are_orders [OF ex_tach_runs(1) u(2) ex_reach1(1)] ex_m1_calm by (simp add: u(1))
  ultimately show ?thesis
    by simp
qed

lemma bursts_member: "p \<in> set (bursts_to x ms) \<Longrightarrow> (x, EndOfBurst p) \<in> set ms"
  by (auto simp: bursts_to_def List.map_filter_def split: ob_msg.splits if_splits)


end
