(* ===== verification/Tach_Faults.thy ===== *)
theory Tach_Faults
  imports Tach_Orders
begin

text \<open>
  Two records outside the orderly feed of \<open>Tach_Orders\<close>, and what \<open>Tach_Book\<close> does with them: an
  add that crosses empties levels but not the orders on them, and a change that raises the size
  without repeating the price stops the program.
\<close>

lemma release_on_book_orders: "release_on_book s r = Inr s1 \<Longrightarrow> tb_orders s1 = tb_orders s \<and> tb_sec_id s1 = tb_sec_id s"
  by (auto simp: release_on_book_def split: if_splits)


text \<open>
  A size increase without a price is fatal. The handler expects changes that leave the price
  out, but when such a change also raises the size it takes the price for a new one: the order
  moves to the level of price zero and the payload built from it fails the check that prices are
  positive. Whatever else the book holds, it does not survive the record.
\<close>

theorem tach_size_up_without_price_aborts:
  assumes "orderUpdateAction r = 1" "securityID r = tb_sec_id s" "pxd r = 0"
    and "tb_orders s (orderID r) = Some ord" "pxd ord > 0" "displayQty r > displayQty ord"
  shows "\<not> returns (tach_mbo un s r)"
proof
  assume "returns (tach_mbo un s r)"
  then obtain s1 x where s1: "release_on_book s r = Inr s1" "tach_canc un s1 r = Inr x"
    using assms(1,2) by (auto simp: tach_mbo_def returns_iff apply_mbo_def)
  have ord: "tb_orders s1 (orderID r) = Some ord"
    using release_on_book_orders [OF s1(1)] assms(4) by simp
  have ne: "\<not> px_eq 0 (pxd ord)"
    using assms(5) by (simp add: px_eq_def)
  obtain sd px s2 ord1 s3 pl where st: "tach_replace un s1 r ord sd px = Inr (s2, ord1)"
    "tach_payload un s3 r sd MOD CANC 0 (displayQty r) (pxd ord1) = Inr pl"
    using s1(2) ord assms(6) by (auto simp: tach_canc_def is_replace_def Let_def split: prod.splits)
  have "displayQty r \<noteq> displayQty ord" "\<not> px_eq (pxd r) (pxd ord)"
    using assms(3,6) ne by auto
  then have "pxd ord1 = 0"
    using st(1) assms(3,6) by (auto simp: tach_replace_def Let_def split: if_splits)
  then show False
    using st(2) by (simp add: tach_payload_def make_payload_def)
qed

section \<open>Examples\<close>

definition ex_sell :: mbo where
  "ex_sell = (case d_l3 (tach_rec 0 CHR ''1'' 262100 5 12 2000) of MBO r \<Rightarrow> r)"
definition ex_cross :: mbo where
  "ex_cross = (case d_l3 (tach_rec 0 CHR ''0'' 262101 2 13 3000) of MBO r \<Rightarrow> r)"
definition ex_size_up :: mbo where
  "ex_size_up = (case d_l3 (tach_rec 1 CHR ''1'' 0 9 12 4000) of MBO r \<Rightarrow> r)"
definition ex_one_ask :: TachBook where
  "ex_one_ask = fst (projr (tach_add 1 ex_tach0 ex_sell))"
definition ex_crossed :: TachBook where
  "ex_crossed = fst (projr (tach_add 1 ex_one_ask ex_cross))"

lemma ex_one_ask_facts:
  "tach_inv ex_one_ask" "tb_orders ex_one_ask = [12 \<mapsto> ex_sell]"
proof -
  have "returns (tach_add 1 ex_tach0 ex_sell)" "orderID ex_sell = 12"
    by code_simp+
  then obtain pl where add: "tach_add 1 ex_tach0 ex_sell = Inr (ex_one_ask, pl)" and i: "orderID ex_sell = 12"
    by (auto simp: ex_one_ask_def returns_iff)
  show "tach_inv ex_one_ask"
    using stream_applies [OF tach_init_inv [OF ex_tach_runs(1)]] ensuresD [OF applies_add add] by (simp add: stream_def)
  show "tb_orders ex_one_ask = [12 \<mapsto> ex_sell]"
    using tach_add_orders [OF add] init_orders [OF ex_tach_runs(1)] i by simp
qed


theorem tach_size_up_without_price_aborts_witness:
  "\<not> returns (tach_mbo 1 (ex_one_ask\<lparr>tb_sec_id := 7\<rparr>) ex_size_up)"
proof -
  have c: "orderUpdateAction ex_size_up = 1" "securityID ex_size_up = 7" "pxd ex_size_up = 0" "orderID ex_size_up = 12"
    "pxd ex_sell > 0" "displayQty ex_size_up > displayQty ex_sell"
    by (simp_all add: ex_size_up_def ex_sell_def tach_rec_def)
  show ?thesis
    by (rule tach_size_up_without_price_aborts [OF c(1) _ c(3) _ c(5,6)]) (simp_all add: c ex_one_ask_facts(2))
qed

end
