(* ===== verification/SOM_Typing.thy ===== *)
theory SOM_Typing
  imports SOM
begin

text \<open>
  The types of the order manager of \<open>SOM\<close>: what a well-typed state and a well-typed message
  are, that every message keeps the state well typed, and that handling one never uses a null
  pointer or an index out of range.
\<close>

section \<open>Results that are not undefined\<close>

text \<open>
  \<open>typed_res P r\<close>: the computation returns a value with \<open>P\<close>, or aborts in an assertion, or
  overflows an \<open>int\<close>; it does not dereference a null pointer and does not index out of range.
\<close>

definition typed_res :: "('a \<Rightarrow> bool) \<Rightarrow> 'a res \<Rightarrow> bool" where
  "typed_res P r \<longleftrightarrow>
     (case r of
        Inr x \<Rightarrow> P x
      | Inl (Assert _) \<Rightarrow> True
      | Inl (Undefined m) \<Rightarrow> m = ''signed overflow'' \<or> m = ''conversion out of range'')"

lemma typed_res_simps [simp]: "typed_res P (Inr x) \<longleftrightarrow> P x" "typed_res P (Inl (Assert m))" "typed_res P sngh"
  by (simp_all add: typed_res_def sngh_def)

lemma typed_chk: "(c \<Longrightarrow> typed_res P k) \<Longrightarrow> typed_res P (chk c m k)"
  by (simp add: chk_def)

lemma typed_bnd: "typed_res Q r \<Longrightarrow> (\<And>x. Q x \<Longrightarrow> typed_res P (f x)) \<Longrightarrow> typed_res P (bnd r f)"
  by (cases r) (auto simp: typed_res_def)

lemma typed_if: "(c \<Longrightarrow> typed_res P a) \<Longrightarrow> (\<not> c \<Longrightarrow> typed_res P b) \<Longrightarrow> typed_res P (if c then a else b)"
  by simp

lemma typed_mono: "typed_res Q r \<Longrightarrow> (\<And>x. Q x \<Longrightarrow> P x) \<Longrightarrow> typed_res P r"
  by (cases r) (auto simp: typed_res_def split: abort.splits)

lemma typed_ck32: "typed_res (\<lambda>y. y = x) (ck32 x)"
  by (simp add: typed_res_def ck32_def)

lemma typed_trunc32: "typed_res (\<lambda>y. trunc32 x = Inr y) (trunc32 x)"
  by (simp add: typed_res_def trunc32_def Let_def)

lemma typed_nth: "0 \<le> i \<Longrightarrow> i < int (length xs) \<Longrightarrow> typed_res (\<lambda>x. x = xs ! nat i) (nth_res xs i)"
  by (simp add: nth_res_def)

lemma typed_upd_at: "0 \<le> i \<Longrightarrow> i < int (length xs) \<Longrightarrow> typed_res (\<lambda>ys. length ys = length xs) (upd_at xs i d)"
  unfolding upd_at_def by (rule typed_bnd [OF typed_nth], simp, simp, rule typed_bnd [OF typed_ck32], simp)

lemma typed_traverse: "(\<And>x. x \<in> set xs \<Longrightarrow> typed_res (\<lambda>_. True) (f x)) \<Longrightarrow> typed_res (\<lambda>ys. length ys = length xs) (traverse f xs)"
proof (induction xs)
  case (Cons x xs)
  have "typed_res (\<lambda>_. True) (f x)"
    using Cons.prems by simp
  then show ?case
    using Cons by (auto intro!: typed_bnd [where Q = "\<lambda>_. True"] typed_bnd [where Q = "\<lambda>ys. length ys = length xs"])
qed simp

lemma typed_deref: "p \<noteq> None \<Longrightarrow> typed_res (\<lambda>x. p = Some x) (deref p)"
  by (auto simp: deref_def)

section \<open>Well-typed states and messages\<close>

definition order_typed :: "SOM \<Rightarrow> som_order \<Rightarrow> bool" where
  "order_typed s m \<longleftrightarrow>
     so_sender m \<noteq> None \<and> 0 \<le> so_sym m \<and> so_sym m < int (length (s_assets s)) \<and> s_assets s ! nat (so_sym m) \<noteq> None
     \<and> 0 \<le> so_owner m \<and> so_owner m < 13 \<and> uint (so_venue m) < 25
     \<and> (s_sim s \<longrightarrow> uint (so_venue m) < int (length (s_books s))
          \<and> so_sym m < int (length (s_books s ! nat (uint (so_venue m)))))"

definition stored_ok :: "u32 \<Rightarrow> som_order \<Rightarrow> bool" where
  "stored_ok k m \<longleftrightarrow> word_of_int (so_oid m) = k \<and> 0 < so_sz m \<and> so_sz m < of_int CHOPIN_MAX_ORD_SZ
     \<and> \<not> so_canced m \<and> \<not> so_rejed m"

definition som_typed :: "SOM \<Rightarrow> bool" where
  "som_typed s \<longleftrightarrow>
     (\<forall>v \<in> {s_bid s, s_ask s, s_pos_limit s, s_size_limit s, s_fill_volume s, s_num_canc s, s_num_ords s, s_num_cr s,
            s_num_fills s, s_num_icnrej s, s_num_xorej s}. length v = length (s_assets s))
     \<and> (\<forall>a \<in> set (s_assets s). a \<noteq> None) \<and> finite (dom (s_orders s))
     \<and> length (s_managers s) = 25 \<and> length (s_pos s) = 13
     \<and> (\<forall>row \<in> set (s_pos s). length row = length (s_assets s) \<and> (\<forall>p \<in> set row. pos_wf p))
     \<and> (\<forall>k m. s_orders s k = Some m \<longrightarrow> order_typed s m \<and> stored_ok k m)"

definition in_typed :: "SOM \<Rightarrow> som_in \<Rightarrow> bool" where
  "in_typed s m \<longleftrightarrow>
     (case m of
        InOrder x \<Rightarrow> order_typed s x \<and> \<not> so_canced x \<and> \<not> so_rejed x
      | InBBBOChg sy _ _ _ \<Rightarrow> 0 \<le> sy \<and> sy < int (length (s_assets s))
      | InFill f \<Rightarrow> uint (f_sym f) < int (length (s_assets s)) \<and> 0 \<le> f_owner f \<and> f_owner f < 13
          \<and> (f_side f = BUY \<or> f_side f = SEL) \<and> (f_sz f > 0 \<longrightarrow> f_sz f \<ge> 1)
      | InGetPNL ow \<Rightarrow> 0 \<le> ow \<and> ow < 13
      | InExitPos v \<Rightarrow> uint v < 25 \<and> s_managers s ! nat (uint v) \<noteq> None
      | InGet _ _ ti \<Rightarrow> \<forall>nm ow. ti nm = Some ow \<longrightarrow> 0 \<le> ow \<and> ow < 13
      | InSetExchManager v _ \<Rightarrow> uint v < 25
      | InPositionResponse sy t _ \<Rightarrow> 0 \<le> sy \<and> sy < int (length (s_assets s)) \<and> 0 \<le> t \<and> t < 13
      | _ \<Rightarrow> True)"

text \<open>\<open>same_frame\<close>: what no message changes.\<close>

definition same_frame :: "SOM \<Rightarrow> SOM \<Rightarrow> bool" where
  "same_frame s s' \<longleftrightarrow> s_assets s' = s_assets s \<and> s_books s' = s_books s \<and> s_sim s' = s_sim s \<and> s_db s' = s_db s
     \<and> s_self s' = s_self s \<and> s_allow_unacked s' = s_allow_unacked s"

lemma same_frame_refl [simp]: "same_frame s s"
  by (simp add: same_frame_def)

lemma same_frame_trans: "same_frame s s1 \<Longrightarrow> same_frame s1 s2 \<Longrightarrow> same_frame s s2"
  by (simp add: same_frame_def)

lemma emit_sel [simp]:
  "s_orders (emit os s) = s_orders s" "s_pos (emit os s) = s_pos s" "s_assets (emit os s) = s_assets s"
  "s_books (emit os s) = s_books s" "s_sim (emit os s) = s_sim s" "s_db (emit os s) = s_db s" "s_self (emit os s) = s_self s"
  "s_allow_unacked (emit os s) = s_allow_unacked s" "s_stopped (emit os s) = s_stopped s" "s_curr_id (emit os s) = s_curr_id s"
  "s_subs (emit os s) = s_subs s" "s_managers (emit os s) = s_managers s" "s_out (emit os s) = s_out s @ os"
  "s_pos_limit (emit os s) = s_pos_limit s" "s_size_limit (emit os s) = s_size_limit s"
  "same_frame s0 (emit os s) \<longleftrightarrow> same_frame s0 s"
  by (simp_all add: emit_def same_frame_def)

lemma typed_emit [simp]: "som_typed (emit os s) \<longleftrightarrow> som_typed s"
  by (simp add: som_typed_def order_typed_def emit_def)

definition db_out :: "SOM \<Rightarrow> som_msg \<Rightarrow> som_out list" where
  "db_out s m = (case s_db s of None \<Rightarrow> [] | Some d \<Rightarrow> [Send d m])"

lemma to_db_emit: "to_db m s = emit (db_out s m) s"
  by (simp add: to_db_def db_out_def emit_def split: option.splits)

lemma db_action_emit: "db_action c i sz s = emit (db_out s (SOMAction c i sz 0 0 BS_UNI 0 None)) s"
  by (simp add: db_action_def to_db_emit)

lemma db_orders: "s_orders (db_action c i sz s) = s_orders s"
  by (simp add: db_action_emit)

lemmas db_emit = to_db_emit db_action_emit

lemma typed_to_client:
  assumes "client \<noteq> None" "typed_res (\<lambda>_. True) m" "\<And>os. P (emit os s)"
  shows "typed_res P (to_client client m s)"
  unfolding to_client_def
  by (rule typed_bnd [OF assms(2)], rule typed_bnd [OF typed_deref [OF assms(1)]]) (simp add: assms(3))

lemma typed_canc_reject [simp]: "typed_res (\<lambda>_. True) (canc_reject i r st)"
  by (simp add: canc_reject_def chk_def)

lemma typed_asset:
  assumes "som_typed s" "0 \<le> sy" "sy < int (length (s_assets s))"
  shows "typed_res (\<lambda>_. True) (asset_ref s sy)" "typed_res (\<lambda>_. True) (asset_chk s sy msg)" "typed_res (\<lambda>y. y = px) (price_of s px sy)"
proof -
  have a: "s_assets s ! nat sy \<noteq> None"
    using assms by (auto simp: som_typed_def)
  show "typed_res (\<lambda>_. True) (asset_ref s sy)" and c: "typed_res (\<lambda>_. True) (asset_chk s sy msg)" for msg
    using assms a by (auto simp: asset_ref_def asset_chk_def som_asset_of_def nth_res_def deref_def)
  show "typed_res (\<lambda>y. y = px) (price_of s px sy)"
    unfolding price_of_def by (rule typed_bnd [OF c]) simp
qed

text \<open>\<open>quiet s s'\<close>: only counters, clocks and what was sent may differ, and vectors keep their length.\<close>

definition quiet :: "SOM \<Rightarrow> SOM \<Rightarrow> bool" where
  "quiet s s' \<longleftrightarrow> same_frame s s' \<and> s_orders s' = s_orders s \<and> s_pos s' = s_pos s \<and> (som_typed s \<longrightarrow> som_typed s')
     \<and> s_managers s' = s_managers s \<and> s_stopped s' = s_stopped s \<and> s_curr_id s' = s_curr_id s \<and> s_subs s' = s_subs s"

lemma quiet_refl [simp]: "quiet s s"
  by (simp add: quiet_def)

lemma quiet_emit [simp]: "quiet s0 (emit os s) \<longleftrightarrow> quiet s0 s"
  by (simp add: quiet_def)

lemma quiet_trans: "quiet s s1 \<Longrightarrow> quiet s1 s2 \<Longrightarrow> quiet s s2"
  by (auto simp: quiet_def intro: same_frame_trans)

lemma quiet_typed: "quiet s s' \<Longrightarrow> som_typed s \<Longrightarrow> som_typed s'"
  by (simp add: quiet_def)

lemma order_typed_frame: "same_frame s s' \<Longrightarrow> order_typed s' m \<longleftrightarrow> order_typed s m"
  by (simp add: same_frame_def order_typed_def)

lemma stored_typed: "som_typed s \<Longrightarrow> s_orders s k = Some m \<Longrightarrow> order_typed s m \<and> stored_ok k m"
  by (simp add: som_typed_def)

lemma typed_len:
  assumes "som_typed s"
  shows "length (s_num_canc s) = length (s_assets s)" "length (s_num_ords s) = length (s_assets s)"
    "length (s_num_cr s) = length (s_assets s)" "length (s_num_icnrej s) = length (s_assets s)"
    "length (s_num_xorej s) = length (s_assets s)" "length (s_num_fills s) = length (s_assets s)"
    "length (s_fill_volume s) = length (s_assets s)" "length (s_pos_limit s) = length (s_assets s)"
    "length (s_size_limit s) = length (s_assets s)" "length (s_bid s) = length (s_assets s)"
    "length (s_ask s) = length (s_assets s)" "length (s_managers s) = 25" "length (s_pos s) = 13"
  using assms by (simp_all add: som_typed_def)

lemma typed_valid: "typed_res (\<lambda>_. True) (p_is_valid p)"
  by (auto simp: p_is_valid_def intro!: typed_chk)

lemma typed_send_book: "typed_res (quiet s) (send_book bk p s)"
  unfolding send_book_def
  by (rule typed_chk, rule typed_bnd [OF typed_valid], rule typed_bnd [OF typed_deref], auto)

lemma typed_book_of:
  assumes "som_typed s" "order_typed s m" "s_sim s"
  shows "typed_res (\<lambda>_. True) (book_of s (so_venue m) (so_sym m))"
proof -
  have "typed_res (\<lambda>row. row = s_books s ! nat (uint (so_venue m))) (nth_res (s_books s) (uint (so_venue m)))"
    using assms by (intro typed_nth) (auto simp: order_typed_def)
  then show ?thesis
    unfolding book_of_def
    using assms by (rule_tac typed_bnd) (auto simp: nth_res_def order_typed_def)
qed

lemma typed_cancel_order:
  assumes "som_typed s" "order_typed s ord"
  shows "typed_res (quiet s) (cancel_order s i ord ts)"
proof -
  have c: "typed_res (quiet s) (to_client (so_sender ord) (canc_reject i r st) s)" for r st
    using assms(2) by (intro typed_to_client) (auto simp: order_typed_def)
  have sy: "0 \<le> so_sym ord" "so_sym ord < int (length (s_assets s))" "uint (so_venue ord) < 25"
    using assms(2) by (auto simp: order_typed_def)
  have u: "typed_res (\<lambda>ys. length ys = length (s_assets s)) (upd_at (s_num_canc s) (so_sym ord) 1)"
    using typed_upd_at [of "so_sym ord" "s_num_canc s" 1] sy typed_len(1) [OF assms(1)] by simp
  have main: "typed_res (quiet s) (let s1 = s\<lparr>s_num_canc := nc\<rparr> in
         if s_sim s1 then
           bnd (book_of s1 (so_venue ord) (so_sym ord)) (\<lambda>bk. chk (bk \<noteq> None) ''book not set''
             (bnd (price_of s1 (so_px ord) (so_sym ord)) (\<lambda>px. bnd (trunc32 (so_sz ord)) (\<lambda>sz.
               send_book bk (sim_cancel_payload ord i ts px sz) s1))))
         else bnd (nth_res (s_managers s1) (uint (so_venue ord))) (\<lambda>om.
           case om of
             None \<Rightarrow> Inr s1
           | Some a \<Rightarrow> Inr (db_action SC_CAN i 0 (emit [Send a (CancelOrder i ts (longid (so_venue ord) i))] s1))))"
    if nc: "length nc = length (s_assets s)" for nc
  proof -
    define s1 where "s1 = s\<lparr>s_num_canc := nc\<rparr>"
    have q: "quiet s s1"
      using nc by (auto simp: quiet_def s1_def same_frame_def som_typed_def order_typed_def)
    then have t: "som_typed s1" "order_typed s1 ord"
      using assms order_typed_frame [of s s1 ord] by (auto simp: quiet_def)
    have p: "typed_res (\<lambda>y. y = so_px ord) (price_of s1 (so_px ord) (so_sym ord))"
      using typed_asset(3) [OF t(1)] sy q by (simp add: quiet_def same_frame_def)
    have b: "typed_res (quiet s) (send_book bk pl s1)" for bk pl
      using typed_send_book [of s1 bk pl] quiet_trans [OF q] by (rule typed_mono)
    have m: "typed_res (\<lambda>_. True) (nth_res (s_managers s1) (uint (so_venue ord)))"
      using sy typed_len(12) [OF t(1)] by (simp add: nth_res_def)
    show ?thesis
      unfolding s1_def [symmetric] Let_def
      using q by (auto intro!: typed_bnd [OF typed_book_of [OF t]] typed_chk typed_bnd [OF p] typed_bnd [OF typed_trunc32] b
          typed_bnd [OF m] simp: db_emit split: option.splits)
  qed
  show ?thesis
    unfolding cancel_order_def by (intro typed_if c typed_bnd [OF u] main)
qed

text \<open>\<open>kept s s'\<close>: the state is well typed still.\<close>

definition kept :: "SOM \<Rightarrow> SOM \<Rightarrow> bool" where
  "kept s s' \<longleftrightarrow> same_frame s s' \<and> som_typed s'"

lemma kept_refl: "som_typed s \<Longrightarrow> kept s s"
  by (simp add: kept_def)

lemma kept_quiet: "som_typed s \<Longrightarrow> quiet s s' \<Longrightarrow> kept s s'"
  by (simp add: kept_def quiet_def)

lemma kept_typed: "kept s s' \<Longrightarrow> som_typed s'"
  by (simp add: kept_def)

lemma kept_emit [simp]: "kept s (emit os s') \<longleftrightarrow> kept s s'"
  by (simp add: kept_def)

lemma kept_trans: "kept s s1 \<Longrightarrow> kept s1 s2 \<Longrightarrow> kept s s2"
  by (auto simp: kept_def intro: same_frame_trans)

lemma kept_order: "kept s s' \<Longrightarrow> order_typed s m \<Longrightarrow> order_typed s' m"
  unfolding kept_def using order_typed_frame by blast

lemma typed_kept_trans: "kept s s1 \<Longrightarrow> typed_res (kept s1) r \<Longrightarrow> typed_res (kept s) r"
  by (blast intro: typed_mono kept_trans)

lemma kept_put:
  assumes "som_typed s" "order_typed s m" "stored_ok k m"
  shows "kept s (s\<lparr>s_orders := (s_orders s)(k \<mapsto> m)\<rparr>)"
  using assms by (auto simp: kept_def same_frame_def som_typed_def order_typed_def)

lemma kept_del: "som_typed s \<Longrightarrow> kept s (s\<lparr>s_orders := (s_orders s)(k := None)\<rparr>)"
  by (auto simp: kept_def same_frame_def som_typed_def order_typed_def)

lemma kept_count:
  assumes "som_typed s" "length xs = length (s_assets s)"
  shows "kept s (s\<lparr>s_num_ords := xs\<rparr>)" "kept s (s\<lparr>s_num_cr := xs\<rparr>)" "kept s (s\<lparr>s_num_icnrej := xs\<rparr>)"
    "kept s (s\<lparr>s_num_xorej := xs\<rparr>)" "kept s (s\<lparr>s_num_fills := xs\<rparr>)" "kept s (s\<lparr>s_fill_volume := xs\<rparr>)"
    "kept s (s\<lparr>s_pos_limit := xs\<rparr>)" "kept s (s\<lparr>s_size_limit := xs\<rparr>)" "kept s (s\<lparr>s_bid := xs\<rparr>)" "kept s (s\<lparr>s_ask := xs\<rparr>)"
  using assms by (auto simp: kept_def same_frame_def som_typed_def order_typed_def)

lemma kept_other:
  assumes "som_typed s"
  shows "kept s (s\<lparr>s_stopped := b\<rparr>)" "kept s (s\<lparr>s_subs := as\<rparr>)" "kept s (s\<lparr>s_curr_id := i\<rparr>)" "kept s (s\<lparr>s_num_xcnrej := n\<rparr>)"
    "kept s (s\<lparr>s_add_ts := ts\<rparr>)" "kept s (s\<lparr>s_currtim := t\<rparr>)"
    "length ms = 25 \<Longrightarrow> kept s (s\<lparr>s_managers := ms\<rparr>)"
  using assms by (auto simp: kept_def same_frame_def som_typed_def order_typed_def)

lemma typed_kept_upd:
  assumes "som_typed s" "0 \<le> i" "i < int (length (s_assets s))" "length xs = length (s_assets s)"
    and "\<And>ys. length ys = length (s_assets s) \<Longrightarrow> typed_res P (f ys)"
  shows "typed_res P (bnd (upd_at xs i d) f)"
  using typed_upd_at [of i xs d] assms by (auto intro: typed_bnd)

lemma typed_to_client_kept:
  assumes "som_typed s" "client \<noteq> None" "typed_res (\<lambda>_. True) m"
  shows "typed_res (kept s) (to_client client m s)"
  using assms by (intro typed_to_client) (auto simp: kept_refl)

lemma typed_internal_reject:
  assumes t: "som_typed s"
  shows "typed_res (\<lambda>(s', r). kept s s' \<and> (\<forall>ord. r = Some ord \<longrightarrow> order_typed s' ord)) (internal_reject s i)"
proof (cases "s_orders s (word_of_int i)")
  case None
  then show ?thesis
    using t by (simp add: internal_reject_def db_emit kept_refl Let_def)
next
  case (Some ord)
  note o = stored_typed [OF t Some]
  have r: "typed_res (\<lambda>(s', r). kept s s' \<and> (\<forall>ord. r = Some ord \<longrightarrow> order_typed s' ord))
      (bnd (to_client (so_sender ord) (canc_reject k c 99) s) (\<lambda>s'. Inr (db_action SC_IREJ k 0 s', None)))" for c k
    using o by (intro typed_bnd [OF typed_to_client_kept [OF t]]) (auto simp: order_typed_def db_emit)
  have p: "kept s (s\<lparr>s_orders := (s_orders s)(word_of_int i \<mapsto> ord\<lparr>so_slated := True\<rparr>)\<rparr>)"
    using o t by (intro kept_put) (auto simp: order_typed_def stored_ok_def)
  show ?thesis
    using o kept_order [OF p, of "ord\<lparr>so_slated := True\<rparr>"]
    by (auto simp: internal_reject_def Let_def Some p kept_refl t intro!: r) (auto simp: order_typed_def)
qed

lemma typed_cancel_kept: "som_typed s \<Longrightarrow> order_typed s ord \<Longrightarrow> typed_res (kept s) (cancel_order s i ord ts)"
  by (blast intro: typed_mono [OF typed_cancel_order] kept_quiet)

lemma typed_canc_handler:
  assumes "som_typed s"
  shows "typed_res (kept s) (canc_handler s i ts)"
  unfolding canc_handler_def
  by (rule typed_bnd [OF typed_internal_reject [OF assms]])
     (auto split: option.splits intro!: typed_kept_trans [of s] typed_cancel_kept simp: kept_typed kept_refl)

lemma typed_cancel_each:
  assumes "som_typed s" "set ks \<subseteq> dom (s_orders s)"
  shows "typed_res (quiet s) (cancel_each ks s)"
  using assms
proof (induction ks arbitrary: s)
  case (Cons k ks)
  then obtain ord where o: "s_orders s k = Some ord" "order_typed s ord"
    using stored_typed by fastforce
  have "typed_res (quiet s) (bnd (cancel_order s k ord 0) (cancel_each ks))"
  proof (rule typed_bnd [OF typed_cancel_order [OF Cons.prems(1) o(2)]])
    fix s1 assume q: "quiet s s1"
    then have "som_typed s1" "set ks \<subseteq> dom (s_orders s1)"
      using Cons.prems by (auto simp: quiet_def)
    then have "typed_res (quiet s1) (cancel_each ks s1)"
      by (rule Cons.IH)
    then show "typed_res (quiet s) (cancel_each ks s1)"
      using q by (blast intro: typed_mono quiet_trans)
  qed
  then show ?case
    using Cons o by (simp add: deref_def)
qed simp

lemma typed_position:
  assumes "som_typed s" "0 \<le> ow" "ow < 13" "0 \<le> sy" "sy < int (length (s_assets s))"
  shows "nth_res (s_pos s) ow = Inr (s_pos s ! nat ow)" "length (s_pos s ! nat ow) = length (s_assets s)"
    "nth_res (s_pos s ! nat ow) sy = Inr (s_pos s ! nat ow ! nat sy)" "pos_wf (s_pos s ! nat ow ! nat sy)"
proof -
  have "s_pos s ! nat ow \<in> set (s_pos s)"
    using assms typed_len(13) [OF assms(1)] by auto
  then have r: "length (s_pos s ! nat ow) = length (s_assets s)" "\<forall>p \<in> set (s_pos s ! nat ow). pos_wf p"
    using assms(1) unfolding som_typed_def by blast+
  then show l: "length (s_pos s ! nat ow) = length (s_assets s)" and "pos_wf (s_pos s ! nat ow ! nat sy)"
    using assms(4,5) nth_mem [of "nat sy" "s_pos s ! nat ow"] by auto
  show "nth_res (s_pos s) ow = Inr (s_pos s ! nat ow)" "nth_res (s_pos s ! nat ow) sy = Inr (s_pos s ! nat ow ! nat sy)"
    using assms l typed_len(13) [OF assms(1)] by (auto simp: nth_res_def)
qed

lemma typed_order_over_limit:
  assumes "som_typed s" "order_typed s m"
  shows "typed_res (\<lambda>_. True) (order_over_limit s m)"
  using assms typed_len(8,9) [OF assms(1)] typed_position [OF assms(1), of "so_owner m" "so_sym m"]
  by (simp add: order_over_limit_def get_pos_def position_of_def totalSize_net nth_res_def [of "s_pos_limit s"]
      nth_res_def [of "s_size_limit s"] order_typed_def)

lemma typed_check_limits:
  assumes "som_typed s" "order_typed s m"
  shows "typed_res (\<lambda>_. True) (check_limits s m)"
  unfolding check_limits_def
  using assms by (auto intro!: typed_bnd [OF typed_asset(1)] typed_order_over_limit simp: order_typed_def)

lemma typed_place_order:
  assumes t: "som_typed s" and o: "order_typed s m" and k: "stored_ok (word_of_int (so_oid m)) m"
  shows "typed_res (kept s) (place_order s m)"
proof -
  have sy: "0 \<le> so_sym m" "so_sym m < int (length (s_assets s))" "uint (so_venue m) < 25" "so_sender m \<noteq> None"
    using o by (auto simp: order_typed_def)
  have om: "typed_res (\<lambda>_. True) (nth_res (s_managers s) (uint (so_venue m)))"
    using sy typed_len(12) [OF t] by (simp add: nth_res_def)
  have p: "kept s (s\<lparr>s_orders := (s_orders s)(word_of_int (so_oid m) \<mapsto> m\<lparr>so_ref := r\<rparr>)\<rparr>)" for r
    using t o k by (intro kept_put) (auto simp: order_typed_def stored_ok_def)
  have b: "typed_res (kept s) (send_book bk pl s)" for bk pl
    using typed_mono [OF typed_send_book kept_quiet [OF t]] .
  show ?thesis
    unfolding place_order_def Let_def
    using sy(4)
    by (intro typed_if typed_to_client_kept [OF t] typed_bnd [OF typed_book_of [OF t o]] typed_chk
        typed_bnd [OF typed_asset(3) [OF t sy(1,2)]] typed_bnd [OF typed_trunc32] b typed_bnd [OF om])
       (auto simp: p kept_refl t split: option.splits)
qed

definition replaced :: "SOM \<Rightarrow> som_order \<Rightarrow> SOM \<times> som_order \<Rightarrow> bool" where
  "replaced s m x \<longleftrightarrow> kept s (fst x) \<and> (snd x = m \<or> snd x = m\<lparr>so_oid_to_cancel := -1\<rparr>)"

lemma typed_replace_refused:
  assumes t: "som_typed s" and o: "order_typed s m"
  shows "typed_res (replaced s m) (replace_refused s m)"
proof -
  have sy: "0 \<le> so_sym m" "so_sym m < int (length (s_assets s))"
    using o by (auto simp: order_typed_def)
  have "kept s (s\<lparr>s_num_icnrej := ni, s_num_ords := no\<rparr>)"
    if "length ni = length (s_assets s)" "length no = length (s_assets s)" for ni no
    using kept_trans [OF kept_count(3) [OF t that(1)] kept_count(1)] that kept_count(3) [OF t that(1)]
    by (simp add: kept_typed)
  then show ?thesis
    unfolding replace_refused_def
    by (auto simp: replaced_def intro!: typed_kept_upd [OF t sy] typed_len(2,4) [OF t])
qed

lemma typed_replace_cancel:
  assumes t: "som_typed s" and o: "order_typed s m" "order_typed s ord"
  shows "typed_res (replaced s m) (replace_cancel s m ord)"
proof -
  have sy: "0 \<le> so_sym m" "so_sym m < int (length (s_assets s))"
    using o by (auto simp: order_typed_def)
  have c: "kept s (s\<lparr>s_num_cr := nr\<rparr>)" if "length nr = length (s_assets s)" for nr
    using kept_count(2) [OF t that] .
  have e: "typed_res (replaced s m) (bnd (cancel_order s2 i ord ts) (\<lambda>s3. Inr (s3, m)))" if "kept s s2" for s2 i ts
    by (rule typed_bnd [OF typed_cancel_kept [OF kept_typed [OF that] kept_order [OF that o(2)]]])
       (auto simp: replaced_def intro: kept_trans [OF that])
  show ?thesis
    unfolding replace_cancel_def
    by (intro typed_kept_upd [OF t sy] typed_len(3) [OF t] typed_if e c) (auto simp: replaced_def c)
qed

lemma typed_replace_order:
  assumes t: "som_typed s" and o: "order_typed s m"
  shows "typed_res (replaced s m) (replace_order s m)"
proof -
  have sy: "0 \<le> so_sym m" "so_sym m < int (length (s_assets s))"
    using o by (auto simp: order_typed_def)
  have lift: "typed_res (replaced s m) r" if "kept s s1" "typed_res (replaced s1 m) r" for s1 r
    using typed_mono [OF that(2)] kept_trans [OF that(1)] by (auto simp: replaced_def)
  show ?thesis
    unfolding replace_order_def
    by (intro typed_if typed_bnd [OF typed_internal_reject [OF t]] typed_kept_upd [OF t sy] typed_len(2) [OF t])
       (auto simp: kept_count(1) [OF t] replaced_def [of s m "(_, m)"] split: option.splits
         intro!: lift typed_replace_refused typed_replace_cancel elim: kept_typed kept_order [OF _ o])
qed

lemma typed_accept_order:
  assumes t: "som_typed s" and o: "order_typed s m" and k: "\<not> so_canced m" "\<not> so_rejed m" "0 < so_sz m" "so_sz m < of_int CHOPIN_MAX_ORD_SZ"
  shows "typed_res (kept s) (accept_order s m)"
proof -
  obtain s1 m1 where a: "assign_id s m = (s1, m1)"
    by fastforce
  have w: "word_of_int (sint (s_curr_id s)) = s_curr_id s"
    by simp
  have m1: "order_typed s m1" "stored_ok (word_of_int (so_oid m1)) m1"
    using a o k by (auto simp: assign_id_def stored_ok_def order_typed_def Let_def split: if_splits)
  have s1: "kept s s1"
  proof (cases "so_oid m < 0")
    case True
    let ?p = "s\<lparr>s_orders := (s_orders s)(word_of_int (so_oid m1) \<mapsto> m1)\<rparr>"
    have "s1 = ?p\<lparr>s_curr_id := s_curr_id s + 1\<rparr>"
      using a True by (auto simp: assign_id_def Let_def)
    then show ?thesis
      using kept_trans [OF kept_put [OF t m1] kept_other(3) [OF kept_typed [OF kept_put [OF t m1]]]] by simp
  qed (use a t in \<open>simp add: assign_id_def kept_refl\<close>)
  define s2 where "s2 = emit [Reply (Ack (word_of_int (so_oid m1)))] s1"
  define s3 where "s3 = s2\<lparr>s_add_ts := (s_add_ts s2)(so_oid m1 \<mapsto> 0)\<rparr>"
  have s3: "kept s s3"
    using s1 kept_other(5) [of s2] kept_trans [of s s2 s3] by (simp add: s2_def s3_def kept_typed)
  have db: "typed_res (kept s) (log_new s3 m1)"
    using s3 by (auto intro!: typed_bnd [OF typed_trunc32] simp: db_emit log_new_def)
  have pl: "typed_res (kept s) (bnd (replace_order s4 m1) (\<lambda>(s5, m2). place_order s5 m2))" if k4: "kept s s4" for s4
  proof (rule typed_bnd [OF typed_replace_order [OF kept_typed [OF k4] kept_order [OF k4 m1(1)]]])
    fix x assume "replaced s4 m1 x"
    then obtain s5 m2 where x: "x = (s5, m2)" "kept s4 s5" "m2 = m1 \<or> m2 = m1\<lparr>so_oid_to_cancel := -1\<rparr>"
      by (cases x) (auto simp: replaced_def)
    have k5: "kept s s5"
      using kept_trans [OF k4 x(2)] .
    have "order_typed s m2" "stored_ok (word_of_int (so_oid m2)) m2"
      using m1 x(3) by (auto simp: order_typed_def stored_ok_def)
    then show "typed_res (kept s) (case x of (s5, m2) \<Rightarrow> place_order s5 m2)"
      using typed_kept_trans [OF k5 typed_place_order [OF kept_typed [OF k5] kept_order [OF k5]]] x(1) by simp
  qed
  show ?thesis
    using typed_bnd [OF db pl] by (simp add: accept_order_def a s2_def s3_def Let_def)
qed

lemma typed_order_handler:
  assumes t: "som_typed s" and o: "order_typed s m" "\<not> so_canced m" "\<not> so_rejed m"
  shows "typed_res (kept s) (order_handler s m)"
  unfolding order_handler_def
proof (intro typed_chk typed_bnd [OF typed_check_limits [OF t o(1)]] typed_if)
  let ?s = "emit [Reply (Ack (s_curr_id s))] s"
  have "typed_res (kept ?s) (to_client (so_sender m) (Inr (Reject (s_curr_id s) RJ_OVERLIMIT)) ?s)"
    using t o(1) by (intro typed_to_client_kept) (auto simp: order_typed_def)
  then show "typed_res (kept s) (to_client (so_sender m) (Inr (Reject (s_curr_id s) RJ_OVERLIMIT)) ?s)"
    using t by (rule_tac typed_kept_trans) (auto simp: kept_refl)
qed (use typed_accept_order [OF t o] in auto)

section \<open>Answers of the market\<close>

lemma typed_ack_handler:
  assumes t: "som_typed s"
  shows "typed_res (kept s) (ack_handler s i)"
proof (cases "s_orders s i")
  case (Some ord)
  let ?o = "ord\<lparr>so_acked := True\<rparr>"
  let ?s = "s\<lparr>s_orders := (s_orders s)(i \<mapsto> ?o)\<rparr>"
  have o: "order_typed s ?o" "stored_ok i ?o"
    using stored_typed [OF t Some] by (auto simp: order_typed_def stored_ok_def)
  have k: "kept s (db_action SC_ACK i 0 ?s)"
    using kept_put [OF t o] by (simp add: db_emit)
  show ?thesis
    using typed_kept_trans [OF k typed_cancel_kept [OF kept_typed [OF k] kept_order [OF k o(1)]]]
    by (auto simp: ack_handler_def Some Let_def k intro!: typed_chk)
qed (simp add: ack_handler_def)

lemma typed_rej_handler:
  assumes t: "som_typed s"
  shows "typed_res (kept s) (rej_handler s i r)"
proof (cases "s_orders s i")
  case (Some ord)
  let ?s = "db_action SC_REJ i 0 s"
  have k: "kept s ?s"
    using t by (simp add: db_emit kept_refl)
  have o: "0 \<le> so_sym ord" "so_sym ord < int (length (s_assets ?s))" "so_sender ord \<noteq> None"
    using stored_typed [OF t Some] by (auto simp: order_typed_def db_emit)
  have "typed_res (kept s) (bnd (to_client (so_sender ord) (Inr (Reject i r)) (?s\<lparr>s_num_xorej := nx\<rparr>))
      (\<lambda>s2. Inr (s2\<lparr>s_orders := (s_orders s2)(i := None)\<rparr>)))" if nx: "length nx = length (s_assets ?s)" for nx
  proof -
    have k2: "kept s (?s\<lparr>s_num_xorej := nx\<rparr>)"
      using kept_trans [OF k kept_count(4) [OF kept_typed [OF k] nx]] .
    show ?thesis
      by (rule typed_bnd [OF typed_to_client_kept [OF kept_typed [OF k2] o(3)]])
         (auto intro: kept_trans [OF k2] kept_trans kept_del kept_typed)
  qed
  then show ?thesis
    unfolding rej_handler_def Let_def
    by (simp only: db_orders Some option.case)
       (rule typed_kept_upd [OF kept_typed [OF k] o(1,2) typed_len(5) [OF kept_typed [OF k]]])
qed (simp add: rej_handler_def db_emit Let_def kept_refl t)

lemma typed_canc_ack_handler:
  assumes t: "som_typed s"
  shows "typed_res (kept s) (canc_ack_handler s i fs sz)"
proof (cases "s_orders s i")
  case (Some ord)
  let ?s = "db_action SC_CANACK i 0 s"
  have k: "kept s ?s"
    using t by (simp add: db_emit kept_refl)
  have o: "so_sender ord \<noteq> None"
    using stored_typed [OF t Some] by (auto simp: order_typed_def)
  have "typed_res (kept s) (if so_sender ord = Some (s_self ?s) then Inr ?s
      else to_client (so_sender ord) (Inr (CancelAck i fs sz)) ?s)"
    using typed_kept_trans [OF k typed_to_client_kept [OF kept_typed [OF k] o]] k by (intro typed_if) simp_all
  then have "typed_res (kept s) (bnd (if so_sender ord = Some (s_self ?s) then Inr ?s
      else to_client (so_sender ord) (Inr (CancelAck i fs sz)) ?s)
        (\<lambda>s2. if sz \<le> 0 then Inr (s2\<lparr>s_orders := (s_orders s2)(i := None)\<rparr>) else Inr s2))"
    by (rule typed_bnd) (auto intro: kept_trans kept_del kept_typed)
  then show ?thesis
    unfolding canc_ack_handler_def Let_def by (simp only: db_orders Some option.case)
qed (simp add: canc_ack_handler_def db_emit Let_def kept_refl t)

lemma typed_canc_rej_handler:
  assumes t: "som_typed s"
  shows "typed_res (kept s) (canc_rej_handler s i r st)"
proof (cases "s_orders s i")
  case (Some ord)
  let ?s = "db_action SC_CANREJ i 0 s"
  have k: "kept s ?s"
    using t by (simp add: db_emit kept_refl)
  have o: "so_sender ord \<noteq> None"
    using stored_typed [OF t Some] by (auto simp: order_typed_def)
  have "typed_res (kept s) (to_client (so_sender ord) m (?s\<lparr>s_num_xcnrej := n\<rparr>))" if "typed_res (\<lambda>_. True) m" for n m
    using kept_trans [OF k kept_other(4) [OF kept_typed [OF k]]] typed_to_client_kept [OF _ o that]
    by (blast intro: typed_kept_trans kept_typed)
  then have "typed_res (kept s) (bnd (ck32 (s_num_xcnrej ?s + 1)) (\<lambda>n.
             to_client (so_sender ord)
               (if so_filled ord then canc_reject i CR_FILLEDALREADY 99
                else if so_canced ord then canc_reject i CR_CANCELLEDALREADY 99
                else if so_rejed ord then canc_reject i CR_REJECTEDPREVIOUSLY 99
                else canc_reject i r st) (?s\<lparr>s_num_xcnrej := n\<rparr>)))"
    by (intro typed_bnd [OF typed_ck32]) (simp add: canc_reject_def chk_def)
  then show ?thesis
    using Some by (simp add: canc_rej_handler_def Let_def db_orders)
qed (simp add: canc_rej_handler_def db_emit Let_def kept_refl t)

section \<open>Positions\<close>

lemma kept_pos:
  assumes t: "som_typed s" and b: "0 \<le> ow" "ow < 13" "0 \<le> sy" "sy < int (length (s_assets s))" and p: "pos_wf p"
  shows "kept s (s\<lparr>s_pos := (s_pos s)[nat ow := (s_pos s ! nat ow)[nat sy := p]]\<rparr>)"
proof -
  note r = typed_position [OF t b]
  have row: "\<forall>row \<in> set (s_pos s). length row = length (s_assets s) \<and> (\<forall>p \<in> set row. pos_wf p)"
    using t by (simp add: som_typed_def)
  have "s_pos s ! nat ow \<in> set (s_pos s)"
    using b typed_len(13) [OF t] by simp
  then have "\<forall>q \<in> set ((s_pos s ! nat ow)[nat sy := p]). pos_wf q"
    using row p set_update_subset_insert [of "s_pos s ! nat ow" "nat sy" p] by blast
  then have "\<forall>row \<in> set ((s_pos s)[nat ow := (s_pos s ! nat ow)[nat sy := p]]).
      length row = length (s_assets s) \<and> (\<forall>q \<in> set row. pos_wf q)"
    using row r(2) set_update_subset_insert [of "s_pos s" "nat ow" "(s_pos s ! nat ow)[nat sy := p]"] by auto
  then show ?thesis
    using t by (simp add: kept_def same_frame_def som_typed_def order_typed_def)
qed

lemma add_pos_typed:
  assumes t: "som_typed s" and b: "0 \<le> ow" "ow < 13" "0 \<le> sy" "sy < int (length (s_assets s))" and e: "trade_ok e"
  obtains pnl p where "addToPosition (s_pos s ! nat ow ! nat sy) e = Inr (pnl, p)" "pos_wf p"
    "net (open_positions p) = net (open_positions (s_pos s ! nat ow ! nat sy)) + signed_sz e"
    "add_pos s ow sy e = Inr (s\<lparr>s_pos := (s_pos s)[nat ow := (s_pos s ! nat ow)[nat sy := p]]\<rparr>)"
proof -
  note r = typed_position [OF t b]
  obtain pnl p where p: "addToPosition (s_pos s ! nat ow ! nat sy) e = Inr (pnl, p)" "pos_wf p"
    "net (open_positions p) = net (open_positions (s_pos s ! nat ow ! nat sy)) + signed_sz e"
    using addToPosition_spec [OF r(4) e] by blast
  moreover have "add_pos s ow sy e = Inr (s\<lparr>s_pos := (s_pos s)[nat ow := (s_pos s ! nat ow)[nat sy := p]]\<rparr>)"
    using r p(1) by (simp add: add_pos_def)
  ultimately show thesis
    using that by blast
qed

lemma typed_add_pos:
  assumes "som_typed s" "0 \<le> ow" "ow < 13" "0 \<le> sy" "sy < int (length (s_assets s))" "trade_ok e"
  shows "typed_res (kept s) (add_pos s ow sy e)"
proof -
  obtain p where p: "pos_wf p" "add_pos s ow sy e = Inr (s\<lparr>s_pos := (s_pos s)[nat ow := (s_pos s ! nat ow)[nat sy := p]]\<rparr>)"
    using add_pos_typed [OF assms] by metis
  then show ?thesis
    using kept_pos [OF assms(1-5) p(1)] by simp
qed

lemma unrealPnl_loop_returns: "lots_on s lots \<Longrightarrow> s = BUY \<or> s = SEL \<Longrightarrow> \<exists>x. unrealPnl_loop b a lots acc = Inr x"
  by (induction lots arbitrary: acc) auto

lemma unrealPnl_returns: "pos_wf p \<Longrightarrow> \<exists>x. unrealPnl p b a = Inr x"
  using unrealPnl_loop_returns by (auto simp: unrealPnl_def pos_wf_def)

lemma typed_unrealPnl: "pos_wf p \<Longrightarrow> typed_res (\<lambda>_. True) (unrealPnl p b a)"
  using unrealPnl_returns [of p b a] by auto

lemma typed_pnl_row:
  assumes t: "som_typed s" and r: "i < length (s_assets s)" "pos_wf (row ! i)"
  shows "typed_res (\<lambda>_. True) (pnl_row s row i)"
  unfolding pnl_row_def
  using r typed_len(10,11) [OF t]
  by (intro typed_bnd [OF typed_asset(2) [OF t]] typed_bnd [OF typed_nth] typed_bnd [OF typed_unrealPnl]
      typed_bnd [OF typed_trunc32] typed_bnd [OF typed_ck32]) simp_all

lemma typed_get_pnl:
  assumes t: "som_typed s" and b: "0 \<le> ow" "ow < 13"
  shows "typed_res (\<lambda>rs. length rs = length (s_assets s)) (get_pnl s ow)"
proof -
  let ?row = "s_pos s ! nat ow"
  have m: "?row \<in> set (s_pos s)"
    using b typed_len(13) [OF t] by simp
  then have row: "length ?row = length (s_assets s)" "\<forall>p \<in> set ?row. pos_wf p"
    using t unfolding som_typed_def by blast+
  have n: "nth_res (s_pos s) ow = Inr ?row"
    using b typed_len(13) [OF t] by (simp add: nth_res_def)
  have "typed_res (\<lambda>rs. length rs = length (s_assets s)) (traverse (pnl_row s ?row) [0..<length ?row])"
    using typed_traverse [of "[0..<length ?row]" "pnl_row s ?row"] row typed_pnl_row [OF t] by simp
  then show ?thesis
    by (auto simp: get_pnl_def Let_def n intro!: typed_bnd typed_chk)
qed

section \<open>Fills\<close>

lemma typed_log_fill: "som_typed s \<Longrightarrow> typed_res (kept s) (log_fill s f)"
  by (auto simp: log_fill_def db_emit kept_refl intro!: typed_bnd [OF typed_trunc32])

lemma typed_count_fill:
  assumes t: "som_typed s" and b: "uint (f_sym f) < int (length (s_assets s))"
  shows "typed_res (kept s) (count_fill s f)"
proof -
  have k: "kept s (s\<lparr>s_fill_volume := vs, s_num_fills := nf\<rparr>)"
    if "length vs = length (s_assets s)" "length nf = length (s_assets s)" for vs nf
    using kept_trans [OF kept_count(6) [OF t that(1)] kept_count(5)] that kept_count(6) [OF t that(1)]
    by (simp add: kept_typed)
  show ?thesis
    unfolding count_fill_def
    by (intro typed_bnd [OF typed_nth] typed_bnd [OF typed_trunc32] typed_kept_upd [OF t _ b] typed_len(6) [OF t])
       (use b typed_len(7) [OF t] k in auto)
qed

lemma typed_fill_order:
  assumes t: "som_typed s" and o: "s_orders s (f_id f) = Some ord"
  shows "typed_res (kept s) (fill_order s f ord)"
proof -
  define upd where "upd n = ord\<lparr>so_filled := so_filled ord \<or> f_stbf f \<le> 1 / 10 ^ 7, so_stbf := n\<rparr>" for n
  have u: "order_typed s (upd n)" "stored_ok (f_id f) (upd n)" "so_sender (upd n) \<noteq> None" for n
    using stored_typed [OF t o] by (auto simp: order_typed_def stored_ok_def upd_def)
  have "typed_res (kept s) (to_client (so_sender (upd n)) (Inr m) (s\<lparr>s_orders := (s_orders s)(f_id f \<mapsto> upd n)\<rparr>))" for n m
    by (rule typed_kept_trans [OF kept_put [OF t u(1,2)] typed_to_client_kept [OF kept_typed [OF kept_put [OF t u(1,2)]] u(3)]]) simp
  then show ?thesis
    unfolding fill_order_def Let_def upd_def [symmetric]
    by (intro typed_bnd [OF typed_trunc32] typed_bnd) simp_all
qed

lemma trunc32_ge_1: "trunc32 x = Inr n \<Longrightarrow> x \<ge> 1 \<Longrightarrow> n \<ge> 1"
  by (auto simp: trunc32_def Let_def le_floor_iff split: if_splits)

lemma typed_fill_position:
  assumes t: "som_typed s" and b: "uint (f_sym f) < int (length (s_assets s))" "0 \<le> f_owner f" "f_owner f < 13"
    and e: "f_side f = BUY \<or> f_side f = SEL" "f_sz f \<ge> 1"
  shows "typed_res (kept s) (fill_position s f)"
proof -
  note r = typed_position [OF t b(2,3) _ b(1)]
  have "typed_res (kept s) (add_pos s (f_owner f) (uint (f_sym f)) \<lparr>trade_type = f_side f, trade_price = p, pe_sz = n\<rparr>)"
    if "trunc32 (f_sz f) = Inr n" for n p
    using trunc32_ge_1 [OF that e(2)] e(1) by (intro typed_add_pos [OF t b(2,3) _ b(1)]) (auto simp: trade_ok_def)
  then show ?thesis
    by (auto simp: fill_position_def r db_emit kept_refl t intro!: typed_bnd [OF typed_trunc32] typed_bnd)
qed

lemma typed_fill_handler:
  assumes t: "som_typed s" and i: "in_typed s (InFill f)"
  shows "typed_res (kept s) (fill_handler s f)"
proof -
  have b: "uint (f_sym f) < int (length (s_assets s))" "0 \<le> f_owner f" "f_owner f < 13" "f_side f = BUY \<or> f_side f = SEL"
    "f_sz f > 0 \<Longrightarrow> f_sz f \<ge> 1"
    using i by (auto simp: in_typed_def)
  have fr: "length (s_assets s') = length (s_assets s)" if "kept s s'" for s'
    using that by (simp add: kept_def same_frame_def)
  have ap: "typed_res (kept s) (apply_fill s2 f ord)" if k: "kept s s2" and o: "s_orders s2 (f_id f) = Some ord" and sz: "f_sz f > 0" for s2 ord
  proof -
    have "typed_res (kept s) (fill_order s2 f ord)"
      using typed_kept_trans [OF k typed_fill_order [OF kept_typed [OF k] o]] .
    moreover have "typed_res (kept s) (fill_position s1 f)" if "kept s s1" for s1
      using typed_kept_trans [OF that typed_fill_position [OF kept_typed [OF that]]] b sz fr [OF that] by auto
    moreover have "typed_res (kept s) (bnd (get_pnl s1 OCCAMUST) (\<lambda>_. Inr s1))" if "kept s s1" for s1
      using that by (intro typed_bnd [OF typed_get_pnl [OF kept_typed [OF that]]]) (auto simp: OCCAMUST_def)
    ultimately show ?thesis
      unfolding apply_fill_def by (intro typed_if typed_bnd [where Q = "kept s"]) auto
  qed
  have "typed_res (kept s) (case s_orders s2 (f_id f) of None \<Rightarrow> Inr s2 | Some ord \<Rightarrow> apply_fill s2 f ord)"
    if "kept s s2" "f_sz f > 0" for s2
    using that ap by (cases "s_orders s2 (f_id f)") auto
  moreover have "typed_res (kept s) (count_fill s1 f)" if "kept s s1" for s1
    using typed_kept_trans [OF that typed_count_fill [OF kept_typed [OF that]]] b fr [OF that] by simp
  ultimately show ?thesis
    unfolding fill_handler_def
    using b fr by (intro typed_chk typed_bnd [OF typed_log_fill [OF t]] typed_bnd [OF typed_asset(2)] typed_bnd [where Q = "kept s"])
      (auto simp: kept_typed)
qed

section \<open>Control messages and the console\<close>

definition visits :: "visiting \<Rightarrow> bool" where
  "visits visit \<longleftrightarrow> (\<forall>om. finite (dom om) \<longrightarrow> distinct (visit om) \<and> set (visit om) = dom om)"

lemma typed_apply_limit:
  assumes t: "som_typed s"
  shows "typed_res (\<lambda>ys. length ys = length (s_assets s)) (apply_limit s p lims)"
proof -
  have "typed_res (\<lambda>_. True) (bnd (asset_ref s (int i)) (\<lambda>a. Inr (if starts_with (a_name a) (fst p) then snd p else lims ! i)))"
    if "i \<in> set [0..<length (s_assets s)]" for i
    using that by (intro typed_bnd [OF typed_asset(1) [OF t]]) auto
  from typed_traverse [OF this, of "[0..<length (s_assets s)]" "\<lambda>i. i"] show ?thesis
    by (simp add: apply_limit_def)
qed

lemma typed_apply_limits:
  assumes "som_typed s" "length lims = length (s_assets s)"
  shows "typed_res (\<lambda>ys. length ys = length (s_assets s)) (apply_limits s ps lims)"
  using assms(2)
  by (induction ps arbitrary: lims) (auto intro: typed_bnd [OF typed_apply_limit [OF assms(1)]])

lemma length_resize [simp]: "length (resize n xs) = n"
  by (simp add: resize_def)

lemma typed_read_limits:
  assumes t: "som_typed s"
  shows "typed_res (kept s) (read_limits s)"
proof -
  let ?n = "length (s_assets s)"
  have l: "typed_res (\<lambda>ys. length ys = ?n) (apply_limits s ps (resize ?n xs))" for ps xs
    using typed_apply_limits [OF t] by simp
  have w: "typed_res (\<lambda>ys. length ys = length [0..<?n]) (traverse (\<lambda>i. if pl ! i \<le> 0 \<or> sl ! i \<le> 0
      then bnd (asset_ref s (int i)) (\<lambda>_. Inr ()) else Inr ()) [0..<?n])" for pl sl :: "int list"
    by (rule typed_traverse) (auto intro!: typed_bnd [OF typed_asset(1) [OF t]])
  have k: "kept s (s\<lparr>s_pos_limit := pl, s_size_limit := sl\<rparr>)" if "length pl = ?n" "length sl = ?n" for pl sl
    using kept_trans [OF kept_count(7) [OF t that(1)] kept_count(8)] that kept_count(7) [OF t that(1)] by (simp add: kept_typed)
  show ?thesis
    unfolding read_limits_def Let_def
    by (rule typed_bnd [OF l], rule typed_bnd [OF l], rule typed_bnd [OF w]) (simp add: k)
qed

lemma typed_cancel_all:
  assumes "som_typed s" "visits visit"
  shows "typed_res (quiet s) (cancel_all_orders visit s)"
  unfolding cancel_all_orders_def using assms by (intro typed_cancel_each) (auto simp: visits_def som_typed_def)

lemma typed_get_pos:
  assumes "som_typed s" "0 \<le> ow" "ow < 13" "0 \<le> sy" "sy < int (length (s_assets s))"
  shows "typed_res (\<lambda>_. True) (get_pos s sy ow)"
  using typed_position [OF assms] by (simp add: get_pos_def position_of_def totalSize_net)

lemma typed_page_of:
  assumes t: "som_typed s" and f: "visits visit"
    and i: "\<forall>nm ow. ti nm = Some ow \<longrightarrow> 0 \<le> ow \<and> ow < 13"
  shows "typed_res (\<lambda>_. True) (page_of visit s what kv ti)"
proof -
  have pnl: "typed_res (\<lambda>_. True) (bnd (get_pnl s ow) (\<lambda>rs.
      bnd (traverse (\<lambda>i. bnd (asset_chk s (int i) ''must be found'') (\<lambda>a. bnd (get_pos s (int i) ow) (\<lambda>p.
             Inr (a_name a, p, (case rs ! i of (t, _, _) \<Rightarrow> t))))) [0..<length rs])
        (\<lambda>rows. Inr (Some (PgPnl rows)))))" if ow: "0 \<le> ow" "ow < 13" for ow
    by (rule typed_bnd [OF typed_get_pnl [OF t ow]], rule typed_bnd [OF typed_traverse])
       (auto intro!: typed_bnd [OF typed_asset(2) [OF t]] typed_bnd [OF typed_get_pos [OF t ow]])
  have "typed_res (\<lambda>_. True) (bnd (som_asset_of s (int i)) (\<lambda>a. case a of
                 None \<Rightarrow> Inr []
               | Some a' \<Rightarrow> bnd (nth_res (s_size_limit s) (int i)) (\<lambda>sl. Inr [(a_name a', s_pos_limit s ! i, sl)])))"
    if "i < length (s_pos_limit s)" for i
    using that typed_len(8,9) [OF t] by (auto simp: som_asset_of_def nth_res_def split: option.splits)
  then have lim: "typed_res (\<lambda>_. True) (bnd (traverse (\<lambda>i. bnd (som_asset_of s (int i)) (\<lambda>a. case a of
                 None \<Rightarrow> Inr []
               | Some a' \<Rightarrow> bnd (nth_res (s_size_limit s) (int i)) (\<lambda>sl. Inr [(a_name a', s_pos_limit s ! i, sl)])))
               [0..<length (s_pos_limit s)]) (\<lambda>rows. Inr (Some (PgLimits (concat rows)))))"
    by (intro typed_bnd [OF typed_traverse]) auto
  have row: "typed_res (\<lambda>_. True) (bnd (deref (s_orders s k)) (\<lambda>ord.
               if what = ''working'' \<and> so_canced ord then Inr None
               else bnd (order_row_of s ord) (\<lambda>r. Inr (Some r))))" if "k \<in> set (visit (s_orders s))" for k
  proof -
    have "k \<in> dom (s_orders s)"
      using that f t by (simp add: visits_def som_typed_def)
    then obtain ord where o: "s_orders s k = Some ord" "order_typed s ord"
      using stored_typed [OF t] by blast
    have "typed_res (\<lambda>_. True) (order_row_of s ord)"
      unfolding order_row_of_def using o(2) by (intro typed_bnd [OF typed_asset(1) [OF t]]) (auto simp: order_typed_def)
    then have "typed_res (\<lambda>_. True) (bnd (order_row_of s ord) (\<lambda>r. Inr (Some r)))"
      by (rule typed_bnd) simp
    then show ?thesis
      by (simp add: o(1) deref_def)
  qed
  have own: "typed_res (\<lambda>_. True) (case ti nm of None \<Rightarrow> Inr g | Some ow \<Rightarrow> F ow)"
    if "\<And>ow. 0 \<le> ow \<Longrightarrow> ow < 13 \<Longrightarrow> typed_res (\<lambda>_. True) (F ow)" for F :: "int \<Rightarrow> page option res" and g nm
    using i that by (cases "ti nm") auto
  have key: "typed_res (\<lambda>_. True) (case kv k of None \<Rightarrow> Inr g | Some nm \<Rightarrow> F nm)"
    if "\<And>nm. typed_res (\<lambda>_. True) (F nm)" for F :: "string \<Rightarrow> page option res" and g k
    using that by (cases "kv k") auto
  show ?thesis
    unfolding page_of_def
    by (intro typed_if key own pnl lim typed_bnd [OF typed_traverse [OF row]]) simp_all
qed

lemma typed_pnl_all_loop:
  assumes t: "som_typed s" and b: "0 \<le> sy" "sy < int (length (s_assets s))" and r: "set rows \<subseteq> set (s_pos s)"
  shows "typed_res (\<lambda>_. True) (pnl_all_loop s sy rows u v)"
  using r
proof (induction rows arbitrary: u v)
  case (Cons row rows)
  have row: "length row = length (s_assets s)" "\<forall>p \<in> set row. pos_wf p"
    using t Cons.prems unfolding som_typed_def by auto
  then have p: "pos_wf (row ! nat sy)"
    using b nth_mem [of "nat sy" row] by auto
  have n: "nth_res row sy = Inr (row ! nat sy)"
    using b row(1) by (simp add: nth_res_def)
  have IH: "typed_res (\<lambda>_. True) (pnl_all_loop s sy rows u' v')" for u' v'
    using Cons by simp
  show ?case
    using row(1) b typed_len(10,11) [OF t]
    by (simp add: n) (intro typed_bnd [OF typed_nth] typed_bnd [OF typed_asset(2) [OF t b]] typed_bnd [OF typed_unrealPnl [OF p]]
        typed_bnd [OF typed_trunc32] IH; simp)
qed simp

lemma typed_get_pnl_all:
  assumes t: "som_typed s" and b: "0 \<le> sy" "sy < int (length (s_assets s))"
  shows "typed_res (\<lambda>_. True) (get_pnl_all s sy)"
  unfolding get_pnl_all_def
  by (intro typed_bnd [OF typed_asset(2) [OF t b]] typed_bnd [OF typed_pnl_all_loop [OF t b subset_refl]])
     (auto intro!: typed_bnd [OF typed_ck32])

lemma typed_pnl_sum:
  assumes t: "som_typed s" and "set is \<subseteq> {..<length (s_assets s)}"
  shows "typed_res (\<lambda>_. True) (pnl_sum s is acc)"
  using assms(2)
proof (induction "is" arbitrary: acc)
  case (Cons i "is")
  obtain u r v where acc: "acc = (u, r, v)"
    by (cases acc)
  have "typed_res (\<lambda>_. True) (get_pnl_all s (int i))"
    using typed_get_pnl_all [OF t] Cons.prems by simp
  then show ?case
    using Cons acc by (auto intro!: typed_bnd [where Q = "\<lambda>_. True"] typed_bnd [OF typed_ck32])
qed simp

section \<open>Every message\<close>

lemma typed_position_response:
  assumes t: "som_typed s" and b: "0 \<le> sy" "sy < int (length (s_assets s))" "0 \<le> tr" "tr < 13"
  shows "typed_res (kept s) (position_response_handler s sy tr p)"
proof -
  have "typed_res (kept s) (add_pos s tr sy \<lparr>trade_type = (if p > 0 then BUY else SEL), trade_price = 0, pe_sz = \<bar>p\<bar>\<rparr>)" if "p \<noteq> 0"
    using that by (intro typed_add_pos [OF t b(3,4) b(1,2)]) (simp add: trade_ok_def)
  then show ?thesis
    unfolding position_response_handler_def by (intro typed_if typed_bnd [OF typed_ck32]) (auto simp: kept_refl t)
qed

lemma typed_bbbochg:
  assumes t: "som_typed s" and b: "0 \<le> sy" "sy < int (length (s_assets s))"
  shows "typed_res (kept s) (bbbochg_handler s sy bb ba tx)"
proof -
  let ?s1 = "s\<lparr>s_bid := (s_bid s)[nat sy := bb]\<rparr>"
  let ?s2 = "?s1\<lparr>s_ask := (s_ask s)[nat sy := ba]\<rparr>"
  have k1: "kept s ?s1" and l: "length (s_ask s) = length (s_assets s)"
    using kept_count(9) [OF t] typed_len(10,11) [OF t] by simp_all
  have k2: "kept ?s1 ?s2"
    using kept_count(10) [OF kept_typed [OF k1]] l by simp
  have "kept ?s2 (?s2\<lparr>s_currtim := tx\<rparr>)"
    using kept_other(6) [OF kept_typed [OF k2]] .
  then have "kept s (?s2\<lparr>s_currtim := tx\<rparr>)"
    using kept_trans [OF k1 kept_trans [OF k2]] by blast
  then show ?thesis
    using b typed_len(10,11) [OF t] by (simp add: bbbochg_handler_def nth_res_def)
qed

lemma typed_exit_handler:
  assumes t: "som_typed s" and v: "visits visit" and b: "uint ven < 25" "s_managers s ! nat (uint ven) \<noteq> None"
  shows "typed_res (kept s) (exit_handler visit s ven)"
  unfolding exit_handler_def
proof (intro typed_chk typed_bnd [OF typed_cancel_all [OF t v]])
  fix s1 assume q: "quiet s s1"
  have "nth_res (s_managers s1) (uint ven) = Inr (s_managers s ! nat (uint ven))"
    using q b(1) typed_len(12) [OF t] by (simp add: quiet_def nth_res_def)
  then show "typed_res (kept s) (bnd (nth_res (s_managers s1) (uint ven)) (\<lambda>om. bnd (deref om) (\<lambda>a.
        Inr ((emit [Send a (ExitPos ven)] s1)\<lparr>s_stopped := True\<rparr>))))"
    using b(2) kept_trans [OF kept_quiet [OF t q]] kept_other(1) [of "emit os s1" for os] quiet_typed [OF q t]
    by (auto simp: deref_def kept_def same_frame_def)
qed

lemma typed_som_step:
  assumes t: "som_typed s" and i: "in_typed s m" and v: "visits visit"
  shows "typed_res (kept s) (som_step visit s m)"
proof (cases m)
  case (InStop)
  have k: "kept s (s\<lparr>s_stopped := True\<rparr>)"
    using kept_other(1) [OF t] .
  have "typed_res (kept (s\<lparr>s_stopped := True\<rparr>)) (cancel_all_orders visit (s\<lparr>s_stopped := True\<rparr>))"
    using typed_mono [OF typed_cancel_all [OF kept_typed [OF k] v] kept_quiet [OF kept_typed [OF k]]] .
  then show ?thesis
    using InStop typed_kept_trans [OF k] by (simp add: som_step_def stop_trading_handler_def)
next
  case (InGet w kv ti)
  have p: "typed_res (\<lambda>_. True) (page_of visit s w kv ti)"
    using typed_page_of [OF t v] i InGet by (simp add: in_typed_def)
  have r: "typed_res (kept s) (bnd r (\<lambda>s1. Inr (emit os s1)))" if "typed_res (kept s) r" for r os
    using that by (rule typed_bnd) simp
  have c: "typed_res (kept s) (cancel_all_orders visit s)"
    using typed_mono [OF typed_cancel_all [OF t v] kept_quiet [OF t]] .
  show ?thesis
    unfolding som_step_def get_handler_def InGet
    by simp (intro conjI impI r c typed_read_limits [OF t] typed_bnd [OF p]; auto split: option.split simp: kept_refl t)
next
  case InActorStart
  have "kept s s' \<Longrightarrow> kept s (fold to_db ms s')" for ms s'
    by (induction ms arbitrary: s') (auto simp: db_emit)
  then have f: "kept s (fold to_db ms s)" for ms
    using t by (simp add: kept_refl)
  then show ?thesis
    using InActorStart t by (simp add: som_step_def start_handler_def db_emit kept_refl Let_def)
next
  case (InSetExchManager v a)
  then show ?thesis
    using i t typed_len(12) [OF t] by (auto simp: som_step_def set_exch_manager_handler_def in_typed_def nth_res_def kept_other(7))
next
  case (InGetPNL ow)
  then have b: "0 \<le> ow" "ow < 13"
    using i by (auto simp: in_typed_def)
  then have "nth_res (s_pos s) ow = Inr (s_pos s ! nat ow)"
    using typed_len(13) [OF t] by (simp add: nth_res_def)
  then show ?thesis
    using t InGetPNL by (auto simp: som_step_def get_pnl_handler_def kept_refl intro!: typed_bnd [OF typed_get_pnl [OF t b]])
next
  case InShutdown
  then show ?thesis
    using t by (auto simp: som_step_def shutdown_handler_def get_pnl_all_all_def kept_refl intro!: typed_bnd [OF typed_pnl_sum [OF t]])
next
  case (InFill f)
  then show ?thesis
    using typed_fill_handler [OF t] i by (simp add: som_step_def)
qed (use t i v in \<open>auto simp: som_step_def in_typed_def fill_sub_handler_def start_trading_handler_def kept_refl
   intro!: kept_other typed_order_handler typed_canc_handler typed_canc_ack_handler typed_bbbochg typed_canc_rej_handler
     typed_ack_handler typed_rej_handler typed_exit_handler typed_position_response\<close>)

lemma length_traverse: "traverse f xs = Inr ys \<Longrightarrow> length ys = length xs"
  by (induction xs arbitrary: ys) auto

lemma length_apply_limits:
  "apply_limits s ps lims = Inr ys \<Longrightarrow> length lims = length (s_assets s) \<Longrightarrow> length ys = length (s_assets s)"
  by (induction ps arbitrary: lims) (auto simp: apply_limit_def dest: length_traverse)

lemma read_limits_result:
  assumes "read_limits s = Inr s'"
  obtains pl sl where "s' = s\<lparr>s_pos_limit := pl, s_size_limit := sl\<rparr>"
    "length pl = length (s_assets s)" "length sl = length (s_assets s)"
  using assms by (auto simp: read_limits_def Let_def dest!: length_apply_limits)

lemma pos_wf_init [simp]: "pos_wf Position_init"
  by (simp add: pos_wf_def Position_init_def)

lemma typed_init:
  assumes "SOM_init ven db cp cs books sim reset fillsub assets self = Inr s" "\<forall>a \<in> set assets. a \<noteq> None"
  shows "som_typed s"
proof -
  obtain s0 s1 where s0: "read_limits s0 = Inr s1" "s_assets s0 = assets" "s_orders s0 = (\<lambda>_. None)"
      "s_pos s0 = replicate 13 (replicate (length assets) Position_init)" "length (s_managers s0) = 25"
      "\<forall>v \<in> {s_bid s0, s_ask s0, s_fill_volume s0, s_num_canc s0, s_num_ords s0, s_num_cr s0, s_num_fills s0, s_num_icnrej s0,
            s_num_xorej s0}. length v = length assets"
    and s: "s = s1\<lparr>s_subs := (case fillsub of None \<Rightarrow> [] | Some f \<Rightarrow> [f])\<rparr>"
    using assms(1) by (auto simp: SOM_init_def Let_def trader_num_syms_def x_num_syms_def)
  obtain pl sl where "s1 = s0\<lparr>s_pos_limit := pl, s_size_limit := sl\<rparr>" "length pl = length assets" "length sl = length assets"
    using read_limits_result [OF s0(1)] s0(2) by metis
  then show ?thesis
    using s s0(2-) assms(2) by (auto simp: som_typed_def)
qed

text \<open>The states the order manager can be in after well-typed messages.\<close>

inductive som_reach :: "visiting \<Rightarrow> SOM \<Rightarrow> som_in list \<Rightarrow> SOM \<Rightarrow> bool" for visit s0 where
  som_start: "som_reach visit s0 [] s0"
| som_next: "som_reach visit s0 ms s \<Longrightarrow> in_typed s m \<Longrightarrow> som_step visit s m = Inr s' \<Longrightarrow> som_reach visit s0 (ms @ [m]) s'"

lemma som_reach_kept:
  assumes "som_reach visit s0 ms s" "som_typed s0" "visits visit"
  shows "kept s0 s"
  using assms
proof induction
  case (som_next ms s m s')
  then have "kept s0 s" "typed_res (kept s) (som_step visit s m)"
    using typed_som_step kept_typed by blast+
  then show ?case
    using som_next.hyps(3) by (auto intro: kept_trans)
qed (simp add: kept_refl)


section \<open>Examples\<close>

text \<open>Two instruments, the first with a limit, one simulated book for each.\<close>

definition ex_som :: "bool \<Rightarrow> SOM" where
  "ex_som sim = projr (SOM_init 18 (Some 7) [(''ES'', 10)] [(''ES'', 5)]
     (replicate 18 [] @ [[Some 100, Some 101]]) sim False None
     [Some \<lparr>a_name = ''ESZ5'', a_cusip = False, a_contract_size = 50\<rparr>, Some \<lparr>a_name = ''NQZ5'', a_cusip = False, a_contract_size = 20\<rparr>] 1)"

definition ex_order :: "real \<Rightarrow> bs \<Rightarrow> som_order" where
  "ex_order sz side = projr (make_order 18 0 sz 4000 side 3 77 (Some 9))"

definition ex_fill :: "u32 \<Rightarrow> real \<Rightarrow> real \<Rightarrow> som_fill" where
  "ex_fill i sz stbf = \<lparr>f_id = i, f_venue = 18, f_sym = 0, f_px = 4000, f_side = BUY, f_sz = sz, f_stbf = stbf, f_owner = 3, f_tim = 99\<rparr>"

lemma visits_sorted: "visits (\<lambda>om. sorted_list_of_set (dom om))"
  by (simp add: visits_def)

lemma ex_som_init:
  "SOM_init 18 (Some 7) [(''ES'', 10)] [(''ES'', 5)] (replicate 18 [] @ [[Some 100, Some 101]]) True False None
     [Some \<lparr>a_name = ''ESZ5'', a_cusip = False, a_contract_size = 50\<rparr>,
      Some \<lparr>a_name = ''NQZ5'', a_cusip = False, a_contract_size = 20\<rparr>] 1 = Inr (ex_som True)"
proof -
  have "returns (SOM_init 18 (Some 7) [(''ES'', 10)] [(''ES'', 5)] (replicate 18 [] @ [[Some 100, Some 101]]) True False None
     [Some \<lparr>a_name = ''ESZ5'', a_cusip = False, a_contract_size = 50\<rparr>,
      Some \<lparr>a_name = ''NQZ5'', a_cusip = False, a_contract_size = 20\<rparr>] 1)"
    by code_simp
  then show ?thesis
    by (auto simp: ex_som_def returns_iff)
qed


end
