(* ===== verification/SOM_Properties.thy ===== *)
theory SOM_Properties
  imports SOM_Typing
begin

text \<open>
  What the order manager of \<open>SOM\<close> does with its messages: which orders reach the market, what a
  cancel is answered with, what a stop sends, and that the positions it keeps are the ones it
  reports to the database.
\<close>

lemma typed_resD: "typed_res P r \<Longrightarrow> r = Inr x \<Longrightarrow> P x"
  by simp

section \<open>What is sent\<close>

text \<open>
  \<open>is_entry\<close>: a new order for the market. \<open>is_update\<close>: a change of position for the database.
  \<open>sent_since s s'\<close>: what was sent between two states.
\<close>

fun is_entry :: "som_out \<Rightarrow> bool" where
  "is_entry (Send _ (NewOrder _)) = True"
| "is_entry (Send _ (BookData p)) = (p_mev p = ADD)"
| "is_entry _ = False"

fun is_update :: "som_out \<Rightarrow> bool" where
  "is_update (Send _ (UpdatePosition _ _ _ _)) = True"
| "is_update _ = False"

definition sent_since :: "SOM \<Rightarrow> SOM \<Rightarrow> som_out list" where
  "sent_since s s' = drop (length (s_out s)) (s_out s')"

text \<open>\<open>plain s s'\<close>: neither an order nor a change of position was sent, and positions and the stop flag are as before.\<close>

definition plain :: "SOM \<Rightarrow> SOM \<Rightarrow> bool" where
  "plain s s' \<longleftrightarrow> (\<exists>os. s_out s' = s_out s @ os \<and> (\<forall>x \<in> set os. \<not> is_entry x \<and> \<not> is_update x))
     \<and> s_pos s' = s_pos s \<and> s_stopped s' = s_stopped s \<and> s_db s' = s_db s"

lemma plain_refl [simp]: "plain s s"
  by (simp add: plain_def)

lemma plain_trans: "plain s s1 \<Longrightarrow> plain s1 s2 \<Longrightarrow> plain s s2"
  by (fastforce simp: plain_def)

lemma plain_emit: "plain s s' \<Longrightarrow> (\<forall>x \<in> set os. \<not> is_entry x \<and> \<not> is_update x) \<Longrightarrow> plain s (emit os s')"
  by (fastforce simp: plain_def)

lemma plain_upd:
  "plain s (s'\<lparr>s_orders := om\<rparr>) \<longleftrightarrow> plain s s'" "plain s (s'\<lparr>s_num_canc := xs\<rparr>) \<longleftrightarrow> plain s s'"
  "plain s (s'\<lparr>s_num_ords := xs\<rparr>) \<longleftrightarrow> plain s s'" "plain s (s'\<lparr>s_num_cr := xs\<rparr>) \<longleftrightarrow> plain s s'"
  "plain s (s'\<lparr>s_num_icnrej := xs\<rparr>) \<longleftrightarrow> plain s s'" "plain s (s'\<lparr>s_num_xorej := xs\<rparr>) \<longleftrightarrow> plain s s'"
  "plain s (s'\<lparr>s_num_fills := xs\<rparr>) \<longleftrightarrow> plain s s'" "plain s (s'\<lparr>s_fill_volume := xs\<rparr>) \<longleftrightarrow> plain s s'"
  "plain s (s'\<lparr>s_num_xcnrej := n\<rparr>) \<longleftrightarrow> plain s s'" "plain s (s'\<lparr>s_curr_id := i\<rparr>) \<longleftrightarrow> plain s s'"
  "plain s (s'\<lparr>s_add_ts := ts\<rparr>) \<longleftrightarrow> plain s s'" "plain s (s'\<lparr>s_subs := as\<rparr>) \<longleftrightarrow> plain s s'"
  "plain s (s'\<lparr>s_bid := xs\<rparr>) \<longleftrightarrow> plain s s'" "plain s (s'\<lparr>s_ask := xs\<rparr>) \<longleftrightarrow> plain s s'" "plain s (s'\<lparr>s_currtim := t\<rparr>) \<longleftrightarrow> plain s s'"
  "plain s (s'\<lparr>s_managers := ms\<rparr>) \<longleftrightarrow> plain s s'" "plain s (s'\<lparr>s_pos_limit := xs\<rparr>) \<longleftrightarrow> plain s s'"
  "plain s (s'\<lparr>s_size_limit := xs\<rparr>) \<longleftrightarrow> plain s s'"
  by (simp_all add: plain_def)

lemma plain_db:
  "plain s s' \<Longrightarrow> plain s (db_action c i sz s')"
  "plain s s' \<Longrightarrow> \<not> is_entry (Send d m) \<Longrightarrow> \<not> is_update (Send d m) \<Longrightarrow> plain s (to_db m s')"
proof -
  show "plain s s' \<Longrightarrow> plain s (db_action c i sz s')"
    unfolding db_action_emit by (rule plain_emit) (auto simp: db_out_def split: option.splits)
  show "plain s s' \<Longrightarrow> \<not> is_entry (Send d m) \<Longrightarrow> \<not> is_update (Send d m) \<Longrightarrow> plain s (to_db m s')"
    unfolding to_db_emit by (rule plain_emit) (cases m; auto simp: db_out_def split: option.splits)+
qed

lemma plain_client:
  assumes "plain s s'" "\<And>c x. m = Inr x \<Longrightarrow> \<not> is_entry (Send c x) \<and> \<not> is_update (Send c x)"
  shows "ensures (plain s) (to_client client m s')"
  unfolding to_client_def using assms by (intro ensures_bnd) (auto intro: plain_emit simp: deref_def split: option.splits)

lemma plain_canc_reject: "plain s s' \<Longrightarrow> ensures (plain s) (to_client client (canc_reject i r st) s')"
  by (rule plain_client) (auto simp: canc_reject_def)

lemma plain_send_book: "plain s s' \<Longrightarrow> p_mev p \<noteq> ADD \<Longrightarrow> ensures (plain s) (send_book bk p s')"
  unfolding send_book_def by (intro ensures_chk ensures_bnd) (auto intro: plain_emit)

lemma plain_cancel_order: "plain s s' \<Longrightarrow> ensures (plain s) (cancel_order s' i ord ts)"
  unfolding cancel_order_def Let_def
  by (auto intro!: ensures_bnd ensures_chk plain_canc_reject plain_send_book plain_emit plain_db
      simp: sim_cancel_payload_def plain_upd split: option.splits)

lemma plain_cancelD: "cancel_order s' i ord ts = Inr s2 \<Longrightarrow> plain s s' \<Longrightarrow> plain s s2"
  using plain_cancel_order ensuresD by metis

lemma plain_internal_reject: "ensures (\<lambda>(s', _). plain s s') (internal_reject s i)"
  unfolding internal_reject_def Let_def
  by (auto simp: plain_upd plain_db split: option.splits intro!: ensures_seq [OF plain_canc_reject [OF plain_refl]])

lemma plain_canc_handler: "ensures (plain s) (canc_handler s i ts)"
  unfolding canc_handler_def
  by (rule ensures_seq [OF plain_internal_reject]) (auto split: option.splits intro: plain_cancel_order)

lemma plain_cancel_each: "plain s s' \<Longrightarrow> ensures (plain s) (cancel_each ks s')"
  by (induction ks arbitrary: s') (auto intro!: ensures_bnd, metis plain_cancelD)

lemma plain_replace_order: "ensures (\<lambda>(s', m'). plain s s' \<and> (m' = m \<or> m' = m\<lparr>so_oid_to_cancel := -1\<rparr>)) (replace_order s m)"
proof -
  have "ensures (\<lambda>(s', m'). plain s s' \<and> (m' = m \<or> m' = m\<lparr>so_oid_to_cancel := -1\<rparr>)) (replace_cancel s1 m ord)" if "plain s s1" for s1 ord
    unfolding replace_cancel_def
    using that by (auto intro!: ensures_bnd simp: plain_upd dest!: plain_cancelD [where s = s])
  then show ?thesis
    unfolding replace_order_def
    by (auto intro!: ensures_bnd ensures_seq [OF plain_internal_reject] simp: plain_upd replace_refused_def split: option.splits)
qed

lemma plain_assign: "assign_id s m = (s1, m1) \<Longrightarrow> plain s s1"
  by (auto simp: assign_id_def Let_def plain_upd split: if_splits)

lemma plain_log_new: "plain s s' \<Longrightarrow> ensures (plain s) (log_new s' m)"
  by (auto simp: log_new_def plain_db intro!: ensures_bnd)

text \<open>An accepted order is placed, after what was sent on the way, in a state that is stopped only if this one is.\<close>

lemma accept_order_steps:
  assumes "accept_order s m = Inr s'"
  obtains s5 m2 where "plain s s5" "place_order s5 m2 = Inr s'" "so_sz m2 = so_sz m" "so_side m2 = so_side m"
    "so_sym m2 = so_sym m" "so_owner m2 = so_owner m"
proof -
  obtain s1 m1 where a: "assign_id s m = (s1, m1)"
    by fastforce
  define s3 where "s3 = (emit [Reply (Ack (word_of_int (so_oid m1)))] s1)\<lparr>s_add_ts := (s_add_ts (emit [Reply (Ack (word_of_int (so_oid m1)))] s1))(so_oid m1 \<mapsto> 0)\<rparr>"
  obtain s4 s5 m2 where st: "log_new s3 m1 = Inr s4" "replace_order s4 m1 = Inr (s5, m2)" "place_order s5 m2 = Inr s'"
    using assms unfolding accept_order_def a prod.case Let_def s3_def [symmetric] by auto
  have "plain s s3"
    using plain_emit [OF plain_assign [OF a]] by (simp add: s3_def plain_upd)
  then have "plain s s4"
    using ensuresD [OF plain_log_new st(1)] by simp
  moreover have "plain s4 s5" "m2 = m1 \<or> m2 = m1\<lparr>so_oid_to_cancel := -1\<rparr>"
    using ensuresD [OF plain_replace_order st(2)] by auto
  moreover have "so_sz m1 = so_sz m" "so_side m1 = so_side m" "so_sym m1 = so_sym m" "so_owner m1 = so_owner m"
    using a by (auto simp: assign_id_def Let_def split: if_splits)
  ultimately show thesis
    using that [of s5 m2] st(3) plain_trans by auto
qed

lemma place_order_result:
  assumes "place_order s m = Inr s'"
  shows "s_pos s' = s_pos s \<and> s_stopped s' = s_stopped s \<and> s_db s' = s_db s
    \<and> (\<exists>os. s_out s' = s_out s @ os \<and> (\<forall>x \<in> set os. \<not> is_update x) \<and> (s_stopped s \<longrightarrow> (\<forall>x \<in> set os. \<not> is_entry x)))"
  using assms
  by (auto simp: place_order_def to_client_def send_book_def deref_def Let_def split: if_splits option.splits)

section \<open>The limits\<close>

text \<open>
  C10. No order passes its limits. Whatever the state, if handling an order of a trader sends a
  new order to the market, to the simulated book or to an exchange, then, for an instrument with
  a position limit, the position of that trader after a complete fill is within the limit on
  the side of the order, and, for an instrument with a size limit, the order is not larger than
  it. Only an instrument known by its cusip and a negative limit are exempt.
\<close>

theorem som_limits_hold:
  assumes "order_handler s m = Inr s'" "\<exists>x \<in> set (sent_since s s'). is_entry x"
    and "asset_ref s (so_sym m) = Inr a" "\<not> a_cusip a"
  shows "\<exists>cur pl sl. get_pos s (so_sym m) (so_owner m) = Inr cur
     \<and> nth_res (s_pos_limit s) (so_sym m) = Inr pl \<and> nth_res (s_size_limit s) (so_sym m) = Inr sl
     \<and> (pl \<ge> 0 \<longrightarrow> (if so_side m = BUY then of_int cur + so_sz m \<le> of_int pl else - of_int pl \<le> of_int cur - so_sz m))
     \<and> (sl \<ge> 0 \<longrightarrow> so_sz m \<le> of_int sl)"
proof -
  obtain over where o: "check_limits s m = Inr over" and
    r: "(if over then to_client (so_sender m) (Inr (Reject (s_curr_id s) RJ_OVERLIMIT)) (emit [Reply (Ack (s_curr_id s))] s)
         else accept_order s m) = Inr s'"
    using assms(1) by (auto simp: order_handler_def)
  have "\<not> over"
  proof
    assume over
    then have "\<exists>c. s_out s' = s_out s @ [Reply (Ack (s_curr_id s)), Send c (Reject (s_curr_id s) RJ_OVERLIMIT)]"
      using r by (auto simp: to_client_def deref_def split: option.splits)
    then show False
      using assms(2) by (auto simp: sent_since_def)
  qed
  then have "order_over_limit s m = Inr False"
    using o assms(3,4) by (simp add: check_limits_def)
  then show ?thesis
    by (auto simp: order_over_limit_def not_less split: if_splits)
qed

theorem som_limits_hold_witness:
  "case order_handler (ex_som True) (ex_order 5 SEL) of
     Inr s' \<Rightarrow> (\<exists>x \<in> set (sent_since (ex_som True) s'). is_entry x) \<and> (\<exists>cur. get_pos (ex_som True) 0 3 = Inr cur \<and> - 10 \<le> real_of_int cur - 5)
   | Inl _ \<Rightarrow> False"
proof -
  have h: "returns (order_handler (ex_som True) (ex_order 5 SEL))"
    "list_ex is_entry (sent_since (ex_som True) (projr (order_handler (ex_som True) (ex_order 5 SEL))))"
    "asset_ref (ex_som True) 0 = Inr \<lparr>a_name = ''ESZ5'', a_cusip = False, a_contract_size = 50\<rparr>"
    "nth_res (s_pos_limit (ex_som True)) 0 = Inr 10"
    and f: "so_sym (ex_order 5 SEL) = 0" "so_owner (ex_order 5 SEL) = 3" "so_side (ex_order 5 SEL) = SEL" "so_sz (ex_order 5 SEL) = 5"
    by code_simp+
  then obtain s' where s': "order_handler (ex_som True) (ex_order 5 SEL) = Inr s'"
    by (auto simp: returns_iff)
  then have e: "\<exists>x \<in> set (sent_since (ex_som True) s'). is_entry x"
    using h(2) by (simp add: list_ex_iff)
  show ?thesis
    using som_limits_hold [OF s' e] h(3,4) f s' e by auto
qed

section \<open>Stopping\<close>

text \<open>The other handlers do not place orders, and only a fill and a restored position change positions.\<close>

lemma plain_fold_db: "plain s s' \<Longrightarrow> \<forall>m \<in> set ms. \<not> is_entry (Send 0 m) \<and> \<not> is_update (Send 0 m) \<Longrightarrow> plain s (fold to_db ms s')"
  by (induction ms arbitrary: s') (auto intro: plain_db(2) [where d = 0])

lemma plain_start_handler: "plain s (start_handler s)"
proof -
  have "plain s (if s_db s = None then s
                else if s_reset s then to_db ResetPositions s
                else fold to_db [GetPosition (int sy) (int t). t \<leftarrow> [0..<trader_num_syms], sy \<leftarrow> [0..<length (s_assets s)]] s)"
    by (auto intro!: plain_db(2) [where d = 0] plain_fold_db)
  then show ?thesis
    unfolding start_handler_def Let_def by (rule plain_emit) (auto split: option.splits)
qed

lemma plain_ack_handler: "ensures (plain s) (ack_handler s i)"
  by (auto simp: ack_handler_def Let_def plain_upd plain_db split: option.splits
      intro!: ensures_chk plain_cancel_order)

lemma plain_rej_handler: "ensures (plain s) (rej_handler s i r)"
  unfolding rej_handler_def Let_def
  by (auto simp: plain_upd plain_db split: option.splits intro!: ensures_bnd)
     (auto simp: plain_upd plain_db dest!: ensuresD [OF plain_client, rotated 2])

lemma plain_canc_ack_handler: "ensures (plain s) (canc_ack_handler s i fs sz)"
  unfolding canc_ack_handler_def Let_def
  by (auto simp: plain_upd plain_db split: option.splits intro!: ensures_bnd)
     (auto simp: plain_upd plain_db dest!: ensuresD [OF plain_client, rotated 2])

lemma plain_canc_rej_handler: "ensures (plain s) (canc_rej_handler s i r st)"
  unfolding canc_rej_handler_def Let_def
  by (auto simp: plain_upd plain_db split: option.splits intro!: ensures_bnd plain_canc_reject)

lemma plain_fill_order: "ensures (plain s) (fill_order s f ord)"
  unfolding fill_order_def Let_def
  by (auto intro!: ensures_bnd plain_emit simp: plain_upd)
     (auto simp: plain_upd dest!: ensuresD [OF plain_client, rotated 2])

lemma plain_count_fill: "plain s s' \<Longrightarrow> ensures (plain s) (count_fill s' f)"
  unfolding count_fill_def by (auto intro!: ensures_bnd simp: plain_upd)

lemma plain_log_fill: "ensures (plain s) (log_fill s f)"
  unfolding log_fill_def by (auto intro!: ensures_bnd simp: plain_db)

text \<open>A handled fill: the order's part, which is plain, then the position.\<close>

lemma fill_handler_steps:
  assumes "fill_handler s f = Inr s'"
  obtains (unknown) "plain s s'" "s_orders s (f_id f) = None"
  | (known) sa s2 s1 ord where "s_orders s2 (f_id f) = Some ord" "plain s s1" "fill_position s1 f = Inr s'"
      "log_fill s f = Inr sa" "count_fill sa f = Inr s2" "fill_order s2 f ord = Inr s1"
proof -
  obtain s1 s2 where st: "log_fill s f = Inr s1" "count_fill s1 f = Inr s2"
    and r: "(case s_orders s2 (f_id f) of None \<Rightarrow> Inr s2 | Some ord \<Rightarrow> apply_fill s2 f ord) = Inr s'"
    using assms by (auto simp: fill_handler_def)
  have p: "plain s s2"
    using ensuresD [OF plain_count_fill st(2)] ensuresD [OF plain_log_fill st(1)] by blast
  have o: "s_orders s2 = s_orders s"
    using st by (auto simp: log_fill_def count_fill_def db_orders split: if_splits)
  show thesis
  proof (cases "s_orders s2 (f_id f)")
    case None
    then show ?thesis
      using r p o that(1) by simp
  next
    case (Some ord)
    then obtain s3 where s3: "fill_order s2 f ord = Inr s3" "fill_position s3 f = Inr s'"
      using r by (auto simp: apply_fill_def split: if_splits)
    show ?thesis
      using that(2) [OF Some plain_trans [OF p ensuresD [OF plain_fill_order s3(1)]] s3(2) st s3(1)] .
  qed
qed

lemma fill_position_result:
  assumes "fill_position s f = Inr s'"
  shows "s_stopped s' = s_stopped s \<and> s_db s' = s_db s \<and> (\<exists>os. s_out s' = s_out s @ os \<and> (\<forall>x \<in> set os. \<not> is_entry x))"
  using assms
  by (auto simp: fill_position_def add_pos_def db_emit db_out_def split: if_splits option.splits)

text \<open>\<open>halted s s'\<close>: trading is stopped and no order was sent.\<close>

definition halted :: "SOM \<Rightarrow> SOM \<Rightarrow> bool" where
  "halted s s' \<longleftrightarrow> s_stopped s' \<and> (\<exists>os. s_out s' = s_out s @ os \<and> (\<forall>x \<in> set os. \<not> is_entry x))"

lemma halted_plain: "s_stopped s \<Longrightarrow> plain s s' \<Longrightarrow> halted s s'"
  by (auto simp: halted_def plain_def)

lemma halted_trans: "halted s s1 \<Longrightarrow> halted s1 s2 \<Longrightarrow> halted s s2"
  by (fastforce simp: halted_def)

lemma halted_step:
  assumes st: "som_step visit s m = Inr s'" and h: "s_stopped s" and ns: "m \<noteq> InStart"
  shows "halted s s'"
proof (cases m)
  case (InOrder x)
  then have "accept_order s x = Inr s' \<or> (\<exists>c. s' = emit [Send c (Reject (s_curr_id s) RJ_OVERLIMIT)] (emit [Reply (Ack (s_curr_id s))] s))"
    using st by (auto simp: som_step_def order_handler_def to_client_def split: if_splits)
  then show ?thesis
  proof
    assume "accept_order s x = Inr s'"
    then obtain s5 m2 where p: "plain s s5" "place_order s5 m2 = Inr s'"
      using accept_order_steps by blast
    then show ?thesis
      using place_order_result [OF p(2)] h by (fastforce simp: plain_def halted_def)
  qed (use h in \<open>auto simp: halted_def\<close>)
next
  case (InFill f)
  then have "fill_handler s f = Inr s'"
    using st by (simp add: som_step_def)
  then show ?thesis
    by (cases rule: fill_handler_steps) (use h fill_position_result halted_plain in \<open>fastforce simp: plain_def halted_def\<close>)+
next
  case (InPositionResponse sy t p)
  then show ?thesis
    using st h by (auto simp: som_step_def position_response_handler_def add_pos_def halted_def split: if_splits)
next
  case InStop
  then show ?thesis
    using st h ensuresD [OF plain_cancel_each [OF plain_refl]] halted_plain [of "s\<lparr>s_stopped := True\<rparr>" s']
    by (auto simp: som_step_def stop_trading_handler_def cancel_all_orders_def halted_def)
next
  case (InExitPos v)
  then obtain s1 a where "cancel_each (visit (s_orders s)) s = Inr s1" "s' = (emit [Send a (ExitPos v)] s1)\<lparr>s_stopped := True\<rparr>"
    using st by (auto simp: som_step_def exit_handler_def cancel_all_orders_def)
  then show ?thesis
    using ensuresD [OF plain_cancel_each [OF plain_refl [of s]]] by (fastforce simp: halted_def plain_def)
next
  case (InGet w kv ti)
  have "read_limits s = Inr s1 \<Longrightarrow> halted s s1" for s1
    using read_limits_result [of s s1] h by (fastforce simp: halted_def)
  moreover have "cancel_all_orders visit s = Inr s1 \<Longrightarrow> halted s s1" for s1
    using ensuresD [OF plain_cancel_each [OF plain_refl [of s]]] h by (simp add: cancel_all_orders_def halted_plain)
  moreover have "halted s s1 \<Longrightarrow> halted s (emit [Reply (Page g)] s1)" for s1 g
    by (auto simp: halted_def)
  moreover have "halted s s"
    using h by (simp add: halted_def)
  ultimately show ?thesis
    using InGet st by (auto simp: som_step_def get_handler_def split: if_splits option.splits)
next
  case (InCancel i ts)
  then show ?thesis
    using st h ensuresD [OF plain_canc_handler] by (simp add: som_step_def halted_plain)
next
  case (InCancelAck i fs sz)
  then show ?thesis
    using st h ensuresD [OF plain_canc_ack_handler] by (simp add: som_step_def halted_plain)
next
  case (InCancelReject i r stt)
  then show ?thesis
    using st h ensuresD [OF plain_canc_rej_handler] by (simp add: som_step_def halted_plain)
next
  case (InAck i)
  then show ?thesis
    using st h ensuresD [OF plain_ack_handler] by (simp add: som_step_def halted_plain)
next
  case (InReject i r)
  then show ?thesis
    using st h ensuresD [OF plain_rej_handler] by (simp add: som_step_def halted_plain)
next
  case InActorStart
  then show ?thesis
    using st h plain_start_handler by (auto simp: som_step_def halted_plain)
next
  case (InBBBOChg sy bb ba tx)
  then show ?thesis
    using st h by (auto simp: som_step_def bbbochg_handler_def halted_def)
next
  case (InGetPNL ow)
  then show ?thesis
    using st h by (auto simp: som_step_def get_pnl_handler_def halted_def)
next
  case (InSetExchManager v a)
  then show ?thesis
    using st h by (auto simp: som_step_def set_exch_manager_handler_def halted_def)
qed (use st h ns in \<open>auto simp: som_step_def halted_def fill_sub_handler_def shutdown_handler_def\<close>)

lemma halted_run: "som_run visit s ms = Inr s' \<Longrightarrow> s_stopped s \<Longrightarrow> InStart \<notin> set ms \<Longrightarrow> halted s s'"
proof (induction ms arbitrary: s)
  case (Cons m ms)
  then obtain s1 where s1: "som_step visit s m = Inr s1" "som_run visit s1 ms = Inr s'"
    by auto
  then have "halted s s1"
    using halted_step [OF s1(1)] Cons.prems by auto
  then show ?case
    using Cons.IH [OF s1(2)] Cons.prems(3) halted_trans [of s s1 s'] by (simp add: halted_def [of s s1])
qed (simp add: halted_def)

text \<open>The orders that a list of messages cancels, and those of the map that still work.\<close>

fun cancel_ids :: "som_out list \<Rightarrow> u32 list" where
  "cancel_ids [] = []"
| "cancel_ids (Send _ (BookData p) # os) = (if p_action p = CANCD then id_of (p_order_ref p) # cancel_ids os else cancel_ids os)"
| "cancel_ids (Send _ (CancelOrder i _ _) # os) = i # cancel_ids os"
| "cancel_ids (_ # os) = cancel_ids os"

lemma cancel_ids_append [simp]: "cancel_ids (xs @ ys) = cancel_ids xs @ cancel_ids ys"
  by (induction xs rule: cancel_ids.induct) auto

lemma cancel_ids_db [simp]: "cancel_ids (db_out s (SOMAction c i n v sy sd px ac)) = []"
  by (simp add: db_out_def split: option.splits)

definition working :: "SOM \<Rightarrow> u32 \<Rightarrow> bool" where
  "working s k \<longleftrightarrow> (case s_orders s k of None \<Rightarrow> False | Some ord \<Rightarrow> \<not> so_filled ord \<and> \<not> so_canced ord \<and> \<not> so_rejed ord)"

text \<open>\<open>routed s\<close>: every working order has somewhere to send its cancel.\<close>

definition routed :: "SOM \<Rightarrow> bool" where
  "routed s \<longleftrightarrow> s_sim s \<or> (\<forall>k ord. s_orders s k = Some ord \<longrightarrow> (\<exists>a. nth_res (s_managers s) (uint (so_venue ord)) = Inr (Some a)))"

definition same_routes :: "SOM \<Rightarrow> SOM \<Rightarrow> bool" where
  "same_routes s s' \<longleftrightarrow> s_orders s' = s_orders s \<and> s_managers s' = s_managers s \<and> s_sim s' = s_sim s \<and> s_stopped s' = s_stopped s"

lemma cancel_order_sends:
  assumes "cancel_order s k ord ts = Inr s'" "s_orders s k = Some ord" "working s k" "routed s"
  shows "\<exists>os. s_out s' = s_out s @ os \<and> cancel_ids os = [k] \<and> same_routes s s'"
proof -
  have w: "\<not> so_filled ord" "\<not> so_canced ord" "\<not> so_rejed ord"
    using assms(2,3) by (simp_all add: working_def)
  show ?thesis
  proof (cases "s_sim s")
    case True
    then obtain b px sz where "s_out s' = s_out s @ [Send b (BookData (sim_cancel_payload ord k ts px sz))]" "same_routes s s'"
      using assms(1) w by (auto simp: cancel_order_def Let_def send_book_def same_routes_def deref_def split: option.splits)
    then show ?thesis
      by (auto simp: sim_cancel_payload_def)
  next
    case False
    then obtain a where "nth_res (s_managers s) (uint (so_venue ord)) = Inr (Some a)"
      using assms(2,4) by (auto simp: routed_def)
    then show ?thesis
      using assms(1) w False by (auto simp: cancel_order_def Let_def same_routes_def db_emit)
  qed
qed

lemma cancel_each_sends:
  assumes "cancel_each ks s = Inr s'" "routed s"
  shows "\<exists>os. s_out s' = s_out s @ os \<and> cancel_ids os = filter (working s) ks \<and> same_routes s s'"
  using assms
proof (induction ks arbitrary: s)
  case (Cons k ks)
  then obtain ord where o: "s_orders s k = Some ord"
    by (auto simp: deref_def split: option.splits)
  show ?case
  proof (cases "working s k")
    case True
    then obtain s1 where s1: "cancel_order s k ord 0 = Inr s1" "cancel_each ks s1 = Inr s'"
      using Cons.prems(1) o by (auto simp: deref_def working_def)
    obtain os where os: "s_out s1 = s_out s @ os" "cancel_ids os = [k]" "same_routes s s1"
      using cancel_order_sends [OF s1(1) o True Cons.prems(2)] by blast
    moreover have "routed s1" "working s1 = working s"
      using os(3) Cons.prems(2) by (auto simp: same_routes_def routed_def working_def fun_eq_iff)
    ultimately show ?thesis
      using Cons.IH [OF s1(2)] True by (auto simp: same_routes_def)
  next
    case False
    then show ?thesis
      using Cons o by (auto simp: deref_def working_def)
  qed
qed (simp add: same_routes_def)


definition ex_run :: "som_in list \<Rightarrow> SOM" where
  "ex_run ms = projr (som_run (\<lambda>_. []) (ex_som True) ms)"


section \<open>Positions\<close>

text \<open>
  \<open>reported sy t os\<close> adds up the changes of position that messages tell the database,
  \<open>restored sy t ms\<close> the positions that answers of the database put back.
\<close>

fun reported :: "int \<Rightarrow> int \<Rightarrow> som_out list \<Rightarrow> int" where
  "reported sy t [] = 0"
| "reported sy t (Send _ (UpdatePosition sy' t' side n) # os) =
     (if sy' = sy \<and> t' = t then (if side = BUY then n else - n) else 0) + reported sy t os"
| "reported sy t (_ # os) = reported sy t os"

fun restored :: "int \<Rightarrow> int \<Rightarrow> som_in list \<Rightarrow> int" where
  "restored sy t [] = 0"
| "restored sy t (InPositionResponse sy' t' p # ms) = (if sy' = sy \<and> t' = t then p else 0) + restored sy t ms"
| "restored sy t (_ # ms) = restored sy t ms"

lemma reported_append [simp]: "reported sy t (xs @ ys) = reported sy t xs + reported sy t ys"
  by (induction sy t xs rule: reported.induct) auto

lemma restored_append [simp]: "restored sy t (xs @ ys) = restored sy t xs + restored sy t ys"
  by (induction sy t xs rule: restored.induct) auto

lemma reported_none: "\<forall>x \<in> set os. \<not> is_update x \<Longrightarrow> reported sy t os = 0"
  by (induction sy t os rule: reported.induct) auto

lemma restored_other: "(\<And>sy' t' p. m \<noteq> InPositionResponse sy' t' p) \<Longrightarrow> restored sy t [m] = 0"
  by (cases m) auto

definition net_at :: "SOM \<Rightarrow> int \<Rightarrow> int \<Rightarrow> int" where
  "net_at s sy t = net (open_positions (s_pos s ! nat t ! nat sy))"

text \<open>\<open>unreported\<close>: the part of a position the database was not told.\<close>

definition unreported :: "SOM \<Rightarrow> int \<Rightarrow> int \<Rightarrow> int" where
  "unreported s sy t = net_at s sy t - reported sy t (s_out s)"

lemma unreported_plain: "plain s s' \<Longrightarrow> unreported s' sy t = unreported s sy t"
  by (auto simp: plain_def unreported_def net_at_def reported_none)

lemma net_at_add:
  assumes ty: "som_typed s" and b: "0 \<le> ow" "ow < 13" "0 \<le> sy'" "sy' < int (length (s_assets s))" and e: "trade_ok e"
    and q: "0 \<le> t" "t < 13" "0 \<le> sy" "sy < int (length (s_assets s))" and st: "add_pos s ow sy' e = Inr s'"
  shows "net_at s' sy t = net_at s sy t + (if sy' = sy \<and> ow = t then signed_sz e else 0)" "s_out s' = s_out s" "s_db s' = s_db s"
proof -
  obtain p where p: "net (open_positions p) = net (open_positions (s_pos s ! nat ow ! nat sy')) + signed_sz e"
    "s' = s\<lparr>s_pos := (s_pos s)[nat ow := (s_pos s ! nat ow)[nat sy' := p]]\<rparr>"
    using add_pos_typed [OF ty b e] st by (metis sum.inject(2))
  have l: "nat t < length (s_pos s)" "nat ow < length (s_pos s)"
    using typed_len(13) [OF ty] b q by simp_all
  have r: "length (s_pos s ! nat t) = length (s_assets s)" "length (s_pos s ! nat ow) = length (s_assets s)"
    using typed_position(2) [OF ty] b q by auto
  show "net_at s' sy t = net_at s sy t + (if sy' = sy \<and> ow = t then signed_sz e else 0)"
    using p l r b q by (auto simp: net_at_def nth_list_update_if)
  show "s_out s' = s_out s" "s_db s' = s_db s"
    using p(2) by simp_all
qed

lemma unreported_order:
  assumes "order_handler s m = Inr s'"
  shows "unreported s' sy t = unreported s sy t"
proof -
  have "accept_order s m = Inr s' \<Longrightarrow> ?thesis"
  proof -
    assume "accept_order s m = Inr s'"
    then obtain s5 m2 where p: "plain s s5" "place_order s5 m2 = Inr s'"
      using accept_order_steps by blast
    then show ?thesis
      using place_order_result [OF p(2)] unreported_plain [OF p(1)] by (auto simp: unreported_def net_at_def reported_none)
  qed
  then show ?thesis
    using assms by (auto simp: order_handler_def to_client_def unreported_def net_at_def split: if_splits)
qed

lemma unreported_fill:
  assumes ty: "som_typed s" and i: "in_typed s (InFill f)" and d: "s_db s \<noteq> None"
    and q: "0 \<le> t" "t < 13" "0 \<le> sy" "sy < int (length (s_assets s))" and st: "fill_handler s f = Inr s'"
  shows "unreported s' sy t = unreported s sy t"
  using st
proof (cases rule: fill_handler_steps)
  case unknown
  then show ?thesis
    using unreported_plain by blast
next
  case (known sa s2 s1 ord)
  have b: "uint (f_sym f) < int (length (s_assets s))" "0 \<le> f_owner f" "f_owner f < 13"
    using i by (auto simp: in_typed_def)
  have "f_sz f > 0"
    using st by (auto simp: fill_handler_def)
  then have e: "trade_ok \<lparr>trade_type = f_side f, trade_price = of_int (f_px f), pe_sz = n\<rparr>" if "trunc32 (f_sz f) = Inr n" for n
    using i trunc32_ge_1 [OF that] by (auto simp: in_typed_def trade_ok_def)
  have ka: "kept s sa"
    using typed_resD [OF typed_log_fill [OF ty] known(4)] .
  then have k2: "kept sa s2"
    using typed_resD [OF typed_count_fill [OF kept_typed [OF ka]] known(5)] b(1) by (simp add: kept_def same_frame_def)
  have "kept s2 s1"
    using typed_resD [OF typed_fill_order [OF kept_typed [OF k2] known(1)] known(6)] .
  then have k1: "kept s s1"
    using kept_trans [OF ka kept_trans [OF k2]] by blast
  then have a1: "s_assets s1 = s_assets s" "s_db s1 = s_db s"
    by (simp_all add: kept_def same_frame_def)
  obtain d' where d': "s_db s = Some d'"
    using d by blast
  have "nth_res (s_pos s1) (f_owner f) = Inr (s_pos s1 ! nat (f_owner f))" "length (s_pos s1 ! nat (f_owner f)) = length (s_assets s)"
    using typed_position(1,2) [OF kept_typed [OF k1] b(2,3), of "uint (f_sym f)"] a1 b(1) by simp_all
  then obtain n s4 where n: "trunc32 (f_sz f) = Inr n"
    "add_pos s1 (f_owner f) (uint (f_sym f)) \<lparr>trade_type = f_side f, trade_price = of_int (f_px f), pe_sz = n\<rparr> = Inr s4"
    "s' = to_db (UpdatePosition (uint (f_sym f)) (f_owner f) (f_side f) n) s4"
    using known(3) b(1) by (auto simp: fill_position_def)
  note na = net_at_add [OF kept_typed [OF k1] b(2,3) _ _ e [OF n(1)] q(1,2) q(3) _ n(2)]
  have "unreported s' sy t = unreported s1 sy t"
    using na b(1) q(4) a1 d' by (auto simp: n(3) unreported_def db_emit db_out_def net_at_def signed_sz_def)
  then show ?thesis
    using unreported_plain [OF known(2)] by simp
qed

lemma unreported_step:
  assumes ty: "som_typed s" and i: "in_typed s m" and d: "s_db s \<noteq> None"
    and q: "0 \<le> t" "t < 13" "0 \<le> sy" "sy < int (length (s_assets s))" and st: "som_step visit s m = Inr s'"
  shows "unreported s' sy t = unreported s sy t + restored sy t [m]"
proof (cases m)
  case (InPositionResponse sy' t' p)
  show ?thesis
  proof (cases "p = 0")
    case False
    then have "add_pos s t' sy' \<lparr>trade_type = (if p > 0 then BUY else SEL), trade_price = 0, pe_sz = \<bar>p\<bar>\<rparr> = Inr s'"
      using st InPositionResponse by (auto simp: som_step_def position_response_handler_def)
    from net_at_add [OF ty _ _ _ _ _ q this] show ?thesis
      using i InPositionResponse False by (auto simp: in_typed_def trade_ok_def unreported_def signed_sz_def)
  qed (use st InPositionResponse in \<open>simp add: som_step_def position_response_handler_def\<close>)
next
  case (InFill f)
  then show ?thesis
    using unreported_fill [OF ty _ d q] i st by (simp add: som_step_def)
next
  case (InOrder x)
  then show ?thesis
    using unreported_order st by (simp add: som_step_def)
next
  case (InExitPos v)
  then obtain s1 a where "cancel_each (visit (s_orders s)) s = Inr s1" "s' = (emit [Send a (ExitPos v)] s1)\<lparr>s_stopped := True\<rparr>"
    using st by (auto simp: som_step_def exit_handler_def cancel_all_orders_def)
  then show ?thesis
    using unreported_plain [OF ensuresD [OF plain_cancel_each [OF plain_refl [of s]]]] InExitPos
    by (simp add: unreported_def net_at_def)
next
  case InStop
  then have "plain (s\<lparr>s_stopped := True\<rparr>) s'"
    using st ensuresD [OF plain_cancel_each [OF plain_refl]] by (simp add: som_step_def stop_trading_handler_def cancel_all_orders_def)
  then show ?thesis
    using InStop unreported_plain by (fastforce simp: unreported_def net_at_def)
next
  case (InGet w kv ti)
  have "read_limits s = Inr s1 \<Longrightarrow> plain s s1" for s1
    using read_limits_result [of s s1] by (metis plain_refl plain_upd(17,18))
  moreover have "cancel_all_orders visit s = Inr s1 \<Longrightarrow> plain s s1" for s1
    using ensuresD [OF plain_cancel_each [OF plain_refl [of s]]] by (simp add: cancel_all_orders_def)
  ultimately have "plain s s'"
    using InGet st by (auto simp: som_step_def get_handler_def split: if_splits option.splits intro!: plain_emit)
  then show ?thesis
    using InGet unreported_plain by simp
next
  case InStart
  then show ?thesis
    using st by (auto simp: som_step_def start_trading_handler_def unreported_def net_at_def)
next
  case (InGetPNL ow)
  then show ?thesis
    using st by (auto simp: som_step_def get_pnl_handler_def unreported_def net_at_def)
qed (use st in \<open>auto simp: som_step_def plain_upd fill_sub_handler_def shutdown_handler_def bbbochg_handler_def set_exch_manager_handler_def plain_start_handler unreported_def net_at_def
    dest!: ensuresD [OF plain_canc_handler] ensuresD [OF plain_canc_ack_handler] ensuresD [OF plain_canc_rej_handler]
      ensuresD [OF plain_ack_handler] ensuresD [OF plain_rej_handler] unreported_plain [unfolded unreported_def net_at_def]
    intro!: unreported_plain [unfolded unreported_def net_at_def] plain_start_handler\<close>)

lemma SOM_init_empty:
  assumes "SOM_init ven db cp cs books sim reset fillsub assets self = Inr s"
  shows "s_out s = []" "s_db s = db" "s_assets s = assets" "s_pos s = replicate 13 (replicate (length assets) Position_init)"
  using assms by (auto simp: SOM_init_def Let_def trader_num_syms_def elim!: read_limits_result)

text \<open>
  C18. The database knows every position. In every state the order manager can reach with a
  database attached, the position of any trader in any instrument, as the limits and the
  console read it, is the sum of the positions that the database gave back and of the changes
  that were reported to it. So a manager that is started again and fed these sums has the
  positions of this one.
\<close>

theorem som_positions_persisted:
  assumes "SOM_init ven (Some d) cp cs books sim reset fillsub assets self = Inr s0" "\<forall>a \<in> set assets. a \<noteq> None"
    and "visits visit" "som_reach visit s0 ms s"
    and "0 \<le> t" "t < 13" "0 \<le> sy" "sy < int (length assets)"
  shows "get_pos s sy t = Inr (restored sy t ms + reported sy t (s_out s))"
proof -
  note i = SOM_init_empty [OF assms(1)]
  have ty: "som_typed s0"
    using typed_init [OF assms(1,2)] .
  have "unreported s sy t = restored sy t ms"
    using assms(4)
  proof induction
    case som_start
    then show ?case
      using i assms(5-8) by (simp add: unreported_def net_at_def Position_init_def)
  next
    case (som_next ms s m s')
    have k: "kept s0 s"
      using som_reach_kept [OF som_next.hyps(1) ty assms(3)] .
    then have "unreported s' sy t = unreported s sy t + restored sy t [m]"
      using unreported_step [OF kept_typed [OF k] som_next.hyps(2) _ assms(5,6,7) _ som_next.hyps(3)] assms(8) i
      by (simp add: kept_def same_frame_def)
    then show ?case
      using som_next.IH by simp
  qed
  moreover have k: "kept s0 s"
    using som_reach_kept [OF assms(4) ty assms(3)] .
  moreover have "sy < int (length (s_assets s))"
    using k i assms(8) by (simp add: kept_def same_frame_def)
  ultimately show ?thesis
    using typed_position [OF kept_typed [OF k] assms(5,6,7)]
    by (simp add: get_pos_def position_of_def totalSize_net unreported_def net_at_def)
qed

lemma in_typed_frame: "same_frame s s' \<Longrightarrow> (\<And>v. m \<noteq> InExitPos v) \<Longrightarrow> in_typed s' m \<longleftrightarrow> in_typed s m"
  by (cases m) (auto simp: in_typed_def order_typed_def same_frame_def)

lemma som_run_reach:
  assumes "som_typed s0" "visits visit" "\<forall>m \<in> set ms. in_typed s0 m \<and> (\<forall>v. m \<noteq> InExitPos v)"
    and "som_reach visit s0 ms0 s" "som_run visit s ms = Inr s'"
  shows "som_reach visit s0 (ms0 @ ms) s'"
  using assms(3-5)
proof (induction ms arbitrary: ms0 s)
  case (Cons m ms)
  then obtain s1 where s1: "som_step visit s m = Inr s1" "som_run visit s1 ms = Inr s'"
    by auto
  have "same_frame s0 s"
    using som_reach_kept [OF Cons.prems(2) assms(1,2)] by (simp add: kept_def)
  then have "in_typed s m"
    using in_typed_frame Cons.prems(1) by fastforce
  then have "som_reach visit s0 (ms0 @ [m]) s1"
    using som_next [OF Cons.prems(2) _ s1(1)] by simp
  then show ?case
    using Cons.IH [OF _ _ s1(2), of "ms0 @ [m]"] Cons.prems(1) by simp
qed simp

lemma ex_som_typed: "som_typed (ex_som True)"
  by (rule typed_init [OF ex_som_init]) simp

theorem som_positions_persisted_witness:
  "\<exists>s. som_run (\<lambda>om. sorted_list_of_set (dom om)) (ex_som True)
         [InPositionResponse 0 3 (-2), InOrder (ex_order 3 BUY), InFill (ex_fill 18000000 3 0)] = Inr s
     \<and> get_pos s 0 3 = Inr (-2 + reported 0 3 (s_out s)) \<and> reported 0 3 (s_out s) = 3"
proof -
  define visit :: visiting where "visit = (\<lambda>om. sorted_list_of_set (dom om))"
  define ms where "ms = [InPositionResponse 0 3 (-2), InOrder (ex_order 3 BUY), InFill (ex_fill 18000000 3 0)]"
  have "case bnd (position_response_handler (ex_som True) 0 3 (-2)) (\<lambda>s. bnd (order_handler s (ex_order 3 BUY))
          (\<lambda>s. fill_handler s (ex_fill 18000000 3 0))) of Inr s \<Rightarrow> reported 0 3 (s_out s) = 3 | Inl _ \<Rightarrow> False"
    "order_typed (ex_som True) (ex_order 3 BUY)" "\<not> so_canced (ex_order 3 BUY)" "\<not> so_rejed (ex_order 3 BUY)"
    "length (s_assets (ex_som True)) = 2"
    by code_simp+
  note e = this
  have run: "som_run visit (ex_som True) ms = bnd (position_response_handler (ex_som True) 0 3 (-2)) (\<lambda>s. bnd (order_handler s (ex_order 3 BUY))
          (\<lambda>s. bnd (fill_handler s (ex_fill 18000000 3 0)) Inr))"
    by (simp add: ms_def som_step_def)
  have "bnd r Inr = r" for r :: "SOM res"
    by (cases r) simp_all
  then obtain s where s: "som_run visit (ex_som True) ms = Inr s" "reported 0 3 (s_out s) = 3"
    using e(1) unfolding run by (auto split: sum.splits)
  have "in_typed (ex_som True) m \<and> (\<forall>v. m \<noteq> InExitPos v)" if "m \<in> set ms" for m
    using that e(2-) by (auto simp: ms_def in_typed_def ex_fill_def)
  then have "som_reach visit (ex_som True) ([] @ ms) s"
    using som_run_reach [OF ex_som_typed _ _ som_start s(1)] visits_sorted by (simp add: visit_def)
  from som_positions_persisted [OF ex_som_init _ _ this, of 3 0] show ?thesis
    using s visits_sorted by (auto simp: visit_def ms_def)
qed

section \<open>Cancels\<close>

lemma sent_since_emit [simp]: "sent_since s (emit os s) = os" "sent_since s s = []"
  by (simp_all add: sent_since_def)

text \<open>
  What a trader's cancel leads to. An order the manager does not know is cancelled by no
  one, and no one is told: only the database hears of it. An order that is filled is answered
  with that reason, to the client that placed it. An order that still works is passed on once:
  in simulation to the book of its venue and instrument, under its own number and stamped with
  the time of the cancel itself; live to the manager of its exchange, if there is one. No order
  is forgotten by it.
\<close>

theorem som_cancel_outcome:
  assumes ty: "som_typed s" and al: "s_allow_unacked s" and st: "canc_handler s i ts = Inr s'"
  shows "s_orders s' = s_orders s \<and>
    (case s_orders s i of
       None \<Rightarrow> sent_since s s' = db_out s (SOMAction SC_IREJ i 0 0 0 BS_UNI 0 None)
     | Some ord \<Rightarrow>
         if so_filled ord
         then \<exists>c. so_sender ord = Some c \<and>
           sent_since s s' = Send c (CancReject i CR_FILLEDALREADY 99) # db_out s (SOMAction SC_IREJ i 0 0 0 BS_UNI 0 None)
         else if s_sim s
         then \<exists>b p. book_of s (so_venue ord) (so_sym ord) = Inr (Some b) \<and> sent_since s s' = [Send b (BookData p)]
           \<and> p_ts0 p = ts \<and> p_order_ref p = longid x_SIM i \<and> p_action p = CANCD \<and> p_mev p = MOD \<and> p_px p = so_px ord
           \<and> p_is_valid p = Inr ()
         else (case nth_res (s_managers s) (uint (so_venue ord)) of
                 Inr (Some a) \<Rightarrow> sent_since s s' = Send a (CancelOrder i ts (longid (so_venue ord) i)) # db_out s (SOMAction SC_CAN i 0 0 0 BS_UNI 0 None)
               | _ \<Rightarrow> sent_since s s' = []))"
proof (cases "s_orders s i")
  case None
  then show ?thesis
    using st by (auto simp: canc_handler_def internal_reject_def Let_def db_emit)
next
  case (Some ord)
  have o: "\<not> so_canced ord" "\<not> so_rejed ord"
    using stored_typed [OF ty Some] by (auto simp: stored_ok_def)
  show ?thesis
  proof (cases "so_filled ord")
    case True
    then show ?thesis
      using st Some by (auto simp: canc_handler_def internal_reject_def Let_def db_emit to_client_def canc_reject_def deref_def
          db_out_def sent_since_def split: option.splits)
  next
    case False
    then have c: "cancel_order s i ord ts = Inr s'"
      using st Some o al by (simp add: canc_handler_def internal_reject_def Let_def)
    show ?thesis
    proof (cases "s_sim s")
      case True
      then show ?thesis
        using c Some False o
        by (auto simp: cancel_order_def Let_def send_book_def deref_def sent_since_def sim_cancel_payload_def price_of_def book_of_def
            split: option.splits)
    next
      case live: False
      then obtain om where "nth_res (s_managers s) (uint (so_venue ord)) = Inr om"
        using c False o by (auto simp: cancel_order_def Let_def)
      then show ?thesis
        using c Some False o live by (cases om) (auto simp: cancel_order_def Let_def db_emit sent_since_def db_out_def)
    qed
  qed
qed

theorem som_cancel_outcome_witness:
  "case canc_handler (ex_run [InOrder (ex_order 3 BUY)]) 18000000 88 of
     Inr s' \<Rightarrow> (\<exists>b p. sent_since (ex_run [InOrder (ex_order 3 BUY)]) s' = [Send b (BookData p)] \<and> p_ts0 p = 88)
   | Inl _ \<Rightarrow> False"
proof -
  define s where "s = ex_run [InOrder (ex_order 3 BUY)]"
  have h: "returns (order_handler (ex_som True) (ex_order 3 BUY))" "order_typed (ex_som True) (ex_order 3 BUY)"
    "\<not> so_canced (ex_order 3 BUY)" "\<not> so_rejed (ex_order 3 BUY)"
    "s_allow_unacked s" "s_sim s" "returns (canc_handler s 18000000 88)"
    "case s_orders s 18000000 of Some ord \<Rightarrow> \<not> so_filled ord | None \<Rightarrow> False"
    unfolding s_def by code_simp+
  then have "order_handler (ex_som True) (ex_order 3 BUY) = Inr s"
    by (auto simp: s_def ex_run_def som_step_def returns_iff)
  then have ty: "som_typed s"
    using typed_resD [OF typed_order_handler [OF ex_som_typed h(2-4)]] kept_typed by blast
  obtain s' where s': "canc_handler s 18000000 88 = Inr s'"
    using h(7) by (auto simp: returns_iff)
  from som_cancel_outcome [OF ty h(5) s'] show ?thesis
    unfolding s_def [symmetric] using s' h(6,8) by (auto split: option.splits)
qed

section \<open>Numbers\<close>

lemma dom_internal_reject: "internal_reject s i = Inr (s', r) \<Longrightarrow> dom (s_orders s) \<subseteq> dom (s_orders s')"
  by (auto simp: internal_reject_def Let_def to_client_def db_emit split: option.splits if_splits)

lemma dom_cancel_order: "cancel_order s i ord ts = Inr s' \<Longrightarrow> s_orders s' = s_orders s"
  by (auto simp: cancel_order_def Let_def to_client_def db_emit send_book_def split: option.splits if_splits)

lemma dom_replace_order: "replace_order s m = Inr (s', m') \<Longrightarrow> dom (s_orders s) \<subseteq> dom (s_orders s')"
  by (auto simp: replace_order_def replace_refused_def replace_cancel_def split: if_splits option.splits
      dest!: dom_internal_reject dom_cancel_order) blast+

lemma dom_place_order: "place_order s m = Inr s' \<Longrightarrow> dom (s_orders s) \<subseteq> dom (s_orders s')"
  by (auto simp: place_order_def to_client_def send_book_def Let_def split: if_splits option.splits)

text \<open>An order without a number is acknowledged under the current one first, and filed under it.\<close>

lemma accept_order_numbers:
  assumes "accept_order s m = Inr s'" "so_oid m < 0"
  shows "\<exists>os. s_out s' = s_out s @ Reply (Ack (s_curr_id s)) # os" "s_curr_id s \<in> dom (s_orders s')"
proof -
  let ?m = "m\<lparr>so_oid := sint (s_curr_id s)\<rparr>"
  define s3 where "s3 = (emit [Reply (Ack (s_curr_id s))] (s\<lparr>s_orders := (s_orders s)(s_curr_id s \<mapsto> ?m), s_curr_id := s_curr_id s + 1\<rparr>))
      \<lparr>s_add_ts := (s_add_ts s)(sint (s_curr_id s) \<mapsto> 0)\<rparr>"
  obtain s4 s5 m2 where st: "log_new s3 ?m = Inr s4" "replace_order s4 ?m = Inr (s5, m2)" "place_order s5 m2 = Inr s'"
    using assms by (auto simp: accept_order_def assign_id_def Let_def s3_def emit_def)
  have p: "plain s3 s4" "plain s4 s5"
    using ensuresD [OF plain_log_new st(1)] ensuresD [OF plain_replace_order st(2)] by simp_all
  have o: "s_out s3 = s_out s @ [Reply (Ack (s_curr_id s))]" "s_curr_id s \<in> dom (s_orders s3)"
    by (simp_all add: s3_def)
  show "\<exists>os. s_out s' = s_out s @ Reply (Ack (s_curr_id s)) # os"
    using p o(1) place_order_result [OF st(3)] by (auto simp: plain_def)
  have "s_orders s4 = s_orders s3"
    using st(1) by (auto simp: log_new_def db_emit split: if_splits)
  then show "s_curr_id s \<in> dom (s_orders s')"
    using o(2) dom_replace_order [OF st(2)] dom_place_order [OF st(3)] by auto
qed

text \<open>
  The number of an order refused for its limits is given out again. The refusal
  acknowledges the order under the current number and rejects it under that number, but does
  not use the number up: the next order that is accepted is acknowledged under the same number
  and is filed and worked under it. The first client then holds, for an order that is dead, the
  number of a live one.
\<close>

theorem som_refused_number_reused:
  assumes r: "check_limits s m = Inr True" "so_sender m = Some c" "0 < so_sz m" "so_sz m < of_int CHOPIN_MAX_ORD_SZ"
    and a: "check_limits s m2 = Inr False" "so_oid m2 < 0"
    and st: "order_handler s m = Inr s1" "order_handler s1 m2 = Inr s2"
  shows "sent_since s s1 = [Reply (Ack (s_curr_id s)), Send c (Reject (s_curr_id s) RJ_OVERLIMIT)]
    \<and> (\<exists>os. sent_since s1 s2 = Reply (Ack (s_curr_id s)) # os) \<and> s_curr_id s \<in> dom (s_orders s2)"
proof -
  have s1: "s1 = emit [Send c (Reject (s_curr_id s) RJ_OVERLIMIT)] (emit [Reply (Ack (s_curr_id s))] s)"
    using st(1) r by (simp add: order_handler_def to_client_def deref_def)
  have "order_over_limit s1 m2 = order_over_limit s m2" "asset_ref s1 (so_sym m2) = asset_ref s (so_sym m2)"
    by (simp_all add: s1 asset_ref_def som_asset_of_def order_over_limit_def get_pos_def position_of_def)
  then have "check_limits s1 m2 = check_limits s m2"
    by (simp only: check_limits_def)
  then have "accept_order s1 m2 = Inr s2"
    using st(2) a(1) by (auto simp: order_handler_def)
  from accept_order_numbers [OF this a(2)] show ?thesis
    by (auto simp: s1 sent_since_def)
qed

theorem som_refused_number_reused_witness:
  "case order_handler (ex_som True) (ex_order 6 BUY) of
     Inr s1 \<Rightarrow> (case order_handler s1 (ex_order 2 BUY) of
        Inr s2 \<Rightarrow> sent_since (ex_som True) s1 = [Reply (Ack 18000000), Send 9 (Reject 18000000 RJ_OVERLIMIT)]
          \<and> hd (sent_since s1 s2) = Reply (Ack 18000000) \<and> 18000000 \<in> dom (s_orders s2)
      | Inl _ \<Rightarrow> False)
   | Inl _ \<Rightarrow> False"
proof -
  have h: "check_limits (ex_som True) (ex_order 6 BUY) = Inr True" "so_sender (ex_order 6 BUY) = Some 9"
    "0 < so_sz (ex_order 6 BUY)" "so_sz (ex_order 6 BUY) < of_int CHOPIN_MAX_ORD_SZ"
    "check_limits (ex_som True) (ex_order 2 BUY) = Inr False" "so_oid (ex_order 2 BUY) < 0"
    "returns (order_handler (ex_som True) (ex_order 6 BUY))"
    "returns (bnd (order_handler (ex_som True) (ex_order 6 BUY)) (\<lambda>s1. order_handler s1 (ex_order 2 BUY)))"
    "s_curr_id (ex_som True) = 18000000"
    by code_simp+
  then obtain s1 s2 where "order_handler (ex_som True) (ex_order 6 BUY) = Inr s1" "order_handler s1 (ex_order 2 BUY) = Inr s2"
    by (auto simp: returns_iff)
  with som_refused_number_reused [OF h(1-6) this] h(9) show ?thesis
    by auto
qed

text \<open>
  An acknowledgement that comes after the order was cancelled or rejected aborts the program,
  because both erase the order: the branch of \<open>ack_handler\<close> for an order that has its cancel
  acknowledged already is never reached.
\<close>

lemma late_ack_aborts:
  "canc_ack_handler s i fs sz = Inr s1 \<Longrightarrow> sz \<le> 0 \<Longrightarrow> ack_handler s1 i = Inl (Assert ''must be found'')"
  "rej_handler s i r = Inr s2 \<Longrightarrow> ack_handler s2 i = Inl (Assert ''must be found'')"
  by (auto simp: ack_handler_def canc_ack_handler_def rej_handler_def Let_def db_orders split: option.splits if_splits)

text \<open>
  An order that is refused because trading is stopped is told the reason \<open>OVERLIMIT\<close>, and
  stays in the map as one that works, so that the next stop cancels it.
\<close>

lemma stopped_order_kept:
  "case som_run (\<lambda>_. []) (ex_som True) [InStop, InOrder (ex_order 3 BUY)] of
     Inr s \<Rightarrow> working s 18000000 \<and> List.last (s_out s) = Send 9 (Reject 18000000 RJ_OVERLIMIT)
   | Inl _ \<Rightarrow> False"
  by code_simp

text \<open>
  The position limit looks at the position alone, not at the orders that work: three orders of
  5, each within the limit of 10, can all be filled.
\<close>

lemma working_orders_not_counted:
  "case som_run (\<lambda>_. []) (ex_som True) [InOrder (ex_order 5 BUY), InOrder (ex_order 5 BUY), InOrder (ex_order 5 BUY),
      InFill (ex_fill 18000000 5 0), InFill (ex_fill 18000001 5 0), InFill (ex_fill 18000002 5 0)] of
     Inr s \<Rightarrow> get_pos s 0 3 = Inr 15 \<and> s_pos_limit s ! 0 = 10
   | Inl _ \<Rightarrow> False"
  by code_simp

section \<open>Messages to a book\<close>

text \<open>\<open>own_order p\<close>: an order or a cancel of one of our traders, fit for a simulated book.\<close>

definition own_order :: "payload \<Rightarrow> bool" where
  "own_order p \<longleftrightarrow> p_is_valid p = Inr () \<and> p_is_sim p \<and> (p_mev p = ADD \<or> p_mev p = MOD \<and> p_action p = CANCD)"

text \<open>\<open>fits t s s'\<close>: every message sent to a book since is one, stamped with the time \<open>t\<close>.\<close>

fun fit :: "u64 \<Rightarrow> som_out \<Rightarrow> bool" where
  "fit t (Send _ (BookData p)) = (own_order p \<and> p_ts0 p = t)"
| "fit t _ = True"

definition fits :: "u64 \<Rightarrow> SOM \<Rightarrow> SOM \<Rightarrow> bool" where
  "fits t s s' \<longleftrightarrow> (\<exists>os. s_out s' = s_out s @ os \<and> list_all (fit t) os)"

lemma fits_refl: "s_out s' = s_out s \<Longrightarrow> fits t s s'"
  by (simp add: fits_def)

lemma fits_trans: "fits t s s1 \<Longrightarrow> fits t s1 s2 \<Longrightarrow> fits t s s2"
  by (fastforce simp: fits_def)

lemma fits_emit: "fits t s s' \<Longrightarrow> list_all (fit t) os \<Longrightarrow> fits t s (emit os s')"
  by (fastforce simp: fits_def)

lemma fits_db: "fits t s s' \<Longrightarrow> fit t (Send 0 m) \<Longrightarrow> fits t s (to_db m s')" "fits t s s' \<Longrightarrow> fits t s (db_action c i n s')"
  by (auto simp: db_emit db_out_def intro!: fits_emit split: option.splits) (cases m; simp)

lemma fits_upd:
  "fits t s (s'\<lparr>s_orders := om\<rparr>) \<longleftrightarrow> fits t s s'" "fits t s (s'\<lparr>s_num_canc := xs\<rparr>) \<longleftrightarrow> fits t s s'"
  "fits t s (s'\<lparr>s_num_ords := xs\<rparr>) \<longleftrightarrow> fits t s s'" "fits t s (s'\<lparr>s_num_cr := xs\<rparr>) \<longleftrightarrow> fits t s s'"
  "fits t s (s'\<lparr>s_num_icnrej := xs\<rparr>) \<longleftrightarrow> fits t s s'" "fits t s (s'\<lparr>s_num_xorej := xs\<rparr>) \<longleftrightarrow> fits t s s'"
  "fits t s (s'\<lparr>s_num_fills := xs\<rparr>) \<longleftrightarrow> fits t s s'" "fits t s (s'\<lparr>s_fill_volume := xs\<rparr>) \<longleftrightarrow> fits t s s'"
  "fits t s (s'\<lparr>s_num_xcnrej := n\<rparr>) \<longleftrightarrow> fits t s s'" "fits t s (s'\<lparr>s_curr_id := i\<rparr>) \<longleftrightarrow> fits t s s'"
  "fits t s (s'\<lparr>s_add_ts := ts\<rparr>) \<longleftrightarrow> fits t s s'" "fits t s (s'\<lparr>s_stopped := b\<rparr>) \<longleftrightarrow> fits t s s'" "fits t s (s'\<lparr>s_pos := ps\<rparr>) \<longleftrightarrow> fits t s s'"
  by (simp_all add: fits_def)

lemma fits_client:
  assumes "fits t s s'" "\<And>c x. m = Inr x \<Longrightarrow> fit t (Send c x)"
  shows "ensures (fits t s) (to_client client m s')"
  unfolding to_client_def using assms by (intro ensures_bnd) (auto intro: fits_emit simp: deref_def split: option.splits)

lemma fits_canc_reject: "fits t s s' \<Longrightarrow> ensures (fits t s) (to_client client (canc_reject i r st) s')"
  by (rule fits_client) (auto simp: canc_reject_def)

lemma fits_send_book: "fits t s s' \<Longrightarrow> (p_is_valid p = Inr () \<Longrightarrow> own_order p \<and> p_ts0 p = t) \<Longrightarrow> ensures (fits t s) (send_book bk p s')"
  unfolding send_book_def by (intro ensures_chk ensures_bnd) (auto intro: fits_emit)

lemma own_order_payloads:
  "p_is_valid (sim_cancel_payload ord i ts px sz) = Inr () \<Longrightarrow> own_order (sim_cancel_payload ord i ts px sz) \<and> p_ts0 (sim_cancel_payload ord i ts px sz) = ts"
  "p_is_valid (sim_order_payload m px sz) = Inr () \<Longrightarrow> own_order (sim_order_payload m px sz) \<and> p_ts0 (sim_order_payload m px sz) = so_ts m"
  by (simp_all add: own_order_def sim_cancel_payload_def sim_order_payload_def p_is_sim_def)

lemma fits_cancel_order: "fits t s s' \<Longrightarrow> ensures (fits t s) (cancel_order s' i ord t)"
  unfolding cancel_order_def Let_def
  by (auto intro!: ensures_bnd ensures_chk fits_canc_reject fits_send_book own_order_payloads fits_emit fits_db
      simp: fits_upd split: option.splits)

lemma fits_cancelD: "cancel_order s' i ord t = Inr s2 \<Longrightarrow> fits t s s' \<Longrightarrow> fits t s s2"
  using fits_cancel_order ensuresD by metis

lemma fits_internal_reject: "fits t s s' \<Longrightarrow> ensures (\<lambda>(s2, _). fits t s s2) (internal_reject s' i)"
  unfolding internal_reject_def Let_def
  by (auto simp: fits_upd fits_db split: option.splits intro!: ensures_seq [OF fits_canc_reject])

lemma fits_canc_handler: "ensures (fits t s) (canc_handler s i t)"
  unfolding canc_handler_def
  by (rule ensures_seq [OF fits_internal_reject [OF fits_refl]]) (auto split: option.splits intro: fits_cancel_order)

lemma fits_cancel_each: "fits 0 s s' \<Longrightarrow> ensures (fits 0 s) (cancel_each ks s')"
  by (induction ks arbitrary: s') (auto intro!: ensures_bnd, metis fits_cancelD)

lemma fits_replace_cancel: "fits (so_ts m) s s1 \<Longrightarrow> ensures (\<lambda>(s2, m'). fits (so_ts m) s s2 \<and> so_ts m' = so_ts m) (replace_cancel s1 m ord)"
  unfolding replace_cancel_def
  by (auto intro!: ensures_bnd simp: fits_upd dest!: fits_cancelD [where s = s])

lemma fits_replace_order:
  assumes "fits (so_ts m) s s'"
  shows "ensures (\<lambda>(s2, m'). fits (so_ts m) s s2 \<and> so_ts m' = so_ts m) (replace_order s' m)"
proof -
  have "ensures (\<lambda>(s2, m'). fits (so_ts m) s s2 \<and> so_ts m' = so_ts m) (bnd (internal_reject s' (so_oid_to_cancel m)) (\<lambda>(s1, r).
          case r of None \<Rightarrow> replace_refused s1 m | Some ord \<Rightarrow> replace_cancel s1 m ord))"
    by (rule ensures_seq [OF fits_internal_reject [OF assms]])
       (auto split: option.splits intro!: fits_replace_cancel ensures_bnd simp: replace_refused_def fits_upd)
  then show ?thesis
    using assms by (auto simp: replace_order_def fits_upd intro!: ensures_bnd [where r = "upd_at _ _ _"])
qed

lemma fits_place_order: "so_ts m = t \<Longrightarrow> fits t s s' \<Longrightarrow> ensures (fits t s) (place_order s' m)"
  unfolding place_order_def Let_def
  by (auto intro!: ensures_bnd ensures_chk fits_client fits_send_book own_order_payloads fits_emit simp: fits_upd split: option.splits)

lemma fits_accept_order: "ensures (fits (so_ts m) s) (accept_order s m)"
proof -
  obtain s1 m1 where a: "assign_id s m = (s1, m1)"
    by fastforce
  define s3 where "s3 = (emit [Reply (Ack (word_of_int (so_oid m1)))] s1)\<lparr>s_add_ts := (s_add_ts (emit [Reply (Ack (word_of_int (so_oid m1)))] s1))(so_oid m1 \<mapsto> 0)\<rparr>"
  have "fits (so_ts m) s s1" and ts: "so_ts m1 = so_ts m"
    using a by (auto simp: assign_id_def Let_def fits_upd fits_refl split: if_splits)
  then have s3: "fits (so_ts m1) s s3"
    by (simp add: s3_def fits_upd fits_emit)
  have "ensures (fits (so_ts m1) s) (log_new s3 m1)"
    using s3 by (auto simp: log_new_def fits_db intro!: ensures_bnd)
  then have "ensures (fits (so_ts m1) s) (bnd (log_new s3 m1) (\<lambda>s4. bnd (replace_order s4 m1) (\<lambda>(s5, m2). place_order s5 m2)))"
    by (rule ensures_seq) (auto intro!: ensures_seq [OF fits_replace_order] fits_place_order)
  then show ?thesis
    unfolding accept_order_def a prod.case Let_def s3_def ts .
qed

lemma fits_order_handler: "ensures (fits (so_ts m) s) (order_handler s m)"
proof -
  have "ensures (fits (so_ts m) s) (to_client (so_sender m) (Inr (Reject (s_curr_id s) RJ_OVERLIMIT)) (emit [Reply (Ack (s_curr_id s))] s))"
    by (rule fits_client [OF fits_emit [OF fits_refl]]) auto
  then show ?thesis
    unfolding order_handler_def using fits_accept_order [of m s] by (intro ensures_chk ensures_bnd) simp
qed

lemma fits_answers:
  "ensures (fits 0 s) (ack_handler s i)" "ensures (fits 0 s) (rej_handler s i r)" "ensures (fits 0 s) (canc_ack_handler s i fs sz)"
  "ensures (fits 0 s) (canc_rej_handler s i cr st)"
proof -
  have d: "fits 0 s (db_action c j n (s\<lparr>s_orders := om\<rparr>))" "fits 0 s (db_action c j n s)" for c j n om
    by (simp_all add: fits_db fits_upd fits_refl)
  show "ensures (fits 0 s) (ack_handler s i)"
    by (auto simp: ack_handler_def Let_def d split: option.splits intro!: ensures_chk fits_cancel_order)
  show "ensures (fits 0 s) (rej_handler s i r)"
    unfolding rej_handler_def Let_def
    by (auto simp: fits_upd d split: option.splits intro!: ensures_bnd)
       (auto simp: fits_upd d dest!: ensuresD [OF fits_client, rotated 2])
  show "ensures (fits 0 s) (canc_ack_handler s i fs sz)"
    unfolding canc_ack_handler_def Let_def
    by (auto simp: fits_upd d split: option.splits intro!: ensures_bnd)
       (auto simp: fits_upd d dest!: ensuresD [OF fits_client, rotated 2])
  show "ensures (fits 0 s) (canc_rej_handler s i cr st)"
    unfolding canc_rej_handler_def Let_def
    by (auto simp: fits_upd d split: option.splits intro!: ensures_bnd fits_canc_reject)
qed

lemma fits_fill_handler: "ensures (fits 0 s) (fill_handler s f)"
proof (rule ensuresI)
  fix s' assume "fill_handler s f = Inr s'"
  then obtain s1 s2 where st: "log_fill s f = Inr s1" "count_fill s1 f = Inr s2"
    and r: "(case s_orders s2 (f_id f) of None \<Rightarrow> Inr s2 | Some ord \<Rightarrow> apply_fill s2 f ord) = Inr s'"
    by (auto simp: fill_handler_def)
  have "fits 0 s s1"
    using st(1) by (auto simp: log_fill_def fits_db fits_refl split: if_splits)
  then have p: "fits 0 s s2"
    using st(2) by (auto simp: count_fill_def fits_upd)
  show "fits 0 s s'"
  proof (cases "s_orders s2 (f_id f)")
    case (Some ord)
    then obtain s3 where s3: "fill_order s2 f ord = Inr s3" "fill_position s3 f = Inr s'"
      using r by (auto simp: apply_fill_def split: if_splits)
    then have "fits 0 s s3"
      using p by (auto simp: fill_order_def Let_def to_client_def fits_upd list_all_iff intro!: fits_emit)
    then show ?thesis
      using s3(2) by (auto simp: fill_position_def add_pos_def fits_upd fits_db split: if_splits)
  qed (use r p in simp)
qed

text \<open>The time a message gives its orders to a book: its own, or none.\<close>

definition stamp_of :: "som_in \<Rightarrow> u64" where
  "stamp_of m = (case m of InOrder x \<Rightarrow> so_ts x | InCancel _ ts \<Rightarrow> ts | _ \<Rightarrow> 0)"

lemma fits_step:
  assumes st: "som_step visit s m = Inr s'"
  shows "fits (stamp_of m) s s'"
proof (cases m)
  case (InExitPos v)
  then obtain s1 a where "cancel_each (visit (s_orders s)) s = Inr s1" "s' = (emit [Send a (ExitPos v)] s1)\<lparr>s_stopped := True\<rparr>"
    using st by (auto simp: som_step_def exit_handler_def cancel_all_orders_def)
  then show ?thesis
    using ensuresD [OF fits_cancel_each [OF fits_refl [where s = s, OF refl]]] InExitPos by (simp add: stamp_of_def fits_upd fits_emit)
next
  case InStop
  then have "fits 0 (s\<lparr>s_stopped := True\<rparr>) s'"
    using st ensuresD [OF fits_cancel_each [OF fits_refl [OF refl]]] by (simp add: som_step_def stop_trading_handler_def cancel_all_orders_def)
  then show ?thesis
    using InStop by (simp add: fits_def stamp_of_def)
next
  case (InGet w kv ti)
  have "read_limits s = Inr s1 \<Longrightarrow> fits 0 s s1" for s1
    using read_limits_result [of s s1] by (metis fits_refl SOM.select_convs(30) SOM.update_convs(13) SOM.update_convs(14) SOM.surjective)
  moreover have "cancel_all_orders visit s = Inr s1 \<Longrightarrow> fits 0 s s1" for s1
    using ensuresD [OF fits_cancel_each [OF fits_refl [where s = s, OF refl]]] by (simp add: cancel_all_orders_def)
  ultimately have "fits 0 s s'"
    using InGet st by (auto simp: som_step_def get_handler_def split: if_splits option.splits intro!: fits_emit intro: fits_refl)
  then show ?thesis
    using InGet by (simp add: stamp_of_def)
next
  case InActorStart
  have "fits 0 s s1 \<Longrightarrow> \<forall>x \<in> set ms. fit 0 (Send 0 x) \<Longrightarrow> fits 0 s (fold to_db ms s1)" for ms s1
    by (induction ms arbitrary: s1) (auto intro: fits_db)
  then have "fits 0 s (start_handler s)"
    unfolding start_handler_def Let_def
    by (intro fits_emit) (auto simp: fits_db fits_refl list_all_iff split: option.splits)
  then show ?thesis
    using InActorStart st by (simp add: som_step_def stamp_of_def)
qed (use st in \<open>auto simp: som_step_def stamp_of_def fits_refl fill_sub_handler_def shutdown_handler_def start_trading_handler_def
    bbbochg_handler_def get_pnl_handler_def set_exch_manager_handler_def position_response_handler_def add_pos_def fits_upd
    split: if_splits intro!: fits_emit [OF fits_refl]
    dest!: ensuresD [OF fits_order_handler] ensuresD [OF fits_canc_handler] ensuresD [OF fits_answers(1)] ensuresD [OF fits_answers(2)]
      ensuresD [OF fits_answers(3)] ensuresD [OF fits_answers(4)] ensuresD [OF fits_fill_handler]\<close>)

lemma fits_sent:
  assumes "fits t s s'" "Send b (BookData p) \<in> set (sent_since s s')"
  shows "own_order p \<and> p_ts0 p = t"
proof -
  have "fit t (Send b (BookData p))"
    using assms unfolding fits_def sent_since_def list_all_iff by force
  then show ?thesis
    by simp
qed

end
