(* ===== verification/OB_Frame.thy ===== *)
theory OB_Frame
  imports OB_Book
begin

text \<open>
  What the operations of the book leave alone: the configuration, the subscribers, the
  clocks, and the messages already sent or waiting. \<open>book_frame b b'\<close> is a preorder on books
  that every operation respects; whatever is new among the messages is one the book
  itself makes (a fill, an acknowledgement, a change of the inside, a clear).
\<close>

fun book_msg :: "ob_msg \<Rightarrow> bool" where
  "book_msg (Ret _) = True"
| "book_msg (CancReject_NOTFOUND _) = True"
| "book_msg (BBBOChg _ _ _ _ _ _) = True"
| "book_msg (ClearMsg _) = True"
| "book_msg _ = False"

definition msgs :: "Book \<Rightarrow> ob_msg set" where
  "msgs b = snd ` set (sent b) \<union> (snd \<circ> snd) ` set (pub_q b)"

definition cfg :: "Book \<Rightarrow> Book" where
  "cfg b = b\<lparr>bidqs := [], askqs := [], best_bid := 0, best_ask := 0, last_bbo_notify_tim := 0, pub_q := [], sent := [],
             num_cross_recover := 0, next_addr := 0\<rparr>"

definition book_frame :: "Book \<Rightarrow> Book \<Rightarrow> bool" where
  "book_frame b b' \<longleftrightarrow> cfg b' = cfg b \<and> (\<forall>m\<in>msgs b'. m \<in> msgs b \<or> book_msg m)"

lemma book_frame_refl [simp]: "book_frame b b"
  by (simp add: book_frame_def)

lemma book_frame_trans: "book_frame a b \<Longrightarrow> book_frame b c \<Longrightarrow> book_frame a c"
  unfolding book_frame_def by fastforce

lemma cfg_sel:
  assumes "cfg b' = cfg b"
  shows "delay b' = delay b" "cancel_delay b' = cancel_delay b" "feed_delay b' = feed_delay b"
    "do_cross_check b' = do_cross_check b" "sym b' = sym b" "maxprice b' = maxprice b" "asset_maxpx b' = asset_maxpx b"
    "bbbosubs b' = bbbosubs b" "hiprio_datasubs b' = hiprio_datasubs b" "lowprio_datasubs b' = lowprio_datasubs b"
    "currtim b' = currtim b" "last_processed_ts b' = last_processed_ts b"
  using assms by (cases b, cases b', simp add: cfg_def)+

lemma book_frame_cfg: "book_frame b b' \<Longrightarrow> cfg b' = cfg b"
  by (simp add: book_frame_def)

lemmas book_frame_sel = cfg_sel [OF book_frame_cfg]

lemma msgs_publish_delayed [simp]: "msgs (publish_delayed b c m now) = insert m (msgs b)"
  by (auto simp: msgs_def publish_delayed_def)

lemma cfg_publish_delayed [simp]: "cfg (publish_delayed b c m now) = cfg b"
  by (simp add: publish_delayed_def cfg_def)

lemma msgs_publish_fold: "msgs (foldl (\<lambda>b c. publish_delayed b c m now) b cs) = (if cs = [] then msgs b else insert m (msgs b))"
  by (induction cs arbitrary: b) auto

lemma cfg_publish_fold [simp]: "cfg (foldl (\<lambda>b c. publish_delayed b c m now) b cs) = cfg b"
  by (induction cs arbitrary: b) auto

lemma msgs_updates [simp]:
  "msgs (set_lvl b side i q) = msgs b" "msgs (b\<lparr>best_bid := x\<rparr>) = msgs b" "msgs (b\<lparr>best_ask := x\<rparr>) = msgs b"
  "msgs (b\<lparr>next_addr := n\<rparr>) = msgs b" "msgs (b\<lparr>num_cross_recover := k\<rparr>) = msgs b"
  "msgs (b\<lparr>last_bbo_notify_tim := t\<rparr>) = msgs b" "msgs (b\<lparr>last_processed_ts := t\<rparr>) = msgs b" "msgs (b\<lparr>currtim := t\<rparr>) = msgs b"
  by (simp_all add: msgs_def set_lvl_def)

lemma cfg_updates [simp]:
  "cfg (set_lvl b side i q) = cfg b" "cfg (b\<lparr>best_bid := x\<rparr>) = cfg b" "cfg (b\<lparr>best_ask := x\<rparr>) = cfg b"
  "cfg (b\<lparr>next_addr := n\<rparr>) = cfg b" "cfg (b\<lparr>num_cross_recover := k\<rparr>) = cfg b"
  "cfg (b\<lparr>last_bbo_notify_tim := t\<rparr>) = cfg b" "cfg (b\<lparr>sent := l\<rparr>) = cfg b" "cfg (b\<lparr>pub_q := pq\<rparr>) = cfg b"
  by (simp_all add: cfg_def set_lvl_def)

lemma frame_ret_path: "book_frame b (ret_path b out)"
proof (induction out arbitrary: b)
  case Nil
  then show ?case by (simp add: ret_path_def)
next
  case (Cons x out)
  obtain to m where x: "x = (to, m)"
    by (cases x)
  have "book_frame b (publish_delayed b to (Ret m) (last_processed_ts b))"
    by (simp add: book_frame_def)
  then show ?case
    using Cons book_frame_trans by (force simp: x ret_path_def)
qed

lemma frame_same: "cfg b' = cfg b \<Longrightarrow> msgs b' = msgs b \<Longrightarrow> book_frame b b'"
  by (simp add: book_frame_def)

lemma frame_ret_path_of: "cfg b1 = cfg b \<Longrightarrow> msgs b1 = msgs b \<Longrightarrow> book_frame b (ret_path b1 out)"
  using frame_same frame_ret_path book_frame_trans by blast

lemma frame_notify: "book_frame b (notifybbbosubs b txtim side v)"
proof -
  have "book_frame b (foldl (\<lambda>b c. publish_delayed b c (BBBOChg txtim v side (sym b) (best_bid b) (best_ask b)) txtim) b cs)"
    for b cs
  proof (induction cs arbitrary: b)
    case (Cons c cs)
    have "book_frame b (publish_delayed b c (BBBOChg txtim v side (sym b) (best_bid b) (best_ask b)) txtim)"
      by (simp add: book_frame_def)
    then show ?case
      using Cons book_frame_trans by force
  qed simp
  moreover have "book_frame b (b\<lparr>last_bbo_notify_tim := txtim\<rparr>)"
    by (rule frame_same) simp_all
  ultimately show ?thesis
    unfolding notifybbbosubs_def using book_frame_trans by (auto simp: Let_def)
qed

section \<open>The operations\<close>

lemma frame_ob_fill: "ob_fill b side lvl a sz px tim = Inr b' \<Longrightarrow> book_frame b b'"
  by (auto simp: ob_fill_def intro: frame_ret_path_of)

lemma frame_do_canc: "do_canc b side lvl a sz dispsz modtyp = Inr b' \<Longrightarrow> book_frame b b'"
  by (auto simp: do_canc_def intro: frame_ret_path_of)

lemma frame_stray_orders: "stray_orders b side lvl txtim as n = Inr (b', n') \<Longrightarrow> book_frame b b'"
proof (induction b side lvl txtim as n rule: stray_orders.induct)
  case (2 b side lvl txtim a as n)
  obtain q s where q: "lvl_at (qv b side) lvl = Inr q" "order_at q a = Some s"
    using "2.prems" by (auto split: option.splits)
  show ?case
  proof (cases "issim s \<and> o_side s = side")
    case True
    then obtain b1 where "ob_fill b side lvl a (o_sz s) lvl txtim = Inr b1" "stray_orders b1 side lvl txtim as n = Inr (b', n')"
      using "2.prems" q by auto
    then show ?thesis
      using "2.IH"(1) q True frame_ob_fill book_frame_trans by blast
  next
    case False
    note F = False
    show ?thesis
    proof (cases "\<not> do_cross_check b \<and> \<not> issim s \<and> o_side s = side")
      case True
      then obtain b1 where b1: "do_canc b side lvl a (o_sz s) 0 CANCD = Inr b1"
        "stray_orders (b1\<lparr>num_cross_recover := num_cross_recover b1 + 1\<rparr>) side lvl txtim as (n + 1) = Inr (b', n')"
        using "2.prems" q by auto
      have "book_frame b1 (b1\<lparr>num_cross_recover := num_cross_recover b1 + 1\<rparr>)"
        by (rule frame_same) simp_all
      then show ?thesis
        using "2.IH"(2) [OF q(2) F True b1(2)] frame_do_canc [OF b1(1)] book_frame_trans by blast
    next
      case False
      then show ?thesis
        using "2.IH"(3) [OF q(2) F False] "2.prems" q F by (auto split: if_splits)
    qed
  qed
qed simp

lemma frame_stray_level: "stray_level b side lvl txtim n = Inr (b', n') \<Longrightarrow> book_frame b b'"
  by (auto simp: stray_level_def dest: frame_stray_orders)

lemma frame_stray_up: "stray_up b px maxpx txtim tmp n = Inr (b', n') \<Longrightarrow> book_frame b b'"
proof (induction b px maxpx txtim tmp n rule: stray_up.induct)
  case (1 b px maxpx txtim tmp n)
  then show ?case
    by (auto simp: stray_up.simps [of b] split: if_splits dest: frame_stray_level intro: book_frame_trans)
qed

lemma frame_stray_down: "stray_down b px txtim tmp n = Inr (b', n') \<Longrightarrow> book_frame b b'"
proof (induction b px txtim tmp n rule: stray_down.induct)
  case (1 b px txtim tmp n)
  then show ?case
    by (auto simp: stray_down.simps [of b] split: if_splits dest: frame_stray_level intro: book_frame_trans)
qed

lemma frame_fill_stray: "fill_stray_sim_orders b side px maxpx txtim = Inr (b', n') \<Longrightarrow> book_frame b b'"
  by (auto simp: fill_stray_sim_orders_def Let_def split: if_splits dest: frame_stray_up frame_stray_down)

lemma frame_uncross:
  "uncross_buy b n = Inr (b', x, y) \<Longrightarrow> book_frame b b'"
  "uncross_sel b n = Inr (b', x, y) \<Longrightarrow> book_frame b b'"
  by (auto simp: uncross_buy_def uncross_sel_def Let_def split: if_splits intro: frame_same)

lemma frame_bo_change:
  assumes "check_for_bo_change b side px txtim n venue = Inr b'"
  shows "book_frame b b'"
proof -
  have st: "book_frame b (if c then b\<lparr>best_bid := x\<rparr> else b)" "book_frame b (if c then b\<lparr>best_ask := x\<rparr> else b)" for c x
    by (auto intro: frame_same)
  obtain b1 b2 x y where "book_frame b b1" "uncross_buy b1 n = Inr (b2, x, y) \<or> uncross_sel b1 n = Inr (b2, x, y)"
    and b': "b' = b2 \<or> (\<exists>sd. b' = notifybbbosubs b2 txtim sd venue)"
  proof (cases "side = BUY")
    case True
    then obtain b2 x y where "uncross_buy (if px > best_bid b then b\<lparr>best_bid := px\<rparr> else b) n = Inr (b2, x, y)"
      "b' = b2 \<or> (\<exists>sd. b' = notifybbbosubs b2 txtim sd venue)"
      using assms by (auto simp: check_for_bo_change_def Let_def split: if_splits)
    then show thesis
      using that st(1) by blast
  next
    case False
    then obtain b2 x y where "uncross_sel (if px < best_ask b then b\<lparr>best_ask := px\<rparr> else b) n = Inr (b2, x, y)"
      "b' = b2 \<or> (\<exists>sd. b' = notifybbbosubs b2 txtim sd venue)"
      using assms by (auto simp: check_for_bo_change_def Let_def split: if_splits)
    then show thesis
      using that st(2) by blast
  qed
  then show ?thesis
    using frame_uncross frame_notify book_frame_trans by metis
qed

lemma frame_append_order: "append_order b txtim oid side px sz sender owner exord = Inr b' \<Longrightarrow> book_frame b b'"
  by (auto simp: append_order_def intro: frame_same)

lemma frame_fill_sim: "fill_sim_on_arrival b txtim oid side px sz sender typ owner exord = Inr (Some b') \<Longrightarrow> book_frame b b'"
  by (auto simp: fill_sim_on_arrival_def Let_def split: if_splits intro: frame_ret_path_of)

lemma frame_ob_add:
  assumes "ob_add b txtim oid side px sz sender typ owner exord venue = Inr b'"
  shows "book_frame b b'"
  using assms
  by (auto simp: ob_add_def Let_def split: if_splits option.splits
      dest!: frame_append_order frame_fill_sim frame_fill_stray frame_bo_change intro: book_frame_trans)

lemma frame_adjust_inside: "adjust_inside b side px txtim mkt = Inr b' \<Longrightarrow> book_frame b b'"
proof -
  assume a: "adjust_inside b side px txtim mkt = Inr b'"
  have up: "book_frame b (b\<lparr>best_bid := x\<rparr>)" "book_frame b (b\<lparr>best_ask := x\<rparr>)" for x
    by (rule frame_same; simp)+
  note nt = book_frame_trans [OF up(1) frame_notify] book_frame_trans [OF up(2) frame_notify]
  show "book_frame b b'"
    using a by (auto simp: adjust_inside_def split: if_splits intro: up nt)
qed

lemma frame_do_exec: "do_exec b side px ord sz modtyp txtim = Inr b' \<Longrightarrow> book_frame b b'"
  by (auto simp: do_exec_def split: if_splits option.splits dest: frame_ob_fill)

lemma frame_mod_found: "mod_found b sim ord txtim modtyp side px sz disp_sz mkt = Inr b' \<Longrightarrow> book_frame b b'"
  by (auto simp: mod_found_def split: if_splits dest!: frame_do_exec frame_do_canc frame_adjust_inside intro: book_frame_trans)

lemma frame_not_found: "mod_order_that_is_not_found b sim modtyp sender oid = Inr b' \<Longrightarrow> book_frame b b'"
  by (auto simp: mod_order_that_is_not_found_def book_frame_def split: if_splits option.splits)

lemma frame_ob_mod: "ob_mod b sender txtim oid modtyp side px sz disp_sz mkt = Inr b' \<Longrightarrow> book_frame b b'"
  by (auto simp: ob_mod_def Let_def split: if_splits option.splits dest: frame_mod_found frame_not_found)

lemma frame_clear_levels: "clear_levels b side is = Inr b' \<Longrightarrow> book_frame b b'"
proof (induction b side "is" rule: clear_levels.induct)
  case (2 b side i "is")
  show ?case
  proof (cases "isempty (qv b side ! i)")
    case True
    then show ?thesis
      using 2 by simp
  next
    case False
    then obtain q' out where "canc_notify_all (qv b side ! i) = Inr (q', out)"
      and r: "clear_levels (ret_path (set_lvl b side (int i) q') out) side is = Inr b'"
      using "2.prems" by (auto simp: Let_def)
    moreover have "book_frame b (ret_path (set_lvl b side (int i) q') out)"
      by (rule frame_ret_path_of) simp_all
    ultimately show ?thesis
      using "2.IH"(2) False book_frame_trans by blast
  qed
qed simp

lemma frame_clear_book: "clear_book b = Inr b' \<Longrightarrow> book_frame b b'"
proof -
  assume a: "clear_book b = Inr b'"
  let ?b1 = "b\<lparr>sent := sent b @ map (\<lambda>s. (s, ClearMsg (sym b))) (lowprio_datasubs b)
                   @ map (\<lambda>s. (s, ClearMsg (sym b))) (hiprio_datasubs b)\<rparr>"
  obtain b2 b3 where c: "clear_levels ?b1 BUY [0..<length (bidqs ?b1)] = Inr b2"
    "clear_levels b2 SEL [0..<length (askqs b2)] = Inr b3"
    and b': "b' = b3\<lparr>best_bid := 0, best_ask := asset_maxpx b3 - 1\<rparr>"
    using a by (auto simp: clear_book_def Let_def)
  have "book_frame b ?b1"
    by (auto simp: book_frame_def msgs_def)
  moreover have "book_frame b3 b'"
    unfolding b' by (rule frame_same) simp_all
  ultimately show "book_frame b b'"
    using frame_clear_levels [OF c(1)] frame_clear_levels [OF c(2)] book_frame_trans by blast
qed

lemma frame_drain: "cfg (drain_pub_q b now) = cfg b" "msgs (drain_pub_q b now) = msgs b"
proof -
  have "snd ` set (snd (drain_loop now q out)) \<union> (snd \<circ> snd) ` set (fst (drain_loop now q out))
      = snd ` set out \<union> (snd \<circ> snd) ` set q" for q out
    by (induction now q out rule: drain_loop.induct) auto
  from this [of "pub_q b" "sent b"] show "msgs (drain_pub_q b now) = msgs b"
    by (cases "drain_loop now (pub_q b) (sent b)") (simp add: drain_pub_q_def msgs_def)
  show "cfg (drain_pub_q b now) = cfg b"
    by (simp add: drain_pub_q_def split: prod.splits)
qed

end
