(* ===== verification/OB_Feed_Properties.thy ===== *)
theory OB_Feed_Properties
  imports OB_Feed OB_Frame "HOL-Library.Sublist"
begin

text \<open>
  Properties of the feed handler: what it does with our own orders, whose clock moves, and
  what subscribers may rely on. An invariant of the feed is proved once and for all
  handlers in the locale \<open>feed_invariant\<close>: its laws ask about a single payload, a clear and
  the bookkeeping, its lemmas give the invariant for \<open>data_handler\<close>.
\<close>

section \<open>One payload\<close>

text \<open>The fields outside the book that \<open>process_add_or_mod\<close> may change, set to a constant.\<close>

definition feed_frame :: "OB \<Rightarrow> OB" where
  "feed_frame s = s\<lparr>book := cfg (book s), have_new_payload := False, last_good_payload := None, prev_xoid := 0\<rparr>"

lemma feed_frame_sel:
  assumes "feed_frame s' = feed_frame s"
  shows "cfg (book s') = cfg (book s)" "del_q s' = del_q s" "txtim_epoch s' = txtim_epoch s" "xcheck_tx s' = xcheck_tx s"
    "matching s' = matching s" "ordermap s' = ordermap s" "exec_slate s' = exec_slate s" "bookoid s' = bookoid s"
    "last_tx_tim s' = last_tx_tim s" "last_recovery_tx_tim s' = last_recovery_tx_tim s"
  using assms by (cases s, cases s', simp add: feed_frame_def)+

lemma cfg_publish_all [simp]: "cfg (publish_all b subs m now) = cfg b"
  by (simp add: publish_all_def)

lemma msgs_publish_all: "msgs (publish_all b subs m now) \<subseteq> insert m (msgs b)"
  by (auto simp: publish_all_def msgs_publish_fold split: if_splits)

lemma msgs_sent_app [simp]: "msgs (b\<lparr>sent := sent b @ l\<rparr>) = msgs b \<union> snd ` set l"
  by (auto simp: msgs_def)

lemmas cfg_ob_add = book_frame_cfg [OF frame_ob_add]
lemmas cfg_ob_mod = book_frame_cfg [OF frame_ob_mod]
lemmas cfg_clear_book = book_frame_cfg [OF frame_clear_book]

lemma frame_handle_eoburst:
  assumes "handle_eoburst s pl = Inr s'"
  shows "feed_frame s' = feed_frame s"
  using assms
  by (auto simp: handle_eoburst_def feed_frame_def Let_def split: if_splits option.splits)

lemma frame_add_or_mod:
  assumes "process_add_or_mod s pl sender = Inr s'" "p_mev pl \<noteq> CLEAR"
  shows "feed_frame s' = feed_frame s"
  using assms
  by (auto simp: process_add_or_mod_def Let_def feed_frame_def split: md.splits
      dest!: frame_handle_eoburst dest: cfg_ob_add cfg_ob_mod)

lemma sim_no_cross: "p_is_sim pl \<Longrightarrow> no_cross s pl = Inr s"
  by (simp add: no_cross_def Let_def)

lemma sim_market_data:
  assumes "p_is_sim pl" "process_market_data s pl sender = Inr s'"
  shows "process_add_or_mod s pl sender = Inr s'"
  using assms by (auto simp: process_market_data_def md_clock_def sim_no_cross)

lemma market_data_steps:
  assumes "process_market_data s pl sender = Inr s'"
  obtains s1 s2 where "no_cross (md_clock s pl) pl = Inr s1" "process_add_or_mod s1 pl sender = Inr s2"
    "s' = s2 \<or> \<not> p_is_sim pl \<and> publish_depth s2 pl = Inr s'"
  using assms by (auto simp: process_market_data_def split: if_splits)

text \<open>What \<open>process_market_data\<close> leaves alone for every payload that is not a clear.\<close>

lemma market_data_del_q:
  assumes "process_market_data s pl sender = Inr s'"
  shows "del_q s' = del_q s"
proof -
  obtain s2 s3 where s: "no_cross (md_clock s pl) pl = Inr s2" "process_add_or_mod s2 pl sender = Inr s3"
    "s' = s3 \<or> \<not> p_is_sim pl \<and> publish_depth s3 pl = Inr s'"
    using market_data_steps [OF assms] .
  have "del_q s2 = del_q s"
    using s(1) by (auto simp: no_cross_def md_clock_def Let_def split: if_splits)
  moreover have "del_q s3 = del_q s2"
  proof (cases "p_mev pl = CLEAR")
    case True
    then show ?thesis
      using s(2) by (auto simp: process_add_or_mod_def Let_def ob_clear_def)
  next
    case False
    then show ?thesis
      using feed_frame_sel(2) [OF frame_add_or_mod [OF s(2)]] by simp
  qed
  moreover have "del_q s' = del_q s3"
    using s(3) by (auto simp: publish_depth_def Let_def split: if_splits)
  ultimately show ?thesis
    by simp
qed

section \<open>The delay queue\<close>

definition queue_ok :: "OB \<Rightarrow> bool" where
  "queue_ok s \<longleftrightarrow> (\<forall>(p, a)\<in>set (del_q s). p_is_sim p \<and> p_send_tim p > 0 \<and> p_ts0 p > 0 \<and> p_mev p \<noteq> CLEAR)"

definition due :: "Book \<Rightarrow> payload \<Rightarrow> payload \<times> actor option \<Rightarrow> bool" where
  "due b to_proc x \<longleftrightarrow> arrive_time b (fst x) < p_tim to_proc"

fun apply_orders :: "OB \<Rightarrow> (payload \<times> actor option) list \<Rightarrow> OB res" where
  "apply_orders s [] = Inr s"
| "apply_orders s ((p, a) # q) = bnd (process_market_data s p a) (\<lambda>s'. apply_orders s' q)"

lemma arrive_time_cfg: "cfg b' = cfg b \<Longrightarrow> arrive_time b' p = arrive_time b p"
  using cfg_sel(1-3) [of b' b] by (simp add: arrive_time_def)

lemma due_cfg: "cfg b' = cfg b \<Longrightarrow> due b' tp = due b tp"
  using arrive_time_cfg [of b' b] by (simp add: due_def fun_eq_iff)

lemma sim_keeps_feed:
  assumes "p_is_sim pl" "p_mev pl \<noteq> CLEAR" "process_market_data s pl sender = Inr s'"
  shows "feed_frame s' = feed_frame s"
  using frame_add_or_mod [OF sim_market_data [OF assms(1,3)] assms(2)] .

lemma del_loop_spec:
  assumes "\<forall>(p, a)\<in>set q. p_is_sim p \<and> p_send_tim p > 0 \<and> p_ts0 p > 0 \<and> p_mev p \<noteq> CLEAR"
  shows "del_loop s tp q =
    bnd (apply_orders s (takeWhile (due (book s) tp) q)) (\<lambda>s'. Inr (s'\<lparr>del_q := dropWhile (due (book s) tp) q\<rparr>))"
  using assms
proof (induction q arbitrary: s)
  case (Cons x q)
  obtain p a where x: "x = (p, a)"
    by (cases x)
  show ?case
  proof (cases "due (book s) tp x")
    case True
    show ?thesis
    proof (cases "process_market_data s p a")
      case (Inr s')
      have "due (book s') tp = due (book s) tp"
        by (rule due_cfg, rule feed_frame_sel(1), rule sim_keeps_feed [OF _ _ Inr]) (use Cons.prems in \<open>auto simp: x\<close>)
      then show ?thesis
        using True Cons Inr due_def [of "book s" tp x] by (auto simp: x)
    qed (use True Cons.prems in \<open>auto simp: x due_def\<close>)
  qed (use Cons.prems in \<open>auto simp: x due_def\<close>)
qed simp

lemma apply_orders_frame:
  assumes "apply_orders s q = Inr s'" "\<forall>(p, a)\<in>set q. p_is_sim p \<and> p_mev p \<noteq> CLEAR"
  shows "feed_frame s' = feed_frame s"
  using assms
proof (induction q arbitrary: s)
  case (Cons x q)
  obtain p a where x: "x = (p, a)"
    by (cases x)
  then obtain s1 where s1: "process_market_data s p a = Inr s1" "apply_orders s1 q = Inr s'"
    using Cons.prems by auto
  have "p_is_sim p" "p_mev p \<noteq> CLEAR" "\<forall>(p, a)\<in>set q. p_is_sim p \<and> p_mev p \<noteq> CLEAR"
    using Cons.prems(2) x by auto
  then show ?case
    using Cons.IH [OF s1(2)] sim_keeps_feed [OF _ _ s1(1)] by simp
qed simp


definition ex_sim :: "u64 \<Rightarrow> u32 \<Rightarrow> payload" where
  "ex_sim ts0 oid = payload_init\<lparr>p_ts0 := ts0, p_send_tim := 5, p_txtim_epoch := 5, p_mkt := 18, p_px := 40, p_sz := 1,
     p_disp_sz := 1, p_side := BUY, p_mev := ADD, p_ot := LIMIT, p_order_ref := longid x_SIM oid\<rparr>"

definition ex_real :: "u64 \<Rightarrow> u32 \<Rightarrow> payload" where
  "ex_real tim oid = payload_init\<lparr>p_tim := tim, p_txtim_epoch := tim, p_send_tim := tim, p_mkt := 11, p_px := 45, p_sz := 3,
     p_disp_sz := 3, p_side := SEL, p_action := MT_NONE, p_mev := ADD, p_order_ref := longid x_CMEMDFUT oid\<rparr>"

definition ex_feed :: OB where
  "ex_feed = (let s = projr (OB_init True 1 60 False 1 7 1)
     in s\<lparr>book := (book s)\<lparr>currtim := 5\<rparr>, del_q := [(ex_sim 1 1, Some 9), (ex_sim 9500000 2, Some 9)]\<rparr>)"


section \<open>Invariants of the feed\<close>

text \<open>\<open>same_core\<close>: the states differ only in the bookkeeping of the feed.\<close>

definition same_core :: "OB \<Rightarrow> OB \<Rightarrow> bool" where
  "same_core s s' \<longleftrightarrow> book s' = book s \<and> del_q s' = del_q s \<and> have_new_payload s' = have_new_payload s
     \<and> last_good_payload s' = last_good_payload s"

locale feed_invariant =
  fixes I :: "OB \<Rightarrow> bool"
  assumes market_data: "I s \<Longrightarrow> process_market_data s pl sender = Inr s' \<Longrightarrow> I s'"
    and cleared: "I s \<Longrightarrow> ob_clear s = Inr s' \<Longrightarrow> I s'"
    and processed_ts: "I s \<Longrightarrow> I (s\<lparr>book := (book s)\<lparr>last_processed_ts := t\<rparr>\<rparr>)"
    and clock: "I s \<Longrightarrow> I (s\<lparr>book := (book s)\<lparr>currtim := t\<rparr>\<rparr>)"
    and shorter: "I s \<Longrightarrow> set q \<subseteq> set (del_q s) \<Longrightarrow> I (s\<lparr>del_q := q\<rparr>)"
    and enqueued: "I s \<Longrightarrow> p_is_sim p \<Longrightarrow> p_send_tim p > 0 \<Longrightarrow> p_ts0 p > 0 \<Longrightarrow> p_mev p \<noteq> CLEAR
      \<Longrightarrow> I (s\<lparr>del_q := del_q s @ [(p, a)]\<rparr>)"
    and bookkeeping: "I s \<Longrightarrow> same_core s s' \<Longrightarrow> I s'"
begin

lemma inv_del_loop: "I s \<Longrightarrow> set q \<subseteq> set (del_q s) \<Longrightarrow> del_loop s tp q = Inr s' \<Longrightarrow> I s'"
proof (induction q arbitrary: s)
  case Nil
  then show ?case
    using shorter [of s "[]"] by auto
next
  case (Cons x q)
  obtain p a where x: "x = (p, a)"
    by (cases x)
  show ?case
  proof (cases "arrive_time (book s) p < p_tim tp")
    case True
    then obtain s1 where s1: "process_market_data s p a = Inr s1" "del_loop s1 tp q = Inr s'"
      using Cons.prems(3) by (auto simp: x)
    then show ?thesis
      using Cons.IH [OF market_data [OF Cons.prems(1) s1(1)] _ s1(2)] market_data_del_q [OF s1(1)] Cons.prems(2) by auto
  next
    case False
    then show ?thesis
      using Cons.prems shorter [OF Cons.prems(1,2)] by (auto simp: x)
  qed
qed

lemma inv_process_q: "I s \<Longrightarrow> ensures I (process_q s tp)"
proof -
  assume a: "I s"
  have c: "I (pq_clock s tp)"
    using a processed_ts by (simp add: pq_clock_def)
  have "ensures I (del_loop (pq_clock s tp) tp (del_q (pq_clock s tp)))"
    using inv_del_loop [OF c] by (blast intro: ensuresI)
  then have "ensures I (bnd (del_loop (pq_clock s tp) tp (del_q (pq_clock s tp))) (\<lambda>s2. process_market_data s2 tp None))"
    by (rule ensures_seq) (blast intro: ensuresI market_data)
  then show "ensures I (process_q s tp)"
    using a by (auto simp: process_q_def Let_def intro: ensures_chk)
qed

lemma inv_clock: "I s \<Longrightarrow> I (s\<lparr>book := (book s)\<lparr>currtim := c\<rparr>, txtim_epoch := t\<rparr>)"
  by (rule bookkeeping [OF clock [of s c]]) (simp_all add: same_core_def)

lemma inv_release_execs: "I s \<Longrightarrow> ensures I (release_execs s rs)"
proof (induction rs arbitrary: s)
  case (Cons x rs)
  obtain f r where x: "x = (f, r)"
    by (cases x)
  have "ensures I (bnd (process_q s (f_pl f))
      (\<lambda>s'. release_execs (s'\<lparr>book := (book s')\<lparr>currtim := currtim (book s)\<rparr>, txtim_epoch := txtim_epoch s\<rparr>) rs))"
    by (rule ensures_seq [OF inv_process_q [OF Cons.prems]]) (rule Cons.IH [OF inv_clock])
  then show ?case
    using Cons by (simp add: x Let_def)
qed simp

lemma inv_slate: "I s \<Longrightarrow> I (s\<lparr>exec_slate := sl\<rparr>)"
  by (rule bookkeeping) (simp_all add: same_core_def)

lemma inv_slated: "I s \<Longrightarrow> ensures I (process_slated_exec s r pl)"
  unfolding process_slated_exec_def
  by (rule ensures_bnd)
    (auto split: prod.split intro!: ensures_seq [OF inv_release_execs [OF inv_slate]] inv_process_q)

lemma inv_ordermap: "I s \<Longrightarrow> I (s\<lparr>ordermap := om\<rparr>)"
  by (rule bookkeeping) (simp_all add: same_core_def)

lemma inv_in_recovery: "I s \<Longrightarrow> I (s\<lparr>is_in_recovery := c\<rparr>)"
  by (rule bookkeeping) (simp_all add: same_core_def)

lemma inv_add:
  assumes "I s"
  shows "ensures I (dh_add s r extim sendtim)"
  unfolding dh_add_def Let_def
  by (auto split: option.split intro!: ensures_bnd ensures_chk inv_process_q bookkeeping [OF assms] simp: same_core_def)

lemma inv_exec:
  assumes "I s"
  shows "ensures I (dh_exec s r extim sendtim)"
proof (cases "advance (exec_slate s) (t_transactTime r)")
  case (Pair sl rel)
  have "ensures I (case ordermap s1 (t_orderID r) of
           None \<Rightarrow> Inr s1
         | Some o1 \<Rightarrow>
             (let s2 = s1\<lparr>num_exec := num_exec s1 + 1, volumefound := volumefound s1 + t_lastQty r\<rparr> in
              bnd (make_payload (units s2) (t_handlerendtim r) (oi_side o1) (t_orderID r) (chopid o1) (sym (book s2)) MOD EXEC
                     (t_lastQty r) 0 (oi_px o1) extim sendtim (t_venue r) (t_endOfEvent r) False)
                (\<lambda>p. let (sl2, rel2) = on_trade (exec_slate s2) (t_orderID r) (t_transactTime r) (oi_px o1)
                                          (if oi_side o1 = BUY then sBUY else sSEL) (t_lastQty r)
                                          (at_touch_of s2 o1) (stamp s2 p)
                     in release_execs (s2\<lparr>exec_slate := sl2\<rparr>) rel2)))" if "I s1" for s1
    using that by (auto split: option.split prod.split intro!: ensures_bnd inv_release_execs bookkeeping [OF that]
        simp: same_core_def Let_def)
  then show ?thesis
    unfolding dh_exec_def Pair by (auto intro!: ensures_seq [OF inv_release_execs [OF inv_slate [OF assms]]])
qed

lemma inv_replace:
  assumes "I s"
  shows "ensures I (canc_replace s r o1 extim sendtim)"
  unfolding canc_replace_def Let_def
proof (rule ensures_bnd, rule ensures_seq [OF inv_slated [OF assms]], rule ensures_bnd, rule ensures_bnd)
  fix s1 sd pl2 assume i: "I s1"
  show "ensures I (bnd (process_q (s1\<lparr>bookoid := bookoid s1 + 1\<rparr>) pl2)
      (\<lambda>s3. if have_side r
           then chk (oi_side (o1\<lparr>chopid := longid (venue r) (bookoid s1), xoid := orderID r, oi_sz := displayQty r\<rparr>) = sd)
                  ''side has changed''
                  (Inr (s3\<lparr>ordermap := (ordermap s3)(orderID r \<mapsto>
                     o1\<lparr>chopid := longid (venue r) (bookoid s1), xoid := orderID r, oi_sz := displayQty r, oi_px := pxd r\<rparr>)\<rparr>))
           else Inr (s3\<lparr>ordermap := (ordermap s3)(orderID r \<mapsto>
                     o1\<lparr>chopid := longid (venue r) (bookoid s1), xoid := orderID r, oi_sz := displayQty r\<rparr>)\<rparr>)))"
    by (rule ensures_seq [OF inv_process_q [OF bookkeeping [OF i]]])
      (auto simp: same_core_def intro!: ensures_chk inv_ordermap)
qed

lemma inv_canc:
  assumes "I s"
  shows "ensures I (dh_canc s r extim sendtim)"
  unfolding dh_canc_def Let_def
  by (auto split: option.split intro!: ensures_chk ensures_bnd inv_replace inv_slated bookkeeping [OF assms] simp: same_core_def assms)

lemma inv_cancd:
  assumes "I s"
  shows "ensures I (dh_cancd s r extim sendtim)"
  unfolding dh_cancd_def
  by (auto split: option.split intro!: ensures_bnd ensures_seq [OF inv_slated [OF assms]] inv_ordermap simp: assms)

lemma inv_sim:
  assumes "I s" "p_mev p \<noteq> CLEAR"
  shows "ensures I (dh_sim s p sender)"
proof -
  let ?pl = "p\<lparr>p_send_tim := currtim (book s), p_txtim_epoch := currtim (book s)\<rparr>"
  have "I (s\<lparr>del_q := del_q s @ [(?pl, sender)]\<rparr>)" if "p_is_sim p" "currtim (book s) > 0" "p_ts0 p \<noteq> 0"
    by (rule enqueued [OF assms(1)]) (use that assms(2) in \<open>auto simp: p_is_sim_def word_neq_0_conv\<close>)
  then show ?thesis
    unfolding dh_sim_def Let_def using market_data [OF assms(1)] by (auto intro!: ensures_chk intro: ensuresI)
qed

lemma inv_control: "I s \<Longrightarrow> ensures I (dh_control s mev mkt)"
  unfolding dh_control_def using market_data by (blast intro: ensuresI)

lemma inv_eob:
  assumes "I s"
  shows "ensures I (dh_eob s)"
  unfolding dh_eob_def
  by (auto split: option.split intro!: inv_control bookkeeping [OF assms] simp: cross_check_def Let_def same_core_def assms)

lemma inv_recovery:
  assumes "I s"
  shows "ensures (\<lambda>(s', go). I s') (dh_recovery s r extim)"
proof -
  have c: "ensures I (bnd (ob_clear s1) (\<lambda>s2. Inr (s2\<lparr>is_in_recovery := True\<rparr>)))" if "I s1" for s1
    using cleared [OF that] by (auto intro!: ensures_bnd inv_in_recovery)
  have t: "ensures (\<lambda>(s', go). I s')
      (bnd (if c1 then bnd (ob_clear s1) (\<lambda>s2. Inr (s2\<lparr>is_in_recovery := True\<rparr>)) else Inr s1)
        (\<lambda>s2. Inr (if c2 s2 then s2\<lparr>is_in_recovery := False\<rparr> else s2, True)))" if "I s1" for s1 c1 c2
  proof (rule ensures_seq)
    show "ensures I (if c1 then bnd (ob_clear s1) (\<lambda>s2. Inr (s2\<lparr>is_in_recovery := True\<rparr>)) else Inr s1)"
      using c [OF that] that by simp
  qed (auto intro: inv_in_recovery)
  define s1 where "s1 = (if extim = 0 then s
      else if recovery r then s\<lparr>last_recovery_tx_tim := extim\<rparr> else s\<lparr>last_tx_tim := extim\<rparr>)"
  have "I s1"
    by (rule bookkeeping [OF assms]) (simp add: s1_def same_core_def)
  then show ?thesis
    unfolding dh_recovery_def Let_def s1_def [symmetric]
    using t [of s1 _ "\<lambda>s2. \<not> recovery r \<and> is_in_recovery s2"] by simp
qed

lemma inv_mbo: "I s \<Longrightarrow> ensures I (dh_mbo s r extim sendtim bad)"
  unfolding dh_mbo_def by (auto intro!: ensures_chk inv_add inv_canc inv_cancd)

lemma inv_filter:
  assumes "I s"
  shows "ensures (\<lambda>(s', k). I s') (dh_filter (dh_first brk s l) l raw)"
  by (cases l)
    (auto simp: dh_filter_def dh_first_def Let_def same_core_def assms intro!: ensures_chk bookkeeping [OF assms])

lemma inv_data_handler:
  assumes "I s" "p_mev (d_payload m) \<noteq> CLEAR"
  shows "ensures I (data_handler brk s m)"
  unfolding data_handler_def
proof (rule ensures_seq [OF inv_filter [OF assms(1)]], clarify)
  fix s1 k assume i: "I s1"
  have "ensures I (bnd (dh_recovery s1 r extim) (\<lambda>(s2, go). if go then dh_mbo s2 r extim sendtim bad else Inr s2))"
    for r extim sendtim bad
    by (rule ensures_seq [OF inv_recovery [OF i]]) (auto intro: inv_mbo)
  then show "ensures I (case k of None \<Rightarrow> Inr s1
      | Some (extim, sendtim, bad) \<Rightarrow>
          (case d_l3 m of
             MBO r \<Rightarrow>
               if is_option s1 then Inr s1
               else chk (israw m) ''must be raw''
                (bnd (dh_recovery s1 r extim) (\<lambda>(s1, go). if go then dh_mbo s1 r extim sendtim bad else Inr s1))
           | l \<Rightarrow>
               if \<not> israw m then dh_sim s1 (d_payload m) (d_sender m)
               else (case l of
                       MBO_TRD r \<Rightarrow> dh_exec s1 r extim sendtim
                     | CHR_REC v \<Rightarrow> dh_control s1 CLEAR v
                     | GAP_REC v \<Rightarrow> dh_control s1 GAP v
                     | EOB \<Rightarrow> dh_eob s1
                     | _ \<Rightarrow> sngh)))"
    using i assms(2)
    by (cases "d_l3 m") (auto split: option.split intro!: ensures_chk inv_sim inv_exec inv_control inv_eob)
qed

end

interpretation qi: feed_invariant queue_ok
proof unfold_locales
  fix s s' pl sender
  assume "queue_ok s" "process_market_data s pl sender = Inr s'"
  then show "queue_ok s'"
    using market_data_del_q by (simp add: queue_ok_def)
qed (auto simp: queue_ok_def ob_clear_def same_core_def)

section \<open>Depth snapshots\<close>

text \<open>The arrays \<open>calc_ba\<close> fills: prices step by one away from the inside, sizes are those of the levels.\<close>

lemma calc_levels_spec:
  assumes "calc_levels b n i bsum asum acc = Inr d"
  shows "\<exists>e. d = acc @ e \<and> length e = n \<and> (\<forall>j<n. fst (e ! j) = best_bid b - int (i + j)
    \<and> fst (snd (e ! j)) = best_ask b + int (i + j)
    \<and> get_orders_in_book (bidqs b ! nat (best_bid b - int (i + j))) = Inr (fst (snd (snd (e ! j))))
    \<and> get_orders_in_book (askqs b ! nat (best_ask b + int (i + j))) = Inr (fst (snd (snd (snd (e ! j))))))"
  using assms
proof (induction n arbitrary: i bsum asum acc)
  case (Suc n)
  obtain x y cb ca where
    lv: "get_orders_in_book (bidqs b ! nat (best_bid b - int i)) = Inr x" "get_orders_in_book (askqs b ! nat (best_ask b + int i)) = Inr y"
    and rec: "calc_levels b n (i + 1) cb ca (acc @ [(best_bid b - int i, best_ask b + int i, x, y, cb, ca)]) = Inr d"
    using Suc.prems by (auto simp: Let_def lvl_at_def split: if_splits)
  obtain e where e: "d = (acc @ [(best_bid b - int i, best_ask b + int i, x, y, cb, ca)]) @ e" "length e = n"
    "\<forall>j<n. fst (e ! j) = best_bid b - int (i + 1 + j) \<and> fst (snd (e ! j)) = best_ask b + int (i + 1 + j)
     \<and> get_orders_in_book (bidqs b ! nat (best_bid b - int (i + 1 + j))) = Inr (fst (snd (snd (e ! j))))
     \<and> get_orders_in_book (askqs b ! nat (best_ask b + int (i + 1 + j))) = Inr (fst (snd (snd (snd (e ! j)))))"
    using Suc.IH [OF rec] by blast
  show ?case
  proof (intro exI conjI allI impI)
    show "d = acc @ (best_bid b - int i, best_ask b + int i, x, y, cb, ca) # e"
      using e(1) by simp
    fix j assume "j < Suc n"
    then show "fst (((best_bid b - int i, best_ask b + int i, x, y, cb, ca) # e) ! j) = best_bid b - int (i + j)"
      "fst (snd (((best_bid b - int i, best_ask b + int i, x, y, cb, ca) # e) ! j)) = best_ask b + int (i + j)"
      "get_orders_in_book (bidqs b ! nat (best_bid b - int (i + j)))
        = Inr (fst (snd (snd (((best_bid b - int i, best_ask b + int i, x, y, cb, ca) # e) ! j))))"
      "get_orders_in_book (askqs b ! nat (best_ask b + int (i + j)))
        = Inr (fst (snd (snd (snd (((best_bid b - int i, best_ask b + int i, x, y, cb, ca) # e) ! j)))))"
      using e(3) lv by (cases j; simp)+
  qed (simp add: e(2))
qed simp

definition ladder_point :: "point \<Rightarrow> bool" where
  "ladder_point pt \<longleftrightarrow> length (bid_px pt) = NLEVELS \<and> length (ask_px pt) = NLEVELS
     \<and> length (bid_sz pt) = NLEVELS \<and> length (ask_sz pt) = NLEVELS
     \<and> (\<not> baddata pt \<longrightarrow> (\<exists>bb ba. 2 * int NLEVELS \<le> bb \<and> bb < ba
          \<and> (\<forall>j<NLEVELS. bid_px pt ! j = bb - int j \<and> ask_px pt ! j = ba + int j)))"

lemma depth_point_ladder:
  assumes "calc_ba b = Inr d"
  shows "ladder_point (depth_point b pl d)"
proof (cases "best_bid b < int NLEVELS * 2 \<or> best_ask b > asset_maxpx b - int NLEVELS * 2")
  case True
  then have "d = replicate NLEVELS (0, asset_maxpx b - 1, 0, 0, 0, 0)"
    using assms by (simp add: calc_ba_def)
  then show ?thesis
    by (simp add: ladder_point_def depth_point_def NLEVELS_def Let_def)
next
  case False
  then have "calc_levels b NLEVELS 0 0 0 [] = Inr d"
    using assms by (simp add: calc_ba_def)
  then have d: "length d = NLEVELS" "\<forall>j<NLEVELS. fst (d ! j) = best_bid b - int j \<and> fst (snd (d ! j)) = best_ask b + int j"
    using calc_levels_spec [of b NLEVELS 0 0 0 "[]" d] by auto
  have "0 < NLEVELS"
    by (simp add: NLEVELS_def)
  then have "fst (d ! 0) = best_bid b" "fst (snd (d ! 0)) = best_ask b"
    using d(2) by auto
  then have "\<not> baddata (depth_point b pl d) \<longrightarrow> 2 * int NLEVELS \<le> best_bid b \<and> best_bid b < best_ask b"
    using d(1) False \<open>0 < NLEVELS\<close> by (auto simp: depth_point_def Let_def)
  moreover have "\<forall>j<NLEVELS. bid_px (depth_point b pl d) ! j = best_bid b - int j \<and> ask_px (depth_point b pl d) ! j = best_ask b + int j"
    using d by (simp add: depth_point_def Let_def)
  ultimately show ?thesis
    using d(1) unfolding ladder_point_def by (auto simp: depth_point_def Let_def)
qed

text \<open>Dropping empty levels moves the front of an array by less than its length.\<close>

lemma shift_side_front:
  assumes "length px = length sz" "sz \<noteq> []"
  shows "\<exists>k<length sz. fst (shift_side px sz) ! 0 = px ! k"
proof -
  have "\<exists>k. k + 1 \<le> length sz \<and> (nz sz = length sz \<longrightarrow> k = 0) \<and> k \<le> nz sz \<and> fst (shift_side px sz) ! 0 = px ! k"
    using assms
  proof (induction px sz rule: shift_side.induct)
    case (1 px sz)
    show ?case
    proof (cases "nz sz \<noteq> length sz \<and> sz ! 0 = 0")
      case True
      let ?p = "tl px @ [0]" and ?s = "tl sz @ [0]"
      have len: "length ?p = length ?s" "?s \<noteq> []" "length ?s = length sz"
        using "1.prems" by auto
      have nz: "Suc (nz ?s) = nz sz"
        using nz_shift True by simp
      obtain k where k: "k \<le> nz ?s" "fst (shift_side ?p ?s) ! 0 = ?p ! k"
        using "1.IH" True len by blast
      have "k < length (tl px)"
        using k(1) nz nz_le [of sz] conjunct1 [OF True] "1.prems"(1) by simp
      then have "?p ! k = px ! Suc k"
        by (simp add: nth_append nth_tl)
      moreover have "shift_side px sz = shift_side ?p ?s"
        using True by (subst shift_side.simps) simp
      ultimately show ?thesis
        using k nz nz_le [of sz] True by (intro exI [of _ "Suc k"]) auto
    next
      case False
      then have "shift_side px sz = (px, sz)"
        by (subst shift_side.simps) auto
      then show ?thesis
        using "1.prems" by (intro exI [of _ 0]) (auto simp: Suc_le_eq)
    qed
  qed
  then show ?thesis
    by (auto simp: Suc_le_eq)
qed

definition uncrossed_point :: "point \<Rightarrow> bool" where
  "uncrossed_point pt \<longleftrightarrow> \<not> baddata pt \<and> 0 < bid_px pt ! 0 \<and> bid_px pt ! 0 < ask_px pt ! 0"

lemma shift_zero_uncrossed:
  assumes "ladder_point pt" "\<not> baddata pt"
  shows "uncrossed_point (shift_zero pt)"
proof -
  obtain bb ba where l: "2 * int NLEVELS \<le> bb" "bb < ba" "\<forall>j<NLEVELS. bid_px pt ! j = bb - int j \<and> ask_px pt ! j = ba + int j"
    using assms by (auto simp: ladder_point_def)
  have len: "length (bid_px pt) = length (bid_sz pt)" "length (ask_px pt) = length (ask_sz pt)"
    "length (bid_sz pt) = NLEVELS" "length (ask_sz pt) = NLEVELS"
    using assms(1) by (auto simp: ladder_point_def)
  then have ne: "bid_sz pt \<noteq> []" "ask_sz pt \<noteq> []"
    by (auto simp: NLEVELS_def)
  obtain i where i: "i < NLEVELS" "fst (shift_side (bid_px pt) (bid_sz pt)) ! 0 = bid_px pt ! i"
    using shift_side_front [OF len(1) ne(1)] len(3) by auto
  obtain j where j: "j < NLEVELS" "fst (shift_side (ask_px pt) (ask_sz pt)) ! 0 = ask_px pt ! j"
    using shift_side_front [OF len(2) ne(2)] len(4) by auto
  have "bid_px (shift_zero pt) ! 0 = bb - int i" "ask_px (shift_zero pt) ! 0 = ba + int j" "baddata (shift_zero pt) = baddata pt"
    using i j l(3) by (auto simp: shift_zero_def shift_zero_bid_def shift_zero_ask_def split: prod.splits)
  then show ?thesis
    using i(1) l(1,2) assms(2) by (simp add: uncrossed_point_def)
qed

section \<open>What subscribers receive\<close>

fun msg_ok :: "ob_msg \<Rightarrow> bool" where
  "msg_ok (EndOfBurst g) = uncrossed_point (p_point g)"
| "msg_ok _ = True"

lemma book_msg_ok: "book_msg m \<Longrightarrow> msg_ok m"
  by (cases m) auto

definition snapshots_ok :: "OB \<Rightarrow> bool" where
  "snapshots_ok s \<longleftrightarrow> (\<forall>m\<in>msgs (book s). msg_ok m)
     \<and> (have_new_payload s \<longrightarrow> (\<exists>g. last_good_payload s = Some g \<and> \<not> p_is_sim g \<and> ladder_point (p_point g)))"

lemma snapshots_ok_book:
  "snapshots_ok s \<Longrightarrow> book_frame (book s) b \<Longrightarrow> snapshots_ok (s\<lparr>book := b\<rparr>)"
  using book_msg_ok by (fastforce simp: snapshots_ok_def book_frame_def)

lemma snapshots_ok_msgs:
  "snapshots_ok s \<Longrightarrow> msgs (book s') = msgs (book s) \<Longrightarrow> have_new_payload s' = have_new_payload s
   \<Longrightarrow> last_good_payload s' = last_good_payload s \<Longrightarrow> snapshots_ok s'"
  by (simp add: snapshots_ok_def)

lemma snapshots_ok_eoburst:
  assumes "snapshots_ok s"
  shows "ensures snapshots_ok (handle_eoburst s pl)" "defined (handle_eoburst s pl)" "returns (handle_eoburst s pl)"
proof -
  have "\<exists>s'. handle_eoburst s pl = Inr s' \<and> snapshots_ok s'"
  proof (cases "have_new_payload s")
    case False
    then show ?thesis
      using assms by (simp add: handle_eoburst_def)
  next
    case True
    then obtain g where g: "last_good_payload s = Some g" "\<not> p_is_sim g" "ladder_point (p_point g)"
      using assms by (auto simp: snapshots_ok_def)
    define g1 where "g1 = (if baddata (p_point g) then g else g\<lparr>p_point := shift_zero (p_point g)\<rparr>)"
    define b1 where "b1 = (if baddata (p_point g) then book s
        else publish_all (book s) (hiprio_datasubs (book s)) (EndOfBurst g1) (p_txtim_epoch g1))"
    define b2 where "b2 = (case som s of None \<Rightarrow> b1
        | Some a \<Rightarrow> if p_sendtim_epoch pl > 0
                    then b1\<lparr>sent := sent b1 @ [(a, UnStash (p_sendtim_epoch pl + 40000))]\<rparr> else b1)"
    define b3 where "b3 = publish_all b2 (lowprio_datasubs b2)
        (EndOfBurst2 (sym b2) (p_txtim_epoch g1) (bid_px (p_point g1) ! 0) (ask_px (p_point g1) ! 0)
           (bid_sz (p_point g1) ! 0) (ask_sz (p_point g1) ! 0) (pt_mev (p_point g1)) (pt_action (p_point g1))
           (pt_side (p_point g1)) (volumefound s)) (p_txtim_epoch g1)"
    have "handle_eoburst s pl = Inr (s\<lparr>book := b3, have_new_payload := False, last_good_payload := Some g1\<rparr>)"
      using True g(1,2) unfolding handle_eoburst_def Let_def b3_def b2_def b1_def g1_def by simp
    moreover have "\<forall>m\<in>msgs b1. msg_ok m"
      using assms msgs_publish_all [of "book s" "hiprio_datasubs (book s)" "EndOfBurst g1" "p_txtim_epoch g1"]
        shift_zero_uncrossed [OF g(3)] by (auto simp: b1_def g1_def snapshots_ok_def)
    then have "\<forall>m\<in>msgs b2. msg_ok m"
      by (auto simp: b2_def split: option.split)
    then have "\<forall>m\<in>msgs b3. msg_ok m"
      unfolding b3_def by (auto dest!: subsetD [OF msgs_publish_all])
    ultimately show ?thesis
      by (simp add: snapshots_ok_def)
  qed
  then show "ensures snapshots_ok (handle_eoburst s pl)" "defined (handle_eoburst s pl)" "returns (handle_eoburst s pl)"
    by auto
qed

lemma snapshots_ok_clear:
  assumes "snapshots_ok s" "ob_clear s = Inr s'"
  shows "snapshots_ok s'"
proof -
  obtain b where b: "clear_book (book s) = Inr b"
    "s' = s\<lparr>book := b, ordermap := (\<lambda>_. None), exec_slate := slate_clear (exec_slate s)\<rparr>"
    using assms(2) by (auto simp: ob_clear_def)
  have "snapshots_ok (s\<lparr>book := b\<rparr>)"
    using snapshots_ok_book [OF assms(1) frame_clear_book [OF b(1)]] .
  then show ?thesis
    by (rule snapshots_ok_msgs) (simp_all add: b(2))
qed

lemma snapshots_ok_add_or_mod:
  assumes "snapshots_ok s"
  shows "ensures snapshots_ok (process_add_or_mod s pl sender)"
proof -
  let ?s = "s\<lparr>prev_xoid := p_ex_order_id pl\<rparr>"
  have s: "snapshots_ok ?s"
    by (rule snapshots_ok_msgs [OF assms]) simp_all
  have b: "ensures snapshots_ok (handle_eoburst (?s\<lparr>book := b\<rparr>) pl)" if "book_frame (book s) b" for b
    by (rule snapshots_ok_eoburst(1), rule snapshots_ok_book [OF s]) (use that in simp)
  have c: "ensures snapshots_ok (ob_clear (?s\<lparr>last_tx_tim := 0, last_recovery_tx_tim := 0\<rparr>))"
    by (rule ensuresI, erule snapshots_ok_clear [rotated], rule snapshots_ok_msgs [OF s]) simp_all
  have g: "snapshots_ok (?s\<lparr>book := (book s)\<lparr>sent := sent (book s) @ map (\<lambda>a. (a, GapDetected y)) xs @ map (\<lambda>a. (a, GapDetected y)) zs\<rparr>\<rparr>)"
    for xs y zs
    using assms by (auto simp: snapshots_ok_def)
  show ?thesis
    unfolding process_add_or_mod_def Let_def
    by (rule ensures_bnd) (use s b c g snapshots_ok_eoburst(1) [OF s] in
        \<open>auto split: md.split intro!: ensures_chk ensures_bnd dest!: frame_ob_add frame_ob_mod\<close>)
qed

lemma snapshots_ok_depth:
  assumes "snapshots_ok s" "\<not> p_is_sim pl"
  shows "ensures snapshots_ok (publish_depth s pl)"
proof -
  let ?b = "(book s)\<lparr>currtim := p_send_tim pl\<rparr>"
  have t: "\<forall>m\<in>msgs (publish_all (publish_all ?b xs (TradeNotify q) t) ys (TradeNotify q) t). msg_ok m" for xs ys q t
    using assms(1) by (auto simp: snapshots_ok_def dest!: subsetD [OF msgs_publish_all])
  show ?thesis
    unfolding publish_depth_def Let_def
    using assms t depth_point_ladder by (auto simp: snapshots_ok_def p_is_sim_def intro!: ensures_chk ensures_bnd)
qed

interpretation mi: feed_invariant snapshots_ok
proof unfold_locales
  fix s s' pl sender
  assume i: "snapshots_ok s" and "process_market_data s pl sender = Inr s'"
  then obtain s1 s2 where st: "no_cross (md_clock s pl) pl = Inr s1" "process_add_or_mod s1 pl sender = Inr s2"
    "s' = s2 \<or> \<not> p_is_sim pl \<and> publish_depth s2 pl = Inr s'"
    using market_data_steps by metis
  have "snapshots_ok s1"
    by (rule snapshots_ok_msgs [OF i])
      (use st(1) in \<open>auto simp: no_cross_def md_clock_def Let_def frame_drain split: if_splits\<close>)
  then have "snapshots_ok s2"
    using ensuresD [OF snapshots_ok_add_or_mod st(2)] by simp
  then show "snapshots_ok s'"
    using st(3) ensuresD [OF snapshots_ok_depth] by blast
qed (erule (1) snapshots_ok_clear | auto simp: snapshots_ok_def same_core_def)+

text \<open>
  The states a book reaches: from its construction, by records and orders of our traders
  (which are adds and cancels, never clears), subscriptions and settings of the delays.
\<close>

inductive feed_reach :: "(u64 \<Rightarrow> bool) \<Rightarrow> OB \<Rightarrow> bool" for brk where
  reach_init: "OB_init cross sy maxpx opt un sec spread = Inr s \<Longrightarrow> feed_reach brk s"
| reach_start: "feed_reach brk s \<Longrightarrow> feed_reach brk (s\<lparr>som := a\<rparr>)"
| reach_data: "feed_reach brk s \<Longrightarrow> p_mev (d_payload m) \<noteq> CLEAR \<Longrightarrow> data_handler brk s m = Inr s' \<Longrightarrow> feed_reach brk s'"
| reach_sub: "feed_reach brk s \<Longrightarrow> subscribe (book s) who pr = Inr b \<Longrightarrow> feed_reach brk (s\<lparr>book := b\<rparr>)"
| reach_bbbo: "feed_reach brk s \<Longrightarrow> feed_reach brk (s\<lparr>book := bbbosub (book s) who2\<rparr>)"
| reach_delay: "feed_reach brk s \<Longrightarrow> set_delay (book s) o_us c_us = Inr b \<Longrightarrow> feed_reach brk (s\<lparr>book := b\<rparr>)"
| reach_feed_delay: "feed_reach brk s \<Longrightarrow> set_feed_delay (book s) f_us = Inr b \<Longrightarrow> feed_reach brk (s\<lparr>book := b\<rparr>)"

lemma feed_reach_ok: "feed_reach brk s \<Longrightarrow> snapshots_ok s \<and> queue_ok s"
proof (induction rule: feed_reach.induct)
  case (reach_init cross sy maxpx opt un sec spread s)
  then show ?case
    by (auto simp: OB_init_def Book_init_def snapshots_ok_def queue_ok_def msgs_def)
next
  case (reach_data s m s')
  then show ?case
    using ensuresD [OF mi.inv_data_handler reach_data(3)] ensuresD [OF qi.inv_data_handler reach_data(3)] by blast
next
  case (reach_sub s who pr b)
  then have "msgs b = msgs (book s)"
    by (auto simp: subscribe_def msgs_def split: option.splits prio.splits)
  then show ?case
    using reach_sub by (auto simp: snapshots_ok_def queue_ok_def)
qed (auto simp: snapshots_ok_def queue_ok_def msgs_def bbbosub_def set_delay_def set_feed_delay_def)

text \<open>
  C16. A strategy never acts on a crossed, locked or one-sided snapshot. Whatever records,
  orders of our traders, subscriptions and delays a book has seen, the snapshot of every
  end-of-burst message it has sent or still holds back is flagged good, and its best bid is
  positive and below its best ask, also after empty levels were dropped.
\<close>

theorem burst_snapshots_uncrossed:
  assumes "feed_reach brk s"
    "(a, EndOfBurst g) \<in> set (sent (book s)) \<or> (t, a, EndOfBurst g) \<in> set (pub_q (book s))"
  shows "\<not> baddata (p_point g) \<and> 0 < bid_px (p_point g) ! 0 \<and> bid_px (p_point g) ! 0 < ask_px (p_point g) ! 0"
proof -
  have "EndOfBurst g \<in> msgs (book s)"
    using assms(2) by (force simp: msgs_def)
  then have "msg_ok (EndOfBurst g)"
    using feed_reach_ok [OF assms(1)] unfolding snapshots_ok_def by blast
  then show ?thesis
    by (simp add: uncrossed_point_def)
qed

definition ex_mbo :: "char \<Rightarrow> real \<Rightarrow> u64 \<Rightarrow> u64 \<Rightarrow> Data" where
  "ex_mbo side px oid tim = \<lparr>israw = True,
     d_l3 = MBO \<lparr>venue = 11, transactTime = tim, sendingTime = tim, mbo_handlerendtim = tim, orderUpdateAction = 0,
       securityID = 7, orderID = oid, pxd = px, displayQty = 3, mbo_side = side, endOfEvent = True, recovery = False\<rparr>,
     d_payload = payload_init, d_sender = None\<rparr>"

definition ex_eob :: Data where
  "ex_eob = \<lparr>israw = True, d_l3 = EOB, d_payload = payload_init, d_sender = None\<rparr>"

definition ex_subscribed :: OB where
  "ex_subscribed = (let s = projr (OB_init True 1 200 False 1 7 1) in s\<lparr>book := projr (subscribe (book s) (Some 3) HI)\<rparr>)"

definition ex_burst :: "OB res" where
  "ex_burst = foldl (\<lambda>r m. bnd r (\<lambda>s. data_handler (\<lambda>_. False) s m)) (Inr ex_subscribed)
     [ex_mbo CHR ''0'' 50 101 1000, ex_mbo CHR ''1'' 60 102 2000, ex_eob]"

lemma feed_reach_run:
  "feed_reach brk s \<Longrightarrow> \<forall>m\<in>set ms. p_mev (d_payload m) \<noteq> CLEAR
   \<Longrightarrow> foldl (\<lambda>r m. bnd r (\<lambda>s. data_handler brk s m)) (Inr s) ms = Inr s' \<Longrightarrow> feed_reach brk s'"
proof (induction ms arbitrary: s)
  case (Cons m ms)
  have "foldl (\<lambda>r m. bnd r (\<lambda>s. data_handler brk s m)) (Inl e) ms = Inl e" for e
    by (induction ms) auto
  then obtain s1 where "data_handler brk s m = Inr s1"
    using Cons.prems(3) by (cases "data_handler brk s m") auto
  note s1 = this
  have "feed_reach brk s1"
    using reach_data [OF Cons.prems(1) _ s1] Cons.prems(2) by simp
  then show ?case
    using Cons.IH Cons.prems(2,3) s1 by simp
qed simp

theorem burst_snapshots_uncrossed_witness:
  "\<exists>g. EndOfBurst g \<in> snd ` set (sent (book (projr ex_burst))) \<and> bid_px (p_point g) ! 0 = 50 \<and> bid_px (p_point g) ! 0 < ask_px (p_point g) ! 0"
proof -
  have init: "returns (OB_init True 1 200 False 1 7 1)" "returns (subscribe (book (projr (OB_init True 1 200 False 1 7 1))) (Some 3) HI)"
    "returns ex_burst" "\<forall>m\<in>set [ex_mbo CHR ''0'' 50 101 1000, ex_mbo CHR ''1'' 60 102 2000, ex_eob]. p_mev (d_payload m) \<noteq> CLEAR"
    by code_simp+
  have inr: "returns r \<Longrightarrow> r = Inr (projr r)" for r :: "'x res"
    by (cases r) auto
  have "feed_reach (\<lambda>_. False) ex_subscribed"
    unfolding ex_subscribed_def Let_def by (rule reach_sub [OF reach_init [OF inr [OF init(1)]] inr [OF init(2)]])
  then have r: "feed_reach (\<lambda>_. False) (projr ex_burst)"
    using feed_reach_run [OF _ init(4)] inr [OF init(3)] unfolding ex_burst_def by blast
  have "list_ex (\<lambda>(a, m). case m of EndOfBurst g \<Rightarrow> bid_px (p_point g) ! 0 = 50 | _ \<Rightarrow> False) (sent (book (projr ex_burst)))"
    by code_simp
  then obtain a g where g: "(a, EndOfBurst g) \<in> set (sent (book (projr ex_burst)))" "bid_px (p_point g) ! 0 = 50"
    by (auto simp: list_ex_iff split: ob_msg.splits)
  then show ?thesis
    using burst_snapshots_uncrossed [OF r, of a g] by force
qed

section \<open>Clocks\<close>

text \<open>
  Our own orders never move the market's clock. Applying one that the delay queue
  releases leaves the time of the record being processed, the market clock, the transaction
  boundary of the no-cross check, the latencies, the queue, the order map and the slate as
  they are, so the fills and acknowledgements it causes are stamped with the record that
  released it.
\<close>

theorem own_orders_keep_market_clock:
  assumes "p_is_sim pl" "p_mev pl \<noteq> CLEAR" "process_market_data s pl sender = Inr s'"
  shows "last_processed_ts (book s') = last_processed_ts (book s) \<and> currtim (book s') = currtim (book s)
    \<and> txtim_epoch s' = txtim_epoch s \<and> xcheck_tx s' = xcheck_tx s \<and> matching s' = matching s
    \<and> delay (book s') = delay (book s) \<and> cancel_delay (book s') = cancel_delay (book s)
    \<and> feed_delay (book s') = feed_delay (book s)
    \<and> del_q s' = del_q s \<and> ordermap s' = ordermap s \<and> exec_slate s' = exec_slate s"
proof -
  note f = feed_frame_sel [OF sim_keeps_feed [OF assms]]
  show ?thesis
    using f(2-) cfg_sel [OF f(1)] by simp
qed

theorem own_orders_keep_market_clock_witness:
  "case process_market_data ex_feed (ex_sim 1 1) (Some 9) of
     Inr s' \<Rightarrow> last_processed_ts (book s') = 0 \<and> bidqs (book s') \<noteq> bidqs (book ex_feed)
   | Inl _ \<Rightarrow> False"
proof -
  have h: "p_is_sim (ex_sim 1 1)" "p_mev (ex_sim 1 1) \<noteq> CLEAR" "returns (process_market_data ex_feed (ex_sim 1 1) (Some 9))"
    "last_processed_ts (book ex_feed) = 0" "map isempty (bidqs (book ex_feed)) \<noteq> map isempty (bidqs (book (projr (process_market_data ex_feed (ex_sim 1 1) (Some 9)))))"
    by code_simp+
  then obtain s' where s': "process_market_data ex_feed (ex_sim 1 1) (Some 9) = Inr s'"
    by (auto simp: returns_iff)
  then show ?thesis
    using own_orders_keep_market_clock [OF h(1,2) s'] h(4,5) by auto
qed

text \<open>A market record that is not a clear sets the clock of the outgoing messages to its own time.\<close>

lemma market_data_clock:
  assumes "process_market_data s tp sender = Inr s'" "\<not> p_is_sim tp" "p_txtim_epoch tp \<noteq> 0" "p_mev tp \<noteq> CLEAR"
  shows "last_processed_ts (book s') = p_txtim_epoch tp"
proof -
  obtain s1 s2 where st: "no_cross (md_clock s tp) tp = Inr s1" "process_add_or_mod s1 tp sender = Inr s2"
    "s' = s2 \<or> \<not> p_is_sim tp \<and> publish_depth s2 tp = Inr s'"
    using market_data_steps [OF assms(1)] .
  have "last_processed_ts (book s1) = p_txtim_epoch tp"
    using st(1) assms(2,3) by (auto simp: no_cross_def md_clock_def Let_def split: if_splits)
  then have "last_processed_ts (book s2) = p_txtim_epoch tp"
    using cfg_sel(12) [OF feed_frame_sel(1) [OF frame_add_or_mod [OF st(2) assms(4)]]] by simp
  moreover have "last_processed_ts (publish_all b xs m t) = last_processed_ts b" for b xs m t
    by (rule cfg_sel(12)) simp
  ultimately show ?thesis
    using st(3) by (auto simp: publish_depth_def Let_def split: if_splits)
qed

text \<open>
  Releasing an execution that was held back restores \<open>currtim\<close> and \<open>txtim_epoch\<close>, but leaves
  \<open>last_processed_ts\<close> at the time of that execution, also when records of later times were
  processed before.
\<close>

theorem released_exec_moves_stamp:
  assumes "release_execs s [(f, r)] = Inr s'" "r \<noteq> AGGRESSOR" "p_px (f_pl f) > 0" "p_txtim_epoch (f_pl f) \<noteq> 0"
    "p_mev (f_pl f) = MOD"
  shows "last_processed_ts (book s') = p_txtim_epoch (f_pl f) \<and> currtim (book s') = currtim (book s)
    \<and> txtim_epoch s' = txtim_epoch s"
proof -
  obtain s1 where s1: "process_q s (f_pl f) = Inr s1"
    "s' = s1\<lparr>book := (book s1)\<lparr>currtim := currtim (book s)\<rparr>, txtim_epoch := txtim_epoch s\<rparr>"
    using assms(1,2) by auto
  obtain s2 where s2: "\<not> p_is_sim (f_pl f)" "process_market_data s2 (f_pl f) None = Inr s1"
    using s1(1) assms(3) by (auto simp: process_q_def Let_def)
  show ?thesis
    using market_data_clock [OF s2(2,1) assms(4)] assms(5) s1(2) by simp
qed

section \<open>Snapshots and incremental records\<close>

text \<open>
  A snapshot record that is rejected as stale still lowers the recovery watermark. An
  incremental record whose time the accepted snapshot covers is rejected; after a stale
  snapshot record came and was rejected, the same record is accepted, and applied to a book
  that already contains it.
\<close>

theorem stale_snapshot_reopens_feed:
  assumes "recovery r" "\<not> recovery d" "0 < tr" "tr < last_tx_tim s" "tr < td" "td \<le> last_recovery_tx_tim s"
  shows "(\<exists>s1. dh_recovery s d td = Inr (s1, False))
    \<and> (\<exists>s1 s2. dh_recovery s r tr = Inr (s1, False) \<and> dh_recovery s1 d td = Inr (s2, True))"
proof -
  have nz: "tr \<noteq> 0" "td \<noteq> 0" "last_tx_tim s \<noteq> 0" "last_recovery_tx_tim s \<noteq> 0"
    using assms(3-6) by (auto simp: word_gt_0 [symmetric] dest: order.strict_trans1 order.strict_trans2)
  have "dh_recovery s d td = Inr (s\<lparr>last_tx_tim := td\<rparr>, False)"
    using assms nz by (simp add: dh_recovery_def Let_def)
  moreover have "dh_recovery s r tr = Inr (s\<lparr>last_recovery_tx_tim := tr\<rparr>, False)"
    using assms nz by (simp add: dh_recovery_def Let_def)
  moreover have "\<exists>s2. dh_recovery (s\<lparr>last_recovery_tx_tim := tr\<rparr>) d td = Inr (s2, True)"
    using assms nz by (simp add: dh_recovery_def Let_def)
  ultimately show ?thesis
    by blast
qed

theorem stale_snapshot_reopens_feed_witness:
  "\<exists>s1 s2 r d. dh_recovery (ex_feed\<lparr>last_tx_tim := 90, last_recovery_tx_tim := 100\<rparr>) r 80 = Inr (s1, False)
    \<and> dh_recovery s1 d 95 = Inr (s2, True)"
proof -
  define d where "d = \<lparr>venue = 11, transactTime = 95, sendingTime = 95, mbo_handlerendtim = 95, orderUpdateAction = 0,
       securityID = 7, orderID = 1, pxd = 40, displayQty = 3, mbo_side = CHR ''0'', endOfEvent = True, recovery = False\<rparr>"
  have "recovery (d\<lparr>recovery := True\<rparr>)" "\<not> recovery d"
    by (simp_all add: d_def)
  from stale_snapshot_reopens_feed [OF this, of 80 "ex_feed\<lparr>last_tx_tim := 90, last_recovery_tx_tim := 100\<rparr>" 95]
  show ?thesis
    by auto
qed

end
