(* ===== verification/SOM_Book.thy ===== *)
theory SOM_Book
  imports SOM_Properties OB_Feed_Properties
begin

text \<open>
  The order manager in front of a simulated book: the messages of \<open>SOM\<close> are the orders of our
  own traders that \<open>OB_Feed\<close> expects. \<open>Data\<close> with an \<open>l3_sim_t\<close> record and \<open>israw\<close> false is
  \<open>sim_data\<close>.
\<close>

definition sim_data :: "payload \<Rightarrow> actor \<Rightarrow> Data" where
  "sim_data p a = \<lparr>israw = False, d_l3 = SIM_REC, d_payload = p, d_sender = Some a\<rparr>"

lemma data_handler_sim: "data_handler brk ob (sim_data p a) = dh_sim ob p (Some a)"
  by (simp add: data_handler_def sim_data_def dh_filter_def dh_first_def record_tx_time_def)

lemma own_order_queued:
  assumes "own_order p" "currtim (book ob) > 0" "p_ts0 p \<noteq> 0"
  shows "data_handler brk ob (sim_data p a) =
    Inr (ob\<lparr>del_q := del_q ob @ [(p\<lparr>p_send_tim := currtim (book ob), p_txtim_epoch := currtim (book ob)\<rparr>, Some a)]\<rparr>)"
  using assms by (simp add: data_handler_sim dh_sim_def own_order_def Let_def)

lemma p_is_sim_upd [simp]: "p_is_sim (p\<lparr>p_send_tim := t, p_txtim_epoch := t'\<rparr>) \<longleftrightarrow> p_is_sim p"
  by (simp add: p_is_sim_def)



text \<open>
  A stop can bring the simulated book down. The cancels a stop sends carry no time, and the
  book insists that nothing waits in its delay queue when it is handed a message without one:
  if an order of ours is still on its way when trading is stopped, the first cancel that
  reaches the book aborts the program.
\<close>

theorem som_stop_aborts_busy_book:
  assumes "stop_trading_handler visit s = Inr s'" "Send b (BookData p) \<in> set (sent_since s s')"
    and "currtim (book ob) > 0" "del_q ob \<noteq> []"
  shows "data_handler brk ob (sim_data p (s_self s)) = Inl (Assert ''untimed cancel while sim orders are still queued'')"
proof -
  have "som_step visit s InStop = Inr s'"
    using assms(1) by (simp add: som_step_def)
  then have "own_order p" "p_ts0 p = 0"
    using fits_sent [OF fits_step assms(2)] by (auto simp: stamp_of_def)
  then show ?thesis
    using assms(3,4) by (simp add: data_handler_sim dh_sim_def own_order_def)
qed

theorem som_stop_aborts_busy_book_witness:
  "case stop_trading_handler (\<lambda>_. [18000000]) (ex_run [InOrder (ex_order 3 BUY)]) of
     Inr s' \<Rightarrow> (\<exists>p. Send 100 (BookData p) \<in> set (sent_since (ex_run [InOrder (ex_order 3 BUY)]) s')
        \<and> data_handler (\<lambda>_. False) ex_feed (sim_data p 1) = Inl (Assert ''untimed cancel while sim orders are still queued''))
   | Inl _ \<Rightarrow> False"
proof -
  define s where "s = ex_run [InOrder (ex_order 3 BUY)]"
  have h: "returns (stop_trading_handler (\<lambda>_. [18000000]) s)"
    "case stop_trading_handler (\<lambda>_. [18000000]) s of
       Inr s' \<Rightarrow> (case sent_since s s' of [Send a (BookData _)] \<Rightarrow> a = 100 | _ \<Rightarrow> False) | Inl _ \<Rightarrow> False"
    "currtim (book ex_feed) > 0" "del_q ex_feed \<noteq> []" "s_self s = 1"
    unfolding s_def ex_feed_def by (code_simp, code_simp, code_simp, simp add: Let_def, code_simp)
  then obtain s' where s': "stop_trading_handler (\<lambda>_. [18000000]) s = Inr s'"
    by (auto simp: returns_iff)
  then obtain p where p: "Send 100 (BookData p) \<in> set (sent_since s s')"
    using h(2) by (auto split: list.splits som_out.splits som_msg.splits)
  from som_stop_aborts_busy_book [OF s' p h(3,4), where brk = "\<lambda>_. False"] show ?thesis
    unfolding s_def [symmetric] using s' p h(5) by auto
qed

end
