(* ===== verification/OB_Invariant.thy ===== *)
theory OB_Invariant
  imports OB_Book
begin

text \<open>
  The invariant of the book and that every operation of \<open>OB_Book\<close> keeps it: the ladders
  have their size, every level is well formed and holds orders of its side only, addresses
  are below the next one to be allocated, and no real order is better than the inside.
\<close>

section \<open>Publication leaves the book alone\<close>

lemma publish_sel [simp]:
  "bidqs (publish_delayed b to m now) = bidqs b" "askqs (publish_delayed b to m now) = askqs b"
  "best_bid (publish_delayed b to m now) = best_bid b" "best_ask (publish_delayed b to m now) = best_ask b"
  "maxprice (publish_delayed b to m now) = maxprice b" "asset_maxpx (publish_delayed b to m now) = asset_maxpx b"
  "do_cross_check (publish_delayed b to m now) = do_cross_check b" "sym (publish_delayed b to m now) = sym b"
  "currtim (publish_delayed b to m now) = currtim b" "next_addr (publish_delayed b to m now) = next_addr b"
  "last_bbo_notify_tim (publish_delayed b to m now) = last_bbo_notify_tim b"
  "bbbosubs (publish_delayed b to m now) = bbbosubs b" "feed_delay (publish_delayed b to m now) = feed_delay b"
  "last_processed_ts (publish_delayed b to m now) = last_processed_ts b"
  "num_cross_recover (publish_delayed b to m now) = num_cross_recover b"
  by (simp_all add: publish_delayed_def)

definition quiet :: "(Book \<Rightarrow> 'a) \<Rightarrow> bool" where
  "quiet f \<longleftrightarrow> (\<forall>b to m now. f (publish_delayed b to m now) = f b)"

lemma quiet_ret_path:
  assumes "quiet f"
  shows "f (ret_path b out) = f b"
proof -
  have "f (foldl (\<lambda>b (to, m). publish_delayed b to (Ret m) (last_processed_ts b)) b out) = f b"
    using assms by (induction out arbitrary: b) (auto simp: quiet_def)
  then show ?thesis
    by (simp add: ret_path_def)
qed

lemma ret_path_sel [simp]:
  "bidqs (ret_path b out) = bidqs b" "askqs (ret_path b out) = askqs b"
  "best_bid (ret_path b out) = best_bid b" "best_ask (ret_path b out) = best_ask b"
  "maxprice (ret_path b out) = maxprice b" "asset_maxpx (ret_path b out) = asset_maxpx b"
  "do_cross_check (ret_path b out) = do_cross_check b" "sym (ret_path b out) = sym b"
  "currtim (ret_path b out) = currtim b" "next_addr (ret_path b out) = next_addr b"
  "last_bbo_notify_tim (ret_path b out) = last_bbo_notify_tim b"
  "bbbosubs (ret_path b out) = bbbosubs b" "feed_delay (ret_path b out) = feed_delay b"
  "last_processed_ts (ret_path b out) = last_processed_ts b"
  "num_cross_recover (ret_path b out) = num_cross_recover b"
  by (rule quiet_ret_path, simp add: quiet_def)+

lemma quiet_notify:
  assumes "quiet f" "\<And>b t. f (b\<lparr>last_bbo_notify_tim := t\<rparr>) = f b"
  shows "f (notifybbbosubs b txtim side venue) = f b"
proof -
  have "f (foldl (\<lambda>b c. publish_delayed b c (BBBOChg txtim venue side (sym b) (best_bid b) (best_ask b)) txtim) b cs) = f b"
    for b cs
    using assms(1) by (induction cs arbitrary: b) (auto simp: quiet_def)
  then show ?thesis
    using assms(2) by (simp add: notifybbbosubs_def)
qed

lemma notify_sel [simp]:
  "bidqs (notifybbbosubs b txtim side venue) = bidqs b" "askqs (notifybbbosubs b txtim side venue) = askqs b"
  "best_bid (notifybbbosubs b txtim side venue) = best_bid b" "best_ask (notifybbbosubs b txtim side venue) = best_ask b"
  "maxprice (notifybbbosubs b txtim side venue) = maxprice b" "asset_maxpx (notifybbbosubs b txtim side venue) = asset_maxpx b"
  "do_cross_check (notifybbbosubs b txtim side venue) = do_cross_check b" "sym (notifybbbosubs b txtim side venue) = sym b"
  "currtim (notifybbbosubs b txtim side venue) = currtim b" "next_addr (notifybbbosubs b txtim side venue) = next_addr b"
  "bbbosubs (notifybbbosubs b txtim side venue) = bbbosubs b"
  "num_cross_recover (notifybbbosubs b txtim side venue) = num_cross_recover b"
  by (rule quiet_notify, simp_all add: quiet_def)+

section \<open>The invariant\<close>

definition no_real :: "OrderQ \<Rightarrow> bool" where
  "no_real q \<longleftrightarrow> list_all issim (orders q)"

lemma isempty_or_allsim_no_real [simp]: "isempty_or_allsim q = no_real q"
  by (auto simp: isempty_or_allsim_def isempty_def has_all_sim_def no_real_def)

definition level_ok :: "bs \<Rightarrow> addr \<Rightarrow> OrderQ \<Rightarrow> bool" where
  "level_ok side bd q \<longleftrightarrow> orderq_inv q \<and> (\<forall>ord\<in>set (orders q). o_side ord = side \<and> o_addr ord < bd)"

definition ladders_ok :: "Book \<Rightarrow> bool" where
  "ladders_ok b \<longleftrightarrow>
     1 < maxprice b \<and> 1 < asset_maxpx b \<and> asset_maxpx b \<le> maxprice b
     \<and> length (bidqs b) = nat (maxprice b + 2) \<and> length (askqs b) = nat (maxprice b + 2)
     \<and> list_all (level_ok BUY (next_addr b)) (bidqs b) \<and> list_all (level_ok SEL (next_addr b)) (askqs b)"

definition inside_ok :: "Book \<Rightarrow> bool" where
  "inside_ok b \<longleftrightarrow>
     0 \<le> best_bid b \<and> best_bid b < maxprice b \<and> 0 \<le> best_ask b \<and> best_ask b \<le> maxprice b + 1
     \<and> (\<forall>i<length (bidqs b). int i > best_bid b \<longrightarrow> no_real (bidqs b ! i))
     \<and> (\<forall>i<length (askqs b). int i < best_ask b \<longrightarrow> no_real (askqs b ! i))"

definition book_inv :: "Book \<Rightarrow> bool" where
  "book_inv b \<longleftrightarrow> ladders_ok b \<and> inside_ok b"

lemma book_inv_cong:
  assumes "bidqs b' = bidqs b" "askqs b' = askqs b" "best_bid b' = best_bid b" "best_ask b' = best_ask b"
    "maxprice b' = maxprice b" "asset_maxpx b' = asset_maxpx b" "next_addr b' = next_addr b"
  shows "book_inv b' = book_inv b" "ladders_ok b' = ladders_ok b" "inside_ok b' = inside_ok b"
  using assms by (simp_all add: book_inv_def ladders_ok_def inside_ok_def)

lemma Book_init_inv:
  assumes "Book_init cross s mx = Inr b"
  shows "book_inv b"
  using assms
  by (auto simp: Book_init_def book_inv_def ladders_ok_def inside_ok_def level_ok_def no_real_def
      OrderQ_empty_def list_all_iff simp flip: OrderQ_empty_def)
    (simp_all add: OrderQ_empty_def orderq_inv_def real_orders_def fm_inv_def)

lemma ladder_level:
  assumes "ladders_ok b" "lvl_at (qv b side) i = Inr q" "side = BUY \<or> side = SEL"
  shows "level_ok side (next_addr b) q" "0 \<le> i" "nat i < length (qv b side)" "q = qv b side ! nat i"
proof -
  show *: "0 \<le> i" "nat i < length (qv b side)" "q = qv b side ! nat i"
    using assms(2) by (auto simp: lvl_at_def split: if_splits)
  then show "level_ok side (next_addr b) q"
    using assms(1,3) by (auto simp: ladders_ok_def qv_def list_all_length)
qed

lemma set_lvl_sel [simp]:
  "best_bid (set_lvl b side i q) = best_bid b" "best_ask (set_lvl b side i q) = best_ask b"
  "maxprice (set_lvl b side i q) = maxprice b" "asset_maxpx (set_lvl b side i q) = asset_maxpx b"
  "next_addr (set_lvl b side i q) = next_addr b" "do_cross_check (set_lvl b side i q) = do_cross_check b"
  "length (bidqs (set_lvl b side i q)) = length (bidqs b)" "length (askqs (set_lvl b side i q)) = length (askqs b)"
  "sent (set_lvl b side i q) = sent b" "pub_q (set_lvl b side i q) = pub_q b"
  "last_bbo_notify_tim (set_lvl b side i q) = last_bbo_notify_tim b" "bbbosubs (set_lvl b side i q) = bbbosubs b"
  "feed_delay (set_lvl b side i q) = feed_delay b" "last_processed_ts (set_lvl b side i q) = last_processed_ts b"
  "num_cross_recover (set_lvl b side i q) = num_cross_recover b" "sym (set_lvl b side i q) = sym b"
  "currtim (set_lvl b side i q) = currtim b"
  by (simp_all add: set_lvl_def)

lemma qv_set_lvl [simp]:
  "side = BUY \<or> side = SEL \<Longrightarrow> side' = BUY \<or> side' = SEL \<Longrightarrow>
     qv (set_lvl b side i q) side' = (if side' = side then (qv b side)[nat i := q] else qv b side')"
  by (auto simp: qv_def set_lvl_def)

lemma set_lvl_ladders:
  assumes "ladders_ok b" "level_ok side (next_addr b) q" "side = BUY \<or> side = SEL"
  shows "ladders_ok (set_lvl b side i q)"
  using assms by (auto simp: ladders_ok_def set_lvl_def list_all_iff dest!: set_update_subset_insert [THEN subsetD])

lemma level_ok_mono: "level_ok side bd q \<Longrightarrow> bd \<le> bd' \<Longrightarrow> level_ok side bd' q"
  by (fastforce simp: level_ok_def)

lemma ladders_ok_alloc:
  assumes "ladders_ok b" "next_addr b \<le> n"
  shows "ladders_ok (b\<lparr>next_addr := n\<rparr>)"
  using assms level_ok_mono by (fastforce simp: ladders_ok_def list_all_iff)

lemma set_lvl_inside:
  assumes "inside_ok b" "side = BUY \<or> side = SEL" "no_real (qv b side ! nat i) \<longrightarrow> no_real q"
  shows "inside_ok (set_lvl b side i q)"
  using assms by (auto simp: inside_ok_def set_lvl_def qv_def nth_list_update_if)


section \<open>Steps that take orders off one level\<close>

definition book_frame :: "Book \<Rightarrow> Book" where
  "book_frame b = b\<lparr>bidqs := [], askqs := [], sent := [], pub_q := [], num_cross_recover := 0\<rparr>"

lemma book_frame_sel:
  assumes "book_frame b' = book_frame b"
  shows "best_bid b' = best_bid b" "best_ask b' = best_ask b" "maxprice b' = maxprice b"
    "asset_maxpx b' = asset_maxpx b" "next_addr b' = next_addr b" "do_cross_check b' = do_cross_check b"
    "last_bbo_notify_tim b' = last_bbo_notify_tim b" "bbbosubs b' = bbbosubs b" "sym b' = sym b"
    "currtim b' = currtim b"
  using assms by (cases b, cases b', simp add: book_frame_def)+

lemma book_frame_simps [simp]:
  "book_frame (set_lvl b side i q) = book_frame b" "book_frame (b\<lparr>num_cross_recover := n\<rparr>) = book_frame b"
  by (simp_all add: book_frame_def set_lvl_def)

lemma book_frame_ret_path [simp]: "book_frame (ret_path b out) = book_frame b"
  by (rule quiet_ret_path) (auto simp: quiet_def book_frame_def publish_delayed_def)

lemma qv_book_frame [simp]:
  "qv (ret_path b out) side = qv b side" "qv (b\<lparr>num_cross_recover := n\<rparr>) side = qv b side"
  by (simp_all add: qv_def)

lemma ladders_qv:
  assumes "ladders_ok b" "side = BUY \<or> side = SEL" "0 \<le> i" "i \<le> maxprice b + 1"
  shows "lvl_at (qv b side) i = Inr (qv b side ! nat i)" "nat i < length (qv b side)"
    "level_ok side (next_addr b) (qv b side ! nat i)"
  using assms by (auto simp: ladders_ok_def qv_def lvl_at_def list_all_length)

text \<open>
  \<open>only_level b b' side lvl os\<close>: \<open>b'\<close> is \<open>b\<close> with the orders of one level replaced by \<open>os\<close>,
  and is still a well-formed pair of ladders.
\<close>

definition only_level :: "Book \<Rightarrow> Book \<Rightarrow> bs \<Rightarrow> int \<Rightarrow> Order list \<Rightarrow> bool" where
  "only_level b b' side lvl os \<longleftrightarrow>
     book_frame b' = book_frame b \<and> ladders_ok b'
     \<and> qv b' (other_side side) = qv b (other_side side)
     \<and> (\<forall>i<length (qv b side). i \<noteq> nat lvl \<longrightarrow> qv b' side ! i = qv b side ! i)
     \<and> orders (qv b' side ! nat lvl) = os"

lemma only_level_sel:
  assumes "only_level b b' side lvl os"
  shows "maxprice b' = maxprice b" "do_cross_check b' = do_cross_check b" "ladders_ok b'"
    "orders (qv b' side ! nat lvl) = os"
  using assms book_frame_sel(3,6) unfolding only_level_def by blast+

lemma only_level_set:
  assumes "ladders_ok b" "side = BUY \<or> side = SEL" "0 \<le> lvl" "lvl \<le> maxprice b + 1"
    "level_ok side (next_addr b) q"
  shows "only_level b (ret_path (set_lvl b side lvl q) out) side lvl (orders q)"
proof -
  have "ladders_ok (set_lvl b side lvl q)"
    using set_lvl_ladders [OF assms(1,5,2)] .
  then have "ladders_ok (ret_path (set_lvl b side lvl q) out)"
    by (subst book_inv_cong(2) [of _ "set_lvl b side lvl q"]) simp_all
  then show ?thesis
    using assms ladders_qv(2) [OF assms(1-4)]
    by (auto simp: only_level_def nth_list_update_if)
qed

lemma level_ok_drop: "level_ok side bd q \<Longrightarrow> s \<in> set (orders q) \<Longrightarrow> level_ok side bd (drop_order q s)"
  using drop_order_inv by (auto simp: level_ok_def drop_order_def)

lemma level_ok_resize:
  "level_ok side bd q \<Longrightarrow> s \<in> set (orders q) \<Longrightarrow> n > 0 \<Longrightarrow> level_ok side bd (resize_order q s n)"
  using resize_order_inv by (auto simp: level_ok_def resize_order_def)

lemma consume_mem:
  "x \<in> set (consume n xs) \<Longrightarrow> \<exists>y\<in>set xs. o_addr x = o_addr y \<and> o_side x = o_side y \<and> o_id x = o_id y"
  by (induction n xs rule: consume.induct) (auto split: if_splits)

lemma consume_real: "filter (\<lambda>x. \<not> issim x) (consume n xs) = filter (\<lambda>x. \<not> issim x) xs"
  by (induction n xs rule: consume.induct) auto

lemma q_fill_level:
  assumes "level_ok side bd q" "orders q = pre @ s # post" "issim s" "sz > 0" "tim > 0"
  shows "\<exists>q'. q_fill (length (orders q)) q (o_addr s) sz px tim = Inr (q', consume_fills sz px tim (s # rev pre))
     \<and> level_ok side bd q' \<and> orders q' = rev (consume sz (s # rev pre)) @ post"
proof -
  obtain q' where q': "q_fill (length (orders q)) q (o_addr s) sz px tim = Inr (q', consume_fills sz px tim (s # rev pre))"
    "orderq_inv q'" "orders q' = rev (consume sz (s # rev pre)) @ post"
    using q_fill_ok [of q pre s post sz tim "length (orders q)" px] assms by (auto simp: level_ok_def)
  have "o_side x = side \<and> o_addr x < bd" if x: "x \<in> set (orders q')" for x
  proof -
    consider "x \<in> set post" | "x \<in> set (consume sz (s # rev pre))"
      using x q'(3) by auto
    then show ?thesis
    proof cases
      case 1
      then show ?thesis using assms(1,2) by (simp add: level_ok_def)
    next
      case 2
      then obtain y where "y \<in> set (s # rev pre)" "o_addr x = o_addr y" "o_side x = o_side y"
        using consume_mem by blast
      then show ?thesis using assms(1,2) by (auto simp: level_ok_def)
    qed
  qed
  then show ?thesis
    using q' by (auto simp: level_ok_def)
qed


lemma ob_fill_ok:
  assumes "ladders_ok b" "side = BUY \<or> side = SEL" "0 \<le> lvl" "lvl \<le> maxprice b + 1"
    "orders (qv b side ! nat lvl) = pre @ s # post" "issim s" "sz > 0" "tim > 0"
  shows "\<exists>b'. ob_fill b side lvl (o_addr s) sz px tim = Inr b'
     \<and> only_level b b' side lvl (rev (consume sz (s # rev pre)) @ post)"
proof -
  note lq = ladders_qv [OF assms(1-4)]
  obtain q' where q': "q_fill (length (orders (qv b side ! nat lvl))) (qv b side ! nat lvl) (o_addr s) sz px tim
        = Inr (q', consume_fills sz px tim (s # rev pre))"
    "level_ok side (next_addr b) q'" "orders q' = rev (consume sz (s # rev pre)) @ post"
    using q_fill_level [OF lq(3) assms(5-8)] by blast
  then show ?thesis
    using only_level_set [OF assms(1-4) q'(2), of "consume_fills sz px tim (s # rev pre)"] lq(1)
    by (simp add: ob_fill_def)
qed

lemma do_canc_ok:
  assumes "ladders_ok b" "side = BUY \<or> side = SEL" "0 \<le> lvl" "lvl \<le> maxprice b + 1"
    "order_at (qv b side ! nat lvl) a = Some s" "m = CANCD \<and> disp \<ge> 0 \<or> m = CANC \<and> disp > 0"
  shows "\<exists>b'. do_canc b side lvl a sz disp m = Inr b'
     \<and> only_level b b' side lvl (orders (if m = CANCD then drop_order (qv b side ! nat lvl) s
                                          else resize_order (qv b side ! nat lvl) s disp))"
proof -
  let ?q = "qv b side ! nat lvl"
  note lq = ladders_qv [OF assms(1-4)]
  have inv: "orderq_inv ?q" and mem: "s \<in> set (orders ?q)"
    using lq(3) order_atD [OF assms(5)] by (auto simp: level_ok_def)
  let ?q' = "if m = CANCD then drop_order ?q s else resize_order ?q s disp"
  have "\<exists>out. canc_notify ?q a sz disp m = Inr (?q', out)"
    using assms(6) canc_notify_CANCD [OF inv assms(5)] canc_notify_CANC [OF inv assms(5)] by auto
  then obtain out where out: "canc_notify ?q a sz disp m = Inr (?q', out)"
    by blast
  have "level_ok side (next_addr b) ?q'"
    using assms(6) level_ok_drop [OF lq(3) mem] level_ok_resize [OF lq(3) mem] by auto
  then show ?thesis
    using only_level_set [OF assms(1-4), of ?q' out] out lq(1) by (simp add: do_canc_def)
qed

text \<open>The sweep of a level: what \<open>fill_stray_sim_orders\<close> leaves of it.\<close>

definition swept :: "Book \<Rightarrow> addr set \<Rightarrow> Order list \<Rightarrow> Order list" where
  "swept b A os = filter (\<lambda>s. o_addr s \<notin> A \<or> do_cross_check b \<and> \<not> issim s) os"

lemma drop_order_orders: "orders (drop_order q s) = filter (\<lambda>x. o_addr x \<noteq> o_addr s) (orders q)"
  by (simp add: drop_order_def)

lemma ladders_length:
  "ladders_ok b \<Longrightarrow> length (qv b side) = nat (maxprice b + 2)"
  by (simp add: ladders_ok_def qv_def)

lemma only_level_trans:
  assumes "ladders_ok b" "only_level b b1 side lvl os1" "only_level b1 b2 side lvl os2"
  shows "only_level b b2 side lvl os2"
proof -
  have "maxprice b1 = maxprice b" "ladders_ok b1"
    using only_level_sel [OF assms(2)] by simp_all
  then have "length (qv b1 side) = length (qv b side)"
    using ladders_length assms(1) by metis
  then show ?thesis
    using assms(2,3) by (auto simp: only_level_def)
qed

lemma only_level_frame:
  "only_level b b' side lvl os \<Longrightarrow> only_level b (b'\<lparr>num_cross_recover := n\<rparr>) side lvl os"
  by (auto simp: only_level_def book_inv_cong(2) [of "b'\<lparr>num_cross_recover := n\<rparr>" b'])

lemma stray_orders_ok:
  assumes "ladders_ok b" "side = BUY \<or> side = SEL" "0 \<le> lvl" "lvl \<le> maxprice b + 1" "txtim > 0"
    "distinct as" "set as \<subseteq> o_addr ` set (orders (qv b side ! nat lvl))"
  shows "\<exists>b' n'. stray_orders b side lvl txtim as n = Inr (b', n')
     \<and> only_level b b' side lvl (swept b (set as) (orders (qv b side ! nat lvl)))"
  using assms
proof (induction as arbitrary: b n)
  case Nil
  then show ?case
    by (auto simp: only_level_def swept_def intro!: filter_True [symmetric])
next
  case (Cons a as)
  let ?q = "qv b side ! nat lvl"
  note P = Cons.prems
  note lq = ladders_qv [OF P(1-4)]
  obtain s where s: "s \<in> set (orders ?q)" "o_addr s = a"
    using P(7) by auto
  have inv: "orderq_inv ?q" and side: "o_side s = side"
    using lq(3) s(1) by (auto simp: level_ok_def)
  have at: "order_at ?q a = Some s"
    using order_at_mem [of ?q s] inv s by (simp add: orderq_inv_def)
  obtain pre post where sp: "orders ?q = pre @ s # post"
    using s(1) by (metis split_list)
  have ok: "o_sz s > 0"
    using orderq_invD(2) [OF inv at] .
  have keep: "only_level b b2 side lvl (swept b (set (a # as)) (orders ?q))"
    if "only_level b b1 side lvl (orders (drop_order ?q s))"
       "only_level b1 b2 side lvl (swept b1 (set as) (orders (qv b1 side ! nat lvl)))"
       "issim s \<or> \<not> do_cross_check b" for b1 b2
  proof -
    have "orders (qv b1 side ! nat lvl) = filter (\<lambda>x. o_addr x \<noteq> a) (orders ?q)"
      using only_level_sel(4) [OF that(1)] s(2) by (simp add: drop_order_orders)
    moreover have "do_cross_check b1 = do_cross_check b"
      using only_level_sel(2) [OF that(1)] .
    moreover have "x = s" if "x \<in> set (orders ?q)" "o_addr x = a" for x
      using id_eq_addr_eq(1) [OF inv s(1) that(1)] that(2) s(2) by simp
    ultimately have "swept b1 (set as) (orders (qv b1 side ! nat lvl)) = swept b (set (a # as)) (orders ?q)"
      using that(3) by (auto simp: swept_def intro!: filter_cong)
    then show ?thesis
      using only_level_trans [OF P(1) that(1,2)] by simp
  qed
  have sub: "set as \<subseteq> o_addr ` set (orders (qv b1 side ! nat lvl))" "maxprice b1 = maxprice b" "ladders_ok b1"
    if "only_level b b1 side lvl (orders (drop_order ?q s))" for b1
  proof -
    have "a \<notin> set as" "set as \<subseteq> o_addr ` set (orders ?q)"
      using P(6,7) by auto
    then show "set as \<subseteq> o_addr ` set (orders (qv b1 side ! nat lvl))"
      using only_level_sel(4) [OF that] s(2) by (fastforce simp: drop_order_orders)
  qed (use only_level_sel [OF that] in simp_all)
  consider (sim) "issim s" | (real) "\<not> issim s" "\<not> do_cross_check b" | (skip) "\<not> issim s" "do_cross_check b"
    by blast
  then show ?case
  proof cases
    case sim
    have d: "rev (consume (o_sz s) (s # rev pre)) @ post = orders (drop_order ?q s)"
      using sim ok drop_order_split [OF inv sp] by simp
    obtain b1 where b1: "ob_fill b side lvl a (o_sz s) lvl txtim = Inr b1"
      "only_level b b1 side lvl (orders (drop_order ?q s))"
      using ob_fill_ok [OF P(1-4) sp sim ok P(5), of lvl] s(2) d by auto
    obtain b2 n2 where "stray_orders b1 side lvl txtim as n = Inr (b2, n2)"
      "only_level b1 b2 side lvl (swept b1 (set as) (orders (qv b1 side ! nat lvl)))"
      using Cons.IH [of b1 n] sub [OF b1(2)] P(2-6) by auto
    then show ?thesis
      using b1 keep [OF b1(2)] sim side at lq(1) by auto
  next
    case real
    obtain b1 where b1: "do_canc b side lvl a (o_sz s) 0 CANCD = Inr b1"
      "only_level b b1 side lvl (orders (drop_order ?q s))"
      using do_canc_ok [OF P(1-4) at, of CANCD 0 "o_sz s"] by auto
    let ?b1 = "b1\<lparr>num_cross_recover := num_cross_recover b1 + 1\<rparr>"
    have o1: "only_level b ?b1 side lvl (orders (drop_order ?q s))"
      using only_level_frame [OF b1(2)] .
    obtain b2 n2 where "stray_orders ?b1 side lvl txtim as (n + 1) = Inr (b2, n2)"
      "only_level ?b1 b2 side lvl (swept ?b1 (set as) (orders (qv ?b1 side ! nat lvl)))"
      using Cons.IH [of ?b1 "n + 1"] sub [OF o1] P(2-6) by auto
    then show ?thesis
      using b1(1) keep [OF o1] real side at lq(1) by auto
  next
    case skip
    obtain b2 n2 where b2: "stray_orders b side lvl txtim as n = Inr (b2, n2)"
      "only_level b b2 side lvl (swept b (set as) (orders ?q))"
      using Cons.IH [of b n] P by auto
    have "x = s" if "x \<in> set (orders ?q)" "o_addr x = a" for x
      using id_eq_addr_eq(1) [OF inv s(1) that(1)] that(2) s(2) by simp
    then have "swept b (set as) (orders ?q) = swept b (set (a # as)) (orders ?q)"
      using skip by (auto simp: swept_def intro!: filter_cong)
    then show ?thesis
      using b2 skip side at lq(1) by auto
  qed
qed


text \<open>Sweeping a set of levels.\<close>

definition sweeps :: "Book \<Rightarrow> Book \<Rightarrow> bs \<Rightarrow> nat set \<Rightarrow> bool" where
  "sweeps b b' side R \<longleftrightarrow>
     book_frame b' = book_frame b \<and> ladders_ok b'
     \<and> qv b' (other_side side) = qv b (other_side side)
     \<and> (\<forall>i<length (qv b side). orders (qv b' side ! i) =
          (if i \<in> R then filter (\<lambda>s. do_cross_check b \<and> \<not> issim s) (orders (qv b side ! i))
           else orders (qv b side ! i)))"

lemma sweeps_refl: "ladders_ok b \<Longrightarrow> sweeps b b side {}"
  by (simp add: sweeps_def)

lemma sweeps_sel:
  assumes "sweeps b b' side R"
  shows "maxprice b' = maxprice b" "do_cross_check b' = do_cross_check b" "ladders_ok b'"
    "best_bid b' = best_bid b" "best_ask b' = best_ask b" "asset_maxpx b' = asset_maxpx b" "next_addr b' = next_addr b"
    "qv b' (other_side side) = qv b (other_side side)"
  using assms book_frame_sel unfolding sweeps_def by blast+

lemma sweeps_trans:
  assumes "ladders_ok b" "sweeps b b1 side R1" "sweeps b1 b2 side R2"
  shows "sweeps b b2 side (R1 \<union> R2)"
proof -
  have "length (qv b1 side) = length (qv b side)"
    using ladders_length [OF assms(1)] ladders_length [OF sweeps_sel(3) [OF assms(2)]] sweeps_sel(1) [OF assms(2)] by simp
  then show ?thesis
    using assms(2,3) sweeps_sel(2) [OF assms(2)] by (auto simp: sweeps_def intro!: filter_cong)
qed

lemma sweeps_no_real:
  assumes "sweeps b b' side R" "i < length (qv b side)" "no_real (qv b side ! i)"
  shows "no_real (qv b' side ! i)"
  using assms by (auto simp: sweeps_def no_real_def list_all_iff)

lemma sweeps_ids:
  assumes "sweeps b b' side R" "i < length (qv b side)" "x \<in> set (orders (qv b' side ! i))"
  shows "x \<in> set (orders (qv b side ! i))"
  using assms by (auto simp: sweeps_def split: if_splits)

lemma stray_level_ok:
  assumes "ladders_ok b" "side = BUY \<or> side = SEL" "0 \<le> lvl" "lvl \<le> maxprice b + 1" "txtim > 0"
  shows "\<exists>b' n'. stray_level b side lvl txtim n = Inr (b', n') \<and> sweeps b b' side {nat lvl}"
proof -
  let ?os = "orders (qv b side ! nat lvl)"
  note lq = ladders_qv [OF assms(1-4)]
  have "distinct (map o_addr ?os)"
    using lq(3) by (simp add: level_ok_def orderq_inv_def)
  then obtain b' n' where st: "stray_orders b side lvl txtim (map o_addr ?os) n = Inr (b', n')"
    and ol: "only_level b b' side lvl (swept b (set (map o_addr ?os)) ?os)"
    using stray_orders_ok [OF assms, of "map o_addr ?os" n] by auto
  have "swept b (set (map o_addr ?os)) ?os = filter (\<lambda>s. do_cross_check b \<and> \<not> issim s) ?os"
    by (auto simp: swept_def intro!: filter_cong)
  then have "sweeps b b' side {nat lvl}"
    using ol by (auto simp: only_level_def sweeps_def)
  then show ?thesis
    using st lq(2) assms(3) by (auto simp: stray_level_def)
qed

lemma stray_up_ok:
  assumes "ladders_ok b" "0 \<le> tmp" "px < maxpx" "maxpx \<le> maxprice b" "txtim > 0"
  shows "\<exists>b' n'. stray_up b px maxpx txtim tmp n = Inr (b', n') \<and> sweeps b b' SEL {i. tmp \<le> int i \<and> int i \<le> px}"
  using assms
proof (induction b px maxpx txtim tmp n rule: stray_up.induct)
  case (1 b px maxpx txtim tmp n)
  show ?case
  proof (cases "tmp \<le> px")
    case False
    then show ?thesis
      using 1(2) sweeps_refl by (auto simp: stray_up.simps [of b] sweeps_def)
  next
    case True
    have "SEL = BUY \<or> SEL = SEL" "tmp \<le> maxprice b + 1"
      using True 1(4,5) by auto
    then obtain b1 n1 where b1: "stray_level b SEL tmp txtim n = Inr (b1, n1)" "sweeps b b1 SEL {nat tmp}"
      using stray_level_ok [OF 1(2), of SEL tmp txtim n] 1(3,6) by auto
    note s1 = sweeps_sel [OF b1(2)]
    have R: "{nat tmp} \<union> {i. tmp + 1 \<le> int i \<and> int i \<le> px} = {i. tmp \<le> int i \<and> int i \<le> px}"
      using True 1(3) by auto
    show ?thesis
    proof (cases "tmp + 1 \<ge> maxpx")
      case stop: True
      then have "{i. tmp \<le> int i \<and> int i \<le> px} = {nat tmp}"
        using True 1(3,4) by auto
      then show ?thesis
        using True stop b1 by (simp add: stray_up.simps [of b])
    next
      case False
      have "\<exists>b' n'. stray_up b1 px maxpx txtim (tmp + 1) n1 = Inr (b', n')
          \<and> sweeps b1 b' SEL {i. tmp + 1 \<le> int i \<and> int i \<le> px}"
        by (rule 1(1) [OF True False s1(3)]) (use s1(1) 1(3-6) in auto)
      then obtain b2 n2 where b2: "stray_up b1 px maxpx txtim (tmp + 1) n1 = Inr (b2, n2)"
        "sweeps b1 b2 SEL {i. tmp + 1 \<le> int i \<and> int i \<le> px}"
        by blast
      then have "sweeps b b2 SEL {i. tmp \<le> int i \<and> int i \<le> px}"
        using sweeps_trans [OF 1(2) b1(2) b2(2)] R by simp
      then show ?thesis
        using True False b1 b2 by (simp add: stray_up.simps [of b])
    qed
  qed
qed


lemma stray_down_ok:
  assumes "ladders_ok b" "0 \<le> px" "tmp \<le> maxprice b + 1" "txtim > 0"
  shows "\<exists>b' n'. stray_down b px txtim tmp n = Inr (b', n')
    \<and> sweeps b b' BUY {i. px \<le> int i \<and> int i \<le> tmp \<and> (0 < i \<or> tmp = 0)}"
  using assms
proof (induction b px txtim tmp n rule: stray_down.induct)
  case (1 b px txtim tmp n)
  show ?case
  proof (cases "px \<le> tmp")
    case False
    then have "{i. px \<le> int i \<and> int i \<le> tmp \<and> (0 < i \<or> tmp = 0)} = {}"
      by auto
    then have "sweeps b b BUY {i. px \<le> int i \<and> int i \<le> tmp \<and> (0 < i \<or> tmp = 0)}"
      using sweeps_refl [OF 1(2)] by metis
    then show ?thesis
      using False by (simp add: stray_down.simps [of b])
  next
    case True
    have "BUY = BUY \<or> BUY = SEL" "0 \<le> tmp"
      using True 1(3) by auto
    then obtain b1 n1 where b1: "stray_level b BUY tmp txtim n = Inr (b1, n1)" "sweeps b b1 BUY {nat tmp}"
      using stray_level_ok [OF 1(2), of BUY tmp txtim n] 1(4,5) by auto
    note s1 = sweeps_sel [OF b1(2)]
    show ?thesis
    proof (cases "tmp - 1 \<le> 0")
      case stop: True
      then have "{i. px \<le> int i \<and> int i \<le> tmp \<and> (0 < i \<or> tmp = 0)} = {nat tmp}"
        using True 1(3) by auto
      then show ?thesis
        using True stop b1 by (simp add: stray_down.simps [of b])
    next
      case False
      then have R: "{nat tmp} \<union> {i. px \<le> int i \<and> int i \<le> tmp - 1 \<and> (0 < i \<or> tmp - 1 = 0)}
          = {i. px \<le> int i \<and> int i \<le> tmp \<and> (0 < i \<or> tmp = 0)}"
        using True 1(3) by auto
      have "\<exists>b' n'. stray_down b1 px txtim (tmp - 1) n1 = Inr (b', n')
          \<and> sweeps b1 b' BUY {i. px \<le> int i \<and> int i \<le> tmp - 1 \<and> (0 < i \<or> tmp - 1 = 0)}"
        by (rule 1(1) [OF True False s1(3)]) (use s1(1) 1(3-5) in auto)
      then obtain b2 n2 where b2: "stray_down b1 px txtim (tmp - 1) n1 = Inr (b2, n2)"
        "sweeps b1 b2 BUY {i. px \<le> int i \<and> int i \<le> tmp - 1 \<and> (0 < i \<or> tmp - 1 = 0)}"
        by blast
      then have "sweeps b b2 BUY {i. px \<le> int i \<and> int i \<le> tmp \<and> (0 < i \<or> tmp = 0)}"
        using sweeps_trans [OF 1(2) b1(2) b2(2)] R by simp
      then show ?thesis
        using True False b1 b2 by (simp add: stray_down.simps [of b])
    qed
  qed
qed

section \<open>The walks of the inside\<close>

lemma ask_walk_ok:
  assumes "0 \<le> a" "a < int (length v)" "hi < int (length v)"
  shows "\<exists>a' chg'. ask_walk v a hi chg = Inr (a', chg') \<and> a \<le> a' \<and> a' \<le> max a hi
     \<and> (\<forall>i. a \<le> int i \<and> int i < a' \<longrightarrow> no_real (v ! i)) \<and> (a' \<ge> hi \<or> \<not> no_real (v ! nat a'))"
  using assms
proof (induction v a hi chg rule: ask_walk.induct)
  case (1 v a hi chg)
  have lv: "lvl_at v a = Inr (v ! nat a)"
    using 1(2,3) by (simp add: lvl_at_def)
  show ?case
  proof (cases "no_real (v ! nat a) \<and> a < hi")
    case True
    then obtain a' chg' where w: "ask_walk v (a + 1) hi True = Inr (a', chg')" "a + 1 \<le> a'" "a' \<le> max (a + 1) hi"
      "\<forall>i. a + 1 \<le> int i \<and> int i < a' \<longrightarrow> no_real (v ! i)" "a' \<ge> hi \<or> \<not> no_real (v ! nat a')"
      using 1(1) [of "v ! nat a"] 1(2,4) by auto
    have "no_real (v ! i)" if "a \<le> int i" "int i < a'" for i
      using w(4) that True by (cases "int i = a") auto
    then show ?thesis
      using w True lv by (auto simp: ask_walk.simps [of v a])
  next
    case False
    then show ?thesis
      using lv by (auto simp: ask_walk.simps [of v a])
  qed
qed

lemma bid_walk_ok:
  assumes "0 \<le> p" "p < int (length v)"
  shows "\<exists>p' chg'. bid_walk v p chg = Inr (p', chg') \<and> 0 \<le> p' \<and> p' \<le> p
     \<and> (\<forall>i. p' < int i \<and> int i \<le> p \<longrightarrow> no_real (v ! i)) \<and> (p' \<le> 1 \<or> \<not> no_real (v ! nat p'))"
  using assms
proof (induction v p chg rule: bid_walk.induct)
  case (1 v p chg)
  have lv: "lvl_at v p = Inr (v ! nat p)"
    using 1(2,3) by (simp add: lvl_at_def)
  show ?case
  proof (cases "no_real (v ! nat p) \<and> p > 1")
    case True
    then obtain p' chg' where w: "bid_walk v (p - 1) True = Inr (p', chg')" "0 \<le> p'" "p' \<le> p - 1"
      "\<forall>i. p' < int i \<and> int i \<le> p - 1 \<longrightarrow> no_real (v ! i)" "p' \<le> 1 \<or> \<not> no_real (v ! nat p')"
      using 1(1) [of "v ! nat p"] 1(3) by auto
    have "no_real (v ! i)" if "p' < int i" "int i \<le> p" for i
      using w(4) that True by (cases "int i = p") auto
    then show ?thesis
      using w True lv by (auto simp: bid_walk.simps [of v p])
  next
    case False
    then show ?thesis
      using lv 1(2) by (auto simp: bid_walk.simps [of v p])
  qed
qed


section \<open>The inside follows every change\<close>

definition same_ladders :: "Book \<Rightarrow> Book \<Rightarrow> bool" where
  "same_ladders b b' \<longleftrightarrow> bidqs b' = bidqs b \<and> askqs b' = askqs b \<and> maxprice b' = maxprice b
     \<and> asset_maxpx b' = asset_maxpx b \<and> next_addr b' = next_addr b \<and> do_cross_check b' = do_cross_check b
     \<and> sym b' = sym b"

lemma same_ladders_ok: "same_ladders b b' \<Longrightarrow> ladders_ok b \<Longrightarrow> ladders_ok b'"
  by (simp add: same_ladders_def ladders_ok_def)

lemma book_len: "book_inv b \<Longrightarrow> int (length (bidqs b)) = maxprice b + 2 \<and> int (length (askqs b)) = maxprice b + 2"
  by (auto simp: book_inv_def ladders_ok_def)

lemma uncross_buy_ok:
  assumes "book_inv b"
  shows "\<exists>b' chg real. uncross_buy b n = Inr (b', chg, real) \<and> same_ladders b b' \<and> book_inv b' \<and> best_bid b' = best_bid b"
proof (cases "\<not> do_cross_check b \<and> (n \<noteq> 0 \<or> best_bid b \<ge> best_ask b)")
  case True
  let ?hi = "int (length (askqs b)) - 1"
  have r: "0 \<le> best_ask b" "best_ask b < int (length (askqs b))"
    using assms book_len [OF assms] by (auto simp: book_inv_def inside_ok_def)
  obtain a' chg' where w: "ask_walk (askqs b) (best_ask b) ?hi False = Inr (a', chg')" "best_ask b \<le> a'"
    "a' \<le> max (best_ask b) ?hi" "\<forall>i. best_ask b \<le> int i \<and> int i < a' \<longrightarrow> no_real (askqs b ! i)"
    using ask_walk_ok [OF r, of ?hi False] by auto
  have "no_real (askqs b ! i)" if "i < length (askqs b)" "int i < a'" for i
    using w(4) that assms by (cases "int i < best_ask b") (auto simp: book_inv_def inside_ok_def)
  moreover have "0 \<le> a'" "a' \<le> maxprice b + 1"
    using w(2,3) r book_len [OF assms] by auto
  ultimately have "book_inv (b\<lparr>best_ask := a'\<rparr>)"
    using assms by (auto simp: book_inv_def ladders_ok_def inside_ok_def)
  then show ?thesis
    using True w(1) r by (auto simp: uncross_buy_def same_ladders_def)
next
  case False
  then have "uncross_buy b n = Inr (b, False, True)"
    by (auto simp: uncross_buy_def)
  moreover have "same_ladders b b"
    by (simp add: same_ladders_def)
  ultimately show ?thesis
    using assms by blast
qed

lemma uncross_sel_ok:
  assumes "book_inv b"
  shows "\<exists>b' chg real. uncross_sel b n = Inr (b', chg, real) \<and> same_ladders b b' \<and> book_inv b' \<and> best_ask b' = best_ask b"
proof (cases "\<not> do_cross_check b \<and> (n \<noteq> 0 \<or> best_bid b \<ge> best_ask b)")
  case True
  have r: "0 \<le> best_bid b" "best_bid b < int (length (bidqs b))"
    using assms book_len [OF assms] by (auto simp: book_inv_def inside_ok_def)
  obtain p' chg' where w: "bid_walk (bidqs b) (best_bid b) False = Inr (p', chg')" "0 \<le> p'" "p' \<le> best_bid b"
    "\<forall>i. p' < int i \<and> int i \<le> best_bid b \<longrightarrow> no_real (bidqs b ! i)"
    using bid_walk_ok [OF r, of False] by auto
  have "no_real (bidqs b ! i)" if "i < length (bidqs b)" "p' < int i" for i
    using w(4) that assms by (cases "int i > best_bid b") (auto simp: book_inv_def inside_ok_def)
  then have "book_inv (b\<lparr>best_bid := p'\<rparr>)"
    using assms w(2,3) by (auto simp: book_inv_def ladders_ok_def inside_ok_def)
  then show ?thesis
    using True w(1) r by (auto simp: uncross_sel_def same_ladders_def)
next
  case False
  then have "uncross_sel b n = Inr (b, False, True)"
    by (auto simp: uncross_sel_def)
  moreover have "same_ladders b b"
    by (simp add: same_ladders_def)
  ultimately show ?thesis
    using assms by blast
qed

lemma book_inv_notify [simp]: "book_inv (notifybbbosubs b txtim side venue) = book_inv b"
  by (rule book_inv_cong(1)) simp_all

lemma same_ladders_notify [simp]: "same_ladders b (notifybbbosubs b' txtim side venue) = same_ladders b b'"
  by (simp add: same_ladders_def)

lemma check_for_bo_change_ok:
  assumes "book_inv b" "0 \<le> px" "px < maxprice b" "side = BUY \<or> side = SEL"
  shows "\<exists>b'. check_for_bo_change b side px txtim n venue = Inr b' \<and> same_ladders b b' \<and> book_inv b'
     \<and> (side = BUY \<longrightarrow> px \<le> best_bid b') \<and> (side = SEL \<longrightarrow> best_ask b' \<le> px)"
  using assms(4)
proof
  assume side: "side = BUY"
  let ?b1 = "if px > best_bid b then b\<lparr>best_bid := px\<rparr> else b"
  have "book_inv ?b1" "same_ladders b ?b1" "px \<le> best_bid ?b1"
    using assms(1-3) by (auto simp: book_inv_def ladders_ok_def inside_ok_def same_ladders_def)
  moreover obtain b2 chg real where "uncross_buy ?b1 n = Inr (b2, chg, real)" "same_ladders ?b1 b2" "book_inv b2"
    "best_bid b2 = best_bid ?b1"
    using uncross_buy_ok [OF \<open>book_inv ?b1\<close>] by blast
  ultimately show ?thesis
    using side unfolding check_for_bo_change_def Let_def by (simp add: same_ladders_def)
next
  assume side: "side = SEL"
  let ?b1 = "if px < best_ask b then b\<lparr>best_ask := px\<rparr> else b"
  have "book_inv ?b1" "same_ladders b ?b1" "best_ask ?b1 \<le> px"
    using assms(1-3) by (auto simp: book_inv_def ladders_ok_def inside_ok_def same_ladders_def)
  moreover obtain b2 chg real where "uncross_sel ?b1 n = Inr (b2, chg, real)" "same_ladders ?b1 b2" "book_inv b2"
    "best_ask b2 = best_ask ?b1"
    using uncross_sel_ok [OF \<open>book_inv ?b1\<close>] by blast
  ultimately show ?thesis
    using side unfolding check_for_bo_change_def Let_def by (simp add: same_ladders_def)
qed

lemma adjust_inside_ok:
  assumes "book_inv b" "side = BUY \<or> side = SEL"
  shows "\<exists>b'. adjust_inside b side px txtim mkt = Inr b' \<and> same_ladders b b' \<and> book_inv b'
     \<and> (side = BUY \<and> px \<le> best_bid b \<longrightarrow> best_bid b' \<le> 1 \<or> \<not> no_real (bidqs b ! nat (best_bid b')))
     \<and> (side = SEL \<and> px \<ge> best_ask b \<longrightarrow> best_ask b' \<ge> asset_maxpx b - 1 \<or> \<not> no_real (askqs b ! nat (best_ask b')))
     \<and> (side = BUY \<longrightarrow> best_ask b' = best_ask b) \<and> (side = SEL \<longrightarrow> best_bid b' = best_bid b)"
proof (cases "side = BUY \<and> px \<le> best_bid b \<or> side = SEL \<and> px \<ge> best_ask b")
  case False
  then have "adjust_inside b side px txtim mkt = Inr b"
    using assms(2) by (auto simp: adjust_inside_def)
  then show ?thesis
    using False assms by (auto simp: same_ladders_def)
next
  case True
  then consider (buy) "side = BUY" "px \<le> best_bid b" | (sel) "side = SEL" "px \<ge> best_ask b"
    by blast
  then show ?thesis
  proof cases
    case buy
    have r: "0 \<le> best_bid b" "best_bid b < int (length (bidqs b))"
      using assms(1) book_len [OF assms(1)] by (auto simp: book_inv_def inside_ok_def)
    obtain p' chg' where w: "bid_walk (bidqs b) (best_bid b) False = Inr (p', chg')" "0 \<le> p'" "p' \<le> best_bid b"
      "\<forall>i. p' < int i \<and> int i \<le> best_bid b \<longrightarrow> no_real (bidqs b ! i)" "p' \<le> 1 \<or> \<not> no_real (bidqs b ! nat p')"
      using bid_walk_ok [OF r, of False] by auto
    have "no_real (bidqs b ! i)" if "i < length (bidqs b)" "p' < int i" for i
      using w(4) that assms(1) by (cases "int i > best_bid b") (auto simp: book_inv_def inside_ok_def)
    then have "book_inv (b\<lparr>best_bid := p'\<rparr>)"
      using assms(1) w(2,3) by (auto simp: book_inv_def ladders_ok_def inside_ok_def)
    moreover have "same_ladders b (b\<lparr>best_bid := p'\<rparr>)"
      by (simp add: same_ladders_def)
    ultimately show ?thesis
      using buy w(1,5) by (simp add: adjust_inside_def)
  next
    case sel
    have r: "0 \<le> best_ask b" "best_ask b < int (length (askqs b))" "asset_maxpx b - 1 < int (length (askqs b))"
      "asset_maxpx b - 1 > 0"
      using assms(1) book_len [OF assms(1)] by (auto simp: book_inv_def inside_ok_def ladders_ok_def)
    obtain a' chg' where w: "ask_walk (askqs b) (best_ask b) (asset_maxpx b - 1) False = Inr (a', chg')" "best_ask b \<le> a'"
      "a' \<le> max (best_ask b) (asset_maxpx b - 1)" "\<forall>i. best_ask b \<le> int i \<and> int i < a' \<longrightarrow> no_real (askqs b ! i)"
      "a' \<ge> asset_maxpx b - 1 \<or> \<not> no_real (askqs b ! nat a')"
      using ask_walk_ok [OF r(1-3), of False] by auto
    have "no_real (askqs b ! i)" if "i < length (askqs b)" "int i < a'" for i
      using w(4) that assms(1) by (cases "int i < best_ask b") (auto simp: book_inv_def inside_ok_def)
    moreover have "a' \<le> maxprice b + 1"
      using w(3) assms(1) by (auto simp: book_inv_def ladders_ok_def inside_ok_def)
    ultimately have "book_inv (b\<lparr>best_ask := a'\<rparr>)"
      using assms(1) w(2) r(1) by (auto simp: book_inv_def ladders_ok_def inside_ok_def)
    moreover have "same_ladders b (b\<lparr>best_ask := a'\<rparr>)"
      by (simp add: same_ladders_def)
    ultimately show ?thesis
      using sel w(1,5) r(4) by (simp add: adjust_inside_def)
  qed
qed

lemma append_order_ok:
  assumes "book_inv b" "side = BUY \<or> side = SEL" "0 \<le> px" "px < maxprice b" "0 < sz" "sz < CHOPIN_MAX_ORD_SZ"
    "exchid oid = x_SIM \<longleftrightarrow> sender \<noteq> None" "oid \<notin> o_id ` set (orders (qv b side ! nat px))"
    "exchid oid \<noteq> x_SIM \<longrightarrow> (side = BUY \<longrightarrow> px \<le> best_bid b) \<and> (side = SEL \<longrightarrow> best_ask b \<le> px)"
  shows "\<exists>b' ord. append_order b txtim oid side px sz sender owner exord = Inr b' \<and> book_inv b'
     \<and> orders (qv b' side ! nat px) = orders (qv b side ! nat px) @ [ord]
     \<and> o_id ord = oid \<and> o_sz ord = sz \<and> o_side ord = side
     \<and> (\<forall>i<length (qv b side). i \<noteq> nat px \<longrightarrow> qv b' side ! i = qv b side ! i)
     \<and> qv b' (other_side side) = qv b (other_side side) \<and> best_bid b' = best_bid b \<and> best_ask b' = best_ask b"
proof -
  have lad: "ladders_ok b" and ins: "inside_ok b"
    using assms(1) by (simp_all add: book_inv_def)
  note lq = ladders_qv [OF lad assms(2,3)]
  let ?q = "qv b side ! nat px"
  have lv: "lvl_at (qv b side) px = Inr ?q" "nat px < length (qv b side)" "level_ok side (next_addr b) ?q"
    using lq assms(4) by auto
  let ?ord = "\<lparr>o_addr = next_addr b, o_sz = sz, originator = sender, o_id = oid, exordid = exord, o_sym = sym b,
              o_side = side, o_deleted = False, o_cancelled = False, o_filled = False,
              o_owner = owner, o_tim = txtim, aggr_fills = 0\<rparr>"
  have new: "new_Order (next_addr b) txtim oid exord (sym b) side sz sender owner = Inr ?ord"
    using assms(5,6) by (simp add: new_Order_def)
  have sim: "issim ?ord \<longleftrightarrow> exchid oid = x_SIM"
    by (simp add: issim_def)
  have "o_addr ?ord \<notin> o_addr ` set (orders ?q)"
    using lv(3) by (force simp: level_ok_def)
  moreover have "order_ok ?ord"
    using assms(5,7) sim by (simp add: order_ok_def)
  ultimately obtain q' where q': "q_append ?q ?ord = Inr q'" "orders q' = orders ?q @ [?ord]" "orderq_inv q'"
    using q_append_inv [of ?q ?ord] lv(3) assms(8) by (auto simp: level_ok_def)
  let ?b' = "(set_lvl b side px q')\<lparr>next_addr := next_addr b + 1\<rparr>"
  have "level_ok side (next_addr b + 1) q'"
    using lv(3) q' by (auto simp: level_ok_def less_Suc_eq)
  then have "ladders_ok (set_lvl (b\<lparr>next_addr := next_addr b + 1\<rparr>) side px q')"
    using set_lvl_ladders [OF ladders_ok_alloc [OF lad] _ assms(2)] by simp
  moreover have "?b' = set_lvl (b\<lparr>next_addr := next_addr b + 1\<rparr>) side px q'"
    by (simp add: set_lvl_def)
  ultimately have l': "ladders_ok ?b'"
    by simp
  have nr: "no_real q' \<longleftrightarrow> no_real ?q \<and> exchid oid = x_SIM"
    using q'(2) sim by (simp add: no_real_def)
  have "inside_ok ?b'"
    using ins assms(2,3,9) nr lv(2)
    by (auto simp: inside_ok_def set_lvl_def qv_def nth_list_update_if)
  then have "book_inv ?b'"
    using l' by (simp add: book_inv_def)
  moreover have "append_order b txtim oid side px sz sender owner exord = Inr ?b'"
    using lv(1) new q'(1) by (simp add: append_order_def)
  moreover have "qv ?b' s = qv (set_lvl b side px q') s" for s
    by (simp add: qv_def)
  ultimately show ?thesis
    using q'(2) lv(2) assms(2)
    by (intro exI [of _ ?b'] exI [of _ ?ord]) (auto simp: nth_list_update_if)
qed


section \<open>Adding keeps the invariant\<close>

lemma sweeps_book_inv:
  assumes "book_inv b" "sweeps b b' side R" "side = BUY \<or> side = SEL"
  shows "book_inv b'"
proof -
  note s = sweeps_sel [OF assms(2)]
  have lad: "ladders_ok b"
    using assms(1) by (simp add: book_inv_def)
  have len: "length (qv b' d) = length (qv b d)" for d
    using ladders_length [OF lad] ladders_length [OF s(3)] s(1) by simp
  have nr: "no_real (qv b' d ! i)" if "d = BUY \<or> d = SEL" "i < length (qv b d)" "no_real (qv b d ! i)" for d i
  proof (cases "d = side")
    case True
    then show ?thesis
      using sweeps_no_real [OF assms(2)] that by simp
  next
    case False
    then have "d = other_side side"
      using that(1) assms(3) by auto
    then show ?thesis
      using that(3) s(8) by simp
  qed
  have "no_real (bidqs b' ! i)" if "i < length (bidqs b)" "no_real (bidqs b ! i)" for i
    using nr [of BUY i] that by (simp add: qv_def)
  moreover have "no_real (askqs b' ! i)" if "i < length (askqs b)" "no_real (askqs b ! i)" for i
    using nr [of SEL i] that by (simp add: qv_def)
  moreover have "length (bidqs b') = length (bidqs b)" "length (askqs b') = length (askqs b)"
    using len [of BUY] len [of SEL] by (simp_all add: qv_def)
  ultimately show ?thesis
    using assms(1) s by (auto simp: book_inv_def inside_ok_def)
qed

lemma fill_stray_ok:
  assumes "book_inv b" "side = BUY \<or> side = SEL" "0 \<le> px" "px < asset_maxpx b" "txtim > 0"
  shows "\<exists>b' n R. fill_stray_sim_orders b side px (asset_maxpx b) txtim = Inr (b', n)
     \<and> sweeps b b' (other_side side) R \<and> book_inv b'
     \<and> (side = BUY \<longrightarrow> R \<subseteq> {i. int i \<le> px}) \<and> (side = SEL \<longrightarrow> R \<subseteq> {i. px \<le> int i})"
proof -
  have lad: "ladders_ok b" and ins: "inside_ok b" and mx: "asset_maxpx b \<le> maxprice b"
    using assms(1) by (simp_all add: book_inv_def ladders_ok_def)
  have "\<exists>b' n R. fill_stray_sim_orders b side px (asset_maxpx b) txtim = Inr (b', n)
     \<and> sweeps b b' (other_side side) R
     \<and> (side = BUY \<longrightarrow> R \<subseteq> {i. int i \<le> px}) \<and> (side = SEL \<longrightarrow> R \<subseteq> {i. px \<le> int i})"
  proof (cases "side = BUY \<and> (px > best_bid b \<or> \<not> do_cross_check b \<and> px \<ge> best_ask b)
       \<or> side = SEL \<and> (px < best_ask b \<or> \<not> do_cross_check b \<and> px \<le> best_bid b)")
    case False
    then have "fill_stray_sim_orders b side px (asset_maxpx b) txtim = Inr (b, 0)"
      using assms(2) by (auto simp: fill_stray_sim_orders_def Let_def)
    then show ?thesis
      using sweeps_refl [OF lad] by auto
  next
    case True
    then consider (buy) "side = BUY" "px > best_bid b \<or> \<not> do_cross_check b \<and> px \<ge> best_ask b"
      | (sel) "side = SEL" "px < best_ask b \<or> \<not> do_cross_check b \<and> px \<le> best_bid b"
      by blast
    then show ?thesis
    proof cases
      case buy
      let ?t = "if \<not> do_cross_check b then min (best_bid b) (best_ask b) else best_bid b"
      have "0 \<le> ?t"
        using ins by (auto simp: inside_ok_def)
      then obtain b' n where "stray_up b px (asset_maxpx b) txtim ?t 0 = Inr (b', n)"
        "sweeps b b' SEL {i. ?t \<le> int i \<and> int i \<le> px}"
        using stray_up_ok [OF lad, of ?t px "asset_maxpx b" txtim 0] assms(4,5) mx by blast
      moreover have "fill_stray_sim_orders b side px (asset_maxpx b) txtim = stray_up b px (asset_maxpx b) txtim ?t 0"
        using buy by (auto simp: fill_stray_sim_orders_def Let_def)
      ultimately show ?thesis
        using buy(1) by (intro exI [of _ b'] exI [of _ n] exI [of _ "{i. ?t \<le> int i \<and> int i \<le> px}"]) auto
    next
      case sel
      let ?t = "if \<not> do_cross_check b then max (best_ask b) (best_bid b) else best_ask b"
      have "?t \<le> maxprice b + 1"
        using ins by (auto simp: inside_ok_def)
      then obtain b' n where "stray_down b px txtim ?t 0 = Inr (b', n)"
        "sweeps b b' BUY {i. px \<le> int i \<and> int i \<le> ?t \<and> (0 < i \<or> ?t = 0)}"
        using stray_down_ok [OF lad assms(3) _ assms(5), of ?t 0] by blast
      moreover have "fill_stray_sim_orders b side px (asset_maxpx b) txtim = stray_down b px txtim ?t 0"
        using sel by (auto simp: fill_stray_sim_orders_def Let_def)
      ultimately show ?thesis
        using sel(1) by (intro exI [of _ b'] exI [of _ n]
            exI [of _ "{i. px \<le> int i \<and> int i \<le> ?t \<and> (0 < i \<or> ?t = 0)}"]) auto
    qed
  qed
  moreover have "other_side side = BUY \<or> other_side side = SEL"
    using assms(2) by auto
  ultimately show ?thesis
    using sweeps_book_inv [OF assms(1)] by blast
qed

text \<open>The arguments of a call of \<open>add\<close> that the feed and the order gateway make.\<close>

definition add_args_ok :: "Book \<Rightarrow> u64 \<Rightarrow> u64 \<Rightarrow> bs \<Rightarrow> int \<Rightarrow> int \<Rightarrow> actor option \<Rightarrow> ot \<Rightarrow> bool" where
  "add_args_ok b txtim oid side px sz sender typ \<longleftrightarrow>
     txtim > 0 \<and> (side = BUY \<or> side = SEL) \<and> 0 \<le> px \<and> 0 < sz \<and> sz < CHOPIN_MAX_ORD_SZ
     \<and> (exchid oid = x_SIM \<longleftrightarrow> sender \<noteq> None)
     \<and> (exchid oid = x_SIM \<longrightarrow> typ = LIMIT \<and> currtim b > 0)
     \<and> (px < asset_maxpx b \<longrightarrow> oid \<notin> o_id ` set (orders (qv b side ! nat px)))"

lemma fill_sim_on_arrival_ok:
  assumes "book_inv b" "add_args_ok b txtim oid side px sz sender typ" "exchid oid = x_SIM" "px < asset_maxpx b"
  shows "fill_sim_on_arrival b txtim oid side px sz sender typ owner exord =
     (if best_bid b < best_ask b \<and> (side = BUY \<and> px \<ge> best_ask b \<or> side = SEL \<and> px \<le> best_bid b) then
        Inr (Some (ret_path (b\<lparr>next_addr := next_addr b + 1\<rparr>)
           [(the sender, Fill (id_of oid) x_SIM (sym b) (if side = BUY then best_ask b else best_bid b)
              side sz 0 owner txtim)]))
      else Inr None)"
proof -
  have a: "side = BUY \<or> side = SEL" "0 < sz" "sz < CHOPIN_MAX_ORD_SZ" "typ = LIMIT" "sender \<noteq> None"
    using assms(2,3) by (auto simp: add_args_ok_def)
  then obtain to where to: "sender = Some to"
    by blast
  have lad: "ladders_ok b" and ins: "inside_ok b"
    using assms(1) by (simp_all add: book_inv_def)
  have "lvl_at (qv b SEL) (best_ask b) = Inr (qv b SEL ! nat (best_ask b))"
    "lvl_at (qv b BUY) (best_bid b) = Inr (qv b BUY ! nat (best_bid b))"
    using ladders_qv(1) [OF lad] ins by (auto simp: inside_ok_def)
  moreover have "fill_notify_s \<lparr>o_addr = next_addr b, o_sz = sz, originator = sender, o_id = oid, exordid = exord,
      o_sym = sym b, o_side = side, o_deleted = False, o_cancelled = False, o_filled = False,
      o_owner = owner, o_tim = txtim, aggr_fills = 0\<rparr> sz (-1) best EXECD txtim
    = Inr (sz, \<lparr>o_addr = next_addr b, o_sz = 0, originator = sender, o_id = oid, exordid = exord,
      o_sym = sym b, o_side = side, o_deleted = False, o_cancelled = False, o_filled = True,
      o_owner = owner, o_tim = txtim, aggr_fills = 0\<rparr>,
      [(to, Fill (id_of oid) x_SIM (sym b) best side sz 0 owner txtim)])" for best
    using a to assms(3) by (simp add: fill_notify_s_def Order_fill_notify_def issim_def)
  ultimately show ?thesis
    using a to by (auto simp: fill_sim_on_arrival_def Let_def new_Order_def)
qed


lemma ob_add_sim_ok:
  assumes "book_inv b" "add_args_ok b txtim oid side px sz sender typ" "exchid oid = x_SIM" "px < asset_maxpx b"
  shows "\<exists>b'. ob_add b txtim oid side px sz sender typ owner exord venue = Inr b' \<and> book_inv b'
     \<and> (if best_bid b < best_ask b \<and> (side = BUY \<and> px \<ge> best_ask b \<or> side = SEL \<and> px \<le> best_bid b)
        then bidqs b' = bidqs b \<and> askqs b' = askqs b
           \<and> b' = ret_path (b\<lparr>next_addr := next_addr b + 1\<rparr>)
               [(the sender, Fill (id_of oid) x_SIM (sym b) (if side = BUY then best_ask b else best_bid b)
                  side sz 0 owner txtim)]
        else (\<exists>ord. orders (qv b' side ! nat px) = orders (qv b side ! nat px) @ [ord]
           \<and> o_id ord = oid \<and> o_sz ord = sz))"
proof -
  have a: "side = BUY \<or> side = SEL" "0 \<le> px" "0 < sz" "sz < CHOPIN_MAX_ORD_SZ" "exchid oid = x_SIM \<longleftrightarrow> sender \<noteq> None"
    "currtim b > 0" "oid \<notin> o_id ` set (orders (qv b side ! nat px))"
    using assms(2-4) by (auto simp: add_args_ok_def)
  have mx: "asset_maxpx b > 0" "px < maxprice b"
    using assms(1,4) by (auto simp: book_inv_def ladders_ok_def)
  note f = fill_sim_on_arrival_ok [OF assms, of owner exord]
  let ?c = "best_bid b < best_ask b \<and> (side = BUY \<and> px \<ge> best_ask b \<or> side = SEL \<and> px \<le> best_bid b)"
  let ?b1 = "ret_path (b\<lparr>next_addr := next_addr b + 1\<rparr>)
               [(the sender, Fill (id_of oid) x_SIM (sym b) (if side = BUY then best_ask b else best_bid b)
                  side sz 0 owner txtim)]"
  have add: "ob_add b txtim oid side px sz sender typ owner exord venue =
      (if ?c then Inr ?b1 else append_order b txtim oid side px sz sender owner exord)"
    using a assms(3,4) mx f by (auto simp: ob_add_def Let_def)
  show ?thesis
  proof (cases ?c)
    case True
    have "book_inv (b\<lparr>next_addr := next_addr b + 1\<rparr>)"
      using assms(1) ladders_ok_alloc [of b "next_addr b + 1"] by (simp add: book_inv_def inside_ok_def)
    then have "book_inv ?b1"
      by (subst book_inv_cong(1) [of _ "b\<lparr>next_addr := next_addr b + 1\<rparr>"]) simp_all
    then show ?thesis
      using add True by simp
  next
    case False
    have "\<exists>b' ord. append_order b txtim oid side px sz sender owner exord = Inr b' \<and> book_inv b'
     \<and> orders (qv b' side ! nat px) = orders (qv b side ! nat px) @ [ord] \<and> o_id ord = oid \<and> o_sz ord = sz"
      using append_order_ok [OF assms(1) a(1,2) mx(2) a(3-5) a(7), of txtim owner exord] assms(3) by blast
    then show ?thesis
      unfolding add if_not_P [OF False] by blast
  qed
qed

lemma ob_add_real_ok:
  assumes "book_inv b" "add_args_ok b txtim oid side px sz sender typ" "exchid oid \<noteq> x_SIM" "px < asset_maxpx b"
  shows "\<exists>b' R ord. ob_add b txtim oid side px sz sender typ owner exord venue = Inr b' \<and> book_inv b'
     \<and> (side = BUY \<longrightarrow> px \<le> best_bid b') \<and> (side = SEL \<longrightarrow> best_ask b' \<le> px)
     \<and> orders (qv b' side ! nat px) = orders (qv b side ! nat px) @ [ord]
     \<and> o_id ord = oid \<and> o_sz ord = sz \<and> o_side ord = side
     \<and> (\<forall>i<length (qv b side). i \<noteq> nat px \<longrightarrow> qv b' side ! i = qv b side ! i)
     \<and> (\<forall>i<length (qv b side). orders (qv b' (other_side side) ! i) =
           (if i \<in> R then filter (\<lambda>s. do_cross_check b \<and> \<not> issim s) (orders (qv b (other_side side) ! i))
            else orders (qv b (other_side side) ! i)))
     \<and> (side = BUY \<longrightarrow> R \<subseteq> {i. int i \<le> px}) \<and> (side = SEL \<longrightarrow> R \<subseteq> {i. px \<le> int i})"
proof -
  have a: "side = BUY \<or> side = SEL" "0 \<le> px" "0 < sz" "sz < CHOPIN_MAX_ORD_SZ" "exchid oid = x_SIM \<longleftrightarrow> sender \<noteq> None"
    "txtim > 0" "oid \<notin> o_id ` set (orders (qv b side ! nat px))"
    using assms(2-4) by (auto simp: add_args_ok_def)
  have mx: "asset_maxpx b > 0" "px < maxprice b"
    using assms(1,4) by (auto simp: book_inv_def ladders_ok_def)
  have os: "other_side side = BUY \<or> other_side side = SEL" "other_side (other_side side) = side"
    using a(1) by auto
  obtain b1 n R where b1: "fill_stray_sim_orders b side px (asset_maxpx b) txtim = Inr (b1, n)"
    "sweeps b b1 (other_side side) R" "book_inv b1"
    "side = BUY \<longrightarrow> R \<subseteq> {i. int i \<le> px}" "side = SEL \<longrightarrow> R \<subseteq> {i. px \<le> int i}"
    using fill_stray_ok [OF assms(1) a(1,2) assms(4) a(6)] by blast
  note s1 = sweeps_sel [OF b1(2)]
  have mx1: "px < maxprice b1"
    using mx(2) s1(1) by simp
  obtain b2 where b2: "check_for_bo_change b1 side px txtim n venue = Inr b2" "same_ladders b1 b2" "book_inv b2"
    "side = BUY \<longrightarrow> px \<le> best_bid b2" "side = SEL \<longrightarrow> best_ask b2 \<le> px"
    using check_for_bo_change_ok [OF b1(3) a(2) mx1 a(1)] by blast
  have qv2: "qv b2 d = qv b1 d" for d
    using b2(2) by (simp add: same_ladders_def qv_def)
  have qv1: "qv b1 side = qv b side"
    using s1(8) os(2) by simp
  have mx2: "px < maxprice b2" and new: "oid \<notin> o_id ` set (orders (qv b2 side ! nat px))"
    using mx1 b2(2) a(7) qv1 qv2 by (simp_all add: same_ladders_def)
  have pxs: "exchid oid \<noteq> x_SIM \<longrightarrow> (side = BUY \<longrightarrow> px \<le> best_bid b2) \<and> (side = SEL \<longrightarrow> best_ask b2 \<le> px)"
    using b2(4,5) by blast
  obtain b3 ord where b3: "append_order b2 txtim oid side px sz sender owner exord = Inr b3" "book_inv b3"
     "orders (qv b3 side ! nat px) = orders (qv b2 side ! nat px) @ [ord]"
     "o_id ord = oid" "o_sz ord = sz" "o_side ord = side"
     "\<forall>i<length (qv b2 side). i \<noteq> nat px \<longrightarrow> qv b3 side ! i = qv b2 side ! i"
     "qv b3 (other_side side) = qv b2 (other_side side)" "best_bid b3 = best_bid b2" "best_ask b3 = best_ask b2"
    using append_order_ok [OF b2(3) a(1,2) mx2 a(3-5) new pxs, of txtim owner exord] by blast
  have add: "ob_add b txtim oid side px sz sender typ owner exord venue = Inr b3"
    using a assms(3,4) mx(1) b1(1) b2(1) b3(1) by (auto simp: ob_add_def Let_def)
  have len: "length (qv b (other_side side)) = length (qv b side)"
    using ladders_length assms(1) by (simp add: book_inv_def)
  have sw: "\<forall>i<length (qv b side). orders (qv b3 (other_side side) ! i) =
           (if i \<in> R then filter (\<lambda>s. do_cross_check b \<and> \<not> issim s) (orders (qv b (other_side side) ! i))
            else orders (qv b (other_side side) ! i))"
    using b1(2) len unfolding b3(8) qv2 sweeps_def by simp
  show ?thesis
    using add b3 b2(4,5) sw b1(4,5) unfolding qv1 qv2
    by (intro exI [of _ b3] exI [of _ R] exI [of _ ord]) simp
qed

lemma ob_add_ok:
  assumes "book_inv b" "add_args_ok b txtim oid side px sz sender typ"
  shows "\<exists>b'. ob_add b txtim oid side px sz sender typ owner exord venue = Inr b' \<and> book_inv b'"
proof (cases "px < asset_maxpx b")
  case True
  then show ?thesis
    using ob_add_sim_ok [OF assms _ True] ob_add_real_ok [OF assms _ True] by blast
next
  case False
  then have "ob_add b txtim oid side px sz sender typ owner exord venue = Inr b"
    using assms by (auto simp: ob_add_def Let_def add_args_ok_def book_inv_def ladders_ok_def)
  then show ?thesis
    using assms(1) by blast
qed


section \<open>Modifying keeps the invariant\<close>

lemma only_level_book_inv:
  assumes "book_inv b" "only_level b b' side lvl os" "side = BUY \<or> side = SEL"
    "no_real (qv b side ! nat lvl) \<longrightarrow> list_all issim os"
  shows "book_inv b'"
proof -
  have fr: "best_bid b' = best_bid b" "best_ask b' = best_ask b" "maxprice b' = maxprice b" "ladders_ok b'"
    using assms(2) book_frame_sel(1-3) unfolding only_level_def by blast+
  have lad: "ladders_ok b"
    using assms(1) by (simp add: book_inv_def)
  have len: "length (qv b' d) = length (qv b d)" for d
    using ladders_length [OF lad] ladders_length [OF fr(4)] fr(3) by simp
  have nr: "no_real (qv b' d ! i)" if "d = BUY \<or> d = SEL" "i < length (qv b d)" "no_real (qv b d ! i)" for d i
  proof (cases "d = side")
    case True
    then show ?thesis
      using assms(2,4) that by (cases "i = nat lvl") (auto simp: only_level_def no_real_def)
  next
    case False
    then have "d = other_side side"
      using that(1) assms(3) by auto
    then show ?thesis
      using that(3) assms(2) by (simp add: only_level_def)
  qed
  have "no_real (bidqs b' ! i)" if "i < length (bidqs b)" "no_real (bidqs b ! i)" for i
    using nr [of BUY i] that by (simp add: qv_def)
  moreover have "no_real (askqs b' ! i)" if "i < length (askqs b)" "no_real (askqs b ! i)" for i
    using nr [of SEL i] that by (simp add: qv_def)
  moreover have "length (bidqs b') = length (bidqs b)" "length (askqs b') = length (askqs b)"
    using len [of BUY] len [of SEL] by (simp_all add: qv_def)
  ultimately show ?thesis
    using assms(1) fr by (auto simp: book_inv_def inside_ok_def)
qed

lemma consume_all_sim: "list_all issim xs \<Longrightarrow> list_all issim (consume n xs)"
  by (induction n xs rule: consume.induct) auto

lemma prev_in_Some:
  "prev_in xs a = Some p \<Longrightarrow> \<exists>pre s post. xs = pre @ p # s # post \<and> o_addr s = a"
proof (induction xs a rule: prev_in.induct)
  case (1 x y xs a)
  show ?case
  proof (cases "o_addr y = a")
    case True
    then show ?thesis
      using 1(2) by (intro exI [of _ "[]"]) auto
  next
    case False
    then obtain pre s post where "y # xs = pre @ p # s # post" "o_addr s = a"
      using 1 by auto
    then show ?thesis
      by (intro exI [of _ "x # pre"]) auto
  qed
qed auto

definition exec_fills :: "OrderQ \<Rightarrow> Order \<Rightarrow> bool" where
  "exec_fills q ord \<longleftrightarrow> map_option o_addr (get_head_no_sim q) = Some (o_addr ord)
     \<and> (case prev_in (orders q) (o_addr ord) of Some p \<Rightarrow> issim p | None \<Rightarrow> False)"

text \<open>
  What an execution of a real order does to its level: when it is the first real order,
  the traded quantity goes to the simulated orders right ahead of it, nearest first.
\<close>

lemma do_exec_ok:
  assumes "book_inv b" "side = BUY \<or> side = SEL" "0 \<le> px" "px \<le> maxprice b + 1"
    "orders (qv b side ! nat px) = pre @ ord # post" "\<not> issim ord" "sz > 0" "txtim > 0"
  shows "\<exists>b'. do_exec b side px ord sz EXEC txtim = Inr b' \<and> book_inv b'
     \<and> only_level b b' side px ((if exec_fills (qv b side ! nat px) ord then rev (consume sz (rev pre)) else pre) @ ord # post)"
proof -
  let ?q = "qv b side ! nat px"
  have lad: "ladders_ok b"
    using assms(1) by (simp add: book_inv_def)
  note lq = ladders_qv [OF lad assms(2-4)]
  have prev: "prev_in (orders ?q) (o_addr ord) = (if pre = [] then None else Some (last pre))"
    using prev_in_split [of pre ord post] lq(3) assms(5) by (simp add: level_ok_def orderq_inv_def)
  show ?thesis
  proof (cases "exec_fills ?q ord")
    case True
    then have pre: "pre \<noteq> []" "issim (last pre)" "map_option o_addr (get_head_no_sim ?q) = Some (o_addr ord)"
      using prev by (auto simp: exec_fills_def split: if_splits)
    have sp: "orders ?q = butlast pre @ last pre # ord # post"
      using assms(5) pre(1) by simp
    obtain b' where b': "ob_fill b side px (o_addr (last pre)) sz px txtim = Inr b'"
      "only_level b b' side px (rev (consume sz (last pre # rev (butlast pre))) @ ord # post)"
      using ob_fill_ok [OF lad assms(2-4) sp pre(2) assms(7,8), of px] by blast
    have "rev pre = last pre # rev (butlast pre)"
      using pre(1) by (metis append_butlast_last_id rev_eq_Cons_iff rev_rev_ident)
    then have ol: "only_level b b' side px (rev (consume sz (rev pre)) @ ord # post)"
      using b'(2) by metis
    have "\<not> no_real ?q"
      using assms(5,6) by (simp add: no_real_def)
    then have "book_inv b'"
      using only_level_book_inv [OF assms(1) ol assms(2)] by blast
    moreover have "do_exec b side px ord sz EXEC txtim = Inr b'"
      using b'(1) pre prev lq(1) assms(6) by (simp add: do_exec_def)
    ultimately show ?thesis
      using ol True by auto
  next
    case False
    then have "do_exec b side px ord sz EXEC txtim = Inr b"
      using lq(1) assms(6) by (auto simp: do_exec_def exec_fills_def split: option.splits if_splits)
    moreover have "only_level b b side px (pre @ ord # post)"
      using lad assms(5) by (simp add: only_level_def)
    ultimately show ?thesis
      using assms(1) False by auto
  qed
qed

definition mod_args_ok :: "actor option \<Rightarrow> u64 \<Rightarrow> u64 \<Rightarrow> mt \<Rightarrow> bs \<Rightarrow> int \<Rightarrow> int \<Rightarrow> int \<Rightarrow> bool" where
  "mod_args_ok sender txtim oid m side px sz disp \<longleftrightarrow>
     oid > 0 \<and> sz < CHOPIN_MAX_ORD_SZ \<and> (side = BUY \<or> side = SEL) \<and> 0 \<le> px
     \<and> (exchid oid = x_SIM \<longrightarrow> sender \<noteq> None)
     \<and> (m = CANCD \<and> disp \<ge> 0 \<or> m = CANC \<and> sz \<ge> 0 \<and> disp > 0
        \<or> m = EXEC \<and> sz > 0 \<and> txtim > 0 \<and> exchid oid \<noteq> x_SIM)"


lemma mod_found_ok:
  assumes "book_inv b" "mod_args_ok sender txtim oid m side px sz disp" "px < maxprice b"
    "order_at (qv b side ! nat px) a = Some ord" "o_id ord = oid"
  shows "\<exists>b' b1 os. mod_found b (exchid oid = x_SIM) ord txtim m side px sz disp mkt = Inr b' \<and> book_inv b'
     \<and> only_level b b1 side px os \<and> (exchid oid = x_SIM \<longrightarrow> b' = b1) \<and> same_ladders b1 b'
     \<and> (m = CANCD \<longrightarrow> os = orders (drop_order (qv b side ! nat px) ord))
     \<and> (m = CANC \<longrightarrow> os = orders (resize_order (qv b side ! nat px) ord disp))
     \<and> (exchid oid \<noteq> x_SIM \<and> side = BUY \<and> px \<le> best_bid b \<longrightarrow> best_bid b' \<le> 1 \<or> \<not> no_real (bidqs b' ! nat (best_bid b')))
     \<and> (exchid oid \<noteq> x_SIM \<and> side = SEL \<and> px \<ge> best_ask b \<longrightarrow>
          best_ask b' \<ge> asset_maxpx b - 1 \<or> \<not> no_real (askqs b' ! nat (best_ask b')))"
proof -
  let ?q = "qv b side ! nat px"
  have A: "side = BUY \<or> side = SEL" "0 \<le> px" "px \<le> maxprice b + 1"
    using assms(2,3) by (auto simp: mod_args_ok_def)
  have m: "m = CANCD \<and> disp \<ge> 0 \<or> m = CANC \<and> disp > 0 \<or> m = EXEC \<and> sz > 0 \<and> txtim > 0 \<and> exchid oid \<noteq> x_SIM"
    using assms(2) by (auto simp: mod_args_ok_def)
  have lad: "ladders_ok b"
    using assms(1) by (simp add: book_inv_def)
  have sim: "issim ord \<longleftrightarrow> exchid oid = x_SIM"
    using assms(5) by (simp add: issim_def)
  obtain pre post where sp: "orders ?q = pre @ ord # post"
    using order_at_split [OF assms(4)] by blast
  have addr: "o_addr ord = a"
    using order_atD [OF assms(4)] by simp
  have "\<exists>b1 os. (if m = EXEC then do_exec b side px ord sz m txtim
              else if m = CANC \<or> m = CANCD then do_canc b side px (o_addr ord) sz disp m else Inr b) = Inr b1
      \<and> book_inv b1 \<and> only_level b b1 side px os
      \<and> (m = CANCD \<longrightarrow> os = orders (drop_order ?q ord)) \<and> (m = CANC \<longrightarrow> os = orders (resize_order ?q ord disp))"
  proof (cases "m = EXEC")
    case True
    then have e: "\<not> issim ord" "sz > 0" "txtim > 0"
      using m sim by auto
    obtain b1 where "do_exec b side px ord sz EXEC txtim = Inr b1" "book_inv b1"
      "only_level b b1 side px ((if exec_fills ?q ord then rev (consume sz (rev pre)) else pre) @ ord # post)"
      using do_exec_ok [OF assms(1) A sp e] by blast
    then show ?thesis
      using True by auto
  next
    case False
    then have c: "m = CANCD \<and> disp \<ge> 0 \<or> m = CANC \<and> disp > 0"
      using m by blast
    let ?q' = "if m = CANCD then drop_order ?q ord else resize_order ?q ord disp"
    obtain b1 where b1: "do_canc b side px a sz disp m = Inr b1" "only_level b b1 side px (orders ?q')"
      using do_canc_ok [OF lad A assms(4) c, of sz] by blast
    have "no_real ?q \<longrightarrow> list_all issim (orders ?q')"
      using order_atD [OF assms(4)]
      by (auto simp: no_real_def list_all_iff drop_order_def resize_order_def)
    then have "book_inv b1"
      using only_level_book_inv [OF assms(1) b1(2) A(1)] by blast
    then show ?thesis
      using b1 False c addr by auto
  qed
  then obtain b1 os where b1: "(if m = EXEC then do_exec b side px ord sz m txtim
              else if m = CANC \<or> m = CANCD then do_canc b side px (o_addr ord) sz disp m else Inr b) = Inr b1"
      "book_inv b1" "only_level b b1 side px os"
      "m = CANCD \<longrightarrow> os = orders (drop_order ?q ord)" "m = CANC \<longrightarrow> os = orders (resize_order ?q ord disp)"
    by blast
  obtain b2 where b2: "adjust_inside b1 side px txtim mkt = Inr b2" "same_ladders b1 b2" "book_inv b2"
    "side = BUY \<and> px \<le> best_bid b1 \<longrightarrow> best_bid b2 \<le> 1 \<or> \<not> no_real (bidqs b1 ! nat (best_bid b2))"
    "side = SEL \<and> px \<ge> best_ask b1 \<longrightarrow> best_ask b2 \<ge> asset_maxpx b1 - 1 \<or> \<not> no_real (askqs b1 ! nat (best_ask b2))"
    using adjust_inside_ok [OF b1(2) A(1)] by blast
  have fr: "best_bid b1 = best_bid b" "best_ask b1 = best_ask b" "asset_maxpx b1 = asset_maxpx b"
    using b1(3) book_frame_sel(1,2,4) unfolding only_level_def by blast+
  define b' where "b' = (if exchid oid = x_SIM then b1 else b2)"
  have F1: "mod_found b (exchid oid = x_SIM) ord txtim m side px sz disp mkt = Inr b'"
    using b1(1) b2(1) m sim by (auto simp: mod_found_def b'_def)
  have F2: "book_inv b'" "exchid oid = x_SIM \<longrightarrow> b' = b1" "same_ladders b1 b'"
    using b1(2) b2(2,3) by (simp_all add: b'_def same_ladders_def)
  have lq: "bidqs b' = bidqs b1" "askqs b' = askqs b1"
    using F2(3) by (simp_all add: same_ladders_def)
  have F3: "exchid oid \<noteq> x_SIM \<and> side = BUY \<and> px \<le> best_bid b \<longrightarrow>
      best_bid b' \<le> 1 \<or> \<not> no_real (bidqs b' ! nat (best_bid b'))"
    unfolding lq using b2(4) fr(1) by (auto simp: b'_def)
  have F4: "exchid oid \<noteq> x_SIM \<and> side = SEL \<and> px \<ge> best_ask b \<longrightarrow>
      best_ask b' \<ge> asset_maxpx b - 1 \<or> \<not> no_real (askqs b' ! nat (best_ask b'))"
    unfolding lq using b2(5) fr(2,3) by (auto simp: b'_def)
  show ?thesis
    using F1 F2 F3 F4 b1(3-5) by blast
qed

lemma ob_mod_ok:
  assumes "book_inv b" "mod_args_ok sender txtim oid m side px sz disp"
  shows "\<exists>b'. ob_mod b sender txtim oid m side px sz disp mkt = Inr b' \<and> book_inv b'"
proof (cases "px < maxprice b")
  case False
  then have "ob_mod b sender txtim oid m side px sz disp mkt = Inr b"
    using assms by (auto simp: ob_mod_def mod_args_ok_def book_inv_def ladders_ok_def)
  then show ?thesis
    using assms(1) by blast
next
  case True
  let ?q = "qv b side ! nat px"
  have A: "side = BUY \<or> side = SEL" "0 \<le> px" "px \<le> maxprice b + 1"
    using assms(2) True by (auto simp: mod_args_ok_def)
  have lad: "ladders_ok b" and mx: "maxprice b > 0"
    using assms(1) by (simp_all add: book_inv_def ladders_ok_def)
  note lq = ladders_qv [OF lad A]
  have red: "ob_mod b sender txtim oid m side px sz disp mkt =
      (case fm_find (qordermap ?q) oid of
         None \<Rightarrow> mod_order_that_is_not_found b (exchid oid = x_SIM) m sender oid
       | Some a \<Rightarrow> (case order_at ?q a of
            None \<Rightarrow> Inl (Undefined ''dangling order pointer'')
          | Some ord \<Rightarrow> mod_found b (exchid oid = x_SIM) ord txtim m side px sz disp mkt))"
  proof -
    have c: "oid > 0" "sz < CHOPIN_MAX_ORD_SZ" "\<not> (m \<noteq> CANCD \<and> sz < 0)" "\<not> (side \<noteq> BUY \<and> side \<noteq> SEL)"
      "exchid oid = x_SIM \<longrightarrow> sender \<noteq> None" "\<not> px \<ge> maxprice b"
      using assms(2) True by (auto simp: mod_args_ok_def)
    show ?thesis
      unfolding ob_mod_def Let_def if_not_P [OF c(3)] if_not_P [OF c(4)] if_not_P [OF c(6)]
      using c(1,2,5) mx lq(1) by simp
  qed
  show ?thesis
  proof (cases "fm_find (qordermap ?q) oid")
    case None
    have "\<exists>b'. mod_order_that_is_not_found b (exchid oid = x_SIM) m sender oid = Inr b' \<and> book_inv b'"
      using assms by (auto simp: mod_order_that_is_not_found_def mod_args_ok_def
          book_inv_cong(1) [of "publish_delayed b _ _ _" b])
    then show ?thesis
      using red None by simp
  next
    case (Some a)
    have inv: "orderq_inv ?q"
      using lq(3) by (simp add: level_ok_def)
    then have "(oid, a) \<in> set (qordermap ?q)"
      using Some by (simp add: orderq_inv_def fm_find_iff)
    then obtain ord where ord: "order_at ?q a = Some ord" "o_id ord = oid"
      using qordermap_order_at [OF inv] by blast
    show ?thesis
      using mod_found_ok [OF assms True ord] red Some ord(1) by fastforce
  qed
qed


section \<open>Clearing\<close>

definition emptied :: "Book \<Rightarrow> Book \<Rightarrow> bs \<Rightarrow> nat set \<Rightarrow> bool" where
  "emptied b b' side R \<longleftrightarrow>
     book_frame b' = book_frame b \<and> ladders_ok b' \<and> qv b' (other_side side) = qv b (other_side side)
     \<and> (\<forall>i<length (qv b side). orders (qv b' side ! i) = (if i \<in> R then [] else orders (qv b side ! i)))"

lemma canc_notify_all_ok:
  assumes "orderq_inv q"
  shows "\<exists>q'. canc_notify_all q = Inr (q', all_acks q) \<and> orderq_inv q' \<and> orders q' = []"
  using canc_notify_all_loop_ok [OF assms order_refl, of "[]"] by (auto simp: canc_notify_all_def)

lemma clear_levels_ok:
  assumes "ladders_ok b" "side = BUY \<or> side = SEL" "\<forall>i\<in>set is. i < length (qv b side)"
  shows "\<exists>b'. clear_levels b side is = Inr b' \<and> emptied b b' side (set is)"
  using assms
proof (induction "is" arbitrary: b)
  case Nil
  then show ?case
    by (simp add: emptied_def)
next
  case (Cons i js)
  let ?q = "qv b side ! i"
  note P = Cons.prems
  have len: "length (qv b side) = nat (maxprice b + 2)"
    using ladders_length [OF P(1)] .
  have i: "i < length (qv b side)" "int i \<le> maxprice b + 1"
    using P(3) len by auto
  have lvl: "level_ok side (next_addr b) ?q"
    using ladders_qv(3) [OF P(1,2) _ i(2)] by simp
  show ?case
  proof (cases "isempty ?q")
    case True
    then obtain b' where "clear_levels b side js = Inr b'" "emptied b b' side (set js)"
      using Cons.IH [OF P(1,2)] P(3) by auto
    then show ?thesis
      using True by (auto simp: emptied_def isempty_def)
  next
    case False
    obtain q' where q': "canc_notify_all ?q = Inr (q', all_acks ?q)" "orderq_inv q'" "orders q' = []"
      using canc_notify_all_ok lvl by (auto simp: level_ok_def)
    let ?b1 = "ret_path (set_lvl b side (int i) q') (all_acks ?q)"
    have "level_ok side (next_addr b) q'"
      using q' by (simp add: level_ok_def)
    then have ol: "only_level b ?b1 side (int i) []"
      using only_level_set [OF P(1,2) _ i(2), of q'] q'(3) by simp
    then have l1: "ladders_ok ?b1"
      using only_level_sel(3) by blast
    have l2: "length (qv ?b1 side) = length (qv b side)"
      using ladders_length [OF l1, of side] only_level_sel(1) [OF ol] len by metis
    obtain b' where b': "clear_levels ?b1 side js = Inr b'" "emptied ?b1 b' side (set js)"
      using Cons.IH [OF l1 P(2)] P(3) l2 by auto
    have "emptied b b' side (set (i # js))"
      using ol b'(2) l2 by (auto simp: only_level_def emptied_def)
    then show ?thesis
      using False q'(1) b'(1) by auto
  qed
qed

lemma check_cleared_ok:
  assumes "\<forall>q\<in>set qs. orderq_inv q \<and> orders q = []"
  shows "check_cleared qs = Inr ()"
proof -
  have "get_orders_in_book q = Inr 0" if "orderq_inv q" "orders q = []" for q
    using that by (simp add: get_orders_in_book_def orderq_inv_def real_orders_def)
  then show ?thesis
    using assms by (induction qs) (auto simp: isempty_def)
qed

lemma emptied_sel:
  assumes "emptied b b' side R"
  shows "maxprice b' = maxprice b" "asset_maxpx b' = asset_maxpx b" "next_addr b' = next_addr b" "ladders_ok b'"
    "qv b' (other_side side) = qv b (other_side side)"
  using assms book_frame_sel unfolding emptied_def by blast+

lemma clear_book_ok:
  assumes "book_inv b"
  shows "\<exists>b'. clear_book b = Inr b' \<and> book_inv b' \<and> (\<forall>q\<in>set (bidqs b') \<union> set (askqs b'). orders q = [])
     \<and> best_bid b' = 0 \<and> best_ask b' = asset_maxpx b - 1"
proof -
  let ?b1 = "b\<lparr>sent := sent b @ map (\<lambda>s. (s, ClearMsg (sym b))) (lowprio_datasubs b)
                   @ map (\<lambda>s. (s, ClearMsg (sym b))) (hiprio_datasubs b)\<rparr>"
  have l1: "ladders_ok ?b1"
    using assms by (simp add: book_inv_def ladders_ok_def)
  obtain b2 where b2: "clear_levels ?b1 BUY [0..<length (qv ?b1 BUY)] = Inr b2" "emptied ?b1 b2 BUY {0..<length (qv ?b1 BUY)}"
    using clear_levels_ok [OF l1, of BUY "[0..<length (qv ?b1 BUY)]"] by auto
  note s2 = emptied_sel [OF b2(2)]
  obtain b3 where b3: "clear_levels b2 SEL [0..<length (qv b2 SEL)] = Inr b3" "emptied b2 b3 SEL {0..<length (qv b2 SEL)}"
    using clear_levels_ok [OF s2(4), of SEL "[0..<length (qv b2 SEL)]"] by auto
  note s3 = emptied_sel [OF b3(2)]
  have len: "length (qv b3 d) = nat (maxprice b + 2)" "length (qv b2 d) = nat (maxprice b + 2)"
    "length (qv ?b1 d) = nat (maxprice b + 2)" for d
    using ladders_length [OF s3(4)] ladders_length [OF s2(4)] ladders_length [OF l1] s2(1) s3(1) by simp_all
  have "\<forall>i<length (qv b3 SEL). orders (qv b3 SEL ! i) = []"
    using b3(2) len by (simp add: emptied_def)
  moreover have "\<forall>i<length (qv b3 BUY). orders (qv b3 BUY ! i) = []"
    using b2(2) s3(5) len by (simp add: emptied_def)
  ultimately have empty: "\<forall>q\<in>set (bidqs b3) \<union> set (askqs b3). orders q = []"
    by (auto simp: qv_def in_set_conv_nth)
  have inv: "\<forall>q\<in>set (bidqs b3) \<union> set (askqs b3). orderq_inv q"
    using s3(4) by (auto simp: ladders_ok_def level_ok_def list_all_iff)
  let ?b4 = "b3\<lparr>best_bid := 0, best_ask := asset_maxpx b3 - 1\<rparr>"
  have "no_real q" if "q \<in> set (bidqs b3) \<union> set (askqs b3)" for q
    using empty that by (simp add: no_real_def)
  then have "inside_ok ?b4"
    using s3(4) by (auto simp: inside_ok_def ladders_ok_def)
  then have "book_inv ?b4"
    using s3(4) by (simp add: book_inv_def ladders_ok_def)
  moreover have "clear_book b = Inr ?b4"
    using b2(1) b3(1) check_cleared_ok [of "bidqs b3"] check_cleared_ok [of "askqs b3"] empty inv
    by (simp add: clear_book_def Let_def qv_def)
  moreover have "asset_maxpx b3 = asset_maxpx b"
    using s2(2) s3(2) by simp
  ultimately show ?thesis
    using empty by auto
qed

end
