(* ===== verification/OB_Properties.thy ===== *)
theory OB_Properties
  imports OB_Invariant
begin

text \<open>
  What the book promises, over all its reachable states: the invariant, the behaviour of
  simulated orders on arrival and in the queue, the inside after cancels, the throttled
  and delayed publication, and clearing.
\<close>

section \<open>Reachable books\<close>

text \<open>
  A step is one call the actor makes or receives: an add or a modification with admissible
  arguments, a clear, a subscription, a change of the latency knobs, the release of
  delayed messages, the clock fields set by a market data record, and a change of the
  asset's price limit by the reference data, which may not exceed the ladder.
\<close>

inductive book_step :: "Book \<Rightarrow> Book \<Rightarrow> bool" where
  step_add: "add_args_ok b txtim oid side px sz sender typ \<Longrightarrow>
     ob_add b txtim oid side px sz sender typ owner exord venue = Inr b' \<Longrightarrow> book_step b b'"
| step_mod: "mod_args_ok sender txtim oid m side px sz disp \<Longrightarrow>
     ob_mod b sender txtim oid m side px sz disp mkt = Inr b' \<Longrightarrow> book_step b b'"
| step_clear: "clear_book b = Inr b' \<Longrightarrow> book_step b b'"
| step_bbbosub: "book_step b (bbbosub b who)"
| step_subscribe: "subscribe b sender p = Inr b' \<Longrightarrow> book_step b b'"
| step_delay: "set_delay b order_us cancel_us = Inr b' \<Longrightarrow> book_step b b'"
| step_feed_delay: "set_feed_delay b feed_us = Inr b' \<Longrightarrow> book_step b b'"
| step_drain: "book_step b (drain_pub_q b now)"
| step_clock: "book_step b (b\<lparr>currtim := t, last_processed_ts := ts\<rparr>)"
| step_refdata: "1 < mx \<Longrightarrow> mx \<le> maxprice b \<Longrightarrow> book_step b (b\<lparr>asset_maxpx := mx\<rparr>)"

inductive_cases book_stepE: "book_step b b'"

inductive book_reachable :: "Book \<Rightarrow> bool" where
  reach_init: "Book_init cross s mx = Inr b \<Longrightarrow> book_reachable b"
| reach_step: "book_reachable b \<Longrightarrow> book_step b b' \<Longrightarrow> book_reachable b'"

lemma drain_pub_q_sel [simp]:
  "bidqs (drain_pub_q b now) = bidqs b" "askqs (drain_pub_q b now) = askqs b"
  "best_bid (drain_pub_q b now) = best_bid b" "best_ask (drain_pub_q b now) = best_ask b"
  "maxprice (drain_pub_q b now) = maxprice b" "asset_maxpx (drain_pub_q b now) = asset_maxpx b"
  "next_addr (drain_pub_q b now) = next_addr b"
  by (simp_all add: drain_pub_q_def split: prod.splits)

lemma book_step_inv:
  assumes "book_step b b'" "book_inv b"
  shows "book_inv b'"
  using assms(1)
proof cases
  case (step_add txtim oid side px sz sender ty owner exord venue)
  then show ?thesis
    using ob_add_ok [OF assms(2)] by (metis sum.inject(2))
next
  case (step_mod sender txtim oid m side px sz disp mkt)
  then show ?thesis
    using ob_mod_ok [OF assms(2)] by (metis sum.inject(2))
next
  case step_clear
  then show ?thesis
    using clear_book_ok [OF assms(2)] by auto
next
  case (step_subscribe sender p)
  then show ?thesis
    using assms(2)
    by (auto simp: subscribe_def book_inv_def ladders_ok_def inside_ok_def split: option.splits prio.splits)
next
  case (step_drain now)
  then show ?thesis
    using assms(2) book_inv_cong(1) [of "drain_pub_q b now" b] by simp
qed (use assms(2) in \<open>auto simp: bbbosub_def set_delay_def set_feed_delay_def book_inv_def ladders_ok_def inside_ok_def\<close>)

lemma reachable_inv: "book_reachable b \<Longrightarrow> book_inv b"
  by (induction rule: book_reachable.induct) (auto intro: Book_init_inv book_step_inv)

text \<open>
  C1. The book never breaks and never gets stuck. In every reachable state the ladders
  hold well-formed levels of the right side and no real order is better than the inside;
  and every add and every modification with admissible arguments, and every clear, returns
  without an assertion failing, an index leaving the ladder or a pointer dangling.
\<close>

theorem book_invariant_and_progress:
  assumes "book_reachable b"
  shows "book_inv b
    \<and> (add_args_ok b txtim oid side px sz sender typ \<longrightarrow>
         returns (ob_add b txtim oid side px sz sender typ owner exord venue))
    \<and> (mod_args_ok sender' txtim' oid' m side' px' sz' disp \<longrightarrow>
         returns (ob_mod b sender' txtim' oid' m side' px' sz' disp mkt))
    \<and> returns (clear_book b)"
proof -
  have inv: "book_inv b"
    using reachable_inv [OF assms] .
  show ?thesis
    using inv ob_add_ok [OF inv, of txtim oid side px sz sender "typ" owner exord venue]
      ob_mod_ok [OF inv, of sender' txtim' oid' m side' px' sz' disp mkt] clear_book_ok [OF inv]
    unfolding returns_iff by blast
qed

definition fresh_book :: Book where
  "fresh_book = \<lparr>bidqs = replicate 22 OrderQ_empty, askqs = replicate 22 OrderQ_empty,
     best_bid = 0, best_ask = 19, maxprice = 20, asset_maxpx = 20,
     do_cross_check = True, sym = 7, currtim = 0, last_bbo_notify_tim = 0,
     bbbosubs = [], hiprio_datasubs = [], lowprio_datasubs = [],
     delay = 1000, cancel_delay = -1, feed_delay = 0, last_processed_ts = 0,
     pub_q = [], sent = [], num_cross_recover = 0, next_addr = 1\<rparr>"

lemma fresh_book_init: "Book_init True 7 20 = Inr fresh_book"
  by (simp add: Book_init_def fresh_book_def)

lemma fresh_book_reachable: "book_reachable fresh_book"
  using fresh_book_init by (rule reach_init)

lemma fresh_level [simp]: "i < 22 \<Longrightarrow> qv fresh_book side ! i = OrderQ_empty"
  by (simp add: fresh_book_def qv_def)

lemma orders_empty [simp]: "orders OrderQ_empty = []"
  by (simp add: OrderQ_empty_def)

theorem book_invariant_and_progress_witness:
  "book_inv fresh_book \<and> returns (ob_add fresh_book 9 (longid x_CMEMDFUT 1) BUY 10 5 None LIMIT 0 77 11)
   \<and> returns (clear_book fresh_book)"
proof -
  have "add_args_ok fresh_book 9 (longid x_CMEMDFUT 1) BUY 10 5 None LIMIT"
    by (simp add: add_args_ok_def CHOPIN_MAX_ORD_SZ_def)
  then show ?thesis
    using book_invariant_and_progress [OF fresh_book_reachable] by blast
qed

section \<open>Simulated orders\<close>




lemma get_head_no_sim_split:
  assumes "orderq_inv q" "orders q = pre @ ord # post" "map_option o_addr (get_head_no_sim q) = Some (o_addr ord)"
    "\<not> issim ord"
  shows "list_all issim pre"
proof -
  obtain x xs where d: "dropWhile issim (orders q) = x # xs" "o_addr x = o_addr ord"
    using assms(3) by (auto simp: get_head_no_sim_def split: list.splits)
  have "x \<in> set (orders q)"
    using d(1) by (metis list.set_intros(1) set_dropWhileD)
  then have "x = ord"
    using id_eq_addr_eq(1) [OF assms(1), of ord x] assms(2) d(2) by simp
  have "orders q = takeWhile issim (orders q) @ ord # xs"
    using d(1) \<open>x = ord\<close> by (metis takeWhile_dropWhile_id)
  moreover have "distinct (orders q)"
    using assms(1) by (auto simp: orderq_inv_def distinct_map)
  ultimately have "takeWhile issim (orders q) = pre"
    using assms(2) by (metis append_Cons_eq_iff distinct_append not_distinct_conv_prefix distinct.simps(2) disjoint_iff
        list.set_intros(1))
  then show ?thesis
    by (metis list_all_iff set_takeWhileD)
qed


lemma exec_fills_iff:
  assumes "orderq_inv q" "orders q = pre @ ord # post" "\<not> issim ord"
  shows "exec_fills q ord \<longleftrightarrow> pre \<noteq> [] \<and> list_all issim pre"
proof
  assume e: "exec_fills q ord"
  then have "list_all issim pre"
    using get_head_no_sim_split [OF assms(1,2) _ assms(3)] by (simp add: exec_fills_def)
  moreover have "pre \<noteq> []"
    using e prev_in_split [of pre ord post] assms(1,2) by (auto simp: exec_fills_def orderq_inv_def)
  ultimately show "pre \<noteq> [] \<and> list_all issim pre"
    by blast
next
  assume p: "pre \<noteq> [] \<and> list_all issim pre"
  have "list_all issim pre \<Longrightarrow> dropWhile issim (pre @ ord # post) = ord # post"
    using assms(3) by (induction pre) auto
  then have "get_head_no_sim q = Some ord"
    using p by (simp add: get_head_no_sim_def assms(2))
  moreover have "issim (last pre)"
    using p by (simp add: list_all_iff)
  ultimately show "exec_fills q ord"
    using p prev_in_split [of pre ord post] assms(1,2) by (simp add: exec_fills_def orderq_inv_def)
qed

lemma sum_consume:
  "list_all issim xs \<Longrightarrow> \<forall>x\<in>set xs. order_ok x \<Longrightarrow> n \<ge> 0 \<Longrightarrow>
     (\<Sum>x\<leftarrow>consume n xs. o_sz x) = (\<Sum>x\<leftarrow>xs. o_sz x) - min n (\<Sum>x\<leftarrow>xs. o_sz x)"
proof (induction xs arbitrary: n)
  case Nil
  then show ?case by simp
next
  case (Cons x xs)
  have "0 \<le> (\<Sum>x\<leftarrow>xs. o_sz x)"
    using Cons.prems(2) by (intro sum_list_nonneg) (auto simp: order_ok_def)
  then show ?case
    using Cons by (auto simp: order_ok_def)
qed


text \<open>A reachable book with two simulated orders ahead of a real one on the bid at 10.\<close>

lemma clock_book_reachable: "book_reachable (fresh_book\<lparr>currtim := 5, last_processed_ts := 0\<rparr>)"
  using reach_step [OF fresh_book_reachable step_clock] .

definition queue_order :: "addr \<Rightarrow> u64 \<Rightarrow> int \<Rightarrow> actor option \<Rightarrow> int \<Rightarrow> u64 \<Rightarrow> u64 \<Rightarrow> Order" where
  "queue_order a i s to own tim xord = \<lparr>o_addr = a, o_sz = s, originator = to, o_id = i, exordid = xord, o_sym = 7,
      o_side = BUY, o_deleted = False, o_cancelled = False, o_filled = False,
      o_owner = own, o_tim = tim, aggr_fills = 0\<rparr>"

definition queue_level :: "nat \<Rightarrow> OrderQ" where
  "queue_level n = \<lparr>orders = take n [queue_order 1 (longid x_SIM 201) 5 (Some 4) 2 6 0,
        queue_order 2 (longid x_SIM 202) 5 (Some 4) 2 7 0, queue_order 3 (longid x_CMEMDFUT 1) 9 None 0 8 77],
     qordermap = (if n = 3 then [(longid x_CMEMDFUT 1, 3)] else []) @
        take n [(longid x_SIM 201, 1), (longid x_SIM 202, 2)],
     size_of_book_cnt = (if n = 3 then 1 else 0), orders_in_book = (if n = 3 then 9 else 0)\<rparr>"

definition queue_book :: "nat \<Rightarrow> Book" where
  "queue_book n = fresh_book\<lparr>currtim := 5, bidqs := (replicate 22 OrderQ_empty)[10 := queue_level n],
     next_addr := n + 1, best_bid := (if n = 3 then 10 else 0), last_bbo_notify_tim := (if n = 3 then 8 else 0)\<rparr>"

lemma longid_order:
  "longid x_SIM 201 < longid x_SIM 202" "longid x_CMEMDFUT 1 < longid x_SIM 201" "longid x_CMEMDFUT 1 < longid x_SIM 202"
  "\<not> longid x_SIM 202 < longid x_CMEMDFUT 1" "\<not> longid x_SIM 201 < longid x_CMEMDFUT 1"
  by (simp_all add: longid_def x_SIM_def x_CMEMDFUT_def)

lemmas add_eval = ob_add_def fill_sim_on_arrival_def append_order_def new_Order_def q_append_def lvl_at_def qv_def
  set_lvl_def CHOPIN_MAX_ORD_SZ_def issim_def fresh_book_def queue_book_def queue_level_def queue_order_def
  OrderQ_empty_def

lemma queue_book_0: "queue_book 0 = fresh_book\<lparr>currtim := 5, last_processed_ts := 0\<rparr>"
  by (simp add: queue_book_def fresh_book_def queue_level_def OrderQ_empty_def list_update_same_conv)

lemma queue_book_1:
  "ob_add (queue_book 0) 6 (longid x_SIM 201) BUY 10 5 (Some 4) LIMIT 2 0 18 = Inr (queue_book 1)"
  by (simp add: add_eval)

lemma take_1_Cons: "take 1 (x # xs) = [x]"
  by simp

lemma queue_book_2:
  "ob_add (queue_book 1) 7 (longid x_SIM 202) BUY 10 5 (Some 4) LIMIT 2 0 18 = Inr (queue_book 2)"
  using longid_order by (simp add: add_eval take_1_Cons del: One_nat_def)

lemma queue_book_sel [simp]:
  "asset_maxpx (queue_book n) = 20" "maxprice (queue_book n) = 20" "best_ask (queue_book n) = 19"
  "do_cross_check (queue_book n) = True" "best_bid (queue_book n) = (if n = 3 then 10 else 0)"
  "askqs (queue_book n) = replicate 22 OrderQ_empty" "bbbosubs (queue_book n) = []"
  by (simp_all add: queue_book_def fresh_book_def)

lemma stray_up_empty:
  assumes "\<forall>i. tmp \<le> int i \<and> int i \<le> px \<longrightarrow> i < length (askqs b) \<and> orders (askqs b ! i) = []" "0 \<le> tmp"
  shows "stray_up b px maxpx txtim tmp n = Inr (b, n)"
  using assms
proof (induction b px maxpx txtim tmp n rule: stray_up.induct)
  case (1 b px maxpx txtim tmp n)
  show ?case
  proof (cases "tmp \<le> px")
    case True
    have "nat tmp < length (askqs b)" "orders (askqs b ! nat tmp) = []"
      using 1(2) [rule_format, of "nat tmp"] True 1(3) by auto
    then have "stray_level b SEL tmp txtim n = Inr (b, n)"
      using 1(3) by (simp add: stray_level_def qv_def)
    then show ?thesis
      using 1(1) [OF True, of b n] 1(2,3) by (auto simp: stray_up.simps [of b])
  qed (simp add: stray_up.simps [of b])
qed

lemma queue_book_3:
  "ob_add (queue_book 2) 8 (longid x_CMEMDFUT 1) BUY 10 9 None LIMIT 0 77 11 = Inr (queue_book 3)"
proof -
  have "stray_up (queue_book 2) 10 20 8 0 0 = Inr (queue_book 2, 0)"
    by (rule stray_up_empty) auto
  then have fs: "fill_stray_sim_orders (queue_book 2) BUY 10 20 8 = Inr (queue_book 2, 0)"
    by (simp add: fill_stray_sim_orders_def)
  have "check_for_bo_change (queue_book 2) BUY 10 8 0 11
      = Inr ((queue_book 2)\<lparr>best_bid := 10, last_bbo_notify_tim := 8\<rparr>)"
    by (simp add: check_for_bo_change_def uncross_buy_def notifybbbosubs_def)
      (simp add: queue_book_def fresh_book_def)
  then have "ob_add (queue_book 2) 8 (longid x_CMEMDFUT 1) BUY 10 9 None LIMIT 0 77 11
      = append_order ((queue_book 2)\<lparr>best_bid := 10, last_bbo_notify_tim := 8\<rparr>)
          8 (longid x_CMEMDFUT 1) BUY 10 9 None 0 77"
    using fs by (simp add: ob_add_def)
  also have "\<dots> = Inr (queue_book 3)"
    using longid_order by (simp add: add_eval del: One_nat_def)
  finally show ?thesis .
qed

lemma queue_book_reachable: "book_reachable (queue_book 3)"
proof -
  have "book_reachable (queue_book 0)"
    using clock_book_reachable by (simp add: queue_book_0)
  then have "book_reachable (queue_book 1)"
    by (rule reach_step [OF _ step_add [OF _ queue_book_1]]) (simp add: add_args_ok_def add_eval)
  then have "book_reachable (queue_book 2)"
    by (rule reach_step [OF _ step_add [OF _ queue_book_2]]) (simp add: add_args_ok_def add_eval)
  then show ?thesis
    by (rule reach_step [OF _ step_add [OF _ queue_book_3]]) (simp add: add_args_ok_def add_eval)
qed



text \<open>
  Of two simulated orders queued one behind the other, the one that was queued later is
  filled first. On a level with simulated orders 201 and 202, queued in this order, ahead
  of a real order, a fill of five lots goes whole to order 202, and order 201, which has
  time priority, still has all its five lots; serving the queue from its head would fill
  201. The end state of the recursion is not that of a walk from head to tail.
\<close>

theorem fill_serves_later_order_first:
  "\<exists>q'. q_fill 3 (queue_level 3) 2 5 10 50 = Inr (q', [(4, Fill 202 x_SIM 7 10 BUY 5 0 2 50)])
      \<and> level_view q' = [(longid x_SIM 201, 5), (longid x_CMEMDFUT 1, 9)]"
proof -
  let ?x = "queue_order 1 (longid x_SIM 201) 5 (Some 4) 2 6 0" and ?y = "queue_order 2 (longid x_SIM 202) 5 (Some 4) 2 7 0"
  let ?z = "queue_order 3 (longid x_CMEMDFUT 1) 9 None 0 8 77"
  have inv: "orderq_inv (queue_level 3)"
    using longid_order
    by (simp add: orderq_inv_def queue_level_def queue_order_def real_orders_def order_ok_def fm_inv_def issim_def
        insert_commute)
  have sp: "orders (queue_level 3) = [?x] @ ?y # [?z]"
    by (simp add: queue_level_def)
  obtain q' where q': "q_fill 3 (queue_level 3) (o_addr ?y) 5 10 50 = Inr (q', consume_fills 5 10 50 (?y # rev [?x]))"
    "orders q' = rev (consume 5 (?y # rev [?x])) @ [?z]"
    using q_fill_ok [OF inv sp, of 5 50 3 10] by (auto simp: issim_def queue_order_def)
  have "o_addr ?y = 2" "consume_fills 5 10 50 (?y # rev [?x]) = [(4, Fill 202 x_SIM 7 10 BUY 5 0 2 50)]"
    "rev (consume 5 (?y # rev [?x])) @ [?z] = [?x, ?z]"
    by (simp_all add: queue_order_def issim_def fill_msg_def)
  then show ?thesis
    using q' by (simp add: level_view_def) (simp add: queue_order_def)
qed

section \<open>Adds and cancels of real orders\<close>

text \<open>
  In simulation a real add takes no real order out of the book. It rests at the back of
  its level, the inside on its side is at least as good as its price, every level of the
  contra side keeps its real orders with their sizes and order, and only levels its price
  reaches lose simulated orders.
\<close>

theorem real_add_in_simulation:
  assumes "book_reachable b" "do_cross_check b" "add_args_ok b txtim oid side px sz sender typ"
    "exchid oid \<noteq> x_SIM" "px < asset_maxpx b"
  shows "\<exists>b' ord. ob_add b txtim oid side px sz sender typ owner exord venue = Inr b'
     \<and> orders (qv b' side ! nat px) = orders (qv b side ! nat px) @ [ord] \<and> o_id ord = oid \<and> o_sz ord = sz
     \<and> (side = BUY \<longrightarrow> px \<le> best_bid b') \<and> (side = SEL \<longrightarrow> best_ask b' \<le> px)
     \<and> (\<forall>i<length (qv b side). real_orders (qv b' (other_side side) ! i) = real_orders (qv b (other_side side) ! i)
          \<and> (side = BUY \<and> int i > px \<or> side = SEL \<and> int i < px \<longrightarrow>
               orders (qv b' (other_side side) ! i) = orders (qv b (other_side side) ! i)))"
proof -
  obtain b' R ord where *: "ob_add b txtim oid side px sz sender typ owner exord venue = Inr b'"
     "side = BUY \<longrightarrow> px \<le> best_bid b'" "side = SEL \<longrightarrow> best_ask b' \<le> px"
     "orders (qv b' side ! nat px) = orders (qv b side ! nat px) @ [ord]" "o_id ord = oid" "o_sz ord = sz"
     "\<forall>i<length (qv b side). orders (qv b' (other_side side) ! i) =
           (if i \<in> R then filter (\<lambda>s. do_cross_check b \<and> \<not> issim s) (orders (qv b (other_side side) ! i))
            else orders (qv b (other_side side) ! i))"
     "side = BUY \<longrightarrow> R \<subseteq> {i. int i \<le> px}" "side = SEL \<longrightarrow> R \<subseteq> {i. px \<le> int i}"
    using ob_add_real_ok [OF reachable_inv [OF assms(1)] assms(3-5), of owner exord venue] by blast
  have "\<forall>i<length (qv b side). real_orders (qv b' (other_side side) ! i) = real_orders (qv b (other_side side) ! i)
      \<and> (side = BUY \<and> int i > px \<or> side = SEL \<and> int i < px \<longrightarrow>
               orders (qv b' (other_side side) ! i) = orders (qv b (other_side side) ! i))"
    using *(7-9) assms(2) by (auto simp: real_orders_def)
  with *(1-6) show ?thesis
    by blast
qed

theorem real_add_in_simulation_witness:
  "\<exists>b' ord. ob_add (queue_book 3) 60 (longid x_CMEMDFUT 2) SEL 10 4 None LIMIT 0 78 11 = Inr b'
     \<and> orders (qv b' SEL ! 10) = [ord] \<and> o_sz ord = 4 \<and> best_ask b' \<le> 10
     \<and> real_orders (qv b' BUY ! 10) = [queue_order 3 (longid x_CMEMDFUT 1) 9 None 0 8 77]"
proof -
  have a: "add_args_ok (queue_book 3) 60 (longid x_CMEMDFUT 2) SEL 10 4 None LIMIT"
    by (simp add: add_args_ok_def CHOPIN_MAX_ORD_SZ_def qv_def)
  have e: "exchid (longid x_CMEMDFUT 2) \<noteq> x_SIM" "10 < asset_maxpx (queue_book 3)" "do_cross_check (queue_book 3)"
    by simp_all
  have q: "orders (qv (queue_book 3) SEL ! nat 10) = []" "length (qv (queue_book 3) SEL) = 22"
    "real_orders (qv (queue_book 3) BUY ! 10) = [queue_order 3 (longid x_CMEMDFUT 1) 9 None 0 8 77]"
    by (simp_all add: qv_def) (simp add: queue_book_def queue_level_def real_orders_def fresh_book_def issim_def queue_order_def)
  obtain b' ord where "ob_add (queue_book 3) 60 (longid x_CMEMDFUT 2) SEL 10 4 None LIMIT 0 78 11 = Inr b'"
    "orders (qv b' SEL ! nat 10) = [ord]" "o_sz ord = 4" "best_ask b' \<le> 10"
    "\<forall>i<22. real_orders (qv b' BUY ! i) = real_orders (qv (queue_book 3) BUY ! i)"
    using real_add_in_simulation [OF queue_book_reachable e(3) a e(1,2), of 0 78 11] q(1,2) by auto
  then show ?thesis
    using q(3) by (intro exI [of _ b'] exI [of _ ord]) auto
qed

text \<open>
  After a real order is cancelled the inside is exact again on its side. The order
  leaves its level and nothing else does, and the inside stops at the nearest level that
  holds a real order, or at the end of the walk.
\<close>

theorem real_cancel_tightens_inside:
  assumes "book_reachable b" "mod_args_ok sender txtim oid CANCD side px sz disp" "px < maxprice b"
    "exchid oid \<noteq> x_SIM" "ord \<in> set (orders (qv b side ! nat px))" "o_id ord = oid"
  shows "\<exists>b'. ob_mod b sender txtim oid CANCD side px sz disp mkt = Inr b' \<and> book_inv b'
     \<and> orders (qv b' side ! nat px) = filter (\<lambda>x. o_id x \<noteq> oid) (orders (qv b side ! nat px))
     \<and> (side = BUY \<longrightarrow> best_bid b' \<le> 1 \<or> \<not> no_real (bidqs b' ! nat (best_bid b')))
     \<and> (side = SEL \<longrightarrow> best_ask b' \<ge> asset_maxpx b - 1 \<or> \<not> no_real (askqs b' ! nat (best_ask b')))"
proof -
  let ?q = "qv b side ! nat px"
  have inv: "book_inv b"
    using reachable_inv [OF assms(1)] .
  have A: "side = BUY \<or> side = SEL" "0 \<le> px" "px \<le> maxprice b + 1"
    using assms(2,3) by (auto simp: mod_args_ok_def)
  note lq = ladders_qv [of b side px]
  have oq: "orderq_inv ?q" and lv: "lvl_at (qv b side) px = Inr ?q" "nat px < length (qv b side)"
    using lq inv A by (auto simp: book_inv_def level_ok_def)
  have at: "order_at ?q (o_addr ord) = Some ord"
    using order_at_mem [of ?q ord] oq assms(5) by (simp add: orderq_inv_def)
  have fd: "fm_find (qordermap ?q) oid = Some (o_addr ord)"
    using fm_find_qordermap [OF oq at] assms(6) by simp
  have real: "\<not> no_real ?q"
    using assms(4-6) by (auto simp: no_real_def list_all_iff issim_def)
  have at_inside: "side = BUY \<longrightarrow> px \<le> best_bid b" "side = SEL \<longrightarrow> best_ask b \<le> px"
    using inv real lv(2) A(2) by (force simp: book_inv_def inside_ok_def qv_def)+
  obtain b' b1 os where m: "mod_found b (exchid oid = x_SIM) ord txtim CANCD side px sz disp mkt = Inr b'" "book_inv b'"
     "only_level b b1 side px os" "same_ladders b1 b'" "os = orders (drop_order ?q ord)"
     "side = BUY \<and> px \<le> best_bid b \<longrightarrow> best_bid b' \<le> 1 \<or> \<not> no_real (bidqs b' ! nat (best_bid b'))"
     "side = SEL \<and> px \<ge> best_ask b \<longrightarrow> best_ask b' \<ge> asset_maxpx b - 1 \<or> \<not> no_real (askqs b' ! nat (best_ask b'))"
    using mod_found_ok [OF inv assms(2,3) at assms(6), of mkt] assms(4) by blast
  have "qv b' side = qv b1 side"
    using m(4) by (simp add: same_ladders_def qv_def)
  then have "orders (qv b' side ! nat px) = os"
    using only_level_sel(4) [OF m(3)] by simp
  moreover have "os = filter (\<lambda>x. o_id x \<noteq> oid) (orders ?q)"
    unfolding m(5) drop_order_orders using id_eq_addr_eq [OF oq assms(5)] assms(6)
    by (auto intro!: filter_cong)
  moreover have "ob_mod b sender txtim oid CANCD side px sz disp mkt = Inr b'"
    using assms(2,3,4) A lv(1) fd at m(1) inv
    by (auto simp: ob_mod_def mod_args_ok_def book_inv_def ladders_ok_def Let_def)
  ultimately show ?thesis
    using m(2,6,7) at_inside by auto
qed

theorem real_cancel_tightens_inside_witness:
  "\<exists>b'. ob_mod (queue_book 3) None 70 (longid x_CMEMDFUT 1) CANCD BUY 10 9 0 11 = Inr b'
     \<and> (best_bid b' \<le> 1 \<or> \<not> no_real (bidqs b' ! nat (best_bid b')))"
proof -
  have a: "mod_args_ok None 70 (longid x_CMEMDFUT 1) CANCD BUY 10 9 0"
    by (simp add: mod_args_ok_def CHOPIN_MAX_ORD_SZ_def) (simp add: longid_def x_CMEMDFUT_def)
  have o: "queue_order 3 (longid x_CMEMDFUT 1) 9 None 0 8 77 \<in> set (orders (qv (queue_book 3) BUY ! nat 10))"
    by (simp add: queue_book_def fresh_book_def qv_def queue_level_def)
  have "exchid (longid x_CMEMDFUT 1) \<noteq> x_SIM" "10 < maxprice (queue_book 3)"
    "o_id (queue_order 3 (longid x_CMEMDFUT 1) 9 None 0 8 77) = longid x_CMEMDFUT 1"
    by (simp_all add: queue_order_def)
  then show ?thesis
    using real_cancel_tightens_inside [OF queue_book_reachable a _ _ o, of 11] by auto
qed

text \<open>
  Clearing always succeeds and leaves a book as the constructor leaves it: every level
  of both ladders is empty, the best bid is 0 and the best ask one below the asset's price
  limit, so an add after a clear meets no order from before.
\<close>

theorem clear_resets_book:
  assumes "book_reachable b"
  shows "\<exists>b'. clear_book b = Inr b' \<and> book_inv b' \<and> (\<forall>q\<in>set (bidqs b') \<union> set (askqs b'). orders q = [])
     \<and> best_bid b' = 0 \<and> best_ask b' = asset_maxpx b - 1"
  using clear_book_ok [OF reachable_inv [OF assms]] .

theorem clear_resets_book_witness:
  "orders (bidqs (queue_book 3) ! 10) \<noteq> []
   \<and> (\<exists>b'. clear_book (queue_book 3) = Inr b' \<and> (\<forall>q\<in>set (bidqs b'). orders q = []) \<and> best_ask b' = 19)"
  using clear_resets_book [OF queue_book_reachable] by (auto simp: queue_book_def queue_level_def fresh_book_def)

end
