(* ===== verification/OB_Live.thy ===== *)
theory OB_Live
  imports OB_Properties
begin

text \<open>
  The live repair of \<open>OB::add\<close>: with \<open>do_cross_check\<close> off the book cancels the real orders an
  arriving order crosses through and walks the inside past the levels this empties.
\<close>

lemma uncross_buy_uncrosses:
  assumes "book_inv b" "\<not> do_cross_check b" "best_bid b < maxprice b"
    "\<forall>i. int i \<le> best_bid b \<longrightarrow> no_real (askqs b ! i)"
  shows "\<exists>b' chg real. uncross_buy b n = Inr (b', chg, real) \<and> best_bid b' < best_ask b'"
proof (cases "n \<noteq> 0 \<or> best_bid b \<ge> best_ask b")
  case True
  let ?hi = "int (length (askqs b)) - 1"
  have r: "0 \<le> best_ask b" "best_ask b < int (length (askqs b))" "best_bid b < ?hi"
    using assms(1,3) book_len [OF assms(1)] by (auto simp: book_inv_def inside_ok_def)
  obtain a' chg' where w: "ask_walk (askqs b) (best_ask b) ?hi False = Inr (a', chg')" "best_ask b \<le> a'"
    "a' \<ge> ?hi \<or> \<not> no_real (askqs b ! nat a')"
    using ask_walk_ok [OF r(1,2), of ?hi False] by auto
  have "best_bid b < a'"
    using w(2,3) r assms(4) [rule_format, of "nat a'"] by (cases "a' \<le> best_bid b") auto
  then show ?thesis
    using True w(1) r assms(2) by (auto simp: uncross_buy_def)
qed (use assms(2) in \<open>auto simp: uncross_buy_def\<close>)

lemma uncross_sel_uncrosses:
  assumes "book_inv b" "\<not> do_cross_check b" "best_ask b \<ge> 2"
    "\<forall>i<length (bidqs b). best_ask b \<le> int i \<longrightarrow> no_real (bidqs b ! i)"
  shows "\<exists>b' chg real. uncross_sel b n = Inr (b', chg, real) \<and> best_bid b' < best_ask b'"
proof (cases "n \<noteq> 0 \<or> best_bid b \<ge> best_ask b")
  case True
  have r: "0 \<le> best_bid b" "best_bid b < int (length (bidqs b))"
    using assms(1) book_len [OF assms(1)] by (auto simp: book_inv_def inside_ok_def)
  obtain p' chg' where w: "bid_walk (bidqs b) (best_bid b) False = Inr (p', chg')" "0 \<le> p'" "p' \<le> best_bid b"
    "p' \<le> 1 \<or> \<not> no_real (bidqs b ! nat p')"
    using bid_walk_ok [OF r, of False] by auto
  have "p' < best_ask b"
    using w(2-4) r assms(3) assms(4) [rule_format, of "nat p'"] by (cases "best_ask b \<le> p'") auto
  then show ?thesis
    using True w(1) r assms(2) by (auto simp: uncross_sel_def)
qed (use assms(2) in \<open>auto simp: uncross_sel_def\<close>)

text \<open>In repair mode the sweep leaves no real contra order at a price the order reaches.\<close>

lemma sweeps_cleared:
  assumes "sweeps b b' side R" "\<not> do_cross_check b" "i < length (qv b side)" "i \<in> R \<or> no_real (qv b side ! i)"
  shows "no_real (qv b' side ! i)"
  using assms sweeps_no_real [OF assms(1,3)] by (auto simp: sweeps_def no_real_def)

lemma live_sweep_buy:
  assumes "book_inv b" "\<not> do_cross_check b" "best_bid b < px" "px < asset_maxpx b" "txtim > 0"
  shows "\<exists>b' n. fill_stray_sim_orders b BUY px (asset_maxpx b) txtim = Inr (b', n) \<and> book_inv b'
     \<and> \<not> do_cross_check b' \<and> best_bid b' = best_bid b \<and> maxprice b' = maxprice b
     \<and> (\<forall>i. int i \<le> px \<longrightarrow> no_real (askqs b' ! i))"
proof -
  let ?t = "min (best_bid b) (best_ask b)"
  have lad: "ladders_ok b" "asset_maxpx b \<le> maxprice b" "0 \<le> ?t"
    and ins: "\<forall>i<length (askqs b). int i < best_ask b \<longrightarrow> no_real (askqs b ! i)"
    using assms(1) by (auto simp: book_inv_def ladders_ok_def inside_ok_def)
  obtain b' n where b': "stray_up b px (asset_maxpx b) txtim ?t 0 = Inr (b', n)"
    "sweeps b b' SEL {i. ?t \<le> int i \<and> int i \<le> px}"
    using stray_up_ok [OF lad(1,3) assms(4) lad(2) assms(5), of 0] by blast
  note s = sweeps_sel [OF b'(2)]
  have "no_real (askqs b' ! i)" if "int i \<le> px" for i
    using sweeps_cleared [OF b'(2) assms(2), of i] ins that assms(4) lad(2) book_len [OF assms(1)]
    by (cases "?t \<le> int i") (auto simp: qv_def)
  moreover have "fill_stray_sim_orders b BUY px (asset_maxpx b) txtim = Inr (b', n)"
    using b'(1) assms(2,3) by (simp add: fill_stray_sim_orders_def Let_def)
  ultimately show ?thesis
    using sweeps_book_inv [OF assms(1) b'(2)] s assms(2) by auto
qed

lemma live_sweep_sel:
  assumes "book_inv b" "\<not> do_cross_check b" "px < best_ask b" "2 \<le> px" "txtim > 0"
  shows "\<exists>b' n. fill_stray_sim_orders b SEL px (asset_maxpx b) txtim = Inr (b', n) \<and> book_inv b'
     \<and> \<not> do_cross_check b' \<and> best_ask b' = best_ask b
     \<and> (\<forall>i<length (bidqs b'). px \<le> int i \<longrightarrow> no_real (bidqs b' ! i))"
proof -
  let ?t = "max (best_ask b) (best_bid b)"
  have lad: "ladders_ok b" "?t \<le> maxprice b + 1" "0 \<le> px"
    and ins: "\<forall>i<length (bidqs b). best_bid b < int i \<longrightarrow> no_real (bidqs b ! i)"
    using assms(1,4) by (auto simp: book_inv_def ladders_ok_def inside_ok_def)
  obtain b' n where b': "stray_down b px txtim ?t 0 = Inr (b', n)"
    "sweeps b b' BUY {i. px \<le> int i \<and> int i \<le> ?t \<and> (0 < i \<or> ?t = 0)}"
    using stray_down_ok [OF lad(1,3,2) assms(5), of 0] by blast
  note s = sweeps_sel [OF b'(2)]
  have len: "length (bidqs b') = length (bidqs b)"
    using ladders_length [OF lad(1), of BUY] ladders_length [OF s(3), of BUY] s(1) by (simp add: qv_def)
  have "no_real (bidqs b' ! i)" if "px \<le> int i" "i < length (bidqs b)" for i
    using sweeps_cleared [OF b'(2) assms(2), of i] ins that assms(4)
    by (cases "int i \<le> ?t") (auto simp: qv_def)
  moreover have "fill_stray_sim_orders b SEL px (asset_maxpx b) txtim = Inr (b', n)"
    using b'(1) assms(2,3) by (simp add: fill_stray_sim_orders_def Let_def)
  ultimately show ?thesis
    using sweeps_book_inv [OF assms(1) b'(2)] s assms(2) len by auto
qed

lemma live_bo_change:
  assumes "book_inv b" "\<not> do_cross_check b" "best_bid b < best_ask b" "2 \<le> px" "px < asset_maxpx b" "txtim > 0"
    "side = BUY \<or> side = SEL"
  shows "\<exists>b1 n b2. fill_stray_sim_orders b side px (asset_maxpx b) txtim = Inr (b1, n)
     \<and> check_for_bo_change b1 side px txtim n venue = Inr b2 \<and> best_bid b2 < best_ask b2"
proof -
  have mx: "px < maxprice b"
    using assms(1,5) by (simp add: book_inv_def ladders_ok_def)
  consider (away) "side = BUY" "px \<le> best_bid b" | (away') "side = SEL" "best_ask b \<le> px"
    | (buy) "side = BUY" "best_bid b < px" | (sel) "side = SEL" "px < best_ask b"
    using assms(7) by force
  then show ?thesis
  proof cases
    case away
    then show ?thesis
      using assms(3) by (intro exI [of _ b] exI [of _ 0])
        (auto simp: fill_stray_sim_orders_def check_for_bo_change_def uncross_buy_def Let_def)
  next
    case away'
    then show ?thesis
      using assms(3) by (intro exI [of _ b] exI [of _ 0])
        (auto simp: fill_stray_sim_orders_def check_for_bo_change_def uncross_sel_def Let_def)
  next
    case buy
    obtain b1 n where b1: "fill_stray_sim_orders b BUY px (asset_maxpx b) txtim = Inr (b1, n)" "book_inv b1"
      "\<not> do_cross_check b1" "best_bid b1 = best_bid b" "maxprice b1 = maxprice b"
      "\<forall>i. int i \<le> px \<longrightarrow> no_real (askqs b1 ! i)"
      using live_sweep_buy [OF assms(1,2) buy(2) assms(5,6)] by blast
    let ?b = "b1\<lparr>best_bid := px\<rparr>"
    have "book_inv ?b"
      using b1(2,4,5) buy(2) assms(4) mx by (auto simp: book_inv_def ladders_ok_def inside_ok_def)
    then obtain b2 chg real where "uncross_buy ?b n = Inr (b2, chg, real)" "best_bid b2 < best_ask b2"
      using uncross_buy_uncrosses [of ?b n] b1(3,5,6) mx by auto
    then show ?thesis
      using b1(1,4) buy by (auto simp: check_for_bo_change_def Let_def)
  next
    case sel
    obtain b1 n where b1: "fill_stray_sim_orders b SEL px (asset_maxpx b) txtim = Inr (b1, n)" "book_inv b1"
      "\<not> do_cross_check b1" "best_ask b1 = best_ask b"
      "\<forall>i<length (bidqs b1). px \<le> int i \<longrightarrow> no_real (bidqs b1 ! i)"
      using live_sweep_sel [OF assms(1,2) sel(2) assms(4,6)] by blast
    let ?b = "b1\<lparr>best_ask := px\<rparr>"
    have "book_inv ?b"
      using b1(2,4) sel(2) assms(4) by (auto simp: book_inv_def ladders_ok_def inside_ok_def)
    then obtain b2 chg real where "uncross_sel ?b n = Inr (b2, chg, real)" "best_bid b2 < best_ask b2"
      using uncross_sel_uncrosses [of ?b n] b1(3,5) assms(4) by auto
    then show ?thesis
      using b1(1,4) sel by (auto simp: check_for_bo_change_def Let_def)
  qed
qed

lemma append_order_inside:
  "append_order b txtim oid side px sz sender owner exord = Inr b' \<Longrightarrow> best_bid b' = best_bid b \<and> best_ask b' = best_ask b"
  by (auto simp: append_order_def)



end
