(* ===== verification/OB_Publication.thy ===== *)
theory OB_Publication
  imports OB_Book
begin

text \<open>
  What leaves the book and when: the inbound feed delay (\<open>publish_delayed\<close>, \<open>drain_pub_q\<close>)
  and the throttled best-bid-and-offer notification (\<open>notifybbbosubs\<close>).
\<close>

section \<open>The delayed queue\<close>

text \<open>Everything published, sent or still waiting, in publication order.\<close>

definition published :: "Book \<Rightarrow> (actor \<times> ob_msg) list" where
  "published b = sent b @ map snd (pub_q b)"

lemma drain_loop_split:
  "drain_loop now q out = (dropWhile (\<lambda>e. fst e \<le> now) q, out @ map snd (takeWhile (\<lambda>e. fst e \<le> now) q))"
  by (induction now q out rule: drain_loop.induct) auto

lemma drain_pub_q_eq:
  "drain_pub_q b now = b\<lparr>pub_q := dropWhile (\<lambda>e. fst e \<le> now) (pub_q b),
     sent := sent b @ map snd (takeWhile (\<lambda>e. fst e \<le> now) (pub_q b))\<rparr>"
  by (cases "pub_q b") (simp_all add: drain_pub_q_def drain_loop_split split: prod.splits)

lemma takeWhile_sorted:
  "sorted (map fst xs) \<Longrightarrow> takeWhile (\<lambda>e. fst e \<le> (n :: 'a :: linorder)) xs = filter (\<lambda>e. fst e \<le> n) xs
     \<and> dropWhile (\<lambda>e. fst e \<le> n) xs = filter (\<lambda>e. n < fst e) xs"
proof (induction xs)
  case (Cons x xs)
  show ?case
  proof (cases "fst x \<le> n")
    case False
    then have "\<forall>y\<in>set xs. n < fst y"
      using Cons.prems by (auto simp: not_le intro: less_le_trans)
    then show ?thesis
      using False by (auto simp: filter_empty_conv not_le intro!: filter_True [symmetric])
  qed (use Cons in auto)
qed simp

text \<open>A run of publications and drains at the market times given.\<close>

datatype pub_event = Publish actor ob_msg u64 | Drain u64

fun pub_step :: "Book \<Rightarrow> pub_event \<Rightarrow> Book" where
  "pub_step b (Publish to m now) = publish_delayed b to m now"
| "pub_step b (Drain now) = drain_pub_q b now"

fun ev_msgs :: "pub_event \<Rightarrow> (actor \<times> ob_msg) list" where
  "ev_msgs (Publish to m now) = [(to, m)]"
| "ev_msgs (Drain now) = []"

fun ev_time :: "pub_event \<Rightarrow> u64" where
  "ev_time (Publish to m now) = now"
| "ev_time (Drain now) = now"

definition delay_ns :: "Book \<Rightarrow> u64" where
  "delay_ns b = of_int (feed_delay b) * 1000"

lemma pub_step_feed_delay [simp]: "feed_delay (pub_step b e) = feed_delay b" "delay_ns (pub_step b e) = delay_ns b"
  by (cases e; simp add: publish_delayed_def drain_pub_q_eq delay_ns_def)+

lemma pub_run_feed_delay [simp]: "feed_delay (foldl pub_step b es) = feed_delay b" "delay_ns (foldl pub_step b es) = delay_ns b"
  by (induction es arbitrary: b) auto

lemma published_step:
  assumes "feed_delay b > 0" "ev_time e \<noteq> 0"
  shows "published (pub_step b e) = published b @ ev_msgs e"
proof (cases e)
  case (Drain now)
  have "map snd (takeWhile (\<lambda>e. fst e \<le> now) (pub_q b)) @ map snd (dropWhile (\<lambda>e. fst e \<le> now) (pub_q b)) = map snd (pub_q b)"
    by (simp flip: map_append)
  then show ?thesis
    using Drain by (simp add: published_def drain_pub_q_eq)
qed (use assms in \<open>simp add: published_def publish_delayed_def\<close>)

definition stamps_ok :: "Book \<Rightarrow> u64 \<Rightarrow> bool" where
  "stamps_ok b t \<longleftrightarrow> sorted (map fst (pub_q b)) \<and> (\<forall>e\<in>set (pub_q b). fst e \<le> t + delay_ns b)"

lemma stamps_mono:
  assumes "stamps_ok b t" "t \<le> t'" "unat t' + unat (delay_ns b) < 2 ^ 64"
  shows "stamps_ok b t'"
proof -
  have "t' \<le> t' + delay_ns b"
    using assms(3) by (simp add: word_le_nat_alt unat_plus_if_size word_size)
  then have "t + delay_ns b \<le> t' + delay_ns b"
    using assms(2,3) by (auto simp: word_le_nat_alt unat_plus_if_size word_size)
  then show ?thesis
    using assms(1) by (auto simp: stamps_ok_def)
qed

lemma stamps_step:
  assumes "stamps_ok b t" "t \<le> ev_time e" "unat (ev_time e) + unat (delay_ns b) < 2 ^ 64" "feed_delay b > 0" "ev_time e \<noteq> 0"
  shows "stamps_ok (pub_step b e) (ev_time e)"
proof -
  have s: "stamps_ok b (ev_time e)"
    using stamps_mono [OF assms(1-3)] .
  show ?thesis
  proof (cases e)
    case (Publish to m now)
    then show ?thesis
      using s assms(4,5) by (auto simp: stamps_ok_def publish_delayed_def sorted_append delay_ns_def)
  next
    case (Drain now)
    then show ?thesis
      using s takeWhile_sorted [of "pub_q b" now]
      by (auto simp: stamps_ok_def drain_pub_q_eq sorted_filter delay_ns_def)
  qed
qed

lemma stamps_run:
  assumes "stamps_ok b t" "feed_delay b > 0" "sorted (t # map ev_time es)"
    "\<forall>e\<in>set es. ev_time e \<noteq> 0 \<and> unat (ev_time e) + unat (delay_ns b) < 2 ^ 64"
  shows "sorted (map fst (pub_q (foldl pub_step b es))) \<and> published (foldl pub_step b es) = published b @ concat (map ev_msgs es)"
  using assms
proof (induction es arbitrary: b t)
  case Nil
  then show ?case by (simp add: stamps_ok_def)
next
  case (Cons e es)
  have "stamps_ok (pub_step b e) (ev_time e)"
    using Cons.prems stamps_step [of b t e] by simp
  then show ?case
    using Cons.IH [of "pub_step b e" "ev_time e"] Cons.prems published_step [of b e] by simp
qed

text \<open>
  The inbound feed delay neither loses, duplicates nor reorders a message, and releases
  each when it is due. Over any run of publications and drains whose market times do not
  decrease, with a positive delay and no wrap of the 64-bit stamps, the messages sent
  followed by those waiting are the messages published, in order; and a drain at time
  \<open>now\<close> sends exactly the waiting messages whose stamp is at most \<open>now\<close>.
\<close>

theorem feed_delay_exact:
  assumes "feed_delay b > 0" "pub_q b = []" "sorted (map ev_time es)"
    "\<forall>e\<in>set es. ev_time e \<noteq> 0 \<and> unat (ev_time e) + unat (delay_ns b) < 2 ^ 64"
  shows "published (foldl pub_step b es) = sent b @ concat (map ev_msgs es)
     \<and> (let b1 = foldl pub_step b es; b2 = drain_pub_q b1 now in
          sent b2 = sent b1 @ map snd (filter (\<lambda>e. fst e \<le> now) (pub_q b1))
          \<and> pub_q b2 = filter (\<lambda>e. now < fst e) (pub_q b1))"
proof -
  have "stamps_ok b 0"
    using assms(2) by (simp add: stamps_ok_def)
  then have s: "sorted (map fst (pub_q (foldl pub_step b es)))"
    "published (foldl pub_step b es) = published b @ concat (map ev_msgs es)"
    using stamps_run [of b 0 es] assms by auto
  show ?thesis
    using s assms(2) takeWhile_sorted [OF s(1), of now] by (simp add: published_def Let_def drain_pub_q_eq)
qed

definition pub_book :: Book where
  "pub_book = \<lparr>bidqs = [], askqs = [], best_bid = 0, best_ask = 19, maxprice = 20, asset_maxpx = 20,
     do_cross_check = True, sym = 7, currtim = 0, last_bbo_notify_tim = 0,
     bbbosubs = [9], hiprio_datasubs = [], lowprio_datasubs = [],
     delay = 1000, cancel_delay = -1, feed_delay = 2, last_processed_ts = 0,
     pub_q = [], sent = [], num_cross_recover = 0, next_addr = 1\<rparr>"

theorem feed_delay_exact_witness:
  "let es = [Publish 1 (ClearMsg 7) 100, Publish 2 (ClearMsg 8) 1500, Drain 2100];
       b1 = foldl pub_step pub_book es
   in published b1 = [(1, ClearMsg 7), (2, ClearMsg 8)] \<and> sent b1 = [(1, ClearMsg 7)]
      \<and> sent (drain_pub_q b1 3500) = [(1, ClearMsg 7), (2, ClearMsg 8)]"
proof -
  let ?es = "[Publish 1 (ClearMsg 7) 100, Publish 2 (ClearMsg 8) 1500, Drain 2100]"
  have "delay_ns pub_book = 2000"
    by (simp add: delay_ns_def pub_book_def)
  moreover have "feed_delay pub_book > 0" "pub_q pub_book = []" "sorted (map ev_time ?es)"
    by (simp_all add: pub_book_def)
  ultimately show ?thesis
    using feed_delay_exact [of pub_book ?es 3500]
    by (simp add: Let_def) (simp add: pub_book_def publish_delayed_def drain_pub_q_def)
qed

section \<open>The best-bid-and-offer notification\<close>

text \<open>
  A run of the inside: before each notification the book's orders may move the inside to
  any pair.
\<close>

fun notify_run :: "Book \<Rightarrow> (int \<times> int \<times> u64 \<times> bs \<times> u32) list \<Rightarrow> Book" where
  "notify_run b [] = b"
| "notify_run b ((bid, ask, t, side, venue) # xs) =
     notify_run (notifybbbosubs (b\<lparr>best_bid := bid, best_ask := ask\<rparr>) t side venue) xs"

definition quiet_since :: "u64 \<Rightarrow> u64 \<Rightarrow> bool" where
  "quiet_since s t \<longleftrightarrow> unat s + unat MIN_INTERVAL_NS \<le> unat t"

lemma foldl_publish_now:
  "feed_delay b \<le> 0 \<Longrightarrow> foldl (\<lambda>b c. publish_delayed b c (BBBOChg t v s (sym b) (best_bid b) (best_ask b)) t) b cs
     = b\<lparr>sent := sent b @ map (\<lambda>c. (c, BBBOChg t v s (sym b) (best_bid b) (best_ask b))) cs\<rparr>"
  by (induction cs arbitrary: b) (auto simp: publish_delayed_def)

lemma notify_now:
  assumes "feed_delay b \<le> 0"
  shows "notifybbbosubs b t side venue =
    (if last_bbo_notify_tim b \<noteq> 0 \<and> t - last_bbo_notify_tim b < MIN_INTERVAL_NS \<or> best_bid b \<ge> best_ask b then b
     else b\<lparr>last_bbo_notify_tim := t,
            sent := sent b @ map (\<lambda>c. (c, BBBOChg t venue side (sym b) (best_bid b) (best_ask b))) (bbbosubs b)\<rparr>)"
  using assms foldl_publish_now [of "b\<lparr>last_bbo_notify_tim := t\<rparr>" t venue side "bbbosubs b"]
  by (simp add: notifybbbosubs_def)

lemma interval_quiet:
  "s \<le> t \<Longrightarrow> \<not> t - s < MIN_INTERVAL_NS \<Longrightarrow> quiet_since s t"
  by (auto simp: quiet_since_def word_le_nat_alt word_less_nat_alt unat_sub)

lemma notify_run_ok:
  assumes "feed_delay b \<le> 0" "bbbosubs b = [c]" "sorted (last_bbo_notify_tim b # map (\<lambda>x. fst (snd (snd x))) xs)"
    "\<forall>x\<in>set xs. fst (snd (snd x)) \<noteq> 0"
  shows "\<exists>out. sent (notify_run b xs) = sent b @ map (Pair c) out
     \<and> (last_bbo_notify_tim b \<noteq> 0 \<longrightarrow> (\<forall>m\<in>set out. quiet_since (last_bbo_notify_tim b) (chg_tim m)))
     \<and> sorted_wrt (\<lambda>m m'. quiet_since (chg_tim m) (chg_tim m')) out
     \<and> (\<forall>m\<in>set out. chg_bid m < chg_ask m)"
  using assms
proof (induction b xs rule: notify_run.induct)
  case (1 b)
  then show ?case by (intro exI [of _ "[]"]) simp
next
  case (2 b bid ask t side venue xs)
  let ?b = "b\<lparr>best_bid := bid, best_ask := ask\<rparr>"
  let ?m = "BBBOChg t venue side (sym b) bid ask"
  note P = 2(2-)
  have t: "last_bbo_notify_tim b \<le> t" "t \<noteq> 0" "\<forall>x\<in>set xs. fst (snd (snd x)) \<noteq> 0"
    "sorted (t # map (\<lambda>x. fst (snd (snd x))) xs)" "sorted (last_bbo_notify_tim b # map (\<lambda>x. fst (snd (snd x))) xs)"
    using P(3,4) by auto
  show ?case
  proof (cases "last_bbo_notify_tim b \<noteq> 0 \<and> t - last_bbo_notify_tim b < MIN_INTERVAL_NS \<or> bid \<ge> ask")
    case True
    then have "notifybbbosubs ?b t side venue = ?b"
      using notify_now [of ?b t side venue] P(1) by simp
    then show ?thesis
      using 2(1) P(1,2) t(3,5) by simp
  next
    case False
    let ?b' = "?b\<lparr>last_bbo_notify_tim := t, sent := sent b @ [(c, ?m)]\<rparr>"
    have e: "notifybbbosubs ?b t side venue = ?b'"
      using notify_now [of ?b t side venue] P(1,2) False by simp
    obtain out where o: "sent (notify_run ?b' xs) = sent ?b' @ map (Pair c) out"
      "\<forall>m\<in>set out. quiet_since t (chg_tim m)" "sorted_wrt (\<lambda>m m'. quiet_since (chg_tim m) (chg_tim m')) out"
      "\<forall>m\<in>set out. chg_bid m < chg_ask m"
      using 2(1) P(1,2) t(2-4) unfolding e by auto
    have q: "quiet_since (last_bbo_notify_tim b) t" if "last_bbo_notify_tim b \<noteq> 0"
      using interval_quiet [OF t(1)] False that by simp
    have "\<forall>m\<in>set out. quiet_since (last_bbo_notify_tim b) (chg_tim m)"
      using o(2) t(1) by (auto simp: quiet_since_def word_le_nat_alt)
    then show ?thesis
      using o q False e by (intro exI [of _ "?m # out"]) auto
  qed
qed

text \<open>
  A subscriber to the inside never gets a crossed or locked inside and never two messages
  less than 100 ms of market time apart. Over any run of the inside whose times are
  positive and do not decrease, every message sent has its bid below its ask, and each
  later message is at least \<open>MIN_INTERVAL_NS\<close> after each earlier one.
\<close>

theorem bbbo_throttled_and_uncrossed:
  assumes "feed_delay b \<le> 0" "bbbosubs b = [c]" "sorted (last_bbo_notify_tim b # map (\<lambda>x. fst (snd (snd x))) xs)"
    "\<forall>x\<in>set xs. fst (snd (snd x)) \<noteq> 0"
  shows "\<exists>out. sent (notify_run b xs) = sent b @ map (Pair c) out
     \<and> sorted_wrt (\<lambda>m m'. unat (chg_tim m) + 100000000 \<le> unat (chg_tim m')) out
     \<and> (\<forall>m\<in>set out. chg_bid m < chg_ask m)"
proof -
  have "unat MIN_INTERVAL_NS = 100000000"
    by (simp add: MIN_INTERVAL_NS_def)
  then show ?thesis
    using notify_run_ok [OF assms] unfolding quiet_since_def by auto
qed

theorem bbbo_throttled_and_uncrossed_witness:
  "let b = pub_book\<lparr>feed_delay := 0\<rparr>;
       xs = [(5, 8, 1000, BUY, 11), (6, 8, 2000, BUY, 11), (9, 8, 200000000, SEL, 11), (6, 9, 200000001, SEL, 11)]
   in sent (notify_run b xs) = [(9, BBBOChg 1000 11 BUY 7 5 8), (9, BBBOChg 200000001 11 SEL 7 6 9)]
     \<and> (\<exists>out. sent (notify_run b xs) = map (Pair 9) out \<and> (\<forall>m\<in>set out. chg_bid m < chg_ask m))"
proof -
  let ?b = "pub_book\<lparr>feed_delay := 0\<rparr>"
  let ?xs = "[(5, 8, 1000, BUY, 11), (6, 8, 2000, BUY, 11), (9, 8, 200000000, SEL, 11), (6, 9, 200000001, SEL, 11)]"
  have "\<exists>out. sent (notify_run ?b ?xs) = map (Pair 9) out \<and> (\<forall>m\<in>set out. chg_bid m < chg_ask m)"
    using bbbo_throttled_and_uncrossed [of ?b 9 ?xs] by (auto simp: pub_book_def simp del: notify_run.simps)
  moreover have "sent (notify_run ?b ?xs) = [(9, BBBOChg 1000 11 BUY 7 5 8), (9, BBBOChg 200000001 11 SEL 7 6 9)]"
    by (simp add: pub_book_def notifybbbosubs_def publish_delayed_def MIN_INTERVAL_NS_def)
  ultimately show ?thesis
    by (simp add: Let_def)
qed

end
