(* ===== verification/Mailbox.thy ===== *)
theory Mailbox
  imports Kaspar_Prelude
begin

text \<open>
  The mailboxes of the actor runtime that hold a ring and an overflow: \<open>BQueue\<close>,
  \<open>BQueueBatched\<close> and \<open>HybridBuffer\<close> of \<open>src/actors/cpp/include/actors\<close>, and the interface
  \<open>Queue\<close> they implement.

  \<open>boost::circular_buffer\<close> and \<open>boost::container::deque\<close> are not part of the repository: the
  first is a parameter, the record \<open>ring_ops\<close> of the operations the code calls, and what
  the code relies on is the locale \<open>ring_buffer\<close>, the documented behaviour of a bounded
  sequence; a deque is an unbounded one, a list. Every method runs under the queue's mutex
  and is one step. \<open>pop\<close> waits on a condition variable while the queue is empty: the
  model's \<open>None\<close> is that wait.
\<close>

section \<open>The interface of a mailbox\<close>

text \<open>A sequence of calls: \<open>Some x\<close> is \<open>push(x)\<close>, \<open>None\<close> an attempt to pop.\<close>

fun mb_run :: "('q \<Rightarrow> 'a \<Rightarrow> 'q) \<Rightarrow> ('q \<Rightarrow> (('a \<times> bool) \<times> 'q) option) \<Rightarrow> 'a option list \<Rightarrow> 'q \<Rightarrow> 'a list \<times> 'q" where
  "mb_run push pop [] q = ([], q)"
| "mb_run push pop (Some x # es) q = mb_run push pop es (push q x)"
| "mb_run push pop (None # es) q =
     (case pop q of
        None \<Rightarrow> mb_run push pop es q
      | Some ((x, _), q') \<Rightarrow> (let (out, q'') = mb_run push pop es q' in (x # out, q'')))"

fun pushes :: "'a option list \<Rightarrow> 'a list" where
  "pushes [] = []"
| "pushes (Some x # es) = x # pushes es"
| "pushes (None # es) = pushes es"

locale mailbox =
  fixes push :: "'q \<Rightarrow> 'a \<Rightarrow> 'q"
    and pop :: "'q \<Rightarrow> (('a \<times> bool) \<times> 'q) option"
    and peek :: "'q \<Rightarrow> 'a option"
    and is_empty :: "'q \<Rightarrow> bool"
    and len :: "'q \<Rightarrow> nat"
    and contents :: "'q \<Rightarrow> 'a list"
    and inv :: "'q \<Rightarrow> bool"
  assumes push_contents: "inv q \<Longrightarrow> contents (push q x) = contents q @ [x]"
    and push_inv: "inv q \<Longrightarrow> inv (push q x)"
    and pop_None: "inv q \<Longrightarrow> pop q = None \<longleftrightarrow> contents q = []"
    and pop_Some: "inv q \<Longrightarrow> pop q = Some ((x, lst), q') \<Longrightarrow>
           contents q = x # contents q' \<and> inv q' \<and> lst = (contents q' = [])"
    and peek_contents: "inv q \<Longrightarrow> peek q = (case contents q of [] \<Rightarrow> None | x # _ \<Rightarrow> Some x)"
    and is_empty_contents: "inv q \<Longrightarrow> is_empty q \<longleftrightarrow> contents q = []"
    and len_contents: "inv q \<Longrightarrow> len q = length (contents q)"
begin

lemma pop_cases:
  assumes "inv q"
  obtains "pop q = None" "contents q = []"
  | x q' where "pop q = Some ((x, contents q' = []), q')" "contents q = x # contents q'" "inv q'"
proof (cases "pop q")
  case None
  then show thesis
    using pop_None [OF assms] that by blast
next
  case (Some r)
  then obtain x l q' where "pop q = Some ((x, l), q')"
    by (metis surj_pair)
  then show thesis
    using pop_Some [OF assms] that by blast
qed

text \<open>Nothing is lost, duplicated or reordered over any sequence of calls.\<close>

lemma run_fifo:
  assumes "inv q" "mb_run push pop es q = (out, q')"
  shows "out @ contents q' = contents q @ pushes es \<and> inv q'"
  using assms
proof (induction es arbitrary: q out)
  case (Cons e es)
  show ?case
  proof (cases e)
    case None
    show ?thesis
    proof (cases rule: pop_cases [OF Cons.prems(1)])
      case 1
      then show ?thesis
        using Cons None by simp
    next
      case (2 x q1)
      then obtain out1 where "mb_run push pop es q1 = (out1, q')" "out = x # out1"
        using Cons.prems(2) None by (auto split: prod.splits)
      then show ?thesis
        using Cons.IH [OF 2(3)] 2(2) None by simp
    qed
  next
    case (Some x)
    then show ?thesis
      using Cons.IH [OF push_inv [OF Cons.prems(1)]] Cons.prems(2) push_contents [OF Cons.prems(1), of x] by simp
  qed
qed simp

lemma run_in_order:
  assumes "inv q" "contents q = []" "mb_run push pop es q = (out, q')"
  shows "\<exists>rest. pushes es = out @ rest \<and> contents q' = rest \<and> len q' = length (pushes es) - length out"
  using run_fifo [OF assms(1,3)] assms(2) len_contents [of q'] by (metis append_Nil length_append add_diff_cancel_left')

end

section \<open>The ring\<close>

record ('r, 'a) ring_ops =
  r_make :: "nat \<Rightarrow> 'r"
  r_empty :: "'r \<Rightarrow> bool"
  r_full :: "'r \<Rightarrow> bool"
  r_size :: "'r \<Rightarrow> nat"
  r_front :: "'r \<Rightarrow> 'a"
  r_back :: "'r \<Rightarrow> 'a"
  r_at :: "'r \<Rightarrow> nat \<Rightarrow> 'a"
  r_push_back :: "'r \<Rightarrow> 'a \<Rightarrow> 'r"
  r_push_front :: "'r \<Rightarrow> 'a \<Rightarrow> 'r"
  r_pop_front :: "'r \<Rightarrow> 'r"
  r_pop_back :: "'r \<Rightarrow> 'r"
  r_clear :: "'r \<Rightarrow> 'r"

locale ring_buffer =
  fixes ops :: "('r, 'a) ring_ops" and items :: "'r \<Rightarrow> 'a list" and room :: "'r \<Rightarrow> nat"
  assumes make: "items (r_make ops n) = []" "room (r_make ops n) = n"
    and empty: "r_empty ops r \<longleftrightarrow> items r = []"
    and full: "r_full ops r \<longleftrightarrow> length (items r) = room r"
    and size: "r_size ops r = length (items r)"
    and at_front: "items r \<noteq> [] \<Longrightarrow> r_front ops r = hd (items r)"
    and at_back: "items r \<noteq> [] \<Longrightarrow> r_back ops r = last (items r)"
    and at: "i < length (items r) \<Longrightarrow> r_at ops r i = items r ! i"
    and push_back: "length (items r) < room r \<Longrightarrow> items (r_push_back ops r x) = items r @ [x]"
      "room (r_push_back ops r x) = room r"
    and push_front: "length (items r) < room r \<Longrightarrow> items (r_push_front ops r x) = x # items r"
      "room (r_push_front ops r x) = room r"
    and pop_front: "items r \<noteq> [] \<Longrightarrow> items (r_pop_front ops r) = tl (items r)"
      "room (r_pop_front ops r) = room r"
    and pop_back: "items r \<noteq> [] \<Longrightarrow> items (r_pop_back ops r) = butlast (items r)"
      "room (r_pop_back ops r) = room r"
    and clear: "items (r_clear ops r) = []" "room (r_clear ops r) = room r"
begin

lemma not_full: "length (items r) \<le> room r \<Longrightarrow> \<not> r_full ops r \<longleftrightarrow> length (items r) < room r"
  using full [of r] by auto

end

text \<open>
  The bounded sequence itself is a ring: a push to a full one drops the element at the
  other end, a push to one of capacity zero does nothing, and a pop from an empty one,
  which the library leaves undefined, does nothing here.
\<close>

definition list_ring :: "('a list \<times> nat, 'a) ring_ops" where
  "list_ring = \<lparr>r_make = (\<lambda>n. ([], n)), r_empty = (\<lambda>(xs, n). xs = []), r_full = (\<lambda>(xs, n). length xs = n),
     r_size = (\<lambda>(xs, n). length xs), r_front = (\<lambda>(xs, n). hd xs), r_back = (\<lambda>(xs, n). last xs), r_at = (\<lambda>(xs, n) i. xs ! i),
     r_push_back = (\<lambda>(xs, n) x. if n = 0 then (xs, n) else if length xs = n then (tl xs @ [x], n) else (xs @ [x], n)),
     r_push_front = (\<lambda>(xs, n) x. if n = 0 then (xs, n) else if length xs = n then (x # butlast xs, n) else (x # xs, n)),
     r_pop_front = (\<lambda>(xs, n). (tl xs, n)), r_pop_back = (\<lambda>(xs, n). (butlast xs, n)), r_clear = (\<lambda>(xs, n). ([], n))\<rparr>"

interpretation lr: ring_buffer list_ring fst snd
  by unfold_locales (auto simp: list_ring_def split: prod.splits)

section \<open>BQueue\<close>

record ('r, 'a) BQueue =
  cb :: 'r
  overflow :: "'a list"

definition BQueue_init :: "('r, 'a) ring_ops \<Rightarrow> nat \<Rightarrow> ('r, 'a) BQueue" where
  "BQueue_init ops n = \<lparr>cb = r_make ops n, overflow = []\<rparr>"

definition bq_pop :: "('r, 'a) ring_ops \<Rightarrow> ('r, 'a) BQueue \<Rightarrow> (('a \<times> bool) \<times> ('r, 'a) BQueue) option" where
  "bq_pop ops q =
     (if r_empty ops (cb q) \<and> overflow q = [] then None
      else let (ret, q') = (if \<not> r_empty ops (cb q) then (r_front ops (cb q), q\<lparr>cb := r_pop_front ops (cb q)\<rparr>)
                            else (hd (overflow q), q\<lparr>overflow := tl (overflow q)\<rparr>))
           in Some ((ret, r_empty ops (cb q') \<and> overflow q' = []), q'))"

definition bq_peek :: "('r, 'a) ring_ops \<Rightarrow> ('r, 'a) BQueue \<Rightarrow> 'a option" where
  "bq_peek ops q =
     (if r_empty ops (cb q) \<and> overflow q = [] then None
      else Some (if \<not> r_empty ops (cb q) then r_front ops (cb q) else hd (overflow q)))"

definition bq_push :: "('r, 'a) ring_ops \<Rightarrow> ('r, 'a) BQueue \<Rightarrow> 'a \<Rightarrow> ('r, 'a) BQueue" where
  "bq_push ops q x =
     (if overflow q \<noteq> [] \<or> r_full ops (cb q) then q\<lparr>overflow := overflow q @ [x]\<rparr>
      else q\<lparr>cb := r_push_back ops (cb q) x\<rparr>)"

definition bq_is_empty :: "('r, 'a) ring_ops \<Rightarrow> ('r, 'a) BQueue \<Rightarrow> bool" where
  "bq_is_empty ops q \<longleftrightarrow> r_empty ops (cb q) \<and> overflow q = []"

definition bq_length :: "('r, 'a) ring_ops \<Rightarrow> ('r, 'a) BQueue \<Rightarrow> nat" where
  "bq_length ops q = r_size ops (cb q) + length (overflow q)"

definition circ_buf_len :: "('r, 'a) ring_ops \<Rightarrow> ('r, 'a) BQueue \<Rightarrow> nat" where
  "circ_buf_len ops q = r_size ops (cb q)"

text \<open>\<open>BQueueBatched::pop_batch\<close>; the ring's size bounds its first loop.\<close>

fun drain_ring :: "('r, 'a) ring_ops \<Rightarrow> nat \<Rightarrow> 'r \<Rightarrow> 'a list \<Rightarrow> 'a list \<times> 'r" where
  "drain_ring ops fuel r out =
     (if r_empty ops r then (out, r)
      else case fuel of
             0 \<Rightarrow> (out, r)
           | Suc n \<Rightarrow> drain_ring ops n (r_pop_front ops r) (out @ [r_front ops r]))"

declare drain_ring.simps [simp del]

definition pop_batch :: "('r, 'a) ring_ops \<Rightarrow> ('r, 'a) BQueue \<Rightarrow> ('a list \<times> ('r, 'a) BQueue) option" where
  "pop_batch ops q =
     (if r_empty ops (cb q) \<and> overflow q = [] then None
      else let (out, r) = drain_ring ops (r_size ops (cb q)) (cb q) []
           in Some (out @ overflow q, q\<lparr>cb := r, overflow := []\<rparr>))"

section \<open>HybridBuffer\<close>

record ('r, 'a) HybridBuffer =
  hcb :: 'r
  overflow_front :: "'a list"
  overflow_back :: "'a list"

definition HybridBuffer_init :: "('r, 'a) ring_ops \<Rightarrow> nat \<Rightarrow> ('r, 'a) HybridBuffer" where
  "HybridBuffer_init ops n = \<lparr>hcb = r_make ops n, overflow_front = [], overflow_back = []\<rparr>"

definition hb_empty :: "('r, 'a) ring_ops \<Rightarrow> ('r, 'a) HybridBuffer \<Rightarrow> bool" where
  "hb_empty ops h \<longleftrightarrow> r_empty ops (hcb h) \<and> overflow_front h = [] \<and> overflow_back h = []"

definition hb_front :: "('r, 'a) ring_ops \<Rightarrow> ('r, 'a) HybridBuffer \<Rightarrow> 'a" where
  "hb_front ops h =
     (if overflow_front h \<noteq> [] then hd (overflow_front h)
      else if \<not> r_empty ops (hcb h) then r_front ops (hcb h)
      else hd (overflow_back h))"

definition hb_pop_front :: "('r, 'a) ring_ops \<Rightarrow> ('r, 'a) HybridBuffer \<Rightarrow> ('r, 'a) HybridBuffer" where
  "hb_pop_front ops h =
     (if overflow_front h \<noteq> [] then h\<lparr>overflow_front := tl (overflow_front h)\<rparr>
      else if \<not> r_empty ops (hcb h) then h\<lparr>hcb := r_pop_front ops (hcb h)\<rparr>
      else h\<lparr>overflow_back := tl (overflow_back h)\<rparr>)"

definition hb_back :: "('r, 'a) ring_ops \<Rightarrow> ('r, 'a) HybridBuffer \<Rightarrow> 'a" where
  "hb_back ops h =
     (if overflow_back h \<noteq> [] then last (overflow_back h)
      else if \<not> r_empty ops (hcb h) then r_back ops (hcb h)
      else last (overflow_front h))"

definition hb_push_back :: "('r, 'a) ring_ops \<Rightarrow> ('r, 'a) HybridBuffer \<Rightarrow> 'a \<Rightarrow> ('r, 'a) HybridBuffer" where
  "hb_push_back ops h x =
     (if overflow_front h \<noteq> [] \<or> overflow_back h \<noteq> [] then h\<lparr>overflow_back := overflow_back h @ [x]\<rparr>
      else if r_full ops (hcb h) then h\<lparr>overflow_back := overflow_back h @ [x]\<rparr>
      else h\<lparr>hcb := r_push_back ops (hcb h) x\<rparr>)"

definition hb_pop_back :: "('r, 'a) ring_ops \<Rightarrow> ('r, 'a) HybridBuffer \<Rightarrow> ('r, 'a) HybridBuffer" where
  "hb_pop_back ops h =
     (if overflow_back h \<noteq> [] then h\<lparr>overflow_back := butlast (overflow_back h)\<rparr>
      else if \<not> r_empty ops (hcb h) then h\<lparr>hcb := r_pop_back ops (hcb h)\<rparr>
      else h\<lparr>overflow_front := butlast (overflow_front h)\<rparr>)"

definition hb_push_front :: "('r, 'a) ring_ops \<Rightarrow> ('r, 'a) HybridBuffer \<Rightarrow> 'a \<Rightarrow> ('r, 'a) HybridBuffer" where
  "hb_push_front ops h x =
     (if overflow_front h \<noteq> [] \<or> overflow_back h \<noteq> [] then h\<lparr>overflow_front := x # overflow_front h\<rparr>
      else if r_full ops (hcb h) then h\<lparr>overflow_front := x # overflow_front h\<rparr>
      else h\<lparr>hcb := r_push_front ops (hcb h) x\<rparr>)"

definition hb_clear :: "('r, 'a) ring_ops \<Rightarrow> ('r, 'a) HybridBuffer \<Rightarrow> ('r, 'a) HybridBuffer" where
  "hb_clear ops h = h\<lparr>hcb := r_clear ops (hcb h), overflow_front := [], overflow_back := []\<rparr>"

text \<open>
  The iterator: its phase and, for each of the three parts, how far it has come. \<open>END\<close> is
  the past-the-end phase.
\<close>

datatype hb_phase = FRONT_OVERFLOW | CB | BACK_OVERFLOW | END_PHASE

record hb_iter =
  phase :: hb_phase
  front_i :: nat
  cb_i :: nat
  back_i :: nat

definition it_begin :: "('r, 'a) ring_ops \<Rightarrow> ('r, 'a) HybridBuffer \<Rightarrow> hb_iter" where
  "it_begin ops h =
     \<lparr>phase = (if overflow_front h \<noteq> [] then FRONT_OVERFLOW
               else if \<not> r_empty ops (hcb h) then CB
               else if overflow_back h \<noteq> [] then BACK_OVERFLOW
               else END_PHASE),
      front_i = 0, cb_i = 0, back_i = 0\<rparr>"

definition it_end :: "('r, 'a) ring_ops \<Rightarrow> ('r, 'a) HybridBuffer \<Rightarrow> hb_iter" where
  "it_end ops h =
     \<lparr>phase = END_PHASE, front_i = length (overflow_front h), cb_i = r_size ops (hcb h), back_i = length (overflow_back h)\<rparr>"

definition it_deref :: "('r, 'a) ring_ops \<Rightarrow> ('r, 'a) HybridBuffer \<Rightarrow> hb_iter \<Rightarrow> 'a" where
  "it_deref ops h it =
     (if phase it = FRONT_OVERFLOW then overflow_front h ! front_i it
      else if phase it = CB then r_at ops (hcb h) (cb_i it)
      else overflow_back h ! back_i it)"

definition it_next :: "('r, 'a) ring_ops \<Rightarrow> ('r, 'a) HybridBuffer \<Rightarrow> hb_iter \<Rightarrow> hb_iter" where
  "it_next ops h it =
     (case phase it of
        FRONT_OVERFLOW \<Rightarrow>
          (let it' = it\<lparr>front_i := front_i it + 1\<rparr> in
           if front_i it' = length (overflow_front h) then
             it'\<lparr>phase := (if cb_i it' \<noteq> r_size ops (hcb h) then CB
                            else if back_i it' \<noteq> length (overflow_back h) then BACK_OVERFLOW
                            else END_PHASE)\<rparr>
           else it')
      | CB \<Rightarrow>
          (let it' = it\<lparr>cb_i := cb_i it + 1\<rparr> in
           if cb_i it' = r_size ops (hcb h) then
             it'\<lparr>phase := (if back_i it' \<noteq> length (overflow_back h) then BACK_OVERFLOW else END_PHASE)\<rparr>
           else it')
      | BACK_OVERFLOW \<Rightarrow>
          (let it' = it\<lparr>back_i := back_i it + 1\<rparr> in
           if back_i it' = length (overflow_back h) then it'\<lparr>phase := END_PHASE\<rparr> else it')
      | END_PHASE \<Rightarrow> it)"

text \<open>The three moves of \<open>operator--\<close> into the last element of a part.\<close>

definition to_front :: "('r, 'a) HybridBuffer \<Rightarrow> hb_iter \<Rightarrow> hb_iter" where
  "to_front h it =
     (if front_i it \<noteq> 0 then it\<lparr>phase := FRONT_OVERFLOW, front_i := length (overflow_front h) - 1\<rparr> else it)"

definition to_cb :: "('r, 'a) ring_ops \<Rightarrow> ('r, 'a) HybridBuffer \<Rightarrow> hb_iter \<Rightarrow> hb_iter" where
  "to_cb ops h it =
     (if cb_i it \<noteq> 0 then it\<lparr>phase := CB, cb_i := r_size ops (hcb h) - 1\<rparr> else to_front h it)"

definition it_prev :: "('r, 'a) ring_ops \<Rightarrow> ('r, 'a) HybridBuffer \<Rightarrow> hb_iter \<Rightarrow> hb_iter" where
  "it_prev ops h it =
     (case phase it of
        END_PHASE \<Rightarrow>
          if back_i it \<noteq> 0 then it\<lparr>phase := BACK_OVERFLOW, back_i := length (overflow_back h) - 1\<rparr>
          else to_cb ops h it
      | BACK_OVERFLOW \<Rightarrow> if back_i it = 0 then to_cb ops h it else it\<lparr>back_i := back_i it - 1\<rparr>
      | CB \<Rightarrow> if cb_i it = 0 then to_front h it else it\<lparr>cb_i := cb_i it - 1\<rparr>
      | FRONT_OVERFLOW \<Rightarrow> it\<lparr>front_i := front_i it - 1\<rparr>)"

definition it_eq :: "hb_iter \<Rightarrow> hb_iter \<Rightarrow> bool" where
  "it_eq a b \<longleftrightarrow> phase a = phase b \<and>
     (case phase a of
        FRONT_OVERFLOW \<Rightarrow> front_i a = front_i b
      | CB \<Rightarrow> cb_i a = cb_i b
      | BACK_OVERFLOW \<Rightarrow> back_i a = back_i b
      | END_PHASE \<Rightarrow> True)"

text \<open>
  A range-based \<open>for\<close> from \<open>begin()\<close> to \<open>end()\<close>, and one over \<open>rbegin()\<close> and \<open>rend()\<close>, where a
  reverse iterator reads the element before the iterator it wraps. The fuel is the number
  of rounds allowed; running out of it is \<open>None\<close>.
\<close>

fun walk_forward :: "('r, 'a) ring_ops \<Rightarrow> ('r, 'a) HybridBuffer \<Rightarrow> nat \<Rightarrow> hb_iter \<Rightarrow> 'a list option" where
  "walk_forward ops h fuel it =
     (if it_eq it (it_end ops h) then Some []
      else case fuel of
             0 \<Rightarrow> None
           | Suc n \<Rightarrow> map_option (\<lambda>xs. it_deref ops h it # xs) (walk_forward ops h n (it_next ops h it)))"

fun walk_reverse :: "('r, 'a) ring_ops \<Rightarrow> ('r, 'a) HybridBuffer \<Rightarrow> nat \<Rightarrow> hb_iter \<Rightarrow> 'a list option" where
  "walk_reverse ops h fuel it =
     (if it_eq it (it_begin ops h) then Some []
      else case fuel of
             0 \<Rightarrow> None
           | Suc n \<Rightarrow> (let it' = it_prev ops h it in
                       map_option (\<lambda>xs. it_deref ops h it' # xs) (walk_reverse ops h n it')))"

declare walk_forward.simps [simp del] walk_reverse.simps [simp del]

section \<open>What they hold\<close>

text \<open>
  With the ring's laws: a \<open>BQueue\<close> is a FIFO queue, a \<open>HybridBuffer\<close> a double-ended one.
\<close>

definition bq_contents :: "('r \<Rightarrow> 'a list) \<Rightarrow> ('r, 'a) BQueue \<Rightarrow> 'a list" where
  "bq_contents items q = items (cb q) @ overflow q"

definition bq_inv :: "('r \<Rightarrow> 'a list) \<Rightarrow> ('r \<Rightarrow> nat) \<Rightarrow> ('r, 'a) BQueue \<Rightarrow> bool" where
  "bq_inv items room q \<longleftrightarrow> length (items (cb q)) \<le> room (cb q)"

definition hb_contents :: "('r \<Rightarrow> 'a list) \<Rightarrow> ('r, 'a) HybridBuffer \<Rightarrow> 'a list" where
  "hb_contents items h = overflow_front h @ items (hcb h) @ overflow_back h"

definition hb_inv :: "('r \<Rightarrow> 'a list) \<Rightarrow> ('r \<Rightarrow> nat) \<Rightarrow> ('r, 'a) HybridBuffer \<Rightarrow> bool" where
  "hb_inv items room h \<longleftrightarrow> length (items (hcb h)) \<le> room (hcb h)"

definition iter_at :: "('r \<Rightarrow> 'a list) \<Rightarrow> ('r, 'a) HybridBuffer \<Rightarrow> nat \<Rightarrow> hb_iter" where
  "iter_at items h n =
     (let f = length (overflow_front h); c = length (items (hcb h)); b = length (overflow_back h) in
      if n < f then \<lparr>phase = FRONT_OVERFLOW, front_i = n, cb_i = 0, back_i = 0\<rparr>
      else if n < f + c then \<lparr>phase = CB, front_i = f, cb_i = n - f, back_i = 0\<rparr>
      else if n < f + c + b then \<lparr>phase = BACK_OVERFLOW, front_i = f, cb_i = c, back_i = n - f - c\<rparr>
      else \<lparr>phase = END_PHASE, front_i = f, cb_i = c, back_i = b\<rparr>)"

context ring_buffer
begin

lemmas ring_laws = make empty full size at_front at_back at push_back push_front pop_front pop_back clear

lemma bq_init: "bq_contents items (BQueue_init ops n) = []" "bq_inv items room (BQueue_init ops n)"
  by (simp_all add: BQueue_init_def bq_contents_def bq_inv_def make)

lemma bq_mailbox:
  "mailbox (bq_push ops) (bq_pop ops) (bq_peek ops) (bq_is_empty ops) (bq_length ops) (bq_contents items) (bq_inv items room)"
proof
  fix q :: "('r, 'a) BQueue" and x
  assume inv: "bq_inv items room q"
  show "bq_contents items (bq_push ops q x) = bq_contents items q @ [x]"
    using inv full [of "cb q"] push_back [of "cb q" x] by (auto simp: bq_push_def bq_contents_def bq_inv_def)
  show "bq_inv items room (bq_push ops q x)"
    using inv full [of "cb q"] push_back [of "cb q" x] by (auto simp: bq_push_def bq_inv_def)
  show "bq_pop ops q = None \<longleftrightarrow> bq_contents items q = []"
    by (auto simp: bq_pop_def bq_contents_def empty split: prod.splits)
  show "bq_peek ops q = (case bq_contents items q of [] \<Rightarrow> None | x # _ \<Rightarrow> Some x)"
    using at_front [of "cb q"]
    by (cases "items (cb q)"; cases "overflow q") (auto simp: bq_peek_def bq_contents_def empty)
  show "bq_is_empty ops q \<longleftrightarrow> bq_contents items q = []"
    by (simp add: bq_is_empty_def bq_contents_def empty)
  show "bq_length ops q = length (bq_contents items q)"
    by (simp add: bq_length_def bq_contents_def size)
next
  fix q q' :: "('r, 'a) BQueue" and x l
  assume inv: "bq_inv items room q" and pop: "bq_pop ops q = Some ((x, l), q')"
  show "bq_contents items q = x # bq_contents items q' \<and> bq_inv items room q' \<and> l = (bq_contents items q' = [])"
  proof (cases "items (cb q) = []")
    case True
    then show ?thesis
      using pop inv by (cases "overflow q") (auto simp: bq_pop_def bq_contents_def bq_inv_def empty)
  next
    case False
    then show ?thesis
      using pop inv at_front [OF False] pop_front [of "cb q"]
      by (cases "items (cb q)") (auto simp: bq_pop_def bq_contents_def bq_inv_def empty)
  qed
qed

lemma drain_ring_ok:
  "length (items r) \<le> fuel \<Longrightarrow> \<exists>r'. drain_ring ops fuel r out = (out @ items r, r') \<and> items r' = [] \<and> room r' = room r"
proof (induction fuel arbitrary: r out)
  case 0
  then show ?case
    by (simp add: drain_ring.simps empty)
next
  case (Suc n)
  show ?case
  proof (cases "items r = []")
    case True
    then show ?thesis
      by (simp add: drain_ring.simps empty)
  next
    case False
    then have "length (items (r_pop_front ops r)) \<le> n"
      using Suc.prems pop_front(1) [OF False] by simp
    from Suc.IH [OF this, of "out @ [r_front ops r]"] show ?thesis
      using False at_front [OF False] pop_front [of r] by (cases "items r") (auto simp: drain_ring.simps [of ops _ r] empty)
  qed
qed

lemma pop_batch_ok:
  assumes "bq_contents items q \<noteq> []"
  shows "\<exists>q'. pop_batch ops q = Some (bq_contents items q, q') \<and> bq_contents items q' = [] \<and> bq_inv items room q'"
proof -
  obtain r' where "drain_ring ops (r_size ops (cb q)) (cb q) [] = (items (cb q), r')" "items r' = []" "room r' = room (cb q)"
    using drain_ring_ok [of "cb q" "r_size ops (cb q)" "[]"] by (auto simp: size)
  then show ?thesis
    using assms by (auto simp: pop_batch_def bq_contents_def bq_inv_def empty)
qed

lemma hb_ops:
  assumes "hb_inv items room h"
  shows "hb_contents items (hb_push_back ops h x) = hb_contents items h @ [x]" "hb_inv items room (hb_push_back ops h x)"
    "hb_contents items (hb_push_front ops h x) = x # hb_contents items h" "hb_inv items room (hb_push_front ops h x)"
    "hb_contents items (hb_clear ops h) = []" "hb_inv items room (hb_clear ops h)"
    "hb_empty ops h \<longleftrightarrow> hb_contents items h = []"
  using assms full [of "hcb h"] push_back [of "hcb h" x] push_front [of "hcb h" x]
  by (auto simp: hb_push_back_def hb_push_front_def hb_contents_def hb_inv_def hb_clear_def hb_empty_def empty clear)

lemma hb_ends:
  assumes "hb_inv items room h" "hb_contents items h \<noteq> []"
  shows "hb_front ops h = hd (hb_contents items h)" "hb_back ops h = last (hb_contents items h)"
    "hb_contents items (hb_pop_front ops h) = tl (hb_contents items h)" "hb_inv items room (hb_pop_front ops h)"
    "hb_contents items (hb_pop_back ops h) = butlast (hb_contents items h)" "hb_inv items room (hb_pop_back ops h)"
  using assms at_front [of "hcb h"] at_back [of "hcb h"] pop_front [of "hcb h"] pop_back [of "hcb h"]
  by (auto simp: hb_front_def hb_back_def hb_pop_front_def hb_pop_back_def hb_contents_def hb_inv_def empty butlast_append)

lemma iter_begin: "it_begin ops h = iter_at items h 0"
  by (auto simp: it_begin_def iter_at_def Let_def empty)

lemma iter_end: "it_end ops h = iter_at items h (length (hb_contents items h))"
  by (auto simp: it_end_def iter_at_def Let_def size hb_contents_def)

lemma iter_eq:
  "i \<le> length (hb_contents items h) \<Longrightarrow> j \<le> length (hb_contents items h) \<Longrightarrow>
     it_eq (iter_at items h i) (iter_at items h j) \<longleftrightarrow> i = j"
  by (auto simp: it_eq_def iter_at_def Let_def hb_contents_def split: hb_phase.splits)

lemma iter_deref: "i < length (hb_contents items h) \<Longrightarrow> it_deref ops h (iter_at items h i) = hb_contents items h ! i"
  by (auto simp: it_deref_def iter_at_def Let_def hb_contents_def nth_append at diff_diff_left)

lemma iter_next: "i < length (hb_contents items h) \<Longrightarrow> it_next ops h (iter_at items h i) = iter_at items h (Suc i)"
  by (auto simp: it_next_def iter_at_def Let_def hb_contents_def size simp del: length_greater_0_conv length_0_conv)

lemma iter_prev: "i < length (hb_contents items h) \<Longrightarrow> it_prev ops h (iter_at items h (Suc i)) = iter_at items h i"
  by (auto simp: it_prev_def to_cb_def to_front_def iter_at_def Let_def hb_contents_def size
      simp del: length_greater_0_conv length_0_conv)

lemma walk_forward_ok:
  assumes "i \<le> length (hb_contents items h)" "length (hb_contents items h) - i \<le> fuel"
  shows "walk_forward ops h fuel (iter_at items h i) = Some (drop i (hb_contents items h))"
  using assms
proof (induction fuel arbitrary: i)
  case 0
  then show ?case
    by (simp add: walk_forward.simps iter_end iter_eq)
next
  case (Suc n)
  then show ?case
    by (cases "i = length (hb_contents items h)")
      (auto simp: walk_forward.simps [of ops h "Suc n"] iter_end iter_eq iter_deref iter_next Cons_nth_drop_Suc)
qed

lemma walk_reverse_ok:
  assumes "i \<le> length (hb_contents items h)" "i \<le> fuel"
  shows "walk_reverse ops h fuel (iter_at items h i) = Some (rev (take i (hb_contents items h)))"
  using assms
proof (induction fuel arbitrary: i)
  case 0
  then show ?case
    by (simp add: walk_reverse.simps iter_begin iter_eq)
next
  case (Suc n)
  then show ?case
    by (cases i)
      (auto simp: walk_reverse.simps [of ops h "Suc n"] iter_begin iter_eq iter_deref iter_prev Let_def
        take_Suc_conv_app_nth)
qed

end

interpretation lbq: mailbox "bq_push list_ring" "bq_pop list_ring" "bq_peek list_ring" "bq_is_empty list_ring"
  "bq_length list_ring" "bq_contents fst" "bq_inv fst snd"
  by (rule lr.bq_mailbox)

section \<open>Properties\<close>

text \<open>
  A \<open>BQueue\<close> is a FIFO queue of any length, whatever the size of its ring. Over any
  sequence of pushes and pops on a new queue the values popped are the first ones pushed,
  in order, the queue holds exactly the others, and \<open>pop_batch\<close> returns all of them at once,
  in order, and leaves the queue empty.
\<close>

theorem bqueue_fifo:
  assumes "ring_buffer ops items room" "mb_run (bq_push ops) (bq_pop ops) es (BQueue_init ops n) = (out, q)"
  shows "\<exists>rest. pushes es = out @ rest \<and> bq_length ops q = length rest
     \<and> (rest \<noteq> [] \<longrightarrow> (\<exists>q'. pop_batch ops q = Some (rest, q') \<and> bq_is_empty ops q'))"
proof -
  have mb: "mailbox (bq_push ops) (bq_pop ops) (bq_peek ops) (bq_is_empty ops) (bq_length ops) (bq_contents items)
      (bq_inv items room)"
    using ring_buffer.bq_mailbox [OF assms(1)] .
  have init: "bq_contents items (BQueue_init ops n) = []" "bq_inv items room (BQueue_init ops n)"
    using ring_buffer.bq_init [OF assms(1)] by auto
  have run: "pushes es = out @ bq_contents items q" "bq_inv items room q"
    using mailbox.run_fifo [OF mb init(2) assms(2)] init(1) by simp_all
  show ?thesis
    using run ring_buffer.pop_batch_ok [OF assms(1), of q] mailbox.len_contents [OF mb run(2)]
      mailbox.is_empty_contents [OF mb] by (intro exI [of _ "bq_contents items q"]) auto
qed

theorem bqueue_fifo_witness:
  "ring_buffer list_ring fst snd
   \<and> (let es = [Some 1, Some 2, Some 3, None, Some (4 :: int)]; (out, q) = mb_run (bq_push list_ring) (bq_pop list_ring) es
             (BQueue_init list_ring 2)
      in out = [1] \<and> (\<exists>q'. pop_batch list_ring q = Some ([2, 3, 4], q')))"
proof -
  let ?es = "[Some 1, Some 2, Some 3, None, Some (4 :: int)]"
  let ?q = "\<lparr>cb = ([2 :: int], 2 :: nat), overflow = [3 :: int, 4]\<rparr>"
  have run: "mb_run (bq_push list_ring) (bq_pop list_ring) ?es (BQueue_init list_ring 2) = ([1], ?q)"
    by (simp add: bq_push_def bq_pop_def BQueue_init_def list_ring_def)
  obtain rest where "pushes ?es = [1] @ rest" "rest \<noteq> [] \<longrightarrow> (\<exists>q'. pop_batch list_ring ?q = Some (rest, q'))"
    using bqueue_fifo [OF lr.ring_buffer_axioms run] by blast
  then have "\<exists>q'. pop_batch list_ring ?q = Some ([2, 3, 4], q')"
    by auto
  then show ?thesis
    unfolding Let_def run using lr.ring_buffer_axioms by simp
qed

datatype 'a deque_op = PushBack 'a | PushFront 'a | PopBack | PopFront

fun hb_apply :: "('r, 'a) ring_ops \<Rightarrow> ('r, 'a) HybridBuffer \<Rightarrow> 'a deque_op \<Rightarrow> ('r, 'a) HybridBuffer" where
  "hb_apply ops h (PushBack x) = hb_push_back ops h x"
| "hb_apply ops h (PushFront x) = hb_push_front ops h x"
| "hb_apply ops h PopBack = (if hb_empty ops h then h else hb_pop_back ops h)"
| "hb_apply ops h PopFront = (if hb_empty ops h then h else hb_pop_front ops h)"

fun list_apply :: "'a list \<Rightarrow> 'a deque_op \<Rightarrow> 'a list" where
  "list_apply xs (PushBack x) = xs @ [x]"
| "list_apply xs (PushFront x) = x # xs"
| "list_apply xs PopBack = butlast xs"
| "list_apply xs PopFront = tl xs"

lemma hb_run:
  assumes "ring_buffer ops items room" "hb_inv items room h"
  shows "hb_contents items (foldl (hb_apply ops) h es) = foldl list_apply (hb_contents items h) es
     \<and> hb_inv items room (foldl (hb_apply ops) h es)"
  using assms(2)
proof (induction es arbitrary: h)
  case (Cons e es)
  note ops = ring_buffer.hb_ops [OF assms(1) Cons.prems] ring_buffer.hb_ends [OF assms(1) Cons.prems]
  have "hb_contents items (hb_apply ops h e) = list_apply (hb_contents items h) e \<and> hb_inv items room (hb_apply ops h e)"
    using ops Cons.prems by (cases e) auto
  then show ?case
    using Cons.IH [of "hb_apply ops h e"] by simp
qed simp

text \<open>
  A \<open>HybridBuffer\<close> is a double-ended queue, with or without overflow on either side.
  After any sequence of pushes and pops at both ends (a pop of an empty buffer left out),
  its iteration from \<open>begin()\<close> to \<open>end()\<close> ends and gives what the same operations give on a
  list, the reverse iteration ends and gives it backwards, and \<open>front\<close> and \<open>back\<close> are its
  ends.
\<close>

theorem hybrid_buffer_is_deque:
  assumes "ring_buffer ops items room"
  shows "let h = foldl (hb_apply ops) (HybridBuffer_init ops n) es; xs = foldl list_apply [] es in
     walk_forward ops h (length xs) (it_begin ops h) = Some xs
     \<and> walk_reverse ops h (length xs) (it_end ops h) = Some (rev xs)
     \<and> (hb_empty ops h \<longleftrightarrow> xs = []) \<and> (xs \<noteq> [] \<longrightarrow> hb_front ops h = hd xs \<and> hb_back ops h = last xs)"
proof -
  let ?h = "foldl (hb_apply ops) (HybridBuffer_init ops n) es" and ?xs = "foldl list_apply [] es"
  have "hb_contents items (HybridBuffer_init ops n) = []" "hb_inv items room (HybridBuffer_init ops n)"
    using ring_buffer.make [OF assms] by (simp_all add: HybridBuffer_init_def hb_contents_def hb_inv_def)
  then have h: "hb_contents items ?h = ?xs" "hb_inv items room ?h"
    using hb_run [OF assms, of "HybridBuffer_init ops n" es] by simp_all
  have "walk_forward ops ?h (length ?xs) (it_begin ops ?h) = Some ?xs"
    using ring_buffer.walk_forward_ok [OF assms, of 0 ?h "length ?xs"] ring_buffer.iter_begin [OF assms, of ?h] h(1) by simp
  moreover have "walk_reverse ops ?h (length ?xs) (it_end ops ?h) = Some (rev ?xs)"
    using ring_buffer.walk_reverse_ok [OF assms, of "length ?xs" ?h "length ?xs"] ring_buffer.iter_end [OF assms, of ?h] h(1)
    by simp
  ultimately show ?thesis
    using ring_buffer.hb_ops(7) [OF assms h(2)] ring_buffer.hb_ends(1,2) [OF assms h(2)] h(1) by (simp add: Let_def)
qed

theorem hybrid_buffer_is_deque_witness:
  "let h = foldl (hb_apply list_ring) (HybridBuffer_init list_ring 2) [PushBack 1, PushBack 2, PushBack (3 :: int), PushFront 0, PopBack]
   in overflow_front h = [0] \<and> walk_forward list_ring h 3 (it_begin list_ring h) = Some [0, 1, 2]
      \<and> walk_reverse list_ring h 3 (it_end list_ring h) = Some [2, 1, 0]"
proof -
  let ?es = "[PushBack 1, PushBack 2, PushBack (3 :: int), PushFront 0, PopBack]"
  have "overflow_front (foldl (hb_apply list_ring) (HybridBuffer_init list_ring 2) ?es) = [0]"
    by (simp add: hb_push_back_def hb_push_front_def hb_pop_back_def hb_empty_def HybridBuffer_init_def list_ring_def)
  then show ?thesis
    using hybrid_buffer_is_deque [OF lr.ring_buffer_axioms, of 2 ?es]
    unfolding Let_def by (simp del: hb_apply.simps add: eval_nat_numeral)
qed

end
