(* ===== verification/Memory_Pool.thy ===== *)
theory Memory_Pool
  imports Mailbox "HOL-Library.Multiset"
begin

unbundle bit_operations_syntax

text \<open>
  The allocator behind the messages: \<open>HybridCB\<close>, a stack over a ring with an overflow, and
  \<open>MemoryPool\<close> with its thread-local caches, of \<open>src/actors/cpp/include/actors\<close>.

  Rings are the parameter \<open>ops\<close> as in \<open>Mailbox\<close>. What \<open>std::aligned_alloc\<close> returned is the
  argument \<open>base\<close> of an allocation, \<open>None\<close> for a null pointer. A thrown exception is a value,
  and the state changes made before it stay. \<open>operator new\<close> takes the pool's mutex twice;
  its second critical section reads nothing that another thread can change in between
  (\<open>needed\<close> depends on the thread's own cache), so one call is one step.
\<close>

section \<open>HybridCB\<close>

record ('r, 'a) HybridCB =
  sb :: 'r
  sover :: "'a list"

definition HybridCB_init :: "('r, 'a) ring_ops \<Rightarrow> nat \<Rightarrow> ('r, 'a) HybridCB" where
  "HybridCB_init ops n = \<lparr>sb = r_make ops n, sover = []\<rparr>"

definition hc_push_back :: "('r, 'a) ring_ops \<Rightarrow> ('r, 'a) HybridCB \<Rightarrow> 'a \<Rightarrow> ('r, 'a) HybridCB" where
  "hc_push_back ops s x =
     (if r_full ops (sb s) then
        (let temp = r_front ops (sb s); r = r_pop_front ops (sb s)
         in s\<lparr>sover := sover s @ [temp], sb := r_push_back ops r x\<rparr>)
      else s\<lparr>sb := r_push_back ops (sb s) x\<rparr>)"

definition hc_pop_back :: "('r, 'a) ring_ops \<Rightarrow> ('r, 'a) HybridCB \<Rightarrow> ('r, 'a) HybridCB" where
  "hc_pop_back ops s =
     (if \<not> r_empty ops (sb s) then s\<lparr>sb := r_pop_back ops (sb s)\<rparr>
      else if sover s \<noteq> [] then s\<lparr>sover := butlast (sover s)\<rparr>
      else s)"

definition hc_back :: "('r, 'a) ring_ops \<Rightarrow> ('r, 'a) HybridCB \<Rightarrow> 'a" where
  "hc_back ops s = (if \<not> r_empty ops (sb s) then r_back ops (sb s) else last (sover s))"

definition hc_empty :: "('r, 'a) ring_ops \<Rightarrow> ('r, 'a) HybridCB \<Rightarrow> bool" where
  "hc_empty ops s \<longleftrightarrow> r_empty ops (sb s) \<and> sover s = []"

definition hc_clear :: "('r, 'a) ring_ops \<Rightarrow> ('r, 'a) HybridCB \<Rightarrow> ('r, 'a) HybridCB" where
  "hc_clear ops s = s\<lparr>sb := r_clear ops (sb s), sover := []\<rparr>"

definition hc_size :: "('r, 'a) ring_ops \<Rightarrow> ('r, 'a) HybridCB \<Rightarrow> nat" where
  "hc_size ops s = r_size ops (sb s) + length (sover s)"

section \<open>MemoryPool\<close>

record 'r ThreadCache =
  allocCache :: 'r
  freedCache :: 'r
  hasAllocated :: bool

record 'r Pool =
  freeBlocks :: "('r, nat) HybridCB"
  allocatedBlocks :: "('r, nat) HybridCB"
  caches :: "nat \<Rightarrow> 'r ThreadCache"

text \<open>The template parameters: \<open>ac\<close> and \<open>fc\<close> are the cache sizes.\<close>

definition Pool_init :: "('r, nat) ring_ops \<Rightarrow> nat \<Rightarrow> nat \<Rightarrow> nat \<Rightarrow> nat \<Rightarrow> 'r Pool" where
  "Pool_init ops ac fc nfree nalloc =
     \<lparr>freeBlocks = HybridCB_init ops nfree, allocatedBlocks = HybridCB_init ops nalloc,
      caches = (\<lambda>_. \<lparr>allocCache = r_make ops ac, freedCache = r_make ops fc, hasAllocated = False\<rparr>)\<rparr>"

definition CACHE_LINE_SIZE :: u64 where "CACHE_LINE_SIZE = 64"

definition aligned_size :: "u64 \<Rightarrow> u64" where
  "aligned_size sz = (sz + CACHE_LINE_SIZE - 1) AND NOT (CACHE_LINE_SIZE - 1)"

fun fill_loop :: "('r, 'a) ring_ops \<Rightarrow> nat \<Rightarrow> ('r, 'a) HybridCB \<Rightarrow> 'r \<Rightarrow> ('r, 'a) HybridCB \<times> 'r" where
  "fill_loop ops fuel fb c =
     (if \<not> hc_empty ops fb \<and> \<not> r_full ops c then
        (case fuel of
           0 \<Rightarrow> (fb, c)
         | Suc n \<Rightarrow> fill_loop ops n (hc_pop_back ops fb) (r_push_back ops c (hc_back ops fb)))
      else (fb, c))"

declare fill_loop.simps [simp del]

definition fillAllocCacheFromFreeBlocks :: "('r, nat) ring_ops \<Rightarrow> nat \<Rightarrow> 'r Pool \<Rightarrow> 'r Pool" where
  "fillAllocCacheFromFreeBlocks ops t p =
     (let c = caches p t;
          (fb, ac) = fill_loop ops (hc_size ops (freeBlocks p)) (freeBlocks p) (allocCache c)
      in p\<lparr>freeBlocks := fb, caches := (caches p)(t := c\<lparr>allocCache := ac\<rparr>)\<rparr>)"

fun flush_loop :: "('r, 'a) ring_ops \<Rightarrow> nat \<Rightarrow> 'r \<Rightarrow> ('r, 'a) HybridCB \<Rightarrow> 'r \<times> ('r, 'a) HybridCB" where
  "flush_loop ops fuel c fb =
     (if r_empty ops c then (c, fb)
      else case fuel of
             0 \<Rightarrow> (c, fb)
           | Suc n \<Rightarrow> flush_loop ops n (r_pop_front ops c) (hc_push_back ops fb (r_front ops c)))"

declare flush_loop.simps [simp del]

definition flushFreedCache :: "('r, nat) ring_ops \<Rightarrow> nat \<Rightarrow> 'r Pool \<Rightarrow> 'r Pool" where
  "flushFreedCache ops t p =
     (let c = caches p t;
          (fc, fb) = flush_loop ops (r_size ops (freedCache c)) (freedCache c) (freeBlocks p)
      in p\<lparr>freeBlocks := fb, caches := (caches p)(t := c\<lparr>freedCache := fc\<rparr>)\<rparr>)"

text \<open>The blocks of one chunk, by number, from the base on.\<close>

definition chunk_blocks :: "nat \<Rightarrow> u64 \<Rightarrow> nat \<Rightarrow> nat \<Rightarrow> nat list" where
  "chunk_blocks base asz i j = map (\<lambda>k. base + k * unat asz) [i..<j]"

definition take_cached :: "('r, nat) ring_ops \<Rightarrow> nat \<Rightarrow> 'r Pool \<Rightarrow> nat res \<times> 'r Pool" where
  "take_cached ops t p =
     (let c = caches p t in
      (Inr (r_back ops (allocCache c)), p\<lparr>caches := (caches p)(t := c\<lparr>allocCache := r_pop_back ops (allocCache c)\<rparr>)\<rparr>))"

definition pool_new ::
  "('r, nat) ring_ops \<Rightarrow> nat \<Rightarrow> u64 \<Rightarrow> nat \<Rightarrow> nat option \<Rightarrow> u64 \<Rightarrow> 'r Pool \<Rightarrow> nat res \<times> 'r Pool" where
  "pool_new ops ac sizeof_T t base sz p =
     (if sz \<noteq> sizeof_T then (Inl (Assert ''invalid_argument: MemoryPool can only allocate objects of type T''), p)
      else
        (let p1 = p\<lparr>caches := (caches p)(t := (caches p t)\<lparr>hasAllocated := True\<rparr>)\<rparr> in
         if \<not> r_empty ops (allocCache (caches p1 t)) then take_cached ops t p1
         else
           (let p2 = fillAllocCacheFromFreeBlocks ops t p1;
                c = caches p2 t;
                needed = ac - r_size ops (allocCache c)
            in if needed > 0 then
                 (let asz = aligned_size sz in
                  if asz < sz then (Inl (Assert ''overflow_error: Size alignment overflow''), p2)
                  else (case base of
                          None \<Rightarrow> (Inl (Assert ''bad_alloc''), p2)
                        | Some blocks \<Rightarrow>
                            (let total = needed + ac;
                                 p3 = p2\<lparr>allocatedBlocks := hc_push_back ops (allocatedBlocks p2) blocks,
                                        caches := (caches p2)(t := c\<lparr>allocCache :=
                                           foldl (r_push_back ops) (allocCache c) (chunk_blocks blocks asz 0 needed)\<rparr>),
                                        freeBlocks := foldl (hc_push_back ops) (freeBlocks p2) (chunk_blocks blocks asz needed total)\<rparr>
                             in take_cached ops t p3)))
               else take_cached ops t p2)))"

definition pool_delete :: "('r, nat) ring_ops \<Rightarrow> u64 \<Rightarrow> nat \<Rightarrow> nat option \<Rightarrow> u64 \<Rightarrow> 'r Pool \<Rightarrow> 'r Pool res" where
  "pool_delete ops sizeof_T t ptr sz p =
     (case ptr of
        None \<Rightarrow> Inr p
      | Some b \<Rightarrow>
          if sz \<noteq> sizeof_T then Inl (Assert ''std::terminate'')
          else
            (let c = caches p t in
             if hasAllocated c \<and> \<not> r_full ops (allocCache c) then
               Inr (p\<lparr>caches := (caches p)(t := c\<lparr>allocCache := r_push_back ops (allocCache c) b\<rparr>)\<rparr>)
             else if \<not> r_full ops (freedCache c) then
               Inr (p\<lparr>caches := (caches p)(t := c\<lparr>freedCache := r_push_back ops (freedCache c) b\<rparr>)\<rparr>)
             else
               (let p1 = flushFreedCache ops t p; c1 = caches p1 t in
                Inr (p1\<lparr>caches := (caches p1)(t := c1\<lparr>freedCache := r_push_back ops (freedCache c1) b\<rparr>)\<rparr>))))"

section \<open>Where the blocks are\<close>

datatype place = Live | Free | AllocC nat | FreedC nat

definition hc_contents :: "('r \<Rightarrow> 'a list) \<Rightarrow> ('r, 'a) HybridCB \<Rightarrow> 'a list" where
  "hc_contents items s = sover s @ items (sb s)"

definition hc_inv :: "('r \<Rightarrow> 'a list) \<Rightarrow> ('r \<Rightarrow> nat) \<Rightarrow> ('r, 'a) HybridCB \<Rightarrow> bool" where
  "hc_inv items room s \<longleftrightarrow> length (items (sb s)) \<le> room (sb s) \<and> 0 < room (sb s)"

fun blocks_at :: "('r \<Rightarrow> nat list) \<Rightarrow> nat list \<Rightarrow> 'r Pool \<Rightarrow> place \<Rightarrow> nat list" where
  "blocks_at items live p Live = live"
| "blocks_at items live p Free = hc_contents items (freeBlocks p)"
| "blocks_at items live p (AllocC t) = items (allocCache (caches p t))"
| "blocks_at items live p (FreedC t) = items (freedCache (caches p t))"

definition all_blocks :: "(place \<Rightarrow> nat list) \<Rightarrow> nat set" where
  "all_blocks f = (\<Union>a. set (f a))"

definition exclusive :: "(place \<Rightarrow> nat list) \<Rightarrow> bool" where
  "exclusive f \<longleftrightarrow> (\<forall>a. distinct (f a)) \<and> (\<forall>a b. a \<noteq> b \<longrightarrow> set (f a) \<inter> set (f b) = {})"

lemma all_blocks_split: "all_blocks f = set (f a) \<union> set (f b) \<union> (\<Union>c\<in>- {a, b}. set (f c))"
  unfolding all_blocks_def by blast

lemma exclusive_move:
  assumes "exclusive f" "a \<noteq> b" "mset xs + mset ys = mset (f a) + mset (f b)"
  shows "exclusive (f(a := xs, b := ys))" "all_blocks (f(a := xs, b := ys)) = all_blocks f"
proof -
  have "mset (xs @ ys) = mset (f a @ f b)"
    using assms(3) by simp
  then have d: "distinct (xs @ ys)" and st: "set xs \<union> set ys = set (f a) \<union> set (f b)"
    using assms(1,2) mset_eq_imp_distinct_iff [of "xs @ ys" "f a @ f b"] mset_eq_setD [of "xs @ ys" "f a @ f b"]
    by (auto simp: exclusive_def)
  have out: "set (f c) \<inter> set xs = {} \<and> set (f c) \<inter> set ys = {}" if "c \<noteq> a" "c \<noteq> b" for c
  proof -
    have "set (f c) \<inter> (set (f a) \<union> set (f b)) = {}"
      using assms(1) that unfolding exclusive_def by blast
    then show ?thesis
      unfolding st [symmetric] by blast
  qed
  let ?g = "f(a := xs, b := ys)"
  have "distinct (?g c)" for c
    using d assms(1) by (simp add: exclusive_def)
  moreover have "set (?g c) \<inter> set (?g e) = {}" if "c \<noteq> e" for c e
    using that d assms(1,2) out [of c] out [of e] by (cases "c = a"; cases "c = b"; cases "e = a"; cases "e = b")
      (simp_all add: exclusive_def Int_commute)
  ultimately show "exclusive ?g"
    unfolding exclusive_def by blast
  show "all_blocks (f(a := xs, b := ys)) = all_blocks f"
    unfolding all_blocks_split [of _ a b] using st assms(2) by simp
qed

lemma exclusive_add:
  assumes "exclusive f" "distinct zs" "set zs \<inter> all_blocks f = {}"
  shows "exclusive (f(a := f a @ zs))" "all_blocks (f(a := f a @ zs)) = all_blocks f \<union> set zs"
  using assms by (auto simp: exclusive_def all_blocks_def disjoint_iff split: if_splits)

context ring_buffer
begin

lemma hc_ops:
  assumes "hc_inv items room s"
  shows "hc_contents items (hc_push_back ops s x) = hc_contents items s @ [x]" "hc_inv items room (hc_push_back ops s x)"
    "hc_empty ops s \<longleftrightarrow> hc_contents items s = []" "hc_size ops s = length (hc_contents items s)"
proof -
  have f: "items (r_push_back ops (r_pop_front ops (sb s)) x) = tl (items (sb s)) @ [x]" "items (sb s) \<noteq> []"
    if "length (items (sb s)) = room (sb s)"
  proof -
    show ne: "items (sb s) \<noteq> []"
      using assms that by (auto simp: hc_inv_def)
    then have "length (items (r_pop_front ops (sb s))) < room (r_pop_front ops (sb s))"
      using that pop_front(1) [OF ne] pop_front(2) [of "sb s"] by (cases "items (sb s)") auto
    then show "items (r_push_back ops (r_pop_front ops (sb s)) x) = tl (items (sb s)) @ [x]"
      using push_back(1) pop_front(1) [OF ne] by simp
  qed
  show "hc_contents items (hc_push_back ops s x) = hc_contents items s @ [x]"
    using assms f at_front [of "sb s"] push_back(1) [of "sb s" x]
    by (auto simp: hc_push_back_def hc_contents_def hc_inv_def full Let_def)
  show "hc_inv items room (hc_push_back ops s x)"
    using assms f push_back [of "sb s" x] push_back(2) [of "r_pop_front ops (sb s)" x] pop_front(2) [of "sb s"]
    by (auto simp: hc_push_back_def hc_inv_def full Let_def)
  show "hc_empty ops s \<longleftrightarrow> hc_contents items s = []" "hc_size ops s = length (hc_contents items s)"
    by (auto simp: hc_empty_def hc_contents_def hc_size_def empty size)
qed

lemma hc_pop:
  assumes "hc_inv items room s" "hc_contents items s \<noteq> []"
  shows "hc_back ops s = last (hc_contents items s)" "hc_contents items (hc_pop_back ops s) = butlast (hc_contents items s)"
    "hc_inv items room (hc_pop_back ops s)"
  using assms at_back [of "sb s"] pop_back [of "sb s"]
  by (auto simp: hc_back_def hc_pop_back_def hc_contents_def hc_inv_def empty butlast_append)

lemma hc_push_all:
  "hc_inv items room s \<Longrightarrow> hc_contents items (foldl (hc_push_back ops) s xs) = hc_contents items s @ xs
     \<and> hc_inv items room (foldl (hc_push_back ops) s xs)"
  by (induction xs arbitrary: s) (simp_all add: hc_ops)

lemma r_push_all:
  "length (items r) + length xs \<le> room r \<Longrightarrow> items (foldl (r_push_back ops) r xs) = items r @ xs
     \<and> room (foldl (r_push_back ops) r xs) = room r"
  by (induction xs arbitrary: r) (simp_all add: push_back)

lemma fill_loop_ok:
  assumes "hc_inv items room fb" "length (items c) \<le> room c" "length (hc_contents items fb) \<le> fuel"
  shows "\<exists>fb' c'. fill_loop ops fuel fb c = (fb', c') \<and> hc_inv items room fb' \<and> length (items c') \<le> room c'
     \<and> room c' = room c \<and> mset (hc_contents items fb') + mset (items c') = mset (hc_contents items fb) + mset (items c)"
  using assms
proof (induction fuel arbitrary: fb c)
  case 0
  then show ?case
    by (simp add: fill_loop.simps hc_ops)
next
  case (Suc n)
  show ?case
  proof (cases "hc_contents items fb \<noteq> [] \<and> length (items c) < room c")
    case True
    note p = hc_pop [OF Suc.prems(1), OF conjunct1 [OF True]]
    let ?fb = "hc_pop_back ops fb" and ?c = "r_push_back ops c (hc_back ops fb)"
    have c: "items ?c = items c @ [last (hc_contents items fb)]" "room ?c = room c"
      using push_back [of c] True p(1) by auto
    have "length (hc_contents items ?fb) \<le> n" "length (items ?c) \<le> room ?c"
      using Suc.prems(3) True p(2) c by simp_all
    from Suc.IH [OF p(3) this(2) this(1)] obtain fb' c' where IH:
      "fill_loop ops n ?fb ?c = (fb', c')" "hc_inv items room fb'" "length (items c') \<le> room c'" "room c' = room c"
      "mset (hc_contents items fb') + mset (items c') = mset (hc_contents items ?fb) + mset (items ?c)"
      using c(2) by auto
    have "mset (butlast (hc_contents items fb)) + {#last (hc_contents items fb)#} = mset (hc_contents items fb)"
      using True by (metis append_butlast_last_id mset_append mset.simps add_mset_add_single mset_single_iff_right)
    then have "mset (hc_contents items ?fb) + mset (items ?c) = mset (hc_contents items fb) + mset (items c)"
      by (simp add: p(2) c(1) ac_simps)
    moreover have "fill_loop ops (Suc n) fb c = (fb', c')"
      using IH(1) True by (simp add: fill_loop.simps [of ops "Suc n"] hc_ops [OF Suc.prems(1)] full)
    ultimately show ?thesis
      using IH by simp
  next
    case False
    then have "fill_loop ops (Suc n) fb c = (fb, c)"
      using Suc.prems(2) by (auto simp: fill_loop.simps [of ops "Suc n"] hc_ops [OF Suc.prems(1)] full)
    then show ?thesis
      using Suc.prems by simp
  qed
qed

lemma flush_loop_ok:
  assumes "hc_inv items room fb" "length (items c) \<le> fuel"
  shows "\<exists>c' fb'. flush_loop ops fuel c fb = (c', fb') \<and> hc_inv items room fb' \<and> items c' = [] \<and> room c' = room c
     \<and> mset (hc_contents items fb') = mset (hc_contents items fb) + mset (items c)"
  using assms
proof (induction fuel arbitrary: fb c)
  case 0
  then show ?case
    by (simp add: flush_loop.simps empty)
next
  case (Suc n)
  show ?case
  proof (cases "items c = []")
    case True
    then show ?thesis
      using Suc.prems by (simp add: flush_loop.simps empty)
  next
    case False
    note p = pop_front(1) [OF False] pop_front(2) [of c] at_front [OF False]
    have "length (items (r_pop_front ops c)) \<le> n"
      using Suc.prems(2) p(1) by simp
    note IH = Suc.IH [OF hc_ops(2) [OF Suc.prems(1), of "r_front ops c"] this]
    show ?thesis
      using IH False p hc_ops(1) [OF Suc.prems(1)]
      by (cases "items c") (auto simp: flush_loop.simps [of ops "Suc n"] empty)
  qed
qed

end

section \<open>The invariant of the pool\<close>

definition rings_ok :: "('r \<Rightarrow> nat list) \<Rightarrow> ('r \<Rightarrow> nat) \<Rightarrow> nat \<Rightarrow> 'r Pool \<Rightarrow> bool" where
  "rings_ok items room ac p \<longleftrightarrow> hc_inv items room (freeBlocks p)
     \<and> (\<forall>t. room (allocCache (caches p t)) = ac \<and> length (items (allocCache (caches p t))) \<le> ac
          \<and> length (items (freedCache (caches p t))) \<le> room (freedCache (caches p t)) \<and> 0 < room (freedCache (caches p t)))"

definition apart :: "nat \<Rightarrow> nat set \<Rightarrow> bool" where
  "apart asz B \<longleftrightarrow> (\<forall>x\<in>B. 64 dvd x) \<and> (\<forall>x\<in>B. \<forall>y\<in>B. x \<noteq> y \<longrightarrow> x + asz \<le> y \<or> y + asz \<le> x)"

definition pool_inv :: "('r \<Rightarrow> nat list) \<Rightarrow> ('r \<Rightarrow> nat) \<Rightarrow> nat \<Rightarrow> nat \<Rightarrow> nat list \<Rightarrow> 'r Pool \<Rightarrow> bool" where
  "pool_inv items room ac asz live p \<longleftrightarrow> rings_ok items room ac p
     \<and> exclusive (blocks_at items live p) \<and> apart asz (all_blocks (blocks_at items live p))"

lemma rings_cache:
  assumes "rings_ok items room ac p" "room (allocCache c) = ac" "length (items (allocCache c)) \<le> ac"
    "length (items (freedCache c)) \<le> room (freedCache c)" "0 < room (freedCache c)"
  shows "rings_ok items room ac (p\<lparr>caches := (caches p)(t := c)\<rparr>)"
    "hc_inv items room fb \<Longrightarrow> rings_ok items room ac (p\<lparr>freeBlocks := fb, caches := (caches p)(t := c)\<rparr>)"
  using assms by (simp_all add: rings_ok_def)

lemma pool_inv_move:
  assumes "pool_inv items room ac asz live p" "rings_ok items room ac p'" "a \<noteq> b"
    "blocks_at items live' p' = (blocks_at items live p)(a := xs, b := ys)"
    "mset xs + mset ys = mset (blocks_at items live p a) + mset (blocks_at items live p b)"
  shows "pool_inv items room ac asz live' p'"
  using exclusive_move [OF _ assms(3,5)] assms by (simp add: pool_inv_def)

lemma blocks_upd:
  "blocks_at items live' (p\<lparr>freeBlocks := fb, caches := (caches p)(t := c)\<rparr>)
     = (blocks_at items live p)(Live := live', Free := hc_contents items fb, AllocC t := items (allocCache c),
          FreedC t := items (freedCache c))"
proof
  show "blocks_at items live' (p\<lparr>freeBlocks := fb, caches := (caches p)(t := c)\<rparr>) a
     = ((blocks_at items live p)(Live := live', Free := hc_contents items fb, AllocC t := items (allocCache c),
          FreedC t := items (freedCache c))) a" for a
    by (cases a) auto
qed

lemma blocks_upd_cache:
  "blocks_at items live' (p\<lparr>caches := (caches p)(t := c)\<rparr>)
     = (blocks_at items live p)(Live := live', AllocC t := items (allocCache c), FreedC t := items (freedCache c))"
proof
  show "blocks_at items live' (p\<lparr>caches := (caches p)(t := c)\<rparr>) a
     = ((blocks_at items live p)(Live := live', AllocC t := items (allocCache c), FreedC t := items (freedCache c))) a" for a
    by (cases a) auto
qed

lemma same_cache: "(blocks_at items live p)(FreedC t := items (freedCache (caches p t))) = blocks_at items live p"
  "(blocks_at items live p)(AllocC t := items (allocCache (caches p t))) = blocks_at items live p"
  "(blocks_at items live p)(Live := live) = blocks_at items live p"
  by (auto simp: fun_upd_idem_iff)

section \<open>Runs of the pool\<close>

text \<open>
  The blocks one allocation asks for, and a base address as the allocator returns it:
  aligned to a cache line, the region asked for apart from every block already there.
\<close>

definition pool_request :: "('r, nat) ring_ops \<Rightarrow> nat \<Rightarrow> nat \<Rightarrow> 'r Pool \<Rightarrow> nat" where
  "pool_request ops ac t p = ac - r_size ops (allocCache (caches (fillAllocCacheFromFreeBlocks ops t p) t)) + ac"

definition base_ok :: "nat set \<Rightarrow> nat \<Rightarrow> nat \<Rightarrow> nat option \<Rightarrow> bool" where
  "base_ok B asz n base \<longleftrightarrow>
     (case base of None \<Rightarrow> True | Some b \<Rightarrow> 64 dvd b \<and> (\<forall>x\<in>B. x + asz \<le> b \<or> b + n * asz \<le> x))"

text \<open>
  The states any number of threads can bring the pool to; \<open>live\<close> are the blocks handed out
  and not given back. A thread deletes only a block it was given.
\<close>

inductive pool_reachable ::
  "('r, nat) ring_ops \<Rightarrow> ('r \<Rightarrow> nat list) \<Rightarrow> nat \<Rightarrow> u64 \<Rightarrow> nat list \<Rightarrow> 'r Pool \<Rightarrow> bool" for ops items ac sizeof_T where
  pool_start: "0 < fc \<Longrightarrow> 0 < nfree \<Longrightarrow> pool_reachable ops items ac sizeof_T [] (Pool_init ops ac fc nfree nalloc)"
| pool_alloc: "pool_reachable ops items ac sizeof_T live p \<Longrightarrow>
     base_ok (all_blocks (blocks_at items live p)) (unat (aligned_size sizeof_T)) (pool_request ops ac t p) base \<Longrightarrow>
     pool_new ops ac sizeof_T t base sz p = (Inr b, p') \<Longrightarrow> pool_reachable ops items ac sizeof_T (b # live) p'"
| pool_throw: "pool_reachable ops items ac sizeof_T live p \<Longrightarrow>
     pool_new ops ac sizeof_T t base sz p = (Inl e, p') \<Longrightarrow> pool_reachable ops items ac sizeof_T live p'"
| pool_free: "pool_reachable ops items ac sizeof_T live p \<Longrightarrow> b \<in> set live \<Longrightarrow>
     pool_delete ops sizeof_T t (Some b) sz p = Inr p' \<Longrightarrow> pool_reachable ops items ac sizeof_T (remove1 b live) p'"

text \<open>
  A pool for one type: its template parameters and the size of its objects, which the
  alignment does not overflow.
\<close>

locale pool_setup = ring_buffer ops items room
  for ops :: "('r, nat) ring_ops" and items :: "'r \<Rightarrow> nat list" and room :: "'r \<Rightarrow> nat" +
  fixes ac :: nat and sizeof_T :: u64
  assumes ac_pos: "0 < ac" and sizeof_pos: "0 < sizeof_T" and sizeof_ok: "sizeof_T \<le> aligned_size sizeof_T"
begin

abbreviation asz :: nat where
  "asz \<equiv> unat (aligned_size sizeof_T)"

abbreviation pinv :: "nat list \<Rightarrow> 'r Pool \<Rightarrow> bool" where
  "pinv \<equiv> pool_inv items room ac asz"

lemma asz_pos: "0 < asz"
  using sizeof_pos sizeof_ok by (simp add: word_le_nat_alt word_less_nat_alt)

lemma cache_rings:
  assumes "pinv live p"
  shows "room (allocCache (caches p t)) = ac" "length (items (allocCache (caches p t))) \<le> ac"
    "length (items (freedCache (caches p t))) \<le> room (freedCache (caches p t))" "0 < room (freedCache (caches p t))"
    "hc_inv items room (freeBlocks p)" "rings_ok items room ac p"
  using assms by (auto simp: pool_inv_def rings_ok_def)

lemma take_cached_inv:
  assumes "pinv live p" "items (allocCache (caches p t)) \<noteq> []"
  shows "\<exists>b p'. take_cached ops t p = (Inr b, p') \<and> pinv (b # live) p'"
proof -
  let ?r = "allocCache (caches p t)"
  let ?p = "p\<lparr>caches := (caches p)(t := (caches p t)\<lparr>allocCache := r_pop_back ops ?r\<rparr>)\<rparr>"
  let ?b = "last (items ?r)"
  note c = cache_rings(1-4) [OF assms(1), of t] cache_rings(5,6) [OF assms(1)]
  have pb: "items (r_pop_back ops ?r) = butlast (items ?r)" "room (r_pop_back ops ?r) = ac"
    using pop_back [of ?r] assms(2) c(1) by auto
  have rings: "rings_ok items room ac ?p"
    using rings_cache(1) [OF c(6), of "(caches p t)\<lparr>allocCache := r_pop_back ops ?r\<rparr>" t] pb c(2-4) by simp
  have "blocks_at items (?b # live) ?p = (blocks_at items live p)(AllocC t := butlast (items ?r), Live := ?b # live)"
    unfolding blocks_upd_cache [where live = live] by (auto simp: fun_eq_iff pb)
  moreover have "mset (butlast (items ?r)) + mset (?b # live) = mset (items ?r) + mset live"
    using assms(2) by (metis (no_types) append_butlast_last_id mset.simps(2) mset_append union_mset_add_mset_left
        union_mset_add_mset_right mset.simps(1) add.right_neutral)
  ultimately have "pinv (?b # live) ?p"
    using pool_inv_move [OF assms(1) rings, of "AllocC t" Live "?b # live" "butlast (items ?r)" "?b # live"] by simp
  then show ?thesis
    using at_back [OF assms(2)] by (simp add: take_cached_def Let_def)
qed

lemma fill_inv:
  assumes "pinv live p"
  shows "pinv live (fillAllocCacheFromFreeBlocks ops t p)"
proof -
  note c = cache_rings(1-4) [OF assms, of t] cache_rings(5,6) [OF assms]
  obtain fb r where l: "fill_loop ops (hc_size ops (freeBlocks p)) (freeBlocks p) (allocCache (caches p t)) = (fb, r)"
    "hc_inv items room fb" "length (items r) \<le> room r" "room r = ac"
    "mset (hc_contents items fb) + mset (items r) = mset (hc_contents items (freeBlocks p)) + mset (items (allocCache (caches p t)))"
    using fill_loop_ok [of "freeBlocks p" "allocCache (caches p t)" "hc_size ops (freeBlocks p)"] c hc_ops(4) [OF c(5)] by auto
  let ?p = "p\<lparr>freeBlocks := fb, caches := (caches p)(t := (caches p t)\<lparr>allocCache := r\<rparr>)\<rparr>"
  have e: "fillAllocCacheFromFreeBlocks ops t p = ?p"
    using l(1) by (simp add: fillAllocCacheFromFreeBlocks_def Let_def)
  have rings: "rings_ok items room ac ?p"
    using rings_cache(2) [OF c(6), of "(caches p t)\<lparr>allocCache := r\<rparr>" fb t] c l(2-4) by simp
  have "blocks_at items live ?p = (blocks_at items live p)(Free := hc_contents items fb, AllocC t := items r)"
    unfolding blocks_upd [where live = live] by (auto simp: fun_eq_iff)
  then show ?thesis
    unfolding e using pool_inv_move [OF assms rings _ _, of Free "AllocC t"] l(5) by simp
qed

lemma flush_inv:
  assumes "pinv live p"
  shows "pinv live (flushFreedCache ops t p)" "items (freedCache (caches (flushFreedCache ops t p) t)) = []"
proof -
  note c = cache_rings(1-4) [OF assms, of t] cache_rings(5,6) [OF assms]
  obtain r fb where l: "flush_loop ops (r_size ops (freedCache (caches p t))) (freedCache (caches p t)) (freeBlocks p) = (r, fb)"
    "hc_inv items room fb" "items r = []" "room r = room (freedCache (caches p t))"
    "mset (hc_contents items fb) = mset (hc_contents items (freeBlocks p)) + mset (items (freedCache (caches p t)))"
    using flush_loop_ok [OF c(5), of "freedCache (caches p t)" "r_size ops (freedCache (caches p t))"] by (auto simp: size)
  let ?p = "p\<lparr>freeBlocks := fb, caches := (caches p)(t := (caches p t)\<lparr>freedCache := r\<rparr>)\<rparr>"
  have e: "flushFreedCache ops t p = ?p"
    using l(1) by (simp add: flushFreedCache_def Let_def)
  have rings: "rings_ok items room ac ?p"
    using rings_cache(2) [OF c(6), of "(caches p t)\<lparr>freedCache := r\<rparr>" fb t] c l(2-4) by simp
  have "blocks_at items live ?p = (blocks_at items live p)(Free := hc_contents items fb, FreedC t := items r)"
    unfolding blocks_upd [where live = live] by (auto simp: fun_eq_iff)
  then show "pinv live (flushFreedCache ops t p)"
    unfolding e using pool_inv_move [OF assms rings _ _, of Free "FreedC t"] l(3,5) by simp
  show "items (freedCache (caches (flushFreedCache ops t p) t)) = []"
    unfolding e using l(3) by simp
qed

text \<open>Blocks of a fresh chunk.\<close>

lemma chunk_split: "chunk_blocks base w 0 n @ chunk_blocks base w n (n + m) = chunk_blocks base w 0 (n + m)"
  unfolding chunk_blocks_def map_append [symmetric] by (metis le_add1 upt_add_eq_append zero_le)

lemma aligned_dvd: "64 dvd unat (aligned_size w)"
proof -
  have "take_bit 6 (aligned_size w) = 0"
    by (rule bit_word_eqI) (auto simp: aligned_size_def CACHE_LINE_SIZE_def bit_take_bit_iff bit_and_iff bit_not_iff
        mask_eq_exp_minus_1 [of 6, where ?'a = "64 word", simplified, symmetric] bit_mask_iff)
  then have "take_bit 6 (unat (aligned_size w)) = 0"
    by (simp flip: unsigned_take_bit_eq)
  then show ?thesis
    by (simp add: take_bit_eq_mod mod_eq_0_iff_dvd)
qed

lemma chunk_apart:
  assumes "apart asz B" "64 dvd base" "\<forall>x\<in>B. x + asz \<le> base \<or> base + n * asz \<le> x"
  shows "distinct (chunk_blocks base (aligned_size sizeof_T) 0 n)" "set (chunk_blocks base (aligned_size sizeof_T) 0 n) \<inter> B = {}"
    "apart asz (B \<union> set (chunk_blocks base (aligned_size sizeof_T) 0 n))"
proof -
  let ?Z = "set (chunk_blocks base (aligned_size sizeof_T) 0 n)"
  have z: "\<exists>k<n. z = base + k * asz" if "z \<in> ?Z" for z
    using that by (auto simp: chunk_blocks_def)
  have step: "k * asz + asz \<le> l * asz" if "k < l" for k l
    using that mult_le_mono1 [of "Suc k" l asz] by simp
  have zz: "x + asz \<le> y \<or> y + asz \<le> x" if "x \<in> ?Z" "y \<in> ?Z" "x \<noteq> y" for x y
  proof -
    note xy = that
    obtain k l where "x = base + k * asz" "y = base + l * asz"
      using z xy(1,2) by blast
    then show ?thesis
      using xy(3) step [of k l] step [of l k] by (cases k l rule: linorder_cases) auto
  qed
  have zb: "x + asz \<le> y \<or> y + asz \<le> x" if "x \<in> B" "y \<in> ?Z" for x y
  proof -
    note xy = that
    obtain k where "k < n" "y = base + k * asz"
      using z xy(2) by blast
    then show ?thesis
      using bspec [OF assms(3) xy(1)] step [of k n] by auto
  qed
  show "distinct (chunk_blocks base (aligned_size sizeof_T) 0 n)"
    using asz_pos by (auto simp: chunk_blocks_def distinct_map inj_on_def)
  have "x \<notin> B" if "x \<in> ?Z" for x
    using zb [of x x] that asz_pos by auto
  then show "?Z \<inter> B = {}"
    by blast
  have "64 dvd y" if "y \<in> ?Z" for y
    using z [OF that] assms(2) aligned_dvd by auto
  moreover have "x + asz \<le> y \<or> y + asz \<le> x" if "x \<in> B \<union> ?Z" "y \<in> B \<union> ?Z" "x \<noteq> y" for x y
  proof (cases "x \<in> B"; cases "y \<in> B")
    assume "x \<in> B" "y \<in> B"
    then show ?thesis
      using assms(1) that(3) unfolding apart_def by blast
  next
    assume "x \<in> B" "y \<notin> B"
    then show ?thesis
      using zb [of x y] that(2) by blast
  next
    assume "x \<notin> B" "y \<in> B"
    then show ?thesis
      using zb [of y x] that(1) by blast
  next
    assume "x \<notin> B" "y \<notin> B"
    then show ?thesis
      using zz [of x y] that by blast
  qed
  ultimately show "apart asz (B \<union> ?Z)"
    using assms(1) unfolding apart_def by (metis UnE)
qed

lemma grow_inv:
  assumes "pinv live p" "needed = ac - length (items (allocCache (caches p t)))" "64 dvd base"
    "\<forall>x\<in>all_blocks (blocks_at items live p). x + asz \<le> base \<or> base + (needed + ac) * asz \<le> x"
    and p': "p' = p\<lparr>allocatedBlocks := ab,
      caches := (caches p)(t := (caches p t)\<lparr>allocCache :=
         foldl (r_push_back ops) (allocCache (caches p t)) (chunk_blocks base (aligned_size sizeof_T) 0 needed)\<rparr>),
      freeBlocks := foldl (hc_push_back ops) (freeBlocks p) (chunk_blocks base (aligned_size sizeof_T) needed (needed + ac))\<rparr>"
  shows "pinv live p'"
    "length (items (allocCache (caches p t))) < ac \<Longrightarrow> items (allocCache (caches p' t)) \<noteq> []"
proof -
  let ?c1 = "chunk_blocks base (aligned_size sizeof_T) 0 needed" and ?c2 = "chunk_blocks base (aligned_size sizeof_T) needed (needed + ac)"
  let ?f = "blocks_at items live p" and ?r = "allocCache (caches p t)"
  note c = cache_rings(1-4) [OF assms(1), of t] cache_rings(5,6) [OF assms(1)]
  have len: "length ?c1 = needed"
    by (simp add: chunk_blocks_def)
  have r: "items (foldl (r_push_back ops) ?r ?c1) = items ?r @ ?c1" "room (foldl (r_push_back ops) ?r ?c1) = ac"
    using r_push_all [of ?r ?c1] c(1,2) len assms(2) by auto
  have fb: "hc_contents items (foldl (hc_push_back ops) (freeBlocks p) ?c2) = hc_contents items (freeBlocks p) @ ?c2"
    "hc_inv items room (foldl (hc_push_back ops) (freeBlocks p) ?c2)"
    using hc_push_all [OF c(5), of ?c2] by auto
  have ap: "apart asz (all_blocks ?f)" and ex: "exclusive ?f"
    using assms(1) by (auto simp: pool_inv_def)
  note new = chunk_apart [OF ap assms(3,4)] 
  have cs: "?c1 @ ?c2 = chunk_blocks base (aligned_size sizeof_T) 0 (needed + ac)"
    by (rule chunk_split)
  have d: "distinct ?c1" "set ?c1 \<inter> all_blocks ?f = {}" "distinct ?c2" "set ?c2 \<inter> (all_blocks ?f \<union> set ?c1) = {}"
    using new(1,2) unfolding cs [symmetric] by auto
  let ?g = "?f(AllocC t := ?f (AllocC t) @ ?c1)"
  note g = exclusive_add [OF ex d(1,2), of "AllocC t"]
  note h = exclusive_add [OF g(1) d(3), of Free] 
  have bl: "blocks_at items live p' = ?g(Free := ?g Free @ ?c2)"
  proof
    show "blocks_at items live p' a = (?g(Free := ?g Free @ ?c2)) a" for a
      by (cases a) (auto simp: r fb p')
  qed
  have "all_blocks (blocks_at items live p') = all_blocks ?f \<union> set (chunk_blocks base (aligned_size sizeof_T) 0 (needed + ac))"
    unfolding bl cs [symmetric] using h(2) d(4) g(2) by auto
  moreover have "exclusive (blocks_at items live p')"
    unfolding bl using h(1) d(4) g(2) by simp
  moreover have "rings_ok items room ac p'"
    using c r fb(2) len assms(2) by (auto simp: rings_ok_def p')
  ultimately show "pinv live p'"
    using new(3) by (simp add: pool_inv_def)
  show "items (allocCache (caches p' t)) \<noteq> []" if "length (items ?r) < ac"
    using that r(1) len assms(2) by (auto simp: p')
qed

lemma flag_inv:
  "pinv live p \<Longrightarrow> pinv live (p\<lparr>caches := (caches p)(t := (caches p t)\<lparr>hasAllocated := f\<rparr>)\<rparr>)"
  "blocks_at items live (p\<lparr>caches := (caches p)(t := (caches p t)\<lparr>hasAllocated := f\<rparr>)\<rparr>) = blocks_at items live p"
proof -
  let ?p = "p\<lparr>caches := (caches p)(t := (caches p t)\<lparr>hasAllocated := f\<rparr>)\<rparr>"
  show bl: "blocks_at items live ?p = blocks_at items live p"
    unfolding blocks_upd_cache [where live = live] by (auto simp: fun_eq_iff)
  assume "pinv live p"
  then show "pinv live ?p"
    using bl rings_cache(1) [of items room ac p "(caches p t)\<lparr>hasAllocated := f\<rparr>" t]
    by (simp add: pool_inv_def) (simp add: rings_ok_def)
qed

lemma fill_blocks:
  assumes "pinv live p"
  shows "all_blocks (blocks_at items live (fillAllocCacheFromFreeBlocks ops t p)) = all_blocks (blocks_at items live p)"
proof -
  note c = cache_rings(1-4) [OF assms, of t] cache_rings(5,6) [OF assms]
  obtain fb r where l: "fill_loop ops (hc_size ops (freeBlocks p)) (freeBlocks p) (allocCache (caches p t)) = (fb, r)"
    "mset (hc_contents items fb) + mset (items r) = mset (hc_contents items (freeBlocks p)) + mset (items (allocCache (caches p t)))"
    using fill_loop_ok [of "freeBlocks p" "allocCache (caches p t)" "hc_size ops (freeBlocks p)"] c hc_ops(4) [OF c(5)] by auto
  let ?p = "p\<lparr>freeBlocks := fb, caches := (caches p)(t := (caches p t)\<lparr>allocCache := r\<rparr>)\<rparr>"
  have "blocks_at items live ?p = (blocks_at items live p)(Free := hc_contents items fb, AllocC t := items r)"
    unfolding blocks_upd [where live = live] by (auto simp: fun_eq_iff)
  moreover have "exclusive (blocks_at items live p)"
    using assms by (simp add: pool_inv_def)
  ultimately show ?thesis
    using exclusive_move(2) [of "blocks_at items live p" Free "AllocC t" "hc_contents items fb" "items r"] l
    by (simp add: fillAllocCacheFromFreeBlocks_def Let_def)
qed

lemma new_inv:
  assumes "pinv live p" "pool_new ops ac sizeof_T t base sz p = (r, p')"
    "(\<exists>b. r = Inr b) \<longrightarrow> base_ok (all_blocks (blocks_at items live p)) asz (pool_request ops ac t p) base"
  shows "case r of Inl _ \<Rightarrow> pinv live p' | Inr b \<Rightarrow> pinv (b # live) p'"
proof (cases "sz = sizeof_T")
  case False
  then show ?thesis
    using assms by (auto simp: pool_new_def)
next
  case True
  let ?p1 = "p\<lparr>caches := (caches p)(t := (caches p t)\<lparr>hasAllocated := True\<rparr>)\<rparr>"
  have p1: "pinv live ?p1" "blocks_at items live ?p1 = blocks_at items live p"
    using flag_inv assms(1) by blast+
  show ?thesis
  proof (cases "items (allocCache (caches p t)) = []")
    case False
    then show ?thesis
      using take_cached_inv [OF p1(1), of t] assms(2) True by (auto simp: pool_new_def Let_def empty)
  next
    case e: True
    let ?p2 = "fillAllocCacheFromFreeBlocks ops t ?p1"
    let ?n = "ac - length (items (allocCache (caches ?p2 t)))"
    have p2: "pinv live ?p2"
      using fill_inv [OF p1(1)] .
    have rq: "pool_request ops ac t p = ?n + ac"
      by (simp add: pool_request_def fillAllocCacheFromFreeBlocks_def Let_def size split: prod.splits)
    show ?thesis
    proof (cases "?n = 0")
      case True
      then have "items (allocCache (caches ?p2 t)) \<noteq> []"
        using ac_pos by auto
      moreover have "pool_new ops ac sizeof_T t base sz p = take_cached ops t ?p2"
        using True e \<open>sz = sizeof_T\<close> by (simp add: pool_new_def Let_def empty size)
      ultimately show ?thesis
        using take_cached_inv [OF p2, of t] assms(2) by auto
    next
      case n: False
      show ?thesis
      proof (cases base)
        case None
        have "pool_new ops ac sizeof_T t base sz p = (Inl (Assert ''bad_alloc''), ?p2)"
          using None n e \<open>sz = sizeof_T\<close> leD [OF sizeof_ok] by (simp add: pool_new_def Let_def empty size)
        then show ?thesis
          using assms(2) p2 by auto
      next
        case (Some bs)
        let ?p3 = "?p2\<lparr>allocatedBlocks := hc_push_back ops (allocatedBlocks ?p2) bs,
            caches := (caches ?p2)(t := (caches ?p2 t)\<lparr>allocCache :=
               foldl (r_push_back ops) (allocCache (caches ?p2 t)) (chunk_blocks bs (aligned_size sizeof_T) 0 ?n)\<rparr>),
            freeBlocks := foldl (hc_push_back ops) (freeBlocks ?p2) (chunk_blocks bs (aligned_size sizeof_T) ?n (?n + ac))\<rparr>"
        have pn: "pool_new ops ac sizeof_T t base sz p = take_cached ops t ?p3"
          using Some n e \<open>sz = sizeof_T\<close> sizeof_ok by (auto simp: pool_new_def Let_def empty size)
        then have "\<exists>b. r = Inr b"
          using assms(2) by (auto simp: take_cached_def Let_def)
        then have base: "64 dvd bs" "\<forall>x\<in>all_blocks (blocks_at items live ?p2). x + asz \<le> bs \<or> bs + (?n + ac) * asz \<le> x"
          using assms(3) rq fill_blocks [OF p1(1)] p1(2) Some by (simp_all add: base_ok_def)
        note g = grow_inv [OF p2 refl base refl, of "hc_push_back ops (allocatedBlocks ?p2) bs"]
        have ne: "items (allocCache (caches ?p3 t)) \<noteq> []"
          using g(2) n by linarith
        show ?thesis
          using take_cached_inv [OF g(1) ne] pn assms(2) by auto
      qed
    qed
  qed
qed

lemma give_back:
  assumes "pinv live p" "b \<in> set live" "rings_ok items room ac p'" "a \<noteq> Live"
    "blocks_at items (remove1 b live) p' = (blocks_at items live p)(Live := remove1 b live, a := blocks_at items live p a @ [b])"
  shows "pinv (remove1 b live) p'"
  using pool_inv_move [OF assms(1,3) assms(4) [symmetric] assms(5)] assms(2) by simp

lemma delete_inv:
  assumes "pinv live p" "b \<in> set live" "pool_delete ops sizeof_T t (Some b) sz p = Inr p'"
  shows "pinv (remove1 b live) p'"
proof -
  let ?c = "caches p t"
  note c = cache_rings(1-4) [OF assms(1), of t] cache_rings(5,6) [OF assms(1)]
  have sz: "sz = sizeof_T"
    using assms(3) by (auto simp: pool_delete_def split: if_splits)
  consider (own) "hasAllocated ?c" "length (items (allocCache ?c)) < ac"
    | (freed) "\<not> (hasAllocated ?c \<and> \<not> r_full ops (allocCache ?c))" "length (items (freedCache ?c)) < room (freedCache ?c)"
    | (flush) "\<not> (hasAllocated ?c \<and> \<not> r_full ops (allocCache ?c))" "r_full ops (freedCache ?c)"
    using c(1-4) full [of "allocCache ?c"] full [of "freedCache ?c"] by linarith
  then show ?thesis
  proof cases
    case own
    let ?c' = "?c\<lparr>allocCache := r_push_back ops (allocCache ?c) b\<rparr>"
    have r: "items (r_push_back ops (allocCache ?c) b) = items (allocCache ?c) @ [b]" "room (r_push_back ops (allocCache ?c) b) = ac"
      using push_back [of "allocCache ?c" b] own(2) c(1) by auto
    have p': "p' = p\<lparr>caches := (caches p)(t := ?c')\<rparr>"
      using assms(3) own c(1) full [of "allocCache ?c"] by (auto simp: pool_delete_def Let_def sz)
    have "rings_ok items room ac p'"
      unfolding p' by (rule rings_cache(1) [OF c(6)]) (use r own(2) c in auto)
    moreover have "blocks_at items (remove1 b live) p'
        = (blocks_at items live p)(Live := remove1 b live, AllocC t := blocks_at items live p (AllocC t) @ [b])"
      unfolding p' blocks_upd_cache [where live = live] by (auto simp: fun_eq_iff r)
    ultimately show ?thesis
      by - (rule give_back [OF assms(1,2), of p' "AllocC t"], assumption, simp, assumption)
  next
    case freed
    let ?c' = "?c\<lparr>freedCache := r_push_back ops (freedCache ?c) b\<rparr>"
    have r: "items (r_push_back ops (freedCache ?c) b) = items (freedCache ?c) @ [b]"
      "room (r_push_back ops (freedCache ?c) b) = room (freedCache ?c)"
      using push_back [of "freedCache ?c" b] freed(2) by auto
    have p': "p' = p\<lparr>caches := (caches p)(t := ?c')\<rparr>"
      using assms(3) freed full [of "freedCache ?c"] by (auto simp: pool_delete_def Let_def sz)
    have "rings_ok items room ac p'"
      unfolding p' by (rule rings_cache(1) [OF c(6)]) (use r freed(2) c in auto)
    moreover have "blocks_at items (remove1 b live) p'
        = (blocks_at items live p)(Live := remove1 b live, FreedC t := blocks_at items live p (FreedC t) @ [b])"
      unfolding p' blocks_upd_cache [where live = live] by (auto simp: fun_eq_iff r)
    ultimately show ?thesis
      by - (rule give_back [OF assms(1,2), of p' "FreedC t"], assumption, simp, assumption)
  next
    case flush
    let ?p1 = "flushFreedCache ops t p"
    let ?c1 = "caches ?p1 t"
    let ?c' = "?c1\<lparr>freedCache := r_push_back ops (freedCache ?c1) b\<rparr>"
    note f = flush_inv [OF assms(1), of t]
    note c1 = cache_rings(1-4) [OF f(1), of t] cache_rings(5,6) [OF f(1)]
    have r: "items (r_push_back ops (freedCache ?c1) b) = items (freedCache ?c1) @ [b]"
      "room (r_push_back ops (freedCache ?c1) b) = room (freedCache ?c1)"
      using push_back [of "freedCache ?c1" b] f(2) c1(4) by auto
    have p': "p' = ?p1\<lparr>caches := (caches ?p1)(t := ?c')\<rparr>"
      using assms(3) flush by (auto simp: pool_delete_def Let_def sz)
    have "rings_ok items room ac p'"
      unfolding p' by (rule rings_cache(1) [OF c1(6)]) (use r f(2) c1 in auto)
    moreover have "blocks_at items (remove1 b live) p'
        = (blocks_at items live ?p1)(Live := remove1 b live, FreedC t := blocks_at items live ?p1 (FreedC t) @ [b])"
      unfolding p' blocks_upd_cache [where live = live] by (auto simp: fun_eq_iff r)
    ultimately show ?thesis
      by - (rule give_back [OF f(1) assms(2), of p' "FreedC t"], assumption, simp, assumption)
  qed
qed

lemma init_inv: "0 < fc \<Longrightarrow> 0 < nfree \<Longrightarrow> pinv [] (Pool_init ops ac fc nfree nalloc)"
proof -
  assume "0 < fc" "0 < nfree"
  moreover have "blocks_at items [] (Pool_init ops ac fc nfree nalloc) a = []" for a
    by (cases a) (simp_all add: Pool_init_def HybridCB_init_def hc_contents_def make)
  ultimately show ?thesis
    by (simp add: pool_inv_def rings_ok_def exclusive_def apart_def all_blocks_def Pool_init_def HybridCB_init_def hc_inv_def make)
qed

lemma reachable_pool_inv: "pool_reachable ops items ac sizeof_T live p \<Longrightarrow> pinv live p"
proof (induction rule: pool_reachable.induct)
  case (pool_alloc live p t base sz b p')
  then show ?case
    using new_inv [OF pool_alloc(4,3)] by simp
next
  case (pool_throw live p t base sz e p')
  then show ?case
    using new_inv [OF pool_throw(3,2)] by simp
qed (auto intro: init_inv delete_inv)

end

interpretation lp: pool_setup list_ring fst snd 2 100
  by unfold_locales (simp_all add: aligned_size_def CACHE_LINE_SIZE_def)

section \<open>Properties\<close>

text \<open>
  C39. The pool never hands out memory twice. Whatever the threads allocate and free, in
  any order and from any thread, the blocks in use are distinct, each is aligned to a
  cache line, and any two of them are at least the size of an object apart.
\<close>

theorem pool_blocks_exclusive:
  assumes "pool_setup ops items room ac sizeof_T" "pool_reachable ops items ac sizeof_T live p"
  shows "distinct live \<and> (\<forall>x\<in>set live. 64 dvd x)
     \<and> (\<forall>x\<in>set live. \<forall>y\<in>set live. x \<noteq> y \<longrightarrow> x + unat sizeof_T \<le> y \<or> y + unat sizeof_T \<le> x)"
proof -
  have inv: "pool_inv items room ac (unat (aligned_size sizeof_T)) live p"
    using pool_setup.reachable_pool_inv [OF assms] .
  have le: "unat sizeof_T \<le> unat (aligned_size sizeof_T)"
    using pool_setup.sizeof_ok [OF assms(1)] by (simp add: word_le_nat_alt)
  have "distinct (blocks_at items live p Live)" and sub: "set live \<subseteq> all_blocks (blocks_at items live p)"
    using inv unfolding pool_inv_def exclusive_def all_blocks_def by (blast, force intro: exI [of _ Live])
  moreover have "x + unat sizeof_T \<le> y \<or> y + unat sizeof_T \<le> x" if "x \<in> set live" "y \<in> set live" "x \<noteq> y" for x y
  proof -
    have "x + unat (aligned_size sizeof_T) \<le> y \<or> y + unat (aligned_size sizeof_T) \<le> x"
      using inv sub that unfolding pool_inv_def apart_def by blast
    then show ?thesis
      using le by linarith
  qed
  moreover have "\<forall>x\<in>set live. 64 dvd x"
    using inv sub unfolding pool_inv_def apart_def by blast
  ultimately show ?thesis
    by simp
qed

theorem pool_blocks_exclusive_witness:
  "\<exists>b1 b2 p. pool_reachable list_ring fst 2 100 [b2, b1] p \<and> b1 \<noteq> b2 \<and> (b1 + 100 \<le> b2 \<or> b2 + 100 \<le> b1)"
proof -
  let ?p0 = "Pool_init list_ring 2 2 4 4 :: (nat list \<times> nat) Pool"
  have r0: "pool_reachable list_ring fst 2 100 [] ?p0"
    by (rule pool_start) simp_all
  obtain b1 p1 where 1: "pool_new list_ring 2 100 0 (Some 64) 100 ?p0 = (Inr b1, p1)" "\<not> r_empty list_ring (allocCache (caches p1 0))"
    by (simp add: pool_new_def Pool_init_def HybridCB_init_def list_ring_def fillAllocCacheFromFreeBlocks_def fill_loop.simps
        hc_empty_def hc_size_def aligned_size_def CACHE_LINE_SIZE_def take_cached_def chunk_blocks_def upt_rec Let_def)
  have "\<forall>a. blocks_at fst [] ?p0 a = []"
    by (rule allI, rename_tac a, case_tac a) (simp_all add: Pool_init_def HybridCB_init_def hc_contents_def list_ring_def)
  then have r1: "pool_reachable list_ring fst 2 100 [b1] p1"
    by (intro pool_alloc [OF r0 _ 1(1)]) (simp add: base_ok_def all_blocks_def)
  obtain b2 p2 where 2: "pool_new list_ring 2 100 0 None 100 p1 = (Inr b2, p2)"
    using 1(2) by (simp add: pool_new_def take_cached_def Let_def)
  have r2: "pool_reachable list_ring fst 2 100 [b2, b1] p2"
    by (rule pool_alloc [OF r1 _ 2]) (simp add: base_ok_def)
  show ?thesis
    using pool_blocks_exclusive [OF lp.pool_setup_axioms r2] r2 by (intro exI [of _ b1] exI [of _ b2] exI [of _ p2]) auto
qed

end
