(* ===== verification/Sharded_Queue.thy ===== *)
theory Sharded_Queue
  imports Mailbox "HOL-Library.Multiset"
begin

text \<open>
  \<open>ShardedBQueue\<close> of \<open>src/actors/cpp/include/actors/ShardedBQueue.hpp\<close>: a mailbox split into
  lanes, filled round-robin through the shared cursor \<open>push_cursor_\<close> and emptied
  round-robin from \<open>pull_cursor_\<close>. A call is one step, so the model is the mailbox as its
  single consumer and one producer at a time see it; the condition variable and the
  fences, which only wake the consumer, are left out, and \<open>None\<close> is the wait on an empty
  mailbox.
\<close>

record 'a Sharded =
  lanes :: "'a list list"
  push_cursor :: u64
  pull_cursor :: nat

definition n_lanes :: "'a Sharded \<Rightarrow> nat" where
  "n_lanes q = length (lanes q)"

definition Sharded_init :: "nat \<Rightarrow> 'a Sharded" where
  "Sharded_init n = \<lparr>lanes = replicate (if n \<noteq> 0 then n else 1) [], push_cursor = 0, pull_cursor = 0\<rparr>"

definition any_nonempty :: "'a Sharded \<Rightarrow> bool" where
  "any_nonempty q \<longleftrightarrow> list_ex (\<lambda>l. l \<noteq> []) (lanes q)"

definition sh_push :: "'a Sharded \<Rightarrow> 'a \<Rightarrow> 'a Sharded" where
  "sh_push q x =
     (let lane = unat (push_cursor q) mod n_lanes q
      in q\<lparr>push_cursor := push_cursor q + 1, lanes := (lanes q)[lane := lanes q ! lane @ [x]]\<rparr>)"

text \<open>The scan of \<open>pop\<close> and \<open>peek\<close>: the first lane from \<open>base + j\<close> on that holds an item.\<close>

fun scan :: "'a list list \<Rightarrow> nat \<Rightarrow> nat \<Rightarrow> nat \<Rightarrow> nat option" where
  "scan ls base j 0 = None"
| "scan ls base j (Suc k) =
     (if ls ! ((base + j) mod length ls) \<noteq> [] then Some j else scan ls base (j + 1) k)"

definition sh_pop :: "'a Sharded \<Rightarrow> (('a \<times> bool) \<times> 'a Sharded) option" where
  "sh_pop q =
     (let base = pull_cursor q; n = n_lanes q in
      case scan (lanes q) base 0 n of
        None \<Rightarrow> None
      | Some j \<Rightarrow>
          (let l = (base + j) mod n; v = hd (lanes q ! l);
               q' = q\<lparr>lanes := (lanes q)[l := tl (lanes q ! l)], pull_cursor := (base + j + 1) mod n\<rparr>
           in Some ((v, \<not> any_nonempty q'), q')))"

definition sh_peek :: "'a Sharded \<Rightarrow> 'a option" where
  "sh_peek q =
     map_option (\<lambda>j. hd (lanes q ! ((pull_cursor q + j) mod n_lanes q))) (scan (lanes q) (pull_cursor q) 0 (n_lanes q))"

definition sh_is_empty :: "'a Sharded \<Rightarrow> bool" where
  "sh_is_empty q \<longleftrightarrow> list_all (\<lambda>l. l = []) (lanes q)"

definition sh_length :: "'a Sharded \<Rightarrow> nat" where
  "sh_length q = sum_list (map length (lanes q))"

definition kMaxDrain :: nat where "kMaxDrain = 8192"

text \<open>One rotation of \<open>pop_batch\<close> over the lanes \<open>js\<close>, and the loop of rotations.\<close>

fun rotation :: "nat list \<Rightarrow> 'a list list \<Rightarrow> 'a list \<Rightarrow> 'a list list \<times> 'a list" where
  "rotation [] ls out = (ls, out)"
| "rotation (l # js) ls out =
     (case ls ! l of
        [] \<Rightarrow> rotation js ls out
      | x # xs \<Rightarrow> rotation js (ls[l := xs]) (out @ [x]))"

fun drain_lanes :: "nat \<Rightarrow> nat \<Rightarrow> 'a list list \<Rightarrow> 'a list \<Rightarrow> 'a list list \<times> 'a list" where
  "drain_lanes 0 base ls out = (ls, out)"
| "drain_lanes (Suc fuel) base ls out =
     (let (ls', out') = rotation (map (\<lambda>j. (base + j) mod length ls) [0..<length ls]) ls out
      in if out' = out \<or> length out' \<ge> kMaxDrain then (ls', out')
         else drain_lanes fuel base ls' out')"

definition sh_pop_batch :: "'a Sharded \<Rightarrow> ('a list \<times> 'a Sharded) option" where
  "sh_pop_batch q =
     (let (ls, out) = drain_lanes (sh_length q + 1) (pull_cursor q) (lanes q) []
      in if out \<noteq> [] then Some (out, q\<lparr>lanes := ls\<rparr>) else None)"

section \<open>Nothing is lost\<close>

definition held :: "'a list list \<Rightarrow> 'a multiset" where
  "held ls = mset (concat ls)"

lemma held_update:
  assumes "l < length ls"
  shows "held (ls[l := xs]) + mset (ls ! l) = held ls + mset xs"
proof -
  have "ls = take l ls @ ls ! l # drop (Suc l) ls"
    using assms by (simp add: id_take_nth_drop)
  moreover have "ls[l := xs] = take l ls @ xs # drop (Suc l) ls"
    using assms by (simp add: upd_conv_take_nth_drop)
  ultimately have "held (ls[l := xs]) = mset (concat (take l ls)) + mset xs + mset (concat (drop (Suc l) ls))"
    "held ls = mset (concat (take l ls)) + mset (ls ! l) + mset (concat (drop (Suc l) ls))"
    unfolding held_def by (metis concat.simps(2) concat_append mset_append union_assoc)+
  then show ?thesis
    by (simp add: ac_simps)
qed

lemma held_size: "size (held ls) = sum_list (map length ls)"
  by (induction ls) (auto simp: held_def)

lemma rotation_held:
  "\<forall>l\<in>set js. l < length ls \<Longrightarrow> rotation js ls out = (ls', out') \<Longrightarrow>
     length ls' = length ls \<and> held ls' + mset out' = held ls + mset out \<and> (\<exists>new. out' = out @ new)"
proof (induction js ls out rule: rotation.induct)
  case (2 l js ls out)
  show ?case
  proof (cases "ls ! l")
    case Nil
    then show ?thesis
      using 2 by simp
  next
    case (Cons x xs)
    then have "length ls' = length ls \<and> held ls' + mset out' = held (ls[l := xs]) + mset (out @ [x])
        \<and> (\<exists>new. out' = (out @ [x]) @ new)"
      using 2(2) [OF Cons] 2(3,4) by simp
    moreover have "held (ls[l := xs]) + {#x#} = held ls"
      using held_update [of l ls xs] 2(3) Cons by simp
    ultimately show ?thesis
      by (auto simp: ac_simps)
  qed
qed simp

lemma drain_held:
  "0 < length ls \<Longrightarrow> drain_lanes fuel base ls out = (ls', out') \<Longrightarrow>
     length ls' = length ls \<and> held ls' + mset out' = held ls + mset out"
proof (induction fuel base ls out rule: drain_lanes.induct)
  case (2 fuel base ls out)
  let ?js = "map (\<lambda>j. (base + j) mod length ls) [0..<length ls]"
  obtain ls1 out1 where r: "rotation ?js ls out = (ls1, out1)"
    by force
  have h: "length ls1 = length ls" "held ls1 + mset out1 = held ls + mset out"
    using rotation_held [OF _ r] 2(2) by auto
  show ?case
    using 2 r h by (auto split: if_splits)
qed simp

text \<open>A run of calls: pushes, single pops and batch drains; the values received, in order.\<close>

datatype 'a sh_call = SPush 'a | SPop | SBatch

fun sh_run :: "'a sh_call list \<Rightarrow> 'a Sharded \<Rightarrow> 'a list \<times> 'a Sharded" where
  "sh_run [] q = ([], q)"
| "sh_run (SPush x # cs) q = sh_run cs (sh_push q x)"
| "sh_run (SPop # cs) q =
     (case sh_pop q of
        None \<Rightarrow> sh_run cs q
      | Some ((v, _), q') \<Rightarrow> (let (out, q'') = sh_run cs q' in (v # out, q'')))"
| "sh_run (SBatch # cs) q =
     (case sh_pop_batch q of
        None \<Rightarrow> sh_run cs q
      | Some (vs, q') \<Rightarrow> (let (out, q'') = sh_run cs q' in (vs @ out, q'')))"

fun sh_pushed :: "'a sh_call list \<Rightarrow> 'a list" where
  "sh_pushed [] = []"
| "sh_pushed (SPush x # cs) = x # sh_pushed cs"
| "sh_pushed (SPop # cs) = sh_pushed cs"
| "sh_pushed (SBatch # cs) = sh_pushed cs"

lemma push_held:
  assumes "0 < n_lanes q"
  shows "held (lanes (sh_push q x)) = held (lanes q) + {#x#}" "n_lanes (sh_push q x) = n_lanes q"
proof -
  let ?l = "unat (push_cursor q) mod n_lanes q"
  have "held ((lanes q)[?l := lanes q ! ?l @ [x]]) + mset (lanes q ! ?l) = held (lanes q) + mset (lanes q ! ?l @ [x])"
    using assms by (intro held_update) (simp add: n_lanes_def)
  then show "held (lanes (sh_push q x)) = held (lanes q) + {#x#}" "n_lanes (sh_push q x) = n_lanes q"
    by (simp_all add: sh_push_def Let_def n_lanes_def)
qed

lemma scan_Some:
  "scan ls base j k = Some i \<Longrightarrow> j \<le> i \<and> i < j + k \<and> ls ! ((base + i) mod length ls) \<noteq> []"
  by (induction ls base j k rule: scan.induct) (auto split: if_splits)

lemma scan_None:
  "scan ls base j k = None \<Longrightarrow> \<forall>i. j \<le> i \<and> i < j + k \<longrightarrow> ls ! ((base + i) mod length ls) = []"
proof (induction ls base j k rule: scan.induct)
  case (2 ls base j k)
  show ?case
  proof (intro allI impI)
    fix i assume "j \<le> i \<and> i < j + Suc k"
    then show "ls ! ((base + i) mod length ls) = []"
      using 2 by (cases "i = j") (auto split: if_splits)
  qed
qed auto

lemma pop_held:
  assumes "0 < n_lanes q" "sh_pop q = Some ((v, l), q')"
  shows "held (lanes q) = held (lanes q') + {#v#}" "n_lanes q' = n_lanes q" "l = (held (lanes q') = {#})"
proof -
  obtain j where j: "scan (lanes q) (pull_cursor q) 0 (n_lanes q) = Some j"
    using assms(2) by (auto simp: sh_pop_def Let_def split: option.splits)
  let ?l = "(pull_cursor q + j) mod n_lanes q"
  have ne: "lanes q ! ?l \<noteq> []" "?l < length (lanes q)"
    using scan_Some [OF j] assms(1) by (auto simp: n_lanes_def)
  have q': "lanes q' = (lanes q)[?l := tl (lanes q ! ?l)]" "v = hd (lanes q ! ?l)" "l = (\<not> any_nonempty q')"
    using assms(2) j by (auto simp: sh_pop_def Let_def)
  have "held ((lanes q)[?l := tl (lanes q ! ?l)]) + mset (lanes q ! ?l) = held (lanes q) + mset (tl (lanes q ! ?l))"
    by (rule held_update [OF ne(2)])
  moreover have "mset (lanes q ! ?l) = {#v#} + mset (tl (lanes q ! ?l))"
    using ne(1) by (cases "lanes q ! ?l") (auto simp: q'(2))
  ultimately show "held (lanes q) = held (lanes q') + {#v#}"
    by (simp add: q'(1) ac_simps)
  show "n_lanes q' = n_lanes q"
    by (simp add: n_lanes_def q'(1))
  show "l = (held (lanes q') = {#})"
    by (auto simp: q'(3) any_nonempty_def held_def list_ex_iff)
qed

lemma sh_run_held:
  "0 < n_lanes q \<Longrightarrow> sh_run cs q = (out, q') \<Longrightarrow> mset out + held (lanes q') = held (lanes q) + mset (sh_pushed cs)"
proof (induction cs q arbitrary: out rule: sh_run.induct)
  case (2 x cs q)
  then show ?case
    using push_held [OF 2(2), of x] by (simp add: ac_simps)
next
  case (3 cs q)
  show ?case
  proof (cases "sh_pop q")
    case None
    then show ?thesis
      using 3 by simp
  next
    case (Some r)
    then obtain v l q1 where s: "sh_pop q = Some ((v, l), q1)"
      by (metis surj_pair)
    note h = pop_held [OF 3(3) s]
    obtain out1 where o: "sh_run cs q1 = (out1, q')" "out = v # out1"
      using 3(4) s by (auto split: prod.splits)
    have "mset out1 + held (lanes q') = held (lanes q1) + mset (sh_pushed cs)"
      using 3(2) [OF s refl refl] h(2) 3(3) o(1) by simp
    then show ?thesis
      using h(1) o(2) by (simp add: ac_simps)
  qed
next
  case (4 cs q)
  show ?case
  proof (cases "sh_pop_batch q")
    case None
    then show ?thesis
      using 4 by simp
  next
    case (Some r)
    then obtain vs q1 where s: "sh_pop_batch q = Some (vs, q1)"
      by (metis surj_pair)
    obtain ls where d: "drain_lanes (sh_length q + 1) (pull_cursor q) (lanes q) [] = (ls, vs)" "q1 = q\<lparr>lanes := ls\<rparr>"
      using s by (auto simp: sh_pop_batch_def Let_def split: prod.splits if_splits)
    have h: "n_lanes q1 = n_lanes q" "held (lanes q1) + mset vs = held (lanes q)"
      using drain_held [OF _ d(1)] 4(3) d(2) by (auto simp: n_lanes_def)
    obtain out1 where o: "sh_run cs q1 = (out1, q')" "out = vs @ out1"
      using 4(4) s by (auto split: prod.splits)
    have "mset out1 + held (lanes q') = held (lanes q1) + mset (sh_pushed cs)"
      using 4(2) [OF s refl] h(1) 4(3) o(1) by simp
    then show ?thesis
      by (simp add: o(2) h(2) [symmetric] ac_simps)
  qed
qed simp

section \<open>Single pops keep the order\<close>

text \<open>
  \<open>aligned q xs\<close>: the items \<open>xs\<close>, oldest first, lie on the lanes in turn from the pull
  cursor on, and the next push goes to the lane after the last one.
\<close>

definition lane_items :: "nat \<Rightarrow> nat \<Rightarrow> 'a list \<Rightarrow> nat \<Rightarrow> 'a list" where
  "lane_items n r xs l = map snd (filter (\<lambda>(i, x). (r + i) mod n = l) (enumerate 0 xs))"

definition aligned :: "'a Sharded \<Rightarrow> 'a list \<Rightarrow> bool" where
  "aligned q xs \<longleftrightarrow> 0 < n_lanes q \<and> n_lanes q dvd 2 ^ 64 \<and> pull_cursor q < n_lanes q
     \<and> (\<forall>l<n_lanes q. lanes q ! l = lane_items (n_lanes q) (pull_cursor q) xs l)
     \<and> unat (push_cursor q) mod n_lanes q = (pull_cursor q + length xs) mod n_lanes q"

lemma lane_items_snoc:
  "lane_items n r (xs @ [x]) l = lane_items n r xs l @ (if (r + length xs) mod n = l then [x] else [])"
  by (simp add: lane_items_def enumerate_append_eq)

lemma lane_items_Cons:
  assumes "0 < n"
  shows "lane_items n r (x # xs) l = (if r mod n = l then [x] else []) @ lane_items n (Suc r mod n) xs l"
proof -
  have "filter (\<lambda>(i, y). (r + i) mod n = l) (enumerate (Suc k) xs)
      = map (\<lambda>(i, y). (Suc i, y)) (filter (\<lambda>(i, y). (Suc r mod n + i) mod n = l) (enumerate k xs))" for k
  proof (induction xs arbitrary: k)
    case (Cons y xs)
    have "(r + Suc k) mod n = (Suc r mod n + k) mod n"
      by (simp add: mod_add_left_eq)
    then show ?case
      using Cons.IH [of "Suc k"] by auto
  qed simp
  from this [of 0] show ?thesis
    by (auto simp: lane_items_def comp_def case_prod_beta)
qed

lemma unat_succ_mod:
  assumes "n dvd 2 ^ 64" "0 < n"
  shows "unat (c + 1 :: u64) mod n = Suc (unat c) mod n"
proof -
  have "unat (c + 1) = Suc (unat c) mod 2 ^ 64"
    by (simp add: unat_word_ariths)
  then show ?thesis
    using assms(1) by (simp add: mod_mod_cancel)
qed

lemma aligned_push:
  assumes "aligned q xs"
  shows "aligned (sh_push q x) (xs @ [x])"
proof -
  let ?n = "n_lanes q" and ?l = "unat (push_cursor q) mod n_lanes q"
  have n: "n_lanes (sh_push q x) = ?n" "0 < ?n" "?n dvd 2 ^ 64"
    using assms by (auto simp: aligned_def sh_push_def Let_def n_lanes_def)
  have "Suc (unat (push_cursor q)) mod ?n = Suc (pull_cursor q + length xs) mod ?n"
    using assms by (metis aligned_def mod_Suc_eq)
  then have "unat (push_cursor q + 1) mod ?n = (pull_cursor q + length (xs @ [x])) mod ?n"
    using unat_succ_mod [OF n(3,2)] by simp
  moreover have "lanes (sh_push q x) ! l = lane_items ?n (pull_cursor q) (xs @ [x]) l" if "l < ?n" for l
    using assms that by (auto simp: aligned_def sh_push_def Let_def lane_items_snoc n_lanes_def nth_list_update_if)
  ultimately show ?thesis
    using assms n by (simp add: aligned_def sh_push_def Let_def n_lanes_def)
qed

lemma aligned_Nil_iff: "aligned q xs \<Longrightarrow> sh_is_empty q \<longleftrightarrow> xs = []"
proof (cases xs)
  case Nil
  then show "aligned q xs \<Longrightarrow> ?thesis"
    by (auto simp: aligned_def sh_is_empty_def lane_items_def list_all_length n_lanes_def)
next
  case (Cons x ys)
  assume a: "aligned q xs"
  then have "lanes q ! pull_cursor q \<noteq> []"
    using Cons lane_items_Cons [of "n_lanes q" "pull_cursor q" x ys "pull_cursor q"] by (auto simp: aligned_def)
  then show ?thesis
    using a Cons by (auto simp: aligned_def sh_is_empty_def list_all_length n_lanes_def)
qed

lemma any_nonempty_iff: "any_nonempty q \<longleftrightarrow> \<not> sh_is_empty q"
  by (auto simp: any_nonempty_def sh_is_empty_def list_ex_iff list_all_iff)

lemma scan_empty: "\<forall>i<length ls. ls ! i = [] \<Longrightarrow> 0 < length ls \<Longrightarrow> scan ls base j k = None"
  by (induction ls base j k rule: scan.induct) auto

lemma aligned_pop_Nil:
  assumes "aligned q []"
  shows "sh_pop q = None" "sh_peek q = None"
proof -
  have "scan (lanes q) (pull_cursor q) 0 (n_lanes q) = None"
    using assms by (intro scan_empty) (auto simp: aligned_def lane_items_def n_lanes_def)
  then show "sh_pop q = None" "sh_peek q = None"
    by (simp_all add: sh_pop_def sh_peek_def Let_def)
qed

lemma aligned_pop_Cons:
  assumes "aligned q (x # xs)"
  shows "\<exists>q'. sh_pop q = Some ((x, xs = []), q') \<and> aligned q' xs" "sh_peek q = Some x"
proof -
  let ?n = "n_lanes q" and ?r = "pull_cursor q"
  have n: "0 < ?n" "?r < ?n" "?n dvd 2 ^ 64"
    using assms by (auto simp: aligned_def)
  have it: "lanes q ! l = (if ?r = l then [x] else []) @ lane_items ?n (Suc ?r mod ?n) xs l" if "l < ?n" for l
    using assms that n lane_items_Cons [of ?n ?r x xs l] by (simp add: aligned_def)
  obtain k where "?n = Suc k"
    using n(1) gr0_implies_Suc by blast
  then have sc: "scan (lanes q) ?r 0 ?n = Some 0"
    using it [OF n(2)] n(2) by (simp add: n_lanes_def)
  let ?q = "q\<lparr>lanes := (lanes q)[?r := tl (lanes q ! ?r)], pull_cursor := Suc ?r mod ?n\<rparr>"
  have nq: "n_lanes ?q = ?n"
    by (simp add: n_lanes_def)
  have "lanes ?q ! l = lane_items ?n (Suc ?r mod ?n) xs l" if "l < ?n" for l
    using it [OF that] that by (auto simp: n_lanes_def nth_list_update_if)
  moreover have "unat (push_cursor q) mod ?n = (Suc ?r mod ?n + length xs) mod ?n"
    using assms by (simp add: aligned_def mod_add_left_eq)
  ultimately have al: "aligned ?q xs"
    using n unfolding aligned_def nq by simp
  have "\<not> any_nonempty ?q \<longleftrightarrow> xs = []"
    using aligned_Nil_iff [OF al] by (simp add: any_nonempty_iff)
  then show "\<exists>q'. sh_pop q = Some ((x, xs = []), q') \<and> aligned q' xs"
    using sc it [OF n(2)] n al by (simp add: sh_pop_def Let_def)
  show "sh_peek q = Some x"
    using sc it [OF n(2)] n by (simp add: sh_peek_def)
qed

fun sh_drain :: "nat \<Rightarrow> 'a Sharded \<Rightarrow> 'a list" where
  "sh_drain 0 q = []"
| "sh_drain (Suc k) q = (case sh_pop q of None \<Rightarrow> [] | Some ((x, _), q') \<Rightarrow> x # sh_drain k q')"

definition sh_contents :: "'a Sharded \<Rightarrow> 'a list" where
  "sh_contents q = sh_drain (sh_length q) q"

definition sh_inv :: "'a Sharded \<Rightarrow> bool" where
  "sh_inv q \<longleftrightarrow> aligned q (sh_contents q)"

lemma aligned_drain: "aligned q xs \<Longrightarrow> length xs \<le> k \<Longrightarrow> sh_drain k q = xs"
proof (induction xs arbitrary: q k)
  case Nil
  then show ?case
    using aligned_pop_Nil(1) [OF Nil(1)] by (cases k) auto
next
  case (Cons x xs)
  obtain q' where "sh_pop q = Some ((x, xs = []), q')" "aligned q' xs"
    using aligned_pop_Cons(1) [OF Cons.prems(1)] by blast
  then show ?case
    using Cons by (cases k) auto
qed

lemma aligned_length: "aligned q xs \<Longrightarrow> sh_length q = length xs"
proof (induction xs arbitrary: q)
  case Nil
  then have "\<forall>l\<in>set (lanes q). l = []"
    by (auto simp: aligned_def lane_items_def n_lanes_def in_set_conv_nth)
  then show ?case
    by (simp add: sh_length_def)
next
  case (Cons x xs)
  obtain q' where p: "sh_pop q = Some ((x, xs = []), q')" "aligned q' xs"
    using aligned_pop_Cons(1) [OF Cons.prems] by blast
  have "size (held (lanes q)) = Suc (size (held (lanes q')))"
    using pop_held(1) [OF _ p(1)] Cons.prems by (simp add: aligned_def)
  then show ?case
    using Cons.IH [OF p(2)] by (simp add: held_size sh_length_def)
qed

lemma aligned_contents: "aligned q xs \<Longrightarrow> sh_contents q = xs \<and> sh_inv q"
  using aligned_drain [of q xs] aligned_length [of q xs] by (simp add: sh_contents_def sh_inv_def)

interpretation sh: mailbox sh_push sh_pop sh_peek sh_is_empty sh_length sh_contents sh_inv
proof
  fix q :: "'a Sharded" and x
  assume inv: "sh_inv q"
  then have al: "aligned q (sh_contents q)"
    by (simp add: sh_inv_def)
  show "sh_contents (sh_push q x) = sh_contents q @ [x]" "sh_inv (sh_push q x)"
    using aligned_contents [OF aligned_push [OF al]] by auto
  show "sh_pop q = None \<longleftrightarrow> sh_contents q = []"
    using al aligned_pop_Nil [of q] aligned_pop_Cons [of q] by (cases "sh_contents q") force+
  show "sh_peek q = (case sh_contents q of [] \<Rightarrow> None | x # _ \<Rightarrow> Some x)"
    using al aligned_pop_Nil [of q] aligned_pop_Cons [of q] by (cases "sh_contents q") auto
  show "sh_is_empty q \<longleftrightarrow> sh_contents q = []"
    using aligned_Nil_iff [OF al] .
  show "sh_length q = length (sh_contents q)"
    using aligned_length [OF al] .
next
  fix q q' :: "'a Sharded" and x l
  assume inv: "sh_inv q" and p: "sh_pop q = Some ((x, l), q')"
  then have al: "aligned q (sh_contents q)"
    by (simp add: sh_inv_def)
  obtain y ys where c: "sh_contents q = y # ys"
    using al aligned_pop_Nil [of q] p by (cases "sh_contents q") auto
  show "sh_contents q = x # sh_contents q' \<and> sh_inv q' \<and> l = (sh_contents q' = [])"
    using aligned_pop_Cons(1) [OF al [unfolded c]] p c aligned_contents by fastforce
qed

section \<open>Properties\<close>

lemma sharded_init: "0 < n \<Longrightarrow> n dvd 2 ^ 64 \<Longrightarrow> aligned (Sharded_init n) []"
  by (simp add: aligned_def Sharded_init_def n_lanes_def lane_items_def)

text \<open>
  A sharded mailbox loses and duplicates nothing. Over any sequence of pushes, single
  pops and batch drains, on any number of lanes, the values received together with those
  still on the lanes are exactly the values pushed.
\<close>

theorem sharded_no_loss:
  assumes "sh_run cs (Sharded_init n) = (out, q)"
  shows "mset out + mset (concat (lanes q)) = mset (sh_pushed cs)"
  using sh_run_held [OF _ assms] by (simp add: Sharded_init_def n_lanes_def held_def split: if_splits)

theorem sharded_no_loss_witness:
  "\<exists>out q. sh_run [SPush 1, SBatch, SPush 2, SPush (3 :: int), SPop] (Sharded_init 2) = (out, q)
     \<and> mset out + mset (concat (lanes q)) = {#1, 2, 3#}"
proof -
  obtain out q where r: "sh_run [SPush 1, SBatch, SPush 2, SPush (3 :: int), SPop] (Sharded_init 2) = (out, q)"
    by force
  show ?thesis
    using sharded_no_loss [OF r] r by (intro exI [of _ out] exI [of _ q] conjI) auto
qed

text \<open>
  Read with single pops, a sharded mailbox whose lane count divides the range of its
  cursor (a power of two) is a FIFO queue: the values popped are the first ones pushed, in
  order, over any number of pushes, wrap-around of the 64-bit cursor included.
\<close>

theorem sharded_pop_fifo:
  assumes "0 < n" "n dvd 2 ^ 64" "mb_run sh_push sh_pop es (Sharded_init n) = (out, q)"
  shows "\<exists>rest. pushes es = out @ rest \<and> sh_length q = length rest"
proof -
  have "sh_contents (Sharded_init n) = []" "sh_inv (Sharded_init n)"
    using aligned_contents [OF sharded_init [OF assms(1,2)]] by auto
  then show ?thesis
    using sh.run_in_order [OF _ _ assms(3)] by (metis add_diff_cancel_left' length_append)
qed

theorem sharded_pop_fifo_witness:
  "\<exists>rest q. mb_run sh_push sh_pop [Some 1, Some 2, None, Some (3 :: int)] (Sharded_init 2) = ([1], q)
     \<and> [1, 2, 3] = [1] @ rest \<and> sh_length q = 2"
proof -
  obtain out q where r: "mb_run sh_push sh_pop [Some 1, Some 2, None, Some (3 :: int)] (Sharded_init 2) = (out, q)"
    by force
  moreover have "out = [1]"
    using r by (auto simp: Sharded_init_def sh_push_def sh_pop_def n_lanes_def Let_def eval_nat_numeral split: prod.splits)
  ultimately show ?thesis
    using sharded_pop_fifo [OF _ _ r] by auto
qed

text \<open>
  A batch drain does not advance the pull cursor, so it reorders what one producer
  sends. On two lanes, one value is pushed and drained; then 2 and 3 are pushed, in this
  order, and the next drain returns 3 before 2, although draining empties the mailbox each
  time.
\<close>

theorem sharded_batch_reorders:
  "fst (sh_run [SPush 1, SBatch, SPush 2, SPush (3 :: int), SBatch] (Sharded_init 2)) = [1, 3, 2]"
  by code_simp

end
