(* ===== verification/Lockfree_Ring.thy ===== *)
theory Lockfree_Ring
  imports Kaspar_Prelude
begin

unbundle bit_operations_syntax

text \<open>
  \<open>LockFreeMPSC\<close> of \<open>src/actors/cpp/include/actors/LockFreeMPSC.hpp\<close>: a bounded ring with a
  sequence number per cell, any number of producers and one consumer.

  Each shared access of \<open>try_push\<close> and \<open>try_pop\<close> is one step of a transition system, and the
  threads interleave freely: a thread's program counter and locals are its \<open>pstate\<close> or
  \<open>cstate\<close>. A weak compare-exchange may fail although the value matches. The release and
  acquire pair on \<open>seq\<close> orders the data access before the publication, as the interleaving
  does. Positions are natural numbers: they are \<open>size_t\<close> in the code, which would wrap
  after \<open>2 ^ 64\<close> messages. \<open>push\<close> repeats \<open>try_push\<close> until it succeeds and \<open>pop\<close> repeats
  \<open>try_pop\<close>; how they wait in between (spinning, condition variables) does not touch the
  ring. \<open>log\<close> and \<open>popped\<close> are history: the values in the order their producers claimed a
  cell, and those the consumer has received.
\<close>

section \<open>The ring and its threads\<close>

function round_up :: "nat \<Rightarrow> nat \<Rightarrow> nat" where
  "round_up p n = (if 0 < p \<and> p < n then round_up (2 * p) n else p)"
  by pat_completeness auto

termination
  by (relation "measure (\<lambda>(p, n). n - p)") auto

declare round_up.simps [simp del]

definition round_up_pow2 :: "nat \<Rightarrow> nat" where
  "round_up_pow2 n = round_up 1 n"

datatype 'a pstate =
    PIdle
  | PLoad 'a
  | PPos 'a nat
  | PSeen 'a nat
  | PClaim 'a nat
  | PWrite nat

datatype 'a cstate = CIdle | CPos nat | CSeen nat | CTaken nat | CRead nat 'a

record 'a MPSC =
  seqs :: "nat list"
  datas :: "'a list"
  enqueue_pos :: nat
  dequeue_pos :: nat
  prods :: "nat \<Rightarrow> 'a pstate"
  cons :: "'a cstate"
  log :: "'a list"
  popped :: "'a list"

definition MPSC_init :: "'a \<Rightarrow> nat \<Rightarrow> 'a MPSC" where
  "MPSC_init d capacity =
     \<lparr>seqs = [0..<round_up_pow2 capacity], datas = replicate (round_up_pow2 capacity) d, enqueue_pos = 0, dequeue_pos = 0,
      prods = (\<lambda>_. PIdle), cons = CIdle, log = [], popped = []\<rparr>"

text \<open>\<open>pos & mask_\<close>, where \<open>mask_\<close> is the number of cells less one.\<close>

definition cell :: "'a MPSC \<Rightarrow> nat \<Rightarrow> nat" where
  "cell s pos = pos AND (length (seqs s) - 1)"

definition set_prod :: "'a MPSC \<Rightarrow> nat \<Rightarrow> 'a pstate \<Rightarrow> 'a MPSC" where
  "set_prod s t p = s\<lparr>prods := (prods s)(t := p)\<rparr>"

inductive push_step :: "'a MPSC \<Rightarrow> 'a MPSC \<Rightarrow> bool" where
  p_start: "prods s t = PIdle \<Longrightarrow> push_step s (set_prod s t (PLoad x))"
| p_load: "prods s t = PLoad x \<Longrightarrow> push_step s (set_prod s t (PPos x (enqueue_pos s)))"
| p_seen: "prods s t = PPos x pos \<Longrightarrow> seqs s ! cell s pos = pos \<Longrightarrow> push_step s (set_prod s t (PSeen x pos))"
| p_full: "prods s t = PPos x pos \<Longrightarrow> seqs s ! cell s pos < pos \<Longrightarrow> push_step s (set_prod s t PIdle)"
| p_stale: "prods s t = PPos x pos \<Longrightarrow> seqs s ! cell s pos > pos \<Longrightarrow> push_step s (set_prod s t (PPos x (enqueue_pos s)))"
| p_cas: "prods s t = PSeen x pos \<Longrightarrow> enqueue_pos s = pos \<Longrightarrow>
     push_step s ((set_prod s t (PClaim x pos))\<lparr>enqueue_pos := pos + 1, log := log s @ [x]\<rparr>)"
| p_cas_fail: "prods s t = PSeen x pos \<Longrightarrow> push_step s (set_prod s t (PPos x (enqueue_pos s)))"
| p_write: "prods s t = PClaim x pos \<Longrightarrow>
     push_step s ((set_prod s t (PWrite pos))\<lparr>datas := (datas s)[cell s pos := x]\<rparr>)"
| p_publish: "prods s t = PWrite pos \<Longrightarrow>
     push_step s ((set_prod s t PIdle)\<lparr>seqs := (seqs s)[cell s pos := pos + 1]\<rparr>)"

inductive pop_step :: "'a MPSC \<Rightarrow> 'a MPSC \<Rightarrow> bool" where
  c_load: "cons s = CIdle \<Longrightarrow> pop_step s (s\<lparr>cons := CPos (dequeue_pos s)\<rparr>)"
| c_seen: "cons s = CPos pos \<Longrightarrow> seqs s ! cell s pos = pos + 1 \<Longrightarrow> pop_step s (s\<lparr>cons := CSeen pos\<rparr>)"
| c_empty: "cons s = CPos pos \<Longrightarrow> seqs s ! cell s pos < pos + 1 \<Longrightarrow> pop_step s (s\<lparr>cons := CIdle\<rparr>)"
| c_stale: "cons s = CPos pos \<Longrightarrow> seqs s ! cell s pos > pos + 1 \<Longrightarrow> pop_step s (s\<lparr>cons := CPos (dequeue_pos s)\<rparr>)"
| c_cas: "cons s = CSeen pos \<Longrightarrow> dequeue_pos s = pos \<Longrightarrow> pop_step s (s\<lparr>cons := CTaken pos, dequeue_pos := pos + 1\<rparr>)"
| c_cas_fail: "cons s = CSeen pos \<Longrightarrow> pop_step s (s\<lparr>cons := CPos (dequeue_pos s)\<rparr>)"
| c_read: "cons s = CTaken pos \<Longrightarrow> pop_step s (s\<lparr>cons := CRead pos (datas s ! cell s pos)\<rparr>)"
| c_release: "cons s = CRead pos v \<Longrightarrow>
     pop_step s (s\<lparr>cons := CIdle, seqs := (seqs s)[cell s pos := pos + (length (seqs s) - 1) + 1], popped := popped s @ [v]\<rparr>)"

inductive mpsc_reachable :: "'a \<Rightarrow> nat \<Rightarrow> 'a MPSC \<Rightarrow> bool" for d capacity where
  mpsc_start: "mpsc_reachable d capacity (MPSC_init d capacity)"
| mpsc_push: "mpsc_reachable d capacity s \<Longrightarrow> push_step s s' \<Longrightarrow> mpsc_reachable d capacity s'"
| mpsc_pop: "mpsc_reachable d capacity s \<Longrightarrow> pop_step s s' \<Longrightarrow> mpsc_reachable d capacity s'"

inductive_cases push_stepE: "push_step s s'"
inductive_cases pop_stepE: "pop_step s s'"

definition is_empty_ring :: "'a MPSC \<Rightarrow> bool" where
  "is_empty_ring s \<longleftrightarrow> dequeue_pos s = enqueue_pos s"

definition ring_length :: "'a MPSC \<Rightarrow> nat" where
  "ring_length s = (if enqueue_pos s > dequeue_pos s then enqueue_pos s - dequeue_pos s else 0)"

definition ring_peek :: "'a MPSC \<Rightarrow> 'a option" where
  "ring_peek s =
     (let pos = dequeue_pos s in if seqs s ! cell s pos = pos + 1 then Some (datas s ! cell s pos) else None)"

section \<open>The invariant\<close>

text \<open>Positions whose cell the consumer has given back.\<close>

definition released :: "'a MPSC \<Rightarrow> nat" where
  "released s = (case cons s of CTaken p \<Rightarrow> p | CRead p v \<Rightarrow> p | _ \<Rightarrow> dequeue_pos s)"

fun holds :: "'a pstate \<Rightarrow> nat option" where
  "holds (PClaim x pos) = Some pos"
| "holds (PWrite pos) = Some pos"
| "holds p = None"

definition prod_ok :: "'a MPSC \<Rightarrow> 'a pstate \<Rightarrow> bool" where
  "prod_ok s p \<longleftrightarrow>
     (case p of
        PPos x pos \<Rightarrow> pos \<le> enqueue_pos s
      | PSeen x pos \<Rightarrow> pos \<le> enqueue_pos s \<and> (pos = enqueue_pos s \<longrightarrow> seqs s ! cell s pos = pos)
      | PClaim x pos \<Rightarrow> dequeue_pos s \<le> pos \<and> pos < enqueue_pos s \<and> seqs s ! cell s pos = pos \<and> log s ! pos = x
      | PWrite pos \<Rightarrow> dequeue_pos s \<le> pos \<and> pos < enqueue_pos s \<and> seqs s ! cell s pos = pos \<and> datas s ! cell s pos = log s ! pos
      | _ \<Rightarrow> True)"

definition cons_ok :: "'a MPSC \<Rightarrow> bool" where
  "cons_ok s \<longleftrightarrow>
     (case cons s of
        CIdle \<Rightarrow> True
      | CPos pos \<Rightarrow> pos = dequeue_pos s
      | CSeen pos \<Rightarrow> pos = dequeue_pos s \<and> pos < enqueue_pos s \<and> seqs s ! cell s pos = pos + 1
      | CTaken pos \<Rightarrow> dequeue_pos s = pos + 1
      | CRead pos v \<Rightarrow> dequeue_pos s = pos + 1 \<and> v = log s ! pos)"

definition cells_ok :: "'a MPSC \<Rightarrow> bool" where
  "cells_ok s \<longleftrightarrow>
     (\<forall>p. released s \<le> p \<and> p < enqueue_pos s \<longrightarrow>
        (p < dequeue_pos s \<longrightarrow> seqs s ! cell s p = p + 1)
        \<and> (seqs s ! cell s p = p \<or> seqs s ! cell s p = p + 1 \<and> datas s ! cell s p = log s ! p))
     \<and> (\<forall>p. enqueue_pos s \<le> p \<and> p < released s + length (seqs s) \<longrightarrow> seqs s ! cell s p = p)"

definition mpsc_inv :: "'a MPSC \<Rightarrow> bool" where
  "mpsc_inv s \<longleftrightarrow> (\<exists>k. length (seqs s) = 2 ^ Suc k) \<and> length (datas s) = length (seqs s)
     \<and> dequeue_pos s \<le> enqueue_pos s \<and> enqueue_pos s \<le> released s + length (seqs s)
     \<and> length (log s) = enqueue_pos s \<and> popped s = take (released s) (log s)
     \<and> cells_ok s \<and> cons_ok s \<and> (\<forall>t. prod_ok s (prods s t))
     \<and> (\<forall>t t' p. holds (prods s t) = Some p \<longrightarrow> holds (prods s t') = Some p \<longrightarrow> t = t')"

lemma cell_mod: "length (seqs s) = 2 ^ k \<Longrightarrow> cell s p = p mod 2 ^ k"
  using take_bit_eq_mask [of k p] by (simp add: cell_def mask_eq_exp_minus_1 take_bit_eq_mod)

lemma mod_close:
  assumes "(p :: nat) mod n = q mod n" "p \<le> q" "q < p + n"
  shows "p = q"
proof -
  have "n dvd q - p"
    using assms(1,2) by (metis mod_eq_dvd_iff_nat)
  moreover have "q - p < n"
    using assms(2,3) by simp
  ultimately have "q - p = 0"
    by (meson dvd_imp_le leD neq0_conv)
  then show ?thesis
    using assms(2) by simp
qed

lemma round_up_pow: "\<exists>j. p = 2 ^ j \<Longrightarrow> \<exists>j. round_up p n = 2 ^ j \<and> n \<le> round_up p n"
proof (induction p n rule: round_up.induct)
  case (1 p n)
  then obtain j where p: "p = 2 ^ j"
    by blast
  show ?case
  proof (cases "p < n")
    case True
    have "2 * p = 2 ^ Suc j"
      using p by simp
    then show ?thesis
      using 1(1) True p by (subst (1 2) round_up.simps) (metis zero_less_numeral zero_less_power)
  next
    case False
    then show ?thesis
      using p by (subst (1 2) round_up.simps) auto
  qed
qed

lemma capacity_pow: "2 \<le> n \<Longrightarrow> \<exists>k. round_up_pow2 n = 2 ^ Suc k"
proof -
  assume n: "2 \<le> n"
  obtain j where j: "round_up_pow2 n = 2 ^ j" "n \<le> round_up_pow2 n"
    using round_up_pow [of 1 n] power_0 [of "2 :: nat"] unfolding round_up_pow2_def by metis
  then show ?thesis
    using n by (cases j) auto
qed

lemma inv_sel:
  assumes "mpsc_inv s"
  shows "cell s p = p mod length (seqs s)" "2 \<le> length (seqs s)" "cell s p < length (seqs s)"
    "length (datas s) = length (seqs s)" "released s \<le> dequeue_pos s" "dequeue_pos s \<le> enqueue_pos s"
    "enqueue_pos s \<le> released s + length (seqs s)" "length (log s) = enqueue_pos s" "popped s = take (released s) (log s)"
    "cells_ok s" "cons_ok s" "prod_ok s (prods s t)"
    "holds (prods s t) = Some p \<Longrightarrow> holds (prods s t') = Some p \<Longrightarrow> t = t'"
proof -
  obtain k where k: "length (seqs s) = 2 ^ Suc k"
    using assms by (auto simp: mpsc_inv_def)
  show "cell s p = p mod length (seqs s)" "2 \<le> length (seqs s)" "cell s p < length (seqs s)"
    using cell_mod [OF k, of p] k by (simp_all add: self_le_power)
  show "released s \<le> dequeue_pos s"
    using assms by (auto simp: mpsc_inv_def cons_ok_def released_def split: cstate.splits)
qed (use assms in \<open>auto simp: mpsc_inv_def\<close>)

lemma same_cell:
  assumes "mpsc_inv s" "cell s p = cell s q" "p \<le> q" "q < p + length (seqs s)"
  shows "p = q"
  using assms mod_close [of p "length (seqs s)" q] by (simp add: inv_sel(1) [OF assms(1)])

lemma same_cell_range:
  assumes "mpsc_inv s" "cell s p = cell s q" "released s \<le> p" "p < released s + length (seqs s)" "released s \<le> q"
    "q < released s + length (seqs s)"
  shows "p = q"
  using same_cell [OF assms(1,2)] same_cell [OF assms(1) assms(2) [symmetric]] assms(3-) by (cases "p \<le> q") auto

lemma cells_claimed:
  assumes "mpsc_inv s" "released s \<le> p" "p < enqueue_pos s"
  shows "p < dequeue_pos s \<Longrightarrow> seqs s ! cell s p = p + 1"
    "seqs s ! cell s p = p \<or> seqs s ! cell s p = p + 1 \<and> datas s ! cell s p = log s ! p"
  using inv_sel(10) [OF assms(1)] assms(2,3) by (auto simp: cells_ok_def)

lemma cells_free:
  "mpsc_inv s \<Longrightarrow> enqueue_pos s \<le> p \<Longrightarrow> p < released s + length (seqs s) \<Longrightarrow> seqs s ! cell s p = p"
  using inv_sel(10) [of s] by (auto simp: cells_ok_def)

lemma cell_cong: "length (seqs s') = length (seqs s) \<Longrightarrow> cell s' p = cell s p"
  by (simp add: cell_def)

lemma released_cong: "cons s' = cons s \<Longrightarrow> dequeue_pos s' = dequeue_pos s \<Longrightarrow> released s' = released s"
  by (cases "cons s") (simp_all add: released_def)

lemma set_prod_sel [simp]:
  "seqs (set_prod s t p) = seqs s" "datas (set_prod s t p) = datas s" "enqueue_pos (set_prod s t p) = enqueue_pos s"
  "dequeue_pos (set_prod s t p) = dequeue_pos s" "cons (set_prod s t p) = cons s" "log (set_prod s t p) = log s"
  "popped (set_prod s t p) = popped s" "prods (set_prod s t p) = (prods s)(t := p)"
  "cell (set_prod s t p) = cell s"
  by (auto simp: set_prod_def cell_def)

lemma released_set_prod [simp]: "released (set_prod s t p) = released s"
  by (rule released_cong) simp_all

lemma cell_upd [simp]:
  "cell (s\<lparr>enqueue_pos := e\<rparr>) = cell s" "cell (s\<lparr>dequeue_pos := e\<rparr>) = cell s" "cell (s\<lparr>log := l\<rparr>) = cell s"
  "cell (s\<lparr>datas := ds\<rparr>) = cell s" "cell (s\<lparr>cons := c\<rparr>) = cell s" "cell (s\<lparr>popped := ps\<rparr>) = cell s"
  "length xs = length (seqs s) \<Longrightarrow> cell (s\<lparr>seqs := xs\<rparr>) = cell s"
  by (auto simp: cell_def)

lemma released_upd [simp]:
  "released (s\<lparr>enqueue_pos := e\<rparr>) = released s" "released (s\<lparr>log := l\<rparr>) = released s" "released (s\<lparr>datas := ds\<rparr>) = released s"
  "released (s\<lparr>seqs := xs\<rparr>) = released s" "released (s\<lparr>popped := ps\<rparr>) = released s"
  by (rule released_cong; simp)+

lemma inv_set_prod:
  assumes "mpsc_inv s" "prod_ok s p" "holds p = None"
  shows "mpsc_inv (set_prod s t p)"
proof -
  have "cells_ok (set_prod s t p)"
    using inv_sel(10) [OF assms(1)] by (simp add: cells_ok_def)
  moreover have "cons_ok (set_prod s t p)"
    using inv_sel(11) [OF assms(1)] by (cases "cons s") (simp_all add: cons_ok_def)
  moreover have "prod_ok (set_prod s t p) q = prod_ok s q" for q
    by (cases q) (simp_all add: prod_ok_def)
  ultimately show ?thesis
    using assms by (simp add: mpsc_inv_def)
qed

lemma inv_cas:
  assumes "mpsc_inv s" "prods s t = PSeen x pos" "enqueue_pos s = pos"
  shows "mpsc_inv ((set_prod s t (PClaim x pos))\<lparr>enqueue_pos := pos + 1, log := log s @ [x]\<rparr>)" (is "mpsc_inv ?s")
proof -
  note v = inv_sel [OF assms(1)]
  have seen: "seqs s ! cell s pos = pos"
    using v(12) [of t] assms(2,3) by (simp add: prod_ok_def)
  have room: "pos < released s + length (seqs s)"
  proof (rule ccontr)
    assume "\<not> ?thesis"
    then have e: "pos = released s + length (seqs s)"
      using v(7) assms(3) by simp
    then have "cell s pos = cell s (released s)"
      by (simp add: v(1))
    then show False
      using cells_claimed(2) [OF assms(1), of "released s"] seen e v(2) assms(3) by (cases "seqs s") auto
  qed
  have c: "cell ?s = cell s" "released ?s = released s"
    by simp_all
  have cells: "cells_ok ?s"
    unfolding cells_ok_def c
  proof (intro conjI allI impI)
    fix p assume p: "released s \<le> p \<and> p < enqueue_pos ?s"
    then have pp: "p < pos \<or> p = pos"
      using assms(3) by auto
    then show "p < dequeue_pos ?s \<Longrightarrow> seqs ?s ! cell s p = p + 1"
      using cells_claimed(1) [OF assms(1), of p] p v(6) assms(3) by auto
    show "seqs ?s ! cell s p = p \<or> seqs ?s ! cell s p = p + 1 \<and> datas ?s ! cell s p = log ?s ! p"
      using pp cells_claimed(2) [OF assms(1), of p] p seen v(8) assms(3)
      by (auto simp: nth_append)
  next
    fix p assume "enqueue_pos ?s \<le> p \<and> p < released s + length (seqs ?s)"
    then show "seqs ?s ! cell s p = p"
      using cells_free [OF assms(1), of p] assms(3) by simp
  qed
  have prods: "prod_ok ?s (prods s t')" for t'
    using v(12) [of t'] assms(3) v(8) by (auto simp: prod_ok_def c nth_append split: pstate.splits)
  have new: "prod_ok ?s (PClaim x pos)"
    using seen v(6,8) assms(3) by (simp add: prod_ok_def c nth_append)
  have un: "holds (prods s t') \<noteq> Some pos" for t'
    using v(12) [of t'] assms(3) by (cases "prods s t'") (auto simp: prod_ok_def)
  have "cons_ok ?s"
    using v(6,8,11) assms(3) by (auto simp: cons_ok_def c nth_append split: cstate.splits)
  then show ?thesis
    unfolding mpsc_inv_def c using assms(1,3) room cells prods new un v
    by (auto simp: mpsc_inv_def)
qed

text \<open>Writing the data of a claimed cell, publishing it, and the moves of the consumer.\<close>

lemma held_range:
  assumes "mpsc_inv s" "holds (prods s t) = Some pos"
  shows "dequeue_pos s \<le> pos" "pos < enqueue_pos s" "seqs s ! cell s pos = pos"
    "released s \<le> pos" "pos < released s + length (seqs s)"
proof -
  show a: "dequeue_pos s \<le> pos" "pos < enqueue_pos s" "seqs s ! cell s pos = pos"
    using inv_sel(12) [OF assms(1), of t] assms(2) by (cases "prods s t"; simp add: prod_ok_def)+
  show "released s \<le> pos" "pos < released s + length (seqs s)"
    using a inv_sel(5,7) [OF assms(1)] by auto
qed

lemma inv_write:
  assumes "mpsc_inv s" "prods s t = PClaim x pos"
  shows "mpsc_inv ((set_prod s t (PWrite pos))\<lparr>datas := (datas s)[cell s pos := x]\<rparr>)" (is "mpsc_inv ?s")
proof -
  note v = inv_sel [OF assms(1)]
  note h = held_range [OF assms(1), of t pos]
  have c: "cell ?s = cell s" "released ?s = released s"
    by simp_all
  have h: "dequeue_pos s \<le> pos" "pos < enqueue_pos s" "seqs s ! cell s pos = pos" "released s \<le> pos"
    "pos < released s + length (seqs s)" "log s ! pos = x"
    using held_range [OF assms(1), of t pos] v(12) [of t] assms(2) by (simp_all add: prod_ok_def)
  have other: "cell s q \<noteq> cell s pos" if "released s \<le> q" "q < enqueue_pos s" "q \<noteq> pos" for q
    using same_cell_range [OF assms(1), of q pos] that h v(7) by auto
  have cells: "cells_ok ?s"
    unfolding cells_ok_def c
  proof (intro conjI allI impI)
    fix p assume p: "released s \<le> p \<and> p < enqueue_pos ?s"
    then show "p < dequeue_pos ?s \<Longrightarrow> seqs ?s ! cell s p = p + 1"
      using cells_claimed(1) [OF assms(1), of p] by simp
    show "seqs ?s ! cell s p = p \<or> seqs ?s ! cell s p = p + 1 \<and> datas ?s ! cell s p = log ?s ! p"
      using cells_claimed(2) [OF assms(1), of p] p h(3) other [of p] by (cases "p = pos") auto
  next
    fix p assume "enqueue_pos ?s \<le> p \<and> p < released s + length (seqs ?s)"
    then show "seqs ?s ! cell s p = p"
      using cells_free [OF assms(1), of p] by simp
  qed
  have prods: "prod_ok ?s (prods s t')" if "t' \<noteq> t" for t'
  proof (cases "prods s t'")
    case (PWrite q)
    have "q \<noteq> pos"
      using v(13) [of t' pos t] that PWrite assms(2) by auto
    then have "cell s q \<noteq> cell s pos"
      using other [of q] held_range [OF assms(1), of t' q] PWrite by simp
    then show ?thesis
      using v(12) [of t'] PWrite by (simp add: prod_ok_def c)
  qed (use v(12) [of t'] in \<open>simp_all add: prod_ok_def c\<close>)
  have new: "prod_ok ?s (PWrite pos)"
    using h v(3,4) by (simp add: prod_ok_def c)
  have un: "holds (((prods s)(t := PWrite pos)) t') = holds (prods s t')" for t'
    using assms(2) by simp
  have "cons_ok ?s"
    using v(11) by (cases "cons s") (simp_all add: cons_ok_def c)
  then show ?thesis
    unfolding mpsc_inv_def c using assms(1) cells prods new un v(13)
    by (simp add: mpsc_inv_def)
qed

lemma inv_publish:
  assumes "mpsc_inv s" "prods s t = PWrite pos"
  shows "mpsc_inv ((set_prod s t PIdle)\<lparr>seqs := (seqs s)[cell s pos := pos + 1]\<rparr>)" (is "mpsc_inv ?s")
proof -
  note v = inv_sel [OF assms(1)]
  have c: "cell ?s = cell s" "released ?s = released s"
    by simp_all
  have h: "dequeue_pos s \<le> pos" "pos < enqueue_pos s" "seqs s ! cell s pos = pos" "released s \<le> pos"
    "pos < released s + length (seqs s)" "datas s ! cell s pos = log s ! pos"
    using held_range [OF assms(1), of t pos] v(12) [of t] assms(2) by (simp_all add: prod_ok_def)
  have other: "cell s q \<noteq> cell s pos" if "released s \<le> q" "q < released s + length (seqs s)" "q \<noteq> pos" for q
    using same_cell_range [OF assms(1), of q pos] that h by auto
  have upd: "(seqs s)[cell s pos := Suc pos] ! cell s q = (if cell s q = cell s pos then Suc pos else seqs s ! cell s q)" for q
    using v(3) by (simp add: nth_list_update_if)
  have cells: "cells_ok ?s"
    unfolding cells_ok_def c
  proof (intro conjI allI impI)
    fix p assume p: "released s \<le> p \<and> p < enqueue_pos ?s"
    then show "p < dequeue_pos ?s \<Longrightarrow> seqs ?s ! cell s p = p + 1"
      using cells_claimed(1) [OF assms(1), of p] h(1) other [of p] v(7) by (cases "p = pos") auto
    show "seqs ?s ! cell s p = p \<or> seqs ?s ! cell s p = p + 1 \<and> datas ?s ! cell s p = log ?s ! p"
      using cells_claimed(2) [OF assms(1), of p] p h(6) other [of p] v(3,7) by (cases "p = pos") auto
  next
    fix p assume p: "enqueue_pos ?s \<le> p \<and> p < released s + length (seqs ?s)"
    then show "seqs ?s ! cell s p = p"
      using cells_free [OF assms(1), of p] other [of p] h v(5,6) by auto
  qed
  have prods: "prod_ok ?s (prods s t')" if "t' \<noteq> t" for t'
  proof (cases "holds (prods s t')")
    case (Some q)
    have "q \<noteq> pos"
      using v(13) [of t' pos t] that Some assms(2) by auto
    then have "cell s q \<noteq> cell s pos"
      using other [of q] held_range [OF assms(1) Some] by simp
    then show ?thesis
      using v(12) [of t'] Some by (cases "prods s t'") (simp_all add: prod_ok_def c)
  next
    case None
    then show ?thesis
      using v(12) [of t'] h(2,3) by (cases "prods s t'") (auto simp: prod_ok_def c upd)
  qed
  have "cell s (dequeue_pos s) \<noteq> cell s pos" if "dequeue_pos s < enqueue_pos s" "dequeue_pos s \<noteq> pos"
    using other [of "dequeue_pos s"] that v(5,7) by simp
  then have "cons_ok ?s"
    using v(11) h(3) by (cases "cons s") (auto simp: cons_ok_def c upd)
  then show ?thesis
    unfolding mpsc_inv_def c using assms(1) cells prods v(13)
    by (simp add: mpsc_inv_def) (simp add: prod_ok_def)
qed

lemma inv_cons:
  assumes "mpsc_inv s" "released (s\<lparr>cons := c\<rparr>) = released s" "cons_ok (s\<lparr>cons := c\<rparr>)"
  shows "mpsc_inv (s\<lparr>cons := c\<rparr>)"
proof -
  have "prod_ok (s\<lparr>cons := c\<rparr>) p = prod_ok s p" for p
    by (cases p) (simp_all add: prod_ok_def)
  moreover have "cells_ok (s\<lparr>cons := c\<rparr>)"
    using inv_sel(10) [OF assms(1)] by (simp add: cells_ok_def assms(2))
  ultimately show ?thesis
    using assms by (simp add: mpsc_inv_def)
qed

lemma inv_pop_cas:
  assumes "mpsc_inv s" "cons s = CSeen pos" "dequeue_pos s = pos"
  shows "mpsc_inv (s\<lparr>cons := CTaken pos, dequeue_pos := pos + 1\<rparr>)" (is "mpsc_inv ?s")
proof -
  note v = inv_sel [OF assms(1)]
  have r: "released ?s = released s" "released s = pos"
    using assms(2,3) by (simp_all add: released_def)
  have seen: "pos < enqueue_pos s" "seqs s ! cell s pos = pos + 1"
    using v(11) assms(2) by (auto simp: cons_ok_def)
  have prods: "prod_ok ?s (prods s t)" for t
  proof (cases "holds (prods s t)")
    case (Some q)
    have "q \<noteq> pos"
      using held_range(3) [OF assms(1) Some] seen(2) by auto
    then show ?thesis
      using v(12) [of t] Some assms(3) by (cases "prods s t") (auto simp: prod_ok_def)
  next
    case None
    then show ?thesis
      using v(12) [of t] by (cases "prods s t") (auto simp: prod_ok_def)
  qed
  have "cells_ok ?s"
    unfolding cells_ok_def r(1)
  proof (intro conjI allI impI)
    fix p assume p: "released s \<le> p \<and> p < enqueue_pos ?s"
    show "p < dequeue_pos ?s \<Longrightarrow> seqs ?s ! cell ?s p = p + 1"
      using p r(2) seen(2) by (auto simp: less_Suc_eq)
    show "seqs ?s ! cell ?s p = p \<or> seqs ?s ! cell ?s p = p + 1 \<and> datas ?s ! cell ?s p = log ?s ! p"
      using cells_claimed(2) [OF assms(1), of p] p by simp
  next
    fix p assume "enqueue_pos ?s \<le> p \<and> p < released s + length (seqs ?s)"
    then show "seqs ?s ! cell ?s p = p"
      using cells_free [OF assms(1), of p] by simp
  qed
  then show ?thesis
    unfolding mpsc_inv_def r(1) using assms(1) prods seen(1) v(7) by (simp add: mpsc_inv_def cons_ok_def)
qed

lemma inv_read:
  assumes "mpsc_inv s" "cons s = CTaken pos"
  shows "datas s ! cell s pos = log s ! pos"
proof -
  note v = inv_sel [OF assms(1)]
  have "released s = pos" "dequeue_pos s = pos + 1"
    using v(11) assms(2) by (simp_all add: released_def cons_ok_def)
  then show ?thesis
    using cells_claimed [OF assms(1), of pos] v(6) by auto
qed

lemma inv_release:
  assumes "mpsc_inv s" "cons s = CRead pos w"
  shows "mpsc_inv (s\<lparr>cons := CIdle, seqs := (seqs s)[cell s pos := pos + (length (seqs s) - 1) + 1], popped := popped s @ [w]\<rparr>)"
    (is "mpsc_inv ?s")
proof -
  note v = inv_sel [OF assms(1)]
  let ?n = "length (seqs s)"
  have d: "released s = pos" "dequeue_pos s = pos + 1" "w = log s ! pos" "released ?s = pos + 1"
    using v(11) assms(2) by (simp_all add: released_def cons_ok_def)
  have old: "seqs s ! cell s pos = pos + 1"
    using cells_claimed(1) [OF assms(1), of pos] d v(6) by simp
  have e: "pos + (?n - 1) + 1 = pos + ?n"
    using v(2) by simp
  have upd: "seqs ?s ! cell s q = (if cell s q = cell s pos then pos + ?n else seqs s ! cell s q)" for q
    using v(2,3) by (auto simp: nth_list_update_if)
  have far: "cell s q \<noteq> cell s pos" if "pos < q" "q < pos + ?n" for q
    using same_cell [OF assms(1), of pos q] that by auto
  have top: "cell s (pos + ?n) = cell s pos"
    by (simp add: v(1))
  have c: "cell ?s = cell s" "length (seqs ?s) = ?n"
    by simp_all
  have cells: "cells_ok ?s"
    unfolding cells_ok_def c d(4)
  proof (intro conjI allI impI)
    fix p assume p: "pos + 1 \<le> p \<and> p < enqueue_pos ?s"
    show "p < dequeue_pos ?s \<Longrightarrow> seqs ?s ! cell s p = p + 1"
      using p d(2) by simp
    show "seqs ?s ! cell s p = p \<or> seqs ?s ! cell s p = p + 1 \<and> datas ?s ! cell s p = log ?s ! p"
      using cells_claimed(2) [OF assms(1), of p] p d(1) far [of p] v(7) upd [of p] by auto
  next
    fix p assume p: "enqueue_pos ?s \<le> p \<and> p < pos + 1 + ?n"
    show "seqs ?s ! cell s p = p"
    proof (cases "p = pos + ?n")
      case True
      then show ?thesis
        using top upd [of p] by simp
    next
      case False
      then have "p < pos + ?n" "pos < p"
        using p v(6) d(2) by auto
      then show ?thesis
        using cells_free [OF assms(1), of p] p d(1) far [of p] upd [of p] by simp
    qed
  qed
  have prods: "prod_ok ?s (prods s t)" for t
  proof (cases "holds (prods s t)")
    case (Some q)
    have "cell s q \<noteq> cell s pos"
      using held_range [OF assms(1) Some] d far [of q] by simp
    then show ?thesis
      using v(12) [of t] Some upd by (cases "prods s t") (auto simp: prod_ok_def c)
  next
    case None
    have "cell s (enqueue_pos s) \<noteq> cell s pos" if "seqs s ! cell s (enqueue_pos s) = enqueue_pos s"
    proof
      assume "cell s (enqueue_pos s) = cell s pos"
      then have "enqueue_pos s = pos + 1"
        using that old by simp
      then show False
        using far [of "pos + 1"] v(2) \<open>cell s (enqueue_pos s) = cell s pos\<close> by simp
    qed
    then show ?thesis
      using v(12) [of t] None upd by (cases "prods s t") (auto simp: prod_ok_def c)
  qed
  have "popped ?s = take (pos + 1) (log s)"
    using v(6,8,9) d by (simp add: take_Suc_conv_app_nth)
  then show ?thesis
    unfolding mpsc_inv_def d(4) c using assms(1) cells prods v(6,7) d(1,2)
    by (simp add: mpsc_inv_def cons_ok_def)
qed

lemma push_step_inv:
  assumes "mpsc_inv s" "push_step s s'"
  shows "mpsc_inv s'"
  using assms(2)
proof cases
  case (p_seen t x pos)
  have "pos \<le> enqueue_pos s"
    using inv_sel(12) [OF assms(1), of t] p_seen(2) by (simp add: prod_ok_def)
  then show ?thesis
    using p_seen inv_set_prod [OF assms(1), of "PSeen x pos" t] by (auto simp: prod_ok_def)
next
  case (p_cas t x pos)
  then show ?thesis
    using inv_cas [OF assms(1)] by simp
next
  case (p_write t x pos)
  then show ?thesis
    using inv_write [OF assms(1)] by simp
next
  case (p_publish t pos)
  then show ?thesis
    using inv_publish [OF assms(1)] by simp
qed (use inv_set_prod [OF assms(1)] in \<open>auto simp: prod_ok_def\<close>)

lemma pop_step_inv:
  assumes "mpsc_inv s" "pop_step s s'"
  shows "mpsc_inv s'"
  using assms(2)
proof cases
  note v = inv_sel [OF assms(1)]
  {
    case c_load
    then show ?thesis
      using inv_cons [OF assms(1), of "CPos (dequeue_pos s)"] by (simp add: released_def cons_ok_def)
  next
    case (c_seen pos)
    have d: "pos = dequeue_pos s" "released s = pos"
      using v(11) c_seen(2) by (auto simp: cons_ok_def released_def)
    have "pos < enqueue_pos s"
      using cells_free [OF assms(1), of pos] c_seen(3) d v(2,6) by fastforce
    then show ?thesis
      using c_seen d inv_cons [OF assms(1), of "CSeen pos"] by (simp add: released_def cons_ok_def)
  next
    case (c_empty pos)
    then show ?thesis
      using inv_cons [OF assms(1), of CIdle] by (simp add: released_def cons_ok_def)
  next
    case (c_stale pos)
    then show ?thesis
      using inv_cons [OF assms(1), of "CPos (dequeue_pos s)"] by (simp add: released_def cons_ok_def)
  next
    case (c_cas pos)
    then show ?thesis
      using inv_pop_cas [OF assms(1)] by simp
  next
    case (c_cas_fail pos)
    then show ?thesis
      using inv_cons [OF assms(1), of "CPos (dequeue_pos s)"] by (simp add: released_def cons_ok_def)
  next
    case (c_read pos)
    then show ?thesis
      using inv_cons [OF assms(1), of "CRead pos (datas s ! cell s pos)"] inv_read [OF assms(1) c_read(2)] v(11)
      by (simp add: released_def cons_ok_def)
  next
    case (c_release pos w)
    then show ?thesis
      using inv_release [OF assms(1)] by simp
  }
qed

lemma mpsc_init_inv:
  assumes "2 \<le> capacity"
  shows "mpsc_inv (MPSC_init d capacity)"
proof -
  obtain k where k: "round_up_pow2 capacity = 2 ^ Suc k"
    using capacity_pow [OF assms] by blast
  let ?s = "MPSC_init d capacity"
  have len: "length (seqs ?s) = 2 ^ Suc k"
    by (simp add: MPSC_init_def k)
  have "seqs ?s ! cell ?s p = p" if "p < 2 ^ Suc k" for p
    using that cell_mod [OF len, of p] by (simp add: MPSC_init_def k)
  then show ?thesis
    using len by (auto simp: mpsc_inv_def cells_ok_def cons_ok_def prod_ok_def released_def) (auto simp: MPSC_init_def)
qed

lemma mpsc_reachable_inv: "mpsc_reachable d capacity s \<Longrightarrow> 2 \<le> capacity \<Longrightarrow> mpsc_inv s"
  by (induction rule: mpsc_reachable.induct) (auto intro: mpsc_init_inv push_step_inv pop_step_inv)

lemma mpsc_cells: "mpsc_reachable d capacity s \<Longrightarrow> length (seqs s) = round_up_pow2 capacity"
proof (induction rule: mpsc_reachable.induct)
  case (mpsc_push s s')
  then show ?case
    by (auto elim!: push_stepE)
next
  case (mpsc_pop s s')
  then show ?case
    by (auto elim!: pop_stepE)
qed (simp add: MPSC_init_def)

text \<open>A producer that runs alone on a ring with room succeeds, in six steps.\<close>

definition after_push :: "'a MPSC \<Rightarrow> 'a \<Rightarrow> 'a MPSC" where
  "after_push s x = s\<lparr>enqueue_pos := enqueue_pos s + 1, log := log s @ [x],
     datas := (datas s)[cell s (enqueue_pos s) := x], seqs := (seqs s)[cell s (enqueue_pos s) := enqueue_pos s + 1]\<rparr>"

lemma push_alone:
  assumes "mpsc_reachable d capacity s" "prods s t = PIdle" "seqs s ! cell s (enqueue_pos s) = enqueue_pos s"
  shows "mpsc_reachable d capacity (after_push s x)"
proof -
  let ?e = "enqueue_pos s"
  let ?s1 = "set_prod s t (PLoad x)" let ?s2 = "set_prod ?s1 t (PPos x ?e)" let ?s3 = "set_prod ?s2 t (PSeen x ?e)"
  let ?s4 = "(set_prod ?s3 t (PClaim x ?e))\<lparr>enqueue_pos := ?e + 1, log := log s @ [x]\<rparr>"
  let ?s5 = "(set_prod ?s4 t (PWrite ?e))\<lparr>datas := (datas s)[cell s ?e := x]\<rparr>"
  let ?s6 = "(set_prod ?s5 t PIdle)\<lparr>seqs := (seqs s)[cell s ?e := ?e + 1]\<rparr>"
  have "push_step s ?s1" "push_step ?s1 ?s2" "push_step ?s2 ?s3"
    using assms(2,3) p_start [of s t x] p_load [of ?s1 t x] p_seen [of ?s2 t x ?e] by simp_all
  moreover have "push_step ?s3 ?s4" "push_step ?s4 ?s5" "push_step ?s5 ?s6"
    using p_cas [of ?s3 t x ?e] p_write [of ?s4 t x ?e] p_publish [of ?s5 t ?e] by simp_all
  ultimately have "mpsc_reachable d capacity ?s6"
    using assms(1) mpsc_push by meson
  moreover have "?s6 = after_push s x"
    using assms(2) by (simp add: set_prod_def after_push_def fun_upd_idem_iff)
  ultimately show ?thesis
    by simp
qed

section \<open>Properties\<close>

text \<open>
  C15. With two cells or more, the lock-free ring delivers every message exactly once and in
  order, under any interleaving of any number of producers with the consumer. What the
  consumer has received is the sequence of messages in the order their producers claimed a
  cell, up to some point; \<open>peek\<close> returns the next of them; and the ring never holds more
  than its capacity, so no producer overwrites a message that was not received.
\<close>

theorem mpsc_exactly_once_in_order:
  assumes "mpsc_reachable d capacity s" "2 \<le> capacity"
  shows "popped s = take (length (popped s)) (log s)
     \<and> dequeue_pos s \<le> enqueue_pos s \<and> enqueue_pos s \<le> length (popped s) + round_up_pow2 capacity
     \<and> ring_length s = enqueue_pos s - dequeue_pos s
     \<and> (cons s = CIdle \<longrightarrow> ring_peek s = Some v \<longrightarrow> take (length (popped s) + 1) (log s) = popped s @ [v])"
proof -
  have inv: "mpsc_inv s"
    using mpsc_reachable_inv [OF assms] .
  note v = inv_sel [OF inv]
  have len: "length (popped s) = released s"
    using v(5,6,8,9) by simp
  have "take (length (popped s) + 1) (log s) = popped s @ [v]" if "cons s = CIdle" "ring_peek s = Some v"
  proof -
    have r: "released s = dequeue_pos s" "seqs s ! cell s (dequeue_pos s) = dequeue_pos s + 1" "v = datas s ! cell s (dequeue_pos s)"
      using that by (auto simp: released_def ring_peek_def Let_def split: if_splits)
    have lt: "dequeue_pos s < enqueue_pos s"
      using cells_free [OF inv, of "dequeue_pos s"] r(1,2) v(2,6) by fastforce
    then have "v = log s ! dequeue_pos s"
      using cells_claimed(2) [OF inv, of "dequeue_pos s"] r by simp
    then show ?thesis
      using lt v(8,9) r(1) len by (simp add: take_Suc_conv_app_nth)
  qed
  then show ?thesis
    using v(6,7,9) len mpsc_cells [OF assms(1)] by (auto simp: ring_length_def)
qed

lemma init_two: "MPSC_init d 2 = \<lparr>seqs = [0, 1], datas = [d, d], enqueue_pos = 0, dequeue_pos = 0, prods = (\<lambda>_. PIdle),
     cons = CIdle, log = [], popped = []\<rparr>"
proof -
  have "round_up_pow2 2 = 2"
    by (simp add: round_up_pow2_def round_up.simps)
  then show ?thesis
    by (simp add: MPSC_init_def upt_rec numeral_2_eq_2)
qed

theorem mpsc_exactly_once_in_order_witness:
  "\<exists>s. mpsc_reachable 0 2 s \<and> log s = [7 :: int] \<and> popped s = [] \<and> ring_peek s = Some 7
     \<and> take 1 (log s) = popped s @ [7] \<and> ring_length s = 1"
proof -
  let ?s = "after_push (MPSC_init (0 :: int) 2) 7"
  have r: "mpsc_reachable 0 2 ?s"
    by (rule push_alone [OF mpsc_start, of _ _ 0]) (simp_all add: init_two cell_def)
  have e: "log ?s = [7]" "popped ?s = []" "cons ?s = CIdle" "ring_peek ?s = Some 7" "enqueue_pos ?s = 1" "dequeue_pos ?s = 0"
    by (simp_all add: after_push_def init_two ring_peek_def cell_def)
  show ?thesis
    using mpsc_exactly_once_in_order [OF r, of 7] r e by (intro exI [of _ ?s]) simp
qed

text \<open>
  With one cell the ring loses messages and the consumer hangs. The sequence number of
  a published cell is then the number that marks the cell as free for the next position:
  two pushes in a row both succeed, the second overwrites the first, and from there no
  number of steps of the consumer ever returns a message, since the cell is ahead of the
  position it waits for.
\<close>

theorem mpsc_one_cell_overwrites:
  "\<exists>s. mpsc_reachable (0 :: int) 1 s \<and> log s = [7, 8] \<and> datas s = [8] \<and> (\<forall>t. prods s t = PIdle)
     \<and> (\<forall>s'. pop_step\<^sup>*\<^sup>* s s' \<longrightarrow> popped s' = [])"
proof -
  have "round_up_pow2 1 = 1"
    by (simp add: round_up_pow2_def round_up.simps)
  then have i: "MPSC_init (0 :: int) 1 = \<lparr>seqs = [0], datas = [0], enqueue_pos = 0, dequeue_pos = 0, prods = (\<lambda>_. PIdle),
     cons = CIdle, log = [], popped = []\<rparr>"
    by (simp add: MPSC_init_def)
  let ?s1 = "after_push (MPSC_init (0 :: int) 1) 7" let ?s2 = "after_push ?s1 8"
  have r1: "mpsc_reachable 0 1 ?s1"
    by (rule push_alone [OF mpsc_start, of _ _ 0]) (simp_all add: i cell_def del: One_nat_def)
  have r2: "mpsc_reachable 0 1 ?s2"
    by (rule push_alone [OF r1, of 0]) (simp_all add: i after_push_def cell_def del: One_nat_def)
  have "popped s' = [] \<and> seqs s' = [2] \<and> dequeue_pos s' = 0 \<and> (cons s' = CIdle \<or> cons s' = CPos 0)" if "pop_step\<^sup>*\<^sup>* ?s2 s'" for s'
    using that
  proof (induction rule: rtranclp_induct)
    case base
    then show ?case
      by (simp add: after_push_def i cell_def del: One_nat_def)
  next
    case (step s s')
    then show ?case
      by (auto elim!: pop_stepE simp: cell_def)
  qed
  then show ?thesis
    using r2 by (intro exI [of _ ?s2]) (auto simp: after_push_def i cell_def simp del: One_nat_def)
qed

theorem mpsc_one_cell_overwrites_witness:
  "\<exists>s s'. mpsc_reachable (0 :: int) 1 s \<and> log s = [7, 8] \<and> pop_step\<^sup>*\<^sup>* s s' \<and> popped s' = []"
proof -
  obtain s where s: "mpsc_reachable (0 :: int) 1 s" "log s = [7, 8]" "pop_step\<^sup>*\<^sup>* s s \<longrightarrow> popped s = []"
    using mpsc_one_cell_overwrites by blast
  then show ?thesis
    by blast
qed

end
