(* ===== verification/Spec2Isabelle.thy ===== *)
theory Spec2Isabelle
  imports Light_Flags Mdp3_Line Tach_Faults SOM_Book OB_Feed_Properties OB_Live OB_Publication Point Fill_Slate Linked_Queue Position QCoord Memory_Pool Sharded_Queue Lockfree_Ring
begin

text \<open>
  A verification development for the Kaspar trading framework.

  \<^bold>\<open>The program.\<close> Kaspar is a C++ framework of actors for trading on one exchange feed and
  for simulating it. Packets of the exchange arrive on two multicast lines.
  \<open>MessageProcessor\<close> (\<open>src/mdp3/include/mdp3/act\<close>) puts them in the order of their sequence
  numbers and gives each one to \<open>DataDecoder\<close>, which walks over its messages with the decoders
  of \<open>msg_decoder.hpp\<close> and calls \<open>handler_if\<close>. The handler sends each record to the book of
  its instrument. When a packet stays out, \<open>RecoveryProcessor\<close> rebuilds the books from the
  snapshot line. There are two books, both in \<open>src/frame_kaspr/include/frame/ob/act\<close>:
  \<open>TachBook\<close>, which only follows the exchange and publishes a depth snapshot when it changes,
  and \<open>OB\<close>, which also holds simulated orders of our own traders and fills them when the real
  orders around them trade. The order manager \<open>SOM\<close> numbers the traders' orders, checks their
  limits, passes them to \<open>OB\<close> or to an exchange and keeps the \<open>Position\<close>s. The strategy
  is a bank of lights (\<open>light22\<close>): each shadows the book's records with one order at a time, and they
  share the position in \<open>PCoord\<close> and their working orders in \<open>QCoord\<close>. All actors talk
  through the mailboxes of \<open>src/actors/cpp/include/actors\<close>, and the messages come from its
  \<open>MemoryPool\<close>.

  \<^bold>\<open>Conventions.\<close> A class is a record, its methods are functions on the record; a function
  that can reach \<open>ASSERT\<close>, \<open>ERR\<close> or \<open>SNGH\<close> returns \<open>'a res\<close> (\<open>Kaspar_Prelude\<close>), where
  \<open>Inl\<close> is the abort with its message. What an object sends is appended to a list in its state,
  in sending order. Handlers of one actor run one after the other, so an actor is a state and a
  step function, and what holds of it is proved over all runs or all reachable states. Only
  \<open>LockFreeMPSC\<close> is shared without a lock; there the steps are the single atomic accesses of
  the threads and they interleave freely. An integer has its width where the code relies on it
  (order references, sequence and record numbers, aggregate sizes, block addresses, keys of the
  caches); sizes and counts that stay far from their limits are \<open>int\<close>. The type \<open>double\<close> is \<open>real\<close>.
  Pointers to orders are the addresses they were allocated at. A flat map that the code
  iterates over is a sorted list of pairs (\<open>Flat_Map\<close>), one that is only looked up a HOL map.

  \<^bold>\<open>Theories and code.\<close>
  \<^item> \<open>Kaspar_Prelude\<close>, \<open>Flat_Map\<close>: aborts, their sequencing, and ordered maps.
  \<^item> \<open>Order_ID\<close>: \<open>frame/mda/OrderID.hpp\<close>. \<open>Payload\<close>: the payload of \<open>frame/mda/msg/Data.hpp\<close>
    with its construction and check, and the tick of a price (\<open>frame/ref/Price.hpp\<close>).
  \<^item> \<open>Order_Queue\<close>, \<open>Linked_Queue\<close>: one price level of \<open>OB\<close> (\<open>frame/ob/Order.hpp\<close>,
    \<open>OrderQ.hpp\<close>, \<open>OrderQNode.hpp\<close>), first with lists, then with the pointers of the doubly
    linked list, and the refinement between the two.
  \<^item> \<open>OB_Book\<close>: the book half of \<open>OB.cpp\<close> (\<open>add\<close>, \<open>modify\<close>, \<open>clear\<close>, the inside, the
    subscribers, notifications and the queue of delayed publications). \<open>OB_Feed\<close>: the feed half
    (\<open>data_handler\<close>, \<open>process_q\<close>, \<open>process_market_data\<close>, recovery, held fills). \<open>OB_Invariant\<close>,
    \<open>OB_Frame\<close>, \<open>OB_Properties\<close>, \<open>OB_Live\<close>, \<open>OB_Publication\<close> and \<open>OB_Feed_Properties\<close>
    hold their lemmas.
  \<^item> \<open>Fill_Slate\<close>: \<open>frame/ob/FillSlate.hpp\<close>, fills held until the records of their orders tell who
    was the aggressor. \<open>Point\<close>: the depth snapshot of \<open>point.hpp\<close> and \<open>point.cpp\<close>.
  \<^item> \<open>Tach_Book\<close>, \<open>Tach_Ladder\<close>, \<open>Tach_Properties\<close>, \<open>Tach_Orders\<close>, \<open>Tach_Faults\<close>:
    \<open>frame/ob/act/TachBook.hpp\<close> with both of its ladders.
  \<^item> \<open>Mdp3_Sequence\<close> (\<open>act/MessageProcessor.hpp\<close>), \<open>Mdp3_Decoder\<close> (\<open>DataDecoder.hpp\<close>,
    \<open>msg_decoder.hpp\<close>), \<open>Mdp3_Handler\<close> (\<open>handler_if.hpp\<close>), \<open>Mdp3_Recovery\<close>
    (\<open>act/RecoveryProcessor.hpp\<close>), their property theories, and \<open>Mdp3_Line\<close>, which runs the
    first on the decoder of the second and connects it to the books and to the fourth.
  \<^item> \<open>SOM\<close>: \<open>src/frame_kaspr/src/SOM.cpp\<close>; \<open>SOM_Typing\<close> and \<open>SOM_Properties\<close> are about it,
    \<open>SOM_Book\<close> puts it in front of \<open>OB_Feed\<close>. \<open>Position\<close>: \<open>frame/pos/Position.hpp\<close>.
  \<^item> \<open>QCoord\<close>: \<open>src/light/include/light/qcoord.hpp\<close> with \<open>chutil/cache_array.hpp\<close>.
  \<^item> \<open>Light\<close>: \<open>light22.hpp\<close> and \<open>light22_base.hpp\<close> of \<open>src/light/include/light/act\<close>; \<open>Light_Bank\<close>
    runs several lights on one coordinator, \<open>Light_Properties\<close> and \<open>Light_Flags\<close> are about one.
  \<^item> \<open>Mailbox\<close> (\<open>BQueue.hpp\<close>, \<open>BQueueBatched.hpp\<close>, \<open>HybridBuffer.hpp\<close>), \<open>Sharded_Queue\<close>
    (\<open>ShardedBQueue.hpp\<close>), \<open>Lockfree_Ring\<close> (\<open>LockFreeMPSC.hpp\<close>) and \<open>Memory_Pool\<close>
    (\<open>HybridCB.hpp\<close>, \<open>MemoryPool.hpp\<close>).

  The opening text of each theory says how its types and functions correspond to the code.

  \<^bold>\<open>What is shown.\<close>
  \<^item> A level: list, map and counters agree after every operation, cancels and fills do what the
    messages say, clearing ends, and the pointer code implements the list.
  \<^item> \<open>OB\<close>: the invariant of the book over all reachable states, with progress (admissible
    operations never abort); the fate of simulated orders on arrival, in the queue and at an
    execution; our own orders reach the book after their latency; the inside stays uncrossed on
    the live path and in every snapshot at the end of a burst.
  \<^item> \<open>FillSlate\<close>: each fill is released exactly once.
  \<^item> \<open>TachBook\<close>: on an orderly feed the aggregate sizes are the sums of the orders (a
    refinement of the book that has the orders only) and snapshots show them; in every reachable
    state the best prices are exact; and two records that break the correspondence.
  \<^item> The feed line: packets are decoded in order, at most once and under their own numbers; no
    hole is passed over without a recovery; two lines merge into one; a hole is waited for at most
    three packets; a well framed packet is decoded message by message; records are numbered; a
    trade follows its order; a recovery is one unbroken pass over the snapshots and its walk
    stays inside the buffer; a packet that fails alerts every book before the recovery; and the
    packets a recovery covers are dropped.
  \<^item> \<open>SOM\<close>: type safety of all handlers, limits, the effect of a stop, positions equal what was
    persisted, and what it sends is what the book expects.
  \<^item> The lights: the coordinator of a bank holds exactly the orders its lights are working, and no
    assertion of theirs fails while the order manager answers for the order a light has; every order
    is within all limits; deferred cancels and crossing orders keep their time; and four ways in
    which a light does less than it says (the switches that stop it are not read, a refused cancel
    is not sent again, a late fill frees the slot of another order, a stale alarm cancels one).
  \<^item> The rest: weighted prices equal their reference and lie within bounds, conservation of
    profit in \<open>Position\<close>, exact caches of \<open>QCoord\<close>, exclusive blocks of \<open>MemoryPool\<close>,
    exactly-once in-order delivery of \<open>LockFreeMPSC\<close> and first-in first-out mailboxes.

  \<^bold>\<open>Interfaces.\<close> \<open>ordered_store\<close> (maps) is interpreted on the sorted lists of \<open>Flat_Map\<close>;
  \<open>priority_level\<close> on \<open>OrderQ\<close>; \<open>feed_invariant\<close> twice, on the delay queue and on the
  snapshots of \<open>OB\<close>; \<open>price_ladder\<close> on the bid and the ask side of \<open>TachBook\<close>; \<open>mailbox\<close> on
  \<open>BQueue\<close> and on \<open>ShardedBQueue\<close>; \<open>pool_setup\<close>, which extends \<open>ring_buffer\<close>, on the allocator.
  \<open>ring_buffer\<close> states the documented behaviour of \<open>boost::circular_buffer\<close> and is interpreted on
  a pair of a list and a capacity.

  \<^bold>\<open>Loops and bounds.\<close> \<open>q_fill\<close> has the number of orders of the level as fuel, and each round
  that goes on removes one. \<open>release_chain\<close> of the slate has the number of held fills, since a
  chain visits an index once. The searches for the next best level of a ladder run over the
  levels left in the array. The walks over packets end because a message or group entry advances
  by at least one byte and stops at the length of the packet; the drain of the reorder map
  removes an entry in each round. None of the theorems assumes that a loop ended.

  \<^bold>\<open>Parameters.\<close> Code that is not in the repository is an argument: the ring of boost
  (\<open>ring_ops\<close>), the readers of the exchange's messages, which are generated from its schema
  (the record \<open>sbe\<close>), the daily break from the time zone database (\<open>brk\<close>), the order in which an
  unordered map is visited (\<open>visit\<close>), addresses from \<open>aligned_alloc\<close>, the names of actors, and
  the outputs of the random generator of a light. The number the order manager gives a light's order
  in its reply is an argument of the light's handlers, as are the records of the book.

  \<^bold>\<open>Not modelled.\<close> The replay of recorded files (\<open>BFA\<close>) with the column
  reader \<open>r_l3.hpp\<close>, the recorders and packet readers of \<open>mdp3\<close>, the multicast receivers, the
  command line drivers, the logger, \<open>dbento\<close> and the text protocols of \<open>MTD\<close> and \<open>MQ0\<close> are
  input and output. \<open>ilink\<close> is a socket session over generated messages. The threads of the actor
  runtime, its coordination and its remote messaging rest on operating system threads, ZeroMQ
  and JSON libraries. The tables of \<open>RefData\<close> come from a database; the attributes a component
  reads are fields of its model. The latency and slippage probes measure the program. \<open>oogsl\<close>
  wraps a numerical library, and the enumerations of \<open>chutil\<close> are generated. The runtime in Rust is a
  second implementation in another language. Within the modelled classes, log lines, printing,
  measurement stamps and code under build flags that no build file sets are left out; each
  theory names the flags.
\<close>

end
